(* ===== verification/Prelude.thy ===== *)
theory Prelude
  imports Complex_Main "HOL-Library.Word"
begin

text \<open>
  Shared vocabulary of the development: the byte and code-unit types, the fact collections the
  component proofs draw on, and the generic lemmas on lists, little-endian byte strings and
  powers of two that several components use.
\<close>

type_synonym byte = "8 word"
type_synonym code_unit = "16 word"
type_synonym jsstring = "code_unit list"

named_theorems appends_intro \<open>how each writer operation extends the bytes written so far\<close>
named_theorems reads \<open>what each reader operation returns on a well-placed reader\<close>

section \<open>Lists\<close>

definition put_at :: "nat \<Rightarrow> 'a list \<Rightarrow> 'a list \<Rightarrow> 'a list" where
  "put_at i xs buf = take i buf @ xs @ drop (i + length xs) buf"

lemma length_put_at [simp]: "i + length xs \<le> length buf \<Longrightarrow> length (put_at i xs buf) = length buf"
  by (simp add: put_at_def)

lemma take_put_at_le: "n \<le> i \<Longrightarrow> i \<le> length buf \<Longrightarrow> take n (put_at i xs buf) = take n buf"
  by (simp add: put_at_def min_def)

lemma take_put_at:
  "i \<le> length buf \<Longrightarrow> take (i + length xs) (put_at i xs buf) = take i buf @ xs"
  by (simp add: put_at_def)

lemma drop_split: "drop n xs = ys @ zs \<Longrightarrow> n \<le> length xs \<Longrightarrow>
   n + length ys \<le> length xs \<and> drop (n + length ys) xs = zs"
proof -
  assume d: "drop n xs = ys @ zs" and n: "n \<le> length xs"
  have "length xs - n = length ys + length zs"
    using arg_cong [OF d, of length] by simp
  moreover have "drop (length ys) (drop n xs) = zs"
    using d by simp
  ultimately show ?thesis
    using n by (simp add: add.commute)
qed

section \<open>Bytes\<close>

lemma unat_byte_of_nat [simp]: "n < 256 \<Longrightarrow> unat (word_of_nat n :: byte) = n"
  by (simp add: unat_of_nat)

lemma unat_byte_lt [simp]: "unat (b :: byte) < 256"
  using unsigned_less [of b, where ?'a = nat] by simp

text \<open>The \<open>n\<close> low bytes of a natural number, least significant first, and back.\<close>

fun le_bytes :: "nat \<Rightarrow> nat \<Rightarrow> byte list" where
  "le_bytes 0 v = []"
| "le_bytes (Suc n) v = word_of_nat (v mod 256) # le_bytes n (v div 256)"

fun le_nat :: "byte list \<Rightarrow> nat" where
  "le_nat [] = 0"
| "le_nat (b # bs) = unat b + 256 * le_nat bs"

lemma length_le_bytes [simp]: "length (le_bytes n v) = n"
  by (induction n arbitrary: v) auto

lemma le_nat_le_bytes: "v < 256 ^ n \<Longrightarrow> le_nat (le_bytes n v) = v"
proof (induction n arbitrary: v)
  case 0
  then show ?case by simp
next
  case (Suc n)
  from Suc.prems have "v div 256 < 256 ^ n"
    by (simp add: less_mult_imp_div_less mult.commute)
  then have "le_nat (le_bytes n (v div 256)) = v div 256"
    by (rule Suc.IH)
  then show ?case by simp
qed

lemma le_nat_append: "le_nat (as @ bs) = le_nat as + 256 ^ length as * le_nat bs"
  by (induction as) (auto simp: algebra_simps)

section \<open>Powers of two with integer exponents\<close>

definition pow2 :: "int \<Rightarrow> rat" where
  "pow2 k = (if 0 \<le> k then 2 ^ nat k else 1 / 2 ^ nat (- k))"

lemma pow2_pos [simp]: "0 < pow2 k"
  by (simp add: pow2_def)

lemma pow2_nonzero [simp]: "pow2 k \<noteq> 0"
  using pow2_pos [of k] by linarith

lemma pow2_nonneg [simp]: "0 \<le> pow2 k"
  using pow2_pos [of k] by linarith

lemma pow2_0 [simp]: "pow2 0 = 1"
  by (simp add: pow2_def)

lemma pow2_powi: "pow2 k = 2 powi k"
proof (cases "0 \<le> k")
  case True
  then show ?thesis by (simp add: pow2_def power_int_def)
next
  case False
  then have "(2 :: rat) powi k = inverse 2 ^ nat (- k)"
    by (simp only: power_int_def if_False)
  also have "\<dots> = inverse (2 ^ nat (- k))"
    by (rule power_inverse)
  finally show ?thesis
    using False by (simp only: pow2_def if_False inverse_eq_divide)
qed

lemma pow2_add: "pow2 (a + b) = pow2 a * pow2 b"
  by (simp add: pow2_powi power_int_add)

lemma pow2_diff: "pow2 (a - b) = pow2 a / pow2 b"
  by (simp add: pow2_powi power_int_diff)

lemma pow2_nat: "pow2 (int n) = 2 ^ n"
  by (simp add: pow2_def)

lemma pow2_Suc: "pow2 (k + 1) = 2 * pow2 k"
  by (simp add: pow2_powi power_int_add_1')

lemma pow2_strict: "a < b \<Longrightarrow> pow2 a < pow2 b"
  by (simp add: pow2_powi power_int_strict_increasing)

lemma pow2_less_iff [simp]: "pow2 a < pow2 b \<longleftrightarrow> a < b"
  using pow2_strict [of a b] pow2_strict [of b a] by (cases a b rule: linorder_cases) auto

lemma pow2_le_iff [simp]: "pow2 a \<le> pow2 b \<longleftrightarrow> a \<le> b"
  using pow2_less_iff [of b a] by (simp only: not_less [symmetric])

fun nlog2 :: "nat \<Rightarrow> nat" where
  "nlog2 n = (if n \<le> 1 then 0 else Suc (nlog2 (n div 2)))"

declare nlog2.simps [simp del]

lemma nlog2_bounds: "0 < n \<Longrightarrow> 2 ^ nlog2 n \<le> n \<and> n < 2 ^ Suc (nlog2 n)"
proof (induction n rule: nlog2.induct)
  case (1 n)
  show ?case
  proof (cases "n \<le> 1")
    case True
    with "1.prems" show ?thesis by (simp add: nlog2.simps [of n])
  next
    case False
    then have "0 < n div 2" by simp
    with False "1.IH" have "2 ^ nlog2 (n div 2) \<le> n div 2 \<and> n div 2 < 2 ^ Suc (nlog2 (n div 2))"
      by blast
    with False show ?thesis by (simp add: nlog2.simps [of n]) linarith
  qed
qed

end
