(* ===== verification/JsNum.thy ===== *)
theory JsNum
  imports Prelude
begin

text \<open>
  ECMAScript numbers, as the sources use them. A number is NaN, an infinity, negative zero or an
  exact rational; the numbers a program can hold are those binary64 can represent
  (\<open>num_ok\<close>). Arithmetic is exact arithmetic followed by rounding to nearest, ties to
  even (\<open>round_num\<close>). \<open>Object.is\<close> is equality of this type; \<open>===\<close> is
  \<open>num_eq\<close>. The byte images of \<open>DataView.setFloat32/64\<close> are
  \<open>float_bits\<close>, read back by \<open>num_of_bits\<close>.
\<close>

datatype jsnum = JNaN | JInf bool | JNegZero | JFin rat

abbreviation num_of_int :: "int \<Rightarrow> jsnum" where
  "num_of_int k \<equiv> JFin (of_int k)"

section \<open>Predicates and comparisons\<close>

fun isNaN :: "jsnum \<Rightarrow> bool" where
  "isNaN JNaN = True"
| "isNaN _ = False"

text \<open>\<open>Number.isInteger\<close>; negative zero is an integer.\<close>

fun isInteger :: "jsnum \<Rightarrow> bool" where
  "isInteger (JFin q) = (of_int \<lfloor>q\<rfloor> = q)"
| "isInteger JNegZero = True"
| "isInteger _ = False"

text \<open>The mathematical integer an integral number denotes (both zeros denote 0).\<close>

fun int_of_num :: "jsnum \<Rightarrow> int" where
  "int_of_num (JFin q) = \<lfloor>q\<rfloor>"
| "int_of_num _ = 0"

text \<open>\<open>a <= b\<close> and \<open>a < b\<close> on numbers; false as soon as one is NaN.\<close>

fun num_le :: "jsnum \<Rightarrow> jsnum \<Rightarrow> bool" where
  "num_le JNaN _ = False"
| "num_le _ JNaN = False"
| "num_le (JInf True) _ = True"
| "num_le _ (JInf False) = True"
| "num_le (JInf False) _ = False"
| "num_le _ (JInf True) = False"
| "num_le (JFin a) (JFin b) = (a \<le> b)"
| "num_le JNegZero (JFin b) = (0 \<le> b)"
| "num_le (JFin a) JNegZero = (a \<le> 0)"
| "num_le JNegZero JNegZero = True"

definition num_lt :: "jsnum \<Rightarrow> jsnum \<Rightarrow> bool" where
  "num_lt a b = (\<not> isNaN a \<and> \<not> isNaN b \<and> \<not> num_le b a)"

text \<open>Strict equality \<open>===\<close> on numbers.\<close>

definition num_eq :: "jsnum \<Rightarrow> jsnum \<Rightarrow> bool" where
  "num_eq a b = (num_le a b \<and> num_le b a)"

fun num_neg :: "jsnum \<Rightarrow> jsnum" where
  "num_neg JNaN = JNaN"
| "num_neg (JInf s) = JInf (\<not> s)"
| "num_neg JNegZero = JFin 0"
| "num_neg (JFin q) = (if q = 0 then JNegZero else JFin (- q))"

lemma num_eq_refl_iff: "num_eq a a \<longleftrightarrow> a \<noteq> JNaN"
  by (cases a rule: num_neg.cases) (auto simp: num_eq_def, (rename_tac s; case_tac s; simp)+)

lemma num_eq_int [simp]: "num_eq (JFin a) (JFin b) \<longleftrightarrow> a = b"
  by (auto simp: num_eq_def)

lemma int_of_num_of_int [simp]: "int_of_num (num_of_int k) = k" "isInteger (num_of_int k)"
  by auto

lemma isInteger_cases:
  assumes "isInteger x"
  obtains (int) k where "x = num_of_int k" | (negzero) "x = JNegZero"
proof (cases x)
  case (JFin q)
  with assms have "x = num_of_int \<lfloor>q\<rfloor>" by (simp only: isInteger.simps)
  then show ?thesis by (rule int)
qed (use assms negzero in auto)

section \<open>Binary floating-point formats\<close>

text \<open>A format has \<open>fbits\<close> fraction bits and \<open>ebits\<close> exponent bits.\<close>

record ffmt =
  fbits :: nat
  ebits :: nat

definition binary64 :: ffmt where
  "binary64 = \<lparr>fbits = 52, ebits = 11\<rparr>"

definition binary32 :: ffmt where
  "binary32 = \<lparr>fbits = 23, ebits = 8\<rparr>"

definition emin :: "ffmt \<Rightarrow> int" where
  "emin f = 2 - 2 ^ (ebits f - 1)"

definition emax :: "ffmt \<Rightarrow> int" where
  "emax f = 2 ^ (ebits f - 1) - 1"

text \<open>\<open>\<lfloor>log2 q\<rfloor>\<close> for a positive rational.\<close>

definition ilog2 :: "rat \<Rightarrow> int" where
  "ilog2 q = (let (n, d) = quotient_of q;
                  k = int (nlog2 (nat n)) - int (nlog2 (nat d))
              in if pow2 k \<le> q then k else k - 1)"

lemma nlog2_rat:
  assumes "0 < n"
  shows "(2 ^ nlog2 (nat n) :: rat) \<le> of_int n" "(of_int n :: rat) < 2 ^ Suc (nlog2 (nat n))"
proof -
  have b: "2 ^ nlog2 (nat n) \<le> nat n" "nat n < 2 ^ Suc (nlog2 (nat n))"
    using nlog2_bounds [of "nat n"] assms by auto
  have n: "(of_int n :: rat) = of_nat (nat n)" using assms by simp
  have "(of_nat (2 ^ nlog2 (nat n)) :: rat) \<le> of_nat (nat n)"
    using b(1) by (simp only: of_nat_le_iff)
  then show "(2 ^ nlog2 (nat n) :: rat) \<le> of_int n"
    by (simp only: n of_nat_power of_nat_numeral)
  have "(of_nat (nat n) :: rat) < of_nat (2 ^ Suc (nlog2 (nat n)))"
    using b(2) by (simp only: of_nat_less_iff)
  then show "(of_int n :: rat) < 2 ^ Suc (nlog2 (nat n))"
    by (simp only: n of_nat_power of_nat_numeral)
qed

lemma ilog2_bounds:
  assumes "0 < q"
  shows "pow2 (ilog2 q) \<le> q" "q < pow2 (ilog2 q + 1)"
proof -
  obtain n d where nd: "quotient_of q = (n, d)" by (cases "quotient_of q")
  have q: "q = of_int n / of_int d" by (rule quotient_of_div [OF nd])
  have d: "0 < d" by (rule quotient_of_denom_pos [OF nd])
  with assms q have n: "0 < n" by (simp add: zero_less_divide_iff)
  define a b where "a = nlog2 (nat n)" and "b = nlog2 (nat d)"
  have A': "(2 ^ a :: rat) \<le> of_int n" "(of_int n :: rat) < 2 ^ Suc a"
    unfolding a_def by (rule nlog2_rat [OF n])+
  have B': "(2 ^ b :: rat) \<le> of_int d" "(of_int d :: rat) < 2 ^ Suc b"
    unfolding b_def by (rule nlog2_rat [OF d])+
  have up: "q < pow2 (int a - int b + 1)"
  proof -
    have "q \<le> of_int n / 2 ^ b"
      unfolding q using B'(1) n d by (intro divide_left_mono) auto
    also have "\<dots> < 2 ^ Suc a / 2 ^ b"
      using A'(2) by (simp add: divide_strict_right_mono)
    finally show ?thesis by (simp add: pow2_add pow2_diff pow2_nat pow2_def [of 1] mult.commute)
  qed
  have lo: "pow2 (int a - int b - 1) \<le> q"
  proof -
    have "(2 :: rat) ^ a / 2 ^ Suc b \<le> 2 ^ a / of_int d"
      using B'(2) d by (intro divide_left_mono) auto
    also have "\<dots> \<le> q"
      unfolding q using A'(1) d by (simp add: divide_right_mono)
    finally show ?thesis by (simp add: pow2_diff pow2_nat pow2_def [of 1])
  qed
  show "pow2 (ilog2 q) \<le> q" "q < pow2 (ilog2 q + 1)"
    using up lo by (auto simp: ilog2_def nd Let_def a_def [symmetric] b_def [symmetric])
qed

lemma ilog2_unique:
  assumes "pow2 k \<le> q" "q < pow2 (k + 1)"
  shows "ilog2 q = k"
proof -
  have "0 < q" using assms(1) pow2_pos [of k] by linarith
  note b = ilog2_bounds [OF this]
  have "pow2 (ilog2 q) < pow2 (k + 1)" "pow2 k < pow2 (ilog2 q + 1)"
    using b assms by linarith+
  then show ?thesis by simp
qed

section \<open>Rounding to nearest, ties to even\<close>

definition round_even :: "rat \<Rightarrow> int" where
  "round_even x = (let f = \<lfloor>x\<rfloor>; r = x - of_int f
     in if r < 1 / 2 then f else if r > 1 / 2 then f + 1 else if even f then f else f + 1)"

lemma round_even_int [simp]: "round_even (of_int k) = k"
  by (simp add: round_even_def)

lemma round_even_err: "\<bar>of_int (round_even x) - x\<bar> \<le> 1 / 2"
proof -
  have "of_int \<lfloor>x\<rfloor> \<le> x" "x < of_int \<lfloor>x\<rfloor> + 1" by linarith+
  then show ?thesis by (auto simp: round_even_def Let_def abs_le_iff)
qed

lemma round_even_mono: "x \<le> of_int k \<Longrightarrow> round_even x \<le> k"
proof -
  assume k: "x \<le> of_int k"
  then have "\<lfloor>x\<rfloor> \<le> k" by linarith
  moreover have "\<lfloor>x\<rfloor> < k" if "x - of_int \<lfloor>x\<rfloor> > 0" using that k by linarith
  ultimately show ?thesis by (auto simp: round_even_def Let_def)
qed

text \<open>The exponent of the last place of a positive rational, its spacing and its rounding.\<close>

definition qexp :: "ffmt \<Rightarrow> rat \<Rightarrow> int" where
  "qexp f q = max (ilog2 q) (emin f) - int (fbits f)"

definition round_pos :: "ffmt \<Rightarrow> rat \<Rightarrow> rat" where
  "round_pos f q = of_int (round_even (q / pow2 (qexp f q))) * pow2 (qexp f q)"

text \<open>The number nearest to an exact result.\<close>

definition round_num :: "ffmt \<Rightarrow> rat \<Rightarrow> jsnum" where
  "round_num f q =
     (if q = 0 then JFin 0
      else let r = round_pos f \<bar>q\<bar>
           in if pow2 (emax f + 1) \<le> r then JInf (q < 0)
              else if r = 0 then (if q < 0 then JNegZero else JFin 0)
              else JFin (if q < 0 then - r else r))"

text \<open>Conversion of a number to a format (\<open>Math.fround\<close> for binary32).\<close>

fun convert :: "ffmt \<Rightarrow> jsnum \<Rightarrow> jsnum" where
  "convert f (JFin q) = round_num f q"
| "convert f x = x"

definition fround :: "jsnum \<Rightarrow> jsnum" where
  "fround = convert binary32"

section \<open>Representable numbers\<close>

text \<open>A positive rational a format holds exactly.\<close>

definition rep_pos :: "ffmt \<Rightarrow> rat \<Rightarrow> bool" where
  "rep_pos f q \<longleftrightarrow> (\<exists>m e. q = of_int m * pow2 e \<and> 0 < m \<and> m < 2 ^ Suc (fbits f)
      \<and> emin f - int (fbits f) \<le> e) \<and> q < pow2 (emax f + 1)"

fun rep :: "ffmt \<Rightarrow> jsnum \<Rightarrow> bool" where
  "rep f (JFin q) = (q = 0 \<or> rep_pos f \<bar>q\<bar>)"
| "rep f _ = True"

abbreviation num_ok :: "jsnum \<Rightarrow> bool" where
  "num_ok \<equiv> rep binary64"

lemma rep_pos_gt0: "rep_pos f q \<Longrightarrow> 0 < q"
  by (auto simp: rep_pos_def)

lemma rep_pos_scaled:
  assumes "rep_pos f q"
  obtains M where "q = of_int M * pow2 (qexp f q)" "0 < M" "M < 2 ^ Suc (fbits f)"
    "emin f \<le> ilog2 q \<Longrightarrow> 2 ^ fbits f \<le> M" "ilog2 q < emin f \<Longrightarrow> M < 2 ^ fbits f"
proof -
  from assms obtain m e where q: "q = of_int m * pow2 e" and m: "0 < m" "m < 2 ^ Suc (fbits f)"
    and e: "emin f - int (fbits f) \<le> e" by (auto simp: rep_pos_def)
  have q0: "0 < q" using assms by (rule rep_pos_gt0)
  note lb = ilog2_bounds [OF q0]
  let ?E = "qexp f q"
  have "q < pow2 (int (Suc (fbits f)) + e)"
  proof -
    have "(of_int m :: rat) < of_int (2 ^ Suc (fbits f))" using m(2) by (simp only: of_int_less_iff)
    then have "(of_int m :: rat) < 2 ^ Suc (fbits f)" by simp
    then show ?thesis unfolding pow2_add pow2_nat q by (simp add: mult_strict_right_mono)
  qed
  with lb(1) have "pow2 (ilog2 q) < pow2 (int (Suc (fbits f)) + e)" by linarith
  then have le: "?E \<le> e" using e by (simp add: qexp_def)
  define M where "M = m * 2 ^ nat (e - ?E)"
  have "pow2 e = 2 ^ nat (e - ?E) * pow2 ?E"
    using pow2_add [of "e - ?E" ?E] le by (simp add: pow2_def [of "e - ?E"])
  then have qM: "q = of_int M * pow2 ?E" by (simp add: q M_def)
  have M0: "0 < M" using m(1) by (simp add: M_def)
  have Mq: "q / pow2 ?E = of_int M"
    using arg_cong [OF qM, of "\<lambda>x. x / pow2 ?E"] by (simp only: nonzero_mult_div_cancel_right [OF pow2_nonzero])
  have "q / pow2 ?E < pow2 (max (ilog2 q) (emin f) + 1) / pow2 ?E"
    using lb(2) less_le_trans [of q "pow2 (ilog2 q + 1)" "pow2 (max (ilog2 q) (emin f) + 1)"]
    by (simp add: divide_strict_right_mono)
  also have "\<dots> = pow2 (int (Suc (fbits f)))"
    by (simp add: pow2_diff [symmetric] qexp_def)
  finally have "(of_int M :: rat) < of_int (2 ^ Suc (fbits f))"
    by (simp only: Mq pow2_nat of_int_power of_int_numeral)
  then have Mup: "M < 2 ^ Suc (fbits f)" by (simp only: of_int_less_iff)
  have norm: "2 ^ fbits f \<le> M" if "emin f \<le> ilog2 q"
  proof -
    have "pow2 (int (fbits f)) \<le> q / pow2 ?E"
      using lb(1) that pow2_diff [of "ilog2 q" ?E] by (simp add: qexp_def divide_right_mono max_absorb1)
    then have "(of_int (2 ^ fbits f) :: rat) \<le> of_int M"
      by (simp only: Mq pow2_nat of_int_power of_int_numeral)
    then show ?thesis by (simp only: of_int_le_iff)
  qed
  have sub: "M < 2 ^ fbits f" if "ilog2 q < emin f"
  proof -
    have "q < pow2 (emin f)"
      using lb(2) that pow2_le_iff [of "ilog2 q + 1" "emin f"] by linarith
    then have "q / pow2 ?E < pow2 (emin f) / pow2 ?E"
      by (simp add: divide_strict_right_mono)
    also have "\<dots> = 2 ^ fbits f"
      using that by (simp add: pow2_diff [symmetric] qexp_def max_absorb2 pow2_nat)
    finally have "(of_int M :: rat) < of_int (2 ^ fbits f)"
      by (simp only: Mq of_int_power of_int_numeral)
    then show ?thesis by (simp only: of_int_less_iff)
  qed
  show ?thesis by (rule that [OF qM M0 Mup norm sub])
qed

lemma round_pos_rep [simp]: "rep_pos f q \<Longrightarrow> round_pos f q = q"
proof (erule rep_pos_scaled)
  fix M assume "q = of_int M * pow2 (qexp f q)"
  then have "q / pow2 (qexp f q) = of_int M" by (metis nonzero_mult_div_cancel_right pow2_nonzero)
  then show "round_pos f q = q" by (metis round_pos_def round_even_int \<open>q = of_int M * pow2 (qexp f q)\<close>)
qed

lemma round_num_rep:
  assumes "rep f (JFin q)"
  shows "round_num f q = JFin q"
proof (cases "q = 0")
  case True
  then show ?thesis by (simp add: round_num_def)
next
  case False
  with assms have r: "rep_pos f \<bar>q\<bar>" by simp
  then have "\<bar>q\<bar> < pow2 (emax f + 1)" by (simp add: rep_pos_def)
  with r False show ?thesis by (auto simp: round_num_def Let_def)
qed

lemma convert_rep [simp]: "rep f x \<Longrightarrow> convert f x = x"
  by (cases x) (auto simp: round_num_rep simp del: rep.simps)

section \<open>Rounding lands on a representable number\<close>

lemma qexp_ge: "emin f - int (fbits f) \<le> qexp f q"
  by (simp add: qexp_def)

lemma scaled_less:
  assumes "0 < q"
  shows "q / pow2 (qexp f q) < 2 ^ Suc (fbits f)"
proof -
  have "q < pow2 (max (ilog2 q) (emin f) + 1)"
    using ilog2_bounds(2) [OF assms] pow2_le_iff [of "ilog2 q + 1" "max (ilog2 q) (emin f) + 1"] by linarith
  also have "\<dots> = pow2 (int (Suc (fbits f)) + qexp f q)"
    by (simp add: qexp_def add.commute)
  finally show ?thesis
    by (simp add: pow2_add pow2_nat pos_divide_less_eq del: of_nat_Suc)
qed

lemma round_pos_rep_pos:
  assumes q: "0 < q" and r0: "round_pos f q \<noteq> 0" and r: "round_pos f q < pow2 (emax f + 1)"
  shows "rep_pos f (round_pos f q)"
proof -
  define m where "m = round_even (q / pow2 (qexp f q))"
  have rm: "round_pos f q = of_int m * pow2 (qexp f q)" by (simp add: round_pos_def m_def)
  have nn: "0 < q / pow2 (qexp f q)" using q by simp
  have "0 \<le> m" using nn by (auto simp: m_def round_even_def Let_def)
  moreover have "m \<noteq> 0" using r0 rm by auto
  ultimately have m0: "0 < m" by simp
  have up: "m \<le> 2 ^ Suc (fbits f)"
    unfolding m_def using scaled_less [OF q, of f] by (intro round_even_mono) simp
  have "\<exists>m' e. round_pos f q = of_int m' * pow2 e \<and> 0 < m' \<and> m' < 2 ^ Suc (fbits f)
      \<and> emin f - int (fbits f) \<le> e"
  proof (cases "m < 2 ^ Suc (fbits f)")
    case True
    with rm m0 qexp_ge [of f q] show ?thesis by blast
  next
    case False
    with up have "m = 2 ^ Suc (fbits f)" by simp
    then have "round_pos f q = of_int (2 ^ fbits f) * pow2 (qexp f q + 1)"
      by (simp add: rm pow2_Suc)
    moreover have "(0 :: int) < 2 ^ fbits f" "(2 ^ fbits f :: int) < 2 ^ Suc (fbits f)" by simp_all
    moreover have "emin f - int (fbits f) \<le> qexp f q + 1" using qexp_ge [of f q] by simp
    ultimately show ?thesis by blast
  qed
  with r show ?thesis by (simp add: rep_pos_def)
qed

lemma round_pos_nonneg: "0 < q \<Longrightarrow> 0 \<le> round_pos f q"
proof -
  assume "0 < q"
  then have "0 < q / pow2 (qexp f q)" by simp
  then have "0 \<le> round_even (q / pow2 (qexp f q))"
    by (auto simp: round_even_def Let_def)
  then show ?thesis by (simp add: round_pos_def)
qed

lemma rep_round_num [simp]: "rep f (round_num f q)"
proof (cases "q = 0 \<or> round_pos f \<bar>q\<bar> = 0 \<or> pow2 (emax f + 1) \<le> round_pos f \<bar>q\<bar>")
  case True
  then show ?thesis by (auto simp: round_num_def Let_def)
next
  case False
  then have "rep_pos f (round_pos f \<bar>q\<bar>)"
    by (intro round_pos_rep_pos) auto
  moreover from this have "0 < round_pos f \<bar>q\<bar>" by (rule rep_pos_gt0)
  ultimately show ?thesis using False by (auto simp: round_num_def Let_def)
qed

lemma rep_convert [simp]: "rep f (convert f x)"
  by (cases x) auto

lemma convert_idem [simp]: "convert f (convert f x) = convert f x"
  by simp

text \<open>The relative error of one rounding in the normal range.\<close>

lemma round_pos_err:
  assumes "pow2 (emin f) \<le> q"
  shows "\<bar>round_pos f q - q\<bar> \<le> q / 2 ^ Suc (fbits f)"
proof -
  have q: "0 < q" using assms pow2_pos [of "emin f"] by linarith
  have "emin f \<le> ilog2 q"
  proof -
    have "pow2 (emin f) < pow2 (ilog2 q + 1)" using assms ilog2_bounds(2) [OF q] by linarith
    then show ?thesis by simp
  qed
  then have E: "qexp f q = ilog2 q - int (fbits f)" by (simp add: qexp_def)
  let ?u = "pow2 (qexp f q)"
  have "\<bar>round_pos f q - q\<bar> = \<bar>of_int (round_even (q / ?u)) - q / ?u\<bar> * ?u"
    by (simp add: round_pos_def abs_mult_pos left_diff_distrib)
  also have "\<dots> \<le> 1 / 2 * ?u"
    by (intro mult_right_mono round_even_err) simp
  also have "\<dots> = pow2 (ilog2 q) / 2 ^ Suc (fbits f)"
    by (simp add: E pow2_diff pow2_nat)
  also have "\<dots> \<le> q / 2 ^ Suc (fbits f)"
    using ilog2_bounds(1) [OF q] by (intro divide_right_mono) auto
  finally show ?thesis .
qed

section \<open>Arithmetic\<close>

fun num_sign :: "jsnum \<Rightarrow> bool" where
  "num_sign (JFin q) = (q < 0)"
| "num_sign (JInf s) = s"
| "num_sign JNegZero = True"
| "num_sign JNaN = False"

fun is_zero :: "jsnum \<Rightarrow> bool" where
  "is_zero (JFin q) = (q = 0)"
| "is_zero JNegZero = True"
| "is_zero _ = False"

fun num_rat :: "jsnum \<Rightarrow> rat" where
  "num_rat (JFin q) = q"
| "num_rat _ = 0"

fun is_inf :: "jsnum \<Rightarrow> bool" where
  "is_inf (JInf s) = True"
| "is_inf _ = False"

definition signed_zero :: "bool \<Rightarrow> jsnum" where
  "signed_zero s = (if s then JNegZero else JFin 0)"

definition num_mul :: "jsnum \<Rightarrow> jsnum \<Rightarrow> jsnum" where
  "num_mul a b =
     (let s = (num_sign a \<noteq> num_sign b)
      in if isNaN a \<or> isNaN b then JNaN
         else if is_inf a \<or> is_inf b then (if is_zero a \<or> is_zero b then JNaN else JInf s)
         else if is_zero a \<or> is_zero b then signed_zero s
         else round_num binary64 (num_rat a * num_rat b))"

definition num_div :: "jsnum \<Rightarrow> jsnum \<Rightarrow> jsnum" where
  "num_div a b =
     (let s = (num_sign a \<noteq> num_sign b)
      in if isNaN a \<or> isNaN b then JNaN
         else if is_inf a then (if is_inf b then JNaN else JInf s)
         else if is_inf b then signed_zero s
         else if is_zero b then (if is_zero a then JNaN else JInf s)
         else if is_zero a then signed_zero s
         else round_num binary64 (num_rat a / num_rat b))"

text \<open>\<open>Math.round\<close>: the nearest integer, halves towards plus infinity, keeping the sign of
  a zero result. \<open>Math.trunc\<close> drops the fraction.\<close>

fun math_round :: "jsnum \<Rightarrow> jsnum" where
  "math_round (JFin q) =
     (let k = \<lfloor>q + 1 / 2\<rfloor> in if k = 0 \<and> q < 0 then JNegZero else num_of_int k)"
| "math_round x = x"

fun math_trunc :: "jsnum \<Rightarrow> jsnum" where
  "math_trunc (JFin q) =
     (if 0 \<le> q then num_of_int \<lfloor>q\<rfloor>
      else if -1 < q then JNegZero else num_of_int \<lceil>q\<rceil>)"
| "math_trunc x = x"

section \<open>Byte images\<close>

text \<open>The bit pattern of a number a format can hold; NaN is the canonical quiet NaN.\<close>

definition mag_bits :: "ffmt \<Rightarrow> rat \<Rightarrow> nat" where
  "mag_bits f q =
     (if q = 0 then 0
      else nat ((max (ilog2 q) (emin f) - emin f) * 2 ^ fbits f + \<lfloor>q / pow2 (qexp f q)\<rfloor>))"

definition sign_bit :: "ffmt \<Rightarrow> bool \<Rightarrow> nat" where
  "sign_bit f s = (if s then 2 ^ (fbits f + ebits f) else 0)"

definition inf_bits :: "ffmt \<Rightarrow> nat" where
  "inf_bits f = (2 ^ ebits f - 1) * 2 ^ fbits f"

fun float_bits :: "ffmt \<Rightarrow> jsnum \<Rightarrow> nat" where
  "float_bits f JNaN = inf_bits f + 2 ^ (fbits f - 1)"
| "float_bits f (JInf s) = sign_bit f s + inf_bits f"
| "float_bits f JNegZero = sign_bit f True"
| "float_bits f (JFin q) = sign_bit f (q < 0) + mag_bits f \<bar>q\<bar>"

definition mag_of_bits :: "ffmt \<Rightarrow> nat \<Rightarrow> rat" where
  "mag_of_bits f m =
     (let biased = m div 2 ^ fbits f; frac = m mod 2 ^ fbits f
      in if biased = 0 then of_nat frac * pow2 (emin f - int (fbits f))
         else of_nat (2 ^ fbits f + frac) * pow2 (int biased - 1 + emin f - int (fbits f)))"

definition num_of_bits :: "ffmt \<Rightarrow> nat \<Rightarrow> jsnum" where
  "num_of_bits f b =
     (let s = (2 ^ (fbits f + ebits f) \<le> b); m = b mod 2 ^ (fbits f + ebits f)
      in if m = inf_bits f then JInf s
         else if inf_bits f < m then JNaN
         else if m = 0 then signed_zero s
         else JFin (if s then - mag_of_bits f m else mag_of_bits f m))"

lemma mag_bits_rep:
  assumes r: "rep_pos f q" and e: "2 \<le> ebits f"
  shows "0 < mag_bits f q" "mag_bits f q < inf_bits f" "mag_of_bits f (mag_bits f q) = q"
proof -
  let ?E = "max (ilog2 q) (emin f)"
  let ?P = "2 ^ fbits f :: nat"
  obtain M where qM: "q = of_int M * pow2 (qexp f q)" and M: "0 < M" "M < 2 ^ Suc (fbits f)"
    and norm: "emin f \<le> ilog2 q \<Longrightarrow> 2 ^ fbits f \<le> M" and sub: "ilog2 q < emin f \<Longrightarrow> M < 2 ^ fbits f"
    using rep_pos_scaled [OF r] by blast
  have q0: "0 < q" using r by (rule rep_pos_gt0)
  have Mq: "q / pow2 (qexp f q) = of_int M"
    using arg_cong [OF qM, of "\<lambda>x. x / pow2 (qexp f q)"]
    by (simp only: nonzero_mult_div_cancel_right [OF pow2_nonzero])
  define m d where "m = nat M" and "d = nat (?E - emin f)"
  have m: "0 < m" "m < 2 * ?P" using M by (auto simp: m_def nat_less_iff)
  have Mm: "M = int m" using M by (simp add: m_def)
  have Ed: "?E = emin f + int d" by (simp add: d_def)
  have "mag_bits f q = nat ((?E - emin f) * 2 ^ fbits f + M)"
    using q0 by (simp only: mag_bits_def Mq floor_of_int) simp
  also have "(?E - emin f) * 2 ^ fbits f + M = int (d * ?P + m)"
    using Mm Ed by simp
  finally have mb: "mag_bits f q = d * ?P + m" by (simp only: nat_int)
  show "0 < mag_bits f q" using m by (simp add: mb)
  have dz: "d = 0" if "m < ?P"
  proof -
    have "M < 2 ^ fbits f" using that by (simp add: Mm)
    with norm have "ilog2 q < emin f" by fastforce
    then show ?thesis by (simp add: d_def)
  qed
  have "pow2 (ilog2 q) < pow2 (emax f + 1)"
    using ilog2_bounds(1) [OF q0] r unfolding rep_pos_def by linarith
  then have "?E \<le> emax f" using e by (auto simp: emin_def emax_def self_le_power le_diff_conv)
  then have "emin f + int d \<le> emax f" using Ed by linarith
  then have "int d \<le> 2 ^ (ebits f - 1) - 1 - (2 - 2 ^ (ebits f - 1))"
    unfolding emax_def emin_def by linarith
  also have "\<dots> = 2 ^ ebits f - 3"
    using e power_Suc [of "2 :: int" "ebits f - 1"] by simp
  finally have "int (d + 3) \<le> int (2 ^ ebits f)" by simp
  then have d3: "d + 3 \<le> 2 ^ ebits f" by (simp only: of_nat_le_iff)
  have "d * ?P + m < (d + 2) * ?P" using m by (simp add: algebra_simps)
  also have "\<dots> \<le> (2 ^ ebits f - 1) * ?P" using d3 by (intro mult_right_mono) auto
  finally show "mag_bits f q < inf_bits f" by (simp add: mb inf_bits_def)
  show "mag_of_bits f (mag_bits f q) = q"
  proof (cases "m < ?P")
    case True
    then have "mag_bits f q = m" using dz mb by simp
    moreover have "qexp f q = emin f - int (fbits f)" using True dz Ed by (simp add: qexp_def)
    ultimately show ?thesis using True qM by (simp add: mag_of_bits_def Mm)
  next
    case False
    define r where "r = m - ?P"
    have r: "r < ?P" "d * ?P + m = r + (d + 1) * ?P" using False m by (simp_all add: r_def)
    have dv: "(d * ?P + m) div ?P = d + 1" and md: "(d * ?P + m) mod ?P = m - ?P"
      using r(1) unfolding r(2) r_def [symmetric] by (simp_all only: div_mult_self1 mod_mult_self1) simp_all
    have ex: "int (d + 1) - 1 + emin f - int (fbits f) = qexp f q" using Ed by (simp add: qexp_def)
    have fr: "(of_nat (?P + (m - ?P)) :: rat) = of_int M" using False Mm by simp
    have "mag_of_bits f (mag_bits f q) = of_nat (?P + (m - ?P)) * pow2 (int (d + 1) - 1 + emin f - int (fbits f))"
      unfolding mag_of_bits_def mb Let_def dv md by simp
    then show ?thesis unfolding ex fr using qM by simp
  qed
qed

lemma inf_bits_bounds:
  assumes "2 \<le> ebits f" "0 < fbits f"
  shows "0 < inf_bits f" "inf_bits f + 2 ^ (fbits f - 1) < 2 ^ (fbits f + ebits f)"
proof -
  have "(2 :: nat) ^ (fbits f - 1) < 2 ^ fbits f" using assms by simp
  moreover have "inf_bits f + 2 ^ fbits f = 2 ^ (fbits f + ebits f)"
    using one_le_power [of "2 :: nat" "ebits f"]
    by (simp add: inf_bits_def power_add diff_mult_distrib)
  ultimately show "inf_bits f + 2 ^ (fbits f - 1) < 2 ^ (fbits f + ebits f)" by linarith
  have "(1 :: nat) < 2 ^ ebits f" using assms by (intro one_less_power) auto
  then show "0 < inf_bits f" by (simp add: inf_bits_def)
qed

lemma float_bits_lt:
  assumes r: "rep f x" and e: "2 \<le> ebits f" "0 < fbits f"
  shows "float_bits f x < 2 ^ Suc (fbits f + ebits f)"
proof (cases x)
  case (JFin q)
  have "mag_bits f \<bar>q\<bar> < inf_bits f"
    using r JFin inf_bits_bounds(1) [OF e] mag_bits_rep(2) [OF _ e(1), of "\<bar>q\<bar>"]
    by (cases "q = 0") (auto simp: mag_bits_def)
  then show ?thesis using JFin inf_bits_bounds(2) [OF e] by (auto simp: sign_bit_def)
qed (use inf_bits_bounds [OF e] in \<open>auto simp: sign_bit_def\<close>)

lemma rep_iff_convert [code]: "rep f x \<longleftrightarrow> convert f x = x"
  by (metis convert_rep rep_convert)

lemma num_of_bits_float_bits:
  assumes r: "rep f x" and e: "2 \<le> ebits f" "0 < fbits f"
  shows "num_of_bits f (float_bits f x) = x"
proof -
  let ?S = "2 ^ (fbits f + ebits f) :: nat"
  note inf = inf_bits_bounds [OF e]
  show ?thesis
  proof (cases x)
    case JNaN
    then show ?thesis using inf by (simp add: num_of_bits_def)
  next
    case (JInf s)
    then show ?thesis using inf by (simp add: num_of_bits_def sign_bit_def Let_def)
  next
    case JNegZero
    then show ?thesis using inf by (simp add: num_of_bits_def sign_bit_def signed_zero_def)
  next
    case (JFin q)
    show ?thesis
    proof (cases "q = 0")
      case True
      then show ?thesis using JFin inf by (simp add: num_of_bits_def sign_bit_def mag_bits_def signed_zero_def)
    next
      case False
      with r JFin have rq: "rep_pos f \<bar>q\<bar>" by simp
      note mb = mag_bits_rep [OF rq e(1)]
      then have "mag_bits f \<bar>q\<bar> < ?S" using inf by linarith
      with mb False show ?thesis
        by (auto simp: JFin num_of_bits_def sign_bit_def Let_def)
    qed
  qed
qed

lemma num_ok_int:
  assumes "\<bar>i\<bar> < 2 ^ 53"
  shows "num_ok (num_of_int i)"
proof (cases "i = 0")
  case False
  have "pow2 53 < pow2 (emax binary64 + 1)" unfolding pow2_less_iff by (simp add: emax_def binary64_def)
  moreover have "pow2 53 = of_int (2 ^ 53)" by (simp add: pow2_def)
  moreover have "(of_int \<bar>i\<bar> :: rat) < of_int (2 ^ 53)" using assms by (simp only: of_int_less_iff)
  ultimately have "of_int \<bar>i\<bar> < pow2 (emax binary64 + 1)" by linarith
  moreover have "emin binary64 - int (fbits binary64) \<le> 0" by (simp add: emin_def binary64_def)
  ultimately have "rep_pos binary64 (of_int \<bar>i\<bar>)"
    unfolding rep_pos_def using assms False
    by (intro conjI exI [of _ "\<bar>i\<bar>"] exI [of _ 0]) (simp_all add: binary64_def)
  then show ?thesis using False by simp
qed simp

end
