(* ===== verification/JsText.thy ===== *)
theory JsText
  imports Prelude
begin

text \<open>
  ECMAScript strings (lists of UTF-16 code units), the string normalisation
  \<open>wireString\<close> of \<open>serializer/bytes.ts\<close>, and the two platform codecs the
  sources call: \<open>TextEncoder\<close> and the fatal \<open>TextDecoder\<close>. The main facts:
  \<open>wireString\<close> yields a string without lone surrogates and U+0000, and is the identity on
  such strings; decoding what was encoded gives the string back.
\<close>

definition js :: "string \<Rightarrow> jsstring" where
  "js s = map of_char s"

definition is_high :: "code_unit \<Rightarrow> bool" where
  "is_high c = (0xD800 \<le> c \<and> c \<le> 0xDBFF)"

definition is_low :: "code_unit \<Rightarrow> bool" where
  "is_low c = (0xDC00 \<le> c \<and> c \<le> 0xDFFF)"

lemma high_not_low: "is_high c \<Longrightarrow> \<not> is_low c"
  by (auto simp: is_high_def is_low_def word_le_nat_alt)

section \<open>wireString\<close>

text \<open>\<open>MAY_NEED_REPLACING\<close>: U+0000 or any surrogate.\<close>

definition may_need_replacing :: "jsstring \<Rightarrow> bool" where
  "may_need_replacing s = (\<exists>c \<in> set s. c = 0 \<or> is_high c \<or> is_low c)"

text \<open>
  \<open>value.replace(NOT_SCALAR, "\ufffd")\<close>: a unit is replaced when it is U+0000, a high
  surrogate not followed by a low one, or a low surrogate not preceded by a high one; the
  neighbours are those of the original string.
\<close>

fun head_low :: "jsstring \<Rightarrow> bool" where
  "head_low [] = False"
| "head_low (c # cs) = is_low c"

fun replace_not_scalar :: "bool \<Rightarrow> jsstring \<Rightarrow> jsstring" where
  "replace_not_scalar after_high [] = []"
| "replace_not_scalar after_high (c # cs) =
     (if c = 0 \<or> (is_high c \<and> \<not> head_low cs) \<or> (is_low c \<and> \<not> after_high) then 0xFFFD else c)
     # replace_not_scalar (is_high c) cs"

definition wireString :: "jsstring \<Rightarrow> jsstring" where
  "wireString s = (if may_need_replacing s then replace_not_scalar False s else s)"

text \<open>A string the protocol can hold: no U+0000 and every surrogate in a pair.\<close>

fun wire_ok :: "jsstring \<Rightarrow> bool" where
  "wire_ok [] = True"
| "wire_ok [c] = (c \<noteq> 0 \<and> \<not> is_high c \<and> \<not> is_low c)"
| "wire_ok (c # d # cs) =
     (if is_high c then is_low d \<and> wire_ok cs
      else c \<noteq> 0 \<and> \<not> is_low c \<and> wire_ok (d # cs))"

lemma replacement_plain: "\<not> is_high 0xFFFD" "\<not> is_low 0xFFFD" "(0xFFFD :: code_unit) \<noteq> 0"
  by (simp_all add: is_high_def is_low_def)

lemma high_nonzero: "is_high c \<Longrightarrow> c \<noteq> 0" and low_nonzero: "is_low c \<Longrightarrow> c \<noteq> 0"
  by (auto simp: is_high_def is_low_def)

lemma wire_ok_Cons:
  "\<not> is_high c \<Longrightarrow> wire_ok (c # cs) \<longleftrightarrow> c \<noteq> 0 \<and> \<not> is_low c \<and> wire_ok cs"
  by (cases cs) auto

lemma replace_wire_ok: "wire_ok (replace_not_scalar False s)"
proof (induction s rule: length_induct)
  case (1 s)
  show ?case
  proof (cases s rule: wire_ok.cases)
    case (3 c d cs)
    show ?thesis
    proof (cases "is_high c \<and> is_low d")
      case True
      then have "\<not> is_high d" "\<not> is_low c" using high_not_low by blast+
      moreover have "wire_ok (replace_not_scalar False cs)" using 1 3 by simp
      ultimately show ?thesis using True 3 by (simp add: high_nonzero low_nonzero)
    next
      case False
      define c' where "c' = (if c = 0 \<or> (is_high c \<and> \<not> is_low d) \<or> is_low c then 0xFFFD else c)"
      have c': "\<not> is_high c'" "\<not> is_low c'" "c' \<noteq> 0"
        using False by (auto simp: c'_def replacement_plain)
      have "replace_not_scalar (is_high c) (d # cs) = replace_not_scalar False (d # cs)"
        using False by auto
      then have "replace_not_scalar False s = c' # replace_not_scalar False (d # cs)"
        using 3 by (simp add: c'_def)
      moreover have "wire_ok (replace_not_scalar False (d # cs))"
        using 1 3 by (simp del: replace_not_scalar.simps)
      ultimately show ?thesis using c' by (simp only: wire_ok_Cons [OF c'(1)]) simp
    qed
  qed (auto simp: replacement_plain)
qed

lemma no_surrogates_wire_ok: "\<not> may_need_replacing s \<Longrightarrow> wire_ok s"
  by (induction s) (auto simp: may_need_replacing_def wire_ok_Cons)

lemma wire_ok_wireString [simp]: "wire_ok (wireString s)"
  by (simp add: wireString_def replace_wire_ok no_surrogates_wire_ok)

lemma replace_wire_ok_id: "wire_ok s \<Longrightarrow> replace_not_scalar False s = s"
proof (induction s rule: wire_ok.induct)
  case (3 c d cs)
  show ?case
  proof (cases "is_high c")
    case True
    with "3.prems" have d: "is_low d" "wire_ok cs" by auto
    then have "\<not> is_high d" "\<not> is_low c" using True high_not_low by blast+
    with True d "3.IH"(1) show ?thesis by (simp add: high_nonzero low_nonzero)
  next
    case False
    with 3 show ?thesis by simp
  qed
qed auto

lemma wireString_id [simp]: "wire_ok s \<Longrightarrow> wireString s = s"
  by (simp add: wireString_def replace_wire_ok_id)

lemma wireString_idem [simp]: "wireString (wireString s) = wireString s"
  by simp

lemma length_replace [simp]: "length (replace_not_scalar h s) = length s"
  by (induction s arbitrary: h) auto

lemma length_wireString [simp]: "length (wireString s) = length s"
  by (simp add: wireString_def)

lemma wireString_Nil [simp]: "wireString [] = []"
  by (simp add: wireString_def)

section \<open>UTF-8\<close>

text \<open>The scalar values of a string; a lone surrogate reads as U+FFFD (\<open>USVString\<close>).\<close>

definition pair_scalar :: "code_unit \<Rightarrow> code_unit \<Rightarrow> nat" where
  "pair_scalar h l = 0x10000 + (unat h - 0xD800) * 0x400 + (unat l - 0xDC00)"

fun scalars :: "jsstring \<Rightarrow> nat list" where
  "scalars [] = []"
| "scalars [c] = [if is_high c \<or> is_low c then 0xFFFD else unat c]"
| "scalars (c # d # cs) =
     (if is_high c \<and> is_low d then pair_scalar c d # scalars cs
      else (if is_high c \<or> is_low c then 0xFFFD else unat c) # scalars (d # cs))"

text \<open>The UTF-8 bytes of one scalar value.\<close>

definition utf8_nats :: "nat \<Rightarrow> nat list" where
  "utf8_nats c =
     (if c < 0x80 then [c]
      else if c < 0x800 then [0xC0 + c div 64, 0x80 + c mod 64]
      else if c < 0x10000 then [0xE0 + c div 4096, 0x80 + c div 64 mod 64, 0x80 + c mod 64]
      else [0xF0 + c div 262144, 0x80 + c div 4096 mod 64, 0x80 + c div 64 mod 64, 0x80 + c mod 64])"

definition utf8_scalar :: "nat \<Rightarrow> byte list" where
  "utf8_scalar c = map word_of_nat (utf8_nats c)"

text \<open>\<open>TextEncoder.encode\<close>.\<close>

definition utf8_encode :: "jsstring \<Rightarrow> byte list" where
  "utf8_encode s = concat (map utf8_scalar (scalars s))"

text \<open>The code units of a scalar value.\<close>

definition units :: "nat \<Rightarrow> jsstring" where
  "units c = (if c < 0x10000 then [word_of_nat c]
     else [word_of_nat (0xD800 + (c - 0x10000) div 0x400), word_of_nat (0xDC00 + (c - 0x10000) mod 0x400)])"

definition cont :: "nat \<Rightarrow> bool" where
  "cont b = (0x80 \<le> b \<and> b < 0xC0)"

text \<open>
  \<open>new TextDecoder("utf-8", { fatal: true, ignoreBOM: true }).decode\<close>: the scalar values,
  or \<open>None\<close> for ill-formed input (a stray or missing continuation byte, an overlong form,
  an encoded surrogate, a value above U+10FFFF).
\<close>

fun utf8_scalars :: "nat list \<Rightarrow> nat list option" where
  "utf8_scalars [] = Some []"
| "utf8_scalars (a # xs) =
     (if a < 0x80 then map_option (Cons a) (utf8_scalars xs)
      else if 0xC2 \<le> a \<and> a < 0xE0 then
        (case xs of b # ys \<Rightarrow>
           if cont b then map_option (Cons ((a - 0xC0) * 64 + (b - 0x80))) (utf8_scalars ys) else None
         | _ \<Rightarrow> None)
      else if 0xE0 \<le> a \<and> a < 0xF0 then
        (case xs of b # c # ys \<Rightarrow>
           let v = (a - 0xE0) * 4096 + (b - 0x80) * 64 + (c - 0x80)
           in if cont b \<and> cont c \<and> 0x800 \<le> v \<and> \<not> (0xD800 \<le> v \<and> v < 0xE000)
              then map_option (Cons v) (utf8_scalars ys) else None
         | _ \<Rightarrow> None)
      else if 0xF0 \<le> a \<and> a < 0xF5 then
        (case xs of b # c # d # ys \<Rightarrow>
           let v = (a - 0xF0) * 262144 + (b - 0x80) * 4096 + (c - 0x80) * 64 + (d - 0x80)
           in if cont b \<and> cont c \<and> cont d \<and> 0x10000 \<le> v \<and> v < 0x110000
              then map_option (Cons v) (utf8_scalars ys) else None
         | _ \<Rightarrow> None)
      else None)"

definition decodeUtf8Slow :: "byte list \<Rightarrow> jsstring option" where
  "decodeUtf8Slow bs = map_option (\<lambda>cs. concat (map units cs)) (utf8_scalars (map unat bs))"

text \<open>
  \<open>decodeUtf8\<close>: up to 32 bytes are copied as ASCII; the first byte from 0x80 on hands the
  whole input to the platform decoder.
\<close>

fun ascii_loop :: "byte list \<Rightarrow> jsstring \<Rightarrow> jsstring option" where
  "ascii_loop [] ascii = Some ascii"
| "ascii_loop (b # bs) ascii =
     (if 0x80 \<le> unat b then None else ascii_loop bs (ascii @ [word_of_nat (unat b)]))"

definition decodeUtf8 :: "byte list \<Rightarrow> jsstring option" where
  "decodeUtf8 bs =
     (if length bs \<le> 32 then
        (case ascii_loop bs [] of Some ascii \<Rightarrow> Some ascii | None \<Rightarrow> decodeUtf8Slow bs)
      else decodeUtf8Slow bs)"

lemma ascii_loop_Some:
  "ascii_loop bs acc = Some s \<Longrightarrow> \<exists>t. decodeUtf8Slow bs = Some t \<and> s = acc @ t"
proof (induction bs arbitrary: acc)
  case Nil
  then show ?case by (simp add: decodeUtf8Slow_def)
next
  case (Cons b bs)
  then have b: "unat b < 0x80" and r: "ascii_loop bs (acc @ [word_of_nat (unat b)]) = Some s"
    by (auto split: if_splits)
  from Cons.IH [OF r] b show ?case by (auto simp: decodeUtf8Slow_def units_def)
qed

text \<open>The fast path agrees with the platform decoder.\<close>

lemma decodeUtf8_slow: "decodeUtf8 bs = decodeUtf8Slow bs"
  by (auto simp: decodeUtf8_def split: option.splits dest: ascii_loop_Some)

definition scalar_ok :: "nat \<Rightarrow> bool" where
  "scalar_ok c = (c < 0x110000 \<and> \<not> (0xD800 \<le> c \<and> c < 0xE000))"

lemma utf8_nats_bytes:
  assumes "scalar_ok c" "b \<in> set (utf8_nats c)"
  shows "b < 256"
proof -
  have m: "x mod 64 < 64" for x :: nat by simp
  have "c div 64 < 32" if "c < 0x800" using that by (simp add: less_mult_imp_div_less)
  moreover have "c div 4096 < 16" if "c < 0x10000" using that by (simp add: less_mult_imp_div_less)
  moreover have "c div 262144 < 5" using assms by (simp add: scalar_ok_def less_mult_imp_div_less)
  ultimately show ?thesis using assms(2) m [of c] m [of "c div 64"] m [of "c div 4096"]
    by (auto simp: utf8_nats_def split: if_splits)
qed

lemma unat_utf8_scalar: "scalar_ok c \<Longrightarrow> map unat (utf8_scalar c) = utf8_nats c"
  by (simp add: utf8_scalar_def map_idI utf8_nats_bytes)

lemma digits64: "c div 4096 * 4096 + c div 64 mod 64 * 64 + c mod 64 = (c :: nat)"
proof -
  have "c div 4096 = c div 64 div 64" by (simp add: div_mult2_eq [symmetric])
  then show ?thesis
    using div_mult_mod_eq [of c 64] div_mult_mod_eq [of "c div 64" 64] by linarith
qed

lemma digits64': "c div 262144 * 262144 + c div 4096 mod 64 * 4096 + c div 64 mod 64 * 64 + c mod 64 = (c :: nat)"
proof -
  have "c div 262144 = c div 4096 div 64" by (simp add: div_mult2_eq [symmetric])
  then show ?thesis
    using digits64 [of c] div_mult_mod_eq [of "c div 4096" 64] by linarith
qed

lemma utf8_scalars_scalar:
  assumes ok: "scalar_ok c"
  shows "utf8_scalars (utf8_nats c @ xs) = map_option (Cons c) (utf8_scalars xs)"
proof -
  have m: "x mod 64 < 64" for x :: nat by simp
  consider (1) "c < 0x80" | (2) "0x80 \<le> c" "c < 0x800" | (3) "0x800 \<le> c" "c < 0x10000" | (4) "0x10000 \<le> c"
    by linarith
  then show ?thesis
  proof cases
    case 1
    then show ?thesis by (simp add: utf8_nats_def)
  next
    case 2
    then have "c div 64 < 32" by (simp add: less_mult_imp_div_less)
    moreover have "2 \<le> c div 64" using 2 by linarith
    ultimately show ?thesis using 2 m [of c] by (simp add: utf8_nats_def cont_def)
  next
    case 3
    then have "c div 4096 < 16" by (simp add: less_mult_imp_div_less)
    then show ?thesis using 3 ok m [of c] m [of "c div 64"] digits64 [of c]
      by (simp add: utf8_nats_def cont_def scalar_ok_def Let_def)
  next
    case 4
    have "c div 262144 < 5" using ok by (simp add: scalar_ok_def less_mult_imp_div_less)
    then show ?thesis using 4 ok m [of c] m [of "c div 64"] m [of "c div 4096"] digits64' [of c]
      by (simp add: utf8_nats_def cont_def scalar_ok_def Let_def)
  qed
qed

lemma utf8_scalars_encode:
  "\<forall>c \<in> set cs. scalar_ok c \<Longrightarrow> utf8_scalars (map unat (concat (map utf8_scalar cs))) = Some cs"
  by (induction cs) (auto simp: unat_utf8_scalar utf8_scalars_scalar simp del: utf8_scalars.simps(2))

lemma unat_unit_lt: "unat (c :: code_unit) < 65536"
  using unsigned_less [of c, where ?'a = nat] by simp

lemma is_high_unat: "is_high c \<longleftrightarrow> 0xD800 \<le> unat c \<and> unat c < 0xDC00"
  by (auto simp: is_high_def word_le_nat_alt)

lemma is_low_unat: "is_low c \<longleftrightarrow> 0xDC00 \<le> unat c \<and> unat c < 0xE000"
  by (auto simp: is_low_def word_le_nat_alt)

lemma pair_scalar_ok:
  assumes "is_high h" "is_low l"
  shows "scalar_ok (pair_scalar h l)" "units (pair_scalar h l) = [h, l]"
proof -
  have h: "0xD800 \<le> unat h" "unat h < 0xDC00" using assms(1) by (simp_all add: is_high_unat)
  have l: "0xDC00 \<le> unat l" "unat l < 0xE000" using assms(2) by (simp_all add: is_low_unat)
  define a b where "a = unat h - 0xD800" and "b = unat l - 0xDC00"
  have ab: "a < 0x400" "b < 0x400" "unat h = 0xD800 + a" "unat l = 0xDC00 + b"
    using h l by (simp_all add: a_def b_def)
  have p: "pair_scalar h l = 0x10000 + (a * 0x400 + b)"
    by (simp add: pair_scalar_def a_def b_def)
  show "scalar_ok (pair_scalar h l)" using ab by (simp add: scalar_ok_def p)
  have dm: "(a * 0x400 + b) div 0x400 = a" "(a * 0x400 + b) mod 0x400 = b" using ab(2) by simp_all
  have "units (pair_scalar h l) = [word_of_nat (unat h), word_of_nat (unat l)]"
    unfolding p units_def ab(3,4) using dm by simp
  then show "units (pair_scalar h l) = [h, l]" by simp
qed

lemma unit_scalar_ok: "scalar_ok (if is_high c \<or> is_low c then 0xFFFD else unat c)"
  using unat_unit_lt [of c] by (auto simp: scalar_ok_def is_high_unat is_low_unat)

lemma units_unat [simp]: "units (unat (c :: code_unit)) = [c]"
  using unat_unit_lt [of c] by (simp add: units_def)

lemma scalars_ok: "c \<in> set (scalars s) \<Longrightarrow> scalar_ok c"
proof (induction s rule: scalars.induct)
  case (3 a b cs)
  then show ?case using unit_scalar_ok [of a] pair_scalar_ok [of a b]
    by (cases "is_high a \<and> is_low b") auto
qed (use unit_scalar_ok in auto)

lemma units_scalars: "wire_ok s \<Longrightarrow> concat (map units (scalars s)) = s"
  by (induction s rule: wire_ok.induct) (auto simp: pair_scalar_ok)

text \<open>Decoding an encoded wire string gives it back.\<close>

lemma decodeUtf8_encode: "wire_ok s \<Longrightarrow> decodeUtf8 (utf8_encode s) = Some s"
  by (simp add: decodeUtf8_slow decodeUtf8Slow_def utf8_encode_def utf8_scalars_encode scalars_ok
      units_scalars)

lemma length_utf8_scalar: "length (utf8_scalar c) \<le> 4" "c < 0x10000 \<Longrightarrow> length (utf8_scalar c) \<le> 3"
  "0 < length (utf8_scalar c)"
  by (simp_all add: utf8_scalar_def utf8_nats_def)

text \<open>The encoder's space bound: three bytes per code unit.\<close>

lemma length_utf8_encode: "length (utf8_encode s) \<le> 3 * length s"
proof (induction s rule: scalars.induct)
  case (2 c)
  have "length (utf8_scalar (if is_high c \<or> is_low c then 0xFFFD else unat c)) \<le> 3"
    using unat_unit_lt [of c] by (intro length_utf8_scalar) simp
  then show ?case by (simp add: utf8_encode_def)
next
  case (3 c d cs)
  have "length (utf8_scalar (if is_high c \<or> is_low c then 0xFFFD else unat c)) \<le> 3"
    using unat_unit_lt [of c] by (intro length_utf8_scalar) simp
  then show ?case using 3 length_utf8_scalar(1) [of "pair_scalar c d"]
    by (cases "is_high c \<and> is_low d") (auto simp: utf8_encode_def)
qed (simp add: utf8_encode_def)

end
