(* ===== verification/JsValue.thy ===== *)
theory JsValue
  imports JsNum JsText
begin

text \<open>
  Untyped ECMAScript values (the sources' \<open>unknown\<close>) and the few object operations the
  codecs use: property reads, which fall back to \<open>Object.prototype\<close>; property writes on a
  fresh object, which keep array-index keys first and never create an own \<open>__proto__\<close>.
\<close>

datatype jsval =
    JUndef
  | JNull
  | JBool bool
  | JNum jsnum
  | JStr jsstring
  | JArr "jsval list"
  | JObj "(jsstring \<times> jsval) list"
  | JFun

text \<open>\<open>typeof v === "object" && v !== null && !Array.isArray(v)\<close>.\<close>

fun isRecord :: "jsval \<Rightarrow> bool" where
  "isRecord (JObj ps) = True"
| "isRecord _ = False"

section \<open>Property keys\<close>

definition is_digit :: "code_unit \<Rightarrow> bool" where
  "is_digit c = (0x30 \<le> c \<and> c \<le> 0x39)"

text \<open>The value of a string of decimal digits.\<close>

definition digits_val :: "jsstring \<Rightarrow> nat" where
  "digits_val s = foldl (\<lambda>n c. 10 * n + (unat c - 0x30)) 0 s"

text \<open>
  \<open>isIntegerLikeKey\<close>: \<open>/^(?:0|[1-9]\d*)$/\<close> and a value below 4294967295. These
  are the keys every object lists first, in ascending order.
\<close>

fun isIntegerLikeKey :: "jsstring \<Rightarrow> bool" where
  "isIntegerLikeKey [] = False"
| "isIntegerLikeKey (c # cs) =
     ((c # cs = [0x30] \<or> (is_digit c \<and> c \<noteq> 0x30 \<and> list_all is_digit cs))
      \<and> digits_val (c # cs) < 4294967295)"

definition proto_key :: jsstring where
  "proto_key = js ''__proto__''"

text \<open>The own property names of \<open>Object.prototype\<close>.\<close>

definition inherited_names :: "jsstring list" where
  "inherited_names = map js [''constructor'', ''__defineGetter__'', ''__defineSetter__'',
     ''hasOwnProperty'', ''__lookupGetter__'', ''__lookupSetter__'', ''isPrototypeOf'',
     ''propertyIsEnumerable'', ''toString'', ''valueOf'', ''__proto__'', ''toLocaleString'']"

section \<open>Objects\<close>

definition js_get :: "(jsstring \<times> jsval) list \<Rightarrow> jsstring \<Rightarrow> jsval" where
  "js_get ps k =
     (case map_of ps k of
        Some v \<Rightarrow> v
      | None \<Rightarrow> if k = proto_key then JObj []
                else if k \<in> set inherited_names then JFun else JUndef)"

fun insert_index :: "jsstring \<Rightarrow> jsval \<Rightarrow> (jsstring \<times> jsval) list \<Rightarrow> (jsstring \<times> jsval) list" where
  "insert_index k v [] = [(k, v)]"
| "insert_index k v ((k', v') # ps) =
     (if isIntegerLikeKey k' \<and> digits_val k' < digits_val k then (k', v') # insert_index k v ps
      else (k, v) # (k', v') # ps)"

text \<open>\<open>out[k] = v\<close> on an object created by \<open>{}\<close>; assigning \<open>__proto__\<close> runs
  the inherited setter, which creates no own property.\<close>

definition js_assign :: "(jsstring \<times> jsval) list \<Rightarrow> jsstring \<Rightarrow> jsval \<Rightarrow> (jsstring \<times> jsval) list" where
  "js_assign ps k v =
     (if k = proto_key then ps
      else if k \<in> fst ` set ps then map (\<lambda>(k', v'). (k', if k' = k then v else v')) ps
      else if isIntegerLikeKey k then insert_index k v ps
      else ps @ [(k, v)])"

text \<open>The order in which an object lists its keys.\<close>

fun key_order :: "jsstring list \<Rightarrow> bool" where
  "key_order [] = True"
| "key_order (k # ks) =
     ((\<forall>k' \<in> set ks. isIntegerLikeKey k' \<longrightarrow> isIntegerLikeKey k \<and> digits_val k < digits_val k')
      \<and> key_order ks)"

lemma insert_index_append:
  "key_order (map fst ps @ [k]) \<Longrightarrow> isIntegerLikeKey k \<Longrightarrow> insert_index k v ps = ps @ [(k, v)]"
  by (induction ps) auto

lemma js_assign_append:
  assumes "k \<notin> fst ` set ps" "k \<noteq> proto_key" "key_order (map fst ps @ [k])"
  shows "js_assign ps k v = ps @ [(k, v)]"
  using assms by (simp add: js_assign_def insert_index_append)

lemma key_order_plain: "\<forall>k \<in> set ks. \<not> isIntegerLikeKey k \<Longrightarrow> key_order ks"
  by (induction ks) auto

lemma key_order_appendD: "key_order (xs @ ys) \<Longrightarrow> key_order xs"
  by (induction xs) auto

end
