(* ===== verification/Numeric.thy ===== *)
theory Numeric
  imports JsValue
begin

text \<open>
  Integer kinds (\<open>types/ints.ts\<close>) and fixed-point quantisation (\<open>types/fixed.ts\<close>).
  The facts: \<open>toInt\<close> and \<open>toFixed\<close> always yield an integer of the range, are the
  identity on such integers, and a fixed-point integer survives the trip through its binary64
  quotient, so quantising twice changes nothing.
\<close>

datatype IntKind = Int8 | Int16 | Int32 | Uint8 | Uint16 | Uint32

fun INT_RANGE :: "IntKind \<Rightarrow> int \<times> int" where
  "INT_RANGE Int8 = (-128, 127)"
| "INT_RANGE Int16 = (-32768, 32767)"
| "INT_RANGE Int32 = (-2147483648, 2147483647)"
| "INT_RANGE Uint8 = (0, 255)"
| "INT_RANGE Uint16 = (0, 65535)"
| "INT_RANGE Uint32 = (0, 4294967295)"

fun int_kind_name :: "IntKind \<Rightarrow> jsstring" where
  "int_kind_name Int8 = js ''int8''"
| "int_kind_name Int16 = js ''int16''"
| "int_kind_name Int32 = js ''int32''"
| "int_kind_name Uint8 = js ''uint8''"
| "int_kind_name Uint16 = js ''uint16''"
| "int_kind_name Uint32 = js ''uint32''"

definition int_kinds :: "IntKind list" where
  "int_kinds = [Int8, Int16, Int32, Uint8, Uint16, Uint32]"

text \<open>\<open>isIntKind\<close>, with the kind it recognises.\<close>

definition isIntKind :: "jsstring \<Rightarrow> IntKind option" where
  "isIntKind s = find (\<lambda>k. int_kind_name k = s) int_kinds"

definition in_range :: "IntKind \<Rightarrow> int \<Rightarrow> bool" where
  "in_range k v = (fst (INT_RANGE k) \<le> v \<and> v \<le> snd (INT_RANGE k))"

fun isIntOf :: "jsval \<Rightarrow> IntKind \<Rightarrow> bool" where
  "isIntOf (JNum n) k =
     (isInteger n \<and> num_le (num_of_int (fst (INT_RANGE k))) n
      \<and> num_le n (num_of_int (snd (INT_RANGE k))))"
| "isIntOf _ k = False"

definition toInt :: "jsnum \<Rightarrow> IntKind \<Rightarrow> jsnum" where
  "toInt x k =
     (if isNaN x then JFin 0
      else let mn = num_of_int (fst (INT_RANGE k)); mx = num_of_int (snd (INT_RANGE k))
      in if num_le x mn then mn
         else if num_le mx x then mx
         else let truncated = math_trunc x
              in if num_eq truncated (JFin 0) then JFin 0 else truncated)"

definition FIXED_MIN :: int where "FIXED_MIN = -2147483648"

definition FIXED_MAX :: int where "FIXED_MAX = 2147483647"

text \<open>\<open>SCALE[decimals]\<close>, for \<open>decimals\<close> in 0..9.\<close>

definition SCALE :: "nat \<Rightarrow> jsnum" where
  "SCALE d = num_of_int (10 ^ d)"

definition toFixed :: "jsnum \<Rightarrow> nat \<Rightarrow> jsnum" where
  "toFixed x d =
     (if isNaN x then JFin 0
      else let scaled = num_mul x (SCALE d);
               rounded = (if num_lt scaled (JFin 0) then num_neg (math_round (num_neg scaled))
                          else math_round scaled)
      in if num_le rounded (num_of_int FIXED_MIN) then num_of_int FIXED_MIN
         else if num_le (num_of_int FIXED_MAX) rounded then num_of_int FIXED_MAX
         else if num_eq rounded (JFin 0) then JFin 0 else rounded)"

definition fromFixed :: "jsnum \<Rightarrow> nat \<Rightarrow> jsnum" where
  "fromFixed scaled d = num_div scaled (SCALE d)"

definition quantizeFixed :: "jsnum \<Rightarrow> nat \<Rightarrow> jsnum" where
  "quantizeFixed x d = fromFixed (toFixed x d) d"

section \<open>Integers\<close>

lemma isIntOf_iff:
  "isIntOf v k \<longleftrightarrow> (\<exists>n. v = JNum n \<and> isInteger n \<and> in_range k (int_of_num n))"
proof (cases v)
  case (JNum n)
  show ?thesis
  proof (cases "isInteger n")
    case True
    then show ?thesis using JNum
      by (cases rule: isInteger_cases) (auto simp: in_range_def)
  next
    case False
    then show ?thesis using JNum by auto
  qed
qed auto

lemma isIntOf_num_of_int [simp]: "isIntOf (JNum (num_of_int i)) k \<longleftrightarrow> in_range k i"
  by (auto simp: in_range_def)

lemma math_trunc_int: "\<exists>i. math_trunc (JFin q) = num_of_int i \<or> math_trunc (JFin q) = JNegZero"
  by auto

lemma toInt_range: "\<exists>i. toInt x k = num_of_int i \<and> in_range k i"
proof (cases x)
  case (JFin q)
  have r: "fst (INT_RANGE k) \<le> 0" "0 \<le> snd (INT_RANGE k)" by (cases k; simp)+
  consider (lo) "q \<le> of_int (fst (INT_RANGE k))" | (hi) "of_int (snd (INT_RANGE k)) \<le> q"
    | (mid) "of_int (fst (INT_RANGE k)) < q" "q < of_int (snd (INT_RANGE k))" by linarith
  then show ?thesis
  proof cases
    case mid
    define i where "i = (if 0 \<le> q then \<lfloor>q\<rfloor> else if -1 < q then 0 else \<lceil>q\<rceil>)"
    have "\<lfloor>q\<rfloor> = 0" if "0 \<le> q" "q < 1" using that by linarith
    then have "toInt x k = num_of_int i"
      using mid JFin by (auto simp: toInt_def Let_def i_def num_eq_def)
    moreover have "in_range k i"
      using mid r by (auto simp: in_range_def i_def le_floor_iff floor_le_iff ceiling_le_iff le_ceiling_iff
          floor_eq_iff)
    ultimately show ?thesis by blast
  qed (use JFin r in \<open>auto simp: toInt_def Let_def in_range_def\<close>)
next
  case (JInf s)
  then have "toInt x k = num_of_int (if s then fst (INT_RANGE k) else snd (INT_RANGE k))"
    by (cases s) (auto simp: toInt_def Let_def)
  then show ?thesis by (cases k) (auto simp: in_range_def simp del: of_int_minus of_int_numeral of_int_neg_numeral)
next
  case JNegZero
  then show ?thesis by (cases k) (auto simp: toInt_def Let_def in_range_def num_eq_def)
next
  case JNaN
  then show ?thesis by (cases k) (auto simp: toInt_def in_range_def intro!: exI [of _ 0])
qed

lemma toInt_id: "in_range k i \<Longrightarrow> toInt (num_of_int i) k = num_of_int i"
  by (auto simp: toInt_def Let_def in_range_def)

section \<open>Fixed point\<close>

lemma round_num_near:
  assumes "1 / 2 ^ 60 \<le> q" "q \<le> 2 ^ 64"
  obtains r where "round_num binary64 q = JFin r" "round_num binary64 (- q) = JFin (- r)"
    "0 < r" "\<bar>r - q\<bar> \<le> q / 2 ^ 53"
proof -
  define r where "r = round_pos binary64 q"
  have q: "0 < q" using assms(1) by (rule less_le_trans [rotated]) simp
  have "pow2 (emin binary64) \<le> pow2 (-60)" unfolding pow2_le_iff by (simp add: emin_def binary64_def)
  also have "\<dots> \<le> q" using assms(1) by (simp add: pow2_def)
  finally have err: "\<bar>r - q\<bar> \<le> q / 2 ^ 53"
    using round_pos_err [of binary64 q] by (simp add: r_def binary64_def)
  also have "\<dots> \<le> q / 2" using q by (intro divide_left_mono) auto
  finally have half: "\<bar>r - q\<bar> \<le> q / 2" .
  then have r0: "0 < r" using q by linarith
  have "r \<le> 2 * q" using half q by linarith
  also have "\<dots> \<le> 2 ^ 65" using assms(2) by simp
  also have "\<dots> = pow2 65" by (simp add: pow2_def)
  also have "\<dots> < pow2 (emax binary64 + 1)" unfolding pow2_less_iff by (simp add: emax_def binary64_def)
  finally have "r < pow2 (emax binary64 + 1)" .
  then have "round_num binary64 q = JFin r" "round_num binary64 (- q) = JFin (- r)"
    using r0 q by (simp_all add: round_num_def r_def Let_def)
  then show ?thesis using r0 err that by blast
qed

lemma scale_bounds: "d \<le> 9 \<Longrightarrow> (1 :: rat) \<le> 10 ^ d \<and> (10 :: rat) ^ d \<le> 10 ^ 9"
  using power_increasing [of d 9 "10 :: rat"] one_le_power [of "10 :: rat" d] by simp

text \<open>Dividing and multiplying back lands within a quarter of the integer.\<close>

lemma fixed_pos_roundtrip:
  assumes k: "0 < k" "k \<le> 2147483648" and d: "d \<le> 9"
  obtains r1 r2 where "0 < r1" "0 < r2"
    "round_num binary64 (of_int k / 10 ^ d) = JFin r1"
    "round_num binary64 (- (of_int k / 10 ^ d)) = JFin (- r1)"
    "round_num binary64 (r1 * 10 ^ d) = JFin r2"
    "round_num binary64 (- (r1 * 10 ^ d)) = JFin (- r2)"
    "\<lfloor>r2 + 1 / 2\<rfloor> = k"
proof -
  define s :: rat where "s = 10 ^ d"
  define K :: rat where "K = of_int k"
  have s: "1 \<le> s" "s \<le> 10 ^ 9" using scale_bounds [OF d] by (simp_all add: s_def)
  have K: "1 \<le> K" "K \<le> 2147483648" using k by (simp_all add: K_def)
  have "1 / 10 ^ 9 \<le> K / s" using s K by (simp add: frac_le)
  then have x: "1 / 2 ^ 60 \<le> K / s" by (rule order_trans [rotated]) simp
  have "K / s \<le> K / 1" using s K by (intro divide_left_mono) auto
  then have x': "K / s \<le> 2 ^ 64" using K by simp
  obtain r1 where r1: "round_num binary64 (K / s) = JFin r1" "round_num binary64 (- (K / s)) = JFin (- r1)"
    "0 < r1" "\<bar>r1 - K / s\<bar> \<le> K / s / 2 ^ 53"
    using round_num_near [OF x x'] by blast
  have "\<bar>r1 * s - K\<bar> = \<bar>r1 - K / s\<bar> * s"
    using s by (simp add: abs_mult_pos left_diff_distrib)
  also have "\<dots> \<le> K / s / 2 ^ 53 * s" using r1(4) s by (intro mult_right_mono) auto
  also have "\<dots> = K / 2 ^ 53" using s by simp
  finally have e1: "\<bar>r1 * s - K\<bar> \<le> K / 2 ^ 53" .
  also have "\<dots> \<le> K / 2" using K by (intro divide_left_mono) auto
  finally have y: "K / 2 \<le> r1 * s" "r1 * s \<le> 2 * K" using K by linarith+
  have y': "1 / 2 ^ 60 \<le> r1 * s" using y(1) K by (intro order_trans [OF _ y(1)]) simp
  have y'': "r1 * s \<le> 2 ^ 64" using y(2) K by (intro order_trans [OF y(2)]) simp
  obtain r2 where r2: "round_num binary64 (r1 * s) = JFin r2" "round_num binary64 (- (r1 * s)) = JFin (- r2)"
    "0 < r2" "\<bar>r2 - r1 * s\<bar> \<le> r1 * s / 2 ^ 53"
    using round_num_near [OF y' y''] by blast
  have "\<bar>r2 - r1 * s\<bar> \<le> 2 * K / 2 ^ 53"
    using r2(4) y(2) by (rule order_trans [OF _ divide_right_mono]) simp
  then have "\<bar>r2 - K\<bar> \<le> 3 * K / 2 ^ 53" using e1 by linarith
  also have "\<dots> < 1 / 4" using K by simp
  finally have "\<lfloor>r2 + 1 / 2\<rfloor> = k" unfolding floor_eq_iff K_def by linarith
  with r1 r2 show ?thesis using that unfolding K_def s_def by blast
qed

lemma toFixed_fromFixed:
  assumes i: "FIXED_MIN \<le> i" "i \<le> FIXED_MAX" and d: "d \<le> 9"
  shows "toFixed (fromFixed (num_of_int i) d) d = num_of_int i"
proof -
  have s0: "\<not> (10 :: rat) ^ d < 0" "(10 :: rat) ^ d \<noteq> 0" by simp_all
  consider (zero) "i = 0" | (pos) "0 < i" | (neg) "i < 0" by linarith
  then show ?thesis
  proof cases
    case zero
    have "\<lfloor>1 / 2 :: rat\<rfloor> = 0" by (simp add: floor_eq_iff)
    with zero show ?thesis
      by (simp add: toFixed_def fromFixed_def SCALE_def num_div_def num_mul_def signed_zero_def
          Let_def num_lt_def FIXED_MIN_def FIXED_MAX_def)
  next
    case pos
    have "i \<le> 2147483648" using i by (simp add: FIXED_MAX_def)
    with pos obtain r1 r2 where r: "0 < r1" "0 < r2" "round_num binary64 (of_int i / 10 ^ d) = JFin r1"
      "round_num binary64 (r1 * 10 ^ d) = JFin r2" "\<lfloor>r2 + 1 / 2\<rfloor> = i"
      using fixed_pos_roundtrip [of i d] d by blast
    then have "fromFixed (num_of_int i) d = JFin r1" using pos
      by (simp add: fromFixed_def SCALE_def num_div_def)
    moreover have "num_mul (JFin r1) (SCALE d) = JFin r2" using r s0
      by (simp add: SCALE_def num_mul_def)
    ultimately show ?thesis using r pos i
      by (simp add: toFixed_def Let_def num_lt_def FIXED_MIN_def FIXED_MAX_def)
  next
    case neg
    define k where "k = - i"
    have k: "0 < k" "k \<le> 2147483648" "i = - k" using neg i by (simp_all add: k_def FIXED_MIN_def)
    then obtain r1 r2 where r: "0 < r1" "0 < r2" "round_num binary64 (- (of_int k / 10 ^ d)) = JFin (- r1)"
      "round_num binary64 (- (r1 * 10 ^ d)) = JFin (- r2)" "\<lfloor>r2 + 1 / 2\<rfloor> = k"
      using fixed_pos_roundtrip [of k d] d by blast
    then have "fromFixed (num_of_int i) d = JFin (- r1)" using k
      by (simp add: fromFixed_def SCALE_def num_div_def)
    moreover have "num_mul (JFin (- r1)) (SCALE d) = JFin (- r2)" using r s0
      by (simp add: SCALE_def num_mul_def)
    ultimately show ?thesis using r k i
      by (simp add: toFixed_def Let_def num_lt_def FIXED_MIN_def FIXED_MAX_def)
  qed
qed

lemma round_num_not_nan: "\<not> isNaN (round_num f q)"
  by (simp add: round_num_def Let_def)

lemma scaled_not_nan: "\<not> isNaN x \<Longrightarrow> \<not> isNaN (num_mul x (SCALE d))"
  by (cases x) (auto simp: num_mul_def SCALE_def signed_zero_def Let_def round_num_not_nan)

lemma math_round_cases:
  "\<not> isNaN x \<Longrightarrow> (\<exists>b. math_round x = JInf b) \<or> math_round x = JNegZero \<or> (\<exists>i. math_round x = num_of_int i)"
  by (cases x) (auto simp: Let_def)

lemma num_neg_cases:
  "(\<exists>b. y = JInf b) \<or> y = JNegZero \<or> (\<exists>i. y = num_of_int i) \<Longrightarrow>
   (\<exists>b. num_neg y = JInf b) \<or> num_neg y = JNegZero \<or> (\<exists>i. num_neg y = num_of_int i)"
  by (auto intro: exI [of _ 0]) (metis of_int_minus)+

text \<open>\<open>toFixed\<close> always yields a 32-bit integer.\<close>

lemma toFixed_range: "\<exists>i. toFixed x d = num_of_int i \<and> FIXED_MIN \<le> i \<and> i \<le> FIXED_MAX"
proof (cases "isNaN x")
  case True
  then show ?thesis by (auto simp: toFixed_def FIXED_MIN_def FIXED_MAX_def intro!: exI [of _ 0])
next
  case False
  define y where "y = (let s = num_mul x (SCALE d)
    in if num_lt s (JFin 0) then num_neg (math_round (num_neg s)) else math_round s)"
  have "\<not> isNaN (num_neg (num_mul x (SCALE d)))"
    using scaled_not_nan [OF False, of d] by (cases "num_mul x (SCALE d)") auto
  then have "(\<exists>b. y = JInf b) \<or> y = JNegZero \<or> (\<exists>i. y = num_of_int i)"
    using math_round_cases scaled_not_nan [OF False, of d] num_neg_cases by (simp add: y_def Let_def)
  moreover have "toFixed x d = (if num_le y (num_of_int FIXED_MIN) then num_of_int FIXED_MIN
      else if num_le (num_of_int FIXED_MAX) y then num_of_int FIXED_MAX
      else if num_eq y (JFin 0) then JFin 0 else y)"
    using False by (simp add: toFixed_def y_def Let_def)
  ultimately show ?thesis
  proof (elim disjE exE)
    fix b assume "y = JInf b" "toFixed x d = (if num_le y (num_of_int FIXED_MIN) then num_of_int FIXED_MIN
      else if num_le (num_of_int FIXED_MAX) y then num_of_int FIXED_MAX
      else if num_eq y (JFin 0) then JFin 0 else y)"
    then show ?thesis
      by (cases b) (auto simp: FIXED_MIN_def FIXED_MAX_def intro: exI [of _ "-2147483648"] exI [of _ 2147483647])
  qed (auto simp: FIXED_MIN_def FIXED_MAX_def num_eq_def intro: exI [of _ "-2147483648"])
qed

text \<open>Quantising is idempotent.\<close>

lemma quantizeFixed_idem: "d \<le> 9 \<Longrightarrow> quantizeFixed (quantizeFixed x d) d = quantizeFixed x d"
  unfolding quantizeFixed_def using toFixed_range [of x d] toFixed_fromFixed by auto

text \<open>The shapes the codecs rely on.\<close>

lemma fround_idem: "fround (fround n) = fround n"
  by (simp add: fround_def)

lemma toFixed_int: "isInteger (toFixed x d)"
  using toFixed_range [of x d] by auto

lemma toFixed_quantized: "d \<le> 9 \<Longrightarrow> toFixed (fromFixed (toFixed x d) d) d = toFixed x d"
  using toFixed_range [of x d] toFixed_fromFixed by auto

lemma isIntOf_toInt: "isIntOf (JNum (toInt n k)) k"
  using toInt_range [of n k] by (auto simp del: isIntOf.simps)

lemma toInt_idem: "toInt (toInt n k) k = toInt n k"
  using toInt_range [of n k] toInt_id by auto

end
