(* ===== verification/Bytes.thy ===== *)
theory Bytes
  imports Numeric
begin

unbundle bit_operations_syntax

text \<open>
  The byte-level primitives of \<open>serializer/bytes.ts\<close>: zigzag, the growable
  \<open>ByteWriter\<close> and the sticky-error \<open>ByteReader\<close>. The writer is its buffer and its
  length; what it holds is \<open>toBytes\<close>. \<open>appends f bs\<close> says that \<open>f\<close> keeps
  the writer well formed and extends what it holds by \<open>bs\<close>; \<open>rd_at r bs\<close> says that
  the reader has no error and \<open>bs\<close> is what it has left. A value written by one operation is
  read back by its counterpart, and growth of the buffer is invisible.
\<close>

section \<open>Messages and zigzag\<close>

text \<open>An error message: its template and the values interpolated into it.\<close>

datatype message = Msg string "jsval list"

definition nat_val :: "nat \<Rightarrow> jsval" where
  "nat_val n = JNum (num_of_int (int n))"

text \<open>\<open>((value << 1) ^ (value >> 31)) >>> 0\<close> on 32-bit integers.\<close>

definition zigzag :: "int \<Rightarrow> nat" where
  "zigzag v = (let w = word_of_int v :: 32 word in unat (push_bit 1 w XOR signed_drop_bit 31 w))"

text \<open>\<open>(value >>> 1) ^ -(value & 1)\<close>.\<close>

definition unzigzag :: "nat \<Rightarrow> int" where
  "unzigzag n = (let w = word_of_nat n :: 32 word in sint (drop_bit 1 w XOR - (w AND 1)))"

definition MAX_UINT32 :: nat where "MAX_UINT32 = 0xffffffff"

section \<open>ByteWriter\<close>

record bytewriter =
  wbytes :: "byte list"
  wlength :: nat

definition new_writer :: bytewriter where
  "new_writer = \<lparr>wbytes = replicate 256 0, wlength = 0\<rparr>"

definition reset :: "bytewriter \<Rightarrow> bytewriter" where
  "reset w = w\<lparr>wlength := 0\<rparr>"

definition truncate_to :: "nat \<Rightarrow> bytewriter \<Rightarrow> bytewriter" where
  "truncate_to n w = w\<lparr>wlength := n\<rparr>"

definition toBytes :: "bytewriter \<Rightarrow> byte list" where
  "toBytes w = take (wlength w) (wbytes w)"

definition patch :: "nat \<Rightarrow> byte \<Rightarrow> bytewriter \<Rightarrow> bytewriter" where
  "patch i b w = w\<lparr>wbytes := (wbytes w)[i := b]\<rparr>"

text \<open>\<open>while (size < needed) size *= 2\<close>; the buffer is never empty (\<open>writer_ok\<close>).\<close>

function grow_size :: "nat \<Rightarrow> nat \<Rightarrow> nat" where
  "grow_size sz needed =
     (if 0 < sz \<and> sz < needed then grow_size (2 * sz) needed else sz)"
  by pat_completeness auto
termination
  by (relation "measure (\<lambda>(sz, needed). needed - sz)") auto

declare grow_size.simps [simp del]

definition reserve :: "nat \<Rightarrow> bytewriter \<Rightarrow> bytewriter" where
  "reserve extra w =
     (let needed = wlength w + extra
      in if needed \<le> length (wbytes w) then w
         else let sz = grow_size (length (wbytes w) * 2) needed
              in w\<lparr>wbytes := put_at 0 (take (wlength w) (wbytes w)) (replicate sz 0)\<rparr>)"

text \<open>\<open>this._bytes[this._length++] = byte\<close>.\<close>

definition push :: "nat \<Rightarrow> bytewriter \<Rightarrow> bytewriter" where
  "push b w = w\<lparr>wbytes := (wbytes w)[wlength w := word_of_nat b], wlength := wlength w + 1\<rparr>"

definition put_u8 :: "nat \<Rightarrow> bytewriter \<Rightarrow> bytewriter" where
  "put_u8 b w = push b (reserve 1 w)"

fun varint_loop :: "nat \<Rightarrow> bytewriter \<Rightarrow> bytewriter" where
  "varint_loop rest w =
     (if 0x80 \<le> rest then varint_loop (rest div 0x80) (push ((rest mod 0x80) OR 0x80) w)
      else push rest w)"

declare varint_loop.simps [simp del]

definition put_varint :: "nat \<Rightarrow> bytewriter \<Rightarrow> bytewriter" where
  "put_varint v w = varint_loop v (reserve 5 w)"

definition put_zigzag :: "int \<Rightarrow> bytewriter \<Rightarrow> bytewriter" where
  "put_zigzag v w = put_varint (zigzag v) w"

text \<open>Writes at the current end, as \<open>DataView\<close> and \<open>encodeInto\<close> do.\<close>

definition store :: "byte list \<Rightarrow> bytewriter \<Rightarrow> bytewriter" where
  "store bs w = w\<lparr>wbytes := put_at (wlength w) bs (wbytes w), wlength := wlength w + length bs\<rparr>"

definition float64_bytes :: "jsnum \<Rightarrow> byte list" where
  "float64_bytes x =
     (if isNaN x then le_bytes 4 0 @ le_bytes 4 0x7ff80000 else le_bytes 8 (float_bits binary64 x))"

definition float32_bytes :: "jsnum \<Rightarrow> byte list" where
  "float32_bytes x =
     (if isNaN x then le_bytes 4 0x7fc00000 else le_bytes 4 (float_bits binary32 (fround x)))"

definition put_float64 :: "jsnum \<Rightarrow> bytewriter \<Rightarrow> bytewriter" where
  "put_float64 x w = store (float64_bytes x) (reserve 8 w)"

definition put_float32 :: "jsnum \<Rightarrow> bytewriter \<Rightarrow> bytewriter" where
  "put_float32 x w = store (float32_bytes x) (reserve 4 w)"

text \<open>
  \<open>string\<close>: the UTF-8 bytes go behind a one-byte gap when the string is short, behind a
  five-byte gap otherwise, and are then moved down to the real length prefix
  (\<open>copyWithin\<close>).
\<close>

definition put_string :: "jsstring \<Rightarrow> bytewriter \<Rightarrow> bytewriter" where
  "put_string text w =
     (let v = wireString text;
          w = reserve (5 + length v * 3) w;
          start = wlength w;
          lengthSize = (if length v < 43 then 1 else 5);
          encoded = utf8_encode v;
          written = length encoded;
          w = w\<lparr>wbytes := put_at (start + lengthSize) encoded (wbytes w)\<rparr>
      in if lengthSize = 1 then
           w\<lparr>wbytes := (wbytes w)[start := word_of_nat written], wlength := start + 1 + written\<rparr>
         else
           let body = start + lengthSize;
               w = put_varint written (w\<lparr>wlength := start\<rparr>)
           in w\<lparr>wbytes := put_at (wlength w) (take written (drop body (wbytes w))) (wbytes w),
                wlength := wlength w + written\<rparr>)"

section \<open>ByteReader\<close>

record bytereader =
  rbytes :: "byte list"
  rpos :: nat
  rerror :: "(message \<times> nat) option"

definition new_reader :: "byte list \<Rightarrow> bytereader" where
  "new_reader bs = \<lparr>rbytes = bs, rpos = 0, rerror = None\<rparr>"

definition remaining :: "bytereader \<Rightarrow> nat" where
  "remaining r = length (rbytes r) - rpos r"

definition done_reading :: "bytereader \<Rightarrow> bool" where
  "done_reading r = (length (rbytes r) \<le> rpos r)"

definition fail :: "message \<Rightarrow> bytereader \<Rightarrow> bytereader" where
  "fail m r = r\<lparr>rerror := (case rerror r of None \<Rightarrow> Some (m, rpos r) | Some e \<Rightarrow> Some e),
                rpos := length (rbytes r)\<rparr>"

definition get_u8 :: "bytereader \<Rightarrow> nat \<times> bytereader" where
  "get_u8 r =
     (if rpos r < length (rbytes r) then (unat (rbytes r ! rpos r), r\<lparr>rpos := rpos r + 1\<rparr>)
      else (0, fail (Msg ''unexpected end of data'' []) r))"

text \<open>The loop of \<open>varint\<close>; the first argument counts the iterations left.\<close>

fun get_varint_loop :: "nat \<Rightarrow> nat \<Rightarrow> nat \<Rightarrow> bytereader \<Rightarrow> nat \<times> bytereader" where
  "get_varint_loop 0 v scale r = (0, fail (Msg ''varint longer than 5 bytes'' []) r)"
| "get_varint_loop (Suc n) v scale r =
     (if rpos r < length (rbytes r) then
        let b = unat (rbytes r ! rpos r);
            r = r\<lparr>rpos := rpos r + 1\<rparr>;
            v = v + (b AND 0x7f) * scale
        in if b AND 0x80 = 0 then
             (if MAX_UINT32 < v then (0, fail (Msg ''varint above 2^32-1'' []) r) else (v, r))
           else get_varint_loop n v (scale * 0x80) r
      else (0, fail (Msg ''truncated varint'' []) r))"

definition get_varint :: "bytereader \<Rightarrow> nat \<times> bytereader" where
  "get_varint r = get_varint_loop 5 0 1 r"

definition get_count :: "bytereader \<Rightarrow> nat \<times> bytereader" where
  "get_count r =
     (let (count, r) = get_varint r
      in if remaining r < count then
           (0, fail (Msg ''count {} exceeds the {} bytes left'' [nat_val count, nat_val (remaining r)]) r)
         else (count, r))"

definition get_zigzag :: "bytereader \<Rightarrow> int \<times> bytereader" where
  "get_zigzag r = (let (v, r) = get_varint r in (unzigzag v, r))"

definition get_float64 :: "bytereader \<Rightarrow> jsnum \<times> bytereader" where
  "get_float64 r =
     (if remaining r < 8 then (JFin 0, fail (Msg ''truncated float64'' []) r)
      else (num_of_bits binary64 (le_nat (take 8 (drop (rpos r) (rbytes r)))), r\<lparr>rpos := rpos r + 8\<rparr>))"

definition get_float32 :: "bytereader \<Rightarrow> jsnum \<times> bytereader" where
  "get_float32 r =
     (if remaining r < 4 then (JFin 0, fail (Msg ''truncated float32'' []) r)
      else (num_of_bits binary32 (le_nat (take 4 (drop (rpos r) (rbytes r)))), r\<lparr>rpos := rpos r + 4\<rparr>))"

definition get_string :: "bytereader \<Rightarrow> jsstring \<times> bytereader" where
  "get_string r =
     (let (n, r) = get_count r
      in if rerror r \<noteq> None then ([], r)
         else case decodeUtf8 (take n (drop (rpos r) (rbytes r))) of
                None \<Rightarrow> ([], fail (Msg ''invalid UTF-8'' []) r)
              | Some text \<Rightarrow> (text, r\<lparr>rpos := rpos r + n\<rparr>))"

section \<open>Zigzag\<close>

lemma sint_word32: "-2147483648 \<le> v \<Longrightarrow> v \<le> 2147483647 \<Longrightarrow> sint (word_of_int v :: 32 word) = v"
  by (simp add: int_word_sint)

lemma sign_word32:
  assumes "-2147483648 \<le> v" "v \<le> 2147483647"
  shows "signed_drop_bit 31 (word_of_int v :: 32 word) = (if v < 0 then -1 else 0)"
proof -
  have "sint (signed_drop_bit 31 (word_of_int v :: 32 word)) = v div 2147483648"
    by (simp add: sint_signed_drop_bit_eq sint_word32 [OF assms] drop_bit_eq_div)
  also have "\<dots> = (if v < 0 then -1 else 0)"
    using assms by (auto simp: div_pos_pos_trivial) 
  also have "\<dots> = sint (if v < 0 then -1 else 0 :: 32 word)" by simp
  finally show ?thesis by (rule signed_word_eqI)
qed

lemma zigzag_eq:
  assumes "-2147483648 \<le> v" "v \<le> 2147483647"
  shows "zigzag v = nat (if 0 \<le> v then 2 * v else - 2 * v - 1)"
proof -
  have p: "push_bit 1 (word_of_int v :: 32 word) = word_of_int (2 * v)"
    by (simp add: push_bit_eq_mult)
  have z: "unat (word_of_int k :: 32 word) = nat k" if "0 \<le> k" "k < 4294967296" for k
    using that by (simp add: unat_eq_nat_uint uint_word_of_int)
  show ?thesis
  proof (cases "v < 0")
    case True
    have "push_bit 1 (word_of_int v :: 32 word) XOR -1 = word_of_int (- 2 * v - 1)"
      unfolding p word_log_esimps(6) not_eq_complement by simp
    then show ?thesis using True assms z [of "- 2 * v - 1"]
      by (simp add: zigzag_def sign_word32 [OF assms])
  next
    case False
    have "push_bit 1 (word_of_int v :: 32 word) XOR 0 = word_of_int (2 * v)" unfolding p by simp
    then have "zigzag v = unat (word_of_int (2 * v) :: 32 word)"
      using False by (simp only: zigzag_def sign_word32 [OF assms] Let_def if_False)
    then show ?thesis using False assms z [of "2 * v"] by simp
  qed
qed

lemma unzigzag_eq:
  assumes "n < 4294967296"
  shows "unzigzag n = (if even n then int (n div 2) else - int (n div 2) - 1)"
proof -
  let ?w = "word_of_nat n :: 32 word"
  have w: "unat ?w = n" using assms by (simp add: unat_of_nat)
  have d: "drop_bit 1 ?w = word_of_int (int (n div 2))"
  proof -
    have "unat (drop_bit 1 ?w) = n div 2" by (simp only: unat_drop_bit_eq w) (simp add: drop_bit_eq_div)
    then have "drop_bit 1 ?w = word_of_nat (n div 2)" by (metis of_nat_unat ucast_id)
    then show ?thesis by simp
  qed
  have a: "?w AND 1 = (if even n then 0 else 1)"
    by (simp add: and_one_eq mod2_eq_if)
  have r: "int (n div 2) < 2147483648" using assms by linarith
  show ?thesis
  proof (cases "even n")
    case True
    then show ?thesis using a d r sint_word32 [of "int (n div 2)"] by (simp add: unzigzag_def)
  next
    case False
    have "drop_bit 1 ?w XOR -1 = word_of_int (- int (n div 2) - 1)"
      unfolding d word_log_esimps(6) not_eq_complement by simp
    then show ?thesis using a False r sint_word32 [of "- int (n div 2) - 1"] by (simp add: unzigzag_def)
  qed
qed

lemma unzigzag_zigzag:
  assumes "-2147483648 \<le> v" "v \<le> 2147483647"
  shows "unzigzag (zigzag v) = v" "zigzag v < 4294967296"
  using assms by (auto simp: zigzag_eq unzigzag_eq even_nat_iff)

section \<open>What the writer holds\<close>

definition writer_ok :: "bytewriter \<Rightarrow> bool" where
  "writer_ok w = (wlength w \<le> length (wbytes w) \<and> 0 < length (wbytes w))"

definition appends :: "(bytewriter \<Rightarrow> bytewriter) \<Rightarrow> byte list \<Rightarrow> bool" where
  "appends f bs = (\<forall>w. writer_ok w \<longrightarrow> writer_ok (f w) \<and> toBytes (f w) = toBytes w @ bs)"

lemma appendsI:
  "(\<And>w. writer_ok w \<Longrightarrow> writer_ok (f w) \<and> toBytes (f w) = toBytes w @ bs) \<Longrightarrow> appends f bs"
  by (simp add: appends_def)

lemma appendsD:
  "appends f bs \<Longrightarrow> writer_ok w \<Longrightarrow> writer_ok (f w)"
  "appends f bs \<Longrightarrow> writer_ok w \<Longrightarrow> toBytes (f w) = toBytes w @ bs"
  by (simp_all add: appends_def)

lemma appends_comp [appends_intro]:
  "appends f as \<Longrightarrow> appends g bs \<Longrightarrow> appends (\<lambda>w. g (f w)) (as @ bs)"
  by (simp add: appends_def)

lemma appends_id [appends_intro]: "appends (\<lambda>w. w) []"
  by (simp add: appends_def)

lemma writer_ok_new [simp]: "writer_ok new_writer" and toBytes_new [simp]: "toBytes new_writer = []"
  by (simp_all add: writer_ok_def new_writer_def toBytes_def)

lemma writer_ok_reset [simp]: "writer_ok w \<Longrightarrow> writer_ok (reset w)"
  and toBytes_reset [simp]: "toBytes (reset w) = []"
  by (simp_all add: writer_ok_def reset_def toBytes_def)

lemma length_toBytes: "writer_ok w \<Longrightarrow> length (toBytes w) = wlength w"
  by (simp add: writer_ok_def toBytes_def)

lemma toBytes_truncate:
  "writer_ok w \<Longrightarrow> n \<le> wlength w \<Longrightarrow>
   writer_ok (truncate_to n w) \<and> toBytes (truncate_to n w) = take n (toBytes w)"
  by (simp add: writer_ok_def truncate_to_def toBytes_def min_def)

lemma toBytes_patch:
  "writer_ok w \<Longrightarrow> writer_ok (patch i b w) \<and> toBytes (patch i b w) = (toBytes w)[i := b]"
  by (simp add: writer_ok_def patch_def toBytes_def take_update_swap)

lemma grow_size_ge: "0 < sz \<Longrightarrow> needed \<le> grow_size sz needed \<and> sz \<le> grow_size sz needed"
proof (induction sz needed rule: grow_size.induct)
  case (1 sz needed)
  show ?case
  proof (cases "sz < needed")
    case True
    with "1.IH" "1.prems" have "needed \<le> grow_size (2 * sz) needed \<and> 2 * sz \<le> grow_size (2 * sz) needed"
      by simp
    with True "1.prems" show ?thesis by (simp add: grow_size.simps [of sz needed])
  next
    case False
    then show ?thesis by (simp add: grow_size.simps [of sz needed])
  qed
qed

text \<open>Growing the buffer makes room and changes nothing a caller can see.\<close>

lemma reserve_spec:
  assumes "writer_ok w"
  shows "writer_ok (reserve n w)" "toBytes (reserve n w) = toBytes w"
    "wlength (reserve n w) = wlength w" "wlength w + n \<le> length (wbytes (reserve n w))"
proof -
  have g: "wlength w + n \<le> grow_size (length (wbytes w) * 2) (wlength w + n)"
    "wlength w \<le> grow_size (length (wbytes w) * 2) (wlength w + n)"
    using grow_size_ge [of "length (wbytes w) * 2" "wlength w + n"] assms by (auto simp: writer_ok_def)
  show "writer_ok (reserve n w)" "toBytes (reserve n w) = toBytes w"
    "wlength (reserve n w) = wlength w" "wlength w + n \<le> length (wbytes (reserve n w))"
    using assms g
    by (auto simp: reserve_def Let_def writer_ok_def toBytes_def put_at_def min_def)
qed

lemma push_spec:
  assumes "writer_ok w" "wlength w < length (wbytes w)"
  shows "writer_ok (push b w)" "toBytes (push b w) = toBytes w @ [word_of_nat b]"
    "wlength (push b w) = wlength w + 1" "length (wbytes (push b w)) = length (wbytes w)"
  using assms by (auto simp: push_def writer_ok_def toBytes_def take_Suc_conv_app_nth)

lemma appends_u8 [appends_intro]: "appends (put_u8 b) [word_of_nat b]"
proof (rule appendsI)
  fix w assume w: "writer_ok w"
  note r = reserve_spec [OF w, of 1]
  with push_spec [OF r(1), of b] show "writer_ok (put_u8 b w) \<and> toBytes (put_u8 b w) = toBytes w @ [word_of_nat b]"
    by (simp add: put_u8_def)
qed

lemma store_spec:
  assumes "writer_ok w" "wlength w + length bs \<le> length (wbytes w)"
  shows "writer_ok (store bs w) \<and> toBytes (store bs w) = toBytes w @ bs"
  using assms by (simp add: store_def writer_ok_def toBytes_def take_put_at)

lemma appends_store: "length bs \<le> n \<Longrightarrow> appends (\<lambda>w. store bs (reserve n w)) bs"
proof (rule appendsI)
  fix w assume n: "length bs \<le> n" and w: "writer_ok w"
  note r = reserve_spec [OF w, of n]
  have "wlength (reserve n w) + length bs \<le> length (wbytes (reserve n w))" using r n by linarith
  from store_spec [OF r(1) this] r
  show "writer_ok (store bs (reserve n w)) \<and> toBytes (store bs (reserve n w)) = toBytes w @ bs" by simp
qed

section \<open>Varints\<close>

text \<open>The shortest LEB128 form of a number.\<close>

fun varint_bytes :: "nat \<Rightarrow> byte list" where
  "varint_bytes v = (if v < 128 then [word_of_nat v] else word_of_nat (v mod 128 + 128) # varint_bytes (v div 128))"

declare varint_bytes.simps [simp del]

lemma varint_bytes_nonempty [simp]: "varint_bytes v \<noteq> []" "0 < length (varint_bytes v)"
  by (subst varint_bytes.simps; simp)+

lemma varint_bytes_length: "v < 128 ^ n \<Longrightarrow> 0 < n \<Longrightarrow> length (varint_bytes v) \<le> n"
proof (induction n arbitrary: v)
  case (Suc n)
  show ?case
  proof (cases "v < 128")
    case True
    then show ?thesis by (simp add: varint_bytes.simps [of v])
  next
    case False
    then have "n \<noteq> 0" using Suc.prems by (cases n) auto
    moreover have "v div 128 < 128 ^ n" using Suc.prems by (simp add: less_mult_imp_div_less mult.commute)
    ultimately have "length (varint_bytes (v div 128)) \<le> n" using Suc.IH by simp
    with False show ?thesis by (simp add: varint_bytes.simps [of v])
  qed
qed simp

lemma varint_bytes_5: "v \<le> MAX_UINT32 \<Longrightarrow> length (varint_bytes v) \<le> 5"
  by (rule varint_bytes_length) (auto simp: MAX_UINT32_def)

lemma or_128: "n < 128 \<Longrightarrow> n OR 128 = n + (128 :: nat)"
proof -
  assume "n < 128"
  then have "take_bit 7 n = n" by (simp add: take_bit_nat_eq_self)
  then have "n AND 128 = take_bit 7 n AND 128" by simp
  also have "\<dots> = 0" by (rule bit_eqI) (auto simp: bit_simps bit_exp_iff [of 7, simplified])
  finally show ?thesis by (simp add: disjunctive_add_eq_or)
qed

lemma varint_loop_spec:
  "writer_ok w \<Longrightarrow> wlength w + length (varint_bytes v) \<le> length (wbytes w) \<Longrightarrow>
   writer_ok (varint_loop v w) \<and> toBytes (varint_loop v w) = toBytes w @ varint_bytes v
   \<and> wlength (varint_loop v w) = wlength w + length (varint_bytes v)
   \<and> length (wbytes (varint_loop v w)) = length (wbytes w)"
proof (induction v arbitrary: w rule: varint_bytes.induct)
  case (1 v)
  have room: "wlength w < length (wbytes w)"
    using "1.prems"(2) varint_bytes_nonempty(2) [of v] by linarith
  show ?case
  proof (cases "v < 128")
    case True
    then show ?thesis using push_spec [OF "1.prems"(1) room, of v]
      by (simp add: varint_loop.simps [of v] varint_bytes.simps [of v])
  next
    case False
    let ?w = "push (v mod 128 OR 128) w"
    note p = push_spec [OF "1.prems"(1) room, of "v mod 128 OR 128"]
    have "wlength ?w + length (varint_bytes (v div 128)) \<le> length (wbytes ?w)"
      using "1.prems"(2) False p by (simp add: varint_bytes.simps [of v])
    from "1.IH" [OF False p(1) this] False p show ?thesis
      by (simp add: varint_loop.simps [of v] varint_bytes.simps [of v] or_128)
  qed
qed

lemma appends_varint [appends_intro]: "v \<le> MAX_UINT32 \<Longrightarrow> appends (put_varint v) (varint_bytes v)"
proof (rule appendsI)
  fix w assume v: "v \<le> MAX_UINT32" and w: "writer_ok w"
  note r = reserve_spec [OF w, of 5]
  have "wlength (reserve 5 w) + length (varint_bytes v) \<le> length (wbytes (reserve 5 w))"
    using r varint_bytes_5 [OF v] by linarith
  from varint_loop_spec [OF r(1) this] r
  show "writer_ok (put_varint v w) \<and> toBytes (put_varint v w) = toBytes w @ varint_bytes v"
    by (simp add: put_varint_def)
qed

lemma appends_zigzag [appends_intro]:
  "-2147483648 \<le> v \<Longrightarrow> v \<le> 2147483647 \<Longrightarrow> appends (put_zigzag v) (varint_bytes (zigzag v))"
  unfolding put_zigzag_def [abs_def] using unzigzag_zigzag(2) [of v]
  by (intro appends_varint) (simp add: MAX_UINT32_def)

lemma length_float_bytes [simp]: "length (float64_bytes x) = 8" "length (float32_bytes x) = 4"
  by (simp_all add: float64_bytes_def float32_bytes_def)

lemma appends_float64 [appends_intro]: "appends (put_float64 x) (float64_bytes x)"
  unfolding put_float64_def [abs_def] by (rule appends_store) simp

lemma appends_float32 [appends_intro]: "appends (put_float32 x) (float32_bytes x)"
  unfolding put_float32_def [abs_def] by (rule appends_store) simp

lemma varint_loop_put_at:
  "wlength w + length (varint_bytes v) \<le> length (wbytes w) \<Longrightarrow>
   wbytes (varint_loop v w) = put_at (wlength w) (varint_bytes v) (wbytes w)
   \<and> wlength (varint_loop v w) = wlength w + length (varint_bytes v)"
proof (induction v arbitrary: w rule: varint_bytes.induct)
  case (1 v)
  have room: "wlength w < length (wbytes w)"
    using "1.prems" varint_bytes_nonempty(2) [of v] by linarith
  show ?case
  proof (cases "v < 128")
    case True
    then show ?thesis using room
      by (simp add: varint_loop.simps [of v] varint_bytes.simps [of v] push_def put_at_def upd_conv_take_nth_drop)
  next
    case False
    let ?w = "push (v mod 128 OR 128) w"
    have "wlength ?w + length (varint_bytes (v div 128)) \<le> length (wbytes ?w)"
      using "1.prems" False by (simp add: varint_bytes.simps [of v] push_def)
    from "1.IH" [OF False this] False room show ?thesis
      by (simp add: varint_loop.simps [of v] varint_bytes.simps [of v] or_128 push_def put_at_def
          upd_conv_take_nth_drop min_def add.commute)
  qed
qed

section \<open>Strings\<close>

definition string_bytes :: "jsstring \<Rightarrow> byte list" where
  "string_bytes s = (let u = utf8_encode (wireString s) in varint_bytes (length u) @ u)"

text \<open>Moving the encoded text down to its length prefix leaves exactly prefix and text.\<close>

lemma move_down:
  assumes room: "start + 5 + length u \<le> length buf" and p: "length pre \<le> 5"
  shows "take (start + length pre + length u)
           (let b = put_at start pre (put_at (start + 5) u buf)
            in put_at (start + length pre) (take (length u) (drop (start + 5) b)) b) = take start buf @ pre @ u"
proof -
  let ?b1 = "put_at (start + 5) u buf" and ?b = "put_at start pre (put_at (start + 5) u buf)"
  have l1: "length ?b1 = length buf" using room by simp
  have l: "length ?b = length buf" using room p l1 by simp
  have "drop (start + 5) ?b = drop (start + 5) ?b1"
    using room p l1 by (simp add: put_at_def [of start] add.commute)
  also have "\<dots> = u @ drop (start + 5 + length u) buf"
    using room by (simp add: put_at_def)
  finally have t: "take (length u) (drop (start + 5) ?b) = u" by simp
  have "take (start + length pre) ?b = take start ?b1 @ pre"
    using room l1 by (intro take_put_at) simp
  also have "take start ?b1 = take start buf"
    using room by (intro take_put_at_le) simp_all
  finally have t2: "take (start + length pre) ?b = take start buf @ pre" .
  have "take (start + length pre + length u) (put_at (start + length pre) u ?b)
      = take (start + length pre) ?b @ u"
    using room p l by (intro take_put_at) simp
  with t t2 show ?thesis by (simp add: Let_def)
qed

lemma put_string_long:
  assumes w: "writer_ok w" and long: "43 \<le> length (wireString s)"
    and u: "length (utf8_encode (wireString s)) \<le> MAX_UINT32"
  shows "writer_ok (put_string s w) \<and> toBytes (put_string s w) = toBytes w @ string_bytes s"
proof -
  define v where "v = wireString s"
  define e where "e = utf8_encode v"
  define w1 where "w1 = reserve (5 + length v * 3) w"
  define w2 where "w2 = w1\<lparr>wbytes := put_at (wlength w1 + 5) e (wbytes w1), wlength := wlength w1\<rparr>"
  define pre where "pre = varint_bytes (length e)"
  note r = reserve_spec [OF w, of "5 + length v * 3", folded w1_def]
  have e: "length e \<le> 3 * length v" using length_utf8_encode by (simp add: e_def)
  have room: "wlength w1 + 5 + length e \<le> length (wbytes w1)" using r e by linarith
  have p: "length pre \<le> 5" using varint_bytes_5 u by (simp add: pre_def e_def v_def)
  have "reserve 5 w2 = w2" using room by (simp add: reserve_def w2_def)
  then have pv: "put_varint (length e) w2 = varint_loop (length e) w2" by (simp add: put_varint_def)
  have "wlength w2 + length pre \<le> length (wbytes w2)" using room p by (simp add: w2_def)
  from varint_loop_put_at [of w2 "length e", folded pre_def, OF this]
  have b: "wbytes (put_varint (length e) w2) = put_at (wlength w1) pre (put_at (wlength w1 + 5) e (wbytes w1))"
    "wlength (put_varint (length e) w2) = wlength w1 + length pre"
    unfolding pv by (simp_all add: w2_def)
  define w3 where "w3 = put_varint (length e) w2"
  have ps: "put_string s w = w3\<lparr>wbytes := put_at (wlength w3) (take (length e) (drop (wlength w1 + 5) (wbytes w3))) (wbytes w3),
      wlength := wlength w3 + length e\<rparr>"
    using long unfolding put_string_def Let_def v_def [symmetric] e_def [symmetric] w1_def [symmetric]
    by (simp add: w3_def w2_def)
  have "toBytes (put_string s w) = take (wlength w1) (wbytes w1) @ pre @ e"
    using move_down [OF room p] by (simp add: toBytes_def ps w3_def b Let_def)
  moreover have "length (wbytes w3) = length (wbytes w1)"
    using room p by (simp add: w3_def b)
  then have "length (wbytes (put_string s w)) = length (wbytes w1)"
    "wlength (put_string s w) = wlength w1 + length pre + length e"
    using room p by (simp_all add: ps w3_def b)
  then have "writer_ok (put_string s w)"
    using room p by (simp add: writer_ok_def flip: length_greater_0_conv)
  ultimately show ?thesis using r
    by (simp add: toBytes_def string_bytes_def Let_def pre_def e_def v_def)
qed

lemma put_string_short:
  assumes w: "writer_ok w" and short: "length (wireString s) < 43"
  shows "writer_ok (put_string s w) \<and> toBytes (put_string s w) = toBytes w @ string_bytes s"
proof -
  define v where "v = wireString s"
  define e where "e = utf8_encode v"
  define w1 where "w1 = reserve (5 + length v * 3) w"
  note r = reserve_spec [OF w, of "5 + length v * 3", folded w1_def]
  have e: "length e \<le> 3 * length v" using length_utf8_encode by (simp add: e_def)
  have room: "wlength w1 + 5 + length e \<le> length (wbytes w1)" using r e by linarith
  have "length e < 128" using e short by (simp add: v_def)
  then have pre: "varint_bytes (length e) = [word_of_nat (length e)]" by (simp add: varint_bytes.simps)
  have ps: "put_string s w = w1\<lparr>wbytes := (put_at (wlength w1 + 1) e (wbytes w1))[wlength w1 := word_of_nat (length e)],
      wlength := wlength w1 + 1 + length e\<rparr>"
    using short unfolding put_string_def Let_def v_def [symmetric] e_def [symmetric] w1_def [symmetric]
    by simp
  have "take (wlength w1 + 1 + length e) (put_at (wlength w1 + 1) e (wbytes w1))
      = take (wlength w1 + 1) (wbytes w1) @ e"
    using room by (intro take_put_at) simp
  then have "toBytes (put_string s w) = (take (wlength w1 + 1) (wbytes w1) @ e)[wlength w1 := word_of_nat (length e)]"
    by (simp add: toBytes_def ps take_update_swap)
  also have "\<dots> = take (wlength w1) (wbytes w1) @ [word_of_nat (length e)] @ e"
    using room by (simp add: list_update_append take_Suc_conv_app_nth)
  finally have "toBytes (put_string s w) = toBytes w1 @ varint_bytes (length e) @ e"
    by (simp add: toBytes_def pre)
  moreover have "writer_ok (put_string s w)" using room r by (simp add: ps writer_ok_def)
  ultimately show ?thesis using r
    by (simp add: string_bytes_def Let_def e_def v_def)
qed

lemma appends_string [appends_intro]:
  "length (utf8_encode (wireString s)) \<le> MAX_UINT32 \<Longrightarrow> appends (put_string s) (string_bytes s)"
  using put_string_short [of _ s] put_string_long [of _ s]
  by (intro appendsI) (cases "length (wireString s) < 43"; simp)

end
