(* ===== verification/Codec.thy ===== *)
theory Codec
  imports Bytes
begin

unbundle bit_operations_syntax

text \<open>
  What the reader returns on the bytes the writer produced. \<open>parses g bs v\<close> says that
  \<open>g\<close>, on a reader that has no error and whose next bytes are \<open>bs\<close>, returns
  \<open>v\<close> and stops right behind them. The locale \<open>wire_codec\<close> is the contract of a
  writer operation and its reader counterpart; every primitive of \<open>bytes.ts\<close> interprets
  it, and the list lemmas proved in it carry the count-prefixed repetitions of the formats above.
\<close>

definition rd_at :: "bytereader \<Rightarrow> byte list \<Rightarrow> bool" where
  "rd_at r xs = (rerror r = None \<and> rpos r \<le> length (rbytes r) \<and> drop (rpos r) (rbytes r) = xs)"

definition adv :: "nat \<Rightarrow> bytereader \<Rightarrow> bytereader" where
  "adv n r = r\<lparr>rpos := rpos r + n\<rparr>"

definition parses :: "(bytereader \<Rightarrow> 'a \<times> bytereader) \<Rightarrow> byte list \<Rightarrow> 'a \<Rightarrow> bool" where
  "parses g bs v = (\<forall>r xs. rd_at r (bs @ xs) \<longrightarrow> g r = (v, adv (length bs) r))"

lemma rd_at_new [simp]: "rd_at (new_reader bs) bs"
  by (simp add: rd_at_def new_reader_def)

lemma rd_at_adv: "rd_at r (bs @ xs) \<Longrightarrow> rd_at (adv (length bs) r) xs"
  using drop_split [of "rpos r" "rbytes r" bs xs] by (simp add: rd_at_def adv_def)

lemma adv_adv [simp]: "adv n (adv m r) = adv (m + n) r"
  by (simp add: adv_def)

lemma adv_0 [simp]: "adv 0 r = r"
  by (simp add: adv_def)

lemma rd_at_remaining: "rd_at r xs \<Longrightarrow> remaining r = length xs"
  by (auto simp: rd_at_def remaining_def)

lemma rd_at_error: "rd_at r xs \<Longrightarrow> rerror r = None"
  by (simp add: rd_at_def)

lemma rd_at_done: "rd_at r xs \<Longrightarrow> done_reading r \<longleftrightarrow> xs = []"
  by (auto simp: rd_at_def done_reading_def)

lemma rd_at_next:
  assumes "rd_at r (b # xs)"
  shows "rpos r < length (rbytes r)" "rbytes r ! rpos r = b"
proof -
  have d: "drop (rpos r) (rbytes r) = b # xs" using assms by (simp add: rd_at_def)
  then show "rpos r < length (rbytes r)" by (metis drop_eq_Nil leI list.distinct(1))
  then show "rbytes r ! rpos r = b" using d by (metis Cons_nth_drop_Suc list.inject)
qed

lemma parsesI: "(\<And>r xs. rd_at r (bs @ xs) \<Longrightarrow> g r = (v, adv (length bs) r)) \<Longrightarrow> parses g bs v"
  by (simp add: parses_def)

lemma parsesD: "parses g bs v \<Longrightarrow> rd_at r (bs @ xs) \<Longrightarrow> g r = (v, adv (length bs) r)"
  unfolding parses_def by blast

lemma parses_new: "parses g bs v \<Longrightarrow> g (new_reader bs) = (v, adv (length bs) (new_reader bs))"
  by (rule parsesD [of g bs v _ "[]"]) simp_all

lemma parses_return [reads]: "parses (\<lambda>r. (v, r)) [] v"
  by (simp add: parses_def)

lemma parses_bind [reads]:
  assumes "parses g bs v" "parses (h v) cs u"
  shows "parses (\<lambda>r. case g r of (v, r) \<Rightarrow> h v r) (bs @ cs) u"
proof (rule parsesI)
  fix r xs assume r: "rd_at r ((bs @ cs) @ xs)"
  then have "g r = (v, adv (length bs) r)" using parsesD [OF assms(1), of r "cs @ xs"] by simp
  moreover have "rd_at (adv (length bs) r) (cs @ xs)" using r rd_at_adv [of r bs "cs @ xs"] by simp
  ultimately show "(case g r of (v, r) \<Rightarrow> h v r) = (u, adv (length (bs @ cs)) r)"
    using parsesD [OF assms(2)] by simp
qed

lemma parses_map: "parses g bs v \<Longrightarrow> parses (\<lambda>r. case g r of (v, r) \<Rightarrow> (f v, r)) bs (f v)"
  by (simp add: parses_def)

section \<open>The primitives\<close>

lemma parses_u8 [reads]: "parses get_u8 [b] (unat b)"
proof (rule parsesI)
  fix r xs assume "rd_at r ([b] @ xs)"
  then have "rd_at r (b # xs)" by simp
  from rd_at_next [OF this] show "get_u8 r = (unat b, adv (length [b]) r)"
    by (simp add: get_u8_def adv_def)
qed

lemma and_127: "(b :: nat) AND 127 = b mod 128"
  using take_bit_eq_mask [of 7 b] by (simp add: take_bit_eq_mod mask_eq_exp_minus_1)

lemma and_128: "(b :: nat) < 256 \<Longrightarrow> b AND 128 = (if b < 128 then 0 else 128)"
proof -
  assume b: "b < 256"
  have "b AND 128 = push_bit 7 (drop_bit 7 b AND 1)"
    by (rule bit_eqI) (auto simp: bit_simps bit_exp_iff [of 7, simplified] bit_1_iff
        simp flip: bit_0)
  then show ?thesis using b
    by (cases "b < 128") (auto simp: drop_bit_eq_div push_bit_eq_mult and_one_eq)
qed

lemma get_varint_loop_spec:
  "v < 128 ^ n \<Longrightarrow> 0 < n \<Longrightarrow> acc + v * scale \<le> MAX_UINT32 \<Longrightarrow>
   rd_at r (varint_bytes v @ xs) \<Longrightarrow>
   get_varint_loop n acc scale r = (acc + v * scale, adv (length (varint_bytes v)) r)"
proof (induction n arbitrary: v acc scale r)
  case (Suc n)
  show ?case
  proof (cases "v < 128")
    case True
    then have vb: "varint_bytes v = [word_of_nat v]" by (simp add: varint_bytes.simps)
    with Suc.prems have "rd_at r (word_of_nat v # xs)" by simp
    from rd_at_next [OF this] True Suc.prems(3) show ?thesis
      by (simp add: vb and_127 and_128 Let_def adv_def)
  next
    case False
    define d where "d = v mod 128"
    have v: "v = d + 128 * (v div 128)" by (simp add: d_def)
    have vb: "varint_bytes v = word_of_nat (d + 128) # varint_bytes (v div 128)"
      using False by (simp add: varint_bytes.simps [of v] d_def)
    have n: "0 < n" using False Suc.prems(1) by (cases n) auto
    have lt: "v div 128 < 128 ^ n" using Suc.prems by (simp add: less_mult_imp_div_less mult.commute)
    have at: "rd_at r ([word_of_nat (d + 128)] @ varint_bytes (v div 128) @ xs)"
      using Suc.prems(4) vb by simp
    have eq: "acc + d * scale + v div 128 * (scale * 128) = acc + v * scale"
      using v by (metis add.assoc mult.assoc mult.commute distrib_right)
    then have "acc + d * scale + v div 128 * (scale * 128) \<le> MAX_UINT32" using Suc.prems(3) by simp
    from Suc.IH [OF lt n this rd_at_adv [OF at]] eq
    have "get_varint_loop n (acc + d * scale) (scale * 128) (adv 1 r)
      = (acc + v * scale, adv (length (varint_bytes v)) r)" by (simp add: vb)
    moreover have "d < 128" by (simp add: d_def)
    ultimately show ?thesis using rd_at_next [of r "word_of_nat (d + 128)" "varint_bytes (v div 128) @ xs"] at
      by (simp add: and_127 and_128 Let_def adv_def del: of_nat_add)
  qed
qed simp

lemma parses_varint [reads]: "v \<le> MAX_UINT32 \<Longrightarrow> parses get_varint (varint_bytes v) v"
  unfolding get_varint_def
  using get_varint_loop_spec [of v 5 0 1] by (intro parsesI) (auto simp: MAX_UINT32_def)

text \<open>A count is accepted when at least that many bytes follow it.\<close>

lemma parses_count:
  assumes "n \<le> MAX_UINT32" "n \<le> length bs" "parses (h n) bs u"
  shows "parses (\<lambda>r. case get_count r of (n, r) \<Rightarrow> h n r) (varint_bytes n @ bs) u"
proof (rule parsesI)
  fix r xs assume r: "rd_at r ((varint_bytes n @ bs) @ xs)"
  then have g: "get_varint r = (n, adv (length (varint_bytes n)) r)"
    using parsesD [OF parses_varint [OF assms(1)], of r "bs @ xs"] by simp
  have at: "rd_at (adv (length (varint_bytes n)) r) (bs @ xs)"
    using r rd_at_adv [of r "varint_bytes n" "bs @ xs"] by simp
  then have "\<not> remaining (adv (length (varint_bytes n)) r) < n"
    using assms(2) by (simp add: rd_at_remaining)
  then show "(case get_count r of (n, r) \<Rightarrow> h n r) = (u, adv (length (varint_bytes n @ bs)) r)"
    using parsesD [OF assms(3) at] g by (simp add: get_count_def)
qed

lemma parses_zigzag [reads]:
  "-2147483648 \<le> v \<Longrightarrow> v \<le> 2147483647 \<Longrightarrow> parses get_zigzag (varint_bytes (zigzag v)) v"
  unfolding get_zigzag_def
  using parses_map [OF parses_varint, of "zigzag v" unzigzag] unzigzag_zigzag [of v]
  by (simp add: MAX_UINT32_def)

lemma parses_fixed_width:
  assumes "length bs = n"
  shows "parses (\<lambda>r. if remaining r < n then (z, fail m r) else (f (take n (drop (rpos r) (rbytes r))), r\<lparr>rpos := rpos r + n\<rparr>))
    bs (f bs)"
proof (rule parsesI)
  fix r xs assume r: "rd_at r (bs @ xs)"
  then show "(if remaining r < n then (z, fail m r) else (f (take n (drop (rpos r) (rbytes r))), r\<lparr>rpos := rpos r + n\<rparr>))
      = (f bs, adv (length bs) r)"
    using assms rd_at_remaining [OF r] by (simp add: rd_at_def adv_def)
qed

lemma nan64: "num_of_bits binary64 (le_nat (le_bytes 4 0 @ le_bytes 4 0x7ff80000)) = JNaN"
  by (simp add: le_nat_append le_nat_le_bytes num_of_bits_def binary64_def inf_bits_def)

lemma nan32: "num_of_bits binary32 (le_nat (le_bytes 4 0x7fc00000)) = JNaN"
  by (simp add: le_nat_le_bytes num_of_bits_def binary32_def inf_bits_def)

lemma parses_float64 [reads]:
  assumes "num_ok x"
  shows "parses get_float64 (float64_bytes x) x"
proof -
  have "float_bits binary64 x < 256 ^ 8"
    using float_bits_lt [OF assms] by (simp add: binary64_def)
  then have "le_nat (le_bytes 8 (float_bits binary64 x)) = float_bits binary64 x" by (rule le_nat_le_bytes)
  moreover have "num_of_bits binary64 (float_bits binary64 x) = x"
    using assms by (rule num_of_bits_float_bits) (simp_all add: binary64_def)
  ultimately have "num_of_bits binary64 (le_nat (float64_bytes x)) = x"
    using nan64 by (cases "isNaN x") (cases x; simp add: float64_bytes_def)+
  then show ?thesis
    using parses_fixed_width [of "float64_bytes x" 8 "JFin 0" _ "\<lambda>bs. num_of_bits binary64 (le_nat bs)"]
    unfolding get_float64_def [abs_def] by simp
qed

lemma parses_float32 [reads]: "parses get_float32 (float32_bytes x) (fround x)"
proof -
  have r: "rep binary32 (fround x)" by (simp add: fround_def)
  have "float_bits binary32 (fround x) < 256 ^ 4"
    using float_bits_lt [OF r] by (simp add: binary32_def)
  then have "le_nat (le_bytes 4 (float_bits binary32 (fround x))) = float_bits binary32 (fround x)"
    by (rule le_nat_le_bytes)
  moreover have "num_of_bits binary32 (float_bits binary32 (fround x)) = fround x"
    using r by (rule num_of_bits_float_bits) (simp_all add: binary32_def)
  moreover have "isNaN x \<Longrightarrow> fround x = JNaN" by (cases x) (simp_all add: fround_def)
  ultimately have "num_of_bits binary32 (le_nat (float32_bytes x)) = fround x"
    using nan32 by (simp add: float32_bytes_def)
  then show ?thesis
    using parses_fixed_width [of "float32_bytes x" 4 "JFin 0" _ "\<lambda>bs. num_of_bits binary32 (le_nat bs)"]
    unfolding get_float32_def [abs_def] by simp
qed

lemma parses_string [reads]:
  assumes "length (utf8_encode (wireString s)) \<le> MAX_UINT32"
  shows "parses get_string (string_bytes s) (wireString s)"
proof -
  define u where "u = utf8_encode (wireString s)"
  define h where "h = (\<lambda>n r. if rerror r \<noteq> None then ([], r)
      else case decodeUtf8 (take n (drop (rpos r) (rbytes r))) of
                None \<Rightarrow> ([], fail (Msg ''invalid UTF-8'' []) r)
              | Some text \<Rightarrow> (text, r\<lparr>rpos := rpos r + n\<rparr>))"
  have d: "decodeUtf8 u = Some (wireString s)"
    by (simp add: u_def decodeUtf8_encode wire_ok_wireString)
  have "parses (h (length u)) u (wireString s)"
    by (rule parsesI) (simp add: h_def rd_at_def d adv_def)
  then have "parses (\<lambda>r. case get_count r of (n, r) \<Rightarrow> h n r) (varint_bytes (length u) @ u) (wireString s)"
    using assms by (intro parses_count) (simp_all add: u_def)
  then show ?thesis
    unfolding get_string_def [abs_def] string_bytes_def h_def by (simp add: u_def Let_def)
qed

section \<open>The contract of a codec\<close>

text \<open>
  A writer operation and its reader counterpart: on the values in \<open>ok\<close> the writer appends
  \<open>enc v\<close>, and the reader returns \<open>seen v\<close> from those bytes.
\<close>

fun put_all :: "('a \<Rightarrow> bytewriter \<Rightarrow> bytewriter) \<Rightarrow> 'a list \<Rightarrow> bytewriter \<Rightarrow> bytewriter" where
  "put_all put [] w = w"
| "put_all put (v # vs) w = put_all put vs (put v w)"

fun get_times :: "(bytereader \<Rightarrow> 'a \<times> bytereader) \<Rightarrow> nat \<Rightarrow> bytereader \<Rightarrow> 'a list \<times> bytereader" where
  "get_times get 0 r = ([], r)"
| "get_times get (Suc n) r =
     (case get r of (v, r) \<Rightarrow> case get_times get n r of (vs, r) \<Rightarrow> (v # vs, r))"

locale wire_codec =
  fixes put :: "'a \<Rightarrow> bytewriter \<Rightarrow> bytewriter"
    and get :: "bytereader \<Rightarrow> 'b \<times> bytereader"
    and enc :: "'a \<Rightarrow> byte list"
    and ok :: "'a \<Rightarrow> bool"
    and seen :: "'a \<Rightarrow> 'b"
  assumes put_appends: "ok v \<Longrightarrow> appends (put v) (enc v)"
    and get_parses: "ok v \<Longrightarrow> parses get (enc v) (seen v)"
begin

lemma put_all_appends:
  "list_all ok vs \<Longrightarrow> appends (put_all put vs) (concat (map enc vs))"
proof (induction vs)
  case (Cons v vs)
  then have "appends (\<lambda>w. put_all put vs (put v w)) (enc v @ concat (map enc vs))"
    by (intro appends_comp put_appends) simp_all
  then show ?case by simp
qed (simp add: appends_def)

lemma get_times_parses:
  "list_all ok vs \<Longrightarrow> parses (get_times get (length vs)) (concat (map enc vs)) (map seen vs)"
proof (induction vs)
  case Nil
  then show ?case by (simp add: parses_return)
next
  case (Cons v vs)
  then have "parses (\<lambda>r. case get_times get (length vs) r of (us, r) \<Rightarrow> (seen v # us, r))
      (concat (map enc vs)) (seen v # map seen vs)"
    by (intro parses_map) simp
  then have "parses (\<lambda>r. case get r of (u, r) \<Rightarrow> case get_times get (length vs) r of (us, r) \<Rightarrow> (u # us, r))
      (enc v @ concat (map enc vs)) (seen v # map seen vs)"
    using Cons.prems by (intro parses_bind) (simp_all add: get_parses)
  then show ?case by simp
qed

lemma put_get:
  assumes "ok v"
  shows "get (new_reader (toBytes (put v new_writer)))
    = (seen v, adv (length (enc v)) (new_reader (enc v)))"
  using appendsD(2) [OF put_appends [OF assms], of new_writer] parses_new [OF get_parses [OF assms]]
  by simp

lemma put_all_get_times:
  assumes "list_all ok vs"
  shows "\<exists>r. get_times get (length vs) (new_reader (toBytes (put_all put vs new_writer)))
    = (map seen vs, r) \<and> rerror r = None \<and> done_reading r"
proof -
  let ?bs = "concat (map enc vs)"
  have "toBytes (put_all put vs new_writer) = ?bs"
    using appendsD(2) [OF put_all_appends [OF assms], of new_writer] by simp
  moreover have "rd_at (adv (length ?bs) (new_reader ?bs)) []"
    using rd_at_adv [of "new_reader ?bs" ?bs "[]"] by simp
  ultimately show ?thesis
    using parses_new [OF get_times_parses [OF assms]] by (auto simp: rd_at_error rd_at_done)
qed

end

definition string_ok :: "jsstring \<Rightarrow> bool" where
  "string_ok s = (length (utf8_encode (wireString s)) \<le> MAX_UINT32)"

interpretation u8_codec: wire_codec put_u8 get_u8 "\<lambda>b. [word_of_nat b]" "\<lambda>b. b < 256" "\<lambda>b. b"
proof unfold_locales
  fix v :: nat assume v: "v < 256"
  show "parses get_u8 [word_of_nat v] v" using parses_u8 [of "word_of_nat v"] v by simp
qed (rule appends_u8)

interpretation varint_codec: wire_codec put_varint get_varint varint_bytes "\<lambda>v. v \<le> MAX_UINT32" "\<lambda>v. v"
  by unfold_locales (rule appends_varint parses_varint; assumption)+

interpretation zigzag_codec: wire_codec put_zigzag get_zigzag "\<lambda>v. varint_bytes (zigzag v)" "in_range Int32" "\<lambda>v. v"
  by unfold_locales (auto simp: in_range_def intro: appends_zigzag parses_zigzag)

interpretation float64_codec: wire_codec put_float64 get_float64 float64_bytes num_ok "\<lambda>x. x"
  by unfold_locales (rule appends_float64, rule parses_float64)

interpretation float32_codec: wire_codec put_float32 get_float32 float32_bytes "\<lambda>_. True" fround
  by unfold_locales (rule appends_float32, rule parses_float32)

interpretation string_codec: wire_codec put_string get_string string_bytes string_ok wireString
  by unfold_locales (auto simp: string_ok_def intro: appends_string parses_string)

lemma string_ok_short: "3 * length s \<le> MAX_UINT32 \<Longrightarrow> string_ok s"
  using length_utf8_encode [of "wireString s"] by (simp add: string_ok_def length_wireString)

end
