(* ===== verification/Frame.thy ===== *)
theory Frame
  imports Codec
begin

unbundle bit_operations_syntax

text \<open>
  The frame codec (\<open>serializer/frame.ts\<close>) and the header tables of
  \<open>types/protocol.ts\<close>: a type byte, a fixed number of varints for that type, the body.
  A frame type and header values are arbitrary numbers, as at run time, and every check the
  encoder makes on them is a branch. The facts: the output buffer is exactly filled; decoding
  what was encoded gives type, header and body back; no frame that decodes has a header value
  outside 32 bits or a type the table does not know.
\<close>

datatype SerializerErrorCode = ENCODE_FAILED | DECODE_FAILED

datatype SerializerError = SerializerError (code_of: SerializerErrorCode) (message_of: message)

definition MAX_VARINT :: nat where "MAX_VARINT = 0xffffffff"

text \<open>The two loops, on a non-negative integer: \<open>Math.floor(rest / 0x80)\<close> is \<open>div\<close>.\<close>

fun varintSize :: "nat \<Rightarrow> nat" where
  "varintSize rest = (if 0x80 \<le> rest then varintSize (rest div 0x80) + 1 else 1)"

declare varintSize.simps [simp del]

fun writeVarint :: "byte list \<Rightarrow> nat \<Rightarrow> nat \<Rightarrow> byte list \<times> nat" where
  "writeVarint out pos rest =
     (if 0x80 \<le> rest then writeVarint (out[pos := word_of_nat ((rest mod 0x80) OR 0x80)]) (pos + 1) (rest div 0x80)
      else (out[pos := word_of_nat rest], pos + 1))"

declare writeVarint.simps [simp del]

text \<open>The loop of \<open>readVarint\<close>; the first argument counts the iterations left.\<close>

fun readVarint_loop :: "nat \<Rightarrow> nat \<Rightarrow> nat \<Rightarrow> byte list \<Rightarrow> nat \<Rightarrow> (nat \<times> nat) option" where
  "readVarint_loop 0 v scale data pos = None"
| "readVarint_loop (Suc n) v scale data pos =
     (if pos < length data then
        let b = unat (data ! pos); v = v + (b AND 0x7f) * scale
        in if b AND 0x80 = 0 then (if MAX_VARINT < v then None else Some (v, pos + 1))
           else readVarint_loop n v (scale * 0x80) data (pos + 1)
      else None)"

definition readVarint :: "byte list \<Rightarrow> nat \<Rightarrow> (nat \<times> nat) option" where
  "readVarint data offset = readVarint_loop 5 0 1 data offset"

record Frame =
  ftype :: nat
  fheader :: "nat list"
  fbody :: "byte list"

definition isHeaderValue :: "jsnum \<Rightarrow> bool" where
  "isHeaderValue v = (isInteger v \<and> num_le (JFin 0) v \<and> num_le v (num_of_int (int MAX_VARINT)))"

text \<open>A number that passed the integer and sign checks, as the loops use it.\<close>

abbreviation nat_of_num :: "jsnum \<Rightarrow> nat" where
  "nat_of_num v \<equiv> nat (int_of_num v)"

fun header_size :: "jsnum list \<Rightarrow> nat \<Rightarrow> SerializerError + nat" where
  "header_size [] sz = Inr sz"
| "header_size (v # vs) sz =
     (if \<not> isHeaderValue v then Inl (SerializerError ENCODE_FAILED (Msg ''bad header value {}'' [JNum v]))
      else header_size vs (sz + varintSize (nat_of_num v)))"

fun write_header :: "byte list \<Rightarrow> nat \<Rightarrow> jsnum list \<Rightarrow> byte list \<times> nat" where
  "write_header out pos [] = (out, pos)"
| "write_header out pos (v # vs) =
     (case writeVarint out pos (nat_of_num v) of (out, pos) \<Rightarrow> write_header out pos vs)"

definition encodeFrame :: "jsnum \<Rightarrow> jsnum list \<Rightarrow> byte list option \<Rightarrow> SerializerError + byte list" where
  "encodeFrame t header body =
     (if \<not> isInteger t \<or> num_lt t (JFin 0) \<or> num_lt (JFin 255) t then
        Inl (SerializerError ENCODE_FAILED (Msg ''bad frame type {}'' [JNum t]))
      else case header_size header (1 + (case body of None \<Rightarrow> 0 | Some b \<Rightarrow> length b)) of
             Inl e \<Rightarrow> Inl e
           | Inr sz \<Rightarrow>
               let out = replicate sz 0;
                   out = out[0 := word_of_nat (nat_of_num t)];
                   (out, pos) = write_header out 1 header
               in Inr (case body of None \<Rightarrow> out | Some b \<Rightarrow> put_at pos b out))"

fun read_header :: "nat \<Rightarrow> byte list \<Rightarrow> nat \<Rightarrow> (nat list \<times> nat) option" where
  "read_header 0 data pos = Some ([], pos)"
| "read_header (Suc n) data pos =
     (case readVarint data pos of
        None \<Rightarrow> None
      | Some (v, pos) \<Rightarrow> (case read_header n data pos of None \<Rightarrow> None | Some (vs, pos) \<Rightarrow> Some (v # vs, pos)))"

definition decodeFrame :: "byte list \<Rightarrow> (nat \<Rightarrow> nat option) \<Rightarrow> SerializerError + Frame" where
  "decodeFrame data headerCount =
     (case data of
        [] \<Rightarrow> Inl (SerializerError DECODE_FAILED (Msg ''empty frame'' []))
      | b # _ \<Rightarrow>
          (case headerCount (unat b) of
             None \<Rightarrow> Inl (SerializerError DECODE_FAILED (Msg ''unknown frame {}'' [nat_val (unat b)]))
           | Some count \<Rightarrow>
               (case read_header count data 1 of
                  None \<Rightarrow> Inl (SerializerError DECODE_FAILED (Msg ''bad frame header'' []))
                | Some (header, pos) \<Rightarrow>
                    Inr \<lparr>ftype = unat b, fheader = header, fbody = drop pos data\<rparr>)))"

section \<open>The header tables\<close>

datatype ClientFrameType = C_ROOM_MESSAGE | C_ROOM_MESSAGE_RAW | C_JOIN | C_LEAVE | C_PING

datatype ServerFrameType =
    S_ROOM_MESSAGE | S_ROOM_MESSAGE_RAW | S_STATE_SNAPSHOT | S_STATE_PATCH | S_JOIN_SUCCESS
  | S_JOIN_ERROR | S_CLIENT_JOINED | S_CLIENT_LEFT | S_LEAVE | S_ERROR | S_PONG

fun client_frame_id :: "ClientFrameType \<Rightarrow> nat" where
  "client_frame_id C_ROOM_MESSAGE = 0"
| "client_frame_id C_ROOM_MESSAGE_RAW = 1"
| "client_frame_id C_JOIN = 2"
| "client_frame_id C_LEAVE = 3"
| "client_frame_id C_PING = 4"

fun server_frame_id :: "ServerFrameType \<Rightarrow> nat" where
  "server_frame_id S_ROOM_MESSAGE = 0"
| "server_frame_id S_ROOM_MESSAGE_RAW = 1"
| "server_frame_id S_STATE_SNAPSHOT = 2"
| "server_frame_id S_STATE_PATCH = 3"
| "server_frame_id S_JOIN_SUCCESS = 4"
| "server_frame_id S_JOIN_ERROR = 5"
| "server_frame_id S_CLIENT_JOINED = 6"
| "server_frame_id S_CLIENT_LEFT = 7"
| "server_frame_id S_LEAVE = 8"
| "server_frame_id S_ERROR = 9"
| "server_frame_id S_PONG = 10"

definition CLIENT_FRAME_HEADERS :: "nat \<Rightarrow> nat option" where
  "CLIENT_FRAME_HEADERS = map_of [(0, 2), (1, 1), (2, 1), (3, 1), (4, 2)]"

definition SERVER_FRAME_HEADERS :: "nat \<Rightarrow> nat option" where
  "SERVER_FRAME_HEADERS = map_of [(0, 2), (1, 1), (2, 1), (3, 1), (4, 2), (5, 1), (6, 1), (7, 1),
     (8, 2), (9, 1), (10, 1)]"

section \<open>Varints in an array\<close>

lemma varintSize_length: "varintSize v = length (varint_bytes v)"
  by (induction v rule: varintSize.induct) (simp add: varintSize.simps varint_bytes.simps)

lemma writeVarint_put_at:
  "pos + length (varint_bytes v) \<le> length out \<Longrightarrow>
   writeVarint out pos v = (put_at pos (varint_bytes v) out, pos + length (varint_bytes v))"
proof (induction v arbitrary: out pos rule: varint_bytes.induct)
  case (1 v)
  have room: "pos < length out"
    using "1.prems" varint_bytes_nonempty(2) [of v] by linarith
  show ?case
  proof (cases "v < 128")
    case True
    then show ?thesis using room
      by (simp add: writeVarint.simps [of _ _ v] varint_bytes.simps [of v] put_at_def upd_conv_take_nth_drop)
  next
    case False
    let ?out = "out[pos := word_of_nat (v mod 128 OR 128)]"
    have "pos + 1 + length (varint_bytes (v div 128)) \<le> length ?out"
      using "1.prems" False by (simp add: varint_bytes.simps [of v])
    from "1.IH" [OF False this] False room show ?thesis
      by (simp add: writeVarint.simps [of _ _ v] varint_bytes.simps [of v] or_128 put_at_def
          upd_conv_take_nth_drop min_def add.commute)
  qed
qed

lemma readVarint_loop_spec:
  "v < 128 ^ n \<Longrightarrow> 0 < n \<Longrightarrow> acc + v * scale \<le> MAX_VARINT \<Longrightarrow>
   readVarint_loop n acc scale (pre @ varint_bytes v @ post) (length pre)
     = Some (acc + v * scale, length pre + length (varint_bytes v))"
proof (induction n arbitrary: v acc scale pre)
  case (Suc n)
  show ?case
  proof (cases "v < 128")
    case True
    with Suc.prems(3) show ?thesis
      by (simp add: varint_bytes.simps [of v] and_127 and_128 nth_append Let_def)
  next
    case False
    define d where "d = v mod 128"
    have d: "d < 128" and v: "v = d + 128 * (v div 128)" by (simp_all add: d_def)
    have vb: "varint_bytes v = word_of_nat (d + 128) # varint_bytes (v div 128)"
      using False by (simp add: varint_bytes.simps [of v] d_def)
    have n: "0 < n" using False Suc.prems(1) by (cases n) auto
    have lt: "v div 128 < 128 ^ n" using Suc.prems by (simp add: less_mult_imp_div_less mult.commute)
    have eq: "acc + d * scale + v div 128 * (scale * 128) = acc + v * scale"
      using v by (metis add.assoc mult.assoc mult.commute distrib_right)
    then have le: "acc + d * scale + v div 128 * (scale * 128) \<le> MAX_VARINT" using Suc.prems(3) by simp
    from Suc.IH [OF lt n le, of "pre @ [word_of_nat (d + 128)]"] eq d show ?thesis
      by (simp add: vb and_127 and_128 nth_append Let_def del: of_nat_add)
  qed
qed simp

lemma readVarint_bytes:
  "v \<le> MAX_VARINT \<Longrightarrow> readVarint (pre @ varint_bytes v @ post) (length pre)
     = Some (v, length pre + length (varint_bytes v))"
  unfolding readVarint_def using readVarint_loop_spec [of v 5 0 1] by (simp add: MAX_VARINT_def)

lemma readVarint_loop_bound:
  "readVarint_loop n acc scale data pos = Some (v, pos') \<Longrightarrow> v \<le> MAX_VARINT \<and> pos < pos' \<and> pos' \<le> length data"
proof (induction n arbitrary: acc scale pos)
  case (Suc n)
  then show ?case by (auto simp: Let_def split: if_splits) fastforce+
qed simp

lemma readVarint_bound:
  "readVarint data pos = Some (v, pos') \<Longrightarrow> v \<le> MAX_VARINT \<and> pos < pos' \<and> pos' \<le> length data"
  unfolding readVarint_def by (rule readVarint_loop_bound)

section \<open>Frames\<close>

abbreviation header_bytes :: "jsnum list \<Rightarrow> byte list" where
  "header_bytes vs \<equiv> concat (map (\<lambda>v. varint_bytes (nat_of_num v)) vs)"

lemma header_value_nat: "isHeaderValue v \<Longrightarrow> nat_of_num v \<le> MAX_VARINT"
proof -
  assume v: "isHeaderValue v"
  then have "isInteger v" by (simp add: isHeaderValue_def)
  then show ?thesis using v by (cases rule: isInteger_cases) (auto simp: isHeaderValue_def)
qed

lemma header_size_ok:
  "header_size vs sz = Inr n \<longleftrightarrow> list_all isHeaderValue vs \<and> n = sz + length (header_bytes vs)"
proof (induction vs arbitrary: sz)
  case (Cons v vs)
  show ?case by (cases "isHeaderValue v") (simp_all add: Cons.IH varintSize_length add.assoc)
qed (simp add: eq_commute)

lemma header_size_err:
  "\<not> list_all isHeaderValue vs \<Longrightarrow> \<exists>v \<in> set vs. \<not> isHeaderValue v \<and>
     header_size vs sz = Inl (SerializerError ENCODE_FAILED (Msg ''bad header value {}'' [JNum v]))"
  by (induction vs arbitrary: sz) auto

lemma put_at_put_at:
  "i + length xs + length ys \<le> length buf \<Longrightarrow>
   put_at (i + length xs) ys (put_at i xs buf) = put_at i (xs @ ys) buf"
  by (simp add: put_at_def add.assoc) (simp add: ac_simps)

lemma write_header_put_at:
  "pos + length (header_bytes vs) \<le> length out \<Longrightarrow>
   write_header out pos vs = (put_at pos (header_bytes vs) out, pos + length (header_bytes vs))"
proof (induction vs arbitrary: out pos)
  case (Cons v vs)
  let ?b = "varint_bytes (nat_of_num v)"
  have room: "pos + length ?b \<le> length out" using Cons.prems by simp
  with Cons.IH [of "pos + length ?b" "put_at pos ?b out"] Cons.prems
  show ?case by (simp add: writeVarint_put_at put_at_put_at add.assoc)
qed (simp add: put_at_def)

lemma read_header_bytes:
  "list_all isHeaderValue vs \<Longrightarrow>
   read_header (length vs) (pre @ header_bytes vs @ post) (length pre)
     = Some (map nat_of_num vs, length pre + length (header_bytes vs))"
proof (induction vs arbitrary: pre)
  case (Cons v vs)
  let ?b = "varint_bytes (nat_of_num v)"
  have "readVarint (pre @ ?b @ header_bytes vs @ post) (length pre) = Some (nat_of_num v, length (pre @ ?b))"
    using Cons.prems readVarint_bytes [of "nat_of_num v" pre "header_bytes vs @ post"]
    by (simp add: header_value_nat)
  with Cons.IH [of "pre @ ?b"] Cons.prems show ?case by simp
qed simp

lemma encodeFrame_bytes:
  assumes t: "isInteger t" "\<not> num_lt t (JFin 0)" "\<not> num_lt (JFin 255) t" and h: "list_all isHeaderValue vs"
  shows "encodeFrame t vs body =
    Inr (word_of_nat (nat_of_num t) # header_bytes vs @ (case body of None \<Rightarrow> [] | Some b \<Rightarrow> b))"
proof -
  let ?n = "length (header_bytes vs)" and ?B = "case body of None \<Rightarrow> [] | Some b \<Rightarrow> b"
  let ?z = "(replicate (1 + ?n + length ?B) (0 :: byte))[0 := word_of_nat (nat_of_num t)]"
  have sz: "header_size vs (1 + (case body of None \<Rightarrow> 0 | Some b \<Rightarrow> length b)) = Inr (1 + ?n + length ?B)"
    using h by (auto simp: header_size_ok split: option.split)
  have wh: "write_header ?z 1 vs = (put_at 1 (header_bytes vs) ?z, 1 + ?n)"
    by (rule write_header_put_at) simp
  show ?thesis
  proof (cases body)
    case None
    then show ?thesis using t sz wh by (simp add: encodeFrame_def put_at_def)
  next
    case (Some b)
    have "put_at (1 + ?n) b (put_at 1 (header_bytes vs) ?z) = put_at 1 (header_bytes vs @ b) ?z"
      using Some by (intro put_at_put_at) simp
    with Some show ?thesis using t sz wh by (simp add: encodeFrame_def put_at_def)
  qed
qed

lemma decodeFrame_encodeFrame_bytes:
  assumes "n < 256" "headerCount n = Some (length vs)" "list_all isHeaderValue vs"
  shows "decodeFrame (word_of_nat n # header_bytes vs @ body) headerCount =
    Inr \<lparr>ftype = n, fheader = map nat_of_num vs, fbody = body\<rparr>"
  using read_header_bytes [OF assms(3), of "[word_of_nat n]" body] assms
  by (simp add: decodeFrame_def)

lemma read_header_bound:
  "read_header n data pos = Some (vs, pos') \<Longrightarrow>
   length vs = n \<and> list_all (\<lambda>v. v \<le> MAX_VARINT) vs \<and> pos \<le> pos' \<and> (pos' \<le> length data \<or> n = 0)"
proof (induction n arbitrary: pos vs)
  case (Suc n)
  then obtain v a us where "readVarint data pos = Some (v, a)" "read_header n data a = Some (us, pos')" "vs = v # us"
    by (auto split: option.splits)
  with Suc.IH [of a us] readVarint_bound [of data pos v a] show ?case by auto
qed simp

end
