(* ===== verification/WireTypes.thy ===== *)
theory WireTypes
  imports Frame
begin

text \<open>
  The class-table type grammar of \<open>types/wire.ts\<close>. Types are strings, as in the source:
  \<open>parseFieldType\<close> breaks one into its parts, \<open>showFieldType\<close> is the documented
  table (\<open>SchemaFieldType\<close>) read the other way. The grammar is unambiguous: showing and
  parsing are inverse, for every well-formed type and every string the parser accepts, whatever
  characters a schema name contains.
\<close>

datatype ParsedFieldType =
    PPrimitive jsstring
  | PInt jsstring
  | PSchema jsstring
  | PMap jsstring jsstring
  | PSet jsstring
  | PArray jsstring
  | PSchemaMap jsstring jsstring
  | PSchemaSet jsstring
  | PSchemaArray jsstring

definition KEY_TYPES :: "jsstring list" where
  "KEY_TYPES = map js [''string'', ''float64'', ''int8'', ''int16'', ''int32'', ''uint8'', ''uint16'', ''uint32'']"

text \<open>\<open>type.startsWith(prefix)\<close> and \<open>type.indexOf(c)\<close>.\<close>

definition startsWith :: "jsstring \<Rightarrow> jsstring \<Rightarrow> bool" where
  "startsWith s p = (take (length p) s = p)"

fun indexOf :: "code_unit \<Rightarrow> jsstring \<Rightarrow> nat option" where
  "indexOf c [] = None"
| "indexOf c (d # s) = (if d = c then Some 0 else map_option Suc (indexOf c s))"

definition is_fixed_type :: "jsstring \<Rightarrow> bool" where
  "is_fixed_type s = (length s = 7 \<and> startsWith s (js ''fixed:'') \<and> is_digit (last s))"

definition isPrimitiveFieldType :: "jsstring \<Rightarrow> bool" where
  "isPrimitiveFieldType s =
     (s = js ''float64'' \<or> s = js ''float32'' \<or> s = js ''string'' \<or> s = js ''bool'' \<or> is_fixed_type s)"

definition isKeyFieldType :: "jsstring \<Rightarrow> bool" where
  "isKeyFieldType s = (s \<in> set KEY_TYPES)"

text \<open>The \<open>switch\<close> on the part before \<open><\<close>; \<open>comma > 0\<close> is
  \<open>Some c\<close> with \<open>0 < c\<close>, and key and rest are only looked at then.\<close>

definition parse_parts :: "jsstring \<Rightarrow> jsstring \<Rightarrow> ParsedFieldType option" where
  "parse_parts head inner =
     (let split = (case indexOf 0x2C inner of
             Some c \<Rightarrow> if 0 < c then Some (take c inner, drop (c + 1) inner) else None
           | None \<Rightarrow> None)
      in if head = js ''schema'' then (if inner = [] then None else Some (PSchema inner))
         else if head = js ''schemaSet'' then (if inner = [] then None else Some (PSchemaSet inner))
         else if head = js ''schemaArray'' then (if inner = [] then None else Some (PSchemaArray inner))
         else if head = js ''set'' then (if isKeyFieldType inner then Some (PSet inner) else None)
         else if head = js ''array'' then (if isPrimitiveFieldType inner then Some (PArray inner) else None)
         else if head = js ''map'' then
           (case split of
              Some (key, rest) \<Rightarrow> if isKeyFieldType key \<and> isPrimitiveFieldType rest then Some (PMap key rest) else None
            | None \<Rightarrow> None)
         else if head = js ''schemaMap'' then
           (case split of
              Some (key, rest) \<Rightarrow> if isKeyFieldType key \<and> rest \<noteq> [] then Some (PSchemaMap key rest) else None
            | None \<Rightarrow> None)
         else None)"

definition parseFieldType :: "jsstring \<Rightarrow> ParsedFieldType option" where
  "parseFieldType s =
     (if isPrimitiveFieldType s then Some (PPrimitive s)
      else if isIntKind s \<noteq> None then Some (PInt s)
      else case indexOf 0x3C s of
        None \<Rightarrow> None
      | Some opn \<Rightarrow>
          if opn = 0 \<or> last s \<noteq> 0x3E then None
          else parse_parts (take opn s) (butlast (drop (opn + 1) s)))"

fun isCollectionField :: "ParsedFieldType \<Rightarrow> bool" where
  "isCollectionField (PPrimitive _) = False"
| "isCollectionField (PInt _) = False"
| "isCollectionField (PSchema _) = False"
| "isCollectionField _ = True"

text \<open>The string a type stands for in the class table.\<close>

definition angle :: "string \<Rightarrow> jsstring \<Rightarrow> jsstring" where
  "angle head inner = js head @ 0x3C # inner @ [0x3E]"

fun showFieldType :: "ParsedFieldType \<Rightarrow> jsstring" where
  "showFieldType (PPrimitive t) = t"
| "showFieldType (PInt t) = t"
| "showFieldType (PSchema n) = angle ''schema'' n"
| "showFieldType (PMap k t) = angle ''map'' (k @ 0x2C # t)"
| "showFieldType (PSet k) = angle ''set'' k"
| "showFieldType (PArray t) = angle ''array'' t"
| "showFieldType (PSchemaMap k n) = angle ''schemaMap'' (k @ 0x2C # n)"
| "showFieldType (PSchemaSet n) = angle ''schemaSet'' n"
| "showFieldType (PSchemaArray n) = angle ''schemaArray'' n"

fun parsed_ok :: "ParsedFieldType \<Rightarrow> bool" where
  "parsed_ok (PPrimitive t) = isPrimitiveFieldType t"
| "parsed_ok (PInt t) = (isIntKind t \<noteq> None)"
| "parsed_ok (PSchema n) = (n \<noteq> [])"
| "parsed_ok (PMap k t) = (isKeyFieldType k \<and> isPrimitiveFieldType t)"
| "parsed_ok (PSet k) = isKeyFieldType k"
| "parsed_ok (PArray t) = isPrimitiveFieldType t"
| "parsed_ok (PSchemaMap k n) = (isKeyFieldType k \<and> n \<noteq> [])"
| "parsed_ok (PSchemaSet n) = (n \<noteq> [])"
| "parsed_ok (PSchemaArray n) = (n \<noteq> [])"

section \<open>Searching\<close>

lemma indexOf_append: "c \<notin> set xs \<Longrightarrow> indexOf c (xs @ c # ys) = Some (length xs)"
  by (induction xs) auto

lemma indexOf_split: "indexOf c s = Some i \<Longrightarrow> take i s @ c # drop (Suc i) s = s"
  by (induction s arbitrary: i) (auto split: if_splits)

lemma indexOf_SomeD:
  "indexOf c s = Some i \<Longrightarrow> i < length s \<and> c \<notin> set (take i s)"
  by (induction s arbitrary: i) (auto split: if_splits)

section \<open>The grammar is unambiguous\<close>

text \<open>No scalar type contains a bracket or a comma.\<close>

lemma fixed_type_form: "is_fixed_type t \<Longrightarrow> t = js ''fixed:'' @ [last t] \<and> is_digit (last t)"
proof -
  assume t: "is_fixed_type t"
  then have "take 6 t = js ''fixed:''" "length t = 7" by (auto simp: is_fixed_type_def startsWith_def js_def eval_nat_numeral)
  then have "butlast t = js ''fixed:''" "t \<noteq> []" by (auto simp: butlast_conv_take)
  then show ?thesis using t by (metis append_butlast_last_id is_fixed_type_def)
qed

lemma isIntKind_set: "isIntKind t \<noteq> None \<longleftrightarrow> t \<in> int_kind_name ` set int_kinds"
  by (auto simp: isIntKind_def find_None_iff)

lemma isIntKind_names: "isIntKind t \<noteq> None \<Longrightarrow>
    t \<in> {js ''int8'', js ''int16'', js ''int32'', js ''uint8'', js ''uint16'', js ''uint32''}"
  unfolding isIntKind_set by (auto simp: int_kinds_def)

lemma int_not_primitive: "isIntKind t \<noteq> None \<Longrightarrow> \<not> isPrimitiveFieldType t"
proof -
  have "list_all (\<lambda>k. \<not> isPrimitiveFieldType (int_kind_name k)) int_kinds" by code_simp
  then show "isIntKind t \<noteq> None \<Longrightarrow> \<not> isPrimitiveFieldType t"
    unfolding isIntKind_set by (auto simp: list_all_iff)
qed

lemma primitive_no_punct: "isPrimitiveFieldType t \<Longrightarrow> 0x3C \<notin> set t \<and> 0x2C \<notin> set t \<and> t \<noteq> []"
proof -
  assume "isPrimitiveFieldType t"
  then consider "t \<in> {js ''float64'', js ''float32'', js ''string'', js ''bool''}" | "is_fixed_type t"
    by (auto simp: isPrimitiveFieldType_def)
  then show ?thesis
  proof cases
    case 1
    then show ?thesis by (auto simp: js_def)
  next
    case 2
    then have t: "t = js ''fixed:'' @ [last t]" and d: "is_digit (last t)" using fixed_type_form by blast+
    have "set t = insert (last t) (set (js ''fixed:''))"
      using arg_cong [OF t, of set] by auto
    moreover have "last t \<noteq> 0x3C" "last t \<noteq> 0x2C" using d by (auto simp: is_digit_def)
    moreover have "t \<noteq> []" using t by auto
    ultimately show ?thesis by (simp add: js_def)
  qed
qed

lemma int_no_punct: "isIntKind t \<noteq> None \<Longrightarrow> 0x3C \<notin> set t"
  using isIntKind_names [of t] by (auto simp: js_def)

lemma key_no_punct: "isKeyFieldType t \<Longrightarrow> 0x2C \<notin> set t \<and> t \<noteq> []"
  by (auto simp: isKeyFieldType_def KEY_TYPES_def js_def)

lemma parseFieldType_angle:
  assumes "0x3C \<notin> set (js h)" "h \<noteq> []"
  shows "parseFieldType (angle h inner) = parse_parts (js h) inner"
proof -
  have "0x3C \<in> set (angle h inner)" by (simp add: angle_def)
  then have "\<not> isPrimitiveFieldType (angle h inner)" "isIntKind (angle h inner) = None"
    using primitive_no_punct int_no_punct by blast+
  moreover have "indexOf 0x3C (angle h inner) = Some (length (js h))"
    using indexOf_append [OF assms(1)] by (simp add: angle_def)
  moreover have "js h \<noteq> []" using assms(2) by (simp add: js_def)
  ultimately show ?thesis by (simp add: parseFieldType_def) (simp add: angle_def butlast_append)
qed

lemma split_key: "isKeyFieldType k \<Longrightarrow> indexOf 0x2C (k @ 0x2C # t) = Some (length k) \<and> 0 < length k"
  using indexOf_append key_no_punct by auto

lemma parse_showFieldType: "parsed_ok p \<Longrightarrow> parseFieldType (showFieldType p) = Some p"
proof (cases p)
  case (PInt t)
  assume "parsed_ok p"
  with PInt have t: "isIntKind t \<noteq> None" by simp
  then have "\<not> isPrimitiveFieldType t" using int_not_primitive by blast
  with PInt t show ?thesis by (simp add: parseFieldType_def)
next
  case (PMap k t)
  assume "parsed_ok p"
  with PMap split_key [of k t] show ?thesis
    by (subst PMap, subst showFieldType.simps, subst parseFieldType_angle)
      (simp_all add: parse_parts_def js_def)
next
  case (PSchemaMap k n)
  assume "parsed_ok p"
  with PSchemaMap split_key [of k n] show ?thesis
    by (subst PSchemaMap, subst showFieldType.simps, subst parseFieldType_angle)
      (simp_all add: parse_parts_def js_def)
qed (simp add: parseFieldType_def, (subst (asm) parsed_ok.simps | simp add: parseFieldType_angle js_def parse_parts_def)+)

lemma parse_parts_SomeD:
  "parse_parts h inner = Some p \<Longrightarrow> parsed_ok p \<and> showFieldType p = h @ 0x3C # inner @ [0x3E]"
  by (auto simp: parse_parts_def Let_def angle_def indexOf_split split: if_splits option.splits)

lemma parseFieldType_SomeD:
  assumes "parseFieldType s = Some p"
  shows "parsed_ok p \<and> showFieldType p = s"
proof -
  consider "isPrimitiveFieldType s" | "\<not> isPrimitiveFieldType s" "isIntKind s \<noteq> None"
    | opn where "\<not> isPrimitiveFieldType s" "isIntKind s = None" "indexOf 0x3C s = Some opn" "last s = 0x3E"
      "parse_parts (take opn s) (butlast (drop (opn + 1) s)) = Some p"
    using assms by (auto simp: parseFieldType_def split: if_splits option.splits)
  then show ?thesis
  proof cases
    case 3
    have s: "s = take opn s @ 0x3C # drop (opn + 1) s" using indexOf_split [OF 3(3)] by simp
    have "drop (opn + 1) s \<noteq> []"
    proof
      assume "drop (opn + 1) s = []"
      then have "last s = 0x3C" using s by (metis last_snoc)
      with 3(4) show False by simp
    qed
    moreover have "last (drop (opn + 1) s) = 0x3E" using calculation 3(4) by (metis drop_eq_Nil last_drop linorder_not_le)
    ultimately have "butlast (drop (opn + 1) s) @ [0x3E] = drop (opn + 1) s"
      by (metis append_butlast_last_id)
    with parse_parts_SomeD [OF 3(5)] s show ?thesis by simp
  qed (use assms in \<open>auto simp: parseFieldType_def\<close>)
qed

end
