(* ===== verification/ClassTable.thy ===== *)
theory ClassTable
  imports WireTypes
begin

text \<open>
  Shape checks on state ops, the class table and the \<open>messagepack\<close> session
  (\<open>serializer/state-codec.ts\<close>). An op is an array of untyped values, as the checks see
  it. The serializer under the session is third-party code and a parameter. The facts: a
  \<open>DEFINE\<close> either leaves the table as it is or appends the class under the next id, so
  class ids stay dense and an entry once known never changes; two tables fed the same
  \<open>DEFINE\<close>s agree.
\<close>

section \<open>Op shape checks\<close>

text \<open>\<open>xs[i]\<close>, \<open>undefined\<close> out of range.\<close>

definition arg :: "jsval list \<Rightarrow> nat \<Rightarrow> jsval" where
  "arg xs i = (if i < length xs then xs ! i else JUndef)"

text \<open>\<open>v === k\<close> for an integer literal \<open>k\<close>.\<close>

fun is_lit :: "jsval \<Rightarrow> int \<Rightarrow> bool" where
  "is_lit (JNum n) k = num_eq n (num_of_int k)"
| "is_lit _ k = False"

fun isInt :: "jsval \<Rightarrow> bool" where
  "isInt (JNum n) = isInteger n"
| "isInt _ = False"

fun isKey :: "jsval \<Rightarrow> bool" where
  "isKey (JStr _) = True"
| "isKey (JNum _) = True"
| "isKey (JBool _) = True"
| "isKey _ = False"

fun isValue :: "jsval \<Rightarrow> bool" where
  "isValue (JArr vs) = (length vs = 2 \<and> isInt (arg vs 0) \<and> isInt (arg vs 1))"
| "isValue v = isKey v"

fun is_string :: "jsval \<Rightarrow> bool" where
  "is_string (JStr _) = True"
| "is_string _ = False"

fun isStringArray :: "jsval \<Rightarrow> bool" where
  "isStringArray (JArr vs) = list_all is_string vs"
| "isStringArray _ = False"

fun the_string :: "jsval \<Rightarrow> jsstring" where
  "the_string (JStr s) = s"
| "the_string _ = []"

text \<open>The strings of an array that passed \<open>isStringArray\<close>.\<close>

fun strings_of :: "jsval \<Rightarrow> jsstring list" where
  "strings_of (JArr vs) = map the_string vs"
| "strings_of _ = []"

fun the_num :: "jsval \<Rightarrow> jsnum" where
  "the_num (JNum n) = n"
| "the_num _ = JNaN"

fun isWireOp :: "jsval \<Rightarrow> bool" where
  "isWireOp (JArr op) =
     (isInt (arg op 0) \<and> isInt (arg op 1) \<and>
      (if is_lit (arg op 0) 0 then length op = 4 \<and> isInt (arg op 2) \<and> isValue (arg op 3)
       else if is_lit (arg op 0) 1 then
         (if length op = 3 then isValue (arg op 2)
          else length op = 4 \<and> isKey (arg op 2) \<and> isValue (arg op 3))
       else if is_lit (arg op 0) 2 then length op = 3 \<and> isKey (arg op 2)
       else if is_lit (arg op 0) 3 then length op = 2
       else if is_lit (arg op 0) 4 then
         length op = 5 \<and> is_string (arg op 2) \<and> isStringArray (arg op 3) \<and> isStringArray (arg op 4)
         \<and> length (strings_of (arg op 3)) = length (strings_of (arg op 4))
         \<and> list_all (\<lambda>t. parseFieldType t \<noteq> None) (strings_of (arg op 4))
       else False))"
| "isWireOp _ = False"

section \<open>The class table\<close>

record SchemaClassEntry =
  classId :: jsnum
  cname :: jsstring
  cfields :: "jsstring list"
  ctypes :: "jsstring list"

text \<open>\<open>a.every((x, i) => x === b[i])\<close>.\<close>

fun every_same :: "jsstring list \<Rightarrow> jsstring list \<Rightarrow> bool" where
  "every_same [] ys = True"
| "every_same (x # xs) [] = False"
| "every_same (x # xs) (y # ys) = (x = y \<and> every_same xs ys)"

definition sameEntry :: "SchemaClassEntry \<Rightarrow> SchemaClassEntry \<Rightarrow> bool" where
  "sameEntry a b =
     (cname a = cname b \<and> length (cfields a) = length (cfields b)
      \<and> every_same (cfields a) (cfields b) \<and> every_same (ctypes a) (ctypes b))"

text \<open>\<open>xs[n]\<close> for an arbitrary number \<open>n\<close>.\<close>

definition js_index :: "'a list \<Rightarrow> jsnum \<Rightarrow> 'a option" where
  "js_index xs n =
     (if isInteger n \<and> 0 \<le> int_of_num n \<and> nat (int_of_num n) < length xs then Some (xs ! nat (int_of_num n))
      else None)"

type_synonym class_table = "SchemaClassEntry list"

definition table_get :: "class_table \<Rightarrow> jsnum \<Rightarrow> SchemaClassEntry option" where
  "table_get t n = js_index t n"

definition table_size :: "class_table \<Rightarrow> nat" where
  "table_size t = length t"

definition table_truncate :: "nat \<Rightarrow> class_table \<Rightarrow> class_table" where
  "table_truncate sz t = (if sz < length t then take sz t else t)"

definition table_define :: "jsval list \<Rightarrow> class_table \<Rightarrow> message option \<times> class_table" where
  "table_define op t =
     (let cid = the_num (arg op 1);
          name = the_string (arg op 2);
          entry = \<lparr>classId = cid, cname = name, cfields = strings_of (arg op 3), ctypes = strings_of (arg op 4)\<rparr>
      in case js_index t cid of
           Some existing \<Rightarrow>
             (if sameEntry existing entry then (None, t)
              else (Some (Msg ''DEFINE {} ({}) contradicts the known {}''
                     [JNum cid, JStr name, JStr (cname existing)]), t))
         | None \<Rightarrow>
             (if \<not> num_eq cid (num_of_int (int (length t))) then
                (Some (Msg ''DEFINE {} ({}) skips ahead of class {}'' [JNum cid, JStr name, nat_val (length t)]), t)
              else (None, t @ [entry])))"

definition toTable :: "class_table \<Rightarrow> SchemaClassEntry list" where
  "toTable t = map (\<lambda>e. \<lparr>classId = classId e, cname = cname e, cfields = cfields e, ctypes = ctypes e\<rparr>) t"

fun applyDefines :: "jsval list list \<Rightarrow> class_table \<Rightarrow> message option \<times> class_table" where
  "applyDefines [] t = (None, t)"
| "applyDefines (op # ops) t =
     (if \<not> is_lit (arg op 0) 4 then applyDefines ops t
      else case table_define op t of
             (Some problem, t) \<Rightarrow> (Some problem, t)
           | (None, t) \<Rightarrow> applyDefines ops t)"

section \<open>The MessagePack session\<close>

fun is_op_array :: "jsval \<Rightarrow> bool" where
  "is_op_array (JArr _) = True"
| "is_op_array _ = False"

fun op_args :: "jsval \<Rightarrow> jsval list" where
  "op_args (JArr vs) = vs"
| "op_args _ = []"

definition mp_encodeOps ::
  "(jsval \<Rightarrow> SerializerError + byte list) \<Rightarrow> jsval list list \<Rightarrow> class_table
   \<Rightarrow> (SerializerError + byte list) \<times> class_table" where
  "mp_encodeOps encode ops t =
     (if list_ex (\<lambda>op. is_lit (arg op 0) 4 \<and> \<not> isWireOp (JArr op)) ops then
        (Inl (SerializerError ENCODE_FAILED (Msg ''malformed DEFINE'' [])), t)
      else case applyDefines ops t of
             (Some problem, t) \<Rightarrow> (Inl (SerializerError ENCODE_FAILED problem), t)
           | (None, t) \<Rightarrow> (encode (JArr (map JArr ops)), t))"

fun first_malformed :: "nat \<Rightarrow> jsval list \<Rightarrow> nat option" where
  "first_malformed i [] = None"
| "first_malformed i (op # ops) = (if \<not> isWireOp op then Some i else first_malformed (Suc i) ops)"

definition mp_decodeOps ::
  "(byte list \<Rightarrow> SerializerError + jsval) \<Rightarrow> byte list \<Rightarrow> class_table
   \<Rightarrow> (SerializerError + jsval list) \<times> class_table" where
  "mp_decodeOps decode data t =
     (case decode data of
        Inl e \<Rightarrow> (Inl e, t)
      | Inr (JArr ops) \<Rightarrow>
          (case first_malformed 0 ops of
             Some i \<Rightarrow> (Inl (SerializerError DECODE_FAILED (Msg ''malformed op #{}'' [nat_val i])), t)
           | None \<Rightarrow>
               (case applyDefines (map op_args ops) t of
                  (Some problem, t) \<Rightarrow> (Inl (SerializerError DECODE_FAILED problem), t)
                | (None, t) \<Rightarrow> (Inr ops, t)))
      | Inr _ \<Rightarrow> (Inl (SerializerError DECODE_FAILED (Msg ''frame is not an array'' [])), t))"

section \<open>Laws of the table\<close>

text \<open>Class ids are dense: entry \<open>i\<close> has id \<open>i\<close>.\<close>

definition table_ok :: "class_table \<Rightarrow> bool" where
  "table_ok t = (\<forall>i < length t. num_eq (classId (t ! i)) (num_of_int (int i))
      \<and> length (cfields (t ! i)) = length (ctypes (t ! i)))"

lemma every_same_eq: "length xs = length ys \<Longrightarrow> every_same xs ys \<longleftrightarrow> xs = ys"
  by (induction xs ys rule: every_same.induct) auto

lemma table_define_prefix: "table_define op t = (p, t') \<Longrightarrow> t' = t \<or> (p = None \<and> (\<exists>e. t' = t @ [e]))"
  by (auto simp: table_define_def Let_def split: option.splits if_splits)

lemma table_define_error: "table_define op t = (Some m, t') \<Longrightarrow> t' = t"
  using table_define_prefix by fastforce

lemma applyDefines_prefix: "applyDefines ops t = (p, t') \<Longrightarrow> \<exists>es. t' = t @ es"
proof (induction ops t rule: applyDefines.induct)
  case (2 op ops t)
  show ?case
  proof (cases "is_lit (arg op 0) 4")
    case True
    obtain q u where d: "table_define op t = (q, u)" by fastforce
    from table_define_prefix [OF d] obtain e where u: "u = t @ e" by (metis append_Nil2)
    show ?thesis
    proof (cases q)
      case None
      then have "applyDefines ops u = (p, t')" using "2.prems" True d by simp
      with "2.IH"(2) [OF _ d [symmetric]] None True u show ?thesis by fastforce
    next
      case (Some m)
      then show ?thesis using "2.prems" True d u by auto
    qed
  qed (use 2 in auto)
qed simp

lemma is_lit_iff: "is_lit v k \<longleftrightarrow> (\<exists>n. v = JNum n \<and> isInteger n \<and> int_of_num n = k)"
proof (cases v)
  case (JNum n)
  show ?thesis
  proof (cases "isInteger n")
    case True
    then show ?thesis using JNum by (cases rule: isInteger_cases) (auto simp: num_eq_def)
  next
    case False
    then show ?thesis using JNum by (cases n; cases "case n of JInf b \<Rightarrow> b | _ \<Rightarrow> False") (auto simp: num_eq_def)
  qed
qed auto

lemma define_shape:
  assumes "isWireOp (JArr op)" "is_lit (arg op 0) 4"
  obtains n name fs ts where "arg op 1 = JNum n" "isInteger n" "arg op 2 = JStr name"
    "arg op 3 = JArr fs" "arg op 4 = JArr ts" "list_all is_string fs" "list_all is_string ts"
    "length fs = length ts" "list_all (\<lambda>t. parseFieldType t \<noteq> None) (map the_string ts)" "length op = 5"
proof -
  have lits: "\<not> is_lit (arg op 0) 0" "\<not> is_lit (arg op 0) 1" "\<not> is_lit (arg op 0) 2" "\<not> is_lit (arg op 0) 3"
    using assms(2) by (auto simp: is_lit_iff)
  from assms have "isInt (arg op 1)" "is_string (arg op 2)" "isStringArray (arg op 3)" "isStringArray (arg op 4)"
    "length (strings_of (arg op 3)) = length (strings_of (arg op 4))" "length op = 5"
    "list_all (\<lambda>t. parseFieldType t \<noteq> None) (strings_of (arg op 4))"
    by (simp_all add: lits)
  moreover from calculation obtain n where "arg op 1 = JNum n" by (cases "arg op 1") simp_all
  moreover from calculation obtain name where "arg op 2 = JStr name" by (cases "arg op 2") simp_all
  moreover from calculation obtain fs where "arg op 3 = JArr fs" by (cases "arg op 3") simp_all
  moreover from calculation obtain ts where "arg op 4 = JArr ts" by (cases "arg op 4") simp_all
  ultimately show ?thesis using that by simp
qed

lemma table_define_ok:
  assumes "table_ok t" "isWireOp (JArr op)" "is_lit (arg op 0) 4" "table_define op t = (p, t')"
  shows "table_ok t'"
proof -
  obtain n name fs ts where op: "arg op 1 = JNum n" "arg op 3 = JArr fs" "arg op 4 = JArr ts" "length fs = length ts"
    using define_shape [OF assms(2,3)] by metis
  from assms(4) have "t' = t \<or> (num_eq n (num_of_int (int (length t)))
      \<and> t' = t @ [\<lparr>classId = n, cname = the_string (arg op 2), cfields = map the_string fs, ctypes = map the_string ts\<rparr>])"
    using op by (auto simp: table_define_def Let_def split: option.splits if_splits)
  then show ?thesis using assms(1) op(4) by (auto simp: table_ok_def nth_append less_Suc_eq)
qed

lemma applyDefines_ok:
  "table_ok t \<Longrightarrow> list_all (\<lambda>op. isWireOp (JArr op)) ops \<Longrightarrow> table_ok (snd (applyDefines ops t))"
proof (induction ops t rule: applyDefines.induct)
  case (2 op ops t)
  show ?case
  proof (cases "is_lit (arg op 0) 4")
    case True
    obtain p t' where d: "table_define op t = (p, t')" by fastforce
    have "table_ok t'" using table_define_ok [OF "2.prems"(1) _ True d] "2.prems"(2) by (simp del: isWireOp.simps)
    with 2 True d show ?thesis by (cases p) (auto simp del: isWireOp.simps)
  qed (use 2 in \<open>simp del: isWireOp.simps\<close>)
qed simp

lemma table_truncate_append [simp]: "table_truncate (length t) (t @ es) = t"
  by (auto simp: table_truncate_def)

lemma first_malformed_None: "first_malformed i ops = None \<longleftrightarrow> list_all isWireOp ops"
  by (induction ops arbitrary: i) auto

text \<open>A frame the session accepted is decoded by every session whose table agrees.\<close>

lemma mp_decode_encode:
  assumes "mp_encodeOps encode ops t = (Inr bytes, t')" "list_all (\<lambda>op. isWireOp (JArr op)) ops"
    "decode bytes = Inr (JArr (map JArr ops))"
  shows "mp_decodeOps decode bytes t = (Inr (map JArr ops), t')"
proof -
  have a: "applyDefines ops t = (None, t')"
    using assms(1) by (auto simp: mp_encodeOps_def split: if_splits prod.splits option.splits)
  have "first_malformed 0 (map JArr ops) = None"
    using assms(2) by (simp add: first_malformed_None list_all_iff del: isWireOp.simps)
  moreover have "map op_args (map JArr ops) = ops" by (simp add: comp_def)
  ultimately show ?thesis using assms(3) a by (simp add: mp_decodeOps_def)
qed

end
