(* ===== verification/SchemaTables.thy ===== *)
theory SchemaTables
  imports ClassTable
begin

text \<open>
  The class and target tables of one stream of the \<open>schema\<close> codec
  (\<open>serializer/schema-codec.ts\<close>, \<open>Tables\<close>). A refId denotes an instance of a class
  or one of the collections of an instance; binding an instance binds the block of its
  collections behind it. Every write to the target table is journalled, and
  \<open>rollback\<close> undoes a frame. The facts: after any sequence of operations since
  \<open>begin\<close>, \<open>rollback\<close> restores classes, layouts and targets exactly.
\<close>

record ClassLayout =
  ltypes :: "ParsedFieldType list"
  lcollections :: "ParsedFieldType list"

datatype Target = TInstance ClassLayout | TCollection ParsedFieldType

definition isUint32 :: "jsval \<Rightarrow> bool" where
  "isUint32 v = isIntOf v Uint32"

text \<open>The number a value that passed \<open>isUint32\<close> denotes.\<close>

definition uint_of :: "jsval \<Rightarrow> nat" where
  "uint_of v = nat (int_of_num (the_num v))"

fun isWireRef :: "jsval \<Rightarrow> bool" where
  "isWireRef (JArr vs) = (length vs = 2 \<and> isUint32 (arg vs 0) \<and> isUint32 (arg vs 1))"
| "isWireRef _ = False"

fun parse_types :: "jsstring list \<Rightarrow> ParsedFieldType list option" where
  "parse_types [] = Some []"
| "parse_types (t # ts) =
     (case parseFieldType t of
        None \<Rightarrow> None
      | Some p \<Rightarrow> map_option (\<lambda>ps. p # ps) (parse_types ts))"

definition layoutOf :: "jsstring list \<Rightarrow> ClassLayout option" where
  "layoutOf types =
     (case parse_types types of
        None \<Rightarrow> None
      | Some ps \<Rightarrow> Some \<lparr>ltypes = ps, lcollections = filter isCollectionField ps\<rparr>)"

record Tables =
  classes :: class_table
  layouts :: "ClassLayout list"
  targets :: "nat \<Rightarrow> Target option"
  undo :: "(nat \<times> Target option) list"
  classMark :: nat

definition new_tables :: Tables where
  "new_tables = \<lparr>classes = [], layouts = [], targets = (\<lambda>_. None), undo = [], classMark = 0\<rparr>"

definition tables_begin :: "Tables \<Rightarrow> Tables" where
  "tables_begin t = t\<lparr>undo := [], classMark := length (layouts t)\<rparr>"

text \<open>The loop of \<open>rollback\<close> runs from the last entry to the first.\<close>

definition restore :: "(nat \<times> Target option) list \<Rightarrow> (nat \<Rightarrow> Target option) \<Rightarrow> nat \<Rightarrow> Target option" where
  "restore us m = foldr (\<lambda>(ref, previous) m. m(ref := previous)) us m"

definition rollback :: "Tables \<Rightarrow> Tables" where
  "rollback t = t\<lparr>targets := restore (undo t) (targets t), undo := [],
     layouts := take (classMark t) (layouts t), classes := table_truncate (classMark t) (classes t)\<rparr>"

definition set_target :: "nat \<Rightarrow> Target \<Rightarrow> Tables \<Rightarrow> Tables" where
  "set_target ref target t =
     t\<lparr>undo := undo t @ [(ref, targets t ref)], targets := (targets t)(ref \<mapsto> target)\<rparr>"

fun bind_collections :: "nat \<Rightarrow> ParsedFieldType list \<Rightarrow> Tables \<Rightarrow> Tables" where
  "bind_collections nxt [] t = t"
| "bind_collections nxt (ty # tys) t = bind_collections (nxt + 1) tys (set_target nxt (TCollection ty) t)"

definition bind_block :: "nat \<Rightarrow> ClassLayout \<Rightarrow> Tables \<Rightarrow> Tables" where
  "bind_block ref layout t = bind_collections (ref + 1) (lcollections layout) (set_target ref (TInstance layout) t)"

definition tables_define :: "jsval list \<Rightarrow> Tables \<Rightarrow> message option \<times> Tables" where
  "tables_define op t =
     (let known = table_size (classes t)
      in case table_define op (classes t) of
           (Some problem, cs) \<Rightarrow> (Some problem, t\<lparr>classes := cs\<rparr>)
         | (None, cs) \<Rightarrow>
             let t = t\<lparr>classes := cs\<rparr>
             in if table_size cs = known then (None, t)
                else case layoutOf (strings_of (arg op 4)) of
                       None \<Rightarrow> (Some (Msg ''DEFINE {}: unparseable type'' [arg op 1]), t)
                     | Some layout \<Rightarrow>
                         let t = t\<lparr>layouts := layouts t @ [layout]\<rparr>
                         in (None, if is_lit (arg op 1) 0 then bind_block 0 layout t else t))"

definition bindRef :: "nat \<Rightarrow> nat \<Rightarrow> Tables \<Rightarrow> message option \<times> Tables" where
  "bindRef cid ref t =
     (if length (layouts t) \<le> cid then (Some (Msg ''ref to undefined classId {}'' [nat_val cid]), t)
      else let layout = layouts t ! cid
           in if MAX_UINT32 < ref + length (lcollections layout) then
                (Some (Msg ''refId block of {} overflows'' [nat_val ref]), t)
              else (None, bind_block ref layout t))"

section \<open>The journal\<close>

text \<open>
  \<open>since b t\<close>: \<open>t\<close> is reached from \<open>b\<close> (as it was when the frame began) by
  journalled changes.
\<close>

definition since :: "Tables \<Rightarrow> Tables \<Rightarrow> bool" where
  "since b t = (restore (undo t) (targets t) = targets b
     \<and> classMark t = length (layouts b) \<and> length (layouts b) = length (classes b)
     \<and> (\<exists>ls. layouts t = layouts b @ ls) \<and> (\<exists>cs. classes t = classes b @ cs))"

definition same_tables :: "Tables \<Rightarrow> Tables \<Rightarrow> bool" where
  "same_tables a b = (classes a = classes b \<and> layouts a = layouts b \<and> targets a = targets b)"

definition tables_ok :: "Tables \<Rightarrow> bool" where
  "tables_ok t = (length (layouts t) = length (classes t))"

lemma restore_snoc [simp]: "restore (us @ [(r, p)]) m = restore us (m(r := p))"
  by (simp add: restore_def)

lemma since_begin: "tables_ok t \<Longrightarrow> since t (tables_begin t)"
  by (simp add: since_def tables_begin_def restore_def tables_ok_def)

lemma since_rollback: "since b t \<Longrightarrow> same_tables (rollback t) b"
  by (auto simp: since_def same_tables_def rollback_def)

lemma since_set_target: "since b t \<Longrightarrow> since b (set_target r x t)"
  by (simp add: since_def set_target_def)

lemma since_bind_collections: "since b t \<Longrightarrow> since b (bind_collections n tys t)"
  by (induction n tys t rule: bind_collections.induct) (simp_all add: since_set_target)

lemma since_bind_block: "since b t \<Longrightarrow> since b (bind_block r l t)"
  by (simp add: bind_block_def since_bind_collections since_set_target)

lemma since_bindRef: "since b t \<Longrightarrow> bindRef c r t = (p, t') \<Longrightarrow> since b t'"
  by (auto simp: bindRef_def Let_def since_bind_block split: if_splits)

lemma since_define: "since b t \<Longrightarrow> tables_define op t = (p, t') \<Longrightarrow> since b t'"
proof -
  assume s: "since b t" and d: "tables_define op t = (p, t')"
  obtain q cs where t: "table_define op (classes t) = (q, cs)" by fastforce
  obtain es where cs: "cs = classes t @ es" using table_define_prefix [OF t] by auto
  have s': "since b (t\<lparr>classes := cs, layouts := layouts t @ ls\<rparr>)" "since b (t\<lparr>classes := cs\<rparr>)" for ls
    using s cs by (auto simp: since_def)
  show ?thesis using d t since_bind_block [OF s'(1)] s'
    by (auto simp: tables_define_def Let_def split: option.splits if_splits)
qed

section \<open>Layouts follow classes\<close>

lemma bind_collections_frame [simp]:
  "classes (bind_collections n tys t) = classes t" "layouts (bind_collections n tys t) = layouts t"
  "classMark (bind_collections n tys t) = classMark t"
  by (induction n tys t rule: bind_collections.induct) (simp_all add: set_target_def)

lemma bind_block_frame [simp]:
  "classes (bind_block r l t) = classes t" "layouts (bind_block r l t) = layouts t"
  "classMark (bind_block r l t) = classMark t"
  by (simp_all add: bind_block_def set_target_def)

lemma parse_types_all: "parse_types ts \<noteq> None \<longleftrightarrow> list_all (\<lambda>t. parseFieldType t \<noteq> None) ts"
  by (induction ts) (auto split: option.splits)

lemma parse_types_ok: "parse_types ts = Some ps \<Longrightarrow> list_all parsed_ok ps"
  by (induction ts arbitrary: ps) (auto split: option.splits dest: parseFieldType_SomeD)

lemma bindRef_ok: "tables_ok t \<Longrightarrow> bindRef c r t = (p, t') \<Longrightarrow> tables_ok t'"
  by (auto simp: bindRef_def Let_def tables_ok_def split: if_splits)

lemma tables_define_ok:
  assumes "tables_ok t" "isWireOp (JArr op)" "is_lit (arg op 0) 4" "tables_define op t = (p, t')"
  shows "tables_ok t'"
proof -
  obtain q cs where d: "table_define op (classes t) = (q, cs)" by fastforce
  have "layoutOf (strings_of (arg op 4)) \<noteq> None"
    using define_shape [OF assms(2,3)] parse_types_all
    by (metis (no_types, lifting) layoutOf_def option.case_eq_if option.distinct(1) strings_of.simps(1))
  then show ?thesis using assms(1,4) d table_define_prefix [OF d]
    by (auto simp: tables_define_def Let_def tables_ok_def table_size_def split: option.splits if_splits)
qed

lemma rollback_ok: "since b t \<Longrightarrow> tables_ok (rollback t)"
  by (auto simp: since_def tables_ok_def rollback_def table_truncate_def)

text \<open>The targets a bound block defines: the instance, its collections right behind it.\<close>

lemma bind_collections_targets:
  "targets (bind_collections n tys t) r =
     (if n \<le> r \<and> r < n + length tys then Some (TCollection (tys ! (r - n))) else targets t r)"
proof (induction n tys t rule: bind_collections.induct)
  case (2 nxt ty tys t)
  then show ?case by (cases "r = nxt") (auto simp: set_target_def nth_Cons')
qed auto

lemma bind_block_targets:
  "targets (bind_block ref l t) r =
     (if r = ref then Some (TInstance l)
      else if ref < r \<and> r \<le> ref + length (lcollections l) then Some (TCollection (lcollections l ! (r - ref - 1)))
      else targets t r)"
  by (auto simp: bind_block_def bind_collections_targets set_target_def)

end
