(* ===== verification/SchemaOps.thy ===== *)
theory SchemaOps
  imports SchemaTables
begin

unbundle bit_operations_syntax

text \<open>
  State ops in the \<open>schema\<close> codec (\<open>serializer/schema-codec.ts\<close>, lines 161--662):
  scalars, refs, the op encoder and decoder with their shared \<open>last\<close> target, and the
  session. Encoder operations thread the writer and the tables and return a failure message or
  the ref they carried; decoder operations thread the tables and the reader and return nothing
  when they failed.
\<close>

section \<open>Scalars\<close>

fun writeInt :: "IntKind \<Rightarrow> int \<Rightarrow> bytewriter \<Rightarrow> bytewriter" where
  "writeInt Int8 v w = put_u8 (nat (v mod 256)) w"
| "writeInt Uint8 v w = put_u8 (nat (v mod 256)) w"
| "writeInt Int16 v w = put_zigzag v w"
| "writeInt Int32 v w = put_zigzag v w"
| "writeInt Uint16 v w = put_varint (nat v) w"
| "writeInt Uint32 v w = put_varint (nat v) w"

definition writeScalar :: "jsstring \<Rightarrow> jsval \<Rightarrow> bytewriter \<Rightarrow> message option \<times> bytewriter" where
  "writeScalar type v w =
     (if type = js ''float64'' then
        (case v of JNum n \<Rightarrow> (None, put_float64 n w) | _ \<Rightarrow> (Some (Msg ''float64: not a number'' []), w))
      else if type = js ''float32'' then
        (case v of JNum n \<Rightarrow> (None, put_float32 n w) | _ \<Rightarrow> (Some (Msg ''float32: not a number'' []), w))
      else if type = js ''string'' then
        (case v of JStr s \<Rightarrow> (None, put_string s w) | _ \<Rightarrow> (Some (Msg ''string: not a string'' []), w))
      else if type = js ''bool'' then
        (case v of JBool b \<Rightarrow> (None, put_u8 (if b then 1 else 0) w) | _ \<Rightarrow> (Some (Msg ''bool: not a boolean'' []), w))
      else if startsWith type (js ''fixed:'') then
        (if \<not> isIntOf v Int32 then (Some (Msg ''{}: not an int32'' [JStr type]), w)
         else (None, put_zigzag (int_of_num (the_num v)) w))
      else case isIntKind type of
             Some k \<Rightarrow> (if \<not> isIntOf v k then (Some (Msg ''{}: out of range'' [JStr type]), w)
                        else (None, writeInt k (int_of_num (the_num v)) w))
           | None \<Rightarrow> (Some (Msg ''unknown type {}'' [JStr type]), w))"

text \<open>\<open>(byte << 24) >> 24\<close>.\<close>

definition sign_extend8 :: "nat \<Rightarrow> int" where
  "sign_extend8 b = sint (signed_drop_bit 24 (push_bit 24 (word_of_nat b :: 32 word)))"

definition readInt :: "IntKind \<Rightarrow> bytereader \<Rightarrow> jsval \<times> bytereader" where
  "readInt kind r =
     (let (v, r) = (case kind of
             Int8 \<Rightarrow> (case get_u8 r of (b, r) \<Rightarrow> (sign_extend8 b, r))
           | Uint8 \<Rightarrow> (case get_u8 r of (b, r) \<Rightarrow> (int b, r))
           | Int16 \<Rightarrow> get_zigzag r
           | Int32 \<Rightarrow> get_zigzag r
           | _ \<Rightarrow> (case get_varint r of (n, r) \<Rightarrow> (int n, r)));
          value' = JNum (num_of_int v)
      in (value', if \<not> isIntOf value' kind then fail (Msg ''{} out of range: {}'' [JStr (int_kind_name kind), value']) r else r))"

definition readBool :: "bytereader \<Rightarrow> jsval \<times> bytereader" where
  "readBool r =
     (case get_u8 r of (b, r) \<Rightarrow>
       (JBool (b = 1), if 1 < b then fail (Msg ''bool byte {}'' [nat_val b]) r else r))"

definition readScalar :: "jsstring \<Rightarrow> bytereader \<Rightarrow> jsval \<times> bytereader" where
  "readScalar type r =
     (if type = js ''float64'' then (case get_float64 r of (x, r) \<Rightarrow> (JNum x, r))
      else if type = js ''float32'' then (case get_float32 r of (x, r) \<Rightarrow> (JNum x, r))
      else if type = js ''string'' then (case get_string r of (s, r) \<Rightarrow> (JStr s, r))
      else if type = js ''bool'' then readBool r
      else if startsWith type (js ''fixed:'') then (case get_zigzag r of (v, r) \<Rightarrow> (JNum (num_of_int v), r))
      else case isIntKind type of
             Some k \<Rightarrow> readInt k r
           | None \<Rightarrow> (JNum (JFin 0), fail (Msg ''unknown type {}'' [JStr type]) r))"

section \<open>The encoder\<close>

definition HEADER_S :: nat where "HEADER_S = 0x10"
definition F_ESCAPE :: nat where "F_ESCAPE = 15"

type_synonym 'a enc = "(message + 'a) \<times> bytewriter \<times> Tables"

definition encodeRef :: "jsval \<Rightarrow> bytewriter \<Rightarrow> Tables \<Rightarrow> nat option enc" where
  "encodeRef v w t =
     (if \<not> isWireRef v then (Inl (Msg ''expected a ref [classId, refId]'' []), w, t)
      else let cid = uint_of (arg (op_args v) 0); ref = uint_of (arg (op_args v) 1)
           in case bindRef cid ref t of
                (Some problem, t) \<Rightarrow> (Inl problem, w, t)
              | (None, t) \<Rightarrow> (Inr (Some ref), put_varint ref (put_varint cid w), t))"

definition encodeScalar :: "jsstring \<Rightarrow> jsval \<Rightarrow> bytewriter \<Rightarrow> Tables \<Rightarrow> nat option enc" where
  "encodeScalar type v w t =
     (case writeScalar type v w of (Some m, w) \<Rightarrow> (Inl m, w, t) | (None, w) \<Rightarrow> (Inr None, w, t))"

fun encodeValue :: "ParsedFieldType \<Rightarrow> jsval \<Rightarrow> bytewriter \<Rightarrow> Tables \<Rightarrow> nat option enc" where
  "encodeValue (PSchema _) v w t = encodeRef v w t"
| "encodeValue (PPrimitive type) v w t = encodeScalar type v w t"
| "encodeValue (PInt type) v w t = encodeScalar type v w t"
| "encodeValue _ v w t = (Inl (Msg ''a collection field has no value'' []), w, t)"

fun encodeElement :: "ParsedFieldType \<Rightarrow> jsval \<Rightarrow> bytewriter \<Rightarrow> Tables \<Rightarrow> nat option enc" where
  "encodeElement (PMap _ el) v w t = encodeScalar el v w t"
| "encodeElement (PArray el) v w t = encodeScalar el v w t"
| "encodeElement (PSet el) v w t = encodeScalar el v w t"
| "encodeElement (PSchemaMap _ _) v w t = encodeRef v w t"
| "encodeElement (PSchemaSet _) v w t = encodeRef v w t"
| "encodeElement (PSchemaArray _) v w t = encodeRef v w t"
| "encodeElement _ v w t = (Inl (Msg ''not a collection'' []), w, t)"

definition encodeIndex :: "jsval \<Rightarrow> bytewriter \<Rightarrow> message option \<times> bytewriter" where
  "encodeIndex index w =
     (if \<not> isUint32 index then (Some (Msg ''index must be a uint32'' []), w)
      else (None, put_varint (uint_of index) w))"

fun keyType :: "ParsedFieldType \<Rightarrow> jsstring option" where
  "keyType (PMap k _) = Some k"
| "keyType (PSchemaMap k _) = Some k"
| "keyType _ = None"

fun isArray :: "ParsedFieldType \<Rightarrow> bool" where
  "isArray (PArray _) = True"
| "isArray (PSchemaArray _) = True"
| "isArray _ = False"

fun isSet :: "ParsedFieldType \<Rightarrow> bool" where
  "isSet (PSet _) = True"
| "isSet (PSchemaSet _) = True"
| "isSet _ = False"

definition encode_key :: "jsstring option \<Rightarrow> jsval \<Rightarrow> bytewriter \<Rightarrow> message option \<times> bytewriter" where
  "encode_key key v w = (case key of None \<Rightarrow> encodeIndex v w | Some k \<Rightarrow> writeScalar k v w)"

fun put_fields :: "jsstring list \<Rightarrow> jsstring list \<Rightarrow> bytewriter \<Rightarrow> bytewriter" where
  "put_fields [] types w = w"
| "put_fields (f # fs) types w =
     put_fields fs (tl types) (put_string (case types of [] \<Rightarrow> [] | t # _ \<Rightarrow> t) (put_string f w))"

definition encodeDefine :: "jsval list \<Rightarrow> bytewriter \<Rightarrow> Tables \<Rightarrow> unit enc" where
  "encodeDefine op w t =
     (if \<not> isWireOp (JArr op) \<or> \<not> is_lit (arg op 0) 4 then (Inl (Msg ''malformed DEFINE'' []), w, t)
      else case tables_define op t of
             (Some problem, t) \<Rightarrow> (Inl problem, w, t)
           | (None, t) \<Rightarrow>
               let fields = strings_of (arg op 3); types = strings_of (arg op 4);
                   w = put_u8 0x80 w;
                   w = put_varint (uint_of (arg op 1)) w;
                   w = put_string (the_string (arg op 2)) w;
                   w = put_varint (length fields) w
               in (Inr (), put_fields fields types w, t))"

definition encode_payload ::
  "jsval list \<Rightarrow> Target \<Rightarrow> nat option \<Rightarrow> bytewriter \<Rightarrow> Tables \<Rightarrow> nat option enc" where
  "encode_payload op target field w t =
     (case target of
        TInstance layout \<Rightarrow>
          if \<not> is_lit (arg op 0) 0 \<or> length op \<noteq> 4 then
            (Inl (Msg ''op {} on a schema instance'' [arg op 0]), w, t)
          else (case field of
              Some i \<Rightarrow>
                if i < length (ltypes layout) then encodeValue (ltypes layout ! i) (arg op 3) w t
                else (Inl (Msg ''field {} out of range'' [nat_val i]), w, t)
            | None \<Rightarrow> (Inl (Msg ''field {} out of range'' [JNum (num_of_int (-1))]), w, t))
      | TCollection type \<Rightarrow>
          if is_lit (arg op 0) 0 then
            (if \<not> isArray type \<or> length op \<noteq> 4 then (Inl (Msg ''SET on a collection that isn't an array'' []), w, t)
             else case encodeIndex (arg op 2) w of
                    (Some bad, w) \<Rightarrow> (Inl bad, w, t)
                  | (None, w) \<Rightarrow> encodeElement type (arg op 3) w t)
          else if is_lit (arg op 0) 1 then
            (if isSet type then
               (if length op \<noteq> 3 then (Inl (Msg ''set ADD takes 3 elements'' []), w, t)
                else encodeElement type (arg op 2) w t)
             else if length op \<noteq> 4 then (Inl (Msg ''ADD takes 4 elements'' []), w, t)
             else case encode_key (keyType type) (arg op 2) w of
                    (Some bad, w) \<Rightarrow> (Inl bad, w, t)
                  | (None, w) \<Rightarrow> encodeElement type (arg op 3) w t)
          else if is_lit (arg op 0) 2 then
            (if length op \<noteq> 3 then (Inl (Msg ''REMOVE takes 3 elements'' []), w, t)
             else case (case keyType type of
                          Some key \<Rightarrow> writeScalar key (arg op 2) w
                        | None \<Rightarrow>
                            if isArray type then encodeIndex (arg op 2) w
                            else case type of
                                   PSet el \<Rightarrow> writeScalar el (arg op 2) w
                                 | _ \<Rightarrow> encodeIndex (arg op 2) w) of
                    (Some bad, w) \<Rightarrow> (Inl bad, w, t)
                  | (None, w) \<Rightarrow> (Inr None, w, t))
          else if is_lit (arg op 0) 3 then
            (if length op = 2 then (Inr None, w, t) else (Inl (Msg ''CLEAR takes 2 elements'' []), w, t))
          else (Inl (Msg ''unknown op code {}'' [arg op 0]), w, t))"

record OpEncoder =
  eout :: bytewriter
  etables :: Tables
  elast :: nat

text \<open>Header F: a SET on an instance carries its field index.\<close>

definition header_field :: "jsval list \<Rightarrow> Target \<Rightarrow> message + nat option" where
  "header_field op target =
     (case target of
        TInstance layout \<Rightarrow>
          if \<not> is_lit (arg op 0) 0 then Inr None
          else if \<not> isUint32 (arg op 2) then Inl (Msg ''field index must be a uint32'' [])
          else if length (ltypes layout) \<le> uint_of (arg op 2) then Inl (Msg ''field {} out of range'' [arg op 2])
          else Inr (Some (uint_of (arg op 2)))
      | TCollection _ \<Rightarrow> Inr None)"

text \<open>\<open>typeof code !== "number" || code < 0 || code > 3\<close>, and \<open>code << 5\<close> of the others.\<close>

fun bad_code :: "jsval \<Rightarrow> bool" where
  "bad_code (JNum n) = (num_lt n (JFin 0) \<or> num_lt (JFin 3) n)"
| "bad_code _ = True"

definition code_bits :: "jsval \<Rightarrow> nat" where
  "code_bits code = push_bit 5 (nat (int_of_num (the_num code)))"

text \<open>The header byte with S and F, the target unless it is the last one, the escaped field.\<close>

definition encode_header :: "jsval \<Rightarrow> nat \<Rightarrow> nat \<Rightarrow> nat option \<Rightarrow> bytewriter \<Rightarrow> bytewriter" where
  "encode_header code ref lst field w =
     (let same = (if ref = lst then HEADER_S else 0);
          f = (case field of None \<Rightarrow> 0 | Some i \<Rightarrow> min i F_ESCAPE);
          w = put_u8 (code_bits code OR same OR f) w;
          w = (if same = 0 then put_varint ref w else w)
      in if f = F_ESCAPE then put_varint (the field - F_ESCAPE) w else w)"

definition encode_op :: "jsval list \<Rightarrow> OpEncoder \<Rightarrow> message option \<times> OpEncoder" where
  "encode_op op e =
     (if is_lit (arg op 0) 4 then
        (case encodeDefine op (eout e) (etables e) of
           (Inl m, w, t) \<Rightarrow> (Some m, e\<lparr>eout := w, etables := t\<rparr>)
         | (Inr _, w, t) \<Rightarrow> (None, e\<lparr>eout := w, etables := t\<rparr>))
      else if \<not> isUint32 (arg op 1) then (Some (Msg ''target must be a uint32 refId'' []), e)
      else let ref = uint_of (arg op 1)
           in case targets (etables e) ref of
                None \<Rightarrow> (Some (Msg ''unknown target refId {}'' [arg op 1]), e)
              | Some target \<Rightarrow>
                  (case header_field op target of
                     Inl m \<Rightarrow> (Some m, e)
                   | Inr field \<Rightarrow>
                       if bad_code (arg op 0) then (Some (Msg ''unknown op code {}'' [arg op 0]), e)
                       else let w = encode_header (arg op 0) ref (elast e) field (eout e)
                            in case encode_payload op target field w (etables e) of
                                 (Inl m, w, t) \<Rightarrow> (Some m, e\<lparr>eout := w, etables := t\<rparr>)
                               | (Inr carried, w, t) \<Rightarrow>
                                   (None, \<lparr>eout = w, etables = t,
                                           elast = (case carried of None \<Rightarrow> ref | Some r \<Rightarrow> r)\<rparr>)))"

section \<open>The decoder\<close>

text \<open>A decoder operation returns the value (nothing on failure) and the tables.\<close>

type_synonym 'a dec = "bytereader \<Rightarrow> 'a \<times> bytereader"

definition decode_ref :: "Tables \<Rightarrow> (jsval option \<times> Tables) dec" where
  "decode_ref t r =
     (case get_varint r of (cid, r) \<Rightarrow> case get_varint r of (ref, r) \<Rightarrow>
        if rerror r \<noteq> None then ((None, t), r)
        else case bindRef cid ref t of
               (Some problem, t) \<Rightarrow> ((None, t), fail problem r)
             | (None, t) \<Rightarrow> ((Some (JArr [nat_val cid, nat_val ref]), t), r))"

definition decode_scalar :: "jsstring \<Rightarrow> Tables \<Rightarrow> (jsval option \<times> Tables) dec" where
  "decode_scalar type t r =
     (case readScalar type r of (v, r) \<Rightarrow> ((if rerror r = None then Some v else None, t), r))"

fun decode_value :: "ParsedFieldType \<Rightarrow> Tables \<Rightarrow> (jsval option \<times> Tables) dec" where
  "decode_value (PSchema _) t r = decode_ref t r"
| "decode_value (PPrimitive type) t r = decode_scalar type t r"
| "decode_value (PInt type) t r = decode_scalar type t r"
| "decode_value _ t r = ((None, t), fail (Msg ''a collection field has no value'' []) r)"

fun decode_element :: "ParsedFieldType \<Rightarrow> Tables \<Rightarrow> (jsval option \<times> Tables) dec" where
  "decode_element (PMap _ el) t r = decode_scalar el t r"
| "decode_element (PArray el) t r = decode_scalar el t r"
| "decode_element (PSet el) t r = decode_scalar el t r"
| "decode_element (PSchemaMap _ _) t r = decode_ref t r"
| "decode_element (PSchemaSet _) t r = decode_ref t r"
| "decode_element (PSchemaArray _) t r = decode_ref t r"
| "decode_element _ t r = ((None, t), fail (Msg ''not a collection'' []) r)"

fun get_fields :: "nat \<Rightarrow> (jsstring \<times> jsstring) list dec" where
  "get_fields 0 r = ([], r)"
| "get_fields (Suc n) r =
     (if rerror r \<noteq> None then ([], r)
      else case get_string r of (f, r) \<Rightarrow> case get_string r of (t, r) \<Rightarrow>
           case get_fields n r of (fts, r) \<Rightarrow> ((f, t) # fts, r))"

definition decode_define :: "Tables \<Rightarrow> (jsval option \<times> Tables) dec" where
  "decode_define t r =
     (case get_varint r of (cid, r) \<Rightarrow> case get_string r of (name, r) \<Rightarrow> case get_count r of (count, r) \<Rightarrow>
      case get_fields count r of (fts, r) \<Rightarrow>
        if rerror r \<noteq> None then ((None, t), r)
        else let op = [nat_val 4, nat_val cid, JStr name, JArr (map (JStr \<circ> fst) fts), JArr (map (JStr \<circ> snd) fts)]
             in if \<not> isWireOp (JArr op) \<or> \<not> is_lit (arg op 0) 4 then
                  ((None, t), fail (Msg ''DEFINE {}: a type outside the grammar'' [nat_val cid]) r)
                else case tables_define op t of
                       (None, t) \<Rightarrow> ((Some (JArr op), t), r)
                     | (Some problem, t) \<Rightarrow> ((None, t), fail problem r))"

text \<open>\<open>_settle\<close>: the next op's default target.\<close>

fun settle :: "nat \<Rightarrow> jsval \<Rightarrow> nat" where
  "settle ref (JArr vs) = uint_of (arg vs 1)"
| "settle ref v = ref"

type_synonym dec_op = "jsval option \<times> Tables \<times> nat"

text \<open>The tail of every branch that carries a value.\<close>

definition finish :: "(jsval \<Rightarrow> jsval list) \<Rightarrow> nat \<Rightarrow> nat \<Rightarrow> jsval option \<times> Tables \<Rightarrow> dec_op" where
  "finish mk ref lst vt =
     (case vt of (None, t) \<Rightarrow> (None, t, lst) | (Some v, t) \<Rightarrow> (Some (JArr (mk v)), t, settle ref v))"

definition decode_key :: "jsstring option \<Rightarrow> jsval dec" where
  "decode_key key r =
     (case key of None \<Rightarrow> (case get_varint r of (n, r) \<Rightarrow> (nat_val n, r)) | Some k \<Rightarrow> readScalar k r)"

definition decode_collection_op :: "nat \<Rightarrow> nat \<Rightarrow> ParsedFieldType \<Rightarrow> Tables \<Rightarrow> nat \<Rightarrow> dec_op dec" where
  "decode_collection_op code ref type t lst r =
     (if code = 0 then
        (if \<not> isArray type then ((None, t, lst), fail (Msg ''SET on a non-array collection'' []) r)
         else case get_varint r of (index, r) \<Rightarrow>
              case decode_element type t r of (vt, r) \<Rightarrow>
                (finish (\<lambda>v. [nat_val 0, nat_val ref, nat_val index, v]) ref lst vt, r))
      else if code = 1 then
        (if isSet type then
           case decode_element type t r of (vt, r) \<Rightarrow> (finish (\<lambda>v. [nat_val 1, nat_val ref, v]) ref lst vt, r)
         else case decode_key (keyType type) r of (index, r) \<Rightarrow>
              case decode_element type t r of (vt, r) \<Rightarrow>
                (finish (\<lambda>v. [nat_val 1, nat_val ref, index, v]) ref lst vt, r))
      else if code = 2 then
        (case (case keyType type of
                 Some key \<Rightarrow> readScalar key r
               | None \<Rightarrow> (case type of
                            PSet el \<Rightarrow> readScalar el r
                          | _ \<Rightarrow> (case get_varint r of (n, r) \<Rightarrow> (nat_val n, r)))) of
           (removed, r) \<Rightarrow>
             if rerror r \<noteq> None then ((None, t, lst), r)
             else ((Some (JArr [nat_val 2, nat_val ref, removed]), t, ref), r))
      else ((Some (JArr [nat_val 3, nat_val ref]), t, ref), r))"

text \<open>\<open>op()\<close> after its header byte: \<open>header >> 5\<close>, bit S and the four bits F.\<close>

definition decode_instance_op :: "nat \<Rightarrow> nat \<Rightarrow> nat \<Rightarrow> ClassLayout \<Rightarrow> Tables \<Rightarrow> nat \<Rightarrow> dec_op dec" where
  "decode_instance_op code f ref layout t lst r =
     (if code \<noteq> 0 then ((None, t, lst), fail (Msg ''op {} on a schema instance'' [nat_val code]) r)
      else case (if f = F_ESCAPE then (case get_varint r of (n, r) \<Rightarrow> (F_ESCAPE + n, r)) else (f, r)) of (field, r) \<Rightarrow>
        if length (ltypes layout) \<le> field then
          ((None, t, lst), fail (Msg ''field {} out of range'' [nat_val field]) r)
        else case decode_value (ltypes layout ! field) t r of (vt, r) \<Rightarrow>
          (finish (\<lambda>v. [nat_val 0, nat_val ref, nat_val field, v]) ref lst vt, r))"

definition decode_op_after :: "nat \<Rightarrow> Tables \<Rightarrow> nat \<Rightarrow> dec_op dec" where
  "decode_op_after header t lst r =
     (let code = drop_bit 5 header; same = (header AND HEADER_S \<noteq> 0); f = header AND 0x0f
      in if code = 4 then
           (if same \<or> f \<noteq> 0 then ((None, t, lst), fail (Msg ''DEFINE with S or F set'' []) r)
            else case decode_define t r of ((v, t), r) \<Rightarrow> ((v, t, lst), r))
         else if 4 < code then ((None, t, lst), fail (Msg ''unknown op code {}'' [nat_val code]) r)
         else case (if same then (lst, r) else get_varint r) of (ref, r) \<Rightarrow>
           if rerror r \<noteq> None then ((None, t, lst), r)
           else case targets t ref of
                  None \<Rightarrow> ((None, t, lst), fail (Msg ''unknown target refId {}'' [nat_val ref]) r)
                | Some (TInstance layout) \<Rightarrow> decode_instance_op code f ref layout t lst r
                | Some (TCollection type) \<Rightarrow>
                    if f \<noteq> 0 then ((None, t, lst), fail (Msg ''F must be 0 on a collection op'' []) r)
                    else decode_collection_op code ref type t lst r)"

definition decode_op :: "Tables \<Rightarrow> nat \<Rightarrow> dec_op dec" where
  "decode_op t lst r = (case get_u8 r of (header, r) \<Rightarrow> decode_op_after header t lst r)"

section \<open>The session\<close>

fun encode_all :: "nat \<Rightarrow> jsval list \<Rightarrow> OpEncoder \<Rightarrow> message option \<times> OpEncoder" where
  "encode_all i [] e = (None, e)"
| "encode_all i (op # ops) e =
     (case (case op of JArr vs \<Rightarrow> encode_op vs e | _ \<Rightarrow> (Some (Msg ''not an op'' []), e)) of
        (Some (Msg m vs), e) \<Rightarrow> (Some (Msg (''op #{}: '' @ m) (nat_val i # vs)), e)
      | (None, e) \<Rightarrow> encode_all (Suc i) ops e)"

record SchemaSession =
  stables :: Tables
  sout :: bytewriter

definition new_session :: SchemaSession where
  "new_session = \<lparr>stables = new_tables, sout = new_writer\<rparr>"

definition encodeOps :: "jsval list \<Rightarrow> SchemaSession \<Rightarrow> (SerializerError + byte list) \<times> SchemaSession" where
  "encodeOps ops s =
     (case encode_all 0 ops \<lparr>eout = reset (sout s), etables = tables_begin (stables s), elast = 0\<rparr> of
        (Some m, e) \<Rightarrow>
          (Inl (SerializerError ENCODE_FAILED m), \<lparr>stables = rollback (etables e), sout = eout e\<rparr>)
      | (None, e) \<Rightarrow> (Inr (toBytes (eout e)), \<lparr>stables = etables e, sout = eout e\<rparr>))"

definition getTable :: "SchemaSession \<Rightarrow> SchemaClassEntry list" where
  "getTable s = toTable (classes (stables s))"

end
