(* ===== verification/SchemaSession.thy ===== *)
theory SchemaSession
  imports SchemaOps
begin

unbundle bit_operations_syntax

text \<open>
  The decoding half of a \<open>schema\<close> session. A reader only moves forward, stays within its
  bytes and keeps its first error (\<open>later\<close>); every decoder operation obeys this, and an op
  consumes at least its header byte, so the loop of \<open>decodeOps\<close> ends on every input. A
  failed frame, encoded or decoded, leaves the tables of the session exactly as they were.
\<close>

section \<open>Readers only move forward\<close>

definition later :: "bytereader \<Rightarrow> bytereader \<Rightarrow> bool" where
  "later r r' = (rbytes r' = rbytes r \<and> (rerror r \<noteq> None \<longrightarrow> rerror r' = rerror r)
     \<and> (rpos r \<le> length (rbytes r) \<longrightarrow> rpos r \<le> rpos r' \<and> rpos r' \<le> length (rbytes r)))"

lemma later_refl [simp]: "later r r"
  by (simp add: later_def)

lemma later_trans [trans]: "later a b \<Longrightarrow> later b c \<Longrightarrow> later a c"
  by (auto simp: later_def)

lemma later_fail: "later r (fail m r)"
  by (auto simp: later_def fail_def)

lemma later_fail_trans: "later a b \<Longrightarrow> later a (fail m b)"
  using later_fail later_trans by blast

lemma later_step: "n \<le> remaining r \<Longrightarrow> rpos r \<le> length (rbytes r) \<or> n = 0 \<Longrightarrow> later r (r\<lparr>rpos := rpos r + n\<rparr>)"
  by (auto simp: later_def remaining_def)

text \<open>A reader operation that only moves forward.\<close>

definition moves :: "(bytereader \<Rightarrow> 'a \<times> bytereader) \<Rightarrow> bool" where
  "moves g = (\<forall>r. later r (snd (g r)))"

named_theorems moves_intro \<open>reader operations that only move forward\<close>

lemma movesD: "moves g \<Longrightarrow> g r = (v, r') \<Longrightarrow> later r r'"
  by (metis moves_def snd_conv)

lemma moves_return [moves_intro]: "moves (\<lambda>r. (v r, r))"
  by (simp add: moves_def)

lemma moves_fail [moves_intro]: "moves (\<lambda>r. (v r, fail (m r) r))"
  by (simp add: moves_def later_fail)

lemma moves_bind [moves_intro]:
  "moves g \<Longrightarrow> (\<And>v. moves (h v)) \<Longrightarrow> moves (\<lambda>r. case g r of (v, r) \<Rightarrow> h v r)"
  by (auto simp: moves_def split: prod.split) (metis later_trans snd_conv)

lemma moves_if [moves_intro]: "moves f \<Longrightarrow> moves g \<Longrightarrow> moves (\<lambda>r. if P r then f r else g r)"
  by (simp add: moves_def)

lemma moves_option [moves_intro]:
  "moves f \<Longrightarrow> (\<And>x. moves (g x)) \<Longrightarrow> moves (\<lambda>r. case x r of None \<Rightarrow> f r | Some y \<Rightarrow> g y r)"
  by (simp add: moves_def split: option.split)

lemma moves_prod: "(\<And>a b. moves (f a b)) \<Longrightarrow> moves (\<lambda>r. case p of (a, b) \<Rightarrow> f a b r)"
  by (cases p) simp

lemma moves_end: "moves g \<Longrightarrow> moves (\<lambda>r. case g r of (v, r) \<Rightarrow> (f v r, if P v r then fail (m v r) r else r))"
  by (auto simp: moves_def later_fail_trans split: prod.split) (metis snd_conv later_fail_trans)+

lemma moves_u8 [moves_intro]: "moves get_u8"
  by (auto simp: moves_def get_u8_def later_fail) (simp add: later_def)

lemma u8_advances: "get_u8 r = (b, r') \<Longrightarrow> \<not> done_reading r \<Longrightarrow> rpos r < rpos r'"
  by (auto simp: get_u8_def done_reading_def split: if_splits)

lemma moves_varint_loop: "later r (snd (get_varint_loop n v sc r))"
proof (induction n arbitrary: v sc r)
  case (Suc n)
  have one: "rpos r < length (rbytes r) \<Longrightarrow> later r (r\<lparr>rpos := rpos r + 1\<rparr>)" by (simp add: later_def)
  show ?case
    using later_trans [OF one Suc.IH] later_fail_trans [OF one] one
    by (auto simp: Let_def later_fail)
qed (simp add: later_fail)

lemma moves_varint [moves_intro]: "moves get_varint"
  by (simp add: moves_def get_varint_def moves_varint_loop)

lemma moves_count [moves_intro]: "moves get_count"
  unfolding get_count_def [abs_def] Let_def by (intro moves_intro)

lemma moves_zigzag [moves_intro]: "moves get_zigzag"
  unfolding get_zigzag_def [abs_def] Let_def by (intro moves_intro)

lemma moves_float64 [moves_intro]: "moves get_float64"
  by (auto simp: moves_def get_float64_def later_fail remaining_def) (auto simp: later_def)

lemma moves_float32 [moves_intro]: "moves get_float32"
  by (auto simp: moves_def get_float32_def later_fail remaining_def) (auto simp: later_def)

lemma count_le_remaining: "get_count r = (n, r') \<Longrightarrow> n \<le> remaining r'"
  by (auto simp: get_count_def split: prod.splits if_splits)

lemma moves_string [moves_intro]: "moves get_string"
proof -
  have "later r r'" if s: "get_string r = (s, r')" for r s r'
  proof -
    obtain n q where c: "get_count r = (n, q)" by fastforce
    note q = movesD [OF moves_count c]
    show ?thesis
    proof (cases "rpos q \<le> length (rbytes q)")
      case True
      from later_trans [OF q later_step [of n q]] count_le_remaining [OF c] True s c q later_fail_trans [OF q]
      show ?thesis by (auto simp: get_string_def split: if_splits option.splits)
    next
      case False
      with count_le_remaining [OF c] have "n = 0" by (simp add: remaining_def)
      with s c q later_fail_trans [OF q] show ?thesis by (auto simp: get_string_def split: if_splits option.splits)
    qed
  qed
  then show ?thesis by (metis moves_def prod.collapse)
qed

lemma moves_readInt [moves_intro]: "moves (readInt k)"
  unfolding readInt_def [abs_def] Let_def
  by (intro moves_end; cases k; simp; intro moves_intro)

lemma moves_readBool [moves_intro]: "moves readBool"
  unfolding readBool_def [abs_def] by (intro moves_end moves_u8)

lemma moves_readScalar [moves_intro]: "moves (readScalar ty)"
  unfolding readScalar_def [abs_def] by (intro moves_intro)

lemma moves_decode_ref [moves_intro]: "moves (decode_ref t)"
  unfolding decode_ref_def [abs_def] by (intro moves_intro moves_prod)

lemma moves_decode_scalar [moves_intro]: "moves (decode_scalar ty t)"
  unfolding decode_scalar_def [abs_def] by (intro moves_intro)

lemma moves_decode_value [moves_intro]: "moves (decode_value ty t)"
proof -
  have "later r (snd (decode_value ty t r))" for r
    using moves_decode_ref moves_decode_scalar by (cases ty) (simp_all add: moves_def later_fail)
  then show ?thesis by (simp add: moves_def)
qed

lemma moves_decode_element [moves_intro]: "moves (decode_element ty t)"
proof -
  have "later r (snd (decode_element ty t r))" for r
    using moves_decode_ref moves_decode_scalar by (cases ty) (simp_all add: moves_def later_fail)
  then show ?thesis by (simp add: moves_def)
qed

lemma moves_get_fields [moves_intro]: "moves (get_fields n)"
proof (induction n)
  case 0
  show ?case by (simp add: moves_def)
next
  case (Suc n)
  have "get_fields (Suc n) = (\<lambda>r. if rerror r \<noteq> None then ([], r)
      else case get_string r of (f, r) \<Rightarrow> case get_string r of (t, r) \<Rightarrow>
           case get_fields n r of (fts, r) \<Rightarrow> ((f, t) # fts, r))" by (rule ext) simp
  then show ?case using Suc by (simp only:) (intro moves_intro)
qed

lemma moves_decode_define [moves_intro]: "moves (decode_define t)"
  unfolding decode_define_def [abs_def] Let_def by (intro moves_intro moves_prod)

lemma moves_decode_key [moves_intro]: "moves (decode_key k)"
  unfolding decode_key_def [abs_def] by (intro moves_intro)

lemma moves_decode_removed:
  "moves (\<lambda>r. case keyType ty of
      Some key \<Rightarrow> readScalar key r
    | None \<Rightarrow> (case ty of PSet el \<Rightarrow> readScalar el r | _ \<Rightarrow> (case get_varint r of (n, r) \<Rightarrow> (nat_val n, r))))"
  by (cases ty; simp; intro moves_intro)

lemma moves_decode_collection_op [moves_intro]: "moves (decode_collection_op c ref ty t lst)"
  unfolding decode_collection_op_def [abs_def] by (intro moves_intro moves_decode_removed)

lemma moves_target [moves_intro]:
  "moves f \<Longrightarrow> (\<And>l. moves (g l)) \<Longrightarrow> (\<And>ty. moves (h ty)) \<Longrightarrow>
   moves (\<lambda>r. case x of None \<Rightarrow> f r | Some (TInstance l) \<Rightarrow> g l r | Some (TCollection ty) \<Rightarrow> h ty r)"
  by (simp add: moves_def split: option.split Target.split)

lemma moves_decode_instance_op [moves_intro]: "moves (decode_instance_op c f ref l t lst)"
  unfolding decode_instance_op_def [abs_def] by (intro moves_intro)

lemma moves_decode_op_after [moves_intro]: "moves (decode_op_after h t lst)"
  unfolding decode_op_after_def [abs_def] Let_def by (intro moves_intro moves_prod)

lemma moves_decode_op [moves_intro]: "moves (decode_op t lst)"
  unfolding decode_op_def [abs_def] by (intro moves_intro)

text \<open>An op that starts before the end consumes at least its header byte.\<close>

lemma decode_op_advances:
  assumes "decode_op t lst r = (v, r')" "\<not> done_reading r"
  shows "rbytes r' = rbytes r" "rpos r < rpos r'"
proof -
  obtain h q where h: "get_u8 r = (h, q)" by fastforce
  then have a: "decode_op_after h t lst q = (v, r')" using assms by (simp add: decode_op_def)
  have l: "later r q" "later q r'" using movesD [OF moves_u8 h] movesD [OF moves_decode_op_after a] by auto
  have "rpos r \<le> length (rbytes r)" using assms(2) by (simp add: done_reading_def)
  then show "rbytes r' = rbytes r" "rpos r < rpos r'"
    using l u8_advances [OF h assms(2)] by (auto simp: later_def)
qed

section \<open>Decoding a frame\<close>

text \<open>The \<open>while\<close> loop of \<open>decodeOps\<close>; it returns the ops pushed so far.\<close>

function decode_loop :: "Tables \<Rightarrow> nat \<Rightarrow> bytereader \<Rightarrow> jsval list \<times> Tables \<times> bytereader" where
  "decode_loop t lst r =
     (if done_reading r then ([], t, r)
      else case decode_op t lst r of
             ((None, t', lst'), r') \<Rightarrow> ([], t', r')
           | ((Some op, t', lst'), r') \<Rightarrow>
               if rerror r' \<noteq> None then ([], t', r')
               else case decode_loop t' lst' r' of (ops, t'', r'') \<Rightarrow> (op # ops, t'', r''))"
  by pat_completeness auto
termination
proof (relation "measure (\<lambda>(t, lst, r). length (rbytes r) - rpos r)", simp, goal_cases)
  case (1 t lst r x r' x1 y op t' lst')
  then have "rbytes r' = rbytes r" "rpos r < rpos r'" using decode_op_advances [of t lst r x r'] by auto
  with 1 show ?case by (auto simp: done_reading_def)
qed

declare decode_loop.simps [simp del]

definition decodeOps :: "byte list \<Rightarrow> SchemaSession \<Rightarrow> (SerializerError + jsval list) \<times> SchemaSession" where
  "decodeOps data s =
     (case decode_loop (tables_begin (stables s)) 0 (new_reader data) of
        (ops, t, r) \<Rightarrow>
          (case rerror r of
             Some (Msg m vs, pos) \<Rightarrow>
               (Inl (SerializerError DECODE_FAILED
                  (Msg (''op #{}: '' @ m @ '' (at byte {})'') (nat_val (length ops) # vs @ [nat_val pos]))),
                s\<lparr>stables := rollback t\<rparr>)
           | None \<Rightarrow> (Inr ops, s\<lparr>stables := t\<rparr>)))"

section \<open>A failed frame changes nothing\<close>

text \<open>What every step inside a frame keeps: the journal reaches back to \<open>b\<close>, and layouts
  follow classes.\<close>

definition frame_inv :: "Tables \<Rightarrow> Tables \<Rightarrow> bool" where
  "frame_inv b t = (since b t \<and> tables_ok t)"

lemma frame_inv_begin: "tables_ok t \<Longrightarrow> frame_inv t (tables_begin t)"
  by (simp add: frame_inv_def since_begin) (simp add: tables_ok_def tables_begin_def)

lemma frame_inv_bindRef: "frame_inv b t \<Longrightarrow> bindRef c r t = (p, t') \<Longrightarrow> frame_inv b t'"
  using since_bindRef bindRef_ok by (auto simp: frame_inv_def)

lemma frame_inv_define:
  "frame_inv b t \<Longrightarrow> isWireOp (JArr op) \<Longrightarrow> is_lit (arg op 0) 4 \<Longrightarrow> tables_define op t = (p, t') \<Longrightarrow> frame_inv b t'"
  unfolding frame_inv_def using since_define tables_define_ok by blast

lemma frame_inv_encodeRef: "frame_inv b t \<Longrightarrow> encodeRef v w t = (x, w', t') \<Longrightarrow> frame_inv b t'"
  by (auto simp: encodeRef_def Let_def dest: frame_inv_bindRef split: if_splits prod.splits option.splits)

lemma frame_inv_encodeScalar: "frame_inv b t \<Longrightarrow> encodeScalar ty v w t = (x, w', t') \<Longrightarrow> frame_inv b t'"
  by (auto simp: encodeScalar_def split: prod.splits option.splits)

lemma frame_inv_encodeValue: "frame_inv b t \<Longrightarrow> encodeValue ty v w t = (x, w', t') \<Longrightarrow> frame_inv b t'"
  by (cases ty) (auto dest: frame_inv_encodeRef frame_inv_encodeScalar)

lemma frame_inv_encodeElement: "frame_inv b t \<Longrightarrow> encodeElement ty v w t = (x, w', t') \<Longrightarrow> frame_inv b t'"
  by (cases ty) (auto dest: frame_inv_encodeRef frame_inv_encodeScalar)

lemma frame_inv_encodeDefine: "frame_inv b t \<Longrightarrow> encodeDefine op w t = (x, w', t') \<Longrightarrow> frame_inv b t'"
  by (auto simp: encodeDefine_def Let_def simp del: isWireOp.simps
      dest: frame_inv_define split: if_splits prod.splits option.splits)

lemma frame_inv_payload: "frame_inv b t \<Longrightarrow> encode_payload op tg f w t = (x, w', t') \<Longrightarrow> frame_inv b t'"
  unfolding encode_payload_def
  by (cases tg) (auto dest: frame_inv_encodeElement frame_inv_encodeValue
      split: if_splits prod.splits option.splits)

lemma frame_inv_encode_op:
  assumes "frame_inv b (etables e)" "encode_op op e = (p, e')"
  shows "frame_inv b (etables e')"
proof -
  obtain x w t where d: "encodeDefine op (eout e) (etables e) = (x, w, t)" using prod_cases3 by blast
  have p: "frame_inv b t'" if "encode_payload op tg f w (etables e) = (y, w', t')" for tg f w y w' t'
    using frame_inv_payload [OF assms(1) that] .
  show ?thesis
    using assms d frame_inv_encodeDefine [OF assms(1) d]
    unfolding encode_op_def by (auto simp: Let_def dest: p split: if_splits option.splits sum.splits prod.splits)
qed

lemma frame_inv_encode_all:
  "frame_inv b (etables e) \<Longrightarrow> encode_all i ops e = (p, e') \<Longrightarrow> frame_inv b (etables e')"
proof (induction i ops e rule: encode_all.induct)
  case (2 i op ops e)
  obtain q e1 where q: "(case op of JArr vs \<Rightarrow> encode_op vs e | _ \<Rightarrow> (Some (Msg ''not an op'' []), e)) = (q, e1)"
    by fastforce
  have e1: "frame_inv b (etables e1)"
    using q "2.prems"(1) frame_inv_encode_op by (cases op) auto
  show ?case
  proof (cases q)
    case None
    with 2 q e1 show ?thesis by simp
  next
    case (Some m)
    with 2 q e1 show ?thesis by (cases m) simp
  qed
qed simp

text \<open>The decoder side, on the tables a decoder operation returns.\<close>

lemma frame_inv_decode_ref: "frame_inv b t \<Longrightarrow> decode_ref t r = ((v, t'), r') \<Longrightarrow> frame_inv b t'"
  by (auto simp: decode_ref_def dest: frame_inv_bindRef split: prod.splits if_splits option.splits)

lemma frame_inv_decode_scalar: "frame_inv b t \<Longrightarrow> decode_scalar ty t r = ((v, t'), r') \<Longrightarrow> frame_inv b t'"
  by (auto simp: decode_scalar_def split: prod.splits)

lemma frame_inv_decode_value: "frame_inv b t \<Longrightarrow> decode_value ty t r = ((v, t'), r') \<Longrightarrow> frame_inv b t'"
  by (cases ty) (auto dest: frame_inv_decode_ref frame_inv_decode_scalar)

lemma frame_inv_decode_element: "frame_inv b t \<Longrightarrow> decode_element ty t r = ((v, t'), r') \<Longrightarrow> frame_inv b t'"
  by (cases ty) (auto dest: frame_inv_decode_ref frame_inv_decode_scalar)

lemma frame_inv_decode_define: "frame_inv b t \<Longrightarrow> decode_define t r = ((v, t'), r') \<Longrightarrow> frame_inv b t'"
  by (auto simp: decode_define_def Let_def simp del: isWireOp.simps dest: frame_inv_define
      split: prod.splits if_splits option.splits)

lemma finish_tables [simp]: "fst (snd (finish mk ref lst (v, t))) = t"
  by (auto simp: finish_def split: option.split)

lemma frame_inv_finish: "finish mk ref lst (v, t) = (x, t', lst') \<Longrightarrow> t' = t"
  using finish_tables [of mk ref lst v t] by simp

lemma frame_inv_collection_op:
  "frame_inv b t \<Longrightarrow> decode_collection_op c ref ty t lst r = ((v, t', lst'), r') \<Longrightarrow> frame_inv b t'"
  unfolding decode_collection_op_def
  by (auto dest!: frame_inv_finish dest: frame_inv_decode_element split: if_splits prod.splits)

lemma frame_inv_instance_op:
  "frame_inv b t \<Longrightarrow> decode_instance_op c f ref l t lst r = ((v, t', lst'), r') \<Longrightarrow> frame_inv b t'"
  unfolding decode_instance_op_def
  by (auto dest!: frame_inv_finish dest: frame_inv_decode_value split: if_splits prod.splits)

lemma frame_inv_decode_op:
  assumes "frame_inv b t" "decode_op t lst r = ((v, t', lst'), r')"
  shows "frame_inv b t'"
proof -
  obtain h q where h: "get_u8 r = (h, q)" by fastforce
  then have "decode_op_after h t lst q = ((v, t', lst'), r')" using assms by (simp add: decode_op_def)
  with assms(1) show ?thesis unfolding decode_op_after_def Let_def
    by (auto dest: frame_inv_decode_define frame_inv_collection_op frame_inv_instance_op
        split: if_splits prod.splits option.splits Target.splits)
qed

lemma frame_inv_decode_loop:
  "frame_inv b t \<Longrightarrow> decode_loop t lst r = (ops, t', r') \<Longrightarrow> frame_inv b t'"
proof (induction t lst r arbitrary: ops rule: decode_loop.induct)
  case (1 t lst r)
  obtain v t1 l1 r1 where d: "decode_op t lst r = ((v, t1, l1), r1)" by (metis prod.collapse)
  note t1 = frame_inv_decode_op [OF "1.prems"(1) d]
  show ?case
  proof (cases "done_reading r \<or> v = None \<or> rerror r1 \<noteq> None")
    case True
    then show ?thesis using "1.prems" d t1 by (auto simp: decode_loop.simps [of t lst r] split: if_splits option.splits)
  next
    case False
    then obtain op where v: "v = Some op" by auto
    obtain os t2 r2 where l: "decode_loop t1 l1 r1 = (os, t2, r2)" using prod_cases3 by blast
    have "t2 = t'" using "1.prems"(2) d False v l by (simp add: decode_loop.simps [of t lst r])
    moreover have "r2 = r'" using "1.prems"(2) d False v l by (simp add: decode_loop.simps [of t lst r])
    ultimately show ?thesis using "1.IH" [OF _ d [symmetric] refl v refl _ t1, of os] False l by simp
  qed
qed

lemma encodeOps_ok:
  assumes "tables_ok (stables s)" "encodeOps ops s = (x, s')"
  shows "tables_ok (stables s')" "x = Inl e \<Longrightarrow> same_tables (stables s') (stables s)"
proof -
  obtain p e1 where a: "encode_all 0 ops \<lparr>eout = reset (sout s), etables = tables_begin (stables s), elast = 0\<rparr> = (p, e1)"
    by fastforce
  have i: "frame_inv (stables s) (etables e1)"
    using frame_inv_encode_all [OF _ a] frame_inv_begin [OF assms(1)] by simp
  then show "tables_ok (stables s')" "x = Inl e \<Longrightarrow> same_tables (stables s') (stables s)"
    using assms(2) a since_rollback rollback_ok
    by (auto simp: encodeOps_def frame_inv_def split: option.splits)
qed

lemma decodeOps_ok:
  assumes "tables_ok (stables s)" "decodeOps data s = (x, s')"
  shows "tables_ok (stables s')" "x = Inl e \<Longrightarrow> same_tables (stables s') (stables s)"
proof -
  obtain ops t r where a: "decode_loop (tables_begin (stables s)) 0 (new_reader data) = (ops, t, r)"
    using prod_cases3 by blast
  have i: "frame_inv (stables s) t"
    using frame_inv_decode_loop [OF _ a] frame_inv_begin [OF assms(1)] by simp
  then show "tables_ok (stables s')" "x = Inl e \<Longrightarrow> same_tables (stables s') (stables s)"
    using assms(2) a since_rollback rollback_ok
    by (auto simp: decodeOps_def frame_inv_def split: option.splits message.splits)
qed

section \<open>Decoded ops are well formed\<close>

lemma readInt_isKey: "isKey (fst (readInt k r))"
  by (simp add: readInt_def Let_def split: prod.split)

lemma readScalar_isKey: "readScalar ty r = (v, r') \<Longrightarrow> isKey v"
  using readInt_isKey [of _ r]
  by (auto simp: readScalar_def readBool_def split: if_splits prod.splits option.splits) (metis fst_conv)

lemma isKey_isValue: "isKey v \<Longrightarrow> isValue v"
  by (cases v) auto

lemma isInt_nat_val [simp]: "isInt (nat_val n)"
  by (simp add: nat_val_def)

lemma isKey_nat_val [simp]: "isKey (nat_val n)"
  by (simp add: nat_val_def)

lemma decode_ref_isValue: "decode_ref t r = ((Some v, t'), r') \<Longrightarrow> isValue v"
  by (auto simp: decode_ref_def arg_def split: prod.splits if_splits option.splits)

lemma decode_scalar_isValue: "decode_scalar ty t r = ((Some v, t'), r') \<Longrightarrow> isValue v"
  by (auto simp: decode_scalar_def isKey_isValue readScalar_isKey split: prod.splits if_splits)

lemma decode_value_isValue: "decode_value ty t r = ((Some v, t'), r') \<Longrightarrow> isValue v"
  by (cases ty) (auto dest: decode_ref_isValue decode_scalar_isValue)

lemma decode_element_isValue: "decode_element ty t r = ((Some v, t'), r') \<Longrightarrow> isValue v"
  by (cases ty) (auto dest: decode_ref_isValue decode_scalar_isValue)

lemma decode_key_isKey: "decode_key k r = (v, r') \<Longrightarrow> isKey v"
  by (auto simp: decode_key_def readScalar_isKey split: option.splits prod.splits)

lemma is_lit_nat_val [simp]: "is_lit (nat_val n) k \<longleftrightarrow> int n = k"
  by (auto simp: nat_val_def is_lit_iff simp del: is_lit.simps)

lemma wire_op_shapes:
  "isValue v \<Longrightarrow> isWireOp (JArr [nat_val 0, nat_val ref, nat_val i, v])"
  "isValue v \<Longrightarrow> isWireOp (JArr [nat_val 1, nat_val ref, v])"
  "isKey k \<Longrightarrow> isValue v \<Longrightarrow> isWireOp (JArr [nat_val 1, nat_val ref, k, v])"
  "isKey k \<Longrightarrow> isWireOp (JArr [nat_val 2, nat_val ref, k])"
  "isWireOp (JArr [nat_val 3, nat_val ref])"
  by (simp_all add: arg_def)

lemma finish_SomeD: "finish mk ref lst vt = (Some op, t', l') \<Longrightarrow> \<exists>v. vt = (Some v, t') \<and> op = JArr (mk v)"
  by (auto simp: finish_def split: prod.splits option.splits)

lemma decode_define_isWireOp: "decode_define t r = ((Some op, t'), r') \<Longrightarrow> isWireOp op"
  by (auto simp: decode_define_def Let_def simp del: isWireOp.simps split: prod.splits if_splits option.splits)

lemma decode_collection_op_isWireOp:
  "decode_collection_op c ref ty t lst r = ((Some op, t', l'), r') \<Longrightarrow> isWireOp op"
proof -
  assume d: "decode_collection_op c ref ty t lst r = ((Some op, t', l'), r')"
  have rm: "isKey k" if "(case keyType ty of Some key \<Rightarrow> readScalar key r
      | None \<Rightarrow> (case ty of PSet el \<Rightarrow> readScalar el r | _ \<Rightarrow> (case get_varint r of (n, r) \<Rightarrow> (nat_val n, r)))) = (k, q)" for k q
    using that by (cases ty) (auto dest: readScalar_isKey split: prod.splits)
  obtain k q where kq: "(case keyType ty of Some key \<Rightarrow> readScalar key r
      | None \<Rightarrow> (case ty of PSet el \<Rightarrow> readScalar el r | _ \<Rightarrow> (case get_varint r of (n, r) \<Rightarrow> (nat_val n, r)))) = (k, q)"
    by fastforce
  show ?thesis
  proof (cases "c = 2")
    case True
    then show ?thesis using d rm [OF kq] kq
      by (auto simp: decode_collection_op_def wire_op_shapes simp del: isWireOp.simps split: if_splits)
  next
    case False
    then show ?thesis using d unfolding decode_collection_op_def
      by (auto simp del: isWireOp.simps One_nat_def simp: wire_op_shapes dest!: finish_SomeD
          intro: wire_op_shapes(3) dest: decode_element_isValue decode_key_isKey split: if_splits prod.splits)
  qed
qed

lemma decode_op_isWireOp:
  assumes "decode_op t lst r = ((Some op, t', l'), r')"
  shows "isWireOp op"
proof -
  obtain h q where "get_u8 r = (h, q)" by fastforce
  with assms have d: "decode_op_after h t lst q = ((Some op, t', l'), r')" by (simp add: decode_op_def)
  have i: "isWireOp op" if "decode_instance_op c f ref l t lst r = ((Some op, t', l'), r')" for c f ref l r
    using that unfolding decode_instance_op_def
    by (auto simp del: isWireOp.simps simp: wire_op_shapes dest!: finish_SomeD dest: decode_value_isValue
        split: if_splits prod.splits)
  show ?thesis using d unfolding decode_op_after_def Let_def
    by (auto simp del: isWireOp.simps dest: i decode_define_isWireOp decode_collection_op_isWireOp
        split: if_splits prod.splits option.splits Target.splits)
qed

lemma decode_loop_isWireOp: "decode_loop t lst r = (ops, t', r') \<Longrightarrow> list_all isWireOp ops"
proof (induction t lst r arbitrary: ops rule: decode_loop.induct)
  case (1 t lst r)
  obtain v t1 l1 r1 where d: "decode_op t lst r = ((v, t1, l1), r1)" by (metis prod.collapse)
  show ?case
  proof (cases "done_reading r \<or> v = None \<or> rerror r1 \<noteq> None")
    case True
    then show ?thesis using "1.prems" d by (auto simp: decode_loop.simps [of t lst r] split: if_splits option.splits)
  next
    case False
    then obtain op where v: "v = Some op" by auto
    obtain os t2 r2 where l: "decode_loop t1 l1 r1 = (os, t2, r2)" using prod_cases3 by blast
    have "ops = op # os" "t2 = t'" "r2 = r'" using "1.prems" d False v l by (simp_all add: decode_loop.simps [of t lst r])
    moreover have "isWireOp op" using decode_op_isWireOp d v by blast
    ultimately show ?thesis using "1.IH" [OF _ d [symmetric] refl v refl _, of os] False l by simp
  qed
qed

lemma decodeOps_isWireOp: "decodeOps data s = (Inr ops, s') \<Longrightarrow> list_all isWireOp ops"
  by (auto simp: decodeOps_def simp del: isWireOp.simps dest: decode_loop_isWireOp split: prod.splits option.splits message.splits)

end
