(* ===== verification/SchemaRoundtrip.thy ===== *)
theory SchemaRoundtrip
  imports SchemaSession
begin

unbundle bit_operations_syntax

text \<open>
  What a receiver decodes from an encoded frame. \<open>seen_op\<close> is the op as the receiver gets
  it: integers lose the sign of zero, \<open>float32\<close> values are rounded, strings are made
  well-formed. Encoder and decoder walk through the same tables, so a frame that was encoded is
  decoded by every session whose tables agree, to exactly these ops, and the tables agree again
  afterwards.
\<close>

section \<open>Values an engine can hold\<close>

text \<open>Numbers are binary64, array lengths and UTF-8 lengths fit 32 bits.\<close>

fun val_ok :: "jsval \<Rightarrow> bool" where
  "val_ok (JNum n) = num_ok n"
| "val_ok (JStr s) = string_ok s"
| "val_ok (JArr vs) = (length vs \<le> MAX_UINT32 \<and> list_all val_ok vs)"
| "val_ok (JObj ps) = (length ps \<le> MAX_UINT32 \<and> list_all (\<lambda>p. string_ok (fst p) \<and> val_ok (snd p)) ps)"
| "val_ok _ = True"

lemma val_ok_arg: "list_all val_ok vs \<Longrightarrow> val_ok (arg vs i)"
  by (simp add: arg_def list_all_length)

section \<open>Integer kinds and booleans\<close>

fun int_bytes :: "IntKind \<Rightarrow> int \<Rightarrow> byte list" where
  "int_bytes Int8 v = [word_of_nat (nat (v mod 256))]"
| "int_bytes Uint8 v = [word_of_nat (nat (v mod 256))]"
| "int_bytes Int16 v = varint_bytes (zigzag v)"
| "int_bytes Int32 v = varint_bytes (zigzag v)"
| "int_bytes Uint16 v = varint_bytes (nat v)"
| "int_bytes Uint32 v = varint_bytes (nat v)"

lemma sign_extend8_eq: assumes "b < 256"
  shows "sign_extend8 b = (if b < 128 then int b else int b - 256)"
proof -
  have p: "push_bit 24 (word_of_nat b :: 32 word) = word_of_int (int b * 16777216)"
    by (simp add: push_bit_eq_mult mult.commute)
  have "sint (word_of_int (int b * 16777216) :: 32 word) = (if b < 128 then int b else int b - 256) * 16777216"
  proof (cases "b < 128")
    case True
    then show ?thesis by (subst sint_word32) auto
  next
    case False
    have "word_of_int (int b * 16777216) = (word_of_int ((int b - 256) * 16777216) :: 32 word)"
      by (simp only: word_of_int_eq_iff take_bit_eq_mod left_diff_distrib) (simp add: mod_eq_dvd_iff)
    with False assms show ?thesis by (simp only:) (subst sint_word32, auto)
  qed
  then show ?thesis unfolding sign_extend8_def p sint_signed_drop_bit_eq drop_bit_eq_div by simp
qed

lemma writeInt_fun:
  "writeInt Int8 v = put_u8 (nat (v mod 256))" "writeInt Uint8 v = put_u8 (nat (v mod 256))"
  "writeInt Int16 v = put_zigzag v" "writeInt Int32 v = put_zigzag v"
  "writeInt Uint16 v = put_varint (nat v)" "writeInt Uint32 v = put_varint (nat v)"
  by (rule ext, simp)+

lemma appends_writeInt: "in_range k v \<Longrightarrow> appends (writeInt k v) (int_bytes k v)"
  by (cases k) (simp_all only: writeInt_fun int_bytes.simps appends_u8,
      auto simp: in_range_def MAX_UINT32_def intro: appends_zigzag appends_varint)

text \<open>The range check behind a read is silent on a value of the range.\<close>

lemma parses_checked:
  assumes "parses g bs v" "isIntOf (JNum (num_of_int v)) k"
  shows "parses (\<lambda>r. case g r of (v, r) \<Rightarrow>
     (JNum (num_of_int v), if \<not> isIntOf (JNum (num_of_int v)) k then fail (m v) r else r)) bs (JNum (num_of_int v))"
  using assms by (auto simp: parses_def simp del: isIntOf.simps)

lemma parses_int: "parses g bs n \<Longrightarrow> parses (\<lambda>r. case g r of (b, r) \<Rightarrow> (int b, r)) bs (int n)"
  by (rule parses_map)

lemma parses_readInt:
  assumes "in_range k v"
  shows "parses (readInt k) (int_bytes k v) (JNum (num_of_int v))"
proof -
  have u8: "parses get_u8 [word_of_nat (nat (v mod 256))] (nat (v mod 256))"
    by (rule u8_codec.get_parses) (simp add: nat_less_iff)
  have s: "sign_extend8 (nat (v mod 256)) = v" if "k = Int8"
  proof -
    have r: "-128 \<le> v" "v \<le> 127" using that assms by (simp_all add: in_range_def)
    have m: "v mod 256 = (if v < 0 then v + 256 else v)"
    proof (cases "v < 0")
      case True
      then have "(v + 256) mod 256 = v + 256" using r by (intro mod_pos_pos_trivial) simp_all
      with True show ?thesis by simp
    qed (use r in simp)
    show ?thesis using r by (auto simp: sign_extend8_eq m)
  qed
  have i: "isIntOf (JNum (num_of_int v)) k" using assms by (simp only: isIntOf_num_of_int)
  show ?thesis
  proof (cases k)
    case Int8
    from parses_map [OF u8, of sign_extend8] s [OF Int8]
    have "parses (\<lambda>r. case get_u8 r of (b, r) \<Rightarrow> (sign_extend8 b, r)) [word_of_nat (nat (v mod 256))] v" by simp
    from parses_checked [OF this i] show ?thesis
      by (simp only: Int8 readInt_def [abs_def] Let_def IntKind.case int_bytes.simps)
  next
    case Uint8
    then have "int (nat (v mod 256)) = v" using assms by (simp add: in_range_def)
    then have "parses (\<lambda>r. case get_u8 r of (b, r) \<Rightarrow> (int b, r)) [word_of_nat (nat (v mod 256))] v"
      using parses_int [OF u8] by (simp only:)
    from parses_checked [OF this i] show ?thesis
      by (simp only: Uint8 readInt_def [abs_def] Let_def IntKind.case int_bytes.simps)
  next
    case Int16
    then have "parses get_zigzag (varint_bytes (zigzag v)) v" using assms by (intro parses_zigzag) (auto simp: in_range_def)
    from parses_checked [OF this i] show ?thesis
      by (simp only: Int16 readInt_def [abs_def] Let_def IntKind.case int_bytes.simps)
  next
    case Int32
    then have "parses get_zigzag (varint_bytes (zigzag v)) v" using assms by (intro parses_zigzag) (auto simp: in_range_def)
    from parses_checked [OF this i] show ?thesis
      by (simp only: Int32 readInt_def [abs_def] Let_def IntKind.case int_bytes.simps)
  next
    case Uint16
    then have "int (nat v) = v" "nat v \<le> MAX_UINT32" using assms by (auto simp: in_range_def MAX_UINT32_def)
    then have "parses (\<lambda>r. case get_varint r of (b, r) \<Rightarrow> (int b, r)) (varint_bytes (nat v)) v"
      using parses_int [OF parses_varint, of "nat v"] by simp
    from parses_checked [OF this i] show ?thesis
      by (simp only: Uint16 readInt_def [abs_def] Let_def IntKind.case int_bytes.simps)
  next
    case Uint32
    then have "int (nat v) = v" "nat v \<le> MAX_UINT32" using assms by (auto simp: in_range_def MAX_UINT32_def)
    then have "parses (\<lambda>r. case get_varint r of (b, r) \<Rightarrow> (int b, r)) (varint_bytes (nat v)) v"
      using parses_int [OF parses_varint, of "nat v"] by simp
    from parses_checked [OF this i] show ?thesis
      by (simp only: Uint32 readInt_def [abs_def] Let_def IntKind.case int_bytes.simps)
  qed
qed

interpretation int_codec: wire_codec "writeInt k" "readInt k" "int_bytes k" "in_range k" "\<lambda>v. JNum (num_of_int v)"
  by unfold_locales (rule appends_writeInt parses_readInt; assumption)+

lemma parses_readBool: "parses readBool [if b then 1 else 0] (JBool b)"
proof -
  have "parses get_u8 [if b then 1 else 0] (if b then 1 else 0)"
    using parses_u8 [of 1] parses_u8 [of 0] by (cases b) simp_all
  then show ?thesis by (auto simp: parses_def readBool_def)
qed

interpretation bool_codec: wire_codec "\<lambda>b. put_u8 (if b then 1 else 0)" readBool "\<lambda>b. [if b then 1 else 0]" "\<lambda>_. True" JBool
proof unfold_locales
  fix v show "appends (put_u8 (if v then 1 else 0)) [if v then 1 else 0]"
    using appends_u8 [of 1] appends_u8 [of 0] by simp
qed (rule parses_readBool)

section \<open>Scalars\<close>

definition scalar_fits :: "jsstring \<Rightarrow> jsval \<Rightarrow> bool" where
  "scalar_fits type v =
     (if type = js ''float64'' \<or> type = js ''float32'' then (case v of JNum _ \<Rightarrow> True | _ \<Rightarrow> False)
      else if type = js ''string'' then is_string v
      else if type = js ''bool'' then (case v of JBool _ \<Rightarrow> True | _ \<Rightarrow> False)
      else if startsWith type (js ''fixed:'') then isIntOf v Int32
      else case isIntKind type of Some k \<Rightarrow> isIntOf v k | None \<Rightarrow> False)"

definition scalar_bytes :: "jsstring \<Rightarrow> jsval \<Rightarrow> byte list" where
  "scalar_bytes type v =
     (if type = js ''float64'' then float64_bytes (the_num v)
      else if type = js ''float32'' then float32_bytes (the_num v)
      else if type = js ''string'' then string_bytes (the_string v)
      else if type = js ''bool'' then [if v = JBool True then 1 else 0]
      else if startsWith type (js ''fixed:'') then varint_bytes (zigzag (int_of_num (the_num v)))
      else case isIntKind type of Some k \<Rightarrow> int_bytes k (int_of_num (the_num v)) | None \<Rightarrow> [])"

text \<open>The value the receiver gets.\<close>

definition seen_scalar :: "jsstring \<Rightarrow> jsval \<Rightarrow> jsval" where
  "seen_scalar type v =
     (case v of
        JStr s \<Rightarrow> JStr (wireString s)
      | JNum n \<Rightarrow> (if type = js ''float64'' then JNum n
                   else if type = js ''float32'' then JNum (fround n)
                   else JNum (num_of_int (int_of_num n)))
      | _ \<Rightarrow> v)"

lemma type_names:
  "js ''float32'' \<noteq> js ''float64''" "js ''string'' \<noteq> js ''float64''" "js ''string'' \<noteq> js ''float32''"
  "js ''bool'' \<noteq> js ''float64''" "js ''bool'' \<noteq> js ''float32''" "js ''bool'' \<noteq> js ''string''"
  by (simp_all add: js_def)

lemma writeScalar_fits: "fst (writeScalar ty v w) = None \<longleftrightarrow> scalar_fits ty v"
  unfolding writeScalar_def scalar_fits_def
  by (cases "ty = js ''float64''"; cases "ty = js ''float32''"; cases "ty = js ''string''"; cases "ty = js ''bool''")
    (auto simp del: isIntOf.simps split: jsval.split option.split)

lemma isIntOf_inv: "isIntOf v k \<Longrightarrow> \<exists>n. v = JNum n \<and> isInteger n \<and> in_range k (int_of_num n)"
  by (simp add: isIntOf_iff)

lemma scalar_cases:
  assumes "scalar_fits ty v"
  obtains (f64) n where "ty = js ''float64''" "v = JNum n" | (f32) n where "ty = js ''float32''" "v = JNum n"
    | (str) s where "ty = js ''string''" "v = JStr s" | (bool) b where "ty = js ''bool''" "v = JBool b"
    | (fixed) n where "ty \<notin> {js ''float64'', js ''float32'', js ''string'', js ''bool''}" "startsWith ty (js ''fixed:'')"
        "v = JNum n" "in_range Int32 (int_of_num n)" "isIntOf v Int32"
    | (int) k n where "ty \<notin> {js ''float64'', js ''float32'', js ''string'', js ''bool''}" "\<not> startsWith ty (js ''fixed:'')"
        "isIntKind ty = Some k" "v = JNum n" "in_range k (int_of_num n)" "isIntOf v k"
proof -
  consider "ty \<in> {js ''float64'', js ''float32'', js ''string'', js ''bool''}"
    | "ty \<notin> {js ''float64'', js ''float32'', js ''string'', js ''bool''}" "startsWith ty (js ''fixed:'')"
    | "ty \<notin> {js ''float64'', js ''float32'', js ''string'', js ''bool''}" "\<not> startsWith ty (js ''fixed:'')"
    by blast
  then show ?thesis
  proof cases
    case 1
    then show ?thesis using assms f64 f32 str bool by (cases v) (auto simp: scalar_fits_def type_names split: if_splits)
  next
    case 2
    then have "isIntOf v Int32" using assms by (simp add: scalar_fits_def)
    with isIntOf_inv [OF this] 2 fixed show ?thesis by blast
  next
    case 3
    then obtain k where "isIntKind ty = Some k" "isIntOf v k"
      using assms by (auto simp: scalar_fits_def simp del: isIntOf.simps split: option.splits)
    with isIntOf_inv [of v k] 3 int show ?thesis by blast
  qed
qed

interpretation scalar_codec: wire_codec "\<lambda>v w. snd (writeScalar ty v w)" "readScalar ty" "scalar_bytes ty"
  "\<lambda>v. scalar_fits ty v \<and> val_ok v" "seen_scalar ty"
proof unfold_locales
  fix v assume ok: "scalar_fits ty v \<and> val_ok v"
  then have "scalar_fits ty v" ..
  then show "appends (\<lambda>w. snd (writeScalar ty v w)) (scalar_bytes ty v)"
  proof (cases rule: scalar_cases)
    case (str s)
    then show ?thesis using ok string_codec.put_appends by (simp add: writeScalar_def scalar_bytes_def type_names)
  next
    case (bool b)
    then show ?thesis using bool_codec.put_appends [of b] by (cases b) (simp_all add: writeScalar_def scalar_bytes_def type_names)
  next
    case (fixed n)
    then show ?thesis using zigzag_codec.put_appends by (simp add: writeScalar_def scalar_bytes_def del: isIntOf.simps)
  next
    case (int k n)
    then show ?thesis using int_codec.put_appends by (simp add: writeScalar_def scalar_bytes_def del: isIntOf.simps)
  qed (simp_all add: writeScalar_def scalar_bytes_def appends_float64 appends_float32 type_names)
next
  fix v assume ok: "scalar_fits ty v \<and> val_ok v"
  then have "scalar_fits ty v" ..
  then show "parses (readScalar ty) (scalar_bytes ty v) (seen_scalar ty v)"
  proof (cases rule: scalar_cases)
    case (f64 n)
    then show ?thesis using ok parses_map [where f = JNum, OF parses_float64, of n]
      by (simp add: readScalar_def [abs_def] scalar_bytes_def seen_scalar_def)
  next
    case (f32 n)
    then show ?thesis using parses_map [where f = JNum, OF parses_float32, of n]
      by (simp add: readScalar_def [abs_def] scalar_bytes_def seen_scalar_def type_names)
  next
    case (str s)
    then show ?thesis using ok parses_map [where f = JStr, OF string_codec.get_parses, of s]
      by (simp add: readScalar_def [abs_def] scalar_bytes_def seen_scalar_def type_names)
  next
    case (bool b)
    then show ?thesis using parses_readBool [of b]
      by (simp add: readScalar_def [abs_def] scalar_bytes_def seen_scalar_def type_names)
  next
    case (fixed n)
    then show ?thesis using parses_map [where f = "\<lambda>v. JNum (num_of_int v)", OF zigzag_codec.get_parses, of "int_of_num n"]
      by (simp add: readScalar_def [abs_def] scalar_bytes_def seen_scalar_def)
  next
    case (int k n)
    then show ?thesis using int_codec.get_parses [of k "int_of_num n"]
      by (simp add: readScalar_def [abs_def] scalar_bytes_def seen_scalar_def)
  qed
qed

section \<open>Refs, values and elements\<close>

definition extends :: "bytewriter \<Rightarrow> bytewriter \<Rightarrow> byte list \<Rightarrow> bool" where
  "extends w w' bs = (writer_ok w \<longrightarrow> writer_ok w' \<and> toBytes w' = toBytes w @ bs)"

lemma extends_appends: "appends f bs \<Longrightarrow> extends w (f w) bs"
  by (simp add: extends_def appends_def)

lemma extends_refl [simp]: "extends w w []"
  by (simp add: extends_def)

lemma extends_trans: "extends u v as \<Longrightarrow> extends v w bs \<Longrightarrow> extends u w (as @ bs)"
  by (simp add: extends_def)

lemma parses_unless_error [reads]:
  "parses g bs v \<Longrightarrow> parses (\<lambda>r. if rerror r \<noteq> None then f r else g r) bs v"
  by (auto simp: parses_def dest: rd_at_error)

lemma rerror_adv [simp]: "rerror (adv n r) = rerror r"
  by (simp add: adv_def)

lemma isUint32_le: "isUint32 v \<Longrightarrow> uint_of v \<le> MAX_UINT32"
proof -
  assume "isUint32 v"
  then obtain n where "v = JNum n" "in_range Uint32 (int_of_num n)"
    unfolding isUint32_def using isIntOf_inv by blast
  then show ?thesis by (auto simp: uint_of_def in_range_def MAX_UINT32_def nat_le_iff)
qed

text \<open>A number that passed \<open>isUint32\<close>, without the sign of zero.\<close>

definition seen_uint :: "jsval \<Rightarrow> jsval" where
  "seen_uint v = nat_val (uint_of v)"

definition seen_ref :: "jsval \<Rightarrow> jsval" where
  "seen_ref v = JArr [seen_uint (arg (op_args v) 0), seen_uint (arg (op_args v) 1)]"

lemma uint_of_nat_val [simp]: "uint_of (nat_val n) = n"
  by (simp add: uint_of_def nat_val_def)

lemma isWireRef_uint:
  "isWireRef v \<Longrightarrow> isUint32 (arg (op_args v) 0) \<and> isUint32 (arg (op_args v) 1)"
  by (cases v) auto

lemma encodeRef_parses:
  assumes "encodeRef v w t = (Inr c, w', t')"
  shows "\<exists>bs. extends w w' bs \<and> parses (decode_ref t) bs (Some (seen_ref v), t')
     \<and> (case c of None \<Rightarrow> ref | Some r \<Rightarrow> r) = settle ref (seen_ref v)"
proof -
  let ?c = "uint_of (arg (op_args v) 0)" and ?r = "uint_of (arg (op_args v) 1)"
  from assms have v: "isWireRef v" and b: "bindRef ?c ?r t = (None, t')" and c: "c = Some ?r"
    and w': "w' = put_varint ?r (put_varint ?c w)"
    by (auto simp: encodeRef_def Let_def split: if_splits prod.splits option.splits)
  have le: "?c \<le> MAX_UINT32" "?r \<le> MAX_UINT32" using isWireRef_uint [OF v] isUint32_le by auto
  have ext: "extends w w' (varint_bytes ?c @ varint_bytes ?r)"
    unfolding w' using appends_comp [OF appends_varint [OF le(1)] appends_varint [OF le(2)]]
    by (rule extends_appends)
  have "parses (\<lambda>r. if rerror r \<noteq> None then ((None, t), r)
        else case bindRef ?c ?r t of
               (Some problem, t) \<Rightarrow> ((None, t), fail problem r)
             | (None, t) \<Rightarrow> ((Some (JArr [nat_val ?c, nat_val ?r]), t), r)) [] (Some (seen_ref v), t')"
    unfolding b by (intro parses_unless_error) (simp add: seen_ref_def seen_uint_def parses_return)
  note body = this
  have "parses (decode_ref t) (varint_bytes ?c @ varint_bytes ?r @ []) (Some (seen_ref v), t')"
    unfolding decode_ref_def [abs_def]
    by (rule parses_bind [OF parses_varint [OF le(1)]], rule parses_bind [OF parses_varint [OF le(2)]], rule body)
  moreover have "settle ref (seen_ref v) = ?r" by (simp add: seen_ref_def seen_uint_def arg_def)
  ultimately show ?thesis using c ext by auto
qed

lemma writeScalar_parses:
  assumes "writeScalar ty v w = (None, w')" "val_ok v"
  shows "extends w w' (scalar_bytes ty v) \<and> parses (readScalar ty) (scalar_bytes ty v) (seen_scalar ty v)"
proof -
  have "scalar_fits ty v" using writeScalar_fits [of ty v w] assms(1) by simp
  then have ok: "scalar_fits ty v \<and> val_ok v" using assms(2) by simp
  have "w' = snd (writeScalar ty v w)" using assms(1) by simp
  then show ?thesis using extends_appends [OF scalar_codec.put_appends [OF ok], of w] scalar_codec.get_parses [OF ok]
    by simp
qed

lemma encodeScalar_parses:
  assumes "encodeScalar ty v w t = (Inr c, w', t')" "val_ok v"
  shows "\<exists>bs. extends w w' bs \<and> parses (decode_scalar ty t) bs (Some (seen_scalar ty v), t')
     \<and> (case c of None \<Rightarrow> ref | Some r \<Rightarrow> r) = settle ref (seen_scalar ty v)"
proof -
  from assms have s: "writeScalar ty v w = (None, w')" "t' = t" "c = None"
    by (auto simp: encodeScalar_def split: prod.splits option.splits)
  note p = writeScalar_parses [OF s(1) assms(2)]
  then have "parses (decode_scalar ty t) (scalar_bytes ty v) (Some (seen_scalar ty v), t)"
    by (auto simp: parses_def decode_scalar_def dest: rd_at_error)
  moreover have "scalar_fits ty v" using writeScalar_fits [of ty v w] s(1) by simp
  then have "settle ref (seen_scalar ty v) = ref" 
    by (cases rule: scalar_cases) (auto simp: seen_scalar_def)
  ultimately show ?thesis using p s by auto
qed

fun seen_value :: "ParsedFieldType \<Rightarrow> jsval \<Rightarrow> jsval" where
  "seen_value (PPrimitive ty) v = seen_scalar ty v"
| "seen_value (PInt ty) v = seen_scalar ty v"
| "seen_value _ v = seen_ref v"

fun seen_element :: "ParsedFieldType \<Rightarrow> jsval \<Rightarrow> jsval" where
  "seen_element (PMap _ ty) v = seen_scalar ty v"
| "seen_element (PArray ty) v = seen_scalar ty v"
| "seen_element (PSet ty) v = seen_scalar ty v"
| "seen_element _ v = seen_ref v"

lemma encodeValue_parses:
  assumes "encodeValue ty v w t = (Inr c, w', t')" "val_ok v"
  shows "\<exists>bs. extends w w' bs \<and> parses (decode_value ty t) bs (Some (seen_value ty v), t')
     \<and> (case c of None \<Rightarrow> ref | Some r \<Rightarrow> r) = settle ref (seen_value ty v)"
proof (cases ty)
  case (PPrimitive p)
  then show ?thesis using assms encodeScalar_parses by (simp add: decode_value.simps [abs_def])
next
  case (PInt p)
  then show ?thesis using assms encodeScalar_parses by (simp add: decode_value.simps [abs_def])
next
  case (PSchema n)
  then show ?thesis using assms encodeRef_parses by (simp add: decode_value.simps [abs_def])
qed (use assms in simp_all)

lemma encodeElement_parses:
  assumes "encodeElement ty v w t = (Inr c, w', t')" "val_ok v"
  shows "\<exists>bs. extends w w' bs \<and> parses (decode_element ty t) bs (Some (seen_element ty v), t')
     \<and> (case c of None \<Rightarrow> ref | Some r \<Rightarrow> r) = settle ref (seen_element ty v)"
  using assms encodeScalar_parses [of _ v w t c w' t' ref] encodeRef_parses [of v w t c w' t' ref]
  by (cases ty) (simp_all add: decode_element.simps [abs_def])

section \<open>Class definitions\<close>

text \<open>A \<open>DEFINE\<close> whose strings are well-formed and whose class id is a plain number.\<close>

definition define_clean :: "jsval list \<Rightarrow> bool" where
  "define_clean op = (isUint32 (arg op 1) \<and> arg op 1 \<noteq> JNum JNegZero \<and> wire_ok (the_string (arg op 2))
     \<and> list_all wire_ok (strings_of (arg op 3)) \<and> list_all wire_ok (strings_of (arg op 4)))"

fun field_bytes :: "(jsstring \<times> jsstring) list \<Rightarrow> byte list" where
  "field_bytes [] = []"
| "field_bytes ((f, t) # fts) = string_bytes f @ string_bytes t @ field_bytes fts"

definition field_ok :: "jsstring \<times> jsstring \<Rightarrow> bool" where
  "field_ok ft = (string_ok (fst ft) \<and> string_ok (snd ft) \<and> wire_ok (fst ft) \<and> wire_ok (snd ft))"

lemma appends_put_fields:
  "list_all field_ok fts \<Longrightarrow> appends (put_fields (map fst fts) (map snd fts)) (field_bytes fts)"
proof (induction fts)
  case (Cons ft fts)
  obtain f t where ft: "ft = (f, t)" by fastforce
  have "appends (\<lambda>w. put_fields (map fst fts) (map snd fts) (put_string t (put_string f w)))
      (string_bytes f @ string_bytes t @ field_bytes fts)"
    using Cons ft
    by (intro appends_comp [OF string_codec.put_appends appends_comp [OF string_codec.put_appends]]) 
      (simp_all add: field_ok_def)
  then show ?case by (simp add: ft)
qed (simp add: appends_def)

lemma parses_get_fields:
  "list_all field_ok fts \<Longrightarrow> parses (get_fields (length fts)) (field_bytes fts) fts"
proof (induction fts)
  case Nil
  show ?case by (simp add: parses_def)
next
  case (Cons ft fts)
  obtain f t where ft: "ft = (f, t)" by fastforce
  have f: "parses get_string (string_bytes f) f" "parses get_string (string_bytes t) t"
    using Cons.prems string_codec.get_parses [of f] string_codec.get_parses [of t]
    by (simp_all add: ft field_ok_def wireString_id)
  have body: "parses (\<lambda>r. case get_fields (length fts) r of (fts, r) \<Rightarrow> ((f, t) # fts, r)) (field_bytes fts) ((f, t) # fts)"
    using Cons by (intro parses_map) simp
  have "parses (\<lambda>r. if rerror r \<noteq> None then ([], r)
      else case get_string r of (f, r) \<Rightarrow> case get_string r of (t, r) \<Rightarrow>
           case get_fields (length fts) r of (fts, r) \<Rightarrow> ((f, t) # fts, r)) (field_bytes (ft # fts)) (ft # fts)"
    unfolding ft field_bytes.simps
    by (rule parses_unless_error, rule parses_bind [OF f(1)], rule parses_bind [OF f(2)], rule body)
  moreover have "get_fields (length (ft # fts)) = (\<lambda>r. if rerror r \<noteq> None then ([], r)
      else case get_string r of (f, r) \<Rightarrow> case get_string r of (t, r) \<Rightarrow>
           case get_fields (length fts) r of (fts, r) \<Rightarrow> ((f, t) # fts, r))" by (rule ext) simp
  ultimately show ?case by simp
qed

lemma length_field_bytes: "length fts \<le> length (field_bytes fts)"
proof (induction fts rule: field_bytes.induct)
  case (2 f t fts)
  have "0 < length (string_bytes f)" by (simp add: string_bytes_def Let_def)
  with 2 show ?case by (simp only: field_bytes.simps length_append list.size)
qed simp

lemma is_lit_4: "is_lit v 4 \<Longrightarrow> v = nat_val 4"
proof -
  assume "is_lit v 4"
  then obtain n where v: "v = JNum n" and n: "isInteger n" "int_of_num n = 4" by (auto simp: is_lit_iff)
  from n(1) show ?thesis using v n(2) by (cases rule: isInteger_cases) (auto simp: nat_val_def)
qed

lemma uint_plain: "isUint32 v \<Longrightarrow> v \<noteq> JNum JNegZero \<Longrightarrow> v = nat_val (uint_of v)"
proof -
  assume "isUint32 v" and nz: "v \<noteq> JNum JNegZero"
  then obtain n where v: "v = JNum n" "isInteger n" "in_range Uint32 (int_of_num n)"
    unfolding isUint32_def using isIntOf_inv by blast
  from v(2) show ?thesis using v nz
    by (cases rule: isInteger_cases) (auto simp: uint_of_def nat_val_def in_range_def)
qed

text \<open>A clean definition is exactly the op the decoder rebuilds.\<close>

lemma define_form:
  assumes "isWireOp (JArr op)" "is_lit (arg op 0) 4" "define_clean op" "val_ok (JArr op)"
  obtains cid name fts where "cid \<le> MAX_UINT32" "string_ok name" "wire_ok name" "list_all field_ok fts"
    "length fts \<le> MAX_UINT32"
    "op = [nat_val 4, nat_val cid, JStr name, JArr (map (JStr \<circ> fst) fts), JArr (map (JStr \<circ> snd) fts)]"
proof -
  obtain n name fs ts where a: "arg op 1 = JNum n" "arg op 2 = JStr name" "arg op 3 = JArr fs" "arg op 4 = JArr ts"
    "list_all is_string fs" "list_all is_string ts" "length fs = length ts" "length op = 5"
    using define_shape [OF assms(1,2)] by metis
  define cid where "cid = uint_of (arg op 1)"
  define fts where "fts = zip (map the_string fs) (map the_string ts)"
  have u: "isUint32 (arg op 1)" "arg op 1 \<noteq> JNum JNegZero" using assms(3) by (simp_all add: define_clean_def)
  have js: "list_all is_string vs \<Longrightarrow> map (JStr \<circ> the_string) vs = vs" for vs
    by (induction vs) (auto elim: is_string.elims)
  have f: "map (JStr \<circ> fst) fts = fs" "map (JStr \<circ> snd) fts = ts"
    using a(5,6,7) js by (simp_all add: fts_def flip: map_map)
  have "op = [arg op 0, arg op 1, arg op 2, arg op 3, arg op 4]"
    using a(8) by (auto simp: arg_def numeral_eq_Suc length_Suc_conv)
  then have op: "op = [nat_val 4, nat_val cid, JStr name, JArr (map (JStr \<circ> fst) fts), JArr (map (JStr \<circ> snd) fts)]"
    using is_lit_4 [OF assms(2)] uint_plain [OF u] a f by (simp add: cid_def)
  have va: "val_ok (arg op i)" for i using assms(4) val_ok_arg by simp
  have s: "list_all string_ok (map the_string vs)" if "val_ok (JArr vs)" "list_all is_string vs" for vs
    using that by (induction vs) (auto elim!: is_string.elims)
  have "list_all string_ok (map the_string fs)" "list_all string_ok (map the_string ts)"
    using s va [of 3] va [of 4] a by simp_all
  moreover have "list_all wire_ok (map the_string fs)" "list_all wire_ok (map the_string ts)"
    using assms(3) a by (simp_all add: define_clean_def)
  ultimately have "list_all field_ok fts"
    using a(7) by (auto simp: fts_def field_ok_def list_all_length)
  moreover have "length fts \<le> MAX_UINT32" using va [of 3] a by (simp add: fts_def)
  moreover have "string_ok name" "wire_ok name" using va [of 2] a assms(3) by (simp_all add: define_clean_def)
  moreover have "cid \<le> MAX_UINT32" using isUint32_le [OF u(1)] by (simp add: cid_def)
  ultimately show ?thesis using that op by blast
qed

lemma encodeDefine_parses:
  assumes "encodeDefine op w t = (Inr u, w', t')" "define_clean op" "val_ok (JArr op)"
  shows "\<exists>bs. extends w w' (0x80 # bs) \<and> parses (decode_define t) bs (Some (JArr op), t')"
proof -
  from assms(1) have op: "isWireOp (JArr op)" "is_lit (arg op 0) 4" and d: "tables_define op t = (None, t')"
    by (auto simp: encodeDefine_def Let_def simp del: isWireOp.simps split: if_splits prod.splits option.splits)
  obtain cid name fts where f: "cid \<le> MAX_UINT32" "string_ok name" "wire_ok name" "list_all field_ok fts"
    "length fts \<le> MAX_UINT32"
    and form: "op = [nat_val 4, nat_val cid, JStr name, JArr (map (JStr \<circ> fst) fts), JArr (map (JStr \<circ> snd) fts)]"
    using define_form [OF op assms(2,3)] by metis
  define bs where "bs = varint_bytes cid @ string_bytes name @ varint_bytes (length fts) @ field_bytes fts"
  have strs: "strings_of (arg op 3) = map fst fts" "strings_of (arg op 4) = map snd fts"
    by (simp_all add: form arg_def comp_def)
  have w': "w' = put_fields (map fst fts) (map snd fts) (put_varint (length fts) (put_string name (put_varint cid (put_u8 0x80 w))))"
    using assms(1) op d strs
    by (simp add: encodeDefine_def Let_def del: isWireOp.simps) (simp add: form arg_def)
  have "appends (\<lambda>w. put_fields (map fst fts) (map snd fts) (put_varint (length fts) (put_string name (put_varint cid (put_u8 0x80 w)))))
     ([word_of_nat 0x80] @ bs)"
    unfolding bs_def using f
    by (intro appends_comp [OF appends_u8 appends_comp [OF appends_varint appends_comp [OF string_codec.put_appends
          appends_comp [OF appends_varint appends_put_fields]]]]) simp_all
  from extends_appends [OF this, of w] have "extends w w' (0x80 # bs)" by (simp add: w')
  moreover have "parses (decode_define t) bs (Some (JArr op), t')"
  proof -
    define fin where "fin = (\<lambda>cid name fts r. if rerror r \<noteq> None then ((None, t), r)
        else let op = [nat_val 4, nat_val cid, JStr name, JArr (map (JStr \<circ> fst) fts), JArr (map (JStr \<circ> snd) fts)]
             in if \<not> isWireOp (JArr op) \<or> \<not> is_lit (arg op 0) 4 then
                  ((None, t), fail (Msg ''DEFINE {}: a type outside the grammar'' [nat_val cid]) r)
                else case tables_define op t of
                       (None, t) \<Rightarrow> ((Some (JArr op), t), r)
                     | (Some problem, t) \<Rightarrow> ((None, t), fail problem r))"
    have "parses (fin cid name fts) [] (Some (JArr op), t')"
      unfolding fin_def by (rule parses_unless_error)
        (simp add: form [symmetric] Let_def op d parses_return del: isWireOp.simps)
    from parses_bind [OF parses_get_fields [OF f(4)], of "fin cid name", OF this]
    have b: "parses (\<lambda>r. case get_fields (length fts) r of (fts, r) \<Rightarrow> fin cid name fts r) (field_bytes fts)
        (Some (JArr op), t')" by simp
    have "parses (\<lambda>r. case get_count r of (count, r) \<Rightarrow> case get_fields count r of (fts, r) \<Rightarrow> fin cid name fts r)
        (varint_bytes (length fts) @ field_bytes fts) (Some (JArr op), t')"
      using parses_count [where h = "\<lambda>count r. case get_fields count r of (fts, r) \<Rightarrow> fin cid name fts r", OF f(5) length_field_bytes b] .
    moreover have "parses get_string (string_bytes name) name"
      using string_codec.get_parses [OF f(2)] f(3) by (simp add: wireString_id)
    ultimately show ?thesis
      unfolding decode_define_def [abs_def] bs_def fin_def
      by (intro parses_bind [OF parses_varint [OF f(1)]] parses_bind [where v = name])
  qed
  ultimately show ?thesis by blast
qed

section \<open>Payloads\<close>

definition seen_key :: "jsstring option \<Rightarrow> jsval \<Rightarrow> jsval" where
  "seen_key key v = (case key of None \<Rightarrow> seen_uint v | Some k \<Rightarrow> seen_scalar k v)"

definition seen_removed :: "ParsedFieldType \<Rightarrow> jsval \<Rightarrow> jsval" where
  "seen_removed type v =
     (case keyType type of Some k \<Rightarrow> seen_scalar k v | None \<Rightarrow> (case type of PSet el \<Rightarrow> seen_scalar el v | _ \<Rightarrow> seen_uint v))"

definition seen_collection :: "ParsedFieldType \<Rightarrow> nat \<Rightarrow> jsval list \<Rightarrow> jsval list" where
  "seen_collection type ref op =
     (if is_lit (arg op 0) 0 then [nat_val 0, nat_val ref, seen_uint (arg op 2), seen_element type (arg op 3)]
      else if is_lit (arg op 0) 1 then
        (if isSet type then [nat_val 1, nat_val ref, seen_element type (arg op 2)]
         else [nat_val 1, nat_val ref, seen_key (keyType type) (arg op 2), seen_element type (arg op 3)])
      else if is_lit (arg op 0) 2 then [nat_val 2, nat_val ref, seen_removed type (arg op 2)]
      else [nat_val 3, nat_val ref])"

lemma parses_index: "isUint32 v \<Longrightarrow>
    parses (\<lambda>r. case get_varint r of (n, r) \<Rightarrow> (nat_val n, r)) (varint_bytes (uint_of v)) (seen_uint v)"
  unfolding seen_uint_def by (rule parses_map [OF parses_varint [OF isUint32_le]])

lemma encodeIndex_parses:
  assumes "encodeIndex v w = (None, w')"
  shows "isUint32 v" "extends w w' (varint_bytes (uint_of v))"
proof -
  show "isUint32 v" using assms by (auto simp: encodeIndex_def split: if_splits)
  then have "w' = put_varint (uint_of v) w" using assms by (simp add: encodeIndex_def)
  then show "extends w w' (varint_bytes (uint_of v))"
    using extends_appends [OF appends_varint [OF isUint32_le [OF \<open>isUint32 v\<close>]], of w] by simp
qed

lemma encode_key_parses:
  assumes "encode_key key v w = (None, w')" "val_ok v"
  shows "\<exists>bs. extends w w' bs \<and> parses (decode_key key) bs (seen_key key v)"
proof (cases key)
  case None
  then have e: "encodeIndex v w = (None, w')" using assms by (simp add: encode_key_def)
  from encodeIndex_parses [OF e] parses_index show ?thesis
    unfolding None decode_key_def [abs_def] seen_key_def by auto
next
  case (Some k)
  then have "writeScalar k v w = (None, w')" using assms by (simp add: encode_key_def)
  from writeScalar_parses [OF this assms(2)] Some show ?thesis
    by (auto simp: decode_key_def [abs_def] seen_key_def)
qed

lemma encode_removed_parses:
  assumes "(case keyType ty of
        Some key \<Rightarrow> writeScalar key v w
      | None \<Rightarrow> if isArray ty then encodeIndex v w
               else case ty of PSet el \<Rightarrow> writeScalar el v w | _ \<Rightarrow> encodeIndex v w) = (None, w')" "val_ok v"
  shows "\<exists>bs. extends w w' bs \<and> parses (\<lambda>r. case keyType ty of
        Some key \<Rightarrow> readScalar key r
      | None \<Rightarrow> (case ty of PSet el \<Rightarrow> readScalar el r | _ \<Rightarrow> (case get_varint r of (n, r) \<Rightarrow> (nat_val n, r)))) bs
      (seen_removed ty v)"
  using assms writeScalar_parses [of _ v w w'] encodeIndex_parses [of v w w'] parses_index [of v]
  by (cases ty) (auto simp: seen_removed_def)

lemma parses_finish:
  "parses g bs (Some v, t') \<Longrightarrow>
   parses (\<lambda>r. case g r of (vt, r) \<Rightarrow> (finish mk ref lst vt, r)) bs (Some (JArr (mk v)), t', settle ref v)"
  using parses_map [of g bs "(Some v, t')" "finish mk ref lst"] by (simp add: finish_def)

lemma collection_SET_parses:
  assumes "encodeIndex i w = (None, w1)" "encodeElement ty v w1 t = (Inr c, w', t')" "val_ok v" "isArray ty"
  shows "\<exists>bs. extends w w' bs \<and> parses (decode_collection_op 0 ref ty t lst) bs
     (Some (JArr [nat_val 0, nat_val ref, seen_uint i, seen_element ty v]), t', case c of None \<Rightarrow> ref | Some r \<Rightarrow> r)"
proof -
  note i = encodeIndex_parses [OF assms(1)]
  obtain bs where e: "extends w1 w' bs" "parses (decode_element ty t) bs (Some (seen_element ty v), t')"
    "(case c of None \<Rightarrow> ref | Some r \<Rightarrow> r) = settle ref (seen_element ty v)"
    using encodeElement_parses [OF assms(2,3)] by blast
  have "parses (\<lambda>r. case get_varint r of (index, r) \<Rightarrow> case decode_element ty t r of (vt, r) \<Rightarrow>
      (finish (\<lambda>v. [nat_val 0, nat_val ref, nat_val index, v]) ref lst vt, r)) (varint_bytes (uint_of i) @ bs)
      (Some (JArr [nat_val 0, nat_val ref, nat_val (uint_of i), seen_element ty v]), t', settle ref (seen_element ty v))"
    by (rule parses_bind [OF parses_varint [OF isUint32_le [OF i(1)]]], rule parses_finish [OF e(2)])
  then show ?thesis using extends_trans [OF i(2) e(1)] e(3) assms(4)
    by (auto simp: decode_collection_op_def [abs_def] seen_uint_def)
qed

lemma collection_ADD_parses:
  assumes "encode_key (keyType ty) k w = (None, w1)" "encodeElement ty v w1 t = (Inr c, w', t')"
    "val_ok k" "val_ok v" "\<not> isSet ty"
  shows "\<exists>bs. extends w w' bs \<and> parses (decode_collection_op 1 ref ty t lst) bs
     (Some (JArr [nat_val 1, nat_val ref, seen_key (keyType ty) k, seen_element ty v]), t', case c of None \<Rightarrow> ref | Some r \<Rightarrow> r)"
proof -
  obtain ks where k: "extends w w1 ks" "parses (decode_key (keyType ty)) ks (seen_key (keyType ty) k)"
    using encode_key_parses [OF assms(1,3)] by blast
  obtain bs where e: "extends w1 w' bs" "parses (decode_element ty t) bs (Some (seen_element ty v), t')"
    "(case c of None \<Rightarrow> ref | Some r \<Rightarrow> r) = settle ref (seen_element ty v)"
    using encodeElement_parses [OF assms(2,4)] by blast
  have "parses (\<lambda>r. case decode_key (keyType ty) r of (index, r) \<Rightarrow> case decode_element ty t r of (vt, r) \<Rightarrow>
      (finish (\<lambda>v. [nat_val 1, nat_val ref, index, v]) ref lst vt, r)) (ks @ bs)
      (Some (JArr [nat_val 1, nat_val ref, seen_key (keyType ty) k, seen_element ty v]), t', settle ref (seen_element ty v))"
    by (rule parses_bind [OF k(2)], rule parses_finish [OF e(2)])
  then show ?thesis using extends_trans [OF k(1) e(1)] e(3) assms(5)
    by (auto simp: decode_collection_op_def [abs_def])
qed

lemma collection_set_ADD_parses:
  assumes "encodeElement ty v w t = (Inr c, w', t')" "val_ok v" "isSet ty"
  shows "\<exists>bs. extends w w' bs \<and> parses (decode_collection_op 1 ref ty t lst) bs
     (Some (JArr [nat_val 1, nat_val ref, seen_element ty v]), t', case c of None \<Rightarrow> ref | Some r \<Rightarrow> r)"
proof -
  obtain bs where e: "extends w w' bs" "parses (decode_element ty t) bs (Some (seen_element ty v), t')"
    "(case c of None \<Rightarrow> ref | Some r \<Rightarrow> r) = settle ref (seen_element ty v)"
    using encodeElement_parses [OF assms(1,2)] by blast
  from parses_finish [OF e(2), of "\<lambda>v. [nat_val 1, nat_val ref, v]" ref lst] show ?thesis
    using e assms(3) by (auto simp: decode_collection_op_def [abs_def])
qed

lemma collection_REMOVE_parses:
  assumes "(case keyType ty of
        Some key \<Rightarrow> writeScalar key v w
      | None \<Rightarrow> if isArray ty then encodeIndex v w
               else case ty of PSet el \<Rightarrow> writeScalar el v w | _ \<Rightarrow> encodeIndex v w) = (None, w')" "val_ok v"
  shows "\<exists>bs. extends w w' bs \<and> parses (decode_collection_op 2 ref ty t lst) bs
     (Some (JArr [nat_val 2, nat_val ref, seen_removed ty v]), t, ref)"
proof -
  define g where "g = (\<lambda>r. case keyType ty of
        Some key \<Rightarrow> readScalar key r
      | None \<Rightarrow> (case ty of PSet el \<Rightarrow> readScalar el r | _ \<Rightarrow> (case get_varint r of (n, r) \<Rightarrow> (nat_val n, r))))"
  obtain bs where e: "extends w w' bs" "parses g bs (seen_removed ty v)"
    using encode_removed_parses [OF assms] unfolding g_def by blast
  have "decode_collection_op 2 ref ty t lst = (\<lambda>r. case g r of (removed, r) \<Rightarrow>
      if rerror r \<noteq> None then ((None, t, lst), r) else ((Some (JArr [nat_val 2, nat_val ref, removed]), t, ref), r))"
    by (rule ext) (simp add: decode_collection_op_def g_def)
  moreover have "parses (\<lambda>r. case g r of (removed, r) \<Rightarrow>
      if rerror r \<noteq> None then ((None, t, lst), r) else ((Some (JArr [nat_val 2, nat_val ref, removed]), t, ref), r))
      (bs @ []) (Some (JArr [nat_val 2, nat_val ref, seen_removed ty v]), t, ref)"
    by (rule parses_bind [OF e(2)], rule parses_unless_error, rule parses_return)
  ultimately show ?thesis using e(1) by auto
qed

lemma is_lit_unique: "is_lit v k \<Longrightarrow> is_lit v k' \<longleftrightarrow> k' = k"
  by (auto simp: is_lit_iff)

lemma collection_parses:
  assumes "encode_payload op (TCollection ty) f w t = (Inr c, w', t')" "list_all val_ok op"
  shows "\<exists>code bs. code \<le> 3 \<and> is_lit (arg op 0) (int code) \<and> extends w w' bs
     \<and> parses (decode_collection_op code ref ty t lst) bs
         (Some (JArr (seen_collection ty ref op)), t', case c of None \<Rightarrow> ref | Some r \<Rightarrow> r)"
proof -
  have ok: "val_ok (arg op i)" for i using assms(2) by (rule val_ok_arg)
  consider "is_lit (arg op 0) 0" | "is_lit (arg op 0) 1" "isSet ty" | "is_lit (arg op 0) 1" "\<not> isSet ty"
    | "is_lit (arg op 0) 2" | "is_lit (arg op 0) 3"
    using assms(1) unfolding encode_payload_def by (auto split: if_splits)
  then show ?thesis
  proof cases
    case 1
    then obtain w1 where "encodeIndex (arg op 2) w = (None, w1)" "encodeElement ty (arg op 3) w1 t = (Inr c, w', t')" "isArray ty"
      using assms(1) unfolding encode_payload_def by (auto split: if_splits prod.splits option.splits)
    from collection_SET_parses [OF this(1,2) ok this(3), of ref lst] 1 show ?thesis
      by (auto simp: seen_collection_def intro!: exI [of _ 0])
  next
    case 2
    then have "encodeElement ty (arg op 2) w t = (Inr c, w', t')"
      using assms(1) unfolding encode_payload_def by (auto simp: is_lit_unique split: if_splits)
    from collection_set_ADD_parses [OF this ok 2(2), of ref lst] 2 show ?thesis
      by (auto simp: seen_collection_def is_lit_unique intro!: exI [of _ 1])
  next
    case 3
    then obtain w1 where "encode_key (keyType ty) (arg op 2) w = (None, w1)" "encodeElement ty (arg op 3) w1 t = (Inr c, w', t')"
      using assms(1) unfolding encode_payload_def by (auto simp: is_lit_unique split: if_splits prod.splits option.splits)
    from collection_ADD_parses [OF this ok ok 3(2), of ref lst] 3 show ?thesis
      by (auto simp: seen_collection_def is_lit_unique intro!: exI [of _ 1])
  next
    case 4
    then obtain "c = None" "t' = t" and r: "(case keyType ty of
        Some key \<Rightarrow> writeScalar key (arg op 2) w
      | None \<Rightarrow> if isArray ty then encodeIndex (arg op 2) w
               else case ty of PSet el \<Rightarrow> writeScalar el (arg op 2) w | _ \<Rightarrow> encodeIndex (arg op 2) w) = (None, w')"
      using assms(1) unfolding encode_payload_def by (auto simp: is_lit_unique split: if_splits prod.splits option.splits)
    with collection_REMOVE_parses [OF r ok, of ref t lst] 4 show ?thesis
      by (auto simp: seen_collection_def is_lit_unique intro!: exI [of _ 2])
  next
    case 5
    then have "c = None" "t' = t" "w' = w"
      using assms(1) unfolding encode_payload_def by (auto simp: is_lit_unique split: if_splits)
    moreover have "parses (decode_collection_op 3 ref ty t lst) [] (Some (JArr [nat_val 3, nat_val ref]), t, ref)"
      by (simp add: decode_collection_op_def [abs_def] parses_return)
    ultimately show ?thesis using 5
      by (auto simp: seen_collection_def is_lit_unique intro!: exI [of _ 3] exI [of _ "[]"])
  qed
qed

section \<open>Ops\<close>

lemma header_bits:
  fixes c f s :: nat
  assumes "c \<le> 3" "f \<le> 15" "s = 0 \<or> s = HEADER_S"
  defines "h \<equiv> push_bit 5 c OR s OR f"
  shows "h < 256" "drop_bit 5 h = c" "h AND HEADER_S \<noteq> 0 \<longleftrightarrow> s \<noteq> 0" "h AND 15 = f"
proof -
  have s: "take_bit 8 s = s" "drop_bit 5 s = 0" "take_bit 4 s = 0" "bit s 4 \<longleftrightarrow> s \<noteq> 0"
    using assms(3) bit_exp_iff [of 4 4, where ?'a = nat]
    by (auto simp: HEADER_S_def take_bit_eq_mod drop_bit_eq_div)
  have f: "take_bit 8 f = f" "drop_bit 5 f = 0" "take_bit 4 f = f" "\<not> bit f 4"
    using assms(2) by (simp_all add: take_bit_eq_mod drop_bit_eq_div bit_iff_odd)
  have c: "take_bit 8 (push_bit 5 c) = push_bit 5 c" "take_bit 4 (push_bit 5 c) = 0"
    using assms(1) by (simp_all add: take_bit_eq_mod push_bit_eq_mult)
  have "take_bit 8 h = h" by (simp add: h_def take_bit_or s f c)
  then show "h < 256" using take_bit_nat_less_exp [of 8 h] by simp
  have "drop_bit 5 (push_bit 5 c) = c" by (simp add: drop_bit_eq_div push_bit_eq_mult)
  then show "drop_bit 5 h = c" by (simp add: h_def drop_bit_or s f)
  show "h AND 15 = f"
    using take_bit_eq_mask [of 4 h] by (simp add: mask_eq_exp_minus_1 h_def take_bit_or s f c)
  have "h AND HEADER_S = 0 \<longleftrightarrow> \<not> bit h 4" using and_exp_eq_0_iff_not_bit [of h 4] by (simp add: HEADER_S_def)
  then show "h AND HEADER_S \<noteq> 0 \<longleftrightarrow> s \<noteq> 0" using s f by (simp add: h_def bit_or_iff bit_push_bit_iff)
qed

text \<open>An op as the receiver gets it.\<close>

definition seen_op :: "Tables \<Rightarrow> jsval list \<Rightarrow> jsval list" where
  "seen_op t op =
     (if is_lit (arg op 0) 4 then op
      else let ref = uint_of (arg op 1)
           in case targets t ref of
                Some (TInstance l) \<Rightarrow>
                  [nat_val 0, nat_val ref, seen_uint (arg op 2), seen_value (ltypes l ! uint_of (arg op 2)) (arg op 3)]
              | Some (TCollection type) \<Rightarrow> seen_collection type ref op
              | None \<Rightarrow> op)"

lemma parses_target_ref:
  "ref \<le> MAX_UINT32 \<Longrightarrow> same \<longrightarrow> ref = lst \<Longrightarrow>
   parses (\<lambda>r. if same then (lst, r) else get_varint r) (if same then [] else varint_bytes ref) ref"
  by (auto simp: parses_varint parses_return)

lemma parses_field:
  "i \<le> MAX_UINT32 \<Longrightarrow>
   parses (\<lambda>r. if min i F_ESCAPE = F_ESCAPE then (case get_varint r of (n, r) \<Rightarrow> (F_ESCAPE + n, r)) else (min i F_ESCAPE, r))
     (if min i F_ESCAPE = F_ESCAPE then varint_bytes (i - F_ESCAPE) else []) i"
  using parses_map [OF parses_varint [of "i - F_ESCAPE"], of "\<lambda>n. F_ESCAPE + n"]
  by (auto simp: parses_return min_def)

lemma instance_parses:
  assumes "encode_payload op (TInstance l) (Some i) w t = (Inr c, w', t')" "list_all val_ok op" "i \<le> MAX_UINT32"
  shows "\<exists>bs. is_lit (arg op 0) 0 \<and> extends w w' bs
     \<and> parses (decode_instance_op 0 (min i F_ESCAPE) ref l t lst)
        ((if min i F_ESCAPE = F_ESCAPE then varint_bytes (i - F_ESCAPE) else []) @ bs)
         (Some (JArr [nat_val 0, nat_val ref, nat_val i, seen_value (ltypes l ! i) (arg op 3)]), t',
          case c of None \<Rightarrow> ref | Some r \<Rightarrow> r)"
proof -
  from assms(1) have p: "is_lit (arg op 0) 0" "i < length (ltypes l)" "encodeValue (ltypes l ! i) (arg op 3) w t = (Inr c, w', t')"
    unfolding encode_payload_def by (auto split: if_splits)
  obtain bs where e: "extends w w' bs" "parses (decode_value (ltypes l ! i) t) bs (Some (seen_value (ltypes l ! i) (arg op 3)), t')"
    "(case c of None \<Rightarrow> ref | Some r \<Rightarrow> r) = settle ref (seen_value (ltypes l ! i) (arg op 3))"
    using encodeValue_parses [OF p(3) val_ok_arg [OF assms(2)]] by blast
  define f where "f = min i F_ESCAPE"
  define h where "h = (\<lambda>field r. if length (ltypes l) \<le> field then
          ((None, t, lst), fail (Msg ''field {} out of range'' [nat_val field]) r)
        else case decode_value (ltypes l ! field) t r of (vt, r) \<Rightarrow>
          (finish (\<lambda>v. [nat_val 0, nat_val ref, nat_val field, v]) ref lst vt, r))"
  have "parses (h i) bs (Some (JArr [nat_val 0, nat_val ref, nat_val i, seen_value (ltypes l ! i) (arg op 3)]), t',
      settle ref (seen_value (ltypes l ! i) (arg op 3)))"
    using parses_finish [OF e(2), of "\<lambda>v. [nat_val 0, nat_val ref, nat_val i, v]" ref lst] p(2) by (simp add: h_def)
  from parses_bind [OF parses_field [OF assms(3), folded f_def], of h, OF this]
  have "parses (decode_instance_op 0 f ref l t lst) ((if f = F_ESCAPE then varint_bytes (i - F_ESCAPE) else []) @ bs)
      (Some (JArr [nat_val 0, nat_val ref, nat_val i, seen_value (ltypes l ! i) (arg op 3)]), t',
      settle ref (seen_value (ltypes l ! i) (arg op 3)))"
    by (simp add: decode_instance_op_def [abs_def] h_def)
  then show ?thesis unfolding f_def [symmetric] using e p(1) by auto
qed

definition header_bytes_of :: "nat \<Rightarrow> nat \<Rightarrow> nat \<Rightarrow> nat \<Rightarrow> byte list" where
  "header_bytes_of code ref lst f =
     word_of_nat (push_bit 5 code OR (if ref = lst then HEADER_S else 0) OR f) # (if ref = lst then [] else varint_bytes ref)"

lemma encode_header_extends:
  assumes "is_lit code (int c)" "ref \<le> MAX_UINT32" "\<And>i. field = Some i \<Longrightarrow> i \<le> MAX_UINT32"
  defines "f \<equiv> (case field of None \<Rightarrow> 0 | Some i \<Rightarrow> min i F_ESCAPE)"
  shows "extends w (encode_header code ref lst field w)
     (header_bytes_of c ref lst f @ (if f = F_ESCAPE then varint_bytes (the field - F_ESCAPE) else []))"
proof -
  let ?same = "if ref = lst then HEADER_S else 0"
  have cb: "code_bits code = push_bit 5 c" using assms(1) by (auto simp: is_lit_iff code_bits_def)
  have S: "HEADER_S \<noteq> 0" "F_ESCAPE \<noteq> 0" by (simp_all add: HEADER_S_def F_ESCAPE_def)
  have fl: "the field - F_ESCAPE \<le> MAX_UINT32" if "f = F_ESCAPE"
    using that assms(3) S by (cases field) (auto simp: f_def intro: order_trans [OF diff_le_self])
  have "appends (\<lambda>w. put_u8 (push_bit 5 c OR ?same OR f) w) [word_of_nat (push_bit 5 c OR ?same OR f)]"
    by (rule appends_u8)
  moreover have "appends (\<lambda>w. if ?same = 0 then put_varint ref w else w) (if ref = lst then [] else varint_bytes ref)"
    using S assms(2) by (auto intro: appends_varint appends_id)
  moreover have "appends (\<lambda>w. if f = F_ESCAPE then put_varint (the field - F_ESCAPE) w else w)
      (if f = F_ESCAPE then varint_bytes (the field - F_ESCAPE) else [])"
    using fl by (auto intro: appends_varint appends_id)
  ultimately have "appends (\<lambda>w. encode_header code ref lst field w)
      ([word_of_nat (push_bit 5 c OR ?same OR f)] @ (if ref = lst then [] else varint_bytes ref)
       @ (if f = F_ESCAPE then varint_bytes (the field - F_ESCAPE) else []))"
    unfolding encode_header_def Let_def cb f_def [symmetric] by (intro appends_comp)
  from extends_appends [OF this, of w] show ?thesis by (simp add: header_bytes_of_def)
qed

lemma parses_after_header:
  assumes "c \<le> 3" "f \<le> 15" "ref \<le> MAX_UINT32"
    "parses (\<lambda>r. case targets t ref of
                  None \<Rightarrow> ((None, t, lst), fail (Msg ''unknown target refId {}'' [nat_val ref]) r)
                | Some (TInstance layout) \<Rightarrow> decode_instance_op c f ref layout t lst r
                | Some (TCollection type) \<Rightarrow>
                    if f \<noteq> 0 then ((None, t, lst), fail (Msg ''F must be 0 on a collection op'' []) r)
                    else decode_collection_op c ref type t lst r) bs v"
  shows "parses (decode_op t lst) (header_bytes_of c ref lst f @ bs) v"
proof -
  define s where "s = (if ref = lst then HEADER_S else 0)"
  define h where "h = push_bit 5 c OR s OR f"
  have S: "s = 0 \<or> s = HEADER_S" "s \<noteq> 0 \<longleftrightarrow> ref = lst" by (auto simp: s_def HEADER_S_def)
  note hb = header_bits [OF assms(1,2) S(1), folded h_def]
  have u8: "parses get_u8 [word_of_nat h] h" by (rule u8_codec.get_parses) (rule hb(1))
  have "parses (\<lambda>r. case (if ref = lst then (lst, r) else get_varint r) of (ref, r) \<Rightarrow>
           if rerror r \<noteq> None then ((None, t, lst), r)
           else case targets t ref of
                  None \<Rightarrow> ((None, t, lst), fail (Msg ''unknown target refId {}'' [nat_val ref]) r)
                | Some (TInstance layout) \<Rightarrow> decode_instance_op c f ref layout t lst r
                | Some (TCollection type) \<Rightarrow>
                    if f \<noteq> 0 then ((None, t, lst), fail (Msg ''F must be 0 on a collection op'' []) r)
                    else decode_collection_op c ref type t lst r) ((if ref = lst then [] else varint_bytes ref) @ bs) v"
    by (rule parses_bind [OF parses_target_ref [OF assms(3)]], simp, rule parses_unless_error, rule assms(4))
  moreover have "\<not> 4 \<le> c" using assms(1) by simp
  ultimately have "parses (decode_op_after h t lst) ((if ref = lst then [] else varint_bytes ref) @ bs) v"
    unfolding decode_op_after_def [abs_def] Let_def hb(2,3,4) S(2) by simp
  from parses_bind [OF u8, of "\<lambda>h. decode_op_after h t lst", OF this]
  show ?thesis by (simp add: decode_op_def [abs_def] header_bytes_of_def h_def s_def)
qed

lemma encode_op_parses:
  assumes "encode_op op e = (None, e')" "\<not> is_lit (arg op 0) 4" "list_all val_ok op"
  shows "\<exists>bs. bs \<noteq> [] \<and> extends (eout e) (eout e') bs
     \<and> parses (decode_op (etables e) (elast e)) bs (Some (JArr (seen_op (etables e) op)), etables e', elast e')"
proof -
  let ?t = "etables e" and ?ref = "uint_of (arg op 1)"
  from assms(1,2) obtain target field w t carried where u: "isUint32 (arg op 1)" and tg: "targets ?t ?ref = Some target"
    and hf: "header_field op target = Inr field"
    and pl: "encode_payload op target field (encode_header (arg op 0) ?ref (elast e) field (eout e)) ?t = (Inr carried, w, t)"
    and e': "e' = \<lparr>eout = w, etables = t, elast = (case carried of None \<Rightarrow> ?ref | Some r \<Rightarrow> r)\<rparr>"
    unfolding encode_op_def by (auto simp: Let_def split: if_splits option.splits sum.splits prod.splits)
  have le: "?ref \<le> MAX_UINT32" by (rule isUint32_le [OF u])
  show ?thesis
  proof (cases target)
    case (TInstance l)
    with pl have "is_lit (arg op 0) 0" by (auto simp: encode_payload_def split: if_splits)
    with hf TInstance have i: "field = Some (uint_of (arg op 2))" "uint_of (arg op 2) \<le> MAX_UINT32"
      by (auto simp: header_field_def isUint32_le split: if_splits)
    let ?f = "min (uint_of (arg op 2)) F_ESCAPE"
    obtain bs where p: "is_lit (arg op 0) 0" "extends (encode_header (arg op 0) ?ref (elast e) field (eout e)) w bs"
      "parses (decode_instance_op 0 ?f ?ref l ?t (elast e))
        ((if ?f = F_ESCAPE then varint_bytes (uint_of (arg op 2) - F_ESCAPE) else []) @ bs)
         (Some (JArr (seen_op ?t op)), t, case carried of None \<Rightarrow> ?ref | Some r \<Rightarrow> r)"
      using instance_parses [OF pl [unfolded TInstance i(1)] assms(3) i(2), of ?ref "elast e"] assms(2) tg TInstance i(1)
      by (auto simp: seen_op_def seen_uint_def)
    have "extends (eout e) w ((header_bytes_of 0 ?ref (elast e) ?f @ (if ?f = F_ESCAPE then varint_bytes (uint_of (arg op 2) - F_ESCAPE) else [])) @ bs)"
      unfolding i(1)
      by (rule extends_trans [OF encode_header_extends [where field = "Some (uint_of (arg op 2))", unfolded option.case option.sel]
            p(2) [unfolded i(1)]]) (use p(1) le i(2) in auto)
    moreover have "parses (decode_op ?t (elast e)) (header_bytes_of 0 ?ref (elast e) ?f
        @ (if ?f = F_ESCAPE then varint_bytes (uint_of (arg op 2) - F_ESCAPE) else []) @ bs)
       (Some (JArr (seen_op ?t op)), t, case carried of None \<Rightarrow> ?ref | Some r \<Rightarrow> r)"
      using p(3) tg TInstance by (intro parses_after_header le) (simp_all add: F_ESCAPE_def)
    ultimately show ?thesis using e' by (auto simp: header_bytes_of_def)
  next
    case (TCollection ty)
    with hf have f: "field = None" by (simp add: header_field_def)
    obtain code bs where p: "code \<le> 3" "is_lit (arg op 0) (int code)"
      "extends (encode_header (arg op 0) ?ref (elast e) None (eout e)) w bs"
      "parses (decode_collection_op code ?ref ty ?t (elast e)) bs
         (Some (JArr (seen_op ?t op)), t, case carried of None \<Rightarrow> ?ref | Some r \<Rightarrow> r)"
      using collection_parses [OF pl [unfolded TCollection f] assms(3), of ?ref "elast e"] assms(2) tg TCollection
      by (auto simp: seen_op_def)
    have "extends (eout e) w (header_bytes_of code ?ref (elast e) 0 @ bs)"
      using encode_header_extends [of "arg op 0" code ?ref None "eout e" "elast e"] p(2) le
      by (intro extends_trans [OF _ p(3)]) (simp add: F_ESCAPE_def)
    moreover have "parses (decode_op ?t (elast e)) (header_bytes_of code ?ref (elast e) 0 @ bs)
       (Some (JArr (seen_op ?t op)), t, case carried of None \<Rightarrow> ?ref | Some r \<Rightarrow> r)"
      using p(4) tg TCollection by (intro parses_after_header le p(1)) simp_all
    ultimately show ?thesis using e' by (auto simp: header_bytes_of_def)
  qed
qed

lemma encode_define_op_parses:
  assumes "encode_op op e = (None, e')" "is_lit (arg op 0) 4" "val_ok (JArr op)" "define_clean op"
  shows "\<exists>bs. bs \<noteq> [] \<and> extends (eout e) (eout e') bs
     \<and> parses (decode_op (etables e) (elast e)) bs (Some (JArr (seen_op (etables e) op)), etables e', elast e')"
proof -
  obtain u w t where d: "encodeDefine op (eout e) (etables e) = (Inr u, w, t)" and e': "e' = e\<lparr>eout := w, etables := t\<rparr>"
    using assms(1,2) unfolding encode_op_def by (auto split: sum.splits prod.splits)
  obtain bs where b: "extends (eout e) w (0x80 # bs)" "parses (decode_define (etables e)) bs (Some (JArr op), t)"
    using encodeDefine_parses [OF d assms(4,3)] by blast
  have h: "drop_bit 5 (128 :: nat) = 4" "(128 :: nat) AND HEADER_S = 0" "(128 :: nat) AND 15 = 0"
    by (simp_all add: drop_bit_eq_div HEADER_S_def)
  have u8: "parses get_u8 [0x80] 128" using u8_codec.get_parses [of 128] by simp
  have "parses (\<lambda>r. case decode_define (etables e) r of (vt, r) \<Rightarrow> (case vt of (v, t) \<Rightarrow> (v, t, elast e), r)) bs
      (Some (JArr op), t, elast e)"
    using parses_map [OF b(2), of "\<lambda>(v, t). (v, t, elast e)"] by simp
  moreover have "decode_op_after 128 (etables e) (elast e)
      = (\<lambda>r. case decode_define (etables e) r of (vt, r) \<Rightarrow> (case vt of (v, t) \<Rightarrow> (v, t, elast e), r))"
    by (rule ext) (simp add: decode_op_after_def h split: prod.split)
  ultimately have "parses (decode_op_after 128 (etables e) (elast e)) bs (Some (JArr op), t, elast e)" by simp
  from parses_bind [OF u8, of "\<lambda>h. decode_op_after h (etables e) (elast e)", OF this]
  have "parses (decode_op (etables e) (elast e)) (0x80 # bs) (Some (JArr op), t, elast e)"
    by (simp add: decode_op_def [abs_def])
  then show ?thesis using b(1) e' assms(2) by (auto simp: seen_op_def)
qed

section \<open>Frames\<close>

text \<open>An op with values an engine can hold, and a clean one if it defines a class.\<close>

fun op_ok :: "jsval \<Rightarrow> bool" where
  "op_ok (JArr op) = (val_ok (JArr op) \<and> (is_lit (arg op 0) 4 \<longrightarrow> define_clean op))"
| "op_ok _ = False"

text \<open>The ops of a frame as the receiver gets them, each against the tables it was encoded in.\<close>

fun seen_ops :: "jsval list \<Rightarrow> OpEncoder \<Rightarrow> jsval list" where
  "seen_ops [] e = []"
| "seen_ops (op # ops) e =
     JArr (seen_op (etables e) (op_args op)) # seen_ops ops (snd (encode_op (op_args op) e))"

lemma op_parses:
  assumes "encode_op op e = (None, e')" "op_ok (JArr op)"
  shows "\<exists>bs. bs \<noteq> [] \<and> extends (eout e) (eout e') bs
     \<and> parses (decode_op (etables e) (elast e)) bs (Some (JArr (seen_op (etables e) op)), etables e', elast e')"
  using assms encode_op_parses [OF assms(1)] encode_define_op_parses [OF assms(1)]
  by (cases "is_lit (arg op 0) 4") auto

lemma encode_all_decodes:
  "encode_all i ops e = (None, e') \<Longrightarrow> list_all op_ok ops \<Longrightarrow>
   \<exists>bs. extends (eout e) (eout e') bs \<and>
     (\<forall>r. rd_at r bs \<longrightarrow> decode_loop (etables e) (elast e) r = (seen_ops ops e, etables e', adv (length bs) r))"
proof (induction i ops e rule: encode_all.induct)
  case (1 i e)
  then show ?case by (auto intro!: exI [of _ "[]"] simp: decode_loop.simps rd_at_done)
next
  case (2 i op ops e)
  obtain vs where op: "op = JArr vs" and ok: "op_ok (JArr vs)" using "2.prems"(2) by (cases op) auto
  obtain e1 where e1: "encode_op vs e = (None, e1)" and rest: "encode_all (Suc i) ops e1 = (None, e')"
    using "2.prems"(1) op by (auto split: prod.splits option.splits message.splits)
  obtain as where a: "as \<noteq> []" "extends (eout e) (eout e1) as"
    "parses (decode_op (etables e) (elast e)) as (Some (JArr (seen_op (etables e) vs)), etables e1, elast e1)"
    using op_parses [OF e1 ok] by blast
  obtain bs where b: "extends (eout e1) (eout e') bs"
    "\<And>r. rd_at r bs \<Longrightarrow> decode_loop (etables e1) (elast e1) r = (seen_ops ops e1, etables e', adv (length bs) r)"
    using "2.IH" [of None e1] op e1 rest "2.prems"(2) by auto
  have "decode_loop (etables e) (elast e) r = (seen_ops (op # ops) e, etables e', adv (length (as @ bs)) r)"
    if r: "rd_at r (as @ bs)" for r
  proof -
    have d: "decode_op (etables e) (elast e) r
        = ((Some (JArr (seen_op (etables e) vs)), etables e1, elast e1), adv (length as) r)"
      using parsesD [OF a(3) r] .
    have "\<not> done_reading r" using rd_at_done [OF r] a(1) by simp
    with d b(2) [OF rd_at_adv [OF r]] rd_at_error [OF r] show ?thesis
      by (simp add: decode_loop.simps [of "etables e" "elast e" r] op e1)
  qed
  then show ?case using extends_trans [OF a(2) b(1)] by blast
qed

definition start_encoder :: "SchemaSession \<Rightarrow> OpEncoder" where
  "start_encoder s = \<lparr>eout = reset (sout s), etables = tables_begin (stables s), elast = 0\<rparr>"

lemma same_tables_begin: "same_tables a b \<Longrightarrow> tables_begin a = tables_begin b"
  by (simp add: same_tables_def tables_begin_def)

lemma decodeOps_encodeOps:
  assumes "encodeOps ops s = (Inr bytes, s')" "list_all op_ok ops" "wbytes (sout s) \<noteq> []"
    "same_tables (stables d) (stables s)"
  shows "\<exists>d'. decodeOps bytes d = (Inr (seen_ops ops (start_encoder s)), d') \<and> same_tables (stables d') (stables s')"
proof -
  obtain e' where e': "encode_all 0 ops (start_encoder s) = (None, e')" and b: "bytes = toBytes (eout e')"
    and s': "s' = \<lparr>stables = etables e', sout = eout e'\<rparr>"
    using assms(1) by (auto simp: encodeOps_def start_encoder_def split: prod.splits option.splits)
  obtain bs where x: "extends (reset (sout s)) (eout e') bs"
    and l: "\<And>r. rd_at r bs \<Longrightarrow> decode_loop (tables_begin (stables s)) 0 r = (seen_ops ops (start_encoder s), etables e', adv (length bs) r)"
    using encode_all_decodes [OF e' assms(2)] by (auto simp: start_encoder_def)
  have "writer_ok (reset (sout s))" using assms(3) by (simp add: writer_ok_def reset_def)
  then have bs: "bytes = bs" using x b by (auto simp: extends_def)
  have "rerror (adv (length bs) (new_reader bs)) = None" by (simp add: adv_def new_reader_def)
  with l [of "new_reader bs"] bs have "decodeOps bytes d = (Inr (seen_ops ops (start_encoder s)), d\<lparr>stables := etables e'\<rparr>)"
    by (simp add: decodeOps_def same_tables_begin [OF assms(4)])
  then show ?thesis using s' bs by (simp add: same_tables_def)
qed

section \<open>The scratch buffer survives failures\<close>

text \<open>A failed encode may leave a partial write behind; the next frame resets it.\<close>

definition live :: "(bytewriter \<Rightarrow> bytewriter) \<Rightarrow> bool" where
  "live f = (\<forall>w. wbytes w \<noteq> [] \<longrightarrow> wbytes (f w) \<noteq> [])"

lemma put_at_nonempty: "buf \<noteq> [] \<Longrightarrow> put_at i xs buf \<noteq> []"
  by (cases i; cases buf; cases xs) (auto simp: put_at_def)

lemma live_reserve: "live (reserve n)"
proof -
  have "replicate (grow_size (length (wbytes w) * 2) m) (0 :: byte) \<noteq> []" if "wbytes w \<noteq> []" for w m
    using grow_size_ge [of "length (wbytes w) * 2" m] that by (cases "wbytes w") auto
  note put_at_nonempty [OF this]
  then show ?thesis by (auto simp: live_def reserve_def Let_def)
qed

lemma live_comp: "live f \<Longrightarrow> live g \<Longrightarrow> live (\<lambda>w. g (f w))"
  by (simp add: live_def)

lemma live_varint_loop: "wbytes w \<noteq> [] \<Longrightarrow> wbytes (varint_loop v w) \<noteq> []"
  by (induction v w rule: varint_loop.induct) (simp add: varint_loop.simps push_def)

lemma live_u8: "live (put_u8 b)"
  using live_reserve [of 1] by (auto simp: live_def put_u8_def push_def)

lemma live_varint: "live (put_varint v)"
  using live_reserve [of 5] live_varint_loop by (auto simp: live_def put_varint_def)

lemma live_zigzag: "live (put_zigzag v)"
  using live_varint by (simp add: live_def put_zigzag_def)

lemma live_floats: "live (put_float64 x)" "live (put_float32 x)"
  using live_reserve [of 8] live_reserve [of 4]
  by (auto simp: live_def put_float64_def put_float32_def store_def put_at_nonempty)

lemma live_string: "live (put_string s)"
proof -
  have r: "wbytes (reserve n w) \<noteq> []" if "wbytes w \<noteq> []" for n w
    using live_reserve that by (simp add: live_def)
  have v: "wbytes (put_varint n w) \<noteq> []" if "wbytes w \<noteq> []" for n w
    using live_varint that by (simp add: live_def)
  show ?thesis by (auto simp: live_def put_string_def Let_def put_at_nonempty r v)
qed

lemma live_writeInt: "live (writeInt k v)"
  by (cases k) (simp_all add: writeInt_fun live_u8 live_varint live_zigzag)

lemma live_id: "live (\<lambda>w. w)"
  by (simp add: live_def)

lemma live_snd_if: "live (\<lambda>w. snd (f w)) \<Longrightarrow> live (\<lambda>w. snd (g w)) \<Longrightarrow> live (\<lambda>w. snd (if P then f w else g w))"
  by (cases P) simp_all

lemma live_snd_pair: "live f \<Longrightarrow> live (\<lambda>w. snd (c, f w))"
  by simp

lemmas live_primitives = live_id live_floats live_string live_u8 live_zigzag live_writeInt

lemma live_jsval:
  "(\<And>n. live (\<lambda>w. snd (f n w))) \<Longrightarrow> live (\<lambda>w. snd (g w)) \<Longrightarrow> live (\<lambda>w. snd (case v of JNum n \<Rightarrow> f n w | _ \<Rightarrow> g w))"
  "(\<And>s. live (\<lambda>w. snd (fs s w))) \<Longrightarrow> live (\<lambda>w. snd (g w)) \<Longrightarrow> live (\<lambda>w. snd (case v of JStr s \<Rightarrow> fs s w | _ \<Rightarrow> g w))"
  "(\<And>b. live (\<lambda>w. snd (fb b w))) \<Longrightarrow> live (\<lambda>w. snd (g w)) \<Longrightarrow> live (\<lambda>w. snd (case v of JBool b \<Rightarrow> fb b w | _ \<Rightarrow> g w))"
  by (cases v; simp)+

lemma live_option:
  "(\<And>k. live (\<lambda>w. snd (f k w))) \<Longrightarrow> live (\<lambda>w. snd (g w)) \<Longrightarrow> live (\<lambda>w. snd (case x of Some k \<Rightarrow> f k w | None \<Rightarrow> g w))"
  by (cases x) simp_all

lemma live_writeScalar: "live (\<lambda>w. snd (writeScalar ty v w))"
  unfolding writeScalar_def by (intro live_snd_if live_jsval live_option live_snd_pair live_primitives)

lemma live_put_fields: "wbytes w \<noteq> [] \<Longrightarrow> wbytes (put_fields fs ts w) \<noteq> []"
  using live_string by (induction fs ts w rule: put_fields.induct) (auto simp: live_def)

lemmas live_use = live_def [THEN iffD1, rule_format]

lemma live_encodeRef: "encodeRef v w t = (x, w', t') \<Longrightarrow> wbytes w \<noteq> [] \<Longrightarrow> wbytes w' \<noteq> []"
  by (auto simp: encodeRef_def Let_def live_use [OF live_varint] split: if_splits prod.splits option.splits)

lemma live_writeScalarD: "writeScalar ty v w = (x, w') \<Longrightarrow> wbytes w \<noteq> [] \<Longrightarrow> wbytes w' \<noteq> []"
  using live_use [OF live_writeScalar, of w ty v] by simp

lemma live_encodeScalar: "encodeScalar ty v w t = (x, w', t') \<Longrightarrow> wbytes w \<noteq> [] \<Longrightarrow> wbytes w' \<noteq> []"
  by (auto simp: encodeScalar_def dest: live_writeScalarD split: prod.splits option.splits)

lemma live_encodeValue: "encodeValue ty v w t = (x, w', t') \<Longrightarrow> wbytes w \<noteq> [] \<Longrightarrow> wbytes w' \<noteq> []"
  by (cases ty) (auto dest: live_encodeRef live_encodeScalar)

lemma live_encodeElement: "encodeElement ty v w t = (x, w', t') \<Longrightarrow> wbytes w \<noteq> [] \<Longrightarrow> wbytes w' \<noteq> []"
  by (cases ty) (auto dest: live_encodeRef live_encodeScalar)

lemma live_encodeIndex: "encodeIndex v w = (x, w') \<Longrightarrow> wbytes w \<noteq> [] \<Longrightarrow> wbytes w' \<noteq> []"
  by (auto simp: encodeIndex_def live_use [OF live_varint] split: if_splits)

lemma live_encode_key: "encode_key k v w = (x, w') \<Longrightarrow> wbytes w \<noteq> [] \<Longrightarrow> wbytes w' \<noteq> []"
  by (auto simp: encode_key_def dest: live_encodeIndex live_writeScalarD split: option.splits)

lemma live_payload: "encode_payload op tg f w t = (x, w', t') \<Longrightarrow> wbytes w \<noteq> [] \<Longrightarrow> wbytes w' \<noteq> []"
  unfolding encode_payload_def
  by (cases tg) (auto dest: live_encodeValue live_encodeElement live_encodeIndex live_encode_key live_writeScalarD
      split: if_splits prod.splits option.splits ParsedFieldType.splits)

lemma live_encodeDefine: "encodeDefine op w t = (x, w', t') \<Longrightarrow> wbytes w \<noteq> [] \<Longrightarrow> wbytes w' \<noteq> []"
  by (auto simp: encodeDefine_def Let_def live_put_fields live_use [OF live_varint] live_use [OF live_string] live_use [OF live_u8]
      simp del: isWireOp.simps split: if_splits prod.splits option.splits)

lemma live_encode_header: "wbytes w \<noteq> [] \<Longrightarrow> wbytes (encode_header c r l f w) \<noteq> []"
  by (simp add: encode_header_def Let_def live_use [OF live_varint] live_use [OF live_u8])

lemma live_encode_op: "encode_op op e = (x, e') \<Longrightarrow> wbytes (eout e) \<noteq> [] \<Longrightarrow> wbytes (eout e') \<noteq> []"
  unfolding encode_op_def
  by (auto simp: Let_def dest!: live_encodeDefine live_payload simp: live_encode_header
      split: if_splits option.splits sum.splits prod.splits)

lemma live_encode_all: "encode_all i ops e = (x, e') \<Longrightarrow> wbytes (eout e) \<noteq> [] \<Longrightarrow> wbytes (eout e') \<noteq> []"
proof (induction i ops e rule: encode_all.induct)
  case (2 i op ops e)
  then show ?case
    by (cases op) (auto split: prod.splits option.splits message.splits dest: live_encode_op)
qed simp

lemma encodeOps_live: "encodeOps ops s = (x, s') \<Longrightarrow> wbytes (sout s) \<noteq> [] \<Longrightarrow> wbytes (sout s') \<noteq> []"
  using live_encode_all [of 0 ops "start_encoder s"]
  by (auto simp: encodeOps_def start_encoder_def reset_def split: prod.splits option.splits)

section \<open>A stream of frames\<close>

text \<open>
  The sender encodes batch after batch in one session; a batch that fails is not sent. The
  receiver decodes each frame in its own session. Each entry of the result is what the receiver
  should hold and what its session returned.
\<close>

fun stream :: "jsval list list \<Rightarrow> SchemaSession \<Rightarrow> SchemaSession
    \<Rightarrow> (jsval list \<times> (SerializerError + jsval list)) list \<times> SchemaSession \<times> SchemaSession" where
  "stream [] s d = ([], s, d)"
| "stream (ops # batches) s d =
     (case encodeOps ops s of
        (Inl e, s') \<Rightarrow> stream batches s' d
      | (Inr bytes, s') \<Rightarrow>
          (case decodeOps bytes d of
             (res, d') \<Rightarrow> (case stream batches s' d' of
                (out, s'', d'') \<Rightarrow> ((seen_ops ops (start_encoder s), res) # out, s'', d''))))"

lemma same_tables_sym: "same_tables a b \<Longrightarrow> same_tables b a"
  by (simp add: same_tables_def)

lemma same_tables_trans: "same_tables a b \<Longrightarrow> same_tables b c \<Longrightarrow> same_tables a c"
  by (simp add: same_tables_def)

lemma stream_agrees:
  assumes "list_all (list_all op_ok) batches" "wbytes (sout s) \<noteq> []" "tables_ok (stables s)"
    "same_tables (stables d) (stables s)" "stream batches s d = (out, s', d')"
  shows "(\<forall>(want, got) \<in> set out. got = Inr want) \<and> same_tables (stables d') (stables s')"
  using assms
proof (induction batches s d arbitrary: out rule: stream.induct)
  case (2 ops batches s d)
  obtain x s1 where e: "encodeOps ops s = (x, s1)" by fastforce
  note live = encodeOps_live [OF e "2.prems"(2)] and ok = encodeOps_ok [OF "2.prems"(3) e]
  show ?case
  proof (cases x)
    case (Inl err)
    have "same_tables (stables d) (stables s1)"
      using ok(2) [OF Inl] "2.prems"(4) same_tables_sym same_tables_trans by blast
    with 2 e Inl live ok show ?thesis by simp
  next
    case (Inr bytes)
    obtain d1 where d1: "decodeOps bytes d = (Inr (seen_ops ops (start_encoder s)), d1)"
      "same_tables (stables d1) (stables s1)"
      using decodeOps_encodeOps [OF e [unfolded Inr] _ "2.prems"(2,4)] "2.prems"(1) by auto
    obtain out1 s2 d2 where r: "stream batches s1 d1 = (out1, s2, d2)" using prod_cases3 by blast
    have eq: "s' = s2" "d' = d2" using "2.prems"(5) e Inr d1(1) r by simp_all
    have "(\<forall>(want, got) \<in> set out1. got = Inr want) \<and> same_tables (stables d2) (stables s2)"
      unfolding eq [symmetric] using "2.IH"(2) [OF e [symmetric] Inr d1(1) [symmetric]] r "2.prems"(1) live ok(1) d1(2) eq by auto
    with "2.prems"(5) e Inr d1 r show ?thesis by auto
  qed
qed simp

lemma val_ok_nat: "n < 2 ^ 53 \<Longrightarrow> val_ok (nat_val n)"
  using num_ok_int [of "int n"] by (simp add: nat_val_def del: rep.simps)

end
