(* ===== verification/Contract.thy ===== *)
theory Contract
  imports SchemaRoundtrip
begin

text \<open>
  Message declarations (\<open>types/contract.ts\<close>) and their definition-time checks
  (\<open>types/layout.ts\<close>). A field is its descriptor: scalar kinds stay strings, as in the
  source, so an unknown kind is a value the codecs meet in their \<open>default\<close> branches. A
  message carries the identity of its object, which \<open>messageProblems\<close> uses to visit a
  shared declaration once; \<open>fieldNames\<close> is \<open>Object.keys(fields)\<close>, the order of the
  list. Values that are no descriptor objects at all are not represented.
\<close>

section \<open>Loops with early return\<close>

text \<open>\<open>for (const x of xs) { const bad = f(x); if (bad !== undefined) return bad }\<close>.\<close>

fun each :: "('a \<Rightarrow> 's \<Rightarrow> 'e option \<times> 's) \<Rightarrow> 'a list \<Rightarrow> 's \<Rightarrow> 'e option \<times> 's" where
  "each f [] s = (None, s)"
| "each f (x # xs) s = (case f x s of (Some e, s) \<Rightarrow> (Some e, s) | (None, s) \<Rightarrow> each f xs s)"

lemma each_cong [fundef_cong]:
  "xs = ys \<Longrightarrow> s = t \<Longrightarrow> (\<And>x s. x \<in> set ys \<Longrightarrow> f x s = g x s) \<Longrightarrow> each f xs s = each g ys t"
proof (induction xs arbitrary: ys s t)
  case (Cons x xs)
  then obtain zs where "ys = x # zs" "zs = xs" by auto
  with Cons show ?case by (auto split: prod.split option.split)
qed simp

text \<open>A loop that collects the results and threads a state.\<close>

fun collect :: "('a \<Rightarrow> 's \<Rightarrow> 'b list \<times> 's) \<Rightarrow> 'a list \<Rightarrow> 's \<Rightarrow> 'b list \<times> 's" where
  "collect f [] s = ([], s)"
| "collect f (x # xs) s = (case f x s of (ps, s) \<Rightarrow> case collect f xs s of (qs, s) \<Rightarrow> (ps @ qs, s))"

lemma collect_cong [fundef_cong]:
  "xs = ys \<Longrightarrow> s = t \<Longrightarrow> (\<And>x s. x \<in> set ys \<Longrightarrow> f x s = g x s) \<Longrightarrow> collect f xs s = collect g ys t"
proof (induction xs arbitrary: ys s t)
  case (Cons x xs)
  then obtain zs where "ys = x # zs" "zs = xs" by auto
  with Cons show ?case by (auto split: prod.split)
qed simp

section \<open>Declarations\<close>

datatype field =
    FScalar jsstring
  | FFixed nat
  | FEnum "jsval list"
  | FArray field
  | FMap field
  | FOptional field
  | FNested messagedef
and messagedef = MessageDef (def_id: nat) (def_name: jsstring) (def_fields: "(jsstring \<times> field) list")

lemma size_field_mem [termination_simp]: "(n, f) \<in> set fs \<Longrightarrow> size f < Suc (size_list (size_prod (\<lambda>x. 0) size) fs)"
  by (induction fs) auto

text \<open>\<open>defineMessage\<close>: integer-like field names throw, since objects list them first.\<close>

definition defineMessage :: "nat \<Rightarrow> jsstring \<Rightarrow> (jsstring \<times> field) list \<Rightarrow> message + messagedef" where
  "defineMessage i name fs =
     (let bad = filter isIntegerLikeKey (map fst fs)
      in if bad \<noteq> [] then
           Inl (Msg ''defineMessage(\"{}\"): integer-like field names {} are not allowed (JS reorders them, which would change the wire order)''
             [JStr name, JArr (map JStr bad)])
         else Inr (MessageDef i name fs))"

definition NO_OPTIONS :: messagedef where
  "NO_OPTIONS = MessageDef 0 (js ''noOptions'') []"

record ContractOptions =
  ocreate :: "messagedef option"
  ojoin :: "messagedef option"

record Contract =
  client :: "(jsstring \<times> messagedef) list"
  server :: "(jsstring \<times> messagedef) list"
  options :: "ContractOptions option"

datatype option_kind = KCreate | KJoin

fun option_of :: "ContractOptions \<Rightarrow> option_kind \<Rightarrow> messagedef option" where
  "option_of opts KCreate = ocreate opts"
| "option_of opts KJoin = ojoin opts"

definition hasTypedOptions :: "Contract option \<Rightarrow> bool" where
  "hasTypedOptions c =
     (case c of
        None \<Rightarrow> False
      | Some c \<Rightarrow> (case options c of None \<Rightarrow> False | Some opts \<Rightarrow> ocreate opts \<noteq> None \<or> ojoin opts \<noteq> None))"

definition optionsDef :: "Contract option \<Rightarrow> option_kind \<Rightarrow> messagedef option" where
  "optionsDef c kind =
     (if \<not> hasTypedOptions c then None
      else Some (case Option.bind (Option.bind c options) (\<lambda>opts. option_of opts kind) of
                   Some def \<Rightarrow> def
                 | None \<Rightarrow> NO_OPTIONS))"

section \<open>Definition-time checks\<close>

definition is_ident_start :: "code_unit \<Rightarrow> bool" where
  "is_ident_start c = (0x41 \<le> c \<and> c \<le> 0x5A \<or> 0x61 \<le> c \<and> c \<le> 0x7A \<or> c = 0x5F)"

text \<open>\<open>/^[A-Za-z_][A-Za-z0-9_]*$/\<close>.\<close>

fun IDENTIFIER :: "jsstring \<Rightarrow> bool" where
  "IDENTIFIER [] = False"
| "IDENTIFIER (c # cs) = (is_ident_start c \<and> list_all (\<lambda>c. is_ident_start c \<or> is_digit c) cs)"

text \<open>\<open>encodesEmpty\<close>: the guard \<open>depth > 32\<close> counts nesting.\<close>

function encodesEmpty :: "messagedef \<Rightarrow> nat \<Rightarrow> bool" where
  "encodesEmpty (MessageDef i n fs) depth =
     (if 32 < depth then False
      else list_all (\<lambda>p. case snd p of FNested m \<Rightarrow> encodesEmpty m (depth + 1) | _ \<Rightarrow> False) fs)"
  by pat_completeness auto
termination
proof (relation "measure (\<lambda>(m, d). size m)", simp, goal_cases)
  case (1 i n fs depth p m)
  then have "(fst p, FNested m) \<in> set fs" by (metis prod.collapse)
  from size_field_mem [OF this] show ?case by simp
qed

fun enum_key :: "jsval \<Rightarrow> jsval" where
  "enum_key (JNum JNegZero) = JNum (JFin 0)"
| "enum_key v = v"

fun enum_value_ok :: "jsval \<Rightarrow> bool" where
  "enum_value_ok (JStr _) = True"
| "enum_value_ok (JNum n) = (\<not> isNaN n \<and> \<not> is_inf n)"
| "enum_value_ok _ = False"

text \<open>\<open>new Set(values).size === values.length\<close>: the two zeros are one member.\<close>

definition enum_problem :: "jsval list \<Rightarrow> jsstring \<Rightarrow> jsstring list" where
  "enum_problem vs path =
     (if vs = [] then [path @ js '': enum needs at least one value'']
      else if \<not> list_all enum_value_ok vs then [path @ js '': enum values must be strings or finite numbers'']
      else if distinct (map enum_key vs) then [] else [path @ js '': enum values must be distinct''])"

definition scalar_kinds :: "jsstring list" where
  "scalar_kinds = map js [''float32'', ''float64'', ''string'', ''bool'']"

fun is_empty_nested :: "field \<Rightarrow> bool" where
  "is_empty_nested (FNested m) = encodesEmpty m 0"
| "is_empty_nested _ = False"

function (sequential) fieldProblems :: "field \<Rightarrow> jsstring \<Rightarrow> bool \<Rightarrow> nat list \<Rightarrow> jsstring list \<times> nat list"
  and messageProblems :: "messagedef \<Rightarrow> jsstring \<Rightarrow> nat list \<Rightarrow> jsstring list \<times> nat list" where
  "fieldProblems (FScalar kind) path parentOptional seen =
     (if kind \<in> set scalar_kinds \<or> isIntKind kind \<noteq> None then ([], seen)
      else ([path @ js '': unknown field kind \"'' @ kind @ js ''\"''], seen))"
| "fieldProblems (FFixed d) path parentOptional seen =
     (if d \<le> 9 then ([], seen) else ([path @ js '': fixed decimals must be an integer 0..9''], seen))"
| "fieldProblems (FEnum vs) path parentOptional seen = (enum_problem vs path, seen)"
| "fieldProblems (FArray f) path parentOptional seen =
     (if is_empty_nested f then ([path @ js '': array elements can't be messages with no data''], seen)
      else fieldProblems f (path @ js ''<array>'') False seen)"
| "fieldProblems (FMap f) path parentOptional seen =
     (if is_empty_nested f then ([path @ js '': map elements can't be messages with no data''], seen)
      else fieldProblems f (path @ js ''<map>'') False seen)"
| "fieldProblems (FOptional f) path parentOptional seen =
     (if parentOptional then ([path @ js '': optional inside optional''], seen)
      else fieldProblems f path True seen)"
| "fieldProblems (FNested m) path parentOptional seen = messageProblems m path seen"
| "messageProblems (MessageDef i name fs) path seen =
     (if i \<in> set seen then ([], seen)
      else let problems = (if name = [] then [path @ js '': message name must be a non-empty string''] else [])
           in case collect (\<lambda>p seen.
                  let pos = path @ js ''.'' @ fst p;
                      named = (if \<not> IDENTIFIER (fst p) \<or> isIntegerLikeKey (fst p)
                               then [pos @ js '': field names must be identifiers''] else [])
                  in case fieldProblems (snd p) pos False seen of (qs, seen) \<Rightarrow> (named @ qs, seen))
                fs (i # seen) of
                (rest, seen) \<Rightarrow> (problems @ rest, seen))"
  by pat_completeness auto
termination
proof (relation "measure (\<lambda>x. case x of Inl (f, _, _, _) \<Rightarrow> size f | Inr (m, _, _) \<Rightarrow> size m)", goal_cases)
  case (6 i name fs path seen problems p s pos named)
  then have "(fst p, snd p) \<in> set fs" by simp
  from size_field_mem [OF this] show ?case by simp
qed auto

definition map_problems :: "jsstring \<Rightarrow> (jsstring \<times> messagedef) list \<Rightarrow> jsstring list" where
  "map_problems side m =
     concat (map (\<lambda>(key, def).
       let path = side @ js ''.'' @ key
       in fst (messageProblems def path [])
          @ (if def_name def \<noteq> key then [path @ js '': key must equal the message name''] else [])) m)"

definition validateContract :: "Contract \<Rightarrow> jsstring list" where
  "validateContract c =
     map_problems (js ''client'') (client c) @ map_problems (js ''server'') (server c)
     @ (case options c of
          None \<Rightarrow> []
        | Some opts \<Rightarrow>
            (case ocreate opts of None \<Rightarrow> [] | Some def \<Rightarrow> fst (messageProblems def (js ''options.create'') []))
            @ (case ojoin opts of None \<Rightarrow> [] | Some def \<Rightarrow> fst (messageProblems def (js ''options.join'') [])))"

end
