(* ===== verification/SchemaMessages.thy ===== *)
theory SchemaMessages
  imports Contract
begin

unbundle bit_operations_syntax

text \<open>
  Contract messages in the \<open>schema\<close> codec (\<open>serializer/schema-codec.ts\<close>, lines
  664--983) and typed options (\<open>serializer/options.ts\<close>): the plan of flag bits, the
  recursive writer and reader, and the two entry points of the codec. \<open>plans\<close> caches
  \<open>planOf\<close> per declaration and has no observable effect, so it is not part of the model.
\<close>

section \<open>Plans\<close>

record FieldPlan =
  pname :: jsstring
  pfield :: field
  pbit :: "nat option"
  pvalueBit :: "nat option"

record MessagePlan =
  pfields :: "FieldPlan list"
  flagBytes :: nat
  lastMask :: nat

abbreviation bool_kind :: jsstring where
  "bool_kind \<equiv> js ''bool''"

fun plan_fields :: "(jsstring \<times> field) list \<Rightarrow> nat \<Rightarrow> FieldPlan list \<times> nat" where
  "plan_fields [] bits = ([], bits)"
| "plan_fields ((name, field) # fs) bits =
     (let (plan, bits) = (case field of
            FScalar k \<Rightarrow>
              if k = bool_kind then (\<lparr>pname = name, pfield = field, pbit = Some bits, pvalueBit = None\<rparr>, bits + 1)
              else (\<lparr>pname = name, pfield = field, pbit = None, pvalueBit = None\<rparr>, bits)
          | FOptional g \<Rightarrow>
              if g = FScalar bool_kind
              then (\<lparr>pname = name, pfield = field, pbit = Some bits, pvalueBit = Some (bits + 1)\<rparr>, bits + 2)
              else (\<lparr>pname = name, pfield = field, pbit = Some bits, pvalueBit = None\<rparr>, bits + 1)
          | _ \<Rightarrow> (\<lparr>pname = name, pfield = field, pbit = None, pvalueBit = None\<rparr>, bits));
          (plans, bits) = plan_fields fs bits
      in (plan # plans, bits))"

definition planOf :: "messagedef \<Rightarrow> MessagePlan" where
  "planOf def =
     (let (plans, bits) = plan_fields (def_fields def) 0; used = bits mod 8
      in \<lparr>pfields = plans, flagBytes = (bits + 7) div 8, lastMask = (if used = 0 then 0xff else 2 ^ used - 1)\<rparr>)"

lemma plan_fields_mem: "p \<in> set (fst (plan_fields fs b)) \<Longrightarrow> (pname p, pfield p) \<in> set fs"
proof (induction fs b rule: plan_fields.induct)
  case (2 name f fs b)
  then show ?case by (cases f) (auto simp: Let_def split: prod.splits if_splits)
qed simp

lemma planOf_mem: "p \<in> set (pfields (planOf def)) \<Longrightarrow> (pname p, pfield p) \<in> set (def_fields def)"
  by (auto simp: planOf_def Let_def split: prod.splits) (metis fst_conv plan_fields_mem)

lemma planOf_size [termination_simp]: "p \<in> set (pfields (planOf def)) \<Longrightarrow> size (pfield p) < size def"
  using size_field_mem [OF planOf_mem] by (cases def) fastforce

lemma planOf_optional_size [termination_simp]:
  "p \<in> set (pfields (planOf def)) \<Longrightarrow> pfield p = FOptional g \<Longrightarrow> size g < size def"
  using planOf_size [of p def] by simp

section \<open>Writing\<close>

fun isAbsent :: "jsval \<Rightarrow> bool" where
  "isAbsent JUndef = True"
| "isAbsent JNull = True"
| "isAbsent _ = False"

text \<open>\<open>values.indexOf(value)\<close> of a string or number; \<open>===\<close> on numbers.\<close>

fun enum_eq :: "jsval \<Rightarrow> jsval \<Rightarrow> bool" where
  "enum_eq (JNum a) (JNum b) = num_eq a b"
| "enum_eq (JStr a) (JStr b) = (a = b)"
| "enum_eq _ _ = False"

fun index_where :: "('a \<Rightarrow> bool) \<Rightarrow> 'a list \<Rightarrow> nat option" where
  "index_where P [] = None"
| "index_where P (x # xs) = (if P x then Some 0 else map_option Suc (index_where P xs))"

definition enum_index :: "jsval list \<Rightarrow> jsval \<Rightarrow> nat option" where
  "enum_index vs v = index_where (\<lambda>x. enum_eq x v) vs"

text \<open>A number in a template string (\<open>${path}[${i}]\<close>).\<close>

fun dec :: "nat \<Rightarrow> jsstring" where
  "dec n = (if n < 10 then [word_of_nat (48 + n)] else dec (n div 10) @ [word_of_nat (48 + n mod 10)])"

declare dec.simps [simp del]

definition setBit :: "nat \<Rightarrow> byte list \<Rightarrow> byte list" where
  "setBit b flags = flags[drop_bit 3 b := (flags ! drop_bit 3 b) OR push_bit (b AND 7) 1]"

text \<open>\<open>out.u8(0)\<close> and the final \<open>out.patch\<close> of the flag bytes.\<close>

definition put_zeros :: "nat \<Rightarrow> bytewriter \<Rightarrow> bytewriter" where
  "put_zeros n w = (put_u8 0 ^^ n) w"

fun patch_all :: "nat \<Rightarrow> byte list \<Rightarrow> bytewriter \<Rightarrow> bytewriter" where
  "patch_all i [] w = w"
| "patch_all i (b # bs) w = patch_all (Suc i) bs (patch i b w)"

definition failure :: "jsstring \<Rightarrow> string \<Rightarrow> bytewriter \<Rightarrow> message option \<times> bytewriter" where
  "failure path m w = (Some (Msg (''{}: '' @ m) [JStr path]), w)"

definition writeScalarField :: "jsstring \<Rightarrow> jsval \<Rightarrow> jsstring \<Rightarrow> bytewriter \<Rightarrow> message option \<times> bytewriter" where
  "writeScalarField kind v path w =
     (if kind = js ''float64'' then
        (case v of JNum n \<Rightarrow> (None, put_float64 n w) | _ \<Rightarrow> failure path ''not a number'' w)
      else if kind = js ''float32'' then
        (case v of JNum n \<Rightarrow> (None, put_float32 n w) | _ \<Rightarrow> failure path ''not a number'' w)
      else if kind = js ''string'' then
        (case v of JStr s \<Rightarrow> (None, put_string s w) | _ \<Rightarrow> failure path ''not a string'' w)
      else if kind = bool_kind then
        (case v of JBool b \<Rightarrow> (None, put_u8 (if b then 1 else 0) w) | _ \<Rightarrow> failure path ''not a bool'' w)
      else case isIntKind kind of
             Some k \<Rightarrow>
               (case v of JNum n \<Rightarrow> (None, writeInt k (int_of_num (toInt n k)) w) | _ \<Rightarrow> failure path ''not a number'' w)
           | None \<Rightarrow> (Some (Msg ''{}: unknown field kind {}'' [JStr path, JStr kind]), w))"

text \<open>The wrapped field of an \<open>optional\<close>.\<close>

fun optional_of :: "field \<Rightarrow> field option" where
  "optional_of (FOptional g) = Some g"
| "optional_of _ = None"

lemma optional_ofD [dest]: "optional_of f = Some g \<Longrightarrow> f = FOptional g"
  by (cases f) simp_all

definition is_bool :: "jsval \<Rightarrow> bool" where
  "is_bool v = (v = JBool True \<or> v = JBool False)"

function (sequential) writeField :: "field \<Rightarrow> jsval \<Rightarrow> jsstring \<Rightarrow> bytewriter \<Rightarrow> message option \<times> bytewriter"
  and writeMessage :: "messagedef \<Rightarrow> jsval \<Rightarrow> jsstring \<Rightarrow> bytewriter \<Rightarrow> message option \<times> bytewriter" where
  "writeField (FScalar kind) v path w = writeScalarField kind v path w"
| "writeField (FFixed d) v path w =
     (case v of JNum n \<Rightarrow> (None, put_zigzag (int_of_num (toFixed n d)) w) | _ \<Rightarrow> failure path ''not a number'' w)"
| "writeField (FEnum vs) v path w =
     (case enum_index vs v of
        None \<Rightarrow> failure path ''not one of the enum values'' w
      | Some i \<Rightarrow> (None, put_varint i w))"
| "writeField (FArray f) v path w =
     (case v of
        JArr vs \<Rightarrow>
          each (\<lambda>p w. writeField f (snd p) (path @ js ''['' @ dec (fst p) @ js '']'') w)
            (enumerate 0 vs) (put_varint (length vs) w)
      | _ \<Rightarrow> failure path ''not an array'' w)"
| "writeField (FMap f) v path w =
     (case v of
        JObj ps \<Rightarrow>
          each (\<lambda>p w. writeField f (snd p) (path @ js ''.'' @ fst p) (put_string (fst p) w))
            ps (put_varint (length ps) w)
      | _ \<Rightarrow> failure path ''not an object'' w)"
| "writeField (FOptional f) v path w =
     (if isAbsent v then (None, put_u8 0 w) else writeField f v path (put_u8 1 w))"
| "writeField (FNested m) v path w = writeMessage m v path w"
| "writeMessage def v path w =
     (case v of
        JObj ps \<Rightarrow>
          (let plan = planOf def;
               flagsAt = wlength w
           in case each (\<lambda>p (w, flags).
                let x = js_get ps (pname p); pos = path @ js ''.'' @ pname p
                in case optional_of (pfield p) of
                     Some g \<Rightarrow>
                       if isAbsent x then (None, w, flags)
                       else let flags = setBit (the (pbit p)) flags
                            in (case pvalueBit p of
                                  Some vb \<Rightarrow>
                                    if \<not> is_bool x then (fst (failure pos ''not a bool'' w), w, flags)
                                    else (None, w, if x = JBool True then setBit vb flags else flags)
                                | None \<Rightarrow> (case writeField g x pos w of (e, w) \<Rightarrow> (e, w, flags)))
                   | None \<Rightarrow>
                       if pfield p = FScalar bool_kind then
                         (if \<not> is_bool x then (fst (failure pos ''not a bool'' w), w, flags)
                          else (None, w, if x = JBool True then setBit (the (pbit p)) flags else flags))
                       else (case writeField (pfield p) x pos w of (e, w) \<Rightarrow> (e, w, flags)))
              (pfields plan) (put_zeros (flagBytes plan) w, replicate (flagBytes plan) 0) of
                (Some e, w, flags) \<Rightarrow> (Some e, w)
              | (None, w, flags) \<Rightarrow> (None, patch_all flagsAt flags w))
      | _ \<Rightarrow> failure path ''not an object'' w)"
  by pat_completeness auto
termination
  by (relation "measure (\<lambda>x. case x of Inl (f, _, _, _) \<Rightarrow> size f | Inr (m, _, _, _) \<Rightarrow> size m)")
    (auto dest!: planOf_size)

section \<open>Reading\<close>

text \<open>\<open>for (let i = 0; i < count && input.error === undefined; i++)\<close>.\<close>

fun read_while :: "nat \<Rightarrow> ('s \<Rightarrow> bytereader \<Rightarrow> 's \<times> bytereader) \<Rightarrow> 's \<Rightarrow> bytereader \<Rightarrow> 's \<times> bytereader" where
  "read_while 0 g s r = (s, r)"
| "read_while (Suc n) g s r =
     (if rerror r \<noteq> None then (s, r) else case g s r of (s, r) \<Rightarrow> read_while n g s r)"

lemma read_while_cong [fundef_cong]:
  "n = m \<Longrightarrow> s = t \<Longrightarrow> r = q \<Longrightarrow> (\<And>s r. g s r = h s r) \<Longrightarrow> read_while n g s r = read_while m h t q"
  by (induction n arbitrary: m s t r q) (auto split: prod.split)

fun each_until :: "('a \<Rightarrow> 's \<Rightarrow> bytereader \<Rightarrow> 's \<times> bytereader) \<Rightarrow> 'a list \<Rightarrow> 's \<Rightarrow> bytereader \<Rightarrow> 's \<times> bytereader" where
  "each_until g [] s r = (s, r)"
| "each_until g (x # xs) s r =
     (if rerror r \<noteq> None then (s, r) else case g x s r of (s, r) \<Rightarrow> each_until g xs s r)"

lemma each_until_cong [fundef_cong]:
  "xs = ys \<Longrightarrow> s = t \<Longrightarrow> r = q \<Longrightarrow> (\<And>x s r. x \<in> set ys \<Longrightarrow> g x s r = h x s r) \<Longrightarrow>
   each_until g xs s r = each_until h ys t q"
proof (induction xs arbitrary: ys s t r q)
  case (Cons x xs)
  then obtain zs where "ys = x # zs" "zs = xs" by auto
  with Cons show ?case by (auto split: prod.split)
qed simp

definition readScalarField :: "jsstring \<Rightarrow> bytereader \<Rightarrow> jsval \<times> bytereader" where
  "readScalarField kind r =
     (if kind = js ''float64'' then (case get_float64 r of (x, r) \<Rightarrow> (JNum x, r))
      else if kind = js ''float32'' then (case get_float32 r of (x, r) \<Rightarrow> (JNum x, r))
      else if kind = js ''string'' then (case get_string r of (s, r) \<Rightarrow> (JStr s, r))
      else if kind = bool_kind then readBool r
      else case isIntKind kind of
             Some k \<Rightarrow> readInt k r
           | None \<Rightarrow> (JUndef, fail (Msg ''unknown field kind {}'' [JStr kind]) r))"

definition readEnum :: "jsval list \<Rightarrow> bytereader \<Rightarrow> jsval \<times> bytereader" where
  "readEnum vs r =
     (case get_varint r of (i, r) \<Rightarrow>
        if i < length vs \<and> vs ! i \<noteq> JUndef then (vs ! i, r)
        else (JUndef, fail (Msg ''enum index {} out of range'' [nat_val i]) r))"

definition check_key :: "jsstring \<Rightarrow> (jsstring \<times> jsval) list \<Rightarrow> bytereader \<Rightarrow> bytereader" where
  "check_key key out r =
     (if key = proto_key then fail (Msg ''forbidden map key __proto__'' []) r
      else if key \<in> fst ` set out then fail (Msg ''duplicate map key'' []) r
      else r)"

definition flag_bit :: "nat list \<Rightarrow> nat \<Rightarrow> bool" where
  "flag_bit flags i =
     (let b = (if drop_bit 3 i < length flags then flags ! drop_bit 3 i else 0)
      in b AND push_bit (i AND 7) 1 \<noteq> 0)"

text \<open>\<open>last & ~lastMask\<close> on a byte.\<close>

definition padding_set :: "nat list \<Rightarrow> nat \<Rightarrow> bool" where
  "padding_set flags lmask = (flags \<noteq> [] \<and> last flags AND (0xff - lmask) \<noteq> 0)"

function (sequential) readField :: "field \<Rightarrow> bytereader \<Rightarrow> jsval \<times> bytereader"
  and readMessage :: "messagedef \<Rightarrow> bytereader \<Rightarrow> (jsstring \<times> jsval) list \<times> bytereader" where
  "readField (FScalar kind) r = readScalarField kind r"
| "readField (FFixed d) r = (case get_zigzag r of (v, r) \<Rightarrow> (JNum (fromFixed (num_of_int v) d), r))"
| "readField (FEnum vs) r = readEnum vs r"
| "readField (FArray f) r =
     (case get_count r of (count, r) \<Rightarrow>
      case read_while count (\<lambda>out r. case readField f r of (v, r) \<Rightarrow> (out @ [v], r)) [] r of (out, r) \<Rightarrow> (JArr out, r))"
| "readField (FMap f) r =
     (case get_count r of (count, r) \<Rightarrow>
      case read_while count (\<lambda>out r.
          case get_string r of (key, r) \<Rightarrow>
          let r = check_key key out r
          in case readField f r of (v, r) \<Rightarrow> (if rerror r = None then js_assign out key v else out, r)) [] r of
        (out, r) \<Rightarrow> (JObj out, r))"
| "readField (FOptional f) r =
     (case get_u8 r of (present, r) \<Rightarrow>
      let r = (if 1 < present then fail (Msg ''presence byte {}'' [nat_val present]) r else r)
      in if present = 1 then readField f r else (JUndef, r))"
| "readField (FNested m) r = (case readMessage m r of (out, r) \<Rightarrow> (JObj out, r))"
| "readMessage def r =
     (let plan = planOf def
      in case get_times get_u8 (flagBytes plan) r of (flags, r) \<Rightarrow>
         let r = (if padding_set flags (lastMask plan) then fail (Msg ''flag padding bit set'' []) r else r)
         in each_until (\<lambda>p out r.
              case optional_of (pfield p) of
                Some g \<Rightarrow>
                  if \<not> flag_bit flags (the (pbit p)) then
                    (out, if pvalueBit p \<noteq> None \<and> flag_bit flags (the (pvalueBit p))
                          then fail (Msg ''value bit of an absent optional'' []) r else r)
                  else (case pvalueBit p of
                          Some vb \<Rightarrow> (js_assign out (pname p) (JBool (flag_bit flags vb)), r)
                        | None \<Rightarrow> (case readField g r of (v, r) \<Rightarrow> (js_assign out (pname p) v, r)))
              | None \<Rightarrow>
                  if pfield p = FScalar bool_kind then
                    (js_assign out (pname p) (JBool (flag_bit flags (the (pbit p)))), r)
                  else (case readField (pfield p) r of (v, r) \<Rightarrow> (js_assign out (pname p) v, r)))
            (pfields plan) [] r)"
  by pat_completeness auto
termination
  by (relation "measure (\<lambda>x. case x of Inl (f, _) \<Rightarrow> size f | Inr (m, _) \<Rightarrow> size m)")
    (auto dest!: planOf_size)

section \<open>The codec\<close>

definition encodeMessage :: "messagedef \<Rightarrow> jsval \<Rightarrow> bytewriter \<Rightarrow> (SerializerError + byte list) \<times> bytewriter" where
  "encodeMessage def payload out =
     (case writeMessage def payload (def_name def) (reset out) of
        (Some bad, w) \<Rightarrow> (Inl (SerializerError ENCODE_FAILED bad), w)
      | (None, w) \<Rightarrow> (Inr (toBytes w), w))"

definition decodeMessage :: "messagedef \<Rightarrow> byte list \<Rightarrow> SerializerError + jsval" where
  "decodeMessage def data =
     (case readMessage def (new_reader data) of (out, r) \<Rightarrow>
        let r = (if rerror r = None \<and> \<not> done_reading r then fail (Msg ''trailing bytes after the message'' []) r else r)
        in case rerror r of
             Some (Msg m vs, pos) \<Rightarrow>
               Inl (SerializerError DECODE_FAILED
                 (Msg (''{}: '' @ m @ '' (at byte {})'') (JStr (def_name def) # vs @ [nat_val pos])))
           | None \<Rightarrow> Inr (JObj out))"

text \<open>Typed options: a byte string, or nothing for zero bytes. An element that came over the
  wire is a byte array, absent, or anything else.\<close>

datatype wire_element = EBytes "byte list" | EAbsent | EOther

definition encodeOptions :: "messagedef \<Rightarrow> jsval \<Rightarrow> bytewriter \<Rightarrow> (SerializerError + byte list option) \<times> bytewriter" where
  "encodeOptions def payload out =
     (case encodeMessage def (if isAbsent payload then JObj [] else payload) out of
        (Inl e, w) \<Rightarrow> (Inl e, w)
      | (Inr bs, w) \<Rightarrow> (Inr (if length bs = 0 then None else Some bs), w))"

definition decodeOptions :: "messagedef \<Rightarrow> wire_element \<Rightarrow> SerializerError + jsval" where
  "decodeOptions def element =
     (case element of
        EOther \<Rightarrow> Inl (SerializerError DECODE_FAILED (Msg ''{}: typed options must be bin or null'' [JStr (def_name def)]))
      | EAbsent \<Rightarrow> decodeMessage def []
      | EBytes bs \<Rightarrow> decodeMessage def bs)"

end
