(* ===== verification/MessageRoundtrip.thy ===== *)
theory MessageRoundtrip
  imports SchemaMessages
begin

unbundle bit_operations_syntax

text \<open>
  A contract message decodes to the payload that was encoded, in the form the receiver holds it
  (\<open>seen_message\<close>): numbers converted to the field's type, strings well-formed, absent
  optionals left out. The flag bytes are patched in behind the values they describe; the lemmas
  on them show that every planned bit comes back as it was set and no padding bit is set.
\<close>

declare writeMessage.simps [simp del] readMessage.simps [simp del]

section \<open>Flag bits\<close>

definition bit_at :: "byte list \<Rightarrow> nat \<Rightarrow> bool" where
  "bit_at flags i = (i < 8 * length flags \<and> bit (flags ! (i div 8)) (i mod 8))"

lemma and_7: "(b :: nat) AND 7 = b mod 8"
  using take_bit_eq_mask [of 3 b] by (simp add: take_bit_eq_mod mask_eq_exp_minus_1)

lemma length_setBit [simp]: "length (setBit b flags) = length flags"
  by (simp add: setBit_def)

lemma bit_at_setBit:
  assumes "b < 8 * length flags"
  shows "bit_at (setBit b flags) i \<longleftrightarrow> i = b \<or> bit_at flags i"
proof -
  have d: "b div 8 < length flags" using assms by (simp add: less_mult_imp_div_less mult.commute)
  have p: "push_bit (b mod 8) (1 :: byte) = 2 ^ (b mod 8)" by (simp add: push_bit_eq_mult)
  have e: "i = b \<longleftrightarrow> i div 8 = b div 8 \<and> i mod 8 = b mod 8" by (metis div_mult_mod_eq)
  show ?thesis
  proof (cases "i div 8 = b div 8")
    case True
    have "i < 8 * length flags" using d True by linarith
    moreover have "bit (setBit b flags ! (i div 8)) (i mod 8) \<longleftrightarrow> i mod 8 = b mod 8 \<or> bit (flags ! (i div 8)) (i mod 8)"
      using d True by (auto simp: setBit_def drop_bit_eq_div and_7 p bit_or_iff bit_exp_iff)
    ultimately show ?thesis using True e by (auto simp: bit_at_def)
  next
    case False
    then show ?thesis using e by (auto simp: bit_at_def setBit_def drop_bit_eq_div)
  qed
qed

lemma bit_at_fold_setBit:
  "\<forall>b \<in> set bs. b < 8 * length flags \<Longrightarrow> bit_at (fold setBit bs flags) i \<longleftrightarrow> i \<in> set bs \<or> bit_at flags i"
  by (induction bs arbitrary: flags) (auto simp: bit_at_setBit)

lemma length_fold_setBit [simp]: "length (fold setBit bs flags) = length flags"
  by (induction bs arbitrary: flags) auto

lemma bit_at_zero [simp]: "\<not> bit_at (replicate n 0) i"
proof -
  have "i div 8 < n" if "i < 8 * n" using that by (simp add: less_mult_imp_div_less mult.commute)
  then show ?thesis by (auto simp: bit_at_def)
qed

lemma flag_bit_iff: "flag_bit (map unat flags) i \<longleftrightarrow> bit_at flags i"
proof (cases "i < 8 * length flags")
  case True
  then have d: "i div 8 < length flags" by (simp add: less_mult_imp_div_less mult.commute)
  have p: "push_bit (i mod 8) (1 :: nat) = 2 ^ (i mod 8)" by (simp add: push_bit_eq_mult)
  show ?thesis using d True
    by (simp add: flag_bit_def bit_at_def drop_bit_eq_div and_7 p Let_def and_exp_eq_0_iff_not_bit unsigned_of_nat bit_unsigned_iff)
next
  case False
  then have "\<not> i div 8 < length flags" by linarith
  with False show ?thesis by (simp add: flag_bit_def bit_at_def drop_bit_eq_div Let_def)
qed

text \<open>No bit at or above the number of planned bits means no padding bit.\<close>

lemma padding_clear:
  assumes "length flags = (bits + 7) div 8" "\<And>i. bit_at flags i \<Longrightarrow> i < bits"
  shows "\<not> padding_set (map unat flags) (if bits mod 8 = 0 then 0xff else 2 ^ (bits mod 8) - 1)"
proof (cases "flags = []")
  case False
  define k where "k = bits mod 8"
  let ?n = "length flags" and ?m = "if k = 0 then 0xff else 2 ^ k - 1 :: nat"
  have n: "0 < ?n" using False by simp
  have q: "bits = 8 * (bits div 8) + k" "k < 8" by (simp_all add: k_def)
  then have "(bits + 7) div 8 = bits div 8 + (k + 7) div 8" by linarith
  moreover have "(k + 7) div 8 = (if k = 0 then 0 else 1)"
    using q(2) div_nat_eqI [of 8 1 "k + 7"] by (cases "k = 0") simp_all
  ultimately have b: "bits = (if k = 0 then 8 * ?n else 8 * (?n - 1) + k)"
    using q assms(1) by (cases "k = 0") simp_all
  have "(unat (last flags)) AND (0xff - ?m) = 0"
  proof (cases "k = 0")
    case True
    then show ?thesis by simp
  next
    case k0: False
    have hi: "\<not> bit (last flags) j" if "k \<le> j" "j < 8" for j
    proof
      assume "bit (last flags) j"
      moreover have "8 * (?n - 1) + j < 8 * ?n" using that n by linarith
      ultimately have "bit_at flags (8 * (?n - 1) + j)" using False that by (simp add: bit_at_def last_conv_nth)
      then have "8 * (?n - 1) + j < bits" by (rule assms(2))
      with b k0 that show False by simp
    qed
    have "(2 :: nat) ^ (8 - k) * 2 ^ k = 256" using q(2) by (simp flip: power_add)
    then have "255 - ?m = push_bit k (mask (8 - k))"
      using k0 by (simp add: mask_eq_exp_minus_1 push_bit_eq_mult diff_mult_distrib)
    then have "bit (255 - ?m) j \<longleftrightarrow> k \<le> j \<and> j < 8" for j
      using k0 q(2) by (simp only: bit_push_bit_iff bit_mask_iff) auto
    then show ?thesis using hi by (intro bit_eqI) (auto simp: bit_and_iff bit_unsigned_iff)
  qed
  then show ?thesis unfolding padding_set_def k_def [symmetric] using False by (simp only: last_map simp_thms)
qed (simp add: padding_set_def)

section \<open>Planned bits\<close>

definition plan_bits :: "FieldPlan \<Rightarrow> nat list" where
  "plan_bits p = (case pbit p of None \<Rightarrow> [] | Some b \<Rightarrow> [b]) @ (case pvalueBit p of None \<Rightarrow> [] | Some b \<Rightarrow> [b])"

text \<open>The shape of a plan entry, as \<open>planOf\<close> makes it.\<close>

definition plan_shape :: "FieldPlan \<Rightarrow> bool" where
  "plan_shape p =
     (case optional_of (pfield p) of
        Some g \<Rightarrow> pbit p \<noteq> None \<and> (pvalueBit p \<noteq> None \<longleftrightarrow> g = FScalar bool_kind)
      | None \<Rightarrow> pvalueBit p = None \<and> (pbit p \<noteq> None \<longleftrightarrow> pfield p = FScalar bool_kind))"

lemma plan_fields_spec:
  "plan_fields fs b = (plans, b') \<Longrightarrow>
   concat (map plan_bits plans) = [b..<b'] \<and> b \<le> b' \<and> list_all plan_shape plans
   \<and> map (\<lambda>p. (pname p, pfield p)) plans = fs"
proof (induction fs b arbitrary: plans rule: plan_fields.induct)
  case (2 name f fs b)
  obtain p b1 where p: "(case f of
            FScalar k \<Rightarrow>
              if k = bool_kind then (\<lparr>pname = name, pfield = f, pbit = Some b, pvalueBit = None\<rparr>, b + 1)
              else (\<lparr>pname = name, pfield = f, pbit = None, pvalueBit = None\<rparr>, b)
          | FOptional g \<Rightarrow>
              if g = FScalar bool_kind
              then (\<lparr>pname = name, pfield = f, pbit = Some b, pvalueBit = Some (b + 1)\<rparr>, b + 2)
              else (\<lparr>pname = name, pfield = f, pbit = Some b, pvalueBit = None\<rparr>, b + 1)
          | _ \<Rightarrow> (\<lparr>pname = name, pfield = f, pbit = None, pvalueBit = None\<rparr>, b)) = (p, b1)"
    by fastforce
  obtain qs b2 where q: "plan_fields fs b1 = (qs, b2)" by fastforce
  have r: "plans = p # qs" "b' = b2" using "2.prems" p q by (simp_all add: Let_def)
  have h: "plan_bits p = [b..<b1]" "b \<le> b1" "plan_shape p" "pname p = name" "pfield p = f"
    using p by (cases f; auto simp: plan_bits_def plan_shape_def split: if_splits)+
  have ih: "concat (map plan_bits qs) = [b1..<b2]" "b1 \<le> b2" "list_all plan_shape qs"
    "map (\<lambda>p. (pname p, pfield p)) qs = fs"
    using "2.IH" [OF p [symmetric] refl, of qs] q r(2) by auto
  have "[b..<b1] @ [b1..<b2] = [b..<b2]" using h(2) ih(2) upt_add_eq_append [of b b1 "b2 - b1"] by simp
  then show ?case using r h ih by auto
qed simp

lemma distinct_concat_owner:
  "distinct (concat (map h xs)) \<Longrightarrow> x \<in> set xs \<Longrightarrow> y \<in> set xs \<Longrightarrow> i \<in> set (h x) \<Longrightarrow> i \<in> set (h y) \<Longrightarrow> x = y"
  by (induction xs) auto

section \<open>What the receiver holds\<close>

lemma size_field_mem': "p \<in> set fs \<Longrightarrow> size (snd p) < Suc (size_list (size_prod (\<lambda>x. 0) size) fs)"
  using size_field_mem [of "fst p" "snd p" fs] by simp

definition seen_scalar_field :: "jsstring \<Rightarrow> jsval \<Rightarrow> jsval" where
  "seen_scalar_field kind v =
     (case v of
        JStr s \<Rightarrow> JStr (wireString s)
      | JNum n \<Rightarrow> (if kind = js ''float64'' then v
                   else if kind = js ''float32'' then JNum (fround n)
                   else case isIntKind kind of Some k \<Rightarrow> JNum (toInt n k) | None \<Rightarrow> v)
      | _ \<Rightarrow> v)"

function (sequential) seen_field :: "field \<Rightarrow> jsval \<Rightarrow> jsval"
  and seen_message :: "messagedef \<Rightarrow> jsval \<Rightarrow> (jsstring \<times> jsval) list" where
  "seen_field (FScalar kind) v = seen_scalar_field kind v"
| "seen_field (FFixed d) v = (case v of JNum n \<Rightarrow> JNum (quantizeFixed n d) | _ \<Rightarrow> v)"
| "seen_field (FEnum vs) v = (case enum_index vs v of Some i \<Rightarrow> vs ! i | None \<Rightarrow> v)"
| "seen_field (FArray f) v = (case v of JArr vs \<Rightarrow> JArr (map (\<lambda>v. seen_field f v) vs) | _ \<Rightarrow> v)"
| "seen_field (FMap f) v =
     (case v of JObj ps \<Rightarrow> JObj (map (\<lambda>p. (wireString (fst p), seen_field f (snd p))) ps) | _ \<Rightarrow> v)"
| "seen_field (FOptional f) v = (if isAbsent v then JUndef else seen_field f v)"
| "seen_field (FNested m) v = JObj (seen_message m v)"
| "seen_message (MessageDef i n fs) v =
     (case v of
        JObj ps \<Rightarrow>
          concat (map (\<lambda>p.
            case optional_of (snd p) of
              Some g \<Rightarrow> if isAbsent (js_get ps (fst p)) then [] else [(fst p, seen_field g (js_get ps (fst p)))]
            | None \<Rightarrow> [(fst p, seen_field (snd p) (js_get ps (fst p)))]) fs)
      | _ \<Rightarrow> [])"
  by pat_completeness auto
termination
  by (relation "measure (\<lambda>x. case x of Inl (f, _) \<Rightarrow> size f | Inr (m, _) \<Rightarrow> size m)")
    (auto dest!: size_field_mem')

section \<open>Declarations and payloads that survive the wire\<close>

function empty_field :: "field \<Rightarrow> bool" and empty_message :: "messagedef \<Rightarrow> bool" where
  "empty_field (FScalar k) = False"
| "empty_field (FFixed d) = False"
| "empty_field (FEnum vs) = False"
| "empty_field (FArray f) = False"
| "empty_field (FMap f) = False"
| "empty_field (FOptional f) = False"
| "empty_field (FNested m) = empty_message m"
| "empty_message (MessageDef i n fs) = list_all (\<lambda>p. empty_field (snd p)) fs"
  by pat_completeness auto
termination
  by (relation "measure (\<lambda>x. case x of Inl f \<Rightarrow> size f | Inr m \<Rightarrow> size m)")
    (auto dest!: size_field_mem')

text \<open>
  Field names are distinct, none is \<open>__proto__\<close> or an array index; array elements take at
  least one byte; enum indices fit 32 bits.
\<close>

function wf_field :: "field \<Rightarrow> bool" and wf_message :: "messagedef \<Rightarrow> bool" where
  "wf_field (FScalar k) = True"
| "wf_field (FFixed d) = True"
| "wf_field (FEnum vs) = (length vs \<le> MAX_UINT32)"
| "wf_field (FArray f) = (\<not> empty_field f \<and> wf_field f)"
| "wf_field (FMap f) = wf_field f"
| "wf_field (FOptional f) = wf_field f"
| "wf_field (FNested m) = wf_message m"
| "wf_message (MessageDef i n fs) =
     (distinct (map fst fs) \<and> proto_key \<notin> set (map fst fs) \<and> list_all (\<lambda>p. \<not> isIntegerLikeKey (fst p)) fs
      \<and> list_all (\<lambda>p. wf_field (snd p)) fs)"
  by pat_completeness auto
termination
  by (relation "measure (\<lambda>x. case x of Inl f \<Rightarrow> size f | Inr m \<Rightarrow> size m)")
    (auto dest!: size_field_mem')

text \<open>
  A payload as an engine holds it, whose object keys stay distinct on the wire and none of
  which becomes \<open>__proto__\<close>.
\<close>

fun payload_ok :: "jsval \<Rightarrow> bool" where
  "payload_ok (JNum n) = num_ok n"
| "payload_ok (JStr s) = string_ok s"
| "payload_ok (JArr vs) = (length vs \<le> MAX_UINT32 \<and> list_all payload_ok vs)"
| "payload_ok (JObj ps) =
     (length ps \<le> MAX_UINT32 \<and> distinct (map (wireString \<circ> fst) ps) \<and> key_order (map (wireString \<circ> fst) ps)
      \<and> proto_key \<notin> set (map (wireString \<circ> fst) ps) \<and> list_all (\<lambda>p. string_ok (fst p) \<and> payload_ok (snd p)) ps)"
| "payload_ok _ = True"

lemma payload_ok_get: "payload_ok (JObj ps) \<Longrightarrow> payload_ok (js_get ps k)"
proof (cases "map_of ps k")
  case (Some v)
  assume "payload_ok (JObj ps)"
  with map_of_SomeD [OF Some] show ?thesis by (auto simp: js_get_def Some list_all_iff)
qed (auto simp: js_get_def)

section \<open>Scalars\<close>

definition carries :: "(bytereader \<Rightarrow> 'a \<times> bytereader) \<Rightarrow> bytewriter \<Rightarrow> bytewriter \<Rightarrow> 'a \<Rightarrow> bool \<Rightarrow> bool" where
  "carries g w w' v nonempty = (\<exists>bs. extends w w' bs \<and> parses g bs v \<and> (nonempty \<longrightarrow> bs \<noteq> []))"

lemma carriesI: "extends w w' bs \<Longrightarrow> parses g bs v \<Longrightarrow> (ne \<Longrightarrow> bs \<noteq> []) \<Longrightarrow> carries g w w' v ne"
  by (auto simp: carries_def)

lemma carries_codec:
  assumes "wire_codec put get enc ok seen" "ok x" "enc x \<noteq> []"
  shows "carries get w (put x w) (seen x) ne"
  using wire_codec.put_appends [OF assms(1,2)] wire_codec.get_parses [OF assms(1,2)] assms(3)
  by (auto simp: carries_def intro: extends_appends)

lemma carries_map: "carries g w w' v ne \<Longrightarrow> carries (\<lambda>r. case g r of (v, r) \<Rightarrow> (h v, r)) w w' (h v) ne"
  using parses_map by (fastforce simp: carries_def)

lemma int_bytes_nonempty [simp]: "int_bytes k v \<noteq> []"
  by (cases k) simp_all

lemma string_bytes_nonempty [simp]: "string_bytes s \<noteq> []"
  by (simp add: string_bytes_def Let_def)

lemma float_bytes_nonempty [simp]: "float64_bytes x \<noteq> []" "float32_bytes x \<noteq> []"
  using length_float_bytes [of x] by (metis list.size(3) zero_neq_numeral)+

lemma scalar_field_carries:
  assumes "writeScalarField kind v path w = (None, w')" "payload_ok v"
  shows "carries (readScalarField kind) w w' (seen_scalar_field kind v) True"
proof -
  consider (f64) n where "kind = js ''float64''" "v = JNum n" | (f32) n where "kind = js ''float32''" "v = JNum n"
    | (str) s where "kind = js ''string''" "v = JStr s" | (bool) b where "kind = js ''bool''" "v = JBool b"
    | (int) k n where "kind \<notin> {js ''float64'', js ''float32'', js ''string'', js ''bool''}" "isIntKind kind = Some k" "v = JNum n"
    using assms(1) unfolding writeScalarField_def
    by (cases v) (auto simp: failure_def split: if_splits option.splits)
  then show ?thesis
  proof cases
    case f64
    then show ?thesis using assms carries_map [OF carries_codec [OF float64_codec.wire_codec_axioms, of n w], of JNum]
      by (simp add: writeScalarField_def readScalarField_def [abs_def] seen_scalar_field_def)
  next
    case f32
    then show ?thesis using assms carries_map [OF carries_codec [OF float32_codec.wire_codec_axioms, of n w], of JNum]
      by (simp add: writeScalarField_def readScalarField_def [abs_def] seen_scalar_field_def type_names)
  next
    case str
    then show ?thesis using assms carries_map [OF carries_codec [OF string_codec.wire_codec_axioms, of s w], of JStr]
      by (simp add: writeScalarField_def readScalarField_def [abs_def] seen_scalar_field_def type_names)
  next
    case bool
    then show ?thesis using assms carries_codec [OF bool_codec.wire_codec_axioms, of b w]
      by (simp add: writeScalarField_def readScalarField_def [abs_def] seen_scalar_field_def type_names)
  next
    case int
    obtain i where i: "toInt n k = num_of_int i" "in_range k i" using toInt_range by blast
    from carries_codec [OF int_codec.wire_codec_axioms, of k i w True] int i assms(1) show ?thesis
      by (simp add: writeScalarField_def readScalarField_def [abs_def] seen_scalar_field_def)
  qed
qed

lemma fixed_carries:
  "carries (\<lambda>r. case get_zigzag r of (v, r) \<Rightarrow> (JNum (fromFixed (num_of_int v) d), r)) w
     (put_zigzag (int_of_num (toFixed n d)) w) (JNum (quantizeFixed n d)) True"
proof -
  obtain i where i: "toFixed n d = num_of_int i" "in_range Int32 i"
    using toFixed_range [of n d] by (auto simp: in_range_def FIXED_MIN_def FIXED_MAX_def)
  from carries_map [OF carries_codec [OF zigzag_codec.wire_codec_axioms, of i w True], of "\<lambda>v. JNum (fromFixed (num_of_int v) d)"] i
  show ?thesis by (simp add: quantizeFixed_def)
qed

lemma index_where_SomeD: "index_where P xs = Some i \<Longrightarrow> i < length xs \<and> P (xs ! i)"
  by (induction xs arbitrary: i) (auto split: if_splits)

lemma enum_carries:
  assumes "enum_index vs v = Some i" "length vs \<le> MAX_UINT32"
  shows "carries (readEnum vs) w (put_varint i w) (vs ! i) True"
proof -
  have i: "i < length vs" "enum_eq (vs ! i) v" using index_where_SomeD assms(1) by (auto simp: enum_index_def)
  then have u: "vs ! i \<noteq> JUndef" by (cases "vs ! i") auto
  have le: "i \<le> MAX_UINT32" using i assms(2) by simp
  have "parses (readEnum vs) (varint_bytes i @ []) (vs ! i)"
    unfolding readEnum_def [abs_def]
    by (rule parses_bind [OF parses_varint [OF le]]) (simp add: i u parses_return)
  then show ?thesis using extends_appends [OF appends_varint [OF le], of w] by (auto intro: carriesI)
qed

section \<open>Loops\<close>

text \<open>
  A writer loop and the reader loop that follows it: \<open>S pre\<close> is what the reader holds
  after the items \<open>pre\<close>.
\<close>

lemma each_until_suffix:
  assumes "each step ys \<sigma> = (None, \<sigma>')"
    "\<And>pre x post \<sigma> \<sigma>'. ys = pre @ x # post \<Longrightarrow> step x \<sigma> = (None, \<sigma>') \<Longrightarrow>
       carries (G x (S (pre0 @ pre))) (W \<sigma>) (W \<sigma>') (S (pre0 @ pre @ [x])) (ne x)"
  shows "\<exists>bs. extends (W \<sigma>) (W \<sigma>') bs \<and> parses (each_until G ys (S pre0)) bs (S (pre0 @ ys))
     \<and> length (filter ne ys) \<le> length bs"
  using assms
proof (induction ys arbitrary: \<sigma> pre0)
  case Nil
  have "each_until G [] (S pre0) = (\<lambda>r. (S pre0, r))" by (rule ext) simp
  then show ?case using Nil by (auto intro!: exI [of _ "[]"] simp: parses_return)
next
  case (Cons y ys)
  obtain \<sigma>1 where s1: "step y \<sigma> = (None, \<sigma>1)" "each step ys \<sigma>1 = (None, \<sigma>')"
    using Cons.prems(1) by (auto split: prod.splits option.splits)
  from Cons.prems(2) [of "[]" y ys, OF _ s1(1)] obtain as where
    a: "extends (W \<sigma>) (W \<sigma>1) as" "parses (G y (S pre0)) as (S (pre0 @ [y]))" "ne y \<longrightarrow> as \<noteq> []"
    by (auto simp: carries_def)
  have step: "carries (G x (S ((pre0 @ [y]) @ pre))) (W \<tau>) (W \<tau>') (S ((pre0 @ [y]) @ pre @ [x])) (ne x)"
    if "ys = pre @ x # post" "step x \<tau> = (None, \<tau>')" for pre x post \<tau> \<tau>'
    using Cons.prems(2) [of "y # pre" x post \<tau> \<tau>'] that by simp
  have "\<exists>bs. extends (W \<sigma>1) (W \<sigma>') bs \<and> parses (each_until G ys (S (pre0 @ [y]))) bs (S ((pre0 @ [y]) @ ys))
     \<and> length (filter ne ys) \<le> length bs"
    by (rule Cons.IH [OF s1(2)]) (rule step)
  then obtain bs where b: "extends (W \<sigma>1) (W \<sigma>') bs"
    "parses (each_until G ys (S (pre0 @ [y]))) bs (S (pre0 @ y # ys))" "length (filter ne ys) \<le> length bs"
    by auto
  have "parses (\<lambda>r. if rerror r \<noteq> None then (S pre0, r) else case G y (S pre0) r of (s, r) \<Rightarrow> each_until G ys s r)
      (as @ bs) (S (pre0 @ y # ys))"
    by (rule parses_unless_error, rule parses_bind [OF a(2)], rule b(2))
  moreover have "each_until G (y # ys) (S pre0)
      = (\<lambda>r. if rerror r \<noteq> None then (S pre0, r) else case G y (S pre0) r of (s, r) \<Rightarrow> each_until G ys s r)"
    by (rule ext) simp
  moreover have "length (filter ne (y # ys)) \<le> length (as @ bs)" using a(3) b(3) by (cases as) auto
  ultimately show ?case using extends_trans [OF a(1) b(1)] by auto
qed

lemmas each_until_carries = each_until_suffix [where ?pre0.0 = "[]", simplified]

lemma read_while_each: "read_while (length xs) g s r = each_until (\<lambda>_. g) xs s r"
  by (induction xs arbitrary: s r) (auto split: prod.split)

lemma counted_carries:
  assumes "each step xs (put_varint (length xs) w) = (None, w')" "length xs \<le> MAX_UINT32"
    "\<And>pre x post w w'. xs = pre @ x # post \<Longrightarrow> step x w = (None, w') \<Longrightarrow>
       carries (G (S pre)) w w' (S (pre @ [x])) True"
  shows "carries (\<lambda>r. case get_count r of (count, r) \<Rightarrow> case read_while count G (S []) r of (out, r) \<Rightarrow> (h out, r))
     w w' (h (S xs)) True"
proof -
  obtain bs where b: "extends (put_varint (length xs) w) w' bs" "parses (each_until (\<lambda>_. G) xs (S [])) bs (S xs)"
    "length xs \<le> length bs"
    using each_until_carries [OF assms(1), of "\<lambda>_. G" S "\<lambda>w. w" "\<lambda>_. True"] assms(3) by auto
  have rw: "read_while (length xs) G (S []) = each_until (\<lambda>_. G) xs (S [])" by (rule ext) (rule read_while_each)
  have "parses (\<lambda>r. case get_count r of (count, r) \<Rightarrow> case read_while count G (S []) r of (out, r) \<Rightarrow> (h out, r))
     (varint_bytes (length xs) @ bs) (h (S xs))"
    using parses_map [OF b(2), of h]
    by (intro parses_count [where h = "\<lambda>count r. case read_while count G (S []) r of (out, r) \<Rightarrow> (h out, r)"] assms(2) b(3))
      (simp add: rw)
  then show ?thesis using extends_trans [OF extends_appends [OF appends_varint [OF assms(2)]] b(1)]
    by (auto intro: carriesI)
qed

lemma enumerate_nth: "enumerate 0 vs = pre @ x # post \<Longrightarrow> snd x \<in> set vs \<and> map snd pre @ snd x # map snd post = vs"
  by (metis in_set_conv_decomp list.simps(9) map_append map_snd_enumerate)

section \<open>One field of a message\<close>

definition write_step ::
  "(jsstring \<times> jsval) list \<Rightarrow> jsstring \<Rightarrow> FieldPlan \<Rightarrow> bytewriter \<times> byte list \<Rightarrow> message option \<times> bytewriter \<times> byte list" where
  "write_step ps path p = (\<lambda>(w, flags).
     let x = js_get ps (pname p); pos = path @ js ''.'' @ pname p
     in case optional_of (pfield p) of
          Some g \<Rightarrow>
            if isAbsent x then (None, w, flags)
            else let flags = setBit (the (pbit p)) flags
                 in (case pvalueBit p of
                       Some vb \<Rightarrow>
                         if \<not> is_bool x then (fst (failure pos ''not a bool'' w), w, flags)
                         else (None, w, if x = JBool True then setBit vb flags else flags)
                     | None \<Rightarrow> (case writeField g x pos w of (e, w) \<Rightarrow> (e, w, flags)))
        | None \<Rightarrow>
            if pfield p = FScalar bool_kind then
              (if \<not> is_bool x then (fst (failure pos ''not a bool'' w), w, flags)
               else (None, w, if x = JBool True then setBit (the (pbit p)) flags else flags))
            else (case writeField (pfield p) x pos w of (e, w) \<Rightarrow> (e, w, flags)))"

lemma writeMessage_step:
  "writeMessage def (JObj ps) path w =
     (case each (write_step ps path) (pfields (planOf def))
             (put_zeros (flagBytes (planOf def)) w, replicate (flagBytes (planOf def)) 0) of
        (Some e, w1, flags) \<Rightarrow> (Some e, w1)
      | (None, w1, flags) \<Rightarrow> (None, patch_all (wlength w) flags w1))"
  by (subst writeMessage.simps) (simp add: write_step_def [abs_def] Let_def)

definition read_step ::
  "nat list \<Rightarrow> FieldPlan \<Rightarrow> (jsstring \<times> jsval) list \<Rightarrow> bytereader \<Rightarrow> (jsstring \<times> jsval) list \<times> bytereader" where
  "read_step flags p out r =
     (case optional_of (pfield p) of
        Some g \<Rightarrow>
          if \<not> flag_bit flags (the (pbit p)) then
            (out, if pvalueBit p \<noteq> None \<and> flag_bit flags (the (pvalueBit p))
                  then fail (Msg ''value bit of an absent optional'' []) r else r)
          else (case pvalueBit p of
                  Some vb \<Rightarrow> (js_assign out (pname p) (JBool (flag_bit flags vb)), r)
                | None \<Rightarrow> (case readField g r of (v, r) \<Rightarrow> (js_assign out (pname p) v, r)))
      | None \<Rightarrow>
          if pfield p = FScalar bool_kind then
            (js_assign out (pname p) (JBool (flag_bit flags (the (pbit p)))), r)
          else (case readField (pfield p) r of (v, r) \<Rightarrow> (js_assign out (pname p) v, r)))"

lemma readMessage_step:
  "readMessage def r =
     (case get_times get_u8 (flagBytes (planOf def)) r of (flags, r) \<Rightarrow>
        each_until (read_step flags) (pfields (planOf def)) []
          (if padding_set flags (lastMask (planOf def)) then fail (Msg ''flag padding bit set'' []) r else r))"
  by (subst readMessage.simps) (simp only: read_step_def [abs_def] Let_def)

text \<open>The bits a field sets, and what it adds to the receiver's object.\<close>

definition bits_of :: "(jsstring \<times> jsval) list \<Rightarrow> FieldPlan \<Rightarrow> nat list" where
  "bits_of ps p =
     (let x = js_get ps (pname p)
      in case optional_of (pfield p) of
           Some g \<Rightarrow>
             if isAbsent x then []
             else the (pbit p) # (case pvalueBit p of Some vb \<Rightarrow> if x = JBool True then [vb] else [] | None \<Rightarrow> [])
         | None \<Rightarrow> if pfield p = FScalar bool_kind \<and> x = JBool True then [the (pbit p)] else [])"

definition adds :: "(jsstring \<times> jsval) list \<Rightarrow> FieldPlan \<Rightarrow> (jsstring \<times> jsval) list" where
  "adds ps p =
     (case optional_of (pfield p) of
        Some g \<Rightarrow> if isAbsent (js_get ps (pname p)) then [] else [(pname p, seen_field g (js_get ps (pname p)))]
      | None \<Rightarrow> [(pname p, seen_field (pfield p) (js_get ps (pname p)))])"

lemma bits_of_plan: "plan_shape p \<Longrightarrow> set (bits_of ps p) \<subseteq> set (plan_bits p)"
  by (auto simp: bits_of_def plan_bits_def plan_shape_def Let_def split: option.splits if_splits)

lemma write_step_flags:
  "write_step ps path p (w, flags) = (None, w', flags') \<Longrightarrow> plan_shape p \<Longrightarrow> flags' = fold setBit (bits_of ps p) flags"
  by (auto simp: write_step_def bits_of_def plan_shape_def Let_def failure_def split: option.splits if_splits prod.splits)

lemma each_flags:
  "each (write_step ps path) plans (w, flags) = (None, w', flags') \<Longrightarrow> list_all plan_shape plans \<Longrightarrow>
   flags' = fold setBit (concat (map (bits_of ps) plans)) flags"
proof (induction plans arbitrary: w flags)
  case (Cons p plans)
  then obtain w1 fl1 where "write_step ps path p (w, flags) = (None, w1, fl1)"
    "each (write_step ps path) plans (w1, fl1) = (None, w', flags')"
    by (auto split: prod.splits option.splits)
  with Cons write_step_flags show ?case by fastforce
qed simp

lemma seen_bool: "is_bool x \<Longrightarrow> seen_field (FScalar bool_kind) x = x \<and> x = JBool (x = JBool True)"
  by (auto simp: is_bool_def seen_scalar_field_def)

text \<open>
  A field of a message, given that its value is carried: with the flags the message ends up
  with, the reader adds exactly this field.
\<close>

definition field_carried :: "field \<Rightarrow> bool" where
  "field_carried f = (\<forall>v pos w w'. payload_ok v \<longrightarrow> writeField f v pos w = (None, w') \<longrightarrow>
     carries (readField f) w w' (seen_field f v) (\<not> empty_field f))"

definition flags_read :: "nat list \<Rightarrow> (jsstring \<times> jsval) list \<Rightarrow> FieldPlan \<Rightarrow> bool" where
  "flags_read flags ps p = (\<forall>i \<in> set (plan_bits p). flag_bit flags i \<longleftrightarrow> i \<in> set (bits_of ps p))"

lemma carries_nothing: "w' = w \<Longrightarrow> g = (\<lambda>r. (v, r)) \<Longrightarrow> \<not> ne \<Longrightarrow> carries g w w' v ne"
  by (auto simp: parses_return intro!: carriesI [of _ _ "[]"])

lemma carries_assign:
  assumes "field_carried f" "payload_ok x" "writeField f x pos w = (None, w')"
    "\<And>v. js_assign out n v = out @ [(n, v)]" "g = (\<lambda>r. case readField f r of (v, r) \<Rightarrow> (js_assign out n v, r))"
    "ne \<longrightarrow> \<not> empty_field f"
  shows "carries g w w' (out @ [(n, seen_field f x)]) ne"
proof -
  have "carries (readField f) w w' (seen_field f x) (\<not> empty_field f)"
    using assms(1-3) unfolding field_carried_def by blast
  from carries_map [OF this, of "\<lambda>v. js_assign out n v"] show ?thesis
    using assms(4-6) by (auto simp: carries_def)
qed

lemma optional_step_carries:
  assumes step: "write_step ps path p (w, fl) = (None, w', fl')" and shape: "plan_shape p"
    and opt: "optional_of (pfield p) = Some g" and g: "field_carried g"
    and flags: "flags_read flags ps p" and bits: "distinct (plan_bits p)"
    and ps: "payload_ok (JObj ps)" and out: "\<And>v. js_assign out (pname p) v = out @ [(pname p, v)]"
  shows "carries (read_step flags p out) w w' (out @ adds ps p) False"
proof -
  define x where "x = js_get ps (pname p)"
  obtain b where b: "pbit p = Some b" using shape opt by (auto simp: plan_shape_def)
  have fb: "flag_bit flags b \<longleftrightarrow> \<not> isAbsent x"
    using flags bits by (auto simp: flags_read_def plan_bits_def b bits_of_def opt x_def Let_def split: option.splits if_splits)
  show ?thesis
  proof (cases "isAbsent x")
    case True
    have vb: "\<not> flag_bit flags i" if "pvalueBit p = Some i" for i
      using flags that True by (auto simp: flags_read_def plan_bits_def bits_of_def opt x_def Let_def)
    have "read_step flags p out = (\<lambda>r. (out, r))"
      using True fb vb b opt by (intro ext) (auto simp: read_step_def)
    moreover have "w' = w" using step True opt by (simp add: write_step_def x_def Let_def)
    ultimately show ?thesis using True opt by (auto simp: adds_def x_def intro: carries_nothing)
  next
    case present: False
    then have ad: "adds ps p = [(pname p, seen_field g x)]" using opt by (simp add: adds_def x_def)
    show ?thesis
    proof (cases "pvalueBit p")
      case None
      then have "writeField g x (path @ js ''.'' @ pname p) w = (None, w')"
        using step present opt by (auto simp: write_step_def x_def Let_def split: prod.splits)
      then show ?thesis unfolding ad using present fb b opt None payload_ok_get [OF ps, of "pname p", folded x_def]
        by (intro carries_assign [OF g _ _ out]) (auto simp: read_step_def [abs_def])
    next
      case (Some vb)
      then have gb: "g = FScalar bool_kind" using shape opt by (simp add: plan_shape_def)
      have xb: "is_bool x" "w' = w" using step present Some opt
        by (auto simp: write_step_def x_def Let_def failure_def split: if_splits)
      have v: "flag_bit flags vb \<longleftrightarrow> x = JBool True"
        using flags bits present opt
        by (auto simp: flags_read_def plan_bits_def b Some bits_of_def x_def Let_def split: if_splits)
      have "read_step flags p out = (\<lambda>r. (out @ [(pname p, x)], r))"
        using present fb b Some opt out v seen_bool [OF xb(1)] by (auto simp: read_step_def [abs_def])
      then show ?thesis unfolding ad gb using xb(2) seen_bool [OF xb(1)] by (auto intro: carries_nothing)
    qed
  qed
qed

lemma plain_step_carries:
  assumes step: "write_step ps path p (w, fl) = (None, w', fl')" and shape: "plan_shape p"
    and plain: "optional_of (pfield p) = None" and f: "field_carried (pfield p)"
    and flags: "flags_read flags ps p"
    and ps: "payload_ok (JObj ps)" and out: "\<And>v. js_assign out (pname p) v = out @ [(pname p, v)]"
  shows "carries (read_step flags p out) w w' (out @ adds ps p) (pbit p = None \<and> \<not> empty_field (pfield p))"
proof -
  define x where "x = js_get ps (pname p)"
  have ad: "adds ps p = [(pname p, seen_field (pfield p) x)]" using plain by (simp add: adds_def x_def)
  show ?thesis
  proof (cases "pfield p = FScalar bool_kind")
    case True
    then obtain b where b: "pbit p = Some b" using shape plain by (auto simp: plan_shape_def)
    have xb: "is_bool x" "w' = w" using step True plain
      by (auto simp: write_step_def x_def Let_def failure_def split: if_splits)
    have v: "flag_bit flags b \<longleftrightarrow> x = JBool True"
      using flags True plain by (auto simp: flags_read_def plan_bits_def b bits_of_def x_def Let_def split: if_splits option.splits)
    have "read_step flags p out = (\<lambda>r. (out @ [(pname p, x)], r))"
      using b plain True out v seen_bool [OF xb(1)] by (auto simp: read_step_def [abs_def])
    then show ?thesis unfolding ad True using b xb(2) seen_bool [OF xb(1)] by (auto intro: carries_nothing)
  next
    case False
    then have "writeField (pfield p) x (path @ js ''.'' @ pname p) w = (None, w')"
      using step plain by (auto simp: write_step_def x_def Let_def split: prod.splits)
    then show ?thesis unfolding ad using False plain payload_ok_get [OF ps, of "pname p", folded x_def]
      by (intro carries_assign [OF f _ _ out]) (auto simp: read_step_def [abs_def])
  qed
qed

section \<open>Messages\<close>

lemma patch_all_bytes:
  "writer_ok w \<Longrightarrow> n + length bs \<le> length (toBytes w) \<Longrightarrow>
   writer_ok (patch_all n bs w) \<and> toBytes (patch_all n bs w) = put_at n bs (toBytes w)"
proof (induction n bs w rule: patch_all.induct)
  case (2 n b bs w)
  note p = toBytes_patch [OF "2.prems"(1), of n b]
  have "Suc n + length bs \<le> length (toBytes (patch n b w))" using p "2.prems"(2) by simp
  with 2 p show ?case by (simp add: put_at_def upd_conv_take_nth_drop min_def add.commute)
qed (simp add: put_at_def)

lemma put_zeros_bytes: "appends (put_zeros n) (replicate n 0)"
proof (induction n)
  case (Suc n)
  have "put_zeros (Suc n) = (\<lambda>w. put_u8 0 (put_zeros n w))" by (rule ext) (simp add: put_zeros_def)
  with appends_comp [OF Suc appends_u8 [of 0]] show ?case by (simp add: replicate_append_same)
qed (simp add: put_zeros_def [abs_def] appends_def)

lemma parses_flags: "parses (get_times get_u8 (length flags)) flags (map unat flags)"
proof (induction flags)
  case Nil
  show ?case by (simp add: parses_def)
next
  case (Cons b flags)
  have "parses (\<lambda>r. case get_u8 r of (v, r) \<Rightarrow> case get_times get_u8 (length flags) r of (vs, r) \<Rightarrow> (v # vs, r))
      ([b] @ flags) (unat b # map unat flags)"
    by (rule parses_bind [OF parses_u8], rule parses_map [OF Cons])
  moreover have "get_times get_u8 (length (b # flags))
      = (\<lambda>r. case get_u8 r of (v, r) \<Rightarrow> case get_times get_u8 (length flags) r of (vs, r) \<Rightarrow> (v # vs, r))"
    by (rule ext) simp
  ultimately show ?case by simp
qed

lemma flags_read_fold:
  assumes "concat (map plan_bits plans) = [0..<bits]" "list_all plan_shape plans"
    "flags = fold setBit (concat (map (bits_of ps) plans)) (replicate ((bits + 7) div 8) 0)"
  shows "p \<in> set plans \<Longrightarrow> flags_read (map unat flags) ps p" "\<And>i. bit_at flags i \<Longrightarrow> i < bits"
proof -
  have sub: "set (bits_of ps q) \<subseteq> set (plan_bits q)" if "q \<in> set plans" for q
    using bits_of_plan assms(2) that by (auto simp: list_all_iff)
  have plan: "i < bits" if "q \<in> set plans" "i \<in> set (plan_bits q)" for q i
  proof -
    have "i \<in> set (concat (map plan_bits plans))" using that by auto
    then show ?thesis using assms(1) by simp
  qed
  have "\<forall>b \<in> set (concat (map (bits_of ps) plans)). b < 8 * length (replicate ((bits + 7) div 8) (0 :: byte))"
  proof
    fix b assume "b \<in> set (concat (map (bits_of ps) plans))"
    then obtain q where "q \<in> set plans" "b \<in> set (bits_of ps q)" by auto
    with sub plan have "b < bits" by blast
    then show "b < 8 * length (replicate ((bits + 7) div 8) (0 :: byte))" by simp
  qed
  from bit_at_fold_setBit [OF this] have at: "bit_at flags i \<longleftrightarrow> (\<exists>q \<in> set plans. i \<in> set (bits_of ps q))" for i
    by (simp add: assms(3))
  then show "\<And>i. bit_at flags i \<Longrightarrow> i < bits" using sub plan by blast
  have d: "distinct (concat (map plan_bits plans))" using assms(1) by simp
  show "flags_read (map unat flags) ps p" if p: "p \<in> set plans"
    unfolding flags_read_def flag_bit_iff at
  proof (intro ballI iffI)
    fix i assume i: "i \<in> set (plan_bits p)" "\<exists>q \<in> set plans. i \<in> set (bits_of ps q)"
    then obtain q where q: "q \<in> set plans" "i \<in> set (bits_of ps q)" by blast
    then have "q = p" using distinct_concat_owner [OF d q(1) p] sub i(1) by blast
    with q show "i \<in> set (bits_of ps p)" by simp
  qed (use p in blast)
qed

lemma distinct_concat_mem: "distinct (concat (map h xs)) \<Longrightarrow> x \<in> set xs \<Longrightarrow> distinct (h x)"
  by (induction xs) auto

text \<open>Under distinct, plain names every assignment appends.\<close>

lemma assign_fresh:
  assumes "distinct (map pname plans)" "\<forall>q \<in> set plans. pname q \<noteq> proto_key \<and> \<not> isIntegerLikeKey (pname q)"
    "plans = pre @ p # post"
  shows "js_assign (concat (map (adds ps) pre)) (pname p) v = concat (map (adds ps) pre) @ [(pname p, v)]"
proof (rule js_assign_append)
  have names: "fst ` set (concat (map (adds ps) pre)) \<subseteq> pname ` set pre"
    by (auto simp: adds_def split: option.splits if_splits)
  then show "pname p \<notin> fst ` set (concat (map (adds ps) pre))" using assms(1,3) by auto
  show "pname p \<noteq> proto_key" using assms(2,3) by simp
  have "set (map fst (concat (map (adds ps) pre)) @ [pname p]) \<subseteq> pname ` set plans"
    using names assms(3) by auto
  then show "key_order (map fst (concat (map (adds ps) pre)) @ [pname p])"
    using assms(2) by (intro key_order_plain) blast
qed

definition message_carried :: "messagedef \<Rightarrow> bool" where
  "message_carried m = (\<forall>v path w w'. payload_ok v \<longrightarrow> writeMessage m v path w = (None, w') \<longrightarrow>
     carries (readMessage m) w w' (seen_message m v) (\<not> empty_message m))"

lemma seen_message_adds:
  "map (\<lambda>p. (pname p, pfield p)) plans = fs \<Longrightarrow> seen_message (MessageDef i n fs) (JObj ps) = concat (map (adds ps) plans)"
proof -
  assume fs: "map (\<lambda>p. (pname p, pfield p)) plans = fs"
  have "adds ps = (\<lambda>q. case q of (n, f) \<Rightarrow> (case optional_of f of
              Some g \<Rightarrow> if isAbsent (js_get ps n) then [] else [(n, seen_field g (js_get ps n))]
            | None \<Rightarrow> [(n, seen_field f (js_get ps n))])) \<circ> (\<lambda>p. (pname p, pfield p))"
    by (rule ext) (simp add: adds_def)
  then show ?thesis unfolding fs [symmetric] by (simp add: comp_def case_prod_unfold cong: option.case_cong)
qed

lemma planOf_eq:
  assumes "plan_fields fs 0 = (plans, bits)"
  shows "pfields (planOf (MessageDef i n fs)) = plans" "flagBytes (planOf (MessageDef i n fs)) = (bits + 7) div 8"
    "lastMask (planOf (MessageDef i n fs)) = (if bits mod 8 = 0 then 0xff else 2 ^ (bits mod 8) - 1)"
  by (simp_all add: planOf_def assms Let_def)

definition fields_carried :: "(jsstring \<times> field) list \<Rightarrow> bool" where
  "fields_carried fs = (\<forall>(name, f) \<in> set fs. field_carried f \<and> (\<forall>g. f = FOptional g \<longrightarrow> field_carried g))"

text \<open>The values of a message, behind its flag bytes.\<close>

lemma message_loop:
  assumes wf: "wf_message (MessageDef i n fs)" and fields: "fields_carried fs"
    and pf: "plan_fields fs 0 = (plans, bits)" and ps: "payload_ok (JObj ps)"
    and e: "each (write_step ps path) plans (w0, replicate ((bits + 7) div 8) 0) = (None, w1, flags)"
  obtains bs where "extends w0 w1 bs"
    "parses (each_until (read_step (map unat flags)) plans []) bs (concat (map (adds ps) plans))"
    "length (filter (\<lambda>p. pbit p = None \<and> \<not> empty_field (pfield p)) plans) \<le> length bs"
proof -
  note spec = plan_fields_spec [OF pf]
  have fl: "flags = fold setBit (concat (map (bits_of ps) plans)) (replicate ((bits + 7) div 8) 0)"
    using each_flags [OF e] spec by simp
  have cb: "concat (map plan_bits plans) = [0..<bits]" "list_all plan_shape plans" using spec by auto
  note fr = flags_read_fold [OF cb fl]
  have fs: "fs = map (\<lambda>p. (pname p, pfield p)) plans" using spec by simp
  have names: "distinct (map pname plans)" "\<forall>q \<in> set plans. pname q \<noteq> proto_key \<and> \<not> isIntegerLikeKey (pname q)"
    using wf by (auto simp: fs list_all_iff comp_def image_iff)
  have step: "carries (read_step (map unat flags) p (concat (map (adds ps) pre))) (fst \<sigma>) (fst \<sigma>')
      (concat (map (adds ps) (pre @ [p]))) (pbit p = None \<and> \<not> empty_field (pfield p))"
    if p: "plans = pre @ p # post" and st: "write_step ps path p \<sigma> = (None, \<sigma>')" for pre p post \<sigma> \<sigma>'
  proof -
    have pm: "p \<in> set plans" using p by simp
    have sh: "plan_shape p" using cb(2) pm by (simp add: list_all_iff)
    have ds: "distinct (plan_bits p)" using distinct_concat_mem [OF _ pm, of plan_bits] cb(1) by simp
    note out = assign_fresh [OF names p, of ps]
    have st': "write_step ps path p (fst \<sigma>, snd \<sigma>) = (None, fst \<sigma>', snd \<sigma>')" using st by simp
    have fc: "field_carried (pfield p) \<and> (\<forall>g. pfield p = FOptional g \<longrightarrow> field_carried g)"
      using fields pm by (auto simp: fields_carried_def fs)
    show ?thesis
    proof (cases "optional_of (pfield p)")
      case None
      with plain_step_carries [OF st' sh None _ fr(1) [OF pm] ps out] fc show ?thesis by simp
    next
      case (Some g)
      then have "field_carried g" "pbit p \<noteq> None" using fc sh by (auto simp: plan_shape_def)
      with optional_step_carries [OF st' sh Some _ fr(1) [OF pm] ds ps out] show ?thesis by (auto simp: carries_def)
    qed
  qed
  have "\<exists>bs. extends (fst (w0, replicate ((bits + 7) div 8) (0 :: byte))) (fst (w1, flags)) bs
      \<and> parses (each_until (read_step (map unat flags)) plans (concat (map (adds ps) []))) bs (concat (map (adds ps) plans))
      \<and> length (filter (\<lambda>p. pbit p = None \<and> \<not> empty_field (pfield p)) plans) \<le> length bs"
    by (rule each_until_carries [OF e]) (rule step)
  then show ?thesis using that by auto
qed

lemma message_nonempty:
  assumes "plan_fields fs 0 = (plans, bits)" "\<not> empty_message (MessageDef i n fs)"
  shows "0 < bits \<or> filter (\<lambda>p. pbit p = None \<and> \<not> empty_field (pfield p)) plans \<noteq> []"
proof -
  note spec = plan_fields_spec [OF assms(1)]
  have "\<exists>p \<in> set plans. \<not> empty_field (pfield p)"
    using assms(2) spec by (auto simp: list_all_iff)
  then obtain p where p: "p \<in> set plans" "\<not> empty_field (pfield p)" by blast
  show ?thesis
  proof (cases "pbit p")
    case None
    then show ?thesis using p by (auto simp: filter_empty_conv)
  next
    case (Some b)
    then have "b \<in> set (plan_bits p)" by (simp add: plan_bits_def)
    then have "b \<in> set (concat (map plan_bits plans))" using p(1) by auto
    then show ?thesis using spec by simp
  qed
qed

lemma message_carriedI:
  assumes wf: "wf_message (MessageDef i n fs)" and fields: "fields_carried fs"
  shows "message_carried (MessageDef i n fs)"
  unfolding message_carried_def
proof (intro allI impI)
  fix v path w w' assume v: "payload_ok v" and wr: "writeMessage (MessageDef i n fs) v path w = (None, w')"
  let ?def = "MessageDef i n fs"
  obtain ps where ps: "v = JObj ps" using wr by (cases v) (auto simp: failure_def writeMessage.simps)
  obtain plans bits where pf: "plan_fields fs 0 = (plans, bits)" by fastforce
  let ?k = "(bits + 7) div 8"
  note spec = plan_fields_spec [OF pf] and plan = planOf_eq [OF pf, of i n]
  obtain w1 flags where e: "each (write_step ps path) plans (put_zeros ?k w, replicate ?k 0) = (None, w1, flags)"
    and w': "w' = patch_all (wlength w) flags w1"
    using wr unfolding ps writeMessage_step plan by (auto split: prod.splits option.splits)
  obtain bs where b: "extends (put_zeros ?k w) w1 bs"
    "parses (each_until (read_step (map unat flags)) plans []) bs (concat (map (adds ps) plans))"
    "length (filter (\<lambda>p. pbit p = None \<and> \<not> empty_field (pfield p)) plans) \<le> length bs"
    using message_loop [OF wf fields pf v [unfolded ps] e] by blast
  have fl: "flags = fold setBit (concat (map (bits_of ps) plans)) (replicate ?k 0)"
    using each_flags [OF e] spec by simp
  then have len: "length flags = ?k" by simp
  have "extends w w' (flags @ bs)" unfolding extends_def w'
  proof (intro impI)
    assume ok: "writer_ok w"
    have "extends w w1 (replicate ?k 0 @ bs)" by (rule extends_trans [OF extends_appends [OF put_zeros_bytes] b(1)])
    then have w1: "writer_ok w1" "toBytes w1 = toBytes w @ replicate ?k 0 @ bs" using ok by (auto simp: extends_def)
    show "writer_ok (patch_all (wlength w) flags w1) \<and> toBytes (patch_all (wlength w) flags w1) = toBytes w @ flags @ bs"
      using patch_all_bytes [OF w1(1), of "wlength w" flags] length_toBytes [OF ok] w1(2) len
      by (simp add: put_at_def)
  qed
  moreover have np: "\<not> padding_set (map unat flags) (lastMask (planOf ?def))"
    unfolding plan(3) using len flags_read_fold(2) [OF _ _ fl] spec by (intro padding_clear) auto
  have "parses (readMessage ?def) (flags @ bs) (seen_message ?def v)"
    unfolding readMessage_step [abs_def] plan(1,2) ps seen_message_adds [OF conjunct2 [OF conjunct2 [OF conjunct2 [OF spec]]]]
    by (rule parses_bind [OF parses_flags [of flags, unfolded len]]) (simp add: np b(2))
  moreover have "flags @ bs \<noteq> []" if "\<not> empty_message ?def"
    using message_nonempty [OF pf that] len b(3) by (auto simp: div_greater_zero_iff)
  ultimately show "carries (readMessage ?def) w w' (seen_message ?def v) (\<not> empty_message ?def)"
    by (auto intro: carriesI)
qed

section \<open>Every field is carried\<close>

lemma array_carried:
  assumes "field_carried f" "\<not> empty_field f"
  shows "field_carried (FArray f)"
  unfolding field_carried_def
proof (intro allI impI)
  fix v path w w' assume v: "payload_ok v" and wr: "writeField (FArray f) v path w = (None, w')"
  obtain vs where vs: "v = JArr vs" using wr by (cases v) (auto simp: failure_def)
  let ?S = "map (seen_field f \<circ> snd) :: (nat \<times> jsval) list \<Rightarrow> jsval list"
  have "carries (\<lambda>r. case get_count r of (count, r) \<Rightarrow>
      case read_while count (\<lambda>out r. case readField f r of (v, r) \<Rightarrow> (out @ [v], r)) (?S []) r of
        (out, r) \<Rightarrow> (JArr out, r)) w w' (JArr (?S (enumerate 0 vs))) True"
  proof (rule counted_carries [where S = ?S and h = JArr])
    show "each (\<lambda>p w. writeField f (snd p) (path @ js ''['' @ dec (fst p) @ js '']'') w) (enumerate 0 vs)
        (put_varint (length (enumerate 0 vs)) w) = (None, w')" using wr vs by simp
    show "length (enumerate 0 vs) \<le> MAX_UINT32" using v vs by simp
    fix pre x post u u'
    assume x: "enumerate 0 vs = pre @ x # post"
      and st: "writeField f (snd x) (path @ js ''['' @ dec (fst x) @ js '']'') u = (None, u')"
    have "payload_ok (snd x)" using enumerate_nth [OF x] v vs by (simp add: list_all_iff)
    from assms st this have "carries (readField f) u u' (seen_field f (snd x)) True"
      unfolding field_carried_def by auto
    from carries_map [OF this, of "\<lambda>v. ?S pre @ [v]"]
    show "carries (\<lambda>r. case readField f r of (v, r) \<Rightarrow> (?S pre @ [v], r)) u u'
        (?S (pre @ [x])) True" by simp
  qed
  then show "carries (readField (FArray f)) w w' (seen_field (FArray f) v) (\<not> empty_field (FArray f))"
    by (simp add: vs readField.simps(4) [abs_def] flip: map_map)
qed

lemma map_carried:
  assumes "field_carried f"
  shows "field_carried (FMap f)"
  unfolding field_carried_def
proof (intro allI impI)
  fix v path w w' assume v: "payload_ok v" and wr: "writeField (FMap f) v path w = (None, w')"
  obtain ps where ps: "v = JObj ps" using wr by (cases v) (auto simp: failure_def)
  let ?S = "map (\<lambda>p. (wireString (fst p), seen_field f (snd p)))"
  let ?G = "\<lambda>out r. case get_string r of (key, r) \<Rightarrow>
      let r = check_key key out r
      in case readField f r of (v, r) \<Rightarrow> (if rerror r = None then js_assign out key v else out, r)"
  have "carries (\<lambda>r. case get_count r of (count, r) \<Rightarrow> case read_while count ?G (?S []) r of (out, r) \<Rightarrow> (JObj out, r))
      w w' (JObj (?S ps)) True"
  proof (rule counted_carries [where S = ?S and h = JObj])
    show "each (\<lambda>p w. writeField f (snd p) (path @ js ''.'' @ fst p) (put_string (fst p) w)) ps (put_varint (length ps) w) = (None, w')"
      using wr ps by simp
    show "length ps \<le> MAX_UINT32" using v ps by simp
    fix pre x post u u'
    assume x: "ps = pre @ x # post" and st: "writeField f (snd x) (path @ js ''.'' @ fst x) (put_string (fst x) u) = (None, u')"
    have ok: "string_ok (fst x)" "payload_ok (snd x)" using v ps x by simp_all
    from assms st ok(2) obtain bs where b: "extends (put_string (fst x) u) u' bs" "parses (readField f) bs (seen_field f (snd x))"
      unfolding field_carried_def carries_def by blast
    have fresh: "wireString (fst x) \<notin> fst ` set (?S pre)" "wireString (fst x) \<noteq> proto_key"
      using v ps x by (auto simp: image_iff comp_def)
    have "key_order (map fst (?S pre) @ [wireString (fst x)])"
      using v ps x key_order_appendD [of "map fst (?S pre) @ [wireString (fst x)]" "map (wireString \<circ> fst) post"]
      by (simp add: comp_def)
    then have as: "js_assign (?S pre) (wireString (fst x)) y = ?S pre @ [(wireString (fst x), y)]" for y
      using fresh by (intro js_assign_append)
    have "check_key (wireString (fst x)) (?S pre) r = r" for r
      unfolding check_key_def using fresh by (simp only: if_False)
    then have body: "parses (\<lambda>r. let r = check_key (wireString (fst x)) (?S pre) r
        in case readField f r of (v, r) \<Rightarrow> (if rerror r = None then js_assign (?S pre) (wireString (fst x)) v else ?S pre, r))
        bs (?S (pre @ [x]))"
      using b(2) by (auto simp: parses_def as dest: rd_at_error)
    have "parses (?G (?S pre)) (string_bytes (fst x) @ bs) (?S (pre @ [x]))"
      by (rule parses_bind [OF string_codec.get_parses [OF ok(1)]]) (rule body)
    moreover have "extends u u' (string_bytes (fst x) @ bs)"
      by (rule extends_trans [OF extends_appends [OF string_codec.put_appends [OF ok(1)]] b(1)])
    ultimately show "carries (?G (?S pre)) u u' (?S (pre @ [x])) True" by (auto intro: carriesI)
  qed
  then show "carries (readField (FMap f)) w w' (seen_field (FMap f) v) (\<not> empty_field (FMap f))"
    by (simp add: ps readField.simps(5) [abs_def])
qed

lemma optional_carried:
  assumes "field_carried f"
  shows "field_carried (FOptional f)"
  unfolding field_carried_def
proof (intro allI impI)
  fix v path w w' assume v: "payload_ok v" and wr: "writeField (FOptional f) v path w = (None, w')"
  let ?G = "\<lambda>present r. let r = (if 1 < present then fail (Msg ''presence byte {}'' [nat_val present]) r else r)
      in if present = 1 then readField f r else (JUndef, r)"
  have rd: "readField (FOptional f) = (\<lambda>r. case get_u8 r of (present, r) \<Rightarrow> ?G present r)" by (rule ext) simp
  show "carries (readField (FOptional f)) w w' (seen_field (FOptional f) v) (\<not> empty_field (FOptional f))"
  proof (cases "isAbsent v")
    case True
    have u8: "parses get_u8 [0] 0" using u8_codec.get_parses [of 0] by simp
    have "parses (readField (FOptional f)) ([0] @ []) JUndef"
      unfolding rd by (rule parses_bind [OF u8]) (simp add: parses_return)
    moreover have "extends w w' [0]" using wr True extends_appends [OF appends_u8 [of 0], of w] by auto
    ultimately show ?thesis using True by (auto intro: carriesI)
  next
    case False
    have u8: "parses get_u8 [1] 1" using u8_codec.get_parses [of 1] by simp
    have "writeField f v path (put_u8 1 w) = (None, w')" using wr False by simp
    then obtain bs where b: "extends (put_u8 1 w) w' bs" "parses (readField f) bs (seen_field f v)"
      using assms v unfolding field_carried_def carries_def by blast
    have "parses (readField (FOptional f)) ([1] @ bs) (seen_field f v)"
      unfolding rd by (rule parses_bind [OF u8]) (simp add: b(2))
    moreover have "extends w w' ([1] @ bs)"
      using extends_trans [OF extends_appends [OF appends_u8 [of 1]] b(1)] by simp
    ultimately show ?thesis using False by (auto intro: carriesI)
  qed
qed

lemma all_carried:
  "wf_field f \<Longrightarrow> field_carried f \<and> (\<forall>g. f = FOptional g \<longrightarrow> field_carried g)"
  "wf_message m \<Longrightarrow> message_carried m"
proof (induction f and m)
  case (FScalar k)
  then show ?case using scalar_field_carries by (auto simp: field_carried_def readField.simps(1) [abs_def])
next
  case (FFixed d)
  have "field_carried (FFixed d)" unfolding field_carried_def
  proof (intro allI impI)
    fix v pos w w' assume "writeField (FFixed d) v pos w = (None, w')"
    then obtain n where "v = JNum n" "w' = put_zigzag (int_of_num (toFixed n d)) w" by (cases v) (auto simp: failure_def)
    then show "carries (readField (FFixed d)) w w' (seen_field (FFixed d) v) (\<not> empty_field (FFixed d))"
      using fixed_carries [of d w n] by (simp add: readField.simps(2) [abs_def])
  qed
  then show ?case by simp
next
  case (FEnum vs)
  have "field_carried (FEnum vs)" unfolding field_carried_def
  proof (intro allI impI)
    fix v pos w w' assume "writeField (FEnum vs) v pos w = (None, w')"
    then obtain i where "enum_index vs v = Some i" "w' = put_varint i w" by (auto simp: failure_def split: option.splits)
    then show "carries (readField (FEnum vs)) w w' (seen_field (FEnum vs) v) (\<not> empty_field (FEnum vs))"
      using enum_carries [of vs v i w] FEnum by (simp add: readField.simps(3) [abs_def])
  qed
  then show ?case by simp
next
  case (FArray f)
  then show ?case by (simp add: array_carried)
next
  case (FMap f)
  then show ?case by (simp add: map_carried)
next
  case (FOptional f)
  then show ?case by (simp add: optional_carried)
next
  case (FNested m)
  then have m: "message_carried m" by simp
  have "field_carried (FNested m)" unfolding field_carried_def
  proof (intro allI impI)
    fix v pos w w' assume v: "payload_ok v" and "writeField (FNested m) v pos w = (None, w')"
    then have "carries (readMessage m) w w' (seen_message m v) (\<not> empty_message m)"
      using m by (auto simp: message_carried_def)
    from carries_map [OF this, of JObj]
    show "carries (readField (FNested m)) w w' (seen_field (FNested m) v) (\<not> empty_field (FNested m))"
      by (simp add: readField.simps(7) [abs_def])
  qed
  then show ?case by simp
next
  case (MessageDef i n fs)
  have "field_carried f \<and> (\<forall>g. f = FOptional g \<longrightarrow> field_carried g)" if "(name, f) \<in> set fs" for name f
    using MessageDef.IH [OF that, of f] MessageDef.prems that by (auto simp: list_all_iff)
  then have "fields_carried fs" unfolding fields_carried_def by blast
  with MessageDef.prems show ?case by (rule message_carriedI)
qed

lemma decodeMessage_encodeMessage:
  assumes "encodeMessage def payload out = (Inr bytes, out')" "wf_message def" "payload_ok payload" "wbytes out \<noteq> []"
  shows "decodeMessage def bytes = Inr (JObj (seen_message def payload))"
proof -
  have w: "writeMessage def payload (def_name def) (reset out) = (None, out')" and b: "bytes = toBytes out'"
    using assms(1) by (auto simp: encodeMessage_def split: prod.splits option.splits)
  obtain bs where c: "extends (reset out) out' bs" "parses (readMessage def) bs (seen_message def payload)"
    using all_carried(2) [OF assms(2)] w assms(3) unfolding message_carried_def carries_def by blast
  have "writer_ok (reset out)" using assms(4) by (simp add: writer_ok_def reset_def)
  then have "bytes = bs" using c(1) b by (auto simp: extends_def)
  moreover have "rd_at (adv (length bs) (new_reader bs)) []" using rd_at_adv [of "new_reader bs" bs "[]"] by simp
  moreover have "rerror (new_reader bs) = None" by (simp add: new_reader_def)
  ultimately show ?thesis using parses_new [OF c(2)]
    by (simp add: decodeMessage_def rd_at_done)
qed

lemma decodeOptions_encodeOptions:
  assumes "encodeOptions def payload out = (Inr element, out')" "wf_message def" "payload_ok payload" "wbytes out \<noteq> []"
  shows "decodeOptions def (case element of None \<Rightarrow> EAbsent | Some bs \<Rightarrow> EBytes bs)
    = Inr (JObj (seen_message def (if isAbsent payload then JObj [] else payload)))"
proof -
  let ?p = "if isAbsent payload then JObj [] else payload"
  obtain bs where e: "encodeMessage def ?p out = (Inr bs, out')" "element = (if length bs = 0 then None else Some bs)"
    using assms(1) by (auto simp: encodeOptions_def split: prod.splits sum.splits)
  have "payload_ok ?p" using assms(3) by simp
  from decodeMessage_encodeMessage [OF e(1) assms(2) this assms(4)] e(2) show ?thesis
    by (auto simp: decodeOptions_def)
qed

end
