(* ===== verification/Positional.thy ===== *)
theory Positional
  imports MessageRoundtrip
begin

text \<open>
  Contract messages in the MessagePack format: the positional arrays of
  \<open>serializer/message-codec.ts\<close> and the string clean-up every value gets before it is
  serialized (\<open>wireStrings\<close> of \<open>serializer/messagepack.ts\<close>). A failure carries its path
  and reason, as the source's \<open>Bad\<close>. The main fact compares the two codecs: whatever a
  contract message is sent with, the receiver gets the same payload.
\<close>

section \<open>Packing\<close>

datatype Bad = Bad (bad_path: jsstring) (bad_message: message)

abbreviation bad :: "jsstring \<Rightarrow> string \<Rightarrow> Bad + 'a" where
  "bad path text \<equiv> Inl (Bad path (Msg text []))"

text \<open>A loop that stops at the first \<open>Bad\<close>.\<close>

fun traverse :: "('a \<Rightarrow> 'e + 'b) \<Rightarrow> 'a list \<Rightarrow> 'e + 'b list" where
  "traverse f [] = Inr []"
| "traverse f (x # xs) =
     (case f x of Inl e \<Rightarrow> Inl e | Inr y \<Rightarrow> (case traverse f xs of Inl e \<Rightarrow> Inl e | Inr ys \<Rightarrow> Inr (y # ys)))"

lemma traverse_cong [fundef_cong]:
  "xs = ys \<Longrightarrow> (\<And>x. x \<in> set ys \<Longrightarrow> f x = g x) \<Longrightarrow> traverse f xs = traverse g ys"
proof (induction xs arbitrary: ys)
  case (Cons x xs)
  then obtain zs where "ys = x # zs" "zs = xs" by auto
  with Cons show ?case by (auto split: sum.split)
qed simp

text \<open>Entries assigned one by one to a fresh object.\<close>

definition assign_all :: "(jsstring \<times> jsval) list \<Rightarrow> (jsstring \<times> jsval) list" where
  "assign_all ps = foldl (\<lambda>out p. js_assign out (fst p) (snd p)) [] ps"

definition packScalar :: "jsstring \<Rightarrow> jsval \<Rightarrow> jsstring \<Rightarrow> Bad + jsval" where
  "packScalar kind v path =
     (if kind = js ''float64'' then (case v of JNum n \<Rightarrow> Inr v | _ \<Rightarrow> bad path ''not a number'')
      else if kind = js ''float32'' then (case v of JNum n \<Rightarrow> Inr (JNum (fround n)) | _ \<Rightarrow> bad path ''not a number'')
      else if kind = js ''string'' then (case v of JStr s \<Rightarrow> Inr v | _ \<Rightarrow> bad path ''not a string'')
      else if kind = bool_kind then (case v of JBool b \<Rightarrow> Inr v | _ \<Rightarrow> bad path ''not a bool'')
      else case isIntKind kind of
             Some k \<Rightarrow> (case v of JNum n \<Rightarrow> Inr (JNum (toInt n k)) | _ \<Rightarrow> bad path ''not a number'')
           | None \<Rightarrow> Inl (Bad path (Msg ''unknown field kind {}'' [JStr kind])))"

text \<open>The loop that trims trailing absent optionals, from length \<open>n\<close> down.\<close>

fun trim_length :: "(jsstring \<times> field) list \<Rightarrow> jsval list \<Rightarrow> nat \<Rightarrow> nat" where
  "trim_length fs out 0 = 0"
| "trim_length fs out (Suc n) =
     (if out ! n = JNull \<and> optional_of (snd (fs ! n)) \<noteq> None then trim_length fs out n else Suc n)"

function (sequential) packField :: "field \<Rightarrow> jsval \<Rightarrow> jsstring \<Rightarrow> Bad + jsval"
  and packFields :: "messagedef \<Rightarrow> jsval \<Rightarrow> jsstring \<Rightarrow> Bad + jsval list" where
  "packField (FScalar kind) v path = packScalar kind v path"
| "packField (FFixed d) v path =
     (case v of JNum n \<Rightarrow> Inr (JNum (toFixed n d)) | _ \<Rightarrow> bad path ''not a number'')"
| "packField (FEnum vs) v path =
     (case enum_index vs v of None \<Rightarrow> bad path ''not one of the enum values'' | Some i \<Rightarrow> Inr (nat_val i))"
| "packField (FArray f) v path =
     (case v of
        JArr vs \<Rightarrow>
          (case traverse (\<lambda>p. packField f (snd p) (path @ js ''['' @ dec (fst p) @ js '']'')) (enumerate 0 vs) of
             Inl e \<Rightarrow> Inl e | Inr ws \<Rightarrow> Inr (JArr ws))
      | _ \<Rightarrow> bad path ''not an array'')"
| "packField (FMap f) v path =
     (case v of
        JObj ps \<Rightarrow>
          (case traverse (\<lambda>p. packField f (snd p) (path @ js ''.'' @ fst p)) ps of
             Inl e \<Rightarrow> Inl e | Inr ws \<Rightarrow> Inr (JObj (assign_all (zip (map fst ps) ws))))
      | _ \<Rightarrow> bad path ''not an object'')"
| "packField (FOptional f) v path = (if isAbsent v then Inr JNull else packField f v path)"
| "packField (FNested m) v path = (case packFields m v path of Inl e \<Rightarrow> Inl e | Inr ws \<Rightarrow> Inr (JArr ws))"
| "packFields (MessageDef i n fs) v path =
     (case v of
        JObj ps \<Rightarrow>
          (case traverse (\<lambda>p. packField (snd p) (js_get ps (fst p)) (path @ js ''.'' @ fst p)) fs of
             Inl e \<Rightarrow> Inl e
           | Inr out \<Rightarrow> Inr (take (trim_length fs out (length out)) out))
      | _ \<Rightarrow> bad path ''not an object'')"
  by pat_completeness auto
termination
  by (relation "measure (\<lambda>x. case x of Inl (f, _, _) \<Rightarrow> size f | Inr (m, _, _) \<Rightarrow> size m)")
    (auto dest!: size_field_mem')

definition packAny :: "messagedef \<Rightarrow> jsval \<Rightarrow> SerializerError + jsval list" where
  "packAny def payload =
     (case packFields def payload (def_name def) of
        Inl (Bad path (Msg m vs)) \<Rightarrow> Inl (SerializerError ENCODE_FAILED (Msg (''{}: '' @ m) (JStr path # vs)))
      | Inr ws \<Rightarrow> Inr ws)"

section \<open>Unpacking\<close>

definition unpackScalar :: "jsstring \<Rightarrow> jsval \<Rightarrow> jsstring \<Rightarrow> Bad + jsval" where
  "unpackScalar kind w path =
     (if kind = js ''float64'' then (case w of JNum n \<Rightarrow> Inr w | _ \<Rightarrow> bad path ''expected number'')
      else if kind = js ''float32'' then (case w of JNum n \<Rightarrow> Inr (JNum (fround n)) | _ \<Rightarrow> bad path ''expected number'')
      else if kind = js ''string'' then (case w of JStr s \<Rightarrow> Inr w | _ \<Rightarrow> bad path ''expected string'')
      else if kind = bool_kind then (case w of JBool b \<Rightarrow> Inr w | _ \<Rightarrow> bad path ''expected bool'')
      else case isIntKind kind of
             Some k \<Rightarrow> (if isIntOf w k then Inr w else Inl (Bad path (Msg ''expected {}'' [JStr kind])))
           | None \<Rightarrow> Inl (Bad path (Msg ''unknown field kind {}'' [JStr kind])))"

definition unpackEnum :: "jsval list \<Rightarrow> jsval \<Rightarrow> jsstring \<Rightarrow> Bad + jsval" where
  "unpackEnum vs w path =
     (let v = (case w of JNum n \<Rightarrow> (case js_index vs n of Some v \<Rightarrow> v | None \<Rightarrow> JUndef) | _ \<Rightarrow> JUndef)
      in if v = JUndef then bad path ''bad enum index'' else Inr v)"

function (sequential) unpackField :: "field \<Rightarrow> jsval \<Rightarrow> jsstring \<Rightarrow> Bad + jsval"
  and unpackFields :: "messagedef \<Rightarrow> jsval \<Rightarrow> jsstring \<Rightarrow> Bad + (jsstring \<times> jsval) list" where
  "unpackField (FScalar kind) w path = unpackScalar kind w path"
| "unpackField (FFixed d) w path =
     (if isIntOf w Int32 then Inr (JNum (fromFixed (the_num w) d)) else bad path ''expected an int32'')"
| "unpackField (FEnum vs) w path = unpackEnum vs w path"
| "unpackField (FArray f) w path =
     (case w of
        JArr ws \<Rightarrow>
          (case traverse (\<lambda>p. unpackField f (snd p) (path @ js ''['' @ dec (fst p) @ js '']'')) (enumerate 0 ws) of
             Inl e \<Rightarrow> Inl e | Inr vs \<Rightarrow> Inr (JArr vs))
      | _ \<Rightarrow> bad path ''expected array'')"
| "unpackField (FMap f) w path =
     (case w of
        JObj ps \<Rightarrow>
          (case traverse (\<lambda>p. if fst p = proto_key then bad path ''forbidden key''
                              else unpackField f (snd p) (path @ js ''.'' @ fst p)) ps of
             Inl e \<Rightarrow> Inl e | Inr vs \<Rightarrow> Inr (JObj (assign_all (zip (map fst ps) vs))))
      | _ \<Rightarrow> bad path ''expected map'')"
| "unpackField (FOptional f) w path = (if isAbsent w then Inr JUndef else unpackField f w path)"
| "unpackField (FNested m) w path = (case unpackFields m w path of Inl e \<Rightarrow> Inl e | Inr ps \<Rightarrow> Inr (JObj ps))"
| "unpackFields (MessageDef i n fs) w path =
     (case w of
        JArr ws \<Rightarrow>
          if length fs < length ws then bad path ''too many fields''
          else (case traverse (\<lambda>p. unpackField (snd (snd p)) (arg ws (fst p)) (path @ js ''.'' @ fst (snd p))) (enumerate 0 fs) of
                  Inl e \<Rightarrow> Inl e
                | Inr vs \<Rightarrow> Inr (assign_all (filter (\<lambda>p. snd p \<noteq> JUndef) (zip (map fst fs) vs))))
      | _ \<Rightarrow> bad path ''expected positional array'')"
  by pat_completeness auto
termination
proof (relation "measure (\<lambda>x. case x of Inl (f, _, _) \<Rightarrow> size f | Inr (m, _, _) \<Rightarrow> size m)", goal_cases)
  case (6 i n fs w path ws p)
  then have "snd p \<in> set fs" by (auto simp: in_set_enumerate_eq) (metis nth_mem)
  then show ?case using size_field_mem' by simp
qed auto

definition unpackMessage :: "messagedef \<Rightarrow> jsval \<Rightarrow> SerializerError + jsval" where
  "unpackMessage def w =
     (case unpackFields def w (def_name def) of
        Inl (Bad path (Msg m vs)) \<Rightarrow> Inl (SerializerError DECODE_FAILED (Msg (''{}: '' @ m) (JStr path # vs)))
      | Inr ps \<Rightarrow> Inr (JObj ps))"

section \<open>Strings before serialization\<close>

text \<open>
  \<open>fixed !== element\<close>, where \<open>wireStrings\<close> copies only what changes: a NaN differs from
  itself, so whatever holds one is copied too.
\<close>

fun differs :: "jsval \<Rightarrow> bool" where
  "differs (JStr s) = (wireString s \<noteq> s)"
| "differs (JNum n) = isNaN n"
| "differs (JArr vs) = list_ex differs vs"
| "differs (JObj ps) = list_ex (\<lambda>p. wireString (fst p) \<noteq> fst p \<or> differs (snd p)) ps"
| "differs _ = False"

fun wireStrings :: "jsval \<Rightarrow> jsval" where
  "wireStrings (JStr s) = JStr (wireString s)"
| "wireStrings (JArr vs) = JArr (map wireStrings vs)"
| "wireStrings (JObj ps) =
     (if list_ex (\<lambda>p. wireString (fst p) \<noteq> fst p \<or> differs (snd p)) ps
      then JObj (assign_all (map (\<lambda>p. (wireString (fst p), wireStrings (snd p))) ps)) else JObj ps)"
| "wireStrings v = v"

section \<open>Objects built by assignment\<close>

lemma assign_all_append:
  "distinct (map fst (qs @ ps)) \<Longrightarrow> proto_key \<notin> set (map fst ps) \<Longrightarrow> key_order (map fst (qs @ ps)) \<Longrightarrow>
   foldl (\<lambda>out p. js_assign out (fst p) (snd p)) qs ps = qs @ ps"
proof (induction ps arbitrary: qs)
  case (Cons p ps)
  have "key_order (map fst qs @ [fst p])"
    using key_order_appendD [of "map fst qs @ [fst p]" "map fst ps"] Cons.prems(3) by simp
  then have "js_assign qs (fst p) (snd p) = qs @ [p]"
    using js_assign_append [of "fst p" qs "snd p"] Cons.prems(1,2) by auto
  with Cons.IH [of "qs @ [p]"] Cons.prems show ?case by simp
qed simp

lemma assign_all_id:
  "distinct (map fst ps) \<Longrightarrow> proto_key \<notin> set (map fst ps) \<Longrightarrow> key_order (map fst ps) \<Longrightarrow> assign_all ps = ps"
  using assign_all_append [of "[]" ps] by (simp add: assign_all_def)

lemma replace_marks: "replace_not_scalar h s = s \<or> 0xFFFD \<in> set (replace_not_scalar h s)"
  by (induction s arbitrary: h) (auto split: if_splits)

lemma wireString_marks: "wireString s = s \<or> 0xFFFD \<in> set (wireString s)"
  using replace_marks by (simp add: wireString_def)

lemma integer_like_digits: "isIntegerLikeKey s \<Longrightarrow> c \<in> set s \<Longrightarrow> is_digit c"
  by (cases s) (auto simp: is_digit_def list_all_iff)

lemma wireString_integer_like: "isIntegerLikeKey (wireString s) \<Longrightarrow> wireString s = s"
  using wireString_marks [of s] integer_like_digits [of "wireString s" "0xFFFD"] by (auto simp: is_digit_def)

lemma integer_like_plain: "isIntegerLikeKey s \<Longrightarrow> wireString s = s"
proof (rule wireString_id, rule no_surrogates_wire_ok)
  assume s: "isIntegerLikeKey s"
  show "\<not> may_need_replacing s"
    using integer_like_digits [OF s] by (fastforce simp: may_need_replacing_def is_digit_def is_high_def is_low_def word_le_nat_alt)
qed

lemma key_order_wireString: "key_order (map wireString ks) \<Longrightarrow> key_order ks"
proof (induction ks)
  case (Cons k ks)
  have "isIntegerLikeKey k \<and> digits_val k < digits_val k'" if "k' \<in> set ks" "isIntegerLikeKey k'" for k'
  proof -
    have w: "wireString k' = k'" using integer_like_plain that(2) .
    then have "isIntegerLikeKey (wireString k) \<and> digits_val (wireString k) < digits_val k'"
      using Cons.prems that by (metis (no_types, lifting) image_eqI key_order.simps(2) list.set_map list.simps(9))
    then show ?thesis using wireString_integer_like by metis
  qed
  with Cons show ?case by simp
qed simp

lemma proto_wire: "wireString proto_key = proto_key"
  by (rule wireString_id, rule no_surrogates_wire_ok)
    (auto simp: may_need_replacing_def proto_key_def js_def is_high_def is_low_def)

lemma raw_keys:
  assumes "payload_ok (JObj ps)"
  shows "distinct (map fst ps)" "proto_key \<notin> set (map fst ps)" "key_order (map fst ps)"
proof -
  have d: "distinct (map wireString (map fst ps))" "key_order (map wireString (map fst ps))"
    "proto_key \<notin> set (map wireString (map fst ps))" using assms by (simp_all add: comp_def)
  show "distinct (map fst ps)" using d(1) unfolding distinct_map [of wireString] by blast
  show "key_order (map fst ps)" using key_order_wireString [OF d(2)] .
  show "proto_key \<notin> set (map fst ps)" using d(3) proto_wire by (metis image_eqI list.set_map)
qed

lemma wireStrings_same: "\<not> differs v \<Longrightarrow> wireStrings v = v"
  by (induction v rule: wireStrings.induct) (auto simp: list_ex_iff map_idI)

lemma wireStrings_obj:
  assumes "distinct (map (wireString \<circ> fst) ps)" "proto_key \<notin> set (map (wireString \<circ> fst) ps)"
    "key_order (map (wireString \<circ> fst) ps)"
  shows "wireStrings (JObj ps) = JObj (map (\<lambda>p. (wireString (fst p), wireStrings (snd p))) ps)"
proof (cases "list_ex (\<lambda>p. wireString (fst p) \<noteq> fst p \<or> differs (snd p)) ps")
  case True
  then show ?thesis using assms by (simp add: assign_all_id comp_def)
next
  case False
  then have "map (\<lambda>p. (wireString (fst p), wireStrings (snd p))) ps = ps"
    by (intro map_idI) (auto simp: list_ex_iff wireStrings_same)
  with False show ?thesis by simp
qed

section \<open>Unpacking inverts packing\<close>

lemma traverse_Inr: "traverse f xs = Inr ys \<longleftrightarrow> list_all2 (\<lambda>x y. f x = Inr y) xs ys"
proof (induction xs arbitrary: ys)
  case (Cons x xs)
  show ?case by (cases ys) (auto simp flip: Cons.IH split: sum.splits)
qed auto

lemma isAbsent_wireStrings [simp]: "isAbsent (wireStrings w) = isAbsent w"
  by (cases w) auto

lemma absentD: "isAbsent v \<Longrightarrow> v = JUndef \<or> v = JNull"
  by (cases v) auto

text \<open>What packing a value of a field tells about the wire value.\<close>

definition field_packed :: "field \<Rightarrow> bool" where
  "field_packed f = (\<forall>v path w. payload_ok v \<longrightarrow> packField f v path = Inr w \<longrightarrow>
     (\<forall>q. unpackField f (wireStrings w) q = Inr (seen_field f v))
     \<and> (if isAbsent v then optional_of f \<noteq> None \<and> w = JNull \<and> seen_field f v = JUndef
        else \<not> isAbsent w \<and> seen_field f v \<noteq> JUndef))"

definition message_packed :: "messagedef \<Rightarrow> bool" where
  "message_packed m = (\<forall>v path ws. payload_ok v \<longrightarrow> packFields m v path = Inr ws \<longrightarrow>
     \<not> isAbsent v \<and> (\<forall>q. unpackFields m (wireStrings (JArr ws)) q = Inr (seen_message m v)))"

lemma field_packedI:
  assumes "\<And>v path w. payload_ok v \<Longrightarrow> packField f v path = Inr w \<Longrightarrow>
     \<not> isAbsent v \<and> \<not> isAbsent w \<and> seen_field f v \<noteq> JUndef \<and> (\<forall>q. unpackField f (wireStrings w) q = Inr (seen_field f v))"
  shows "field_packed f"
  unfolding field_packed_def using assms by (metis (full_types))

lemma scalar_packed: "field_packed (FScalar kind)"
proof (rule field_packedI)
  fix v path w assume "packField (FScalar kind) v path = Inr w"
  then show "\<not> isAbsent v \<and> \<not> isAbsent w \<and> seen_field (FScalar kind) v \<noteq> JUndef
      \<and> (\<forall>q. unpackField (FScalar kind) (wireStrings w) q = Inr (seen_field (FScalar kind) v))"
    by (cases v) (auto simp: packScalar_def unpackScalar_def seen_scalar_field_def fround_idem isIntOf_toInt
        simp del: isIntOf.simps split: if_splits option.splits)
qed

lemma fixed_packed: "field_packed (FFixed d)"
proof (rule field_packedI)
  fix v path w assume "packField (FFixed d) v path = Inr w"
  then obtain n where n: "v = JNum n" "w = JNum (toFixed n d)" by (cases v) auto
  obtain i where "toFixed n d = num_of_int i" "FIXED_MIN \<le> i" "i \<le> FIXED_MAX" using toFixed_range by blast
  then have "isIntOf (JNum (toFixed n d)) Int32" by (simp add: in_range_def FIXED_MIN_def FIXED_MAX_def del: isIntOf.simps)
  with n show "\<not> isAbsent v \<and> \<not> isAbsent w \<and> seen_field (FFixed d) v \<noteq> JUndef
      \<and> (\<forall>q. unpackField (FFixed d) (wireStrings w) q = Inr (seen_field (FFixed d) v))"
    by (simp add: quantizeFixed_def del: isIntOf.simps)
qed

lemma enum_packed: "field_packed (FEnum vs)"
proof (rule field_packedI)
  fix v path w assume "packField (FEnum vs) v path = Inr w"
  then obtain i where i: "enum_index vs v = Some i" "w = nat_val i" by (auto split: option.splits)
  then have "i < length vs" "enum_eq (vs ! i) v" using index_where_SomeD by (auto simp: enum_index_def)
  moreover from this(2) have "vs ! i \<noteq> JUndef" "\<not> isAbsent v" by (cases "vs ! i"; cases v; simp)+
  ultimately show "\<not> isAbsent v \<and> \<not> isAbsent w \<and> seen_field (FEnum vs) v \<noteq> JUndef
      \<and> (\<forall>q. unpackField (FEnum vs) (wireStrings w) q = Inr (seen_field (FEnum vs) v))"
    using i by (simp add: unpackEnum_def nat_val_def js_index_def)
qed

lemma elements_packed:
  assumes "field_packed f" "list_all payload_ok vs" "list_all2 (\<lambda>v w. \<exists>path. packField f v path = Inr w) vs ws"
  shows "list_all2 (\<lambda>w v. \<forall>q. unpackField f w q = Inr v) (map wireStrings ws) (map (seen_field f) vs)"
  using assms(3,2,1) by (induction vs ws rule: list_all2_induct) (auto simp: field_packed_def)

lemma traverse_enumerate:
  "list_all2 (\<lambda>x y. \<forall>q. f x q = Inr y) xs ys \<Longrightarrow> traverse (\<lambda>p. f (snd p) (g p)) (enumerate k xs) = Inr ys"
  by (induction xs ys arbitrary: k rule: list_all2_induct) simp_all

lemma traverse_enumerateD:
  "traverse (\<lambda>p. f (snd p) (g p)) (enumerate k xs) = Inr ys \<Longrightarrow> list_all2 (\<lambda>x y. \<exists>q. f x q = Inr y) xs ys"
  unfolding traverse_Inr
proof (induction xs arbitrary: k ys)
  case (Cons x xs)
  then show ?case by (cases ys) (auto simp: list_all2_Cons1)
qed simp

lemma array_packed: "field_packed f \<Longrightarrow> field_packed (FArray f)"
proof (rule field_packedI)
  fix v path w assume f: "field_packed f" and v: "payload_ok v" and p: "packField (FArray f) v path = Inr w"
  obtain vs ws where vw: "v = JArr vs" "w = JArr ws"
    "traverse (\<lambda>p. packField f (snd p) (path @ js ''['' @ dec (fst p) @ js '']'')) (enumerate 0 vs) = Inr ws"
    using p by (auto split: jsval.splits sum.splits)
  from elements_packed [OF f _ traverse_enumerateD [where f = "packField f", OF vw(3)]] v vw(1)
  have "list_all2 (\<lambda>w v. \<forall>q. unpackField f w q = Inr v) (map wireStrings ws) (map (seen_field f) vs)" by simp
  from traverse_enumerate [OF this] vw show "\<not> isAbsent v \<and> \<not> isAbsent w \<and> seen_field (FArray f) v \<noteq> JUndef
      \<and> (\<forall>q. unpackField (FArray f) (wireStrings w) q = Inr (seen_field (FArray f) v))" by simp
qed

lemma map_packed: "field_packed f \<Longrightarrow> field_packed (FMap f)"
proof (rule field_packedI)
  fix v path w assume f: "field_packed f" and v: "payload_ok v" and p: "packField (FMap f) v path = Inr w"
  obtain ps ws where pw: "v = JObj ps" "w = JObj (assign_all (zip (map fst ps) ws))"
    and tr: "list_all2 (\<lambda>p w. packField f (snd p) (path @ js ''.'' @ fst p) = Inr w) ps ws"
    using p by (auto simp: traverse_Inr split: jsval.splits sum.splits)
  have len: "length ws = length ps" using list_all2_lengthD [OF tr] by simp
  define qs where "qs = zip (map fst ps) ws"
  have qs: "map fst qs = map fst ps" "map snd qs = ws" using len by (simp_all add: qs_def)
  have w: "w = JObj qs"
    using raw_keys [of ps] v pw by (simp add: assign_all_id qs flip: qs_def)
  have keys: "map (wireString \<circ> fst) qs = map (wireString \<circ> fst) ps" using qs(1) by (metis map_map)
  have ok: "distinct (map (wireString \<circ> fst) ps)" "proto_key \<notin> set (map (wireString \<circ> fst) ps)"
    "key_order (map (wireString \<circ> fst) ps)" using v pw(1) by simp_all
  then have ww: "wireStrings w = JObj (map (\<lambda>p. (wireString (fst p), wireStrings (snd p))) qs)"
    unfolding w using wireStrings_obj [of qs] keys by simp
  let ?W = "map (\<lambda>p. (wireString (fst p), wireStrings (snd p))) qs"
  have fW: "map fst ?W = map (wireString \<circ> fst) ps" using keys by (simp add: comp_def)
  have "list_all2 (\<lambda>p w. \<exists>path. packField f (snd p) path = Inr w) ps ws" using tr by (auto elim: list_all2_mono)
  then have "list_all2 (\<lambda>v w. \<exists>path. packField f v path = Inr w) (map snd ps) ws" by (simp add: list_all2_map1)
  moreover have "list_all payload_ok (map snd ps)" using v pw(1) by (simp add: list_all_iff)
  ultimately have el: "list_all2 (\<lambda>w v. \<forall>q. unpackField f w q = Inr v) (map wireStrings ws) (map (seen_field f) (map snd ps))"
    using elements_packed [OF f] by blast
  have un: "list_all2 (\<lambda>p v. \<forall>q. (if fst p = proto_key then bad q ''forbidden key''
          else unpackField f (snd p) (q @ js ''.'' @ fst p)) = Inr v) ?W (map (seen_field f) (map snd ps))"
  proof (rule list_all2_all_nthI)
    fix i assume i: "i < length ?W"
    then have "fst (?W ! i) \<in> set (map fst ?W)" using nth_mem [OF i] by (simp only: set_map image_eqI)
    then have "fst (?W ! i) \<noteq> proto_key" using ok(2) fW by metis
    moreover have "snd (?W ! i) = map wireStrings ws ! i" unfolding qs(2) [symmetric] using i by simp
    ultimately show "\<forall>q. (if fst (?W ! i) = proto_key then bad q ''forbidden key''
          else unpackField f (snd (?W ! i)) (q @ js ''.'' @ fst (?W ! i))) = Inr (map (seen_field f) (map snd ps) ! i)"
      using list_all2_nthD [OF el, of i] i len qs_def by simp
  qed (use len qs_def in simp)
  have z: "zip (map fst ?W) (map (seen_field f) (map snd ps)) = map (\<lambda>p. (wireString (fst p), seen_field f (snd p))) ps"
    unfolding fW by (simp add: zip_map_map zip_same_conv_map comp_def)
  have "unpackField (FMap f) (wireStrings w) q = Inr (seen_field (FMap f) v)" for q
  proof -
    have "traverse (\<lambda>p. if fst p = proto_key then bad q ''forbidden key''
          else unpackField f (snd p) (q @ js ''.'' @ fst p)) ?W = Inr (map (seen_field f) (map snd ps))"
      unfolding traverse_Inr using un by (auto elim: list_all2_mono)
    moreover have "assign_all (map (\<lambda>p. (wireString (fst p), seen_field f (snd p))) ps)
        = map (\<lambda>p. (wireString (fst p), seen_field f (snd p))) ps"
      using ok by (intro assign_all_id) (simp_all add: comp_def)
    ultimately show ?thesis using ww z pw(1) by simp
  qed
  then show "\<not> isAbsent v \<and> \<not> isAbsent w \<and> seen_field (FMap f) v \<noteq> JUndef
      \<and> (\<forall>q. unpackField (FMap f) (wireStrings w) q = Inr (seen_field (FMap f) v))" using pw w by simp
qed

lemma optional_packed: "field_packed f \<Longrightarrow> field_packed (FOptional f)"
  unfolding field_packed_def by (auto simp: isAbsent_wireStrings)

lemma nested_packed: "message_packed m \<Longrightarrow> field_packed (FNested m)"
  by (rule field_packedI) (auto simp: message_packed_def split: sum.splits)

lemma trim_length_spec:
  "trim_length fs out n \<le> n \<and> (\<forall>i. trim_length fs out n \<le> i \<longrightarrow> i < n \<longrightarrow> out ! i = JNull)"
  by (induction n) (auto simp: less_Suc_eq)

definition seen_entries :: "(jsstring \<times> field) list \<Rightarrow> (jsstring \<times> jsval) list \<Rightarrow> (jsstring \<times> jsval) list" where
  "seen_entries fs ps = filter (\<lambda>p. snd p \<noteq> JUndef) (map (\<lambda>p. (fst p, seen_field (snd p) (js_get ps (fst p)))) fs)"

lemma seen_message_entries:
  assumes "\<And>p. p \<in> set fs \<Longrightarrow> (seen_field (snd p) (js_get ps (fst p)) = JUndef) = isAbsent (js_get ps (fst p))"
    "\<And>p. p \<in> set fs \<Longrightarrow> isAbsent (js_get ps (fst p)) \<Longrightarrow> optional_of (snd p) \<noteq> None"
  shows "seen_message (MessageDef i n fs) (JObj ps) = seen_entries fs ps"
  using assms
proof (induction fs)
  case (Cons p fs)
  have "(case optional_of (snd p) of
           Some g \<Rightarrow> if isAbsent (js_get ps (fst p)) then [] else [(fst p, seen_field g (js_get ps (fst p)))]
         | None \<Rightarrow> [(fst p, seen_field (snd p) (js_get ps (fst p)))]) = seen_entries [p] ps"
    using Cons.prems [of p] by (auto simp: seen_entries_def split: option.splits)
  with Cons show ?case by (simp add: seen_entries_def)
qed (simp add: seen_entries_def)

lemma seen_entries_assign:
  assumes "wf_message (MessageDef i n fs)"
  shows "assign_all (seen_entries fs ps) = seen_entries fs ps"
proof (rule assign_all_id)
  have sub: "set (map fst (seen_entries fs ps)) \<subseteq> set (map fst fs)" by (force simp: seen_entries_def)
  show "distinct (map fst (seen_entries fs ps))"
    using assms by (simp add: seen_entries_def distinct_map_filter comp_def)
  show "proto_key \<notin> set (map fst (seen_entries fs ps))" using sub assms by auto
  show "key_order (map fst (seen_entries fs ps))"
    using sub assms by (intro key_order_plain) (fastforce simp: list_all_iff)
qed

lemma message_packedI:
  assumes wf: "wf_message (MessageDef i n fs)" and fields: "\<And>p. p \<in> set fs \<Longrightarrow> field_packed (snd p)"
  shows "message_packed (MessageDef i n fs)"
  unfolding message_packed_def
proof (intro allI impI)
  fix v path ws assume v: "payload_ok v" and p: "packFields (MessageDef i n fs) v path = Inr ws"
  obtain ps out where vo: "v = JObj ps" "ws = take (trim_length fs out (length out)) out"
    and tr: "list_all2 (\<lambda>p w. packField (snd p) (js_get ps (fst p)) (path @ js ''.'' @ fst p) = Inr w) fs out"
    using p by (auto simp: traverse_Inr split: jsval.splits sum.splits)
  let ?x = "\<lambda>p. js_get ps (fst p)" and ?n = "trim_length fs out (length out)"
  have x: "payload_ok (?x p)" for p using payload_ok_get v vo(1) by blast
  have len: "length out = length fs" using list_all2_lengthD [OF tr] by simp
  have at_i: "(\<forall>q. unpackField (snd (fs ! k)) (wireStrings (out ! k)) q = Inr (seen_field (snd (fs ! k)) (?x (fs ! k))))
     \<and> (if isAbsent (?x (fs ! k)) then optional_of (snd (fs ! k)) \<noteq> None \<and> out ! k = JNull \<and> seen_field (snd (fs ! k)) (?x (fs ! k)) = JUndef
        else \<not> isAbsent (out ! k) \<and> seen_field (snd (fs ! k)) (?x (fs ! k)) \<noteq> JUndef)" if k: "k < length fs" for k
    using fields [OF nth_mem [OF k]] list_all2_nthD [OF tr k] x unfolding field_packed_def by blast
  have "seen_field (snd p) (?x p) = JUndef \<longleftrightarrow> isAbsent (?x p)" "isAbsent (?x p) \<Longrightarrow> optional_of (snd p) \<noteq> None"
    if "p \<in> set fs" for p
    using that at_i by (metis (full_types) in_set_conv_nth)+
  then have seen: "seen_message (MessageDef i n fs) (JObj ps) = seen_entries fs ps"
    by (rule seen_message_entries)
  have read: "unpackField (snd (fs ! k)) (arg (map wireStrings ws) k) q = Inr (seen_field (snd (fs ! k)) (?x (fs ! k)))"
    if k: "k < length fs" for k q
  proof (cases "k < ?n")
    case True
    then have "arg (map wireStrings ws) k = wireStrings (out ! k)" using k len vo(2) by (simp add: arg_def)
    then show ?thesis using at_i [OF k] by simp
  next
    case False
    then have null: "out ! k = JNull" using trim_length_spec [of fs out "length out"] k len by simp
    then have opt: "isAbsent (?x (fs ! k))" "optional_of (snd (fs ! k)) \<noteq> None" "seen_field (snd (fs ! k)) (?x (fs ! k)) = JUndef"
      using at_i [OF k] by (auto split: if_splits)
    have "arg (map wireStrings ws) k = JUndef" using False vo(2) by (simp add: arg_def)
    then show ?thesis using opt(2,3) by auto
  qed
  have "unpackFields (MessageDef i n fs) (wireStrings (JArr ws)) q = Inr (seen_message (MessageDef i n fs) v)" for q
  proof -
    have "traverse (\<lambda>p. unpackField (snd (snd p)) (arg (map wireStrings ws) (fst p)) (q @ js ''.'' @ fst (snd p))) (enumerate 0 fs)
        = Inr (map (\<lambda>p. seen_field (snd p) (?x p)) fs)"
      unfolding traverse_Inr using read by (intro list_all2_all_nthI) (simp_all add: nth_enumerate_eq)
    moreover have "zip (map fst fs) (map (\<lambda>p. seen_field (snd p) (?x p)) fs) = map (\<lambda>p. (fst p, seen_field (snd p) (?x p))) fs"
      by (simp add: zip_map_map zip_same_conv_map)
    moreover have "length ws \<le> length fs" using vo(2) len by simp
    ultimately show ?thesis using seen vo(1) seen_entries_assign [OF wf, of ps] by (simp add: seen_entries_def)
  qed
  then show "\<not> isAbsent v \<and> (\<forall>q. unpackFields (MessageDef i n fs) (wireStrings (JArr ws)) q = Inr (seen_message (MessageDef i n fs) v))"
    using vo(1) by simp
qed

lemma all_packed: "wf_field f \<Longrightarrow> field_packed f" "wf_message m \<Longrightarrow> message_packed m"
proof (induction f and m)
  case (MessageDef i n fs)
  then show ?case by (intro message_packedI) (auto simp: list_all_iff)
qed (simp_all add: scalar_packed fixed_packed enum_packed array_packed map_packed optional_packed nested_packed)

lemma unpackMessage_packAny:
  assumes "packAny def payload = Inr ws" "wf_message def" "payload_ok payload"
  shows "unpackMessage def (wireStrings (JArr ws)) = Inr (JObj (seen_message def payload))"
proof -
  have "packFields def payload (def_name def) = Inr ws"
    using assms(1) by (auto simp: packAny_def split: sum.splits Bad.splits message.splits)
  with all_packed(2) [OF assms(2)] assms(3) show ?thesis by (simp add: message_packed_def unpackMessage_def)
qed

end
