(* ===== verification/MessagePack.thy ===== *)
theory MessagePack
  imports Positional
begin

text \<open>
  The repository's part of the MessagePack serializer (\<open>serializer/messagepack.ts\<close>) around the
  third-party encoder and decoder, which are parameters: the walk over an incoming message that
  checks its strings (\<open>stringsAreUtf8\<close>), \<open>encode\<close> and \<open>decode\<close>, and the contract messages
  of \<open>MessagePackStateCodec\<close>. The walk is compared with the format itself: values of the
  published MessagePack grammar as a datatype, their bytes and the strings in them.
\<close>

section \<open>The string check\<close>

fun read_length_from :: "nat \<Rightarrow> byte list \<Rightarrow> nat \<Rightarrow> nat \<Rightarrow> nat" where
  "read_length_from acc data pos 0 = acc"
| "read_length_from acc data pos (Suc n) =
     read_length_from (acc * 256 + (if pos < length data then unat (data ! pos) else 0)) data (Suc pos) n"

definition readLength :: "byte list \<Rightarrow> nat \<Rightarrow> nat \<Rightarrow> nat" where
  "readLength data pos width = read_length_from 0 data pos width"

text \<open>
  What the head byte of a value says, with \<open>pos\<close> just after it: how many values are still to
  come, where reading goes on, and the length of a string to check there. A mask of low bits is a
  remainder, a shift of 1 a power of two.
\<close>

definition walk_head :: "byte list \<Rightarrow> nat \<Rightarrow> nat \<Rightarrow> nat \<times> nat \<times> nat option" where
  "walk_head data pos head =
     (if head \<le> 0x7f \<or> 0xe0 \<le> head then (0, pos, None)
      else if head \<le> 0x8f then (2 * (head mod 16), pos, None)
      else if head \<le> 0x9f then (head mod 16, pos, None)
      else if head \<le> 0xbf then (0, pos, Some (head mod 32))
      else if 0xd9 \<le> head \<and> head \<le> 0xdb then
        (let width = 2 ^ (head - 0xd9) in (0, pos + width, Some (readLength data pos width)))
      else if 0xc4 \<le> head \<and> head \<le> 0xc6 then
        (let width = 2 ^ (head - 0xc4) in (0, pos + (width + readLength data pos width), None))
      else if 0xc7 \<le> head \<and> head \<le> 0xc9 then
        (let width = 2 ^ (head - 0xc7) in (0, pos + (width + 1 + readLength data pos width), None))
      else if head = 0xdc \<or> head = 0xdd then
        (let width = (if head = 0xdc then 2 else 4) in (readLength data pos width, pos + width, None))
      else if head = 0xde \<or> head = 0xdf then
        (let width = (if head = 0xde then 2 else 4) in (2 * readLength data pos width, pos + width, None))
      else if head = 0xca then (0, pos + 4, None)
      else if head = 0xcb then (0, pos + 8, None)
      else if head = 0xcc \<or> head = 0xd0 then (0, pos + 1, None)
      else if head = 0xcd \<or> head = 0xd1 then (0, pos + 2, None)
      else if head = 0xce \<or> head = 0xd2 then (0, pos + 4, None)
      else if head = 0xcf \<or> head = 0xd3 then (0, pos + 8, None)
      else if 0xd4 \<le> head \<and> head \<le> 0xd8 then (0, pos + (1 + 2 ^ (head - 0xd4)), None)
      else (0, pos, None))"

lemma walk_head_pos: "walk_head data pos head = (extra, pos', str) \<Longrightarrow> pos \<le> pos'"
  by (auto simp: walk_head_def Let_def split: if_splits)

function strings_loop :: "byte list \<Rightarrow> nat \<Rightarrow> nat \<Rightarrow> bool" where
  "strings_loop data pos pending =
     (if 0 < pending \<and> pos < length data then
        (case walk_head data (Suc pos) (unat (data ! pos)) of
           (extra, pos', None) \<Rightarrow> strings_loop data pos' (pending - 1 + extra)
         | (extra, pos', Some n) \<Rightarrow>
             if length data < pos' + n then True
             else if decodeUtf8 (take n (drop pos' data)) = None then False
             else strings_loop data (pos' + n) (pending - 1 + extra))
      else True)"
  by pat_completeness auto
termination
  by (relation "measure (\<lambda>(data, pos, pending). length data - pos)") (auto dest!: sym [THEN walk_head_pos])

declare strings_loop.simps [simp del]

definition stringsAreUtf8 :: "byte list \<Rightarrow> bool" where
  "stringsAreUtf8 data = strings_loop data 0 1"

section \<open>The format\<close>

text \<open>
  A value of the MessagePack format: a scalar (head byte and fixed payload), a string, a blob, an
  extension, an array or a map (keys and values in turn). The first argument is which of the
  format's widths its length is written with, 0 being the one-byte form where there is one.
\<close>

datatype mp =
    MScalar byte "byte list"
  | MStr nat "byte list"
  | MBin nat "byte list"
  | MExt nat byte "byte list"
  | MArr nat "mp list"
  | MMap nat "mp list"

definition be_bytes :: "nat \<Rightarrow> nat \<Rightarrow> byte list" where
  "be_bytes n v = rev (le_bytes n v)"

definition scalar_width :: "nat \<Rightarrow> nat option" where
  "scalar_width h =
     (if h \<le> 0x7f \<or> 0xe0 \<le> h \<or> h = 0xc0 \<or> h = 0xc2 \<or> h = 0xc3 then Some 0
      else if h = 0xcc \<or> h = 0xd0 then Some 1
      else if h = 0xcd \<or> h = 0xd1 then Some 2
      else if h = 0xca \<or> h = 0xce \<or> h = 0xd2 then Some 4
      else if h = 0xcb \<or> h = 0xcf \<or> h = 0xd3 then Some 8
      else if 0xd4 \<le> h \<and> h \<le> 0xd8 then Some (1 + 2 ^ (h - 0xd4))
      else None)"

text \<open>The header of a value with length \<open>n\<close>: the head byte of width \<open>k\<close> and the length in big-endian order.\<close>

definition mp_header :: "nat \<Rightarrow> nat \<Rightarrow> (nat \<Rightarrow> nat) \<Rightarrow> nat \<Rightarrow> nat \<Rightarrow> byte list" where
  "mp_header short wide width k n =
     (if k = 0 then [word_of_nat (short + n)] else word_of_nat (wide + (k - 1)) # be_bytes (width k) n)"

fun mp_bytes :: "mp \<Rightarrow> byte list" where
  "mp_bytes (MScalar h p) = h # p"
| "mp_bytes (MStr k s) = mp_header 0xa0 0xd9 (\<lambda>k. 2 ^ (k - 1)) k (length s) @ s"
| "mp_bytes (MBin k s) = mp_header 0 0xc4 (\<lambda>k. 2 ^ (k - 1)) k (length s) @ s"
| "mp_bytes (MExt k t s) = mp_header 0 0xc7 (\<lambda>k. 2 ^ (k - 1)) k (length s) @ t # s"
| "mp_bytes (MArr k vs) = mp_header 0x90 0xdc (\<lambda>k. 2 * k) k (length vs) @ concat (map mp_bytes vs)"
| "mp_bytes (MMap k vs) = mp_header 0x80 0xde (\<lambda>k. 2 * k) k (length vs div 2) @ concat (map mp_bytes vs)"

fun mp_ok :: "mp \<Rightarrow> bool" where
  "mp_ok (MScalar h p) = (scalar_width (unat h) = Some (length p))"
| "mp_ok (MStr k s) = (if k = 0 then length s < 32 else k \<le> 3 \<and> length s < 256 ^ 2 ^ (k - 1))"
| "mp_ok (MBin k s) = (1 \<le> k \<and> k \<le> 3 \<and> length s < 256 ^ 2 ^ (k - 1))"
| "mp_ok (MExt k t s) = (1 \<le> k \<and> k \<le> 3 \<and> length s < 256 ^ 2 ^ (k - 1))"
| "mp_ok (MArr k vs) = ((if k = 0 then length vs < 16 else k \<le> 2 \<and> length vs < 256 ^ (2 * k)) \<and> list_all mp_ok vs)"
| "mp_ok (MMap k vs) =
     (even (length vs) \<and> (if k = 0 then length vs div 2 < 16 else k \<le> 2 \<and> length vs div 2 < 256 ^ (2 * k)) \<and> list_all mp_ok vs)"

fun mp_strings :: "mp \<Rightarrow> byte list list" where
  "mp_strings (MStr k s) = [s]"
| "mp_strings (MArr k vs) = concat (map mp_strings vs)"
| "mp_strings (MMap k vs) = concat (map mp_strings vs)"
| "mp_strings _ = []"

section \<open>The walk reads the format\<close>

fun be_nat :: "nat \<Rightarrow> byte list \<Rightarrow> nat" where
  "be_nat acc [] = acc"
| "be_nat acc (b # bs) = be_nat (acc * 256 + unat b) bs"

lemma be_nat_rev: "be_nat acc (rev bs) = acc * 256 ^ length bs + le_nat bs"
proof (induction bs arbitrary: acc)
  case (Cons b bs)
  have "be_nat acc (as @ [b]) = be_nat acc as * 256 + unat b" for as by (induction as arbitrary: acc) auto
  with Cons show ?case by (simp add: algebra_simps)
qed simp

lemma drop_ConsD: "drop pos data = b # rest \<Longrightarrow> pos < length data \<and> data ! pos = b \<and> drop (Suc pos) data = rest"
proof -
  assume d: "drop pos data = b # rest"
  then have "pos < length data" by (rule_tac ccontr) simp
  with d show ?thesis using Cons_nth_drop_Suc [of pos data] by simp
qed

lemma read_length_from_drop: "drop pos data = bs @ rest \<Longrightarrow> read_length_from acc data pos (length bs) = be_nat acc bs"
proof (induction bs arbitrary: acc pos)
  case (Cons b bs)
  then show ?case using drop_ConsD [of pos data b "bs @ rest"] by simp
qed simp

lemma readLength_be: "drop pos data = be_bytes w n @ rest \<Longrightarrow> n < 256 ^ w \<Longrightarrow> readLength data pos w = n"
  using read_length_from_drop [of pos data "be_bytes w n" rest 0]
  by (simp add: readLength_def be_bytes_def be_nat_rev le_nat_le_bytes)

lemma length_be_bytes [simp]: "length (be_bytes n v) = n"
  by (simp add: be_bytes_def)

abbreviation valid_utf8 :: "byte list \<Rightarrow> bool" where
  "valid_utf8 s \<equiv> decodeUtf8 s \<noteq> None"

text \<open>One step on a value whose head announces no string, and on one that does.\<close>

lemma loop_skip:
  assumes "drop pos data = h # r" "walk_head data (Suc pos) (unat h) = (n, pos', None)"
  shows "strings_loop data pos (Suc p) = strings_loop data pos' (p + n)"
  using drop_ConsD [OF assms(1)] assms(2) by (subst strings_loop.simps) simp

lemma loop_string:
  assumes "drop pos data = h # r" "walk_head data (Suc pos) (unat h) = (0, pos', Some (length s))"
    "drop pos' data = s @ rest" "pos' \<le> length data"
  shows "strings_loop data pos (Suc p) = (valid_utf8 s \<and> strings_loop data (pos' + length s) p)"
  using drop_ConsD [OF assms(1)] assms(2,3) drop_split [OF assms(3,4)] by (subst strings_loop.simps) simp

lemma scalar_step:
  assumes "scalar_width (unat h) = Some (length p)"
  shows "walk_head data pos (unat h) = (0, pos + length p, None)"
proof -
  define n where "n = unat h"
  have "n \<le> 0x7f \<or> 0xe0 \<le> n \<or> n \<in> {0xc0, 0xc2, 0xc3, 0xcc, 0xd0, 0xcd, 0xd1, 0xca, 0xce, 0xd2, 0xcb, 0xcf, 0xd3} \<or> 0xd4 \<le> n \<and> n \<le> 0xd8"
    using assms unfolding scalar_width_def n_def by (simp split: if_split_asm) blast+
  then show ?thesis
    using assms unfolding n_def [symmetric] by (elim disjE conjE insertE emptyE) (simp_all add: walk_head_def scalar_width_def)
qed

lemma wide_cases: "1 \<le> k \<Longrightarrow> k \<le> (3::nat) \<Longrightarrow> (k = 1 \<Longrightarrow> P) \<Longrightarrow> (k = 2 \<Longrightarrow> P) \<Longrightarrow> (k = 3 \<Longrightarrow> P) \<Longrightarrow> P"
  by arith

text \<open>A header of a wide form, read: the head byte and the length behind it.\<close>

lemma wide_header:
  assumes "drop pos data = mp_header short wide width k n @ rest" "1 \<le> k" "wide + (k - 1) < 256" "n < 256 ^ width k"
  shows "\<exists>h r. drop pos data = h # r \<and> unat h = wide + (k - 1) \<and> readLength data (Suc pos) (width k) = n
    \<and> drop (Suc pos + width k) data = rest \<and> Suc pos + width k \<le> length data"
proof -
  have d: "drop pos data = word_of_nat (wide + (k - 1)) # be_bytes (width k) n @ rest"
    using assms(1,2) by (simp add: mp_header_def)
  have t: "drop (Suc pos) data = be_bytes (width k) n @ rest" "Suc pos \<le> length data" using drop_ConsD [OF d] by auto
  have "unat (word_of_nat (wide + (k - 1)) :: byte) = wide + (k - 1)" by (rule unat_byte_of_nat [OF assms(3)])
  then show ?thesis using d readLength_be [OF t(1) assms(4)] drop_split [OF t] by (auto simp del: of_nat_add)
qed

lemma drop_header: "drop pos data = header @ rest \<Longrightarrow> drop (pos + length header) data = rest"
  by (metis add.commute append_eq_conv_conj drop_drop)

lemma loop_values:
  assumes "\<And>v pos p rest. v \<in> set vs \<Longrightarrow> drop pos data = mp_bytes v @ rest \<Longrightarrow>
     strings_loop data pos (Suc p) = (list_all valid_utf8 (mp_strings v) \<and> strings_loop data (pos + length (mp_bytes v)) p)"
    "drop pos data = concat (map mp_bytes vs) @ rest"
  shows "strings_loop data pos (p + length vs)
    = (list_all valid_utf8 (concat (map mp_strings vs)) \<and> strings_loop data (pos + length (concat (map mp_bytes vs))) p)"
  using assms
proof (induction vs arbitrary: pos)
  case (Cons v vs)
  have d: "drop pos data = mp_bytes v @ concat (map mp_bytes vs) @ rest" using Cons.prems(2) by simp
  have "drop (pos + length (mp_bytes v)) data = concat (map mp_bytes vs) @ rest"
    using arg_cong [OF d, of "drop (length (mp_bytes v))"] by (simp add: add.commute)
  then have "strings_loop data (pos + length (mp_bytes v)) (p + length vs)
    = (list_all valid_utf8 (concat (map mp_strings vs)) \<and> strings_loop data (pos + length (mp_bytes v) + length (concat (map mp_bytes vs))) p)"
    using Cons.IH Cons.prems(1) by simp
  then show ?case using Cons.prems(1) [OF _ d, of "p + length vs"] by (auto simp: add.assoc)
qed simp

text \<open>Arrays and maps: the header announces \<open>n\<close> values, the short form in the head byte itself.\<close>

lemma loop_seq:
  assumes each: "\<And>v pos p rest. v \<in> set vs \<Longrightarrow> drop pos data = mp_bytes v @ rest \<Longrightarrow>
     strings_loop data pos (Suc p) = (list_all valid_utf8 (mp_strings v) \<and> strings_loop data (pos + length (mp_bytes v)) p)"
    and d: "drop pos data = header @ concat (map mp_bytes vs) @ rest"
    and head: "\<exists>h r. drop pos data = h # r \<and> walk_head data (Suc pos) (unat h) = (length vs, pos + length header, None)"
  shows "strings_loop data pos (Suc p)
    = (list_all valid_utf8 (concat (map mp_strings vs)) \<and> strings_loop data (pos + length (header @ concat (map mp_bytes vs))) p)"
proof -
  have t: "drop (pos + length header) data = concat (map mp_bytes vs) @ rest" by (rule drop_header [OF d])
  obtain h r where h: "drop pos data = h # r" "walk_head data (Suc pos) (unat h) = (length vs, pos + length header, None)"
    using head by blast
  have "strings_loop data pos (Suc p) = strings_loop data (pos + length header) (p + length vs)" by (rule loop_skip [OF h])
  also have "\<dots> = (list_all valid_utf8 (concat (map mp_strings vs))
      \<and> strings_loop data (pos + length header + length (concat (map mp_bytes vs))) p)" by (rule loop_values [OF each t])
  finally show ?thesis by (simp add: add.assoc)
qed

text \<open>The wide forms of each kind, by head byte.\<close>

lemma wide_heads:
  "k \<in> {1, 2, 3} \<Longrightarrow> walk_head data pos (0xd9 + (k - 1)) = (0, pos + 2 ^ (k - 1), Some (readLength data pos (2 ^ (k - 1))))"
  "k \<in> {1, 2, 3} \<Longrightarrow> walk_head data pos (0xc4 + (k - 1)) = (0, pos + (2 ^ (k - 1) + readLength data pos (2 ^ (k - 1))), None)"
  "k \<in> {1, 2, 3} \<Longrightarrow> walk_head data pos (0xc7 + (k - 1)) = (0, pos + (2 ^ (k - 1) + 1 + readLength data pos (2 ^ (k - 1))), None)"
  "k \<in> {1, 2} \<Longrightarrow> walk_head data pos (0xdc + (k - 1)) = (readLength data pos (2 * k), pos + 2 * k, None)"
  "k \<in> {1, 2} \<Longrightarrow> walk_head data pos (0xde + (k - 1)) = (2 * readLength data pos (2 * k), pos + 2 * k, None)"
  by (elim insertE emptyE; simp add: walk_head_def)+

lemma low_bits: "n < 16 \<Longrightarrow> (144 + n) mod 16 = (n::nat)" "n < 16 \<Longrightarrow> (128 + n) mod 16 = (n::nat)" "n < 32 \<Longrightarrow> (160 + n) mod 32 = (n::nat)"
  using mod_mult_self3 [of 9 16 n] mod_mult_self3 [of 8 16 n] mod_mult_self3 [of 5 32 n] by simp_all

lemma arr_head:
  assumes "drop pos data = mp_header 0x90 0xdc (\<lambda>k. 2 * k) k n @ rest" "if k = 0 then n < 16 else k \<le> 2 \<and> n < 256 ^ (2 * k)"
  shows "\<exists>h r. drop pos data = h # r
    \<and> walk_head data (Suc pos) (unat h) = (n, pos + length (mp_header 0x90 0xdc (\<lambda>k. 2 * k) k n), None)"
proof (cases "k = 0")
  case True
  with assms have "unat (word_of_nat (0x90 + n) :: byte) = 0x90 + n" "n < 16" by (auto intro: unat_byte_of_nat simp del: of_nat_add)
  with True assms(1) show ?thesis by (auto simp: mp_header_def walk_head_def low_bits simp del: of_nat_add)
next
  case False
  then have k: "k \<in> {1, 2}" "1 \<le> k" using assms(2) by auto
  then obtain h r where h: "drop pos data = h # r" "unat h = 0xdc + (k - 1)" "readLength data (Suc pos) (2 * k) = n"
    using wide_header [OF assms(1)] assms(2) False by fastforce
  have "length (mp_header 0x90 0xdc (\<lambda>k. 2 * k) k n) = Suc (2 * k)" using False by (simp add: mp_header_def)
  then show ?thesis using h wide_heads(4) [OF k(1), of data "Suc pos"] by auto
qed

lemma map_head:
  assumes "drop pos data = mp_header 0x80 0xde (\<lambda>k. 2 * k) k n @ rest" "if k = 0 then n < 16 else k \<le> 2 \<and> n < 256 ^ (2 * k)"
  shows "\<exists>h r. drop pos data = h # r
    \<and> walk_head data (Suc pos) (unat h) = (2 * n, pos + length (mp_header 0x80 0xde (\<lambda>k. 2 * k) k n), None)"
proof (cases "k = 0")
  case True
  with assms have "unat (word_of_nat (0x80 + n) :: byte) = 0x80 + n" "n < 16" by (auto intro: unat_byte_of_nat simp del: of_nat_add)
  with True assms(1) show ?thesis by (auto simp: mp_header_def walk_head_def low_bits simp del: of_nat_add)
next
  case False
  then have k: "k \<in> {1, 2}" "1 \<le> k" using assms(2) by auto
  then obtain h r where h: "drop pos data = h # r" "unat h = 0xde + (k - 1)" "readLength data (Suc pos) (2 * k) = n"
    using wide_header [OF assms(1)] assms(2) False by fastforce
  have "length (mp_header 0x80 0xde (\<lambda>k. 2 * k) k n) = Suc (2 * k)" using False by (simp add: mp_header_def)
  then show ?thesis using h wide_heads(5) [OF k(1), of data "Suc pos"] by auto
qed

text \<open>A string's header, short or wide.\<close>

lemma str_head:
  assumes "drop pos data = mp_header 0xa0 0xd9 (\<lambda>k. 2 ^ (k - 1)) k n @ rest" "if k = 0 then n < 32 else k \<le> 3 \<and> n < 256 ^ 2 ^ (k - 1)"
  shows "\<exists>h r. drop pos data = h # r
    \<and> walk_head data (Suc pos) (unat h) = (0, pos + length (mp_header 0xa0 0xd9 (\<lambda>k. 2 ^ (k - 1)) k n), Some n)"
proof (cases "k = 0")
  case True
  with assms have "unat (word_of_nat (0xa0 + n) :: byte) = 0xa0 + n" "n < 32" by (auto intro: unat_byte_of_nat simp del: of_nat_add)
  with True assms(1) show ?thesis by (auto simp: mp_header_def walk_head_def low_bits simp del: of_nat_add)
next
  case False
  then have k: "k \<in> {1, 2, 3}" "1 \<le> k" using assms(2) by auto
  then obtain h r where h: "drop pos data = h # r" "unat h = 0xd9 + (k - 1)" "readLength data (Suc pos) (2 ^ (k - 1)) = n"
    using wide_header [OF assms(1)] assms(2) False by fastforce
  have "length (mp_header 0xa0 0xd9 (\<lambda>k. 2 ^ (k - 1)) k n) = Suc (2 ^ (k - 1))" using False by (simp add: mp_header_def)
  then show ?thesis using h wide_heads(1) [OF k(1), of data "Suc pos"] by auto
qed

lemma skip_head:
  assumes "drop pos data = mp_header 0 wide (\<lambda>k. 2 ^ (k - 1)) k n @ rest" "1 \<le> k" "k \<le> 3" "n < 256 ^ 2 ^ (k - 1)"
    "wide = 0xc4 \<and> gap = 0 \<or> wide = 0xc7 \<and> gap = 1"
  shows "\<exists>h r. drop pos data = h # r
    \<and> walk_head data (Suc pos) (unat h) = (0, pos + length (mp_header 0 wide (\<lambda>k. 2 ^ (k - 1)) k n) + gap + n, None)"
proof -
  have k: "k \<in> {1, 2, 3}" using assms(2,3) by auto
  then obtain h r where h: "drop pos data = h # r" "unat h = wide + (k - 1)" "readLength data (Suc pos) (2 ^ (k - 1)) = n"
    using wide_header [OF assms(1,2) _ assms(4)] assms(5) by fastforce
  have "length (mp_header 0 wide (\<lambda>k. 2 ^ (k - 1)) k n) = Suc (2 ^ (k - 1))" using assms(2) by (simp add: mp_header_def)
  then show ?thesis using h wide_heads(2,3) [OF k, of data "Suc pos"] assms(5) by auto
qed

lemma walk_value:
  "mp_ok v \<Longrightarrow> drop pos data = mp_bytes v @ rest \<Longrightarrow>
   strings_loop data pos (Suc p) = (list_all valid_utf8 (mp_strings v) \<and> strings_loop data (pos + length (mp_bytes v)) p)"
proof (induction v arbitrary: pos p rest)
  case (MScalar h s)
  then show ?case using loop_skip [of pos data h "s @ rest"] scalar_step [of h s data "Suc pos"] by simp
next
  case (MStr k s)
  let ?h = "mp_header 0xa0 0xd9 (\<lambda>k. 2 ^ (k - 1)) k (length s)"
  have d: "drop pos data = ?h @ s @ rest" using MStr.prems(2) by simp
  have t: "drop (pos + length ?h) data = s @ rest" by (rule drop_header [OF d])
  obtain h r where h: "drop pos data = h # r" "walk_head data (Suc pos) (unat h) = (0, pos + length ?h, Some (length s))"
    using str_head [OF d] MStr.prems(1) by auto
  have "pos + length ?h \<le> length data"
    using drop_split [OF d] drop_ConsD [OF h(1)] by simp
  with loop_string [OF h t] show ?case by (simp add: add.assoc)
next
  case (MBin k s)
  let ?h = "mp_header 0 0xc4 (\<lambda>k. 2 ^ (k - 1)) k (length s)"
  have d: "drop pos data = ?h @ s @ rest" using MBin.prems(2) by simp
  then show ?case using skip_head [OF d, of 0] MBin.prems(1) loop_skip [of pos data] by (auto simp: add.assoc)
next
  case (MExt k t s)
  let ?h = "mp_header 0 0xc7 (\<lambda>k. 2 ^ (k - 1)) k (length s)"
  have d: "drop pos data = ?h @ t # s @ rest" using MExt.prems(2) by simp
  then show ?case using skip_head [OF d, of 1] MExt.prems(1) loop_skip [of pos data] by (auto simp: add.assoc)
next
  case (MArr k vs)
  have d: "drop pos data = mp_header 0x90 0xdc (\<lambda>k. 2 * k) k (length vs) @ concat (map mp_bytes vs) @ rest"
    using MArr.prems(2) by simp
  show ?case unfolding mp_bytes.simps mp_strings.simps
    by (rule loop_seq [OF MArr.IH d]) (use MArr.prems arr_head [OF d] in \<open>auto simp: list_all_iff\<close>)
next
  case (MMap k vs)
  have d: "drop pos data = mp_header 0x80 0xde (\<lambda>k. 2 * k) k (length vs div 2) @ concat (map mp_bytes vs) @ rest"
    using MMap.prems(2) by simp
  show ?case unfolding mp_bytes.simps mp_strings.simps
    by (rule loop_seq [OF MMap.IH d]) (use MMap.prems map_head [OF d] in \<open>auto simp: list_all_iff\<close>)
qed

lemma stringsAreUtf8_format: "mp_ok v \<Longrightarrow> stringsAreUtf8 (mp_bytes v @ rest) = list_all valid_utf8 (mp_strings v)"
  using walk_value [of v 0 "mp_bytes v @ rest" rest 0] by (simp add: stringsAreUtf8_def strings_loop.simps [of _ _ 0])

section \<open>The serializer\<close>

text \<open>\<open>MessagePackSerializer\<close> around a third-party encoder and decoder that fail with \<open>None\<close>.\<close>

definition mp_encode :: "(jsval \<Rightarrow> byte list option) \<Rightarrow> jsval \<Rightarrow> SerializerError + byte list" where
  "mp_encode encoder v =
     (case encoder (wireStrings v) of
        None \<Rightarrow> Inl (SerializerError ENCODE_FAILED (Msg ''MessagePack encode failed'' []))
      | Some bs \<Rightarrow> Inr bs)"

definition mp_decode :: "(byte list \<Rightarrow> jsval option) \<Rightarrow> byte list \<Rightarrow> SerializerError + jsval" where
  "mp_decode decoder data =
     (if \<not> stringsAreUtf8 data then
        Inl (SerializerError DECODE_FAILED (Msg ''MessagePack decode failed: a string isn't valid UTF-8'' []))
      else case decoder data of
             None \<Rightarrow> Inl (SerializerError DECODE_FAILED (Msg ''MessagePack decode failed'' []))
           | Some v \<Rightarrow> Inr v)"

definition mp_encodeMessage :: "(jsval \<Rightarrow> SerializerError + byte list) \<Rightarrow> messagedef \<Rightarrow> jsval \<Rightarrow> SerializerError + byte list" where
  "mp_encodeMessage encode def payload =
     (case packAny def payload of Inl e \<Rightarrow> Inl e | Inr ws \<Rightarrow> encode (JArr ws))"

definition mp_decodeMessage :: "(byte list \<Rightarrow> SerializerError + jsval) \<Rightarrow> messagedef \<Rightarrow> byte list \<Rightarrow> SerializerError + jsval" where
  "mp_decodeMessage decode def data =
     (case decode data of Inl e \<Rightarrow> Inl e | Inr w \<Rightarrow> unpackMessage def w)"

text \<open>
  What the codec relies on of the library: a value the format can hold (no undefined, no function,
  no negative zero, strings of scalar values, object keys it keeps apart) is encoded as one
  MessagePack value whose strings are UTF-8, and decoded to itself.
\<close>

fun mp_plain :: "jsval \<Rightarrow> bool" where
  "mp_plain JNull = True"
| "mp_plain (JBool b) = True"
| "mp_plain (JNum n) = (n \<noteq> JNegZero)"
| "mp_plain (JStr s) = (wireString s = s)"
| "mp_plain (JArr vs) = list_all mp_plain vs"
| "mp_plain (JObj ps) =
     (distinct (map fst ps) \<and> key_order (map fst ps) \<and> proto_key \<notin> set (map fst ps)
      \<and> list_all (\<lambda>p. wireString (fst p) = fst p \<and> mp_plain (snd p)) ps)"
| "mp_plain _ = False"

definition msgpack_law :: "(jsval \<Rightarrow> byte list option) \<Rightarrow> (byte list \<Rightarrow> jsval option) \<Rightarrow> bool" where
  "msgpack_law encoder decoder =
     (\<forall>v bs. mp_plain v \<longrightarrow> encoder v = Some bs \<longrightarrow>
        decoder bs = Some v \<and> (\<exists>t. mp_ok t \<and> bs = mp_bytes t \<and> list_all valid_utf8 (mp_strings t)))"

lemma wireStrings_plain: "mp_plain v \<Longrightarrow> wireStrings v = v"
proof (induction v rule: wireStrings.induct)
  case (2 vs)
  then show ?case by (simp add: list_all_iff map_idI)
next
  case (3 ps)
  show ?case
  proof (cases "list_ex (\<lambda>p. wireString (fst p) \<noteq> fst p \<or> differs (snd p)) ps")
    case True
    then have "map (\<lambda>p. (wireString (fst p), wireStrings (snd p))) ps = ps"
      using 3 by (intro map_idI) (auto simp: list_all_iff)
    with 3 show ?thesis using assign_all_id [of ps] by simp
  qed simp
qed simp_all

lemma mp_decode_plain:
  assumes "msgpack_law encoder decoder" "mp_encode encoder v = Inr bytes" "mp_plain (wireStrings v)"
  shows "mp_decode decoder bytes = Inr (wireStrings v)"
proof -
  have e: "encoder (wireStrings v) = Some bytes" using assms(2) by (auto simp: mp_encode_def split: option.splits)
  with assms(1,3) obtain t where t: "decoder bytes = Some (wireStrings v)" "mp_ok t" "bytes = mp_bytes t" "list_all valid_utf8 (mp_strings t)"
    unfolding msgpack_law_def by blast
  then have "stringsAreUtf8 bytes" using stringsAreUtf8_format [of t "[]"] by simp
  with t(1) show ?thesis by (simp add: mp_decode_def)
qed

lemma mp_message_decodes:
  assumes "msgpack_law encoder decoder" "mp_encodeMessage (mp_encode encoder) def payload = Inr bytes"
    "wf_message def" "payload_ok payload" "\<And>ws. packAny def payload = Inr ws \<Longrightarrow> mp_plain (wireStrings (JArr ws))"
  shows "mp_decodeMessage (mp_decode decoder) def bytes = Inr (JObj (seen_message def payload))"
proof -
  obtain ws where p: "packAny def payload = Inr ws" "mp_encode encoder (JArr ws) = Inr bytes"
    using assms(2) by (auto simp: mp_encodeMessage_def split: sum.splits)
  show ?thesis using mp_decode_plain [OF assms(1) p(2) assms(5) [OF p(1)]] unpackMessage_packAny [OF p(1) assms(3,4)]
    by (simp add: mp_decodeMessage_def)
qed

end
