(* ===== verification/Elements.thy ===== *)
theory Elements
  imports Contract
begin

text \<open>
  Element codecs of collections (\<open>state/elements.ts\<close>) and primitive field wrappers
  (\<open>state/primitives.ts\<close>). Both turn a value into its wire form with a total function and
  read an untrusted wire value with a partial one. The facts are the laws the state sync needs of
  them, stated once as a locale: a wire value the encoder made is accepted, the value read back
  has the same wire form, and comparing wire forms decides whether receivers see a difference.
\<close>

section \<open>Element codecs\<close>

datatype ElementCodec = FLOAT64 | FLOAT32 | STRING | BOOL | fixedCodec nat | intCodec IntKind | INVALID_CODEC

text \<open>\<open>num\<close>: anything that is no number counts as 0.\<close>

fun num_or_0 :: "jsval \<Rightarrow> jsnum" where
  "num_or_0 (JNum n) = n"
| "num_or_0 _ = JFin 0"

fun is_primitive :: "jsval \<Rightarrow> bool" where
  "is_primitive (JNum _) = True"
| "is_primitive (JStr _) = True"
| "is_primitive (JBool _) = True"
| "is_primitive _ = False"

text \<open>A decimal digit as text, for \<open>fixed:\<close> type tokens.\<close>

definition digit_text :: "nat \<Rightarrow> jsstring" where
  "digit_text d = [word_of_nat (0x30 + d)]"

fun codec_type :: "ElementCodec \<Rightarrow> jsstring" where
  "codec_type FLOAT64 = js ''float64''"
| "codec_type FLOAT32 = js ''float32''"
| "codec_type STRING = js ''string''"
| "codec_type BOOL = js ''bool''"
| "codec_type (fixedCodec d) = js ''fixed:'' @ digit_text d"
| "codec_type (intCodec k) = int_kind_name k"
| "codec_type INVALID_CODEC = js ''string''"

fun codec_encode :: "ElementCodec \<Rightarrow> jsval \<Rightarrow> jsval" where
  "codec_encode FLOAT64 v = JNum (num_or_0 v)"
| "codec_encode FLOAT32 v = JNum (fround (num_or_0 v))"
| "codec_encode STRING v = (case v of JStr s \<Rightarrow> v | _ \<Rightarrow> JStr [])"
| "codec_encode BOOL v = JBool (v = JBool True)"
| "codec_encode (fixedCodec d) v = JNum (toFixed (num_or_0 v) d)"
| "codec_encode (intCodec k) v = JNum (num_or_0 v)"
| "codec_encode INVALID_CODEC v = (if is_primitive v then v else JStr [])"

fun codec_decode :: "ElementCodec \<Rightarrow> jsval \<Rightarrow> jsval option" where
  "codec_decode FLOAT64 w = (case w of JNum n \<Rightarrow> Some w | _ \<Rightarrow> None)"
| "codec_decode FLOAT32 w = (case w of JNum n \<Rightarrow> Some (JNum (fround n)) | _ \<Rightarrow> None)"
| "codec_decode STRING w = (case w of JStr s \<Rightarrow> Some w | _ \<Rightarrow> None)"
| "codec_decode BOOL w = (case w of JBool b \<Rightarrow> Some w | _ \<Rightarrow> None)"
| "codec_decode (fixedCodec d) w =
     (case w of JNum n \<Rightarrow> if isInteger n then Some (JNum (fromFixed n d)) else None | _ \<Rightarrow> None)"
| "codec_decode (intCodec k) w = (if isIntOf w k then Some w else None)"
| "codec_decode INVALID_CODEC w = None"

text \<open>Descriptors are field descriptors; \<open>FIXED[decimals]\<close> exists for 0 to 9.\<close>

fun valueCodec :: "field \<Rightarrow> ElementCodec option" where
  "valueCodec (FScalar kind) =
     (if kind = js ''float64'' then Some FLOAT64
      else if kind = js ''float32'' then Some FLOAT32
      else if kind = js ''string'' then Some STRING
      else if kind = js ''bool'' then Some BOOL
      else None)"
| "valueCodec (FFixed d) = (if d \<le> 9 then Some (fixedCodec d) else None)"
| "valueCodec _ = None"

fun keyCodec :: "field \<Rightarrow> ElementCodec option" where
  "keyCodec (FScalar kind) =
     (if kind = js ''string'' then Some STRING
      else if kind = js ''float64'' then Some FLOAT64
      else map_option intCodec (isIntKind kind))"
| "keyCodec _ = None"

section \<open>Primitive fields\<close>

datatype PrimitiveKind = NumberState | Float32State | FixedPointState nat | IntState IntKind | StringState | BooleanState

record PrimitiveState =
  pkind :: PrimitiveKind
  pval :: jsval

fun zeroWire :: "PrimitiveKind \<Rightarrow> jsval" where
  "zeroWire StringState = JStr []"
| "zeroWire BooleanState = JBool False"
| "zeroWire _ = JNum (JFin 0)"

text \<open>
  \<open>_encode\<close>. A field's value has the field's type: \<open>Math.fround\<close>, \<open>toFixed\<close> and
  \<open>toInt\<close> get a number.
\<close>

fun prim_encode :: "PrimitiveKind \<Rightarrow> jsval \<Rightarrow> jsval" where
  "prim_encode NumberState v = v"
| "prim_encode Float32State v = JNum (fround (the_num v))"
| "prim_encode (FixedPointState d) v = JNum (toFixed (the_num v) d)"
| "prim_encode (IntState k) v = JNum (toInt (the_num v) k)"
| "prim_encode StringState v = v"
| "prim_encode BooleanState v = v"

fun prim_decode :: "PrimitiveKind \<Rightarrow> jsval \<Rightarrow> jsval option" where
  "prim_decode NumberState w = (case w of JNum n \<Rightarrow> Some w | _ \<Rightarrow> None)"
| "prim_decode Float32State w = (case w of JNum n \<Rightarrow> Some (JNum (fround n)) | _ \<Rightarrow> None)"
| "prim_decode (FixedPointState d) w =
     (case w of JNum n \<Rightarrow> if isInteger n then Some (JNum (fromFixed n d)) else None | _ \<Rightarrow> None)"
| "prim_decode (IntState k) w = (if isIntOf w k then Some w else None)"
| "prim_decode StringState w = (case w of JStr s \<Rightarrow> Some w | _ \<Rightarrow> None)"
| "prim_decode BooleanState w = (case w of JBool b \<Rightarrow> Some w | _ \<Rightarrow> None)"

text \<open>
  \<open>set\<close>: the new state and whether \<open>markChanged\<close> was called. \<open>Object.is\<close> on these
  values is equality of the model: NaN equals itself and the zeros differ.
\<close>

definition prim_set :: "bool \<Rightarrow> jsval \<Rightarrow> PrimitiveState \<Rightarrow> PrimitiveState \<times> bool" where
  "prim_set tracking v p =
     (if pval p = v then (p, False)
      else (p\<lparr>pval := v\<rparr>, tracking \<and> prim_encode (pkind p) (pval p) \<noteq> prim_encode (pkind p) v))"

definition prim_toWire :: "PrimitiveState \<Rightarrow> jsval" where
  "prim_toWire p = prim_encode (pkind p) (pval p)"

text \<open>\<open>_applyWire\<close>: the new state and whether listeners were queued, or \<open>None\<close>.\<close>

definition prim_applyWire :: "jsval \<Rightarrow> PrimitiveState \<Rightarrow> (PrimitiveState \<times> bool) option" where
  "prim_applyWire w p =
     (case prim_decode (pkind p) w of
        None \<Rightarrow> None
      | Some v \<Rightarrow> Some (if pval p = v then (p, False) else (p\<lparr>pval := v\<rparr>, True)))"

definition prim_reset :: "PrimitiveState \<Rightarrow> PrimitiveState" where
  "prim_reset p =
     (case prim_decode (pkind p) (zeroWire (pkind p)) of None \<Rightarrow> p | Some zero \<Rightarrow> p\<lparr>pval := zero\<rparr>)"

text \<open>The values a field or element of a kind may hold.\<close>

fun is_num :: "jsval \<Rightarrow> bool" where
  "is_num (JNum n) = True"
| "is_num _ = False"

fun is_bool_val :: "jsval \<Rightarrow> bool" where
  "is_bool_val (JBool b) = True"
| "is_bool_val _ = False"

fun prim_typed :: "PrimitiveKind \<Rightarrow> jsval \<Rightarrow> bool" where
  "prim_typed StringState v = is_string v"
| "prim_typed BooleanState v = is_bool_val v"
| "prim_typed (FixedPointState d) v = (is_num v \<and> d \<le> 9)"
| "prim_typed _ v = is_num v"

fun codec_typed :: "ElementCodec \<Rightarrow> jsval \<Rightarrow> bool" where
  "codec_typed STRING v = is_string v"
| "codec_typed BOOL v = is_bool_val v"
| "codec_typed (fixedCodec d) v = (is_num v \<and> d \<le> 9)"
| "codec_typed (intCodec k) v = isIntOf v k"
| "codec_typed INVALID_CODEC v = False"
| "codec_typed _ v = is_num v"

section \<open>What state sync needs of a codec\<close>

locale lossy_codec =
  fixes typed :: "'c \<Rightarrow> jsval \<Rightarrow> bool" and enc :: "'c \<Rightarrow> jsval \<Rightarrow> jsval" and dec :: "'c \<Rightarrow> jsval \<Rightarrow> jsval option"
  assumes accepted: "typed c v \<Longrightarrow> dec c (enc c v) \<noteq> None"
    and stable: "typed c v \<Longrightarrow> dec c (enc c v) = Some u \<Longrightarrow> typed c u \<and> enc c u = enc c v"
    and on_wire: "typed c v \<Longrightarrow> is_primitive (enc c v)"
begin

definition seen :: "'c \<Rightarrow> jsval \<Rightarrow> jsval" where
  "seen c v = the (dec c (enc c v))"

lemma dec_enc: "typed c v \<Longrightarrow> dec c (enc c v) = Some (seen c v)"
  using accepted [of c v] by (auto simp: seen_def)

lemma typed_seen: "typed c v \<Longrightarrow> typed c (seen c v)"
  using stable [OF _ dec_enc] by blast

lemma enc_seen: "typed c v \<Longrightarrow> enc c (seen c v) = enc c v"
  using stable [OF _ dec_enc] by blast

lemma seen_idem: "typed c v \<Longrightarrow> seen c (seen c v) = seen c v"
  unfolding seen_def [of c "seen c v"] by (simp add: enc_seen dec_enc)

lemma seen_eq_iff: "typed c v \<Longrightarrow> typed c u \<Longrightarrow> seen c v = seen c u \<longleftrightarrow> enc c v = enc c u"
  by (metis enc_seen seen_def)

end

lemmas codec_shape = fround_idem toFixed_int toFixed_quantized isIntOf_toInt toInt_idem

interpretation element: lossy_codec codec_typed codec_encode codec_decode
proof
  fix c v u
  assume t: "codec_typed c v"
  show "codec_decode c (codec_encode c v) \<noteq> None"
    using t by (cases c; cases v) (auto simp: codec_shape simp del: isIntOf.simps(1))
  show "is_primitive (codec_encode c v)"
    using t by (cases c; cases v) auto
  assume "codec_decode c (codec_encode c v) = Some u"
  with t show "codec_typed c u \<and> codec_encode c u = codec_encode c v"
    by (cases c; cases v) (auto simp: codec_shape simp del: isIntOf.simps(1) split: if_splits)
qed

interpretation prim: lossy_codec prim_typed prim_encode prim_decode
proof
  fix c v u
  assume t: "prim_typed c v"
  show "prim_decode c (prim_encode c v) \<noteq> None"
    using t by (cases c; cases v) (auto simp: codec_shape simp del: isIntOf.simps(1))
  show "is_primitive (prim_encode c v)"
    using t by (cases c; cases v) auto
  assume "prim_decode c (prim_encode c v) = Some u"
  with t show "prim_typed c u \<and> prim_encode c u = prim_encode c v"
    by (cases c; cases v) (auto simp: codec_shape simp del: isIntOf.simps(1) split: if_splits)
qed

section \<open>A field over a tick\<close>

text \<open>The writes of one tick; the field is sent if any of them marked it changed.\<close>

fun prim_sets :: "jsval list \<Rightarrow> PrimitiveState \<Rightarrow> PrimitiveState \<times> bool" where
  "prim_sets [] p = (p, False)"
| "prim_sets (v # vs) p =
     (case prim_set True v p of (p, a) \<Rightarrow> case prim_sets vs p of (p, b) \<Rightarrow> (p, a \<or> b))"

definition prim_sync :: "bool \<Rightarrow> PrimitiveState \<Rightarrow> PrimitiveState \<Rightarrow> PrimitiveState option" where
  "prim_sync changed p r = (if changed then map_option fst (prim_applyWire (prim_toWire p) r) else Some r)"

lemma prim_set_step:
  assumes "prim_set True v p = (p1, a)"
  shows "pkind p1 = pkind p" "pval p1 = v" "\<not> a \<Longrightarrow> prim_encode (pkind p) v = prim_encode (pkind p) (pval p)"
  using assms by (auto simp: prim_set_def split: if_splits)

lemma prim_sets_facts:
  "prim_sets vs p = (p', ch) \<Longrightarrow> pkind p' = pkind p \<and> pval p' = last (pval p # vs)
     \<and> (\<not> ch \<longrightarrow> prim_encode (pkind p) (pval p') = prim_encode (pkind p) (pval p))"
proof (induction vs arbitrary: p p' ch)
  case (Cons v vs)
  obtain p1 a where s: "prim_set True v p = (p1, a)" by fastforce
  obtain b where r: "prim_sets vs p1 = (p', b)" "ch = (a \<or> b)"
    using Cons.prems s by (auto split: prod.splits)
  show ?case using Cons.IH [OF r(1)] prim_set_step [OF s] r(2) by (cases "vs = []") auto
qed simp

lemma prim_sync_converges:
  assumes p: "prim_typed (pkind p) (pval p)" and vs: "list_all (prim_typed (pkind p)) vs"
    and run: "prim_sets vs p = (p', changed)"
    and r: "pkind r = pkind p" "pval r = prim.seen (pkind p) (pval p)"
  shows "prim_sync changed p' r = Some \<lparr>pkind = pkind p, pval = prim.seen (pkind p) (pval p')\<rparr>"
proof -
  have k: "pkind p' = pkind p" and t: "prim_typed (pkind p) (pval p')"
    using prim_sets_facts [OF run] p vs by (auto simp: list_all_iff split: if_splits)
  show ?thesis
  proof (cases changed)
    case True
    then show ?thesis using prim.dec_enc [OF t] r
      by (cases r) (auto simp: prim_sync_def prim_applyWire_def prim_toWire_def k)
  next
    case False
    then have "prim.seen (pkind p) (pval p') = prim.seen (pkind p) (pval p)"
      using prim_sets_facts [OF run] unfolding prim.seen_def by metis
    then show ?thesis using False r by (cases r) (simp add: prim_sync_def)
  qed
qed

end
