(* ===== verification/Collections.thy ===== *)
theory Collections
  imports Elements "HOL-Library.AList"
begin

text \<open>
  Collections of primitives (\<open>MapState\<close>, \<open>SetState\<close>, \<open>ArrayState\<close> of
  \<open>state/collections.ts\<close>), both the mutators of the server and the receiver methods, with the
  ops the encoder makes of their recorded changes (\<open>collectionContent\<close> and
  \<open>collectionOps\<close> of \<open>state/encoder.ts\<close>).

  A collection's record keeps its contents and its change record; \<open>tracking\<close> is
  \<open>_isTracking()\<close>, that is, whether the owner is known to clients, and \<open>dirty\<close> is
  whether \<open>_markDirty\<close> has entered the collection in its owner's change tree. Listener calls
  are returned as a list of events. An ECMAScript \<open>Map\<close> or \<open>Set\<close> is a list in
  insertion order whose keys are compared by SameValueZero: keys are stored with -0 as 0, and
  equality of the model does the rest. A primitive is never refused, attached or detached, so
  \<open>_accepts\<close>, \<open>_attach\<close> and \<open>_detach\<close> do nothing here; the collections of schema
  instances are not part of this theory.
\<close>

datatype event = Added jsval jsval | Removed jsval jsval | Changed jsval jsval jsval

abbreviation map_key :: "jsval \<Rightarrow> jsval" where
  "map_key \<equiv> enum_key"

section \<open>Maps\<close>

record KeyRecord =
  had :: bool
  prev :: jsval

record MapBase =
  mkey :: ElementCodec
  mval :: ElementCodec
  mmap :: "(jsval \<times> jsval) list"
  mtouched :: "(jsval \<times> KeyRecord) list option"
  mcleared :: bool
  mtracking :: bool
  mdirty :: bool

definition map_has :: "jsval \<Rightarrow> MapBase \<Rightarrow> bool" where
  "map_has k m = (map_of (mmap m) (map_key k) \<noteq> None)"

definition map_get :: "jsval \<Rightarrow> MapBase \<Rightarrow> jsval" where
  "map_get k m = (case map_of (mmap m) (map_key k) of None \<Rightarrow> JUndef | Some v \<Rightarrow> v)"

definition map_markDirty :: "MapBase \<Rightarrow> MapBase" where
  "map_markDirty m = (if mtracking m then m\<lparr>mdirty := True\<rparr> else m)"

definition map_record :: "jsval \<Rightarrow> MapBase \<Rightarrow> MapBase" where
  "map_record k m =
     (if mcleared m \<or> \<not> mtracking m then m
      else let t = (case mtouched m of None \<Rightarrow> [] | Some t \<Rightarrow> t)
           in if map_of t (map_key k) \<noteq> None then m\<lparr>mtouched := Some t\<rparr>
              else m\<lparr>mtouched := Some (AList.update (map_key k) \<lparr>had = map_has k m, prev = map_get k m\<rparr> t)\<rparr>)"

definition map_set :: "jsval \<Rightarrow> jsval \<Rightarrow> MapBase \<Rightarrow> MapBase \<times> event list" where
  "map_set k v m =
     (let was = map_has k m; old = map_get k m
      in if was \<and> old = v then (m, [])
         else let m = map_record k m;
                  m = m\<lparr>mmap := AList.update (map_key k) v (mmap m)\<rparr>;
                  m = map_markDirty m
              in (m, [if was \<and> old \<noteq> JUndef then Changed v old k else Added v k]))"

definition map_delete :: "jsval \<Rightarrow> MapBase \<Rightarrow> MapBase \<times> event list" where
  "map_delete k m =
     (let old = map_get k m
      in if old = JUndef \<and> \<not> map_has k m then (m, [])
         else let m = map_record k m;
                  m = m\<lparr>mmap := AList.delete (map_key k) (mmap m)\<rparr>
              in if old \<noteq> JUndef then (map_markDirty m, [Removed old k]) else (m, []))"

definition map_clear :: "MapBase \<Rightarrow> MapBase \<times> event list" where
  "map_clear m =
     (if mmap m = [] then (m, [])
      else let entries = mmap m;
               m = m\<lparr>mmap := []\<rparr>;
               m = (if mtracking m then m\<lparr>mcleared := True, mtouched := None\<rparr> else m)
           in (map_markDirty m, map (\<lambda>(k, v). Removed v k) entries))"

definition map_clearChanges :: "MapBase \<Rightarrow> MapBase" where
  "map_clearChanges m = m\<lparr>mtouched := None, mcleared := False\<rparr>"

definition map_reset :: "MapBase \<Rightarrow> MapBase" where
  "map_reset m = m\<lparr>mmap := []\<rparr>"

definition map_rUpsert :: "jsval \<Rightarrow> jsval \<Rightarrow> MapBase \<Rightarrow> MapBase \<times> event list" where
  "map_rUpsert k v m =
     (let old = map_get k m
      in (m\<lparr>mmap := AList.update (map_key k) v (mmap m)\<rparr>,
          [if old \<noteq> JUndef then Changed v old k else Added v k]))"

definition map_rDelete :: "jsval \<Rightarrow> MapBase \<Rightarrow> MapBase \<times> event list" where
  "map_rDelete k m =
     (let old = map_get k m
      in if old = JUndef then (m, [])
         else (m\<lparr>mmap := AList.delete (map_key k) (mmap m)\<rparr>, [Removed old k]))"

definition map_rClear :: "MapBase \<Rightarrow> MapBase \<times> event list" where
  "map_rClear m = (m\<lparr>mmap := []\<rparr>, map (\<lambda>(k, v). Removed v k) (mmap m))"

section \<open>Sets\<close>

record SetBase =
  scodec :: ElementCodec
  sset :: "jsval list"
  stouched :: "(jsval \<times> bool) list option"
  scleared :: bool
  stracking :: bool
  sdirty :: bool

definition set_has :: "jsval \<Rightarrow> SetBase \<Rightarrow> bool" where
  "set_has v s = (map_key v \<in> set (sset s))"

definition set_markDirty :: "SetBase \<Rightarrow> SetBase" where
  "set_markDirty s = (if stracking s then s\<lparr>sdirty := True\<rparr> else s)"

definition set_record :: "jsval \<Rightarrow> SetBase \<Rightarrow> SetBase" where
  "set_record v s =
     (if scleared s \<or> \<not> stracking s then s
      else let t = (case stouched s of None \<Rightarrow> [] | Some t \<Rightarrow> t)
           in if map_of t (map_key v) \<noteq> None then s\<lparr>stouched := Some t\<rparr>
              else s\<lparr>stouched := Some (AList.update (map_key v) (set_has v s) t)\<rparr>)"

definition set_add :: "jsval \<Rightarrow> SetBase \<Rightarrow> SetBase \<times> event list" where
  "set_add v s =
     (if set_has v s then (s, [])
      else let s = set_record v s; s = s\<lparr>sset := sset s @ [map_key v]\<rparr>
           in (set_markDirty s, [Added v v]))"

definition set_delete :: "jsval \<Rightarrow> SetBase \<Rightarrow> SetBase \<times> event list" where
  "set_delete v s =
     (if \<not> set_has v s then (s, [])
      else let s = set_record v s; s = s\<lparr>sset := removeAll (map_key v) (sset s)\<rparr>
           in (set_markDirty s, [Removed v v]))"

definition set_clear :: "SetBase \<Rightarrow> SetBase \<times> event list" where
  "set_clear s =
     (if sset s = [] then (s, [])
      else let vs = sset s;
               s = s\<lparr>sset := []\<rparr>;
               s = (if stracking s then s\<lparr>scleared := True, stouched := None\<rparr> else s)
           in (set_markDirty s, map (\<lambda>v. Removed v v) vs))"

definition set_clearChanges :: "SetBase \<Rightarrow> SetBase" where
  "set_clearChanges s = s\<lparr>stouched := None, scleared := False\<rparr>"

definition set_reset :: "SetBase \<Rightarrow> SetBase" where
  "set_reset s = s\<lparr>sset := []\<rparr>"

definition set_rAdd :: "jsval \<Rightarrow> SetBase \<Rightarrow> SetBase \<times> event list" where
  "set_rAdd v s = (if set_has v s then (s, []) else (s\<lparr>sset := sset s @ [map_key v]\<rparr>, [Added v v]))"

definition set_rDelete :: "jsval \<Rightarrow> SetBase \<Rightarrow> SetBase \<times> event list" where
  "set_rDelete v s =
     (if \<not> set_has v s then (s, []) else (s\<lparr>sset := removeAll (map_key v) (sset s)\<rparr>, [Removed v v]))"

definition set_rClear :: "SetBase \<Rightarrow> SetBase \<times> event list" where
  "set_rClear s = (s\<lparr>sset := []\<rparr>, map (\<lambda>v. Removed v v) (sset s))"

section \<open>Arrays\<close>

datatype ArrayOp = AReplace nat jsval | AInsert nat jsval | ARemove nat | AClear

record ArrayBase =
  acodec :: ElementCodec
  aitems :: "jsval list"
  aops :: "ArrayOp list option"
  atracking :: bool
  adirty :: bool

definition array_sameWire :: "ArrayBase \<Rightarrow> jsval \<Rightarrow> jsval \<Rightarrow> bool" where
  "array_sameWire a u v = (codec_encode (acodec a) u = codec_encode (acodec a) v)"

definition array_markDirty :: "ArrayBase \<Rightarrow> ArrayBase" where
  "array_markDirty a = (if atracking a then a\<lparr>adirty := True\<rparr> else a)"

definition array_log :: "ArrayOp \<Rightarrow> ArrayBase \<Rightarrow> ArrayBase" where
  "array_log op a =
     (if \<not> atracking a then a
      else array_markDirty (a\<lparr>aops := Some ((case aops a of None \<Rightarrow> [] | Some ops \<Rightarrow> ops) @ [op])\<rparr>))"

text \<open>\<open>items.splice(index, 0, value)\<close> and \<open>items.splice(index, 1)\<close>.\<close>

definition insert_at :: "nat \<Rightarrow> 'a \<Rightarrow> 'a list \<Rightarrow> 'a list" where
  "insert_at i v xs = take i xs @ v # drop i xs"

definition remove_at :: "nat \<Rightarrow> 'a list \<Rightarrow> 'a list" where
  "remove_at i xs = take i xs @ drop (Suc i) xs"

definition array_set :: "jsnum \<Rightarrow> jsval \<Rightarrow> ArrayBase \<Rightarrow> bool \<times> ArrayBase \<times> event list" where
  "array_set index v a =
     (if \<not> isInteger index \<or> int_of_num index < 0 \<or> int (length (aitems a)) \<le> int_of_num index then (False, a, [])
      else let i = nat (int_of_num index); old = aitems a ! i
           in if old = JUndef \<or> old = v then (True, a, [])
              else let same = array_sameWire a old v;
                       a = a\<lparr>aitems := (aitems a)[i := v]\<rparr>;
                       a = (if same then a else array_log (AReplace i v) a)
                   in (True, a, [Changed v old (nat_val i)]))"

definition array_insert :: "nat \<Rightarrow> jsval \<Rightarrow> ArrayBase \<Rightarrow> ArrayBase \<times> event list" where
  "array_insert i v a =
     (array_log (AInsert i v) (a\<lparr>aitems := insert_at i v (aitems a)\<rparr>), [Added v (nat_val i)])"

definition array_removeAt :: "nat \<Rightarrow> ArrayBase \<Rightarrow> jsval \<times> ArrayBase \<times> event list" where
  "array_removeAt i a =
     (let v = (if i < length (aitems a) then aitems a ! i else JUndef);
          a = a\<lparr>aitems := remove_at i (aitems a)\<rparr>
      in if v = JUndef then (JUndef, a, []) else (v, array_log (ARemove i) a, [Removed v (nat_val i)]))"

fun array_insert_all :: "nat \<Rightarrow> jsval list \<Rightarrow> ArrayBase \<Rightarrow> ArrayBase \<times> event list" where
  "array_insert_all i [] a = (a, [])"
| "array_insert_all i (v # vs) a =
     (case array_insert i v a of (a, es) \<Rightarrow> case array_insert_all (Suc i) vs a of (a, es') \<Rightarrow> (a, es @ es'))"

definition array_push :: "jsval list \<Rightarrow> ArrayBase \<Rightarrow> ArrayBase \<times> event list" where
  "array_push vs a = array_insert_all (length (aitems a)) vs a"

definition array_unshift :: "jsval list \<Rightarrow> ArrayBase \<Rightarrow> ArrayBase \<times> event list" where
  "array_unshift vs a = array_insert_all 0 vs a"

definition array_pop :: "ArrayBase \<Rightarrow> jsval \<times> ArrayBase \<times> event list" where
  "array_pop a = (if aitems a = [] then (JUndef, a, []) else array_removeAt (length (aitems a) - 1) a)"

definition array_shift :: "ArrayBase \<Rightarrow> jsval \<times> ArrayBase \<times> event list" where
  "array_shift a = (if aitems a = [] then (JUndef, a, []) else array_removeAt 0 a)"

fun array_remove_n :: "nat \<Rightarrow> nat \<Rightarrow> ArrayBase \<Rightarrow> jsval list \<times> ArrayBase \<times> event list" where
  "array_remove_n 0 i a = ([], a, [])"
| "array_remove_n (Suc n) i a =
     (case array_removeAt i a of (v, a, es) \<Rightarrow>
        case array_remove_n n i a of (vs, a, es') \<Rightarrow> ((if v = JUndef then vs else v # vs), a, es @ es'))"

text \<open>\<open>splice\<close> for an integer start and an integer or omitted delete count.\<close>

definition splice_from :: "int \<Rightarrow> nat \<Rightarrow> nat" where
  "splice_from start len = nat (if start < 0 then max (int len + start) 0 else min start (int len))"

definition splice_count :: "int option \<Rightarrow> nat \<Rightarrow> nat \<Rightarrow> nat" where
  "splice_count count from len =
     nat (min (max (case count of None \<Rightarrow> int len - int from | Some c \<Rightarrow> c) 0) (int len - int from))"

definition array_splice :: "int \<Rightarrow> int option \<Rightarrow> jsval list \<Rightarrow> ArrayBase \<Rightarrow> jsval list \<times> ArrayBase \<times> event list" where
  "array_splice start count vs a =
     (let len = length (aitems a);
          from = splice_from start len
      in case array_remove_n (splice_count count from len) from a of (removed, a, es) \<Rightarrow>
         case array_insert_all from vs a of (a, es') \<Rightarrow> (removed, a, es @ es'))"

definition array_clear :: "ArrayBase \<Rightarrow> ArrayBase \<times> event list" where
  "array_clear a =
     (if aitems a = [] then (a, [])
      else let items = aitems a;
               a = a\<lparr>aitems := []\<rparr>;
               a = (if atracking a then a\<lparr>aops := Some [AClear]\<rparr> else a)
           in (array_markDirty a, map (\<lambda>(i, v). Removed v (nat_val i)) (zip [0..<length items] items)))"

text \<open>The loop of \<open>_permute\<close> over the items as they were, at index \<open>i\<close> on.\<close>

fun permute_log :: "nat \<Rightarrow> jsval list \<Rightarrow> ArrayBase \<Rightarrow> ArrayBase \<times> event list" where
  "permute_log i [] a = (a, [])"
| "permute_log i (old # before) a =
     (let v = (if i < length (aitems a) then aitems a ! i else JUndef)
      in if v = JUndef \<or> old = v then permute_log (Suc i) before a
         else let a = (if array_sameWire a old v then a else array_log (AReplace i v) a)
              in case permute_log (Suc i) before a of (a, es) \<Rightarrow> (a, Changed v old (nat_val i) # es))"

text \<open>\<open>sort\<close> and \<open>reverse\<close> reorder in place; the engine's sort is the parameter.\<close>

definition array_permute :: "(jsval list \<Rightarrow> jsval list) \<Rightarrow> ArrayBase \<Rightarrow> ArrayBase \<times> event list" where
  "array_permute reorder a = permute_log 0 (aitems a) (a\<lparr>aitems := reorder (aitems a)\<rparr>)"

definition array_reverse :: "ArrayBase \<Rightarrow> ArrayBase \<times> event list" where
  "array_reverse a = array_permute rev a"

fun fill_loop :: "nat list \<Rightarrow> jsval \<Rightarrow> ArrayBase \<Rightarrow> ArrayBase \<times> event list" where
  "fill_loop [] v a = (a, [])"
| "fill_loop (i # is) v a =
     (case array_set (num_of_int (int i)) v a of (_, a, es) \<Rightarrow>
        case fill_loop is v a of (a, es') \<Rightarrow> (a, es @ es'))"

definition array_fill :: "jsval \<Rightarrow> int option \<Rightarrow> int option \<Rightarrow> ArrayBase \<Rightarrow> ArrayBase \<times> event list" where
  "array_fill v start end a =
     (let len = length (aitems a);
          from = splice_from (case start of None \<Rightarrow> 0 | Some i \<Rightarrow> i) len;
          upto = splice_from (case end of None \<Rightarrow> int len | Some i \<Rightarrow> i) len
      in fill_loop [from..<upto] v a)"

definition array_clearChanges :: "ArrayBase \<Rightarrow> ArrayBase" where
  "array_clearChanges a = a\<lparr>aops := None\<rparr>"

definition array_reset :: "ArrayBase \<Rightarrow> ArrayBase" where
  "array_reset a = a\<lparr>aitems := []\<rparr>"

text \<open>The receiver methods; the index is an integer, the result \<open>None\<close> when out of range.\<close>

definition array_rInsert :: "int \<Rightarrow> jsval \<Rightarrow> ArrayBase \<Rightarrow> (ArrayBase \<times> event list) option" where
  "array_rInsert i v a =
     (if i < 0 \<or> int (length (aitems a)) < i then None
      else Some (a\<lparr>aitems := insert_at (nat i) v (aitems a)\<rparr>, [Added v (nat_val (nat i))]))"

definition array_rRemove :: "int \<Rightarrow> ArrayBase \<Rightarrow> (ArrayBase \<times> event list) option" where
  "array_rRemove i a =
     (if i < 0 \<or> int (length (aitems a)) \<le> i then None
      else Some (a\<lparr>aitems := remove_at (nat i) (aitems a)\<rparr>, [Removed (aitems a ! nat i) (nat_val (nat i))]))"

definition array_rReplace :: "int \<Rightarrow> jsval \<Rightarrow> ArrayBase \<Rightarrow> (ArrayBase \<times> event list) option" where
  "array_rReplace i v a =
     (if i < 0 \<or> int (length (aitems a)) \<le> i then None
      else Some (a\<lparr>aitems := (aitems a)[nat i := v]\<rparr>, [Changed v (aitems a ! nat i) (nat_val (nat i))]))"

definition array_rClear :: "ArrayBase \<Rightarrow> ArrayBase \<times> event list" where
  "array_rClear a =
     (a\<lparr>aitems := []\<rparr>, map (\<lambda>(i, v). Removed v (nat_val i)) (zip [0..<length (aitems a)] (aitems a)))"

section \<open>The ops of a collection\<close>

text \<open>\<open>attach\<close> on a value that is no schema: an op if the wire value is a primitive.\<close>

definition attach :: "(jsval \<Rightarrow> jsval list) \<Rightarrow> jsval \<Rightarrow> jsval list list" where
  "attach makeOp w = (if is_primitive w then [makeOp w] else [])"

definition map_content :: "nat \<Rightarrow> MapBase \<Rightarrow> jsval list list" where
  "map_content ref m =
     concat (map (\<lambda>(k, v). attach (\<lambda>w. [nat_val 1, nat_val ref, k, w]) (codec_encode (mval m) v)) (mmap m))"

definition set_content :: "nat \<Rightarrow> SetBase \<Rightarrow> jsval list list" where
  "set_content ref s =
     concat (map (\<lambda>v. attach (\<lambda>w. [nat_val 1, nat_val ref, w]) (codec_encode (scodec s) v)) (sset s))"

definition array_content :: "nat \<Rightarrow> ArrayBase \<Rightarrow> jsval list list" where
  "array_content ref a =
     concat (map (\<lambda>(i, v). attach (\<lambda>w. [nat_val 1, nat_val ref, nat_val i, w]) (codec_encode (acodec a) v))
       (zip [0..<length (aitems a)] (aitems a)))"

definition map_key_ops :: "nat \<Rightarrow> MapBase \<Rightarrow> jsval \<times> KeyRecord \<Rightarrow> jsval list list" where
  "map_key_ops ref m kr =
     (case kr of (k, record) \<Rightarrow>
        if \<not> map_has k m then (if had record then [[nat_val 2, nat_val ref, k]] else [])
        else let v = map_get k m
             in if \<not> had record \<or> codec_encode (mval m) (prev record) \<noteq> codec_encode (mval m) v
                then attach (\<lambda>w. [nat_val 1, nat_val ref, k, w]) (codec_encode (mval m) v) else [])"

definition map_ops :: "nat \<Rightarrow> MapBase \<Rightarrow> jsval list list" where
  "map_ops ref m =
     (if mcleared m then [nat_val 3, nat_val ref] # map_content ref m
      else case mtouched m of
             None \<Rightarrow> []
           | Some t \<Rightarrow> concat (map (map_key_ops ref m) t))"

definition set_key_ops :: "nat \<Rightarrow> SetBase \<Rightarrow> jsval \<times> bool \<Rightarrow> jsval list list" where
  "set_key_ops ref s vh =
     (case vh of (v, was) \<Rightarrow>
        if set_has v s then
          (if \<not> was then attach (\<lambda>w. [nat_val 1, nat_val ref, w]) (codec_encode (scodec s) v) else [])
        else if was \<and> is_primitive v then [[nat_val 2, nat_val ref, v]] else [])"

definition set_ops :: "nat \<Rightarrow> SetBase \<Rightarrow> jsval list list" where
  "set_ops ref s =
     (if scleared s then [nat_val 3, nat_val ref] # set_content ref s
      else case stouched s of
             None \<Rightarrow> []
           | Some t \<Rightarrow> concat (map (set_key_ops ref s) t))"

definition array_op :: "nat \<Rightarrow> ElementCodec \<Rightarrow> ArrayOp \<Rightarrow> jsval list list" where
  "array_op ref c op =
     (case op of
        AReplace i v \<Rightarrow> attach (\<lambda>w. [nat_val 0, nat_val ref, nat_val i, w]) (codec_encode c v)
      | AInsert i v \<Rightarrow> attach (\<lambda>w. [nat_val 1, nat_val ref, nat_val i, w]) (codec_encode c v)
      | ARemove i \<Rightarrow> [[nat_val 2, nat_val ref, nat_val i]]
      | AClear \<Rightarrow> [[nat_val 3, nat_val ref]])"

definition array_ops :: "nat \<Rightarrow> ArrayBase \<Rightarrow> jsval list list" where
  "array_ops ref a = (case aops a of None \<Rightarrow> [] | Some ops \<Rightarrow> concat (map (array_op ref (acodec a)) ops))"

end
