(* ===== verification/Replica.thy ===== *)
theory Replica
  imports Collections
begin

text \<open>
  The receiver's side of a collection of primitives: the branches of \<open>_set\<close>, \<open>_add\<close>,
  \<open>_remove\<close> and \<open>_clear\<close> in \<open>state/decoder.ts\<close> for a target that is such a
  collection, every refusal included.
\<close>

datatype StateErrorCode = SNAPSHOT_DIRTY | MALFORMED_OP | UNKNOWN_REF | UNKNOWN_CLASS | SCHEMA_MISMATCH | INVALID_DATA

datatype StateError = StateError (state_code: StateErrorCode) (state_message: message)

abbreviation malformed :: "string \<Rightarrow> jsval list \<Rightarrow> StateError + 'a" where
  "malformed text args \<equiv> Inl (StateError MALFORMED_OP (Msg text args))"

datatype target = TMap MapBase | TSet SetBase | TArray ArrayBase

fun target_codec :: "target \<Rightarrow> ElementCodec" where
  "target_codec (TMap m) = mval m"
| "target_codec (TSet s) = scodec s"
| "target_codec (TArray a) = acodec a"

text \<open>\<open>_decode\<close> for a collection with an element codec.\<close>

definition decode_primitive :: "target \<Rightarrow> jsval \<Rightarrow> StateError + jsval" where
  "decode_primitive t v =
     (case codec_decode (target_codec t) v of
        None \<Rightarrow> malformed ''bad {} element'' [JStr (codec_type (target_codec t))]
      | Some element \<Rightarrow> Inr element)"

definition coll_set :: "jsval list \<Rightarrow> target \<Rightarrow> StateError + target \<times> event list" where
  "coll_set op t =
     (if length op \<noteq> 4 \<or> \<not> isInt (arg op 2) then malformed ''bad SET'' []
      else case t of
             TArray a \<Rightarrow>
               (case decode_primitive t (arg op 3) of
                  Inl e \<Rightarrow> Inl e
                | Inr v \<Rightarrow>
                    (case array_rReplace (int_of_num (the_num (arg op 2))) v a of
                       None \<Rightarrow> malformed ''replace out of range'' []
                     | Some (a, es) \<Rightarrow> Inr (TArray a, es)))
           | _ \<Rightarrow> malformed ''SET target is not a schema or array'' [])"

definition coll_add :: "jsval list \<Rightarrow> target \<Rightarrow> StateError + target \<times> event list" where
  "coll_add op t =
     (case decode_primitive t (if length op = 3 then arg op 2 else arg op 3) of
        Inl e \<Rightarrow> Inl e
      | Inr element \<Rightarrow>
          (case t of
             TSet s \<Rightarrow>
               if length op \<noteq> 3 then malformed ''set ADD takes 3 elements'' []
               else (case set_rAdd element s of (s, es) \<Rightarrow> Inr (TSet s, es))
           | TMap m \<Rightarrow>
               if length op \<noteq> 4 then malformed ''ADD takes 4 elements'' []
               else (case codec_decode (mkey m) (arg op 2) of
                       None \<Rightarrow> malformed ''bad map key'' []
                     | Some k \<Rightarrow> (case map_rUpsert k element m of (m, es) \<Rightarrow> Inr (TMap m, es)))
           | TArray a \<Rightarrow>
               if length op \<noteq> 4 then malformed ''ADD takes 4 elements'' []
               else if \<not> isInt (arg op 2) then malformed ''bad array index'' []
               else (case array_rInsert (int_of_num (the_num (arg op 2))) element a of
                       None \<Rightarrow> malformed ''insert out of range'' []
                     | Some (a, es) \<Rightarrow> Inr (TArray a, es))))"

definition coll_remove :: "jsval list \<Rightarrow> target \<Rightarrow> StateError + target \<times> event list" where
  "coll_remove op t =
     (if length op \<noteq> 3 then malformed ''bad REMOVE'' []
      else case t of
             TMap m \<Rightarrow>
               (case codec_decode (mkey m) (arg op 2) of
                  None \<Rightarrow> malformed ''bad map key'' []
                | Some k \<Rightarrow> (case map_rDelete k m of (m, es) \<Rightarrow> Inr (TMap m, es)))
           | TArray a \<Rightarrow>
               if \<not> isInt (arg op 2) then malformed ''bad array index'' []
               else (case array_rRemove (int_of_num (the_num (arg op 2))) a of
                       None \<Rightarrow> malformed ''remove out of range'' []
                     | Some (a, es) \<Rightarrow> Inr (TArray a, es))
           | TSet s \<Rightarrow>
               (case codec_decode (scodec s) (arg op 2) of
                  None \<Rightarrow> malformed ''bad set element'' []
                | Some v \<Rightarrow> (case set_rDelete v s of (s, es) \<Rightarrow> Inr (TSet s, es))))"

definition coll_clear :: "jsval list \<Rightarrow> target \<Rightarrow> StateError + target \<times> event list" where
  "coll_clear op t =
     (if length op \<noteq> 2 then malformed ''bad CLEAR'' []
      else Inr (case t of
                  TMap m \<Rightarrow> (case map_rClear m of (m, es) \<Rightarrow> (TMap m, es))
                | TSet s \<Rightarrow> (case set_rClear s of (s, es) \<Rightarrow> (TSet s, es))
                | TArray a \<Rightarrow> (case array_rClear a of (a, es) \<Rightarrow> (TArray a, es))))"

text \<open>The dispatch of \<open>apply\<close> on an op whose target is the collection.\<close>

definition coll_apply :: "jsval list \<Rightarrow> target \<Rightarrow> StateError + target \<times> event list" where
  "coll_apply op t =
     (if \<not> isInt (arg op 0) \<or> \<not> isInt (arg op 1) then malformed ''op must start with [code, id]'' []
      else if is_lit (arg op 0) 0 then coll_set op t
      else if is_lit (arg op 0) 1 then coll_add op t
      else if is_lit (arg op 0) 2 then coll_remove op t
      else if is_lit (arg op 0) 3 then coll_clear op t
      else malformed ''unknown op code {}'' [arg op 0])"

text \<open>The loop of \<open>applyDelta\<close>: it stops at the first refusal and keeps what was applied.\<close>

fun coll_apply_all :: "jsval list list \<Rightarrow> target \<Rightarrow> (StateError option) \<times> target \<times> event list" where
  "coll_apply_all [] t = (None, t, [])"
| "coll_apply_all (op # ops) t =
     (case coll_apply op t of
        Inl e \<Rightarrow> (Some e, t, [])
      | Inr (t, es) \<Rightarrow> (case coll_apply_all ops t of (e, t, es') \<Rightarrow> (e, t, es @ es')))"

end
