(* ===== verification/Convergence.thy ===== *)
theory Convergence
  imports Replica "HOL-Library.Multiset"
begin

text \<open>
  Replicas follow their collections. The contract \<open>tracked\<close> says what a kind of collection
  promises: a replica in step with a collection stays within reach whatever is done to the
  collection, and the ops of the tick bring it back in step. From that alone, a replica agrees
  after every tick of any run.
\<close>

section \<open>Applying ops\<close>

definition applies :: "jsval list list \<Rightarrow> target \<Rightarrow> target \<Rightarrow> bool" where
  "applies ops t t' = (\<exists>es. coll_apply_all ops t = (None, t', es))"

lemma applies_Nil [simp]: "applies [] t t' \<longleftrightarrow> t' = t"
  by (auto simp: applies_def)

lemma applies_Cons: "coll_apply op t = Inr (t1, es) \<Longrightarrow> applies ops t1 t' \<Longrightarrow> applies (op # ops) t t'"
  by (auto simp: applies_def)

lemma applies_one: "coll_apply op t = Inr (t', es) \<Longrightarrow> applies [op] t t'"
  by (auto simp: applies_def)

lemma applies_append: "applies xs t t1 \<Longrightarrow> applies ys t1 t' \<Longrightarrow> applies (xs @ ys) t t'"
proof (induction xs arbitrary: t)
  case (Cons op xs)
  obtain t2 es es' where a: "coll_apply op t = Inr (t2, es)" "coll_apply_all xs t2 = (None, t1, es')"
    using Cons.prems(1) by (auto simp: applies_def split: sum.splits prod.splits)
  have "applies (xs @ ys) t2 t'" by (rule Cons.IH) (use a Cons.prems in \<open>auto simp: applies_def\<close>)
  with a(1) show ?case by (auto intro: applies_Cons)
qed simp

section \<open>The contract\<close>

text \<open>One tick: the writes, the ops of the change record, the commit; then any number of ticks.\<close>

definition sync_tick ::
  "('m \<Rightarrow> 'c \<Rightarrow> 'c) \<Rightarrow> ('c \<Rightarrow> jsval list list) \<Rightarrow> ('c \<Rightarrow> 'c) \<Rightarrow> 'm list \<Rightarrow> 'c \<Rightarrow> target
   \<Rightarrow> StateError option \<times> 'c \<times> target" where
  "sync_tick step ops commit ms c r =
     (let c = fold step ms c
      in case coll_apply_all (ops c) r of (e, r, es) \<Rightarrow> (e, commit c, r))"

fun sync_run ::
  "('m \<Rightarrow> 'c \<Rightarrow> 'c) \<Rightarrow> ('c \<Rightarrow> jsval list list) \<Rightarrow> ('c \<Rightarrow> 'c) \<Rightarrow> 'm list list \<Rightarrow> 'c \<Rightarrow> target
   \<Rightarrow> StateError option \<times> 'c \<times> target" where
  "sync_run step ops commit [] c r = (None, c, r)"
| "sync_run step ops commit (ms # mss) c r =
     (case sync_tick step ops commit ms c r of
        (Some e, c, r) \<Rightarrow> (Some e, c, r)
      | (None, c, r) \<Rightarrow> sync_run step ops commit mss c r)"

locale tracked =
  fixes step :: "'m \<Rightarrow> 'c \<Rightarrow> 'c" and legal :: "'c \<Rightarrow> 'm \<Rightarrow> bool" and ops :: "'c \<Rightarrow> jsval list list"
    and commit :: "'c \<Rightarrow> 'c" and synced :: "'c \<Rightarrow> target \<Rightarrow> bool" and pending :: "target \<Rightarrow> 'c \<Rightarrow> bool"
  assumes pending_start: "synced c r \<Longrightarrow> pending r c"
    and pending_step: "pending r c \<Longrightarrow> legal c m \<Longrightarrow> pending r (step m c)"
    and deliver: "pending r c \<Longrightarrow> \<exists>r'. applies (ops c) r r' \<and> synced (commit c) r'"
    and legal_step: "pending r c \<Longrightarrow> legal c m \<Longrightarrow> legal (step m c) = legal c"
    and legal_commit: "legal (commit c) = legal c"
begin

lemma pending_fold:
  "pending r c \<Longrightarrow> list_all (legal c) ms \<Longrightarrow> pending r (fold step ms c) \<and> legal (fold step ms c) = legal c"
  by (induction ms arbitrary: c) (auto simp: legal_step pending_step)

lemma tick_converges:
  assumes "synced c r" "list_all (legal c) ms"
  shows "\<exists>r'. sync_tick step ops commit ms c r = (None, commit (fold step ms c), r')
     \<and> synced (commit (fold step ms c)) r' \<and> legal (commit (fold step ms c)) = legal c"
proof -
  have p: "pending r (fold step ms c)" and l: "legal (fold step ms c) = legal c"
    using pending_fold [OF pending_start [OF assms(1)] assms(2)] by blast+
  obtain r' where "applies (ops (fold step ms c)) r r'" "synced (commit (fold step ms c)) r'"
    using deliver [OF p] by blast
  then show ?thesis using l by (auto simp: sync_tick_def applies_def legal_commit)
qed

lemma run_converges:
  "synced c r \<Longrightarrow> list_all (list_all (legal c)) mss \<Longrightarrow>
   \<exists>c' r'. sync_run step ops commit mss c r = (None, c', r') \<and> synced c' r'"
proof (induction mss arbitrary: c r)
  case (Cons ms mss)
  obtain r1 where t: "sync_tick step ops commit ms c r = (None, commit (fold step ms c), r1)"
    "synced (commit (fold step ms c)) r1" "legal (commit (fold step ms c)) = legal c"
    using tick_converges [OF Cons.prems(1)] Cons.prems(2) by auto
  show ?case using Cons.IH [OF t(2)] Cons.prems(2) t by auto
qed simp

end

section \<open>Arrays\<close>

text \<open>The writes a program can make; \<open>APermute\<close> is a sort with the order it produced.\<close>

datatype ArrayEdit =
    ASet jsnum jsval
  | APush "jsval list"
  | AUnshift "jsval list"
  | APop
  | AShift
  | ASplice int "int option" "jsval list"
  | AEmpty
  | APermute "jsval list \<Rightarrow> jsval list"
  | AFill jsval "int option" "int option"

fun array_edit :: "ArrayEdit \<Rightarrow> ArrayBase \<Rightarrow> ArrayBase" where
  "array_edit (ASet i v) a = fst (snd (array_set i v a))"
| "array_edit (APush vs) a = fst (array_push vs a)"
| "array_edit (AUnshift vs) a = fst (array_unshift vs a)"
| "array_edit APop a = fst (snd (array_pop a))"
| "array_edit AShift a = fst (snd (array_shift a))"
| "array_edit (ASplice i n vs) a = fst (snd (array_splice i n vs a))"
| "array_edit AEmpty a = fst (array_clear a)"
| "array_edit (APermute f) a = fst (array_permute f a)"
| "array_edit (AFill v i j) a = fst (array_fill v i j a)"

definition reorders :: "(jsval list \<Rightarrow> jsval list) \<Rightarrow> bool" where
  "reorders f = (\<forall>xs. mset (f xs) = mset xs)"

fun array_legal :: "ArrayBase \<Rightarrow> ArrayEdit \<Rightarrow> bool" where
  "array_legal a (ASet i v) = codec_typed (acodec a) v"
| "array_legal a (APush vs) = list_all (codec_typed (acodec a)) vs"
| "array_legal a (AUnshift vs) = list_all (codec_typed (acodec a)) vs"
| "array_legal a (ASplice i n vs) = list_all (codec_typed (acodec a)) vs"
| "array_legal a (APermute f) = reorders f"
| "array_legal a (AFill v i j) = codec_typed (acodec a) v"
| "array_legal a _ = True"

text \<open>The recorded ops replayed on what the replica holds.\<close>

fun replay :: "ElementCodec \<Rightarrow> ArrayOp \<Rightarrow> jsval list \<Rightarrow> jsval list" where
  "replay c (AReplace i v) xs = xs[i := element.seen c v]"
| "replay c (AInsert i v) xs = insert_at i (element.seen c v) xs"
| "replay c (ARemove i) xs = remove_at i xs"
| "replay c AClear xs = []"

fun op_fits :: "ElementCodec \<Rightarrow> jsval list \<Rightarrow> ArrayOp \<Rightarrow> bool" where
  "op_fits c xs (AReplace i v) = (i < length xs \<and> codec_typed c v)"
| "op_fits c xs (AInsert i v) = (i \<le> length xs \<and> codec_typed c v)"
| "op_fits c xs (ARemove i) = (i < length xs)"
| "op_fits c xs AClear = True"

fun replays :: "ElementCodec \<Rightarrow> ArrayOp list \<Rightarrow> jsval list \<Rightarrow> jsval list option" where
  "replays c [] xs = Some xs"
| "replays c (op # ops) xs = (if op_fits c xs op then replays c ops (replay c op xs) else None)"

lemma replays_append: "replays c (ops @ ops') xs = Option.bind (replays c ops xs) (replays c ops')"
  by (induction ops arbitrary: xs) auto

definition log_of :: "ArrayBase \<Rightarrow> ArrayOp list" where
  "log_of a = (case aops a of None \<Rightarrow> [] | Some ops \<Rightarrow> ops)"

abbreviation array_seen :: "ArrayBase \<Rightarrow> jsval list" where
  "array_seen a \<equiv> map (element.seen (acodec a)) (aitems a)"

text \<open>The invariant of a tick: the log takes the replica to the items, and is empty unless dirty.\<close>

definition array_rep :: "jsval list \<Rightarrow> jsval list \<Rightarrow> ArrayBase \<Rightarrow> bool" where
  "array_rep base xs a =
     (atracking a \<and> replays (acodec a) (log_of a) base = Some xs \<and> (\<not> adirty a \<longrightarrow> log_of a = []))"

definition array_typed :: "ArrayBase \<Rightarrow> bool" where
  "array_typed a = list_all (codec_typed (acodec a)) (aitems a)"

definition array_inv :: "jsval list \<Rightarrow> ArrayBase \<Rightarrow> bool" where
  "array_inv base a = (array_typed a \<and> array_rep base (array_seen a) a)"

lemma array_log_fields [simp]:
  "acodec (array_log op a) = acodec a" "aitems (array_log op a) = aitems a" "atracking (array_log op a) = atracking a"
  by (simp_all add: array_log_def array_markDirty_def)

lemma array_rep_items [simp]: "array_rep base xs (a\<lparr>aitems := ys\<rparr>) = array_rep base xs a"
  by (simp add: array_rep_def log_of_def)

lemma array_rep_log:
  "array_rep base xs a \<Longrightarrow> op_fits (acodec a) xs op \<Longrightarrow> array_rep base (replay (acodec a) op xs) (array_log op a)"
  by (auto simp: array_rep_def array_log_def array_markDirty_def log_of_def replays_append split: option.splits)

lemma typed_not_undef: "codec_typed c v \<Longrightarrow> v \<noteq> JUndef"
  by (cases c) auto

lemma map_insert_at: "map f (insert_at i v xs) = insert_at i (f v) (map f xs)"
  by (simp add: insert_at_def take_map drop_map)

lemma map_remove_at: "map f (remove_at i xs) = remove_at i (map f xs)"
  by (simp add: remove_at_def take_map drop_map)

lemma insert_at_all: "P v \<Longrightarrow> list_all P xs \<Longrightarrow> list_all P (insert_at i v xs)"
  by (auto simp: insert_at_def list_all_iff dest: in_set_takeD in_set_dropD)

lemma remove_at_all: "list_all P xs \<Longrightarrow> list_all P (remove_at i xs)"
  by (auto simp: remove_at_def list_all_iff dest: in_set_takeD in_set_dropD)

lemma length_insert_at: "i \<le> length xs \<Longrightarrow> length (insert_at i v xs) = Suc (length xs)"
  by (simp add: insert_at_def)

lemma length_remove_at: "i < length xs \<Longrightarrow> length (remove_at i xs) = length xs - 1"
  by (simp add: remove_at_def)

lemma update_all: "P v \<Longrightarrow> list_all P xs \<Longrightarrow> list_all P (xs[i := v])"
  by (auto simp: list_all_iff dest!: set_update_subset_insert [THEN subsetD])

lemma same_wire_seen: "array_sameWire a u v \<Longrightarrow> element.seen (acodec a) u = element.seen (acodec a) v"
  by (simp add: array_sameWire_def element.seen_def)

lemma array_set_inv:
  assumes "array_inv base a" "codec_typed (acodec a) v" "array_set i v a = (ok, a', es)"
  shows "array_inv base a' \<and> acodec a' = acodec a"
proof (cases "a' = a")
  case False
  define k where "k = nat (int_of_num i)"
  have k: "k < length (aitems a)" and a': "a' = (if array_sameWire a (aitems a ! k) v then a\<lparr>aitems := (aitems a)[k := v]\<rparr>
      else array_log (AReplace k v) (a\<lparr>aitems := (aitems a)[k := v]\<rparr>))"
    using assms(3) False by (auto simp: array_set_def Let_def k_def split: if_splits)
  have seen: "map (element.seen (acodec a)) ((aitems a)[k := v]) = (array_seen a)[k := element.seen (acodec a) v]"
    by (simp add: map_update)
  have ty: "list_all (codec_typed (acodec a)) ((aitems a)[k := v])"
    using assms(1,2) by (intro update_all) (auto simp: array_inv_def array_typed_def)
  show ?thesis
  proof (cases "array_sameWire a (aitems a ! k) v")
    case True
    then have "(array_seen a)[k := element.seen (acodec a) v] = array_seen a"
      using k by (simp flip: same_wire_seen) (simp add: list_update_same_conv)
    with True a' assms(1) seen ty show ?thesis by (simp add: array_inv_def array_typed_def)
  next
    case False
    have "array_rep base (array_seen a) (a\<lparr>aitems := (aitems a)[k := v]\<rparr>)" using assms(1) by (simp add: array_inv_def)
    from array_rep_log [OF this, of "AReplace k v"] k assms(2) a' False seen ty
    show ?thesis by (simp add: array_inv_def array_typed_def)
  qed
qed (use assms in simp)

lemma array_insert_inv:
  assumes "array_inv base a" "codec_typed (acodec a) v" "i \<le> length (aitems a)" "array_insert i v a = (a', es)"
  shows "array_inv base a' \<and> acodec a' = acodec a \<and> aitems a' = insert_at i v (aitems a)"
proof -
  have "array_rep base (array_seen a) (a\<lparr>aitems := insert_at i v (aitems a)\<rparr>)" using assms(1) by (simp add: array_inv_def)
  from array_rep_log [OF this, of "AInsert i v"] assms show ?thesis
    by (auto simp: array_inv_def array_typed_def array_insert_def map_insert_at insert_at_all)
qed

lemma array_insert_all_inv:
  "array_inv base a \<Longrightarrow> list_all (codec_typed (acodec a)) vs \<Longrightarrow> i \<le> length (aitems a) \<Longrightarrow>
   array_insert_all i vs a = (a', es) \<Longrightarrow> array_inv base a' \<and> acodec a' = acodec a"
proof (induction i vs a arbitrary: a' es rule: array_insert_all.induct)
  case (2 i v vs a)
  obtain a1 e1 where i: "array_insert i v a = (a1, e1)" by fastforce
  obtain e2 where r: "array_insert_all (Suc i) vs a1 = (a', e2)" using "2.prems"(4) i by (auto split: prod.splits)
  have "array_inv base a1 \<and> acodec a1 = acodec a \<and> aitems a1 = insert_at i v (aitems a)"
    using array_insert_inv [OF "2.prems"(1) _ "2.prems"(3) i] "2.prems"(2) by simp
  then show ?case using "2.IH" [OF i [symmetric] _ _ _ r] "2.prems" by (simp add: length_insert_at)
qed simp

lemma array_removeAt_inv:
  assumes "array_inv base a" "i < length (aitems a)" "array_removeAt i a = (v, a', es)"
  shows "array_inv base a' \<and> acodec a' = acodec a \<and> aitems a' = remove_at i (aitems a)"
proof -
  have "codec_typed (acodec a) (aitems a ! i)"
    using assms(1,2) by (simp add: array_inv_def array_typed_def list_all_length)
  then have a': "a' = array_log (ARemove i) (a\<lparr>aitems := remove_at i (aitems a)\<rparr>)"
    using assms(2,3) typed_not_undef by (auto simp: array_removeAt_def Let_def)
  have "array_rep base (array_seen a) (a\<lparr>aitems := remove_at i (aitems a)\<rparr>)" using assms(1) by (simp add: array_inv_def)
  from array_rep_log [OF this, of "ARemove i"] assms a' show ?thesis
    by (auto simp: array_inv_def array_typed_def map_remove_at remove_at_all)
qed

lemma array_remove_n_inv:
  "array_inv base a \<Longrightarrow> i + n \<le> length (aitems a) \<Longrightarrow> array_remove_n n i a = (vs, a', es) \<Longrightarrow>
   array_inv base a' \<and> acodec a' = acodec a \<and> length (aitems a') = length (aitems a) - n"
proof (induction n i a arbitrary: vs a' es rule: array_remove_n.induct)
  case (2 n i a)
  obtain v a1 e1 where rm: "array_removeAt i a = (v, a1, e1)" using prod_cases3 by blast
  obtain ws e2 where r: "array_remove_n n i a1 = (ws, a', e2)" using "2.prems"(3) rm by (auto split: prod.splits)
  have "array_inv base a1 \<and> acodec a1 = acodec a \<and> aitems a1 = remove_at i (aitems a)"
    using array_removeAt_inv [OF "2.prems"(1) _ rm] "2.prems"(2) by simp
  then show ?case using "2.IH" [OF rm [symmetric] refl _ _ r] "2.prems" by (auto simp: length_remove_at)
qed simp

lemma array_splice_inv:
  assumes "array_inv base a" "list_all (codec_typed (acodec a)) vs" "array_splice i n vs a = (ws, a', es)"
  shows "array_inv base a' \<and> acodec a' = acodec a"
proof -
  define len where "len = length (aitems a)"
  define st where "st = splice_from i len"
  define cnt where "cnt = splice_count n st len"
  have f: "st \<le> len" and c: "st + cnt \<le> len"
    by (auto simp: st_def cnt_def splice_from_def splice_count_def)
  obtain a1 e1 where r: "array_remove_n cnt st a = (ws, a1, e1)"
    using assms(3) by (auto simp: array_splice_def Let_def len_def st_def cnt_def split: prod.splits)
  have a1: "array_inv base a1 \<and> acodec a1 = acodec a \<and> length (aitems a1) = len - cnt"
    using array_remove_n_inv [OF assms(1) _ r] c len_def by simp
  obtain e2 where "array_insert_all st vs a1 = (a', e2)"
    using assms(3) r by (auto simp: array_splice_def Let_def len_def st_def cnt_def split: prod.splits)
  from array_insert_all_inv [OF _ _ _ this] a1 assms(2) c show ?thesis by auto
qed

lemma array_clear_inv:
  assumes "array_inv base a" "array_clear a = (a', es)"
  shows "array_inv base a' \<and> acodec a' = acodec a"
  using assms by (auto simp: array_clear_def Let_def array_inv_def array_rep_def array_typed_def
      array_markDirty_def log_of_def split: if_splits)

lemma permute_log_inv:
  "array_rep base (map (element.seen (acodec a)) (take i (aitems a)) @ map (element.seen (acodec a)) before) a \<Longrightarrow>
   length (aitems a) = i + length before \<Longrightarrow> array_typed a \<Longrightarrow> permute_log i before a = (a', es) \<Longrightarrow>
   array_inv base a' \<and> acodec a' = acodec a"
proof (induction i before a arbitrary: a' es rule: permute_log.induct)
  case (1 i a)
  then show ?case by (simp add: array_inv_def)
next
  case (2 i old before a)
  let ?S = "map (element.seen (acodec a))" and ?v = "aitems a ! i"
  have i: "i < length (aitems a)" using "2.prems"(2) by simp
  have tv: "codec_typed (acodec a) ?v" using "2.prems"(3) i by (simp add: array_typed_def list_all_length)
  note nu = typed_not_undef [OF tv]
  have tk: "?S (take (Suc i) (aitems a)) = ?S (take i (aitems a)) @ [element.seen (acodec a) ?v]"
    using i by (simp add: take_Suc_conv_app_nth)
  show ?case
  proof (cases "old = ?v")
    case True
    then have "array_inv base a' \<and> acodec a' = acodec a"
      using "2.IH"(1) [OF refl _ _ _ _ , of a' es] "2.prems" i nu tk by (auto simp: Let_def)
    then show ?thesis .
  next
    case False
    let ?a = "if array_sameWire a old ?v then a else array_log (AReplace i ?v) a"
    have rep: "array_rep base (?S (take (Suc i) (aitems a)) @ ?S before) ?a"
    proof (cases "array_sameWire a old ?v")
      case True
      with "2.prems"(1) tk same_wire_seen [OF True] show ?thesis by simp
    next
      case f: False
      have "op_fits (acodec a) (?S (take i (aitems a)) @ ?S (old # before)) (AReplace i ?v)" using tv i by simp
      from array_rep_log [OF "2.prems"(1) this] f tk i show ?thesis
        by (simp add: list_update_append min_def)
    qed
    obtain e2 where r: "permute_log (Suc i) before ?a = (a', e2)"
      using "2.prems"(4) False i nu by (auto simp: Let_def split: prod.splits)
    have "array_inv base a' \<and> acodec a' = acodec ?a"
      by (rule "2.IH"(2) [OF refl _ _ _ _ _ r]) (use i nu False rep "2.prems" in \<open>auto simp: array_typed_def\<close>)
    then show ?thesis by auto
  qed
qed

lemma reorders_list: "reorders f \<Longrightarrow> length (f xs) = length xs \<and> (list_all P (f xs) = list_all P xs)"
  unfolding reorders_def list_all_iff by (metis size_mset set_mset_mset)

lemma array_permute_inv:
  assumes "array_inv base a" "reorders f" "array_permute f a = (a', es)"
  shows "array_inv base a' \<and> acodec a' = acodec a"
proof -
  let ?a = "a\<lparr>aitems := f (aitems a)\<rparr>"
  have "array_inv base a' \<and> acodec a' = acodec ?a"
    by (rule permute_log_inv [of base ?a 0 "aitems a" a' es])
      (use assms in \<open>simp_all add: array_permute_def array_inv_def array_typed_def reorders_list\<close>)
  then show ?thesis by simp
qed

lemma fill_loop_inv:
  "array_inv base a \<Longrightarrow> codec_typed (acodec a) v \<Longrightarrow> fill_loop is v a = (a', es) \<Longrightarrow>
   array_inv base a' \<and> acodec a' = acodec a"
proof (induction "is" v a arbitrary: a' es rule: fill_loop.induct)
  case (2 i "is" v a)
  obtain ok a1 e1 where s: "array_set (num_of_int (int i)) v a = (ok, a1, e1)" using prod_cases3 by blast
  obtain e2 where r: "fill_loop is v a1 = (a', e2)" using "2.prems"(3) s by (auto split: prod.splits)
  have "array_inv base a1 \<and> acodec a1 = acodec a" using array_set_inv [OF "2.prems"(1,2) s] .
  then show ?case using "2.IH" [OF s [symmetric] refl _ _ r] "2.prems"(2) by simp
qed simp

lemmas array_op_invs = array_set_inv array_insert_all_inv array_removeAt_inv array_splice_inv array_clear_inv
  array_permute_inv fill_loop_inv

lemma end_removed_inv:
  assumes "array_inv base a" "aitems a \<noteq> [] \<Longrightarrow> i < length (aitems a)" "aitems a \<noteq> []"
  shows "array_inv base (fst (snd (array_removeAt i a))) \<and> acodec (fst (snd (array_removeAt i a))) = acodec a"
  using array_removeAt_inv [OF assms(1) assms(2) [OF assms(3)]] by (metis prod.collapse)

lemma array_edit_inv:
  assumes "array_inv base a" "array_legal a e"
  shows "array_inv base (array_edit e a) \<and> acodec (array_edit e a) = acodec a"
proof (cases e)
  case (ASet i v)
  then show ?thesis using array_set_inv [OF assms(1)] assms(2) by (cases "array_set i v a") auto
next
  case (APush vs)
  then show ?thesis using array_insert_all_inv [OF assms(1)] assms(2)
    by (cases "array_push vs a") (auto simp: array_push_def)
next
  case (AUnshift vs)
  then show ?thesis using array_insert_all_inv [OF assms(1)] assms(2)
    by (cases "array_unshift vs a") (auto simp: array_unshift_def)
next
  case APop
  then show ?thesis using end_removed_inv [OF assms(1), of "length (aitems a) - 1"] assms(1)
    by (simp add: array_pop_def)
next
  case AShift
  then show ?thesis using end_removed_inv [OF assms(1), of 0] assms(1) by (simp add: array_shift_def)
next
  case (ASplice i n vs)
  then show ?thesis using array_splice_inv [OF assms(1)] assms(2) by (cases "array_splice i n vs a") auto
next
  case AEmpty
  then show ?thesis using array_clear_inv [OF assms(1)] by (cases "array_clear a") auto
next
  case (APermute f)
  have "reorders f" using assms(2) APermute by simp
  then show ?thesis using array_permute_inv [OF assms(1), of f] APermute by (cases "array_permute f a") simp
next
  case (AFill v i j)
  then show ?thesis using fill_loop_inv [OF assms(1)] assms(2)
    by (cases "array_fill v i j a") (auto simp: array_fill_def Let_def)
qed

text \<open>What a tick sends of a collection, and the commit: only a dirty collection takes part.\<close>

definition array_tick_ops :: "nat \<Rightarrow> ArrayBase \<Rightarrow> jsval list list" where
  "array_tick_ops ref a = (if adirty a then array_ops ref a else [])"

definition array_commit :: "ArrayBase \<Rightarrow> ArrayBase" where
  "array_commit a = (if adirty a then (array_clearChanges a)\<lparr>adirty := False\<rparr> else a)"

fun array_synced :: "ArrayBase \<Rightarrow> target \<Rightarrow> bool" where
  "array_synced a (TArray r) =
     (acodec r = acodec a \<and> array_typed a \<and> atracking a \<and> \<not> adirty a \<and> log_of a = [] \<and> aitems r = array_seen a)"
| "array_synced a _ = False"

fun array_pending :: "target \<Rightarrow> ArrayBase \<Rightarrow> bool" where
  "array_pending (TArray r) a = (acodec r = acodec a \<and> array_inv (aitems r) a)"
| "array_pending _ a = False"

lemma nat_val_facts [simp]: "isInt (nat_val n)" "the_num (nat_val n) = num_of_int (int n)" "is_primitive (nat_val n)"
  by (simp_all add: nat_val_def)

lemma arg_simps [simp]:
  "arg (x # xs) 0 = x" "arg (x # xs) (Suc n) = arg xs n" "arg (x # xs) (numeral k) = arg xs (pred_numeral k)"
  by (simp_all add: arg_def nth_Cons_numeral numeral_eq_Suc)

lemma decode_typed: "codec_typed (target_codec t) v \<Longrightarrow>
    decode_primitive t (codec_encode (target_codec t) v) = Inr (element.seen (target_codec t) v)"
  by (simp add: decode_primitive_def element.dec_enc)

lemma attach_typed: "codec_typed c v \<Longrightarrow> attach f (codec_encode c v) = [f (codec_encode c v)]"
  by (simp add: attach_def element.on_wire)

lemmas apply_simps = coll_apply_def coll_set_def coll_add_def coll_remove_def coll_clear_def is_lit_nat_val

lemma array_op_applies:
  assumes "op_fits (acodec r) (aitems r) op"
  shows "applies (array_op ref (acodec r) op) (TArray r) (TArray (r\<lparr>aitems := replay (acodec r) op (aitems r)\<rparr>))"
proof (cases op)
  case (AReplace i v)
  with assms show ?thesis using decode_typed [of "TArray r" v]
    by (auto simp: array_op_def attach_typed apply_simps array_rReplace_def intro!: applies_one)
next
  case (AInsert i v)
  with assms show ?thesis using decode_typed [of "TArray r" v]
    by (auto simp: array_op_def attach_typed apply_simps array_rInsert_def intro!: applies_one)
next
  case (ARemove i)
  with assms show ?thesis
    by (auto simp: array_op_def apply_simps array_rRemove_def intro!: applies_one)
next
  case AClear
  then show ?thesis by (auto simp: array_op_def apply_simps array_rClear_def intro!: applies_one)
qed

lemma array_ops_apply:
  "replays (acodec r) ops (aitems r) = Some ys \<Longrightarrow>
   applies (concat (map (array_op ref (acodec r)) ops)) (TArray r) (TArray (r\<lparr>aitems := ys\<rparr>))"
proof (induction ops arbitrary: r)
  case (Cons op ops)
  have f: "op_fits (acodec r) (aitems r) op" using Cons.prems by (simp split: if_splits)
  let ?r = "r\<lparr>aitems := replay (acodec r) op (aitems r)\<rparr>"
  have "applies (concat (map (array_op ref (acodec ?r)) ops)) (TArray ?r) (TArray (?r\<lparr>aitems := ys\<rparr>))"
    by (rule Cons.IH) (use Cons.prems f in simp)
  then show ?case using applies_append [OF array_op_applies [OF f]] by simp
qed simp

interpretation array: tracked array_edit array_legal "array_tick_ops ref" array_commit array_synced array_pending
  for ref
proof
  fix a r e
  show "array_synced a r \<Longrightarrow> array_pending r a"
    by (cases r) (auto simp: array_inv_def array_rep_def)
  show "array_pending r a \<Longrightarrow> array_legal a e \<Longrightarrow> array_pending r (array_edit e a)"
    using array_edit_inv by (cases r) auto
  show "array_pending r a \<Longrightarrow> array_legal a e \<Longrightarrow> array_legal (array_edit e a) = array_legal a"
    using array_edit_inv by (intro ext) (cases r; case_tac x; auto)
  show "\<exists>r'. applies (array_tick_ops ref a) r r' \<and> array_synced (array_commit a) r'" if "array_pending r a"
  proof -
    obtain b where r: "r = TArray b" "acodec b = acodec a" "array_inv (aitems b) a" using \<open>array_pending r a\<close> by (cases r) auto
    have rp: "replays (acodec b) (log_of a) (aitems b) = Some (array_seen a)" "adirty a \<or> log_of a = []"
      and s: "array_synced (array_commit a) (TArray (b\<lparr>aitems := array_seen a\<rparr>))"
      using r(2,3) by (auto simp: array_inv_def array_rep_def array_commit_def array_clearChanges_def log_of_def array_typed_def)
    have "array_tick_ops ref a = concat (map (array_op ref (acodec b)) (log_of a))"
      using rp(2) r(2) by (auto simp: array_tick_ops_def array_ops_def log_of_def split: option.splits)
    then show ?thesis using array_ops_apply [OF rp(1), of ref] s r(1) by auto
  qed
next
  fix e a
  show "array_legal (array_commit a) = array_legal a"
    by (rule ext) (case_tac x; simp add: array_commit_def array_clearChanges_def)
qed

section \<open>Keys\<close>

fun is_key_codec :: "ElementCodec \<Rightarrow> bool" where
  "is_key_codec STRING = True"
| "is_key_codec FLOAT64 = True"
| "is_key_codec (intCodec k) = True"
| "is_key_codec _ = False"

lemma map_key_idem [simp]: "map_key (map_key k) = map_key k"
  by (cases k rule: enum_key.cases) auto

lemma map_key_typed: "is_key_codec c \<Longrightarrow> codec_typed c k \<Longrightarrow> codec_typed c (map_key k)"
  by (cases k rule: enum_key.cases; cases c) (auto simp: isIntOf_iff in_range_def simp del: isIntOf.simps(1))

lemma key_exact: "is_key_codec c \<Longrightarrow> codec_typed c k \<Longrightarrow> codec_decode c k = Some k \<and> codec_encode c k = k \<and> is_primitive k"
  by (cases c; cases k) auto

section \<open>Maps\<close>

datatype MapEdit = MSet jsval jsval | MDelete jsval | MEmpty

fun map_edit :: "MapEdit \<Rightarrow> MapBase \<Rightarrow> MapBase" where
  "map_edit (MSet k v) m = fst (map_set k v m)"
| "map_edit (MDelete k) m = fst (map_delete k m)"
| "map_edit MEmpty m = fst (map_clear m)"

fun map_legal :: "MapBase \<Rightarrow> MapEdit \<Rightarrow> bool" where
  "map_legal m (MSet k v) = (codec_typed (mkey m) k \<and> codec_typed (mval m) v)"
| "map_legal m (MDelete k) = codec_typed (mkey m) k"
| "map_legal m MEmpty = True"

abbreviation mview :: "MapBase \<Rightarrow> jsval \<Rightarrow> jsval option" where
  "mview m \<equiv> map_of (mmap m)"

abbreviation map_seen :: "MapBase \<Rightarrow> jsval \<Rightarrow> jsval option" where
  "map_seen m k \<equiv> map_option (element.seen (mval m)) (mview m k)"

definition touched_of :: "MapBase \<Rightarrow> (jsval \<times> KeyRecord) list" where
  "touched_of m = (case mtouched m of None \<Rightarrow> [] | Some t \<Rightarrow> t)"

definition map_typed :: "MapBase \<Rightarrow> bool" where
  "map_typed m = (is_key_codec (mkey m) \<and> distinct (map fst (mmap m))
     \<and> (\<forall>(k, v) \<in> set (mmap m). codec_typed (mkey m) k \<and> map_key k = k \<and> codec_typed (mval m) v))"

definition rec_ok :: "(jsval \<Rightarrow> jsval option) \<Rightarrow> ElementCodec \<Rightarrow> jsval \<times> KeyRecord \<Rightarrow> bool" where
  "rec_ok base c kr =
     (codec_typed c (fst kr) \<and> map_key (fst kr) = fst kr \<and> had (snd kr) = (base (fst kr) \<noteq> None)
      \<and> (\<forall>u. base (fst kr) = Some u \<longrightarrow> prev (snd kr) = u))"

definition map_core :: "(jsval \<Rightarrow> jsval option) \<Rightarrow> MapBase \<Rightarrow> bool" where
  "map_core base m =
     (mtracking m \<and> map_typed m \<and> (\<forall>u \<in> ran base. codec_typed (mval m) u)
      \<and> (\<not> mcleared m \<longrightarrow> distinct (map fst (touched_of m)) \<and> list_all (rec_ok base (mkey m)) (touched_of m)
           \<and> (\<forall>k. k \<notin> fst ` set (touched_of m) \<longrightarrow> mview m k = base k)))"

text \<open>The invariant of a tick: every touched key remembers what the replica was sent of it.\<close>

definition map_inv :: "(jsval \<Rightarrow> jsval option) \<Rightarrow> MapBase \<Rightarrow> bool" where
  "map_inv base m = (map_core base m \<and> (\<not> mdirty m \<longrightarrow> touched_of m = [] \<and> \<not> mcleared m))"

lemma map_typed_get: "map_typed m \<Longrightarrow> mview m k = Some v \<Longrightarrow> codec_typed (mkey m) k \<and> map_key k = k \<and> codec_typed (mval m) v"
  unfolding map_typed_def using map_of_SomeD by fastforce

lemma map_get_undef: "map_typed m \<Longrightarrow> map_get k m = JUndef \<longleftrightarrow> mview m (map_key k) = None"
  using map_typed_get typed_not_undef by (fastforce simp: map_get_def split: option.splits)

lemma map_record_fields [simp]:
  "mkey (map_record k m) = mkey m" "mval (map_record k m) = mval m" "mmap (map_record k m) = mmap m"
  "mcleared (map_record k m) = mcleared m" "mtracking (map_record k m) = mtracking m" "mdirty (map_record k m) = mdirty m"
  by (simp_all add: map_record_def Let_def)

lemma alist_update_new: "k \<notin> fst ` set t \<Longrightarrow> AList.update k v t = t @ [(k, v)]"
  by (induction t) auto

lemma map_of_touched: "map_of t k \<noteq> None \<longleftrightarrow> k \<in> fst ` set t"
  by (induction t) auto

lemma map_record_touched:
  assumes "mtracking m" "\<not> mcleared m"
  shows "touched_of (map_record k m) =
    (if map_key k \<in> fst ` set (touched_of m) then touched_of m
     else AList.update (map_key k) \<lparr>had = map_has k m, prev = map_get k m\<rparr> (touched_of m))"
  using assms by (auto simp: map_record_def touched_of_def Let_def simp flip: map_of_touched split: option.splits)

lemma map_record_core:
  assumes c: "map_core base m" and k: "codec_typed (mkey m) k"
  shows "map_core base (map_record k m)
    \<and> (\<not> mcleared m \<longrightarrow> map_key k \<in> fst ` set (touched_of (map_record k m)))"
proof (cases "mcleared m \<or> map_key k \<in> fst ` set (touched_of m)")
  case True
  then show ?thesis using c map_record_touched [of m k]
    by (auto simp: map_core_def map_typed_def)
next
  case False
  have t: "mtracking m" "is_key_codec (mkey m)" using c by (auto simp: map_core_def map_typed_def)
  let ?r = "\<lparr>had = map_has k m, prev = map_get k m\<rparr>"
  have tk: "touched_of (map_record k m) = touched_of m @ [(map_key k, ?r)]"
    using False map_record_touched [OF t(1)] by (simp add: alist_update_new)
  have "mview m (map_key k) = base (map_key k)" using c False by (simp add: map_core_def)
  then have "rec_ok base (mkey m) (map_key k, ?r)"
    using map_key_typed [OF t(2) k] by (auto simp: rec_ok_def map_has_def map_get_def split: option.splits)
  with c False tk show ?thesis by (auto simp: map_core_def map_typed_def)
qed

lemma map_core_entries:
  assumes "map_core base m" "\<not> mcleared m \<longrightarrow> k \<in> fst ` set (touched_of m)"
    "map_typed (m\<lparr>mmap := xs\<rparr>)" "\<And>k'. k' \<noteq> k \<Longrightarrow> map_of xs k' = mview m k'"
  shows "map_core base (m\<lparr>mmap := xs\<rparr>)"
proof -
  have t: "touched_of (m\<lparr>mmap := xs\<rparr>) = touched_of m" by (simp add: touched_of_def)
  have "\<forall>k'. k' \<notin> fst ` set (touched_of m) \<longrightarrow> map_of xs k' = base k'" if "\<not> mcleared m"
    using assms(1,2,4) that unfolding map_core_def by metis
  with assms(1,3) show ?thesis unfolding map_core_def t by simp
qed

lemma map_markDirty_inv: "map_core base m \<Longrightarrow> map_inv base (map_markDirty m)"
  by (auto simp: map_inv_def map_core_def map_markDirty_def map_typed_def touched_of_def)

lemma map_typed_update:
  assumes "map_typed m" "codec_typed (mkey m) k" "codec_typed (mval m) v"
  shows "map_typed (m\<lparr>mmap := AList.update (map_key k) v (mmap m)\<rparr>)"
proof -
  have "p \<in> set (AList.update (map_key k) v xs) \<Longrightarrow> p = (map_key k, v) \<or> p \<in> set xs" for p xs
    by (induction xs) (auto split: if_splits)
  then show ?thesis using assms map_key_typed [of "mkey m" k]
    by (fastforce simp: map_typed_def intro: distinct_update)
qed

lemma map_typed_delete: "map_typed m \<Longrightarrow> map_typed (m\<lparr>mmap := AList.delete k (mmap m)\<rparr>)"
  by (auto simp: map_typed_def AList.delete_eq distinct_map_filter)

lemma map_set_inv:
  assumes i: "map_inv base m" and k: "codec_typed (mkey m) k" "codec_typed (mval m) v"
  shows "map_inv base (fst (map_set k v m)) \<and> mkey (fst (map_set k v m)) = mkey m \<and> mval (fst (map_set k v m)) = mval m"
proof (cases "map_has k m \<and> map_get k m = v")
  case False
  let ?m = "(map_record k m)\<lparr>mmap := AList.update (map_key k) v (mmap m)\<rparr>"
  have r: "map_core base (map_record k m)" "\<not> mcleared m \<longrightarrow> map_key k \<in> fst ` set (touched_of (map_record k m))"
    using map_record_core [OF _ k(1)] i by (auto simp: map_inv_def)
  have "map_core base ?m"
    by (rule map_core_entries [OF r(1)])
      (use r i k map_typed_update [of "map_record k m" k v] in \<open>auto simp: map_inv_def map_core_def map_typed_def update_conv'\<close>)
  from map_markDirty_inv [OF this] False show ?thesis
    by (cases "mtracking m") (auto simp: map_set_def Let_def map_markDirty_def)
qed (use i in \<open>simp add: map_set_def\<close>)

lemma map_delete_inv:
  assumes i: "map_inv base m" and k: "codec_typed (mkey m) k"
  shows "map_inv base (fst (map_delete k m)) \<and> mkey (fst (map_delete k m)) = mkey m \<and> mval (fst (map_delete k m)) = mval m"
proof (cases "map_get k m = JUndef")
  case True
  then have "\<not> map_has k m" using map_get_undef [of m k] i by (simp add: map_has_def map_inv_def map_core_def)
  with True i show ?thesis by (simp add: map_delete_def)
next
  case False
  let ?m = "(map_record k m)\<lparr>mmap := AList.delete (map_key k) (mmap m)\<rparr>"
  have r: "map_core base (map_record k m)" "\<not> mcleared m \<longrightarrow> map_key k \<in> fst ` set (touched_of (map_record k m))"
    using map_record_core [OF _ k(1)] i by (auto simp: map_inv_def)
  have "map_core base ?m"
    by (rule map_core_entries [OF r(1)])
      (use r i map_typed_delete [of "map_record k m" "map_key k"] in \<open>auto simp: map_inv_def map_core_def map_typed_def delete_conv'\<close>)
  from map_markDirty_inv [OF this] False show ?thesis
    by (cases "mtracking m") (auto simp: map_delete_def Let_def map_markDirty_def)
qed

lemma map_clear_inv:
  assumes i: "map_inv base m"
  shows "map_inv base (fst (map_clear m)) \<and> mkey (fst (map_clear m)) = mkey m \<and> mval (fst (map_clear m)) = mval m"
  using i by (auto simp: map_clear_def Let_def map_markDirty_def map_inv_def map_core_def map_typed_def)

lemma map_edit_inv:
  assumes "map_inv base m" "map_legal m e"
  shows "map_inv base (map_edit e m) \<and> mkey (map_edit e m) = mkey m \<and> mval (map_edit e m) = mval m"
  using assms map_set_inv map_delete_inv map_clear_inv by (cases e) auto

subsection \<open>Delivery\<close>

lemma upsert_applies:
  assumes "is_key_codec (mkey r)" "codec_typed (mkey r) k" "map_key k = k" "codec_typed (mval r) v"
  shows "applies (attach (\<lambda>w. [nat_val 1, nat_val ref, k, w]) (codec_encode (mval r) v)) (TMap r)
    (TMap (r\<lparr>mmap := AList.update k (element.seen (mval r) v) (mmap r)\<rparr>))"
  using assms decode_typed [of "TMap r" v] key_exact [OF assms(1,2)]
  by (auto simp: attach_typed apply_simps map_rUpsert_def Let_def intro!: applies_one)

lemma delete_applies:
  assumes "is_key_codec (mkey r)" "codec_typed (mkey r) k" "map_key k = k" "mview r k = Some u" "u \<noteq> JUndef"
  shows "applies [[nat_val 2, nat_val ref, k]] (TMap r) (TMap (r\<lparr>mmap := AList.delete k (mmap r)\<rparr>))"
  using assms key_exact [OF assms(1,2)]
  by (auto simp: apply_simps map_rDelete_def map_get_def Let_def intro!: applies_one)

lemma map_key_ops_apply:
  assumes m: "map_typed m" and b: "\<forall>u \<in> ran base. codec_typed (mval m) u"
    and kr: "rec_ok base (mkey m) (k, rec)"
    and r: "mkey r = mkey m" "mval r = mval m" "mview r k = map_option (element.seen (mval m)) (base k)"
  shows "\<exists>xs. applies (map_key_ops ref m (k, rec)) (TMap r) (TMap (r\<lparr>mmap := xs\<rparr>))
    \<and> map_of xs = (mview r)(k := map_seen m k)"
proof -
  have kk: "is_key_codec (mkey r)" "codec_typed (mkey r) k" "map_key k = k"
    using m kr r by (auto simp: map_typed_def rec_ok_def)
  have same: ?thesis if "map_key_ops ref m (k, rec) = []" "map_seen m k = mview r k"
    using that by (intro exI [of _ "mmap r"]) (auto simp: fun_upd_idem)
  show ?thesis
  proof (cases "mview m k")
    case None
    then have ops: "map_key_ops ref m (k, rec) = (if had rec then [[nat_val 2, nat_val ref, k]] else [])"
      using kk by (simp add: map_key_ops_def map_has_def)
    show ?thesis
    proof (cases "base k")
      case n: None
      with ops kr None r show ?thesis by (intro same) (auto simp: rec_ok_def)
    next
      case (Some u)
      then have "codec_typed (mval m) u" using b by (auto simp: ran_def)
      then have "mview r k = Some (element.seen (mval m) u)" "element.seen (mval m) u \<noteq> JUndef"
        using r Some element.typed_seen typed_not_undef by simp_all blast
      from delete_applies [OF kk this, of ref] ops kr Some None show ?thesis
        by (intro exI [of _ "AList.delete k (mmap r)"]) (auto simp: rec_ok_def delete_conv')
    qed
  next
    case (Some v)
    have v: "codec_typed (mval m) v" using map_typed_get [OF m Some] by simp
    show ?thesis
    proof (cases "\<not> had rec \<or> codec_encode (mval m) (prev rec) \<noteq> codec_encode (mval m) v")
      case True
      then have ops: "map_key_ops ref m (k, rec) = attach (\<lambda>w. [nat_val 1, nat_val ref, k, w]) (codec_encode (mval m) v)"
        using Some kk by (simp add: map_key_ops_def map_has_def map_get_def)
      show ?thesis using upsert_applies [OF kk, of v ref] v r ops Some
        by (intro exI [of _ "AList.update k (element.seen (mval m) v) (mmap r)"]) (auto simp: update_conv')
    next
      case False
      then obtain u where u: "base k = Some u" "codec_encode (mval m) u = codec_encode (mval m) v"
        using kr by (auto simp: rec_ok_def)
      have "map_key_ops ref m (k, rec) = []" using False Some kk by (simp add: map_key_ops_def map_has_def map_get_def)
      then show ?thesis by (rule same) (simp add: Some r u(1), simp add: element.seen_def u(2))
    qed
  qed
qed

lemma map_touched_apply:
  "map_typed m \<Longrightarrow> \<forall>u \<in> ran base. codec_typed (mval m) u \<Longrightarrow> list_all (rec_ok base (mkey m)) t \<Longrightarrow> distinct (map fst t) \<Longrightarrow>
   mkey r = mkey m \<Longrightarrow> mval r = mval m \<Longrightarrow>
   (\<And>k. k \<in> fst ` set t \<Longrightarrow> mview r k = map_option (element.seen (mval m)) (base k)) \<Longrightarrow>
   \<exists>xs. applies (concat (map (map_key_ops ref m) t)) (TMap r) (TMap (r\<lparr>mmap := xs\<rparr>))
     \<and> (\<forall>k. map_of xs k = (if k \<in> fst ` set t then map_seen m k else mview r k))"
proof (induction t arbitrary: r)
  case (Nil r)
  show ?case by (intro exI [of _ "mmap r"]) simp
next
  case (Cons kr t)
  obtain k rec where kr: "kr = (k, rec)" by fastforce
  obtain xs where x: "applies (map_key_ops ref m (k, rec)) (TMap r) (TMap (r\<lparr>mmap := xs\<rparr>))"
    "map_of xs = (mview r)(k := map_seen m k)"
    using map_key_ops_apply [OF Cons.prems(1,2), of k rec r ref] Cons.prems(3-7) kr by auto
  let ?r = "r\<lparr>mmap := xs\<rparr>"
  have "\<exists>ys. applies (concat (map (map_key_ops ref m) t)) (TMap ?r) (TMap (?r\<lparr>mmap := ys\<rparr>))
     \<and> (\<forall>k. map_of ys k = (if k \<in> fst ` set t then map_seen m k else mview ?r k))"
    by (rule Cons.IH [OF Cons.prems(1,2)]) (use Cons.prems(3-7) kr x(2) in auto)
  then obtain ys where y: "applies (concat (map (map_key_ops ref m) t)) (TMap ?r) (TMap (r\<lparr>mmap := ys\<rparr>))"
    "\<forall>k. map_of ys k = (if k \<in> fst ` set t then map_seen m k else map_of xs k)" by auto
  show ?case
    by (rule exI [of _ ys]) (use applies_append [OF x(1) y(1)] y(2) x(2) kr Cons.prems(4) in auto)
qed

lemma map_entries_apply:
  "is_key_codec (mkey r) \<Longrightarrow> \<forall>(k, v) \<in> set kvs. codec_typed (mkey r) k \<and> map_key k = k \<and> codec_typed (mval r) v \<Longrightarrow>
   distinct (map fst kvs) \<Longrightarrow>
   \<exists>xs. applies (concat (map (\<lambda>(k, v). attach (\<lambda>w. [nat_val 1, nat_val ref, k, w]) (codec_encode (mval r) v)) kvs))
      (TMap r) (TMap (r\<lparr>mmap := xs\<rparr>))
     \<and> (\<forall>k. map_of xs k = (case map_of kvs k of None \<Rightarrow> mview r k | Some v \<Rightarrow> Some (element.seen (mval r) v)))"
proof (induction kvs arbitrary: r)
  case (Nil r)
  show ?case by (intro exI [of _ "mmap r"]) simp
next
  case (Cons kv kvs)
  obtain k v where kv: "kv = (k, v)" by fastforce
  let ?r = "r\<lparr>mmap := AList.update k (element.seen (mval r) v) (mmap r)\<rparr>"
  have u: "applies (attach (\<lambda>w. [nat_val 1, nat_val ref, k, w]) (codec_encode (mval r) v)) (TMap r) (TMap ?r)"
    using upsert_applies [OF Cons.prems(1), of k v ref] Cons.prems(2) kv by simp
  obtain ys where y: "applies (concat (map (\<lambda>(k, v). attach (\<lambda>w. [nat_val 1, nat_val ref, k, w]) (codec_encode (mval r) v)) kvs))
      (TMap ?r) (TMap (r\<lparr>mmap := ys\<rparr>))"
    "\<forall>k. map_of ys k = (case map_of kvs k of None \<Rightarrow> mview ?r k | Some v \<Rightarrow> Some (element.seen (mval r) v))"
  proof -
    have "\<exists>ys. applies (concat (map (\<lambda>(k, v). attach (\<lambda>w. [nat_val 1, nat_val ref, k, w]) (codec_encode (mval ?r) v)) kvs))
        (TMap ?r) (TMap (?r\<lparr>mmap := ys\<rparr>))
       \<and> (\<forall>k. map_of ys k = (case map_of kvs k of None \<Rightarrow> mview ?r k | Some v \<Rightarrow> Some (element.seen (mval ?r) v)))"
      by (rule Cons.IH) (use Cons.prems in auto)
    then show thesis using that by (auto cong: option.case_cong)
  qed
  have "map_of kvs k = None" using Cons.prems(3) kv by (simp add: map_of_eq_None_iff)
  then show ?case
    by (intro exI [of _ ys]) (use applies_append [OF u y(1)] y(2) kv in \<open>auto simp: update_conv' split: option.splits\<close>)
qed

definition map_tick_ops :: "nat \<Rightarrow> MapBase \<Rightarrow> jsval list list" where
  "map_tick_ops ref m = (if mdirty m then map_ops ref m else [])"

definition map_commit :: "MapBase \<Rightarrow> MapBase" where
  "map_commit m = (if mdirty m then (map_clearChanges m)\<lparr>mdirty := False\<rparr> else m)"

fun map_synced :: "MapBase \<Rightarrow> target \<Rightarrow> bool" where
  "map_synced m (TMap r) =
     (mkey r = mkey m \<and> mval r = mval m \<and> map_typed m \<and> mtracking m \<and> \<not> mdirty m \<and> touched_of m = [] \<and> \<not> mcleared m
      \<and> (\<forall>k. mview r k = map_seen m k))"
| "map_synced m _ = False"

fun map_pending :: "target \<Rightarrow> MapBase \<Rightarrow> bool" where
  "map_pending (TMap r) m =
     (mkey r = mkey m \<and> mval r = mval m
      \<and> (\<exists>base. map_inv base m \<and> (\<forall>k. mview r k = map_option (element.seen (mval m)) (base k))))"
| "map_pending _ m = False"

lemma map_clear_applies: "applies [[nat_val 3, nat_val ref]] (TMap r) (TMap (r\<lparr>mmap := []\<rparr>))"
  by (auto simp: apply_simps map_rClear_def intro!: applies_one)

lemma map_deliver:
  assumes i: "map_inv base m" and r: "mkey r = mkey m" "mval r = mval m"
    "\<forall>k. mview r k = map_option (element.seen (mval m)) (base k)"
  shows "\<exists>xs. applies (map_tick_ops ref m) (TMap r) (TMap (r\<lparr>mmap := xs\<rparr>)) \<and> (\<forall>k. map_of xs k = map_seen m k)"
proof (cases "mcleared m")
  case True
  have m: "mdirty m" "is_key_codec (mkey m)" "distinct (map fst (mmap m))"
    "\<forall>(k, v) \<in> set (mmap m). codec_typed (mkey m) k \<and> map_key k = k \<and> codec_typed (mval m) v"
    using i True by (auto simp: map_inv_def map_core_def map_typed_def)
  obtain xs where x: "applies (map_content ref m) (TMap (r\<lparr>mmap := []\<rparr>)) (TMap (r\<lparr>mmap := xs\<rparr>))"
    "\<forall>k. map_of xs k = (case mview m k of None \<Rightarrow> None | Some v \<Rightarrow> Some (element.seen (mval m) v))"
    using map_entries_apply [of "r\<lparr>mmap := []\<rparr>" "mmap m" ref] m r by (auto simp: map_content_def cong: option.case_cong)
  have "applies (map_tick_ops ref m) (TMap r) (TMap (r\<lparr>mmap := xs\<rparr>))"
    using applies_append [OF map_clear_applies x(1)] m True by (simp add: map_tick_ops_def map_ops_def)
  with x(2) show ?thesis by (intro exI [of _ xs]) (auto split: option.splits)
next
  case False
  have ops: "map_tick_ops ref m = concat (map (map_key_ops ref m) (touched_of m))"
    using i False by (auto simp: map_tick_ops_def map_ops_def map_inv_def touched_of_def split: option.splits)
  have c: "map_core base m" using i by (simp add: map_inv_def)
  obtain xs where x: "applies (map_tick_ops ref m) (TMap r) (TMap (r\<lparr>mmap := xs\<rparr>))"
    "\<forall>k. map_of xs k = (if k \<in> fst ` set (touched_of m) then map_seen m k else mview r k)"
    using map_touched_apply [of m base "touched_of m" r ref] c r False unfolding ops by (auto simp: map_core_def)
  have "map_of xs k = map_seen m k" for k using x(2) c False r(3) by (auto simp: map_core_def)
  with x(1) show ?thesis by blast
qed

lemma map_commit_synced:
  "map_inv base m \<Longrightarrow> mkey r = mkey m \<Longrightarrow> mval r = mval m \<Longrightarrow> \<forall>k. mview r k = map_seen m k \<Longrightarrow>
   map_synced (map_commit m) (TMap r)"
  by (auto simp: map_commit_def map_clearChanges_def map_inv_def map_core_def map_typed_def touched_of_def)

interpretation map: tracked map_edit map_legal "map_tick_ops ref" map_commit map_synced map_pending
  for ref
proof
  fix m r e
  show "map_pending r m" if "map_synced m r"
  proof -
    obtain b where r: "r = TMap b" using \<open>map_synced m r\<close> by (cases r) auto
    have "\<forall>u \<in> ran (mview m). codec_typed (mval m) u"
      using \<open>map_synced m r\<close> r map_typed_get by (auto simp: ran_def)
    then show ?thesis using \<open>map_synced m r\<close> r by (auto simp: map_inv_def map_core_def intro!: exI [of _ "mview m"])
  qed
  show "map_pending r m \<Longrightarrow> map_legal m e \<Longrightarrow> map_pending r (map_edit e m)"
    using map_edit_inv by (cases r) fastforce+
  show "map_pending r m \<Longrightarrow> map_legal m e \<Longrightarrow> map_legal (map_edit e m) = map_legal m"
    using map_edit_inv by (intro ext) (cases r; case_tac x; fastforce)
  show "\<exists>r'. applies (map_tick_ops ref m) r r' \<and> map_synced (map_commit m) r'" if "map_pending r m"
  proof -
    obtain b base where r: "r = TMap b" "mkey b = mkey m" "mval b = mval m" "map_inv base m"
      "\<forall>k. mview b k = map_option (element.seen (mval m)) (base k)" using \<open>map_pending r m\<close> by (cases r) auto
    obtain xs where x: "applies (map_tick_ops ref m) r (TMap (b\<lparr>mmap := xs\<rparr>))" "\<forall>k. map_of xs k = map_seen m k"
      using map_deliver [OF r(4,2,3,5)] r(1) by blast
    have "map_synced (map_commit m) (TMap (b\<lparr>mmap := xs\<rparr>))" by (rule map_commit_synced [OF r(4)]) (use r x in simp_all)
    with x(1) show ?thesis by blast
  qed
next
  fix m
  show "map_legal (map_commit m) = map_legal m"
    by (rule ext) (case_tac x; simp add: map_commit_def map_clearChanges_def)
qed

section \<open>Sets\<close>

datatype SetEdit = SAdd jsval | SDelete jsval | SEmpty

fun set_edit :: "SetEdit \<Rightarrow> SetBase \<Rightarrow> SetBase" where
  "set_edit (SAdd v) s = fst (set_add v s)"
| "set_edit (SDelete v) s = fst (set_delete v s)"
| "set_edit SEmpty s = fst (set_clear s)"

fun set_legal :: "SetBase \<Rightarrow> SetEdit \<Rightarrow> bool" where
  "set_legal s (SAdd v) = codec_typed (scodec s) v"
| "set_legal s (SDelete v) = codec_typed (scodec s) v"
| "set_legal s SEmpty = True"

definition stouched_of :: "SetBase \<Rightarrow> (jsval \<times> bool) list" where
  "stouched_of s = (case stouched s of None \<Rightarrow> [] | Some t \<Rightarrow> t)"

definition elem_ok :: "ElementCodec \<Rightarrow> jsval \<Rightarrow> bool" where
  "elem_ok c v = (codec_typed c v \<and> map_key v = v)"

definition set_typed :: "SetBase \<Rightarrow> bool" where
  "set_typed s = (is_key_codec (scodec s) \<and> list_all (elem_ok (scodec s)) (sset s))"

definition set_core :: "jsval set \<Rightarrow> SetBase \<Rightarrow> bool" where
  "set_core base s =
     (stracking s \<and> set_typed s
      \<and> (\<not> scleared s \<longrightarrow> distinct (map fst (stouched_of s))
           \<and> list_all (\<lambda>(v, was). elem_ok (scodec s) v \<and> was = (v \<in> base)) (stouched_of s)
           \<and> (\<forall>v. v \<notin> fst ` set (stouched_of s) \<longrightarrow> (v \<in> set (sset s)) = (v \<in> base))))"

definition set_inv :: "jsval set \<Rightarrow> SetBase \<Rightarrow> bool" where
  "set_inv base s = (set_core base s \<and> (\<not> sdirty s \<longrightarrow> stouched_of s = [] \<and> \<not> scleared s))"

lemma set_record_fields [simp]:
  "scodec (set_record v s) = scodec s" "sset (set_record v s) = sset s" "scleared (set_record v s) = scleared s"
  "stracking (set_record v s) = stracking s" "sdirty (set_record v s) = sdirty s"
  by (simp_all add: set_record_def Let_def)

lemma set_record_touched:
  assumes "stracking s" "\<not> scleared s"
  shows "stouched_of (set_record v s) =
    (if map_key v \<in> fst ` set (stouched_of s) then stouched_of s
     else AList.update (map_key v) (set_has v s) (stouched_of s))"
  using assms by (auto simp: set_record_def stouched_of_def Let_def simp flip: map_of_touched split: option.splits)

lemma set_record_core:
  assumes c: "set_core base s" and v: "codec_typed (scodec s) v"
  shows "set_core base (set_record v s)
    \<and> (\<not> scleared s \<longrightarrow> map_key v \<in> fst ` set (stouched_of (set_record v s)))"
proof (cases "scleared s \<or> map_key v \<in> fst ` set (stouched_of s)")
  case True
  then show ?thesis using c set_record_touched [of s v] by (auto simp: set_core_def set_typed_def)
next
  case False
  have t: "stracking s" "is_key_codec (scodec s)" using c by (auto simp: set_core_def set_typed_def)
  have "stouched_of (set_record v s) = stouched_of s @ [(map_key v, set_has v s)]"
    using False set_record_touched [OF t(1)] by (simp add: alist_update_new)
  moreover have "elem_ok (scodec s) (map_key v)" using map_key_typed [OF t(2) v] by (simp add: elem_ok_def)
  ultimately show ?thesis using c False by (auto simp: set_core_def set_typed_def set_has_def)
qed

lemma set_core_elems:
  assumes "set_core base s" "\<not> scleared s \<longrightarrow> v \<in> fst ` set (stouched_of s)"
    "list_all (elem_ok (scodec s)) xs" "\<And>u. u \<noteq> v \<Longrightarrow> (u \<in> set xs) = (u \<in> set (sset s))"
  shows "set_core base (s\<lparr>sset := xs\<rparr>)"
proof -
  have t: "stouched_of (s\<lparr>sset := xs\<rparr>) = stouched_of s" by (simp add: stouched_of_def)
  have "\<forall>u. u \<notin> fst ` set (stouched_of s) \<longrightarrow> (u \<in> set xs) = (u \<in> base)" if "\<not> scleared s"
    using assms(1,2,4) that unfolding set_core_def by metis
  with assms(1,3) show ?thesis unfolding set_core_def t by (simp add: set_typed_def)
qed

lemma set_markDirty_inv: "set_core base s \<Longrightarrow> set_inv base (set_markDirty s)"
  by (auto simp: set_inv_def set_core_def set_markDirty_def set_typed_def stouched_of_def)

lemma set_elems_inv:
  assumes i: "set_inv base s" and v: "codec_typed (scodec s) v"
    and xs: "list_all (elem_ok (scodec s)) xs" "\<And>u. u \<noteq> map_key v \<Longrightarrow> (u \<in> set xs) = (u \<in> set (sset s))"
  shows "set_inv base (set_markDirty ((set_record v s)\<lparr>sset := xs\<rparr>))"
proof (rule set_markDirty_inv)
  have r: "set_core base (set_record v s)" "\<not> scleared s \<longrightarrow> map_key v \<in> fst ` set (stouched_of (set_record v s))"
    using set_record_core [OF _ v] i by (auto simp: set_inv_def)
  show "set_core base ((set_record v s)\<lparr>sset := xs\<rparr>)"
    by (rule set_core_elems [OF r(1)]) (use r(2) xs in simp_all)
qed

lemma set_edit_inv:
  assumes i: "set_inv base s" and l: "set_legal s e"
  shows "set_inv base (set_edit e s) \<and> scodec (set_edit e s) = scodec s"
proof -
  have k: "is_key_codec (scodec s)" and el: "list_all (elem_ok (scodec s)) (sset s)" "stracking s"
    using i by (auto simp: set_inv_def set_core_def set_typed_def)
  have codec: "scodec (set_markDirty x) = scodec x" for x by (simp add: set_markDirty_def)
  show ?thesis
  proof (cases e)
    case (SAdd v)
    then have v: "codec_typed (scodec s) v" using l by simp
    then have "list_all (elem_ok (scodec s)) (sset s @ [map_key v])"
      using el map_key_typed [OF k] by (simp add: elem_ok_def)
    from set_elems_inv [OF i v this] i SAdd show ?thesis by (auto simp: set_add_def Let_def codec)
  next
    case (SDelete v)
    then have v: "codec_typed (scodec s) v" using l by simp
    have "list_all (elem_ok (scodec s)) (removeAll (map_key v) (sset s))" using el by (simp add: list_all_iff)
    from set_elems_inv [OF i v this] i SDelete show ?thesis by (auto simp: set_delete_def Let_def codec)
  next
    case SEmpty
    then show ?thesis using i el(2)
      by (auto simp: set_clear_def Let_def codec set_markDirty_def set_inv_def set_core_def set_typed_def)
  qed
qed

lemma set_add_applies:
  assumes "is_key_codec (scodec r)" "elem_ok (scodec r) v"
  shows "\<exists>xs. applies (attach (\<lambda>w. [nat_val 1, nat_val ref, w]) (codec_encode (scodec r) v)) (TSet r) (TSet (r\<lparr>sset := xs\<rparr>))
    \<and> set xs = insert v (set (sset r))"
proof (cases "v \<in> set (sset r)")
  case True
  then show ?thesis using assms key_exact [of "scodec r" v]
    by (intro exI [of _ "sset r"]) (auto simp: elem_ok_def attach_def apply_simps decode_primitive_def set_rAdd_def set_has_def intro!: applies_one)
next
  case False
  then show ?thesis using assms key_exact [of "scodec r" v]
    by (intro exI [of _ "sset r @ [v]"]) (auto simp: elem_ok_def attach_def apply_simps decode_primitive_def set_rAdd_def set_has_def intro!: applies_one)
qed

lemma set_remove_applies:
  assumes "is_key_codec (scodec r)" "elem_ok (scodec r) v" "v \<in> set (sset r)"
  shows "applies [[nat_val 2, nat_val ref, v]] (TSet r) (TSet (r\<lparr>sset := removeAll v (sset r)\<rparr>))"
  using assms key_exact [of "scodec r" v]
  by (auto simp: elem_ok_def apply_simps set_rDelete_def set_has_def intro!: applies_one)

lemma set_key_ops_apply:
  assumes "is_key_codec (scodec s)" "elem_ok (scodec s) v" "was = (v \<in> set (sset r))" "scodec r = scodec s"
  shows "\<exists>xs. applies (set_key_ops ref s (v, was)) (TSet r) (TSet (r\<lparr>sset := xs\<rparr>))
    \<and> set xs = (if v \<in> set (sset s) then insert v (set (sset r)) else set (sset r) - {v})"
proof -
  have kv: "map_key v = v" "is_primitive v" using assms(1,2) key_exact by (auto simp: elem_ok_def)
  have same: ?thesis if "set_key_ops ref s (v, was) = []"
    "set (sset r) = (if v \<in> set (sset s) then insert v (set (sset r)) else set (sset r) - {v})"
    by (rule exI [of _ "sset r"]) (use that in simp)
  consider "v \<in> set (sset s) \<longleftrightarrow> was" | "v \<in> set (sset s)" "\<not> was" | "v \<notin> set (sset s)" was by blast
  then show ?thesis
  proof cases
    case 1
    then show ?thesis using assms kv by (intro same) (auto simp: set_key_ops_def set_has_def)
  next
    case 2
    then show ?thesis using set_add_applies [of r v ref] assms kv by (simp add: set_key_ops_def set_has_def)
  next
    case 3
    then show ?thesis using set_remove_applies [of r v ref] assms kv
      by (intro exI [of _ "removeAll v (sset r)"]) (simp add: set_key_ops_def set_has_def)
  qed
qed

lemma set_touched_apply:
  "is_key_codec (scodec s) \<Longrightarrow> list_all (\<lambda>(v, was). elem_ok (scodec s) v \<and> was = (v \<in> set (sset r))) t \<Longrightarrow>
   distinct (map fst t) \<Longrightarrow> scodec r = scodec s \<Longrightarrow>
   \<exists>xs. applies (concat (map (set_key_ops ref s) t)) (TSet r) (TSet (r\<lparr>sset := xs\<rparr>))
     \<and> (\<forall>v. (v \<in> set xs) = (if v \<in> fst ` set t then v \<in> set (sset s) else v \<in> set (sset r)))"
proof (induction t arbitrary: r)
  case (Nil r)
  show ?case by (intro exI [of _ "sset r"]) simp
next
  case (Cons vw t)
  obtain v was where vw: "vw = (v, was)" by fastforce
  obtain xs where x: "applies (set_key_ops ref s vw) (TSet r) (TSet (r\<lparr>sset := xs\<rparr>))"
    "set xs = (if v \<in> set (sset s) then insert v (set (sset r)) else set (sset r) - {v})"
    using set_key_ops_apply [of s v was r ref] Cons.prems vw by auto
  let ?r = "r\<lparr>sset := xs\<rparr>"
  have "list_all (\<lambda>(u, was). elem_ok (scodec s) u \<and> was = (u \<in> set (sset ?r))) t"
    unfolding list_all_iff
  proof
    fix p assume p: "p \<in> set t"
    then have "fst p \<noteq> v" using Cons.prems(3) vw by (metis distinct.simps(2) fst_conv image_eqI list.set_map list.simps(9))
    then have "(fst p \<in> set (sset ?r)) = (fst p \<in> set (sset r))" using x(2) by auto
    with p Cons.prems(2) show "case p of (u, was) \<Rightarrow> elem_ok (scodec s) u \<and> was = (u \<in> set (sset ?r))"
      by (auto simp: list_all_iff)
  qed
  from Cons.IH [OF Cons.prems(1) this] Cons.prems(3,4)
  obtain ys where y: "applies (concat (map (set_key_ops ref s) t)) (TSet ?r) (TSet (r\<lparr>sset := ys\<rparr>))"
    "\<forall>u. (u \<in> set ys) = (if u \<in> fst ` set t then u \<in> set (sset s) else u \<in> set xs)" by auto
  show ?case
    by (rule exI [of _ ys]) (use applies_append [OF x(1) y(1)] y(2) x(2) vw Cons.prems(3) in auto)
qed

lemma set_elems_apply:
  "is_key_codec (scodec r) \<Longrightarrow> list_all (elem_ok (scodec r)) vs \<Longrightarrow>
   \<exists>xs. applies (concat (map (\<lambda>v. attach (\<lambda>w. [nat_val 1, nat_val ref, w]) (codec_encode (scodec r) v)) vs))
      (TSet r) (TSet (r\<lparr>sset := xs\<rparr>)) \<and> set xs = set (sset r) \<union> set vs"
proof (induction vs arbitrary: r)
  case (Nil r)
  show ?case by (intro exI [of _ "sset r"]) simp
next
  case (Cons v vs)
  obtain xs where x: "applies (attach (\<lambda>w. [nat_val 1, nat_val ref, w]) (codec_encode (scodec r) v)) (TSet r) (TSet (r\<lparr>sset := xs\<rparr>))"
    "set xs = insert v (set (sset r))" using set_add_applies [OF Cons.prems(1), of v ref] Cons.prems(2) by auto
  from Cons.IH [of "r\<lparr>sset := xs\<rparr>"] Cons.prems obtain ys where
    "applies (concat (map (\<lambda>v. attach (\<lambda>w. [nat_val 1, nat_val ref, w]) (codec_encode (scodec r) v)) vs))
      (TSet (r\<lparr>sset := xs\<rparr>)) (TSet (r\<lparr>sset := ys\<rparr>))" "set ys = set xs \<union> set vs" by auto
  with applies_append [OF x(1)] x(2) show ?case by (intro exI [of _ ys]) auto
qed

definition set_tick_ops :: "nat \<Rightarrow> SetBase \<Rightarrow> jsval list list" where
  "set_tick_ops ref s = (if sdirty s then set_ops ref s else [])"

definition set_commit :: "SetBase \<Rightarrow> SetBase" where
  "set_commit s = (if sdirty s then (set_clearChanges s)\<lparr>sdirty := False\<rparr> else s)"

fun set_synced :: "SetBase \<Rightarrow> target \<Rightarrow> bool" where
  "set_synced s (TSet r) =
     (scodec r = scodec s \<and> set_typed s \<and> stracking s \<and> \<not> sdirty s \<and> stouched_of s = [] \<and> \<not> scleared s
      \<and> set (sset r) = set (sset s))"
| "set_synced s _ = False"

fun set_pending :: "target \<Rightarrow> SetBase \<Rightarrow> bool" where
  "set_pending (TSet r) s = (scodec r = scodec s \<and> set_inv (set (sset r)) s)"
| "set_pending _ s = False"

lemma set_clear_applies: "applies [[nat_val 3, nat_val ref]] (TSet r) (TSet (r\<lparr>sset := []\<rparr>))"
  by (auto simp: apply_simps set_rClear_def intro!: applies_one)

lemma set_deliver:
  assumes i: "set_inv (set (sset r)) s" and r: "scodec r = scodec s"
  shows "\<exists>xs. applies (set_tick_ops ref s) (TSet r) (TSet (r\<lparr>sset := xs\<rparr>)) \<and> set xs = set (sset s)"
proof (cases "scleared s")
  case True
  have s: "sdirty s" "is_key_codec (scodec s)" "list_all (elem_ok (scodec s)) (sset s)"
    using i True by (auto simp: set_inv_def set_core_def set_typed_def)
  obtain xs where x: "applies (set_content ref s) (TSet (r\<lparr>sset := []\<rparr>)) (TSet (r\<lparr>sset := xs\<rparr>))" "set xs = set (sset s)"
    using set_elems_apply [of "r\<lparr>sset := []\<rparr>" "sset s" ref] s r by (auto simp: set_content_def)
  have "applies (set_tick_ops ref s) (TSet r) (TSet (r\<lparr>sset := xs\<rparr>))"
    using applies_append [OF set_clear_applies x(1)] s True by (simp add: set_tick_ops_def set_ops_def)
  with x(2) show ?thesis by blast
next
  case False
  have ops: "set_tick_ops ref s = concat (map (set_key_ops ref s) (stouched_of s))"
    using i False by (auto simp: set_tick_ops_def set_ops_def set_inv_def stouched_of_def split: option.splits)
  obtain xs where x: "applies (set_tick_ops ref s) (TSet r) (TSet (r\<lparr>sset := xs\<rparr>))"
    "\<forall>v. (v \<in> set xs) = (if v \<in> fst ` set (stouched_of s) then v \<in> set (sset s) else v \<in> set (sset r))"
    using set_touched_apply [of s r "stouched_of s" ref] i r False unfolding ops
    by (auto simp: set_inv_def set_core_def set_typed_def)
  have "(v \<in> set xs) = (v \<in> set (sset s))" for v using x(2) i False by (auto simp: set_inv_def set_core_def)
  with x(1) show ?thesis by blast
qed

interpretation set: tracked set_edit set_legal "set_tick_ops ref" set_commit set_synced set_pending
  for ref
proof
  fix s r e
  show "set_synced s r \<Longrightarrow> set_pending r s"
    by (cases r) (auto simp: set_inv_def set_core_def)
  show "set_pending r s \<Longrightarrow> set_legal s e \<Longrightarrow> set_pending r (set_edit e s)"
    using set_edit_inv by (cases r) auto
  show "set_pending r s \<Longrightarrow> set_legal s e \<Longrightarrow> set_legal (set_edit e s) = set_legal s"
    using set_edit_inv by (intro ext) (cases r; case_tac x; auto)
  show "\<exists>r'. applies (set_tick_ops ref s) r r' \<and> set_synced (set_commit s) r'" if "set_pending r s"
  proof -
    obtain b where r: "r = TSet b" "scodec b = scodec s" "set_inv (set (sset b)) s" using \<open>set_pending r s\<close> by (cases r) auto
    obtain xs where x: "applies (set_tick_ops ref s) r (TSet (b\<lparr>sset := xs\<rparr>))" "set xs = set (sset s)"
      using set_deliver [OF r(3,2)] r(1) by blast
    have "set_synced (set_commit s) (TSet (b\<lparr>sset := xs\<rparr>))"
      using r x(2) by (auto simp: set_commit_def set_clearChanges_def set_inv_def set_core_def set_typed_def stouched_of_def)
    with x(1) show ?thesis by blast
  qed
next
  fix s
  show "set_legal (set_commit s) = set_legal s"
    by (rule ext) (case_tac x; simp add: set_commit_def set_clearChanges_def)
qed

section \<open>Snapshots\<close>

text \<open>What a joining client is sent of a collection fills an empty replica with what the codec lets it see.\<close>

lemma replays_content:
  "list_all (codec_typed c) vs \<Longrightarrow>
   replays c (map (\<lambda>(i, v). AInsert i v) (zip [length xs..<length xs + length vs] vs)) xs = Some (xs @ map (element.seen c) vs)"
proof (induction vs arbitrary: xs)
  case (Cons v vs)
  have "[length xs..<length xs + length (v # vs)] = length xs # [length (xs @ [element.seen c v])..<length (xs @ [element.seen c v]) + length vs]"
    by (simp add: upt_rec)
  then show ?case using Cons.IH [of "xs @ [element.seen c v]"] Cons.prems by (simp add: insert_at_def)
qed simp

lemma array_content_applies:
  assumes "array_typed a" "acodec r = acodec a" "aitems r = []"
  shows "applies (array_content ref a) (TArray r) (TArray (r\<lparr>aitems := array_seen a\<rparr>))"
proof -
  let ?ops = "map (\<lambda>(i, v). AInsert i v) (zip [0..<length (aitems a)] (aitems a))"
  have "array_content ref a = concat (map (array_op ref (acodec r)) ?ops)"
    using assms(2) by (auto simp: array_content_def array_op_def comp_def intro!: arg_cong [where f = concat] map_cong)
  moreover have "replays (acodec r) ?ops (aitems r) = Some (array_seen a)"
    using replays_content [of "acodec a" "aitems a" "[]"] assms by (simp add: array_typed_def)
  ultimately show ?thesis using array_ops_apply [of r ?ops _ ref] by simp
qed

lemma map_content_applies:
  assumes "map_typed m" "mkey r = mkey m" "mval r = mval m" "mmap r = []"
  shows "\<exists>xs. applies (map_content ref m) (TMap r) (TMap (r\<lparr>mmap := xs\<rparr>)) \<and> (\<forall>k. map_of xs k = map_seen m k)"
proof -
  obtain xs where x: "applies (map_content ref m) (TMap r) (TMap (r\<lparr>mmap := xs\<rparr>))"
    "\<forall>k. map_of xs k = (case mview m k of None \<Rightarrow> mview r k | Some v \<Rightarrow> Some (element.seen (mval r) v))"
    using map_entries_apply [of r "mmap m" ref] assms by (auto simp: map_content_def map_typed_def)
  have "map_of xs k = map_seen m k" for k using x(2) assms(3,4) by (cases "mview m k") simp_all
  with x(1) show ?thesis by blast
qed

lemma set_content_applies:
  assumes "set_typed s" "scodec r = scodec s" "sset r = []"
  shows "\<exists>xs. applies (set_content ref s) (TSet r) (TSet (r\<lparr>sset := xs\<rparr>)) \<and> set xs = set (sset s)"
  using set_elems_apply [of r "sset s" ref] assms by (simp add: set_content_def set_typed_def)

end
