(* ===== verification/Runtime.thy ===== *)
theory Runtime
  imports Prelude "HOL-Library.AList"
begin

text \<open>
  What the event-driven components of the server share: operations run to completion one after
  another (callbacks and timers never interrupt one), so a component is a state and a step per
  event, and a run is a fold over the events; and the timers of \<open>types/src/clock.ts\<close>, by the
  ids \<open>SystemClock\<close> hands out. When a timer fires is up to the platform: the model lets any live
  timer fire at any moment, which covers every order of firing.
\<close>

section \<open>Runs\<close>

text \<open>The states a component can get to: \<open>legal s e\<close> says that event \<open>e\<close> can happen in state \<open>s\<close>.\<close>

inductive reach :: "('s \<Rightarrow> 'e \<Rightarrow> bool) \<Rightarrow> ('e \<Rightarrow> 's \<Rightarrow> 's) \<Rightarrow> 's \<Rightarrow> 's \<Rightarrow> bool"
  for legal :: "'s \<Rightarrow> 'e \<Rightarrow> bool" and step :: "'e \<Rightarrow> 's \<Rightarrow> 's" and s0 :: 's where
  start: "reach legal step s0 s0"
| event: "reach legal step s0 s \<Longrightarrow> legal s e \<Longrightarrow> reach legal step s0 (step e s)"

lemma reach_fold:
  assumes "reach legal step s0 s" "\<And>s e. legal s e"
  shows "reach legal step s0 (fold step es s)"
  using assms(1) by (induction es arbitrary: s) (auto intro: reach.event assms(2))

locale machine =
  fixes legal :: "'s \<Rightarrow> 'e \<Rightarrow> bool" and step :: "'e \<Rightarrow> 's \<Rightarrow> 's" and inv :: "'s \<Rightarrow> bool"
  assumes inv_step: "inv s \<Longrightarrow> legal s e \<Longrightarrow> inv (step e s)"
begin

lemma inv_reach: "reach legal step s0 s \<Longrightarrow> inv s0 \<Longrightarrow> inv s"
  by (induction rule: reach.induct) (auto intro: inv_step)

end

text \<open>
  A machine whose steps an abstract one matches: what a concrete event means to the abstract
  machine may depend on the state it happens in.
\<close>

locale refined = machine legal step inv
  for legal :: "'s \<Rightarrow> 'e \<Rightarrow> bool" and step :: "'e \<Rightarrow> 's \<Rightarrow> 's" and inv :: "'s \<Rightarrow> bool" +
  fixes spec :: "'e \<Rightarrow> 'a \<Rightarrow> 'a" and meaning :: "'s \<Rightarrow> 'e \<Rightarrow> 'e" and abs :: "'s \<Rightarrow> 'a"
  assumes matches: "inv s \<Longrightarrow> legal s e \<Longrightarrow> abs (step e s) = spec (meaning s e) (abs s)"
begin

lemma abs_reach:
  assumes "reach legal step s0 s" "inv s0"
  shows "reach (\<lambda>_ _. True) spec (abs s0) (abs s)"
  using assms
proof (induction rule: reach.induct)
  case (event s e)
  then have "abs (step e s) = spec (meaning s e) (abs s)" using inv_reach matches by blast
  with event show ?case using reach.event [of "\<lambda>_ _. True" spec "abs s0" "abs s" "meaning s e"] by simp
qed (rule reach.start)

end

section \<open>Timers\<close>

text \<open>The live timers with their delay and what their callback was given, and the next id.\<close>

record 'a clock =
  cnext :: nat
  ctimers :: "(nat \<times> rat \<times> 'a) list"

definition setTimeout :: "'a \<Rightarrow> rat \<Rightarrow> 'a clock \<Rightarrow> nat \<times> 'a clock" where
  "setTimeout callback ms c = (cnext c, c\<lparr>cnext := cnext c + 1, ctimers := AList.update (cnext c) (ms, callback) (ctimers c)\<rparr>)"

definition clearTimeout :: "nat \<Rightarrow> 'a clock \<Rightarrow> 'a clock" where
  "clearTimeout i c = c\<lparr>ctimers := AList.delete i (ctimers c)\<rparr>"

definition timer :: "'a clock \<Rightarrow> nat \<Rightarrow> 'a option" where
  "timer c i = map_option snd (map_of (ctimers c) i)"

text \<open>Ids are handed out in order, so a fresh one is not in use.\<close>

definition clock_ok :: "'a clock \<Rightarrow> bool" where
  "clock_ok c = (\<forall>i \<in> fst ` set (ctimers c). i < cnext c)"

lemma timer_setTimeout: "timer (snd (setTimeout cb ms c)) = (timer c)(fst (setTimeout cb ms c) \<mapsto> cb)"
  by (auto simp: timer_def setTimeout_def update_conv')

lemma timer_clearTimeout: "timer (clearTimeout i c) = (timer c)(i := None)"
  by (auto simp: timer_def clearTimeout_def delete_conv')

lemma timer_fresh: "clock_ok c \<Longrightarrow> timer c (fst (setTimeout cb ms c)) = None"
  by (force simp: timer_def setTimeout_def clock_ok_def map_of_eq_None_iff)

lemma timer_lt: "clock_ok c \<Longrightarrow> timer c i = Some cb \<Longrightarrow> i < cnext c"
  by (force simp: timer_def clock_ok_def dest: map_of_SomeD)

lemma clock_ok_setTimeout: "clock_ok c \<Longrightarrow> clock_ok (snd (setTimeout cb ms c))"
  by (auto simp: clock_ok_def setTimeout_def dom_update less_Suc_eq)

lemma clock_ok_clearTimeout: "clock_ok c \<Longrightarrow> clock_ok (clearTimeout i c)"
  by (auto simp: clock_ok_def clearTimeout_def AList.delete_eq)

end
