(* ===== verification/Locks.thy ===== *)
theory Locks
  imports Runtime
begin

unbundle bit_operations_syntax

text \<open>
  The cluster's creation locks (\<open>core/src/cluster/locks.ts\<close>): the choice of a pool's coordinator
  by rendezvous hashing, and the table of locks a process coordinates. A grant (the promise of
  \<open>acquire\<close> resolving) is returned by the operation that makes it. The table refines a queue of
  requests per pool, the holder at its head.
\<close>

section \<open>The coordinator of a pool\<close>

definition fnv1a :: "jsstring \<Rightarrow> 32 word" where
  "fnv1a text = foldl (\<lambda>hash c. (hash XOR ucast c) * 0x01000193) 0x811c9dc5 text"

definition pool_score :: "jsstring \<Rightarrow> jsstring \<Rightarrow> int" where
  "pool_score pool member = uint (fnv1a (pool @ [0] @ member))"

abbreviation string_less :: "jsstring \<Rightarrow> jsstring \<Rightarrow> bool" where
  "string_less \<equiv> ord_class.lexordp"

fun coordinator_loop :: "jsstring \<Rightarrow> jsstring list \<Rightarrow> jsstring option \<Rightarrow> int \<Rightarrow> jsstring option" where
  "coordinator_loop pool [] best bestScore = best"
| "coordinator_loop pool (member # members) best bestScore =
     (let score = pool_score pool member
      in if bestScore < score \<or> (score = bestScore \<and> (case best of None \<Rightarrow> False | Some b \<Rightarrow> string_less member b))
         then coordinator_loop pool members (Some member) score
         else coordinator_loop pool members best bestScore)"

definition coordinatorOf :: "jsstring \<Rightarrow> jsstring list \<Rightarrow> jsstring option" where
  "coordinatorOf pool members = coordinator_loop pool members None (-1)"

text \<open>Who wins between two members.\<close>

definition beats :: "jsstring \<Rightarrow> jsstring \<Rightarrow> jsstring \<Rightarrow> bool" where
  "beats pool a b = (pool_score pool b < pool_score pool a \<or> (pool_score pool a = pool_score pool b \<and> string_less a b))"

lemma beats_trans: "beats pool a b \<Longrightarrow> beats pool b c \<Longrightarrow> beats pool a c"
  unfolding beats_def using lexordp_trans by fastforce

lemma beats_irrefl: "\<not> beats pool a a"
  by (simp add: beats_def lexordp_irreflexive')

lemma beats_total: "a \<noteq> b \<Longrightarrow> beats pool a b \<or> beats pool b a"
  unfolding beats_def using lexordp_linear [of a b] by auto

lemma coordinator_loop_best:
  "coordinator_loop pool members (Some b) (pool_score pool b) = Some c \<Longrightarrow>
   c \<in> insert b (set members) \<and> (\<forall>m \<in> insert b (set members). m \<noteq> c \<longrightarrow> beats pool c m)"
proof (induction members arbitrary: b)
  case (Cons m members)
  show ?case
  proof (cases "beats pool m b")
    case True
    then have "c \<in> insert m (set members)" "\<forall>x \<in> insert m (set members). x \<noteq> c \<longrightarrow> beats pool c x"
      using Cons.IH [of m] Cons.prems by (auto simp: beats_def Let_def)
    moreover from this True have "b \<noteq> c \<Longrightarrow> beats pool c b"
      using beats_trans [of pool c m b] by (cases "c = m") auto
    ultimately show ?thesis by auto
  next
    case False
    then have "c \<in> insert b (set members)" "\<forall>x \<in> insert b (set members). x \<noteq> c \<longrightarrow> beats pool c x"
      using Cons.IH [of b] Cons.prems by (auto simp: beats_def Let_def)
    moreover from this False have "m \<noteq> c \<Longrightarrow> beats pool c m"
      using beats_trans [of pool c b m] beats_total [of m b pool] by (cases "c = b"; cases "m = b") auto
    ultimately show ?thesis by auto
  qed
qed simp

lemma coordinator_loop_some: "\<exists>c. coordinator_loop pool members (Some b) s = Some c"
  by (induction members arbitrary: b s) (simp_all add: Let_def)

lemma score_nonneg: "-1 < pool_score pool m"
  using uint_nonnegative [of "fnv1a (pool @ [0] @ m)"] unfolding pool_score_def by linarith

lemma coordinatorOf_iff:
  "coordinatorOf pool members = Some c \<longleftrightarrow> c \<in> set members \<and> (\<forall>m \<in> set members. m \<noteq> c \<longrightarrow> beats pool c m)"
proof (cases members)
  case (Cons m ms)
  have start: "coordinatorOf pool members = coordinator_loop pool ms (Some m) (pool_score pool m)"
    using Cons score_nonneg [of pool m] by (simp add: coordinatorOf_def Let_def)
  obtain d where d: "coordinator_loop pool ms (Some m) (pool_score pool m) = Some d"
    using coordinator_loop_some by blast
  have "d \<in> set members \<and> (\<forall>x \<in> set members. x \<noteq> d \<longrightarrow> beats pool d x)"
    using coordinator_loop_best [OF d] Cons by simp
  then show ?thesis using start d beats_trans beats_irrefl by (metis option.inject)
qed (simp add: coordinatorOf_def)

section \<open>The lock table\<close>

record Lease =
  lease_process :: jsstring
  lease_id :: jsstring
  lease_expiry :: nat

text \<open>The grant callback of a waiter was made by the call of \<open>acquire\<close>; what it knows is that call's pool.\<close>

record Waiter =
  waiter_process :: jsstring
  waiter_id :: jsstring
  waiter_grant :: jsstring

record Pool =
  holder :: "Lease option"
  queue :: "Waiter list"

text \<open>A timer's callback is \<open>release(pool, waiter.id)\<close>, so a timer carries the two.\<close>

record LockTable =
  lclock :: "(jsstring \<times> jsstring) clock"
  leaseMs :: rat
  lpools :: "(jsstring \<times> Pool) list"

definition pool_at :: "LockTable \<Rightarrow> jsstring \<Rightarrow> Pool option" where
  "pool_at t pool = map_of (lpools t) pool"

definition set_pool :: "jsstring \<Rightarrow> Pool \<Rightarrow> LockTable \<Rightarrow> LockTable" where
  "set_pool pool entry t = t\<lparr>lpools := AList.update pool entry (lpools t)\<rparr>"

definition forgetIfIdle :: "jsstring \<Rightarrow> Pool \<Rightarrow> LockTable \<Rightarrow> LockTable" where
  "forgetIfIdle pool entry t =
     (if holder entry = None \<and> queue entry = [] then t\<lparr>lpools := AList.delete pool (lpools t)\<rparr> else t)"

text \<open>An entry is an object the table holds; here it is written back where the source mutates it.\<close>

definition lock_next :: "jsstring \<Rightarrow> Pool \<Rightarrow> LockTable \<Rightarrow> LockTable \<times> Waiter list" where
  "lock_next pool entry t =
     (if holder entry \<noteq> None then (set_pool pool entry t, [])
      else case queue entry of
             [] \<Rightarrow> (forgetIfIdle pool entry (set_pool pool entry t), [])
           | waiter # rest \<Rightarrow>
               (case setTimeout (pool, waiter_id waiter) (leaseMs t) (lclock t) of
                  (expiry, c) \<Rightarrow>
                    let lease = \<lparr>lease_process = waiter_process waiter, lease_id = waiter_id waiter, lease_expiry = expiry\<rparr>
                    in (set_pool pool \<lparr>holder = Some lease, queue = rest\<rparr> (t\<lparr>lclock := c\<rparr>), [waiter])))"

definition acquire :: "jsstring \<Rightarrow> jsstring \<Rightarrow> jsstring \<Rightarrow> LockTable \<Rightarrow> LockTable \<times> Waiter list" where
  "acquire pool process i t =
     (let entry = (case pool_at t pool of None \<Rightarrow> \<lparr>holder = None, queue = []\<rparr> | Some e \<Rightarrow> e);
          entry = entry\<lparr>queue := queue entry @ [\<lparr>waiter_process = process, waiter_id = i, waiter_grant = pool\<rparr>]\<rparr>
      in lock_next pool entry t)"

fun remove_first :: "('a \<Rightarrow> bool) \<Rightarrow> 'a list \<Rightarrow> 'a list" where
  "remove_first P [] = []"
| "remove_first P (x # xs) = (if P x then xs else x # remove_first P xs)"

definition release :: "jsstring \<Rightarrow> jsstring \<Rightarrow> LockTable \<Rightarrow> LockTable \<times> Waiter list" where
  "release pool i t =
     (case pool_at t pool of
        None \<Rightarrow> (t, [])
      | Some entry \<Rightarrow>
          (case holder entry of
             Some lease \<Rightarrow>
               if lease_id lease = i then
                 lock_next pool (entry\<lparr>holder := None\<rparr>) (t\<lparr>lclock := clearTimeout (lease_expiry lease) (lclock t)\<rparr>)
               else
                 let entry = entry\<lparr>queue := remove_first (\<lambda>w. waiter_id w = i) (queue entry)\<rparr>
                 in (forgetIfIdle pool entry (set_pool pool entry t), [])
           | None \<Rightarrow>
               let entry = entry\<lparr>queue := remove_first (\<lambda>w. waiter_id w = i) (queue entry)\<rparr>
               in (forgetIfIdle pool entry (set_pool pool entry t), [])))"

text \<open>The body of the loop of \<open>processLost\<close> for one pool, and the loop.\<close>

definition lose_pool :: "jsstring \<Rightarrow> jsstring \<Rightarrow> LockTable \<Rightarrow> LockTable \<times> Waiter list" where
  "lose_pool process pool t =
     (case pool_at t pool of
        None \<Rightarrow> (t, [])
      | Some entry \<Rightarrow>
          let entry = entry\<lparr>queue := filter (\<lambda>w. waiter_process w \<noteq> process) (queue entry)\<rparr>;
              t = set_pool pool entry t
          in case holder entry of
               Some lease \<Rightarrow> if lease_process lease = process then release pool (lease_id lease) t else (forgetIfIdle pool entry t, [])
             | None \<Rightarrow> (forgetIfIdle pool entry t, []))"

fun lose_pools :: "jsstring \<Rightarrow> jsstring list \<Rightarrow> LockTable \<Rightarrow> LockTable \<times> Waiter list" where
  "lose_pools process [] t = (t, [])"
| "lose_pools process (pool # pools) t =
     (case lose_pool process pool t of (t, ws) \<Rightarrow> case lose_pools process pools t of (t, ws') \<Rightarrow> (t, ws @ ws'))"

definition processLost :: "jsstring \<Rightarrow> LockTable \<Rightarrow> LockTable \<times> Waiter list" where
  "processLost process t = lose_pools process (map fst (lpools t)) t"

definition clear_leases :: "(jsstring \<times> Pool) list \<Rightarrow> (jsstring \<times> jsstring) clock \<Rightarrow> (jsstring \<times> jsstring) clock" where
  "clear_leases ps c =
     foldl (\<lambda>c p. case holder (snd p) of None \<Rightarrow> c | Some lease \<Rightarrow> clearTimeout (lease_expiry lease) c) c ps"

definition locks_stop :: "LockTable \<Rightarrow> LockTable" where
  "locks_stop t = t\<lparr>lclock := clear_leases (lpools t) (lclock t), lpools := []\<rparr>"

text \<open>A live timer fires: it is gone from the clock, and its callback releases the lease.\<close>

definition expire :: "nat \<Rightarrow> LockTable \<Rightarrow> LockTable \<times> Waiter list" where
  "expire i t =
     (case timer (lclock t) i of
        None \<Rightarrow> (t, [])
      | Some (pool, lid) \<Rightarrow> release pool lid (t\<lparr>lclock := clearTimeout i (lclock t)\<rparr>))"

section \<open>Events\<close>

datatype LockEvent =
    LAcquire jsstring jsstring jsstring
  | LRelease jsstring jsstring
  | LLost jsstring
  | LExpire nat
  | LStop

fun lock_op :: "LockEvent \<Rightarrow> LockTable \<Rightarrow> LockTable \<times> Waiter list" where
  "lock_op (LAcquire pool process i) t = acquire pool process i t"
| "lock_op (LRelease pool i) t = release pool i t"
| "lock_op (LLost process) t = processLost process t"
| "lock_op (LExpire n) t = expire n t"
| "lock_op LStop t = (locks_stop t, [])"

definition lock_step :: "LockEvent \<Rightarrow> LockTable \<Rightarrow> LockTable" where
  "lock_step e t = fst (lock_op e t)"

definition new_locks :: "rat \<Rightarrow> LockTable" where
  "new_locks ms = \<lparr>lclock = \<lparr>cnext = 1, ctimers = []\<rparr>, leaseMs = ms, lpools = []\<rparr>"

section \<open>The abstract lock: a queue of requests per pool\<close>

type_synonym requests = "jsstring \<Rightarrow> (jsstring \<times> jsstring) list"

abbreviation req :: "Waiter \<Rightarrow> jsstring \<times> jsstring" where
  "req w \<equiv> (waiter_process w, waiter_id w)"

definition pool_requests :: "Pool \<Rightarrow> (jsstring \<times> jsstring) list" where
  "pool_requests e = (case holder e of None \<Rightarrow> [] | Some l \<Rightarrow> [(lease_process l, lease_id l)]) @ map req (queue e)"

definition lock_abs :: "LockTable \<Rightarrow> requests" where
  "lock_abs t pool = (case pool_at t pool of None \<Rightarrow> [] | Some e \<Rightarrow> pool_requests e)"

fun lock_spec :: "LockEvent \<Rightarrow> requests \<Rightarrow> requests" where
  "lock_spec (LAcquire pool process i) A = A(pool := A pool @ [(process, i)])"
| "lock_spec (LRelease pool i) A = A(pool := remove_first (\<lambda>r. snd r = i) (A pool))"
| "lock_spec (LLost process) A = (\<lambda>pool. filter (\<lambda>r. fst r \<noteq> process) (A pool))"
| "lock_spec (LExpire n) A = A"
| "lock_spec LStop A = (\<lambda>pool. [])"

text \<open>A timer that fires stands for the release of the lease it was set for.\<close>

fun lock_event :: "LockTable \<Rightarrow> LockEvent \<Rightarrow> LockEvent" where
  "lock_event t (LExpire n) = (case timer (lclock t) n of None \<Rightarrow> LExpire n | Some (pool, i) \<Rightarrow> LRelease pool i)"
| "lock_event t e = e"

section \<open>The invariant\<close>

text \<open>A pool in the table has a holder whose expiry timer is live.\<close>

definition pool_ok :: "(jsstring \<times> jsstring) clock \<Rightarrow> jsstring \<Rightarrow> Pool \<Rightarrow> bool" where
  "pool_ok c pool e = (\<exists>l. holder e = Some l \<and> timer c (lease_expiry l) = Some (pool, lease_id l))"

text \<open>All pools but \<open>p\<close> are in order, no timer is for \<open>p\<close>, and every other timer is some holder's.\<close>

definition locks_but :: "jsstring \<Rightarrow> LockTable \<Rightarrow> bool" where
  "locks_but p t =
     (clock_ok (lclock t) \<and> distinct (map fst (lpools t))
      \<and> (\<forall>pool e. pool \<noteq> p \<longrightarrow> pool_at t pool = Some e \<longrightarrow> pool_ok (lclock t) pool e)
      \<and> (\<forall>i pool lid. timer (lclock t) i = Some (pool, lid) \<longrightarrow>
            pool \<noteq> p \<and> (\<exists>e l. pool_at t pool = Some e \<and> holder e = Some l \<and> lease_expiry l = i)))"

definition lock_inv :: "LockTable \<Rightarrow> bool" where
  "lock_inv t =
     (clock_ok (lclock t) \<and> distinct (map fst (lpools t))
      \<and> (\<forall>pool e. pool_at t pool = Some e \<longrightarrow> pool_ok (lclock t) pool e)
      \<and> (\<forall>i pool lid. timer (lclock t) i = Some (pool, lid) \<longrightarrow>
            (\<exists>e l. pool_at t pool = Some e \<and> holder e = Some l \<and> lease_expiry l = i)))"

lemma lock_inv_pool:
  assumes "lock_inv t" "pool_at t pool = Some e"
  obtains l where "holder e = Some l" "timer (lclock t) (lease_expiry l) = Some (pool, lease_id l)"
  using assms unfolding lock_inv_def pool_ok_def by blast

lemma lock_inv_timer:
  assumes "lock_inv t" "timer (lclock t) i = Some (pool, lid)"
  obtains e l where "pool_at t pool = Some e" "holder e = Some l" "lease_expiry l = i"
  using assms unfolding lock_inv_def by blast

lemma locks_but_timer:
  assumes "locks_but p t" "timer (lclock t) i = Some (pool, lid)"
  obtains e l where "pool \<noteq> p" "pool_at t pool = Some e" "holder e = Some l" "lease_expiry l = i"
  using assms unfolding locks_but_def by blast

lemma pool_at_set_pool: "pool_at (set_pool pool e t) = (pool_at t)(pool \<mapsto> e)"
  by (auto simp: pool_at_def set_pool_def update_conv')

lemma set_pool_fields [simp]: "lclock (set_pool pool e t) = lclock t" "leaseMs (set_pool pool e t) = leaseMs t"
  by (simp_all add: set_pool_def)

lemma set_pool_distinct: "distinct (map fst (lpools t)) \<Longrightarrow> distinct (map fst (lpools (set_pool pool e t)))"
  by (simp add: set_pool_def distinct_update)

lemma pool_at_clock [simp]: "pool_at (t\<lparr>lclock := c\<rparr>) = pool_at t"
  by (auto simp: pool_at_def)

lemma pool_at_delete: "pool_at (t\<lparr>lpools := AList.delete pool (lpools t)\<rparr>) = (pool_at t)(pool := None)"
  by (auto simp: pool_at_def delete_conv')

lemma lock_abs_set: "lock_abs (set_pool pool e t) = (lock_abs t)(pool := pool_requests e)"
  by (auto simp: lock_abs_def pool_at_set_pool)

lemma lock_abs_clock [simp]: "lock_abs (t\<lparr>lclock := c\<rparr>) = lock_abs t"
  by (auto simp: lock_abs_def)

lemma lock_abs_delete: "lock_abs (t\<lparr>lpools := AList.delete pool (lpools t)\<rparr>) = (lock_abs t)(pool := [])"
  by (auto simp: lock_abs_def pool_at_delete)

text \<open>Writing back an entry with the holder it had.\<close>

lemma lock_inv_set:
  assumes "lock_inv t" "pool_at t pool = Some e" "holder e' = holder e"
  shows "lock_inv (set_pool pool e' t)"
  unfolding lock_inv_def
proof (intro conjI allI impI)
  show "clock_ok (lclock (set_pool pool e' t))" "distinct (map fst (lpools (set_pool pool e' t)))"
    using assms(1) by (simp_all add: lock_inv_def set_pool_distinct)
next
  fix q d assume "pool_at (set_pool pool e' t) q = Some d"
  moreover have "pool_ok (lclock t) pool e'" using assms lock_inv_pool [OF assms(1,2)] by (auto simp: pool_ok_def)
  ultimately show "pool_ok (lclock (set_pool pool e' t)) q d"
    using assms(1) by (auto simp: lock_inv_def pool_at_set_pool split: if_splits)
next
  fix i q lid assume "timer (lclock (set_pool pool e' t)) i = Some (q, lid)"
  then obtain d l where "pool_at t q = Some d" "holder d = Some l" "lease_expiry l = i"
    by (auto elim: lock_inv_timer [OF assms(1)])
  with assms(2,3) show "\<exists>d l. pool_at (set_pool pool e' t) q = Some d \<and> holder d = Some l \<and> lease_expiry l = i"
    by (auto simp: pool_at_set_pool)
qed

lemma lock_inv_delete: "locks_but pool t \<Longrightarrow> lock_inv (t\<lparr>lpools := AList.delete pool (lpools t)\<rparr>)"
  unfolding lock_inv_def locks_but_def by (auto simp: pool_at_delete distinct_delete split: if_splits)

text \<open>\<open>_next\<close> on an entry without a holder puts the pool in order and grants the first waiter.\<close>

lemma lock_next_free:
  assumes "locks_but pool t" "holder e = None"
  shows "lock_inv (fst (lock_next pool e t)) \<and> lock_abs (fst (lock_next pool e t)) = (lock_abs t)(pool := map req (queue e))
    \<and> snd (lock_next pool e t) = take 1 (queue e)"
proof (cases "queue e")
  case Nil
  have "locks_but pool (set_pool pool e t)"
    using assms(1) set_pool_distinct [of t pool e] by (auto simp: locks_but_def pool_at_set_pool)
  from lock_inv_delete [OF this] show ?thesis using Nil assms(2) lock_abs_delete [of pool "set_pool pool e t"] lock_abs_set [of pool e t]
    by (simp add: lock_next_def forgetIfIdle_def set_pool_def)
next
  case (Cons w rest)
  let ?c = "snd (setTimeout (pool, waiter_id w) (leaseMs t) (lclock t))" and ?i = "fst (setTimeout (pool, waiter_id w) (leaseMs t) (lclock t))"
  let ?l = "\<lparr>lease_process = waiter_process w, lease_id = waiter_id w, lease_expiry = ?i\<rparr>"
  let ?t = "set_pool pool \<lparr>holder = Some ?l, queue = rest\<rparr> (t\<lparr>lclock := ?c\<rparr>)"
  have n: "lock_next pool e t = (?t, [w])"
    using Cons assms(2) by (simp add: lock_next_def Let_def split: prod.splits)
  have c: "clock_ok (lclock t)" using assms(1) by (simp add: locks_but_def)
  have tm: "timer ?c j = (if j = ?i then Some (pool, waiter_id w) else timer (lclock t) j)" for j
    by (simp add: timer_setTimeout)
  have fresh: "timer (lclock t) ?i = None" by (rule timer_fresh [OF c])
  have "lock_inv ?t"
    unfolding lock_inv_def
  proof (intro conjI allI impI)
    show "clock_ok (lclock ?t)" by (simp add: clock_ok_setTimeout [OF c])
    show "distinct (map fst (lpools ?t))" using assms(1) by (intro set_pool_distinct) (simp add: locks_but_def)
  next
    fix q e' assume "pool_at ?t q = Some e'"
    moreover have "pool_ok (lclock t) q e' \<Longrightarrow> pool_ok ?c q e'"
      using fresh unfolding pool_ok_def tm by (metis option.distinct(1))
    ultimately show "pool_ok (lclock ?t) q e'"
      using assms(1) unfolding locks_but_def
      by (cases "q = pool") (auto simp: pool_at_set_pool tm pool_ok_def)
  next
    fix j q lid assume "timer (lclock ?t) j = Some (q, lid)"
    then show "\<exists>e l. pool_at ?t q = Some e \<and> holder e = Some l \<and> lease_expiry l = j"
      by (cases "j = ?i") (auto simp: pool_at_set_pool tm elim!: locks_but_timer [OF assms(1)])
  qed
  then show ?thesis using n Cons by (simp add: lock_abs_set pool_requests_def)
qed

text \<open>Ending the holder's lease takes its timer with it.\<close>

lemma end_lease:
  assumes "lock_inv t" "pool_at t pool = Some e" "holder e = Some l"
  shows "locks_but pool (t\<lparr>lclock := clearTimeout (lease_expiry l) (lclock t)\<rparr>)"
proof -
  have tl: "timer (lclock t) (lease_expiry l) = Some (pool, lease_id l)"
    using assms unfolding lock_inv_def pool_ok_def by force
  show ?thesis unfolding locks_but_def
  proof (intro conjI allI impI)
    show "clock_ok (lclock (t\<lparr>lclock := clearTimeout (lease_expiry l) (lclock t)\<rparr>))"
      "distinct (map fst (lpools (t\<lparr>lclock := clearTimeout (lease_expiry l) (lclock t)\<rparr>)))"
      using assms(1) by (simp_all add: lock_inv_def clock_ok_clearTimeout)
  next
    fix q e' assume q: "q \<noteq> pool" "pool_at (t\<lparr>lclock := clearTimeout (lease_expiry l) (lclock t)\<rparr>) q = Some e'"
    then obtain l' where l': "holder e' = Some l'" "timer (lclock t) (lease_expiry l') = Some (q, lease_id l')"
      using assms(1) unfolding lock_inv_def pool_ok_def by force
    with tl q(1) have "lease_expiry l' \<noteq> lease_expiry l" by auto
    with l' show "pool_ok (lclock (t\<lparr>lclock := clearTimeout (lease_expiry l) (lclock t)\<rparr>)) q e'"
      by (simp add: pool_ok_def timer_clearTimeout)
  next
    fix j q lid assume j: "timer (lclock (t\<lparr>lclock := clearTimeout (lease_expiry l) (lclock t)\<rparr>)) j = Some (q, lid)"
    then have ne: "j \<noteq> lease_expiry l" and old: "timer (lclock t) j = Some (q, lid)"
      by (auto simp: timer_clearTimeout split: if_splits)
    from old obtain e' l' where e': "pool_at t q = Some e'" "holder e' = Some l'" "lease_expiry l' = j"
      using assms(1) unfolding lock_inv_def by blast
    with ne assms(2,3) show "q \<noteq> pool" by auto
    from e' show "\<exists>e l'. pool_at (t\<lparr>lclock := clearTimeout (lease_expiry l) (lclock t)\<rparr>) q = Some e \<and> holder e = Some l' \<and> lease_expiry l' = j"
      by simp
  qed
qed

section \<open>Every operation\<close>

lemma lock_inv_new: "lock_inv (new_locks ms)"
  by (simp add: lock_inv_def new_locks_def clock_ok_def pool_at_def timer_def)

lemma acquire_refines:
  assumes "lock_inv t"
  shows "lock_inv (fst (acquire pool process i t))
    \<and> lock_abs (fst (acquire pool process i t)) = lock_spec (LAcquire pool process i) (lock_abs t)"
proof (cases "pool_at t pool")
  case None
  have "locks_but pool t" using assms None unfolding lock_inv_def locks_but_def by fastforce
  from lock_next_free [OF this] show ?thesis using None by (simp add: acquire_def lock_abs_def)
next
  case (Some e)
  let ?e = "e\<lparr>queue := queue e @ [\<lparr>waiter_process = process, waiter_id = i, waiter_grant = pool\<rparr>]\<rparr>"
  have h: "holder e \<noteq> None" using lock_inv_pool [OF assms Some] by auto
  then show ?thesis using Some lock_inv_set [OF assms Some, of ?e] lock_abs_set [of pool ?e t]
    by (auto simp: acquire_def lock_next_def lock_abs_def pool_requests_def)
qed

text \<open>Taking a waiter out of the queue, as a release of one not yet granted or the loss of its process does.\<close>

lemma drop_waiters:
  assumes "lock_inv t" "pool_at t pool = Some e"
  shows "lock_inv (forgetIfIdle pool (e\<lparr>queue := ws\<rparr>) (set_pool pool (e\<lparr>queue := ws\<rparr>) t))
    \<and> lock_abs (forgetIfIdle pool (e\<lparr>queue := ws\<rparr>) (set_pool pool (e\<lparr>queue := ws\<rparr>) t))
      = (lock_abs t)(pool := pool_requests (e\<lparr>queue := ws\<rparr>))"
proof -
  have "holder e \<noteq> None" using lock_inv_pool [OF assms] by auto
  then show ?thesis using lock_inv_set [OF assms, of "e\<lparr>queue := ws\<rparr>"] by (auto simp: forgetIfIdle_def lock_abs_set)
qed

lemma remove_first_map: "remove_first P (map f xs) = map f (remove_first (P \<circ> f) xs)"
  by (induction xs) auto

lemma release_refines:
  assumes "lock_inv t"
  shows "lock_inv (fst (release pool i t)) \<and> lock_abs (fst (release pool i t)) = lock_spec (LRelease pool i) (lock_abs t)"
proof (cases "pool_at t pool")
  case None
  then show ?thesis using assms by (auto simp: release_def lock_abs_def)
next
  case (Some e)
  obtain l where l: "holder e = Some l" using lock_inv_pool [OF assms Some] by auto
  have a: "lock_abs t pool = (lease_process l, lease_id l) # map req (queue e)"
    using Some l by (simp add: lock_abs_def pool_requests_def)
  show ?thesis
  proof (cases "lease_id l = i")
    case True
    have "release pool i t = lock_next pool (e\<lparr>holder := None\<rparr>) (t\<lparr>lclock := clearTimeout (lease_expiry l) (lclock t)\<rparr>)"
      using Some l True by (simp add: release_def)
    then show ?thesis
      using lock_next_free [OF end_lease [OF assms Some l], of "e\<lparr>holder := None\<rparr>"] True a by simp
  next
    case False
    then show ?thesis using drop_waiters [OF assms Some, of "remove_first (\<lambda>w. waiter_id w = i) (queue e)"] Some l a
      by (auto simp: release_def Let_def pool_requests_def remove_first_map comp_def)
  qed
qed

lemma lose_pool_refines:
  assumes "lock_inv t"
  shows "lock_inv (fst (lose_pool process pool t))
    \<and> lock_abs (fst (lose_pool process pool t)) = (lock_abs t)(pool := filter (\<lambda>r. fst r \<noteq> process) (lock_abs t pool))"
proof (cases "pool_at t pool")
  case None
  then show ?thesis using assms by (auto simp: lose_pool_def lock_abs_def)
next
  case (Some e)
  let ?ws = "filter (\<lambda>w. waiter_process w \<noteq> process) (queue e)"
  let ?e = "e\<lparr>queue := ?ws\<rparr>" and ?t = "set_pool pool (e\<lparr>queue := ?ws\<rparr>) t"
  obtain l where l: "holder e = Some l" using lock_inv_pool [OF assms Some] by auto
  have i: "lock_inv ?t" by (rule lock_inv_set [OF assms Some]) simp
  have a: "lock_abs t pool = (lease_process l, lease_id l) # map req (queue e)"
    using Some l by (simp add: lock_abs_def pool_requests_def)
  have a': "lock_abs ?t = (lock_abs t)(pool := (lease_process l, lease_id l) # map req ?ws)"
    using l by (simp add: lock_abs_set pool_requests_def)
  show ?thesis
  proof (cases "lease_process l = process")
    case True
    then have "lose_pool process pool t = release pool (lease_id l) ?t" using Some l by (simp add: lose_pool_def Let_def)
    then show ?thesis using release_refines [OF i, of pool "lease_id l"] a a' True by (simp add: filter_map comp_def)
  next
    case False
    then show ?thesis using drop_waiters [OF assms Some, of ?ws] Some l a
      by (auto simp: lose_pool_def Let_def pool_requests_def filter_map comp_def)
  qed
qed

lemma lose_pools_refines:
  "lock_inv t \<Longrightarrow> lock_inv (fst (lose_pools process pools t))
    \<and> lock_abs (fst (lose_pools process pools t)) = (\<lambda>pool. if pool \<in> set pools then filter (\<lambda>r. fst r \<noteq> process) (lock_abs t pool) else lock_abs t pool)"
proof (induction pools arbitrary: t)
  case (Cons pool pools)
  obtain t1 ws where t1: "lose_pool process pool t = (t1, ws)" by fastforce
  have "lock_inv t1" "lock_abs t1 = (lock_abs t)(pool := filter (\<lambda>r. fst r \<noteq> process) (lock_abs t pool))"
    using lose_pool_refines [OF Cons.prems, of process pool] t1 by simp_all
  with Cons.IH [of t1] t1 show ?case by (auto simp: fun_eq_iff split: prod.splits)
qed simp

lemma lost_refines:
  assumes "lock_inv t"
  shows "lock_inv (fst (processLost process t)) \<and> lock_abs (fst (processLost process t)) = lock_spec (LLost process) (lock_abs t)"
proof -
  have "lock_abs t pool = []" if "pool \<notin> fst ` set (lpools t)" for pool
    using that by (simp add: lock_abs_def pool_at_def map_of_eq_None_iff [THEN iffD2])
  then show ?thesis using lose_pools_refines [OF assms, of process "map fst (lpools t)"]
    by (auto simp: processLost_def fun_eq_iff)
qed

text \<open>A timer that fires is its pool's holder's, so the release that follows ends that lease.\<close>

lemma expire_eq_release:
  assumes "lock_inv t" "timer (lclock t) n = Some (pool, i)"
  shows "expire n t = release pool i t"
proof -
  obtain e l where e: "pool_at t pool = Some e" "holder e = Some l" "lease_expiry l = n"
    by (rule lock_inv_timer [OF assms])
  have "lease_id l = i" using lock_inv_pool [OF assms(1) e(1)] e assms(2) by auto
  moreover have "clearTimeout n (clearTimeout n (lclock t)) = clearTimeout n (lclock t)"
    by (simp add: clearTimeout_def delete_idem)
  ultimately show ?thesis using e assms(2) by (simp add: expire_def release_def)
qed

lemma expire_refines:
  assumes "lock_inv t"
  shows "lock_inv (fst (expire n t)) \<and> lock_abs (fst (expire n t)) = lock_spec (lock_event t (LExpire n)) (lock_abs t)"
proof (cases "timer (lclock t) n")
  case None
  then show ?thesis using assms by (simp add: expire_def)
next
  case (Some p)
  then show ?thesis using expire_eq_release [OF assms, of n "fst p" "snd p"] release_refines [OF assms, of "fst p" "snd p"]
    by (cases p) simp
qed

lemma timer_clear_leases:
  "timer (clear_leases ps c) i
    = (if \<exists>p \<in> set ps. \<exists>l. holder (snd p) = Some l \<and> lease_expiry l = i then None else timer c i)"
  unfolding clear_leases_def
  by (induction ps arbitrary: c) (auto simp: timer_clearTimeout split: option.splits)

lemma clock_ok_clear_leases: "clock_ok c \<Longrightarrow> clock_ok (clear_leases ps c)"
  unfolding clear_leases_def by (induction ps arbitrary: c) (auto simp: clock_ok_clearTimeout split: option.splits)

lemma stop_refines:
  assumes "lock_inv t"
  shows "lock_inv (locks_stop t) \<and> lock_abs (locks_stop t) = lock_spec LStop (lock_abs t)"
proof -
  have "timer (lclock (locks_stop t)) i = None" for i
  proof (cases "timer (lclock t) i")
    case None
    then show ?thesis by (simp add: locks_stop_def timer_clear_leases)
  next
    case (Some p)
    then obtain e l where e: "pool_at t (fst p) = Some e" "holder e = Some l" "lease_expiry l = i"
      using lock_inv_timer [OF assms, of i "fst p" "snd p"] by auto
    from e(1) have "(fst p, e) \<in> set (lpools t)" by (auto simp: pool_at_def dest: map_of_SomeD)
    with e(2,3) have "\<exists>p \<in> set (lpools t). \<exists>l. holder (snd p) = Some l \<and> lease_expiry l = i" by force
    then show ?thesis by (simp add: locks_stop_def timer_clear_leases)
  qed
  moreover have "clock_ok (lclock (locks_stop t))" using assms by (simp add: locks_stop_def clock_ok_clear_leases lock_inv_def)
  ultimately show ?thesis by (auto simp: lock_inv_def locks_stop_def pool_at_def lock_abs_def fun_eq_iff)
qed

lemmas lock_refines = acquire_refines release_refines lost_refines expire_refines stop_refines

interpretation lock: refined "\<lambda>_ _. True" lock_step lock_inv lock_spec lock_event lock_abs
proof
  fix t e assume i: "lock_inv t"
  show "lock_inv (lock_step e t)" by (cases e) (use lock_refines [OF i] in \<open>simp_all add: lock_step_def\<close>)
  show "lock_abs (lock_step e t) = lock_spec (lock_event t e) (lock_abs t)"
    by (cases e) (use lock_refines [OF i] in \<open>simp_all add: lock_step_def\<close>)
qed

section \<open>Grants and waiting\<close>

text \<open>Who holds a pool's lock, as the table says it, is the head of the pool's queue.\<close>

definition holder_of :: "LockTable \<Rightarrow> jsstring \<Rightarrow> (jsstring \<times> jsstring) option" where
  "holder_of t pool =
     (case pool_at t pool of None \<Rightarrow> None
      | Some e \<Rightarrow> map_option (\<lambda>l. (lease_process l, lease_id l)) (holder e))"

lemma holder_of_abs: "lock_inv t \<Longrightarrow> holder_of t pool = (case lock_abs t pool of [] \<Rightarrow> None | r # rs \<Rightarrow> Some r)"
  by (cases "pool_at t pool") (auto simp: holder_of_def lock_abs_def pool_requests_def elim: lock_inv_pool)

text \<open>The holder's timer fires.\<close>

definition expire_holder :: "jsstring \<Rightarrow> LockTable \<Rightarrow> LockTable" where
  "expire_holder pool t =
     (case pool_at t pool of None \<Rightarrow> t
      | Some e \<Rightarrow> (case holder e of None \<Rightarrow> t | Some l \<Rightarrow> lock_step (LExpire (lease_expiry l)) t))"

lemma expire_holder_abs:
  assumes "lock_inv t"
  shows "lock_inv (expire_holder pool t) \<and> lock_abs (expire_holder pool t) pool = tl (lock_abs t pool)"
proof (cases "pool_at t pool")
  case None
  then show ?thesis using assms by (simp add: expire_holder_def lock_abs_def)
next
  case (Some e)
  then obtain l where l: "holder e = Some l" "timer (lclock t) (lease_expiry l) = Some (pool, lease_id l)"
    by (rule lock_inv_pool [OF assms])
  then show ?thesis using Some lock.inv_step [OF assms TrueI] lock.matches [OF assms TrueI, of "LExpire (lease_expiry l)"]
    by (simp add: expire_holder_def lock_abs_def [of t] pool_requests_def)
qed

lemma expire_holders:
  "lock_inv t \<Longrightarrow> lock_inv ((expire_holder pool ^^ n) t) \<and> lock_abs ((expire_holder pool ^^ n) t) pool = drop n (lock_abs t pool)"
  by (induction n) (use expire_holder_abs in \<open>auto simp: drop_Suc tl_drop\<close>)

text \<open>Whom an operation grants the lock, in terms of the pool's queue before it.\<close>

lemma acquire_grants:
  assumes "lock_inv t"
  shows "map req (snd (acquire pool process i t)) = (if lock_abs t pool = [] then [(process, i)] else [])"
proof (cases "pool_at t pool")
  case None
  have "locks_but pool t" using assms None unfolding lock_inv_def locks_but_def by fastforce
  from lock_next_free [OF this] show ?thesis using None by (simp add: acquire_def lock_abs_def)
next
  case (Some e)
  have "holder e \<noteq> None" using lock_inv_pool [OF assms Some] by auto
  then show ?thesis using Some by (auto simp: acquire_def lock_next_def lock_abs_def pool_requests_def)
qed

lemma release_grants:
  assumes "lock_inv t"
  shows "map req (snd (release pool i t))
    = (case lock_abs t pool of [] \<Rightarrow> [] | r # rs \<Rightarrow> if snd r = i then take 1 rs else [])"
proof (cases "pool_at t pool")
  case None
  then show ?thesis by (simp add: release_def lock_abs_def)
next
  case (Some e)
  obtain l where l: "holder e = Some l" using lock_inv_pool [OF assms Some] by auto
  then show ?thesis
    using Some lock_next_free [OF end_lease [OF assms Some l], of "e\<lparr>holder := None\<rparr>"]
    by (simp add: release_def lock_abs_def pool_requests_def take_map Let_def)
qed

section \<open>Whoever is granted a lock holds it\<close>

definition grant_ok :: "LockTable \<Rightarrow> bool" where
  "grant_ok t = (\<forall>pool e. pool_at t pool = Some e \<longrightarrow> (\<forall>w \<in> set (queue e). waiter_grant w = pool))"

text \<open>What an operation on one pool promises: its grants are true, and the other pools are as they were.\<close>

definition grants_in :: "jsstring \<Rightarrow> LockTable \<Rightarrow> LockTable \<times> Waiter list \<Rightarrow> bool" where
  "grants_in pool t r =
     (grant_ok (fst r) \<and> (\<forall>w \<in> set (snd r). waiter_grant w = pool \<and> holder_of (fst r) pool = Some (req w))
      \<and> (\<forall>q. q \<noteq> pool \<longrightarrow> pool_at (fst r) q = pool_at t q))"

lemma pool_at_forget: "pool_at (forgetIfIdle pool e t) q = (if q = pool \<and> holder e = None \<and> queue e = [] then None else pool_at t q)"
  by (simp add: forgetIfIdle_def pool_at_delete)

lemma grant_ok_clock [simp]: "grant_ok (t\<lparr>lclock := c\<rparr>) = grant_ok t"
  by (simp add: grant_ok_def)

lemma grant_ok_set: "grant_ok t \<Longrightarrow> \<forall>w \<in> set (queue e). waiter_grant w = pool \<Longrightarrow> grant_ok (set_pool pool e t)"
  by (auto simp: grant_ok_def pool_at_set_pool)

lemma grant_ok_forget: "grant_ok t \<Longrightarrow> grant_ok (forgetIfIdle pool e t)"
  by (auto simp: grant_ok_def pool_at_forget split: if_splits)

lemma lock_next_grants:
  assumes "grant_ok t" "\<forall>w \<in> set (queue e). waiter_grant w = pool"
  shows "grants_in pool t (lock_next pool e t)"
  using assms
  by (auto simp: lock_next_def grants_in_def grant_ok_set grant_ok_forget pool_at_set_pool pool_at_forget holder_of_def Let_def
      split: list.splits prod.splits)

lemma forget_grants:
  assumes "grant_ok t" "\<forall>w \<in> set (queue e). waiter_grant w = pool"
  shows "grants_in pool t (forgetIfIdle pool e (set_pool pool e t), [])"
  using assms by (simp add: grants_in_def grant_ok_set grant_ok_forget pool_at_forget pool_at_set_pool)

lemma grants_in_via: "grants_in pool t r \<Longrightarrow> \<forall>q. q \<noteq> pool \<longrightarrow> pool_at t q = pool_at t' q \<Longrightarrow> grants_in pool t' r"
  by (simp add: grants_in_def)

lemma acquire_true:
  assumes "grant_ok t"
  shows "grants_in pool t (acquire pool process i t)"
  unfolding acquire_def Let_def using assms
  by (intro lock_next_grants) (auto simp: grant_ok_def split: option.splits)

lemma remove_first_subset: "set (remove_first P xs) \<subseteq> set xs"
  by (induction xs) auto

lemma release_true:
  assumes "grant_ok t"
  shows "grants_in pool t (release pool i t)"
proof (cases "pool_at t pool")
  case None
  then show ?thesis using assms by (simp add: release_def grants_in_def)
next
  case (Some e)
  then have q: "\<forall>w \<in> set (queue e). waiter_grant w = pool" using assms by (simp add: grant_ok_def)
  then have "\<forall>w \<in> set (remove_first P (queue e)). waiter_grant w = pool" for P using remove_first_subset [of P "queue e"] by blast
  then have f: "grants_in pool t (forgetIfIdle pool (e\<lparr>queue := remove_first P (queue e)\<rparr>)
      (set_pool pool (e\<lparr>queue := remove_first P (queue e)\<rparr>) t), [])" for P
    using forget_grants [OF assms, of "e\<lparr>queue := remove_first P (queue e)\<rparr>" pool] by simp
  have "grants_in pool t (lock_next pool (e\<lparr>holder := None\<rparr>) (t\<lparr>lclock := c\<rparr>))" for c
    using lock_next_grants [of "t\<lparr>lclock := c\<rparr>" "e\<lparr>holder := None\<rparr>" pool] assms q grants_in_via [of pool "t\<lparr>lclock := c\<rparr>"] by simp
  with f show ?thesis using Some by (simp add: release_def Let_def split: option.splits)
qed

lemma lose_pool_true:
  assumes "grant_ok t"
  shows "grants_in pool t (lose_pool process pool t)"
proof (cases "pool_at t pool")
  case None
  then show ?thesis using assms by (simp add: lose_pool_def grants_in_def)
next
  case (Some e)
  let ?e = "e\<lparr>queue := filter (\<lambda>w. waiter_process w \<noteq> process) (queue e)\<rparr>"
  have q: "\<forall>w \<in> set (queue ?e). waiter_grant w = pool" using assms Some by (simp add: grant_ok_def)
  have "grants_in pool t (release pool i (set_pool pool ?e t))" for i
    using release_true [OF grant_ok_set [OF assms q]] by (rule grants_in_via) (simp add: pool_at_set_pool)
  then show ?thesis using Some forget_grants [OF assms q] by (simp add: lose_pool_def Let_def split: option.splits)
qed

lemma lose_pools_true:
  "grant_ok t \<Longrightarrow> distinct pools \<Longrightarrow>
   grant_ok (fst (lose_pools process pools t))
   \<and> (\<forall>w \<in> set (snd (lose_pools process pools t)). waiter_grant w \<in> set pools
        \<and> holder_of (fst (lose_pools process pools t)) (waiter_grant w) = Some (req w))
   \<and> (\<forall>q. q \<notin> set pools \<longrightarrow> pool_at (fst (lose_pools process pools t)) q = pool_at t q)"
proof (induction pools arbitrary: t)
  case (Cons pool pools)
  obtain t1 ws where t1: "lose_pool process pool t = (t1, ws)" by fastforce
  obtain t2 ws' where t2: "lose_pools process pools t1 = (t2, ws')" by fastforce
  have g: "grants_in pool t (t1, ws)" using lose_pool_true [OF Cons.prems(1), of pool process] t1 by simp
  then have IH: "grant_ok t2" "\<forall>w \<in> set ws'. waiter_grant w \<in> set pools \<and> holder_of t2 (waiter_grant w) = Some (req w)"
    "\<forall>q. q \<notin> set pools \<longrightarrow> pool_at t2 q = pool_at t1 q"
    using Cons.IH [of t1] Cons.prems(2) t2 by (simp_all add: grants_in_def)
  then have "holder_of t2 pool = holder_of t1 pool" using Cons.prems(2) by (simp add: holder_of_def)
  then show ?case using g IH t1 t2 by (auto simp: grants_in_def)
qed simp

definition granted :: "LockTable \<times> Waiter list \<Rightarrow> bool" where
  "granted r = (grant_ok (fst r) \<and> (\<forall>w \<in> set (snd r). holder_of (fst r) (waiter_grant w) = Some (req w)))"

lemma grants_in_granted: "grants_in pool t r \<Longrightarrow> granted r"
  by (auto simp: grants_in_def granted_def)

lemma lock_op_granted:
  assumes "lock_inv t" "grant_ok t"
  shows "granted (lock_op e t)"
proof (cases e)
  case (LLost process)
  have "distinct (map fst (lpools t))" using assms(1) by (simp add: lock_inv_def)
  from lose_pools_true [OF assms(2) this, of process] show ?thesis using LLost by (simp add: granted_def processLost_def)
next
  case (LExpire n)
  show ?thesis
  proof (cases "timer (lclock t) n")
    case None
    then show ?thesis using LExpire assms(2) by (simp add: expire_def granted_def)
  next
    case (Some p)
    then show ?thesis using LExpire expire_eq_release [OF assms(1), of n "fst p" "snd p"]
        grants_in_granted [OF release_true [OF assms(2), of "fst p" "snd p"]] by simp
  qed
next
  case LStop
  then show ?thesis by (simp add: granted_def grant_ok_def locks_stop_def pool_at_def)
next
  case (LAcquire pool process i)
  then show ?thesis using grants_in_granted [OF acquire_true [OF assms(2)]] by simp
next
  case (LRelease pool i)
  then show ?thesis using grants_in_granted [OF release_true [OF assms(2)]] by simp
qed

interpretation grants: machine "\<lambda>_ _. True" lock_step "\<lambda>t. lock_inv t \<and> grant_ok t"
  by unfold_locales (use lock.inv_step lock_op_granted in \<open>auto simp: lock_step_def granted_def\<close>)

lemma grant_ok_new: "grant_ok (new_locks ms)"
  by (simp add: grant_ok_def new_locks_def pool_at_def)

end
