(* ===== verification/Requests.thy ===== *)
theory Requests
  imports Runtime
begin

text \<open>
  Requests over the backplane (\<open>core/src/cluster/requests.ts\<close>): directed requests, broadcasts
  whose first answer wins and broadcasts that gather answers, with their timeouts. The closures an
  entry of the source holds are determined by the shape of the request, so an entry keeps the
  shape; the promise of a request is the outcome an operation returns for its id. Ids come from
  the caller's generator and are a parameter of the operations that open a request.
\<close>

datatype RequestFailure = Timeout | PeerLost | Stopped

datatype 'v outcome = Answered 'v | Failed RequestFailure | Collected "'v list"

datatype 'v shape = Single | First | Gather (collected: "'v list")

record 'v Entry =
  epeer :: "jsstring option"
  etimer :: nat
  ewaiting :: "jsstring list option"
  eshape :: "'v shape"

record 'v Pending =
  rclock :: "jsstring clock"
  rentries :: "(jsstring \<times> 'v Entry) list"

type_synonym 'v settled = "(jsstring \<times> 'v outcome) list"

text \<open>\<open>complete()\<close> and \<open>fail(reason)\<close> of each shape.\<close>

fun complete_with :: "jsstring \<Rightarrow> 'v shape \<Rightarrow> 'v settled" where
  "complete_with rid Single = []"
| "complete_with rid First = [(rid, Failed Timeout)]"
| "complete_with rid (Gather vs) = [(rid, Collected vs)]"

fun fail_with :: "jsstring \<Rightarrow> RequestFailure \<Rightarrow> 'v shape \<Rightarrow> 'v settled" where
  "fail_with rid reason (Gather vs) = [(rid, Collected vs)]"
| "fail_with rid reason _ = [(rid, Failed reason)]"

definition req_open ::
  "jsstring \<Rightarrow> jsstring option \<Rightarrow> jsstring list option \<Rightarrow> rat \<Rightarrow> 'v shape \<Rightarrow> 'v Pending \<Rightarrow> 'v Pending \<times> 'v settled" where
  "req_open rid peer peers timeoutMs shape s =
     (if peers = Some [] then (s, complete_with rid shape)
      else case setTimeout rid timeoutMs (rclock s) of
             (i, c) \<Rightarrow>
               (s\<lparr>rclock := c, rentries := AList.update rid
                    \<lparr>epeer = peer, etimer = i, ewaiting = map_option remdups peers, eshape = shape\<rparr> (rentries s)\<rparr>, []))"

definition req_single :: "jsstring \<Rightarrow> jsstring \<Rightarrow> rat \<Rightarrow> 'v Pending \<Rightarrow> 'v Pending \<times> 'v settled" where
  "req_single rid peer timeoutMs s = req_open rid (Some peer) None timeoutMs Single s"

definition req_first :: "jsstring \<Rightarrow> rat \<Rightarrow> jsstring list option \<Rightarrow> 'v Pending \<Rightarrow> 'v Pending \<times> 'v settled" where
  "req_first rid windowMs peers s = req_open rid None peers windowMs First s"

definition req_gather :: "jsstring \<Rightarrow> rat \<Rightarrow> jsstring list option \<Rightarrow> 'v Pending \<Rightarrow> 'v Pending \<times> 'v settled" where
  "req_gather rid windowMs peers s = req_open rid None peers windowMs (Gather []) s"

definition entry_at :: "'v Pending \<Rightarrow> jsstring \<Rightarrow> 'v Entry option" where
  "entry_at s rid = map_of (rentries s) rid"

definition req_close :: "jsstring \<Rightarrow> 'v Pending \<Rightarrow> 'v Pending" where
  "req_close rid s =
     (case entry_at s rid of
        None \<Rightarrow> s
      | Some e \<Rightarrow> s\<lparr>rclock := clearTimeout (etimer e) (rclock s), rentries := AList.delete rid (rentries s)\<rparr>)"

definition set_entry :: "jsstring \<Rightarrow> 'v Entry \<Rightarrow> 'v Pending \<Rightarrow> 'v Pending" where
  "set_entry rid e s = s\<lparr>rentries := AList.update rid e (rentries s)\<rparr>"

definition answered :: "jsstring \<Rightarrow> 'v Entry \<Rightarrow> jsstring \<Rightarrow> 'v Pending \<Rightarrow> 'v Pending \<times> 'v settled" where
  "answered rid e frm s =
     (case ewaiting e of
        None \<Rightarrow> (s, [])
      | Some ws \<Rightarrow>
          if frm \<notin> set ws then (s, [])
          else let ws = removeAll frm ws; s = set_entry rid (e\<lparr>ewaiting := Some ws\<rparr>) s
               in if ws \<noteq> [] then (s, []) else (req_close rid s, complete_with rid (eshape e)))"

definition req_deliver :: "jsstring \<Rightarrow> 'v \<Rightarrow> jsstring \<Rightarrow> 'v Pending \<Rightarrow> 'v Pending \<times> 'v settled" where
  "req_deliver rid v frm s =
     (case entry_at s rid of
        None \<Rightarrow> (s, [])
      | Some e \<Rightarrow>
          (case eshape e of
             Gather vs \<Rightarrow>
               let e = e\<lparr>eshape := Gather (vs @ [v])\<rparr> in answered rid e frm (set_entry rid e s)
           | _ \<Rightarrow> (req_close rid s, [(rid, Answered v)])))"

definition req_miss :: "jsstring \<Rightarrow> jsstring \<Rightarrow> 'v Pending \<Rightarrow> 'v Pending \<times> 'v settled" where
  "req_miss rid frm s = (case entry_at s rid of None \<Rightarrow> (s, []) | Some e \<Rightarrow> answered rid e frm s)"

text \<open>The body of the loops of \<open>failPeer\<close> and \<open>stop\<close> for one request, and the loop over those open at the start.\<close>

definition fail_one :: "jsstring \<Rightarrow> jsstring \<Rightarrow> 'v Pending \<Rightarrow> 'v Pending \<times> 'v settled" where
  "fail_one peer rid s =
     (case entry_at s rid of
        None \<Rightarrow> (s, [])
      | Some e \<Rightarrow>
          if epeer e = Some peer then (req_close rid s, fail_with rid PeerLost (eshape e))
          else answered rid e peer s)"

definition stop_one :: "jsstring \<Rightarrow> 'v Pending \<Rightarrow> 'v Pending \<times> 'v settled" where
  "stop_one rid s =
     (case entry_at s rid of
        None \<Rightarrow> (s, [])
      | Some e \<Rightarrow> (req_close rid s, fail_with rid Stopped (eshape e)))"

fun each_request :: "(jsstring \<Rightarrow> 'v Pending \<Rightarrow> 'v Pending \<times> 'v settled) \<Rightarrow> jsstring list \<Rightarrow> 'v Pending \<Rightarrow> 'v Pending \<times> 'v settled" where
  "each_request f [] s = (s, [])"
| "each_request f (rid # rids) s =
     (case f rid s of (s, out) \<Rightarrow> case each_request f rids s of (s, out') \<Rightarrow> (s, out @ out'))"

definition failPeer :: "jsstring \<Rightarrow> 'v Pending \<Rightarrow> 'v Pending \<times> 'v settled" where
  "failPeer peer s = each_request (fail_one peer) (map fst (rentries s)) s"

definition req_stop :: "'v Pending \<Rightarrow> 'v Pending \<times> 'v settled" where
  "req_stop s = each_request stop_one (map fst (rentries s)) s"

text \<open>A live timer fires: it is gone from the clock, the entry is deleted and the request ends.\<close>

definition req_timeout :: "nat \<Rightarrow> 'v Pending \<Rightarrow> 'v Pending \<times> 'v settled" where
  "req_timeout i s =
     (case timer (rclock s) i of
        None \<Rightarrow> (s, [])
      | Some rid \<Rightarrow>
          (case entry_at s rid of
             None \<Rightarrow> (s\<lparr>rclock := clearTimeout i (rclock s)\<rparr>, [])
           | Some e \<Rightarrow>
               (s\<lparr>rclock := clearTimeout i (rclock s), rentries := AList.delete rid (rentries s)\<rparr>,
                fail_with rid Timeout (eshape e))))"

section \<open>Events\<close>

datatype 'v RequestEvent =
    RSingle jsstring jsstring rat
  | RFirst jsstring rat "jsstring list option"
  | RGather jsstring rat "jsstring list option"
  | RDeliver jsstring 'v jsstring
  | RMiss jsstring jsstring
  | RFailPeer jsstring
  | RTimer nat
  | RStop

fun req_op :: "'v RequestEvent \<Rightarrow> 'v Pending \<Rightarrow> 'v Pending \<times> 'v settled" where
  "req_op (RSingle rid peer ms) s = req_single rid peer ms s"
| "req_op (RFirst rid ms peers) s = req_first rid ms peers s"
| "req_op (RGather rid ms peers) s = req_gather rid ms peers s"
| "req_op (RDeliver rid v frm) s = req_deliver rid v frm s"
| "req_op (RMiss rid frm) s = req_miss rid frm s"
| "req_op (RFailPeer peer) s = failPeer peer s"
| "req_op (RTimer i) s = req_timeout i s"
| "req_op RStop s = req_stop s"

definition req_step :: "'v RequestEvent \<Rightarrow> 'v Pending \<Rightarrow> 'v Pending" where
  "req_step e s = fst (req_op e s)"

fun opened :: "'v RequestEvent \<Rightarrow> jsstring option" where
  "opened (RSingle rid peer ms) = Some rid"
| "opened (RFirst rid ms peers) = Some rid"
| "opened (RGather rid ms peers) = Some rid"
| "opened _ = None"

text \<open>What the generator of ids is relied on for: an id in use does not come up again.\<close>

definition req_legal :: "'v Pending \<Rightarrow> 'v RequestEvent \<Rightarrow> bool" where
  "req_legal s e = (case opened e of None \<Rightarrow> True | Some rid \<Rightarrow> entry_at s rid = None)"

definition new_requests :: "'v Pending" where
  "new_requests = \<lparr>rclock = \<lparr>cnext = 1, ctimers = []\<rparr>, rentries = []\<rparr>"

section \<open>The invariant\<close>

text \<open>
  Every open request has a live timer of its own, there is no other timer, and a broadcast with a
  list of peers still waits for one of them.
\<close>

definition entry_ok :: "jsstring clock \<Rightarrow> jsstring \<Rightarrow> 'v Entry \<Rightarrow> bool" where
  "entry_ok c rid e =
     (timer c (etimer e) = Some rid \<and> ewaiting e \<noteq> Some [] \<and> (eshape e = Single \<longrightarrow> ewaiting e = None))"

definition req_inv :: "'v Pending \<Rightarrow> bool" where
  "req_inv s =
     (clock_ok (rclock s) \<and> distinct (map fst (rentries s))
      \<and> (\<forall>rid e. entry_at s rid = Some e \<longrightarrow> entry_ok (rclock s) rid e)
      \<and> (\<forall>i rid. timer (rclock s) i = Some rid \<longrightarrow> (\<exists>e. entry_at s rid = Some e \<and> etimer e = i)))"

definition pending :: "'v Pending \<Rightarrow> jsstring \<Rightarrow> bool" where
  "pending s rid = (entry_at s rid \<noteq> None)"

text \<open>
  What an operation does to request \<open>rid\<close>: either it stays as open as it was and has no outcome,
  or it was open, is closed and has one.
\<close>

definition outcomes :: "jsstring \<Rightarrow> 'v settled \<Rightarrow> nat" where
  "outcomes rid out = length (filter (\<lambda>x. fst x = rid) out)"

definition settles :: "'v Pending \<Rightarrow> 'v Pending \<times> 'v settled \<Rightarrow> bool" where
  "settles s r = (req_inv (fst r) \<and>
     (\<forall>rid. (pending (fst r) rid \<longrightarrow> pending s rid) \<and> outcomes rid (snd r) = (if pending s rid \<and> \<not> pending (fst r) rid then 1 else 0)))"

lemma entry_ok_inv: "req_inv s \<Longrightarrow> entry_at s rid = Some e \<Longrightarrow> entry_ok (rclock s) rid e"
  by (auto simp: req_inv_def)

lemma timer_entry:
  assumes "req_inv s" "timer (rclock s) i = Some rid"
  obtains e where "entry_at s rid = Some e" "etimer e = i"
  using assms unfolding req_inv_def by blast

lemma outcomes_simps [simp]: "outcomes rid [] = 0" "outcomes rid (x # out) = (if fst x = rid then 1 else 0) + outcomes rid out"
  "outcomes rid (out @ out') = outcomes rid out + outcomes rid out'"
  by (simp_all add: outcomes_def)

lemma outcomes_with: "outcomes rid (fail_with rid' reason sh) = (if rid = rid' then 1 else 0)"
  "sh \<noteq> Single \<Longrightarrow> outcomes rid (complete_with rid' sh) = (if rid = rid' then 1 else 0)"
  by (cases sh; auto)+

lemma entry_at_delete: "entry_at (s\<lparr>rclock := c, rentries := AList.delete rid (rentries s)\<rparr>) = (entry_at s)(rid := None)"
  by (auto simp: entry_at_def delete_conv')

lemma entry_at_set: "entry_at (set_entry rid e s) = (entry_at s)(rid \<mapsto> e)"
  by (auto simp: entry_at_def set_entry_def update_conv')

lemma set_entry_clock [simp]: "rclock (set_entry rid e s) = rclock s"
  by (simp add: set_entry_def)

text \<open>Removing an entry together with its timer.\<close>

lemma req_inv_remove:
  assumes "req_inv s" "entry_at s rid = Some e"
  shows "req_inv (s\<lparr>rclock := clearTimeout (etimer e) (rclock s), rentries := AList.delete rid (rentries s)\<rparr>)"
    (is "req_inv ?s")
  unfolding req_inv_def
proof (intro conjI allI impI)
  show "clock_ok (rclock ?s)" "distinct (map fst (rentries ?s))"
    using assms(1) by (simp_all add: req_inv_def clock_ok_clearTimeout distinct_delete)
next
  fix q d assume "entry_at ?s q = Some d"
  then have q: "q \<noteq> rid" "entry_at s q = Some d" by (auto simp: entry_at_delete split: if_splits)
  have "etimer d \<noteq> etimer e" using entry_ok_inv [OF assms] entry_ok_inv [OF assms(1) q(2)] q(1) by (auto simp: entry_ok_def)
  then show "entry_ok (rclock ?s) q d"
    using entry_ok_inv [OF assms(1) q(2)] by (simp add: entry_ok_def timer_clearTimeout)
next
  fix i q assume "timer (rclock ?s) i = Some q"
  then have i: "i \<noteq> etimer e" "timer (rclock s) i = Some q" by (auto simp: timer_clearTimeout split: if_splits)
  from timer_entry [OF assms(1) i(2)] obtain d where d: "entry_at s q = Some d" "etimer d = i" .
  with i(1) assms(2) have "q \<noteq> rid" by auto
  with d show "\<exists>d. entry_at ?s q = Some d \<and> etimer d = i" by (simp add: entry_at_delete)
qed

lemma req_inv_set:
  assumes "req_inv s" "entry_at s rid = Some e" "entry_ok (rclock s) rid e'" "etimer e' = etimer e"
  shows "req_inv (set_entry rid e' s)"
  unfolding req_inv_def
proof (intro conjI allI impI)
  show "clock_ok (rclock (set_entry rid e' s))" "distinct (map fst (rentries (set_entry rid e' s)))"
    using assms(1) by (simp_all add: req_inv_def set_entry_def distinct_update)
next
  fix q d assume "entry_at (set_entry rid e' s) q = Some d"
  then show "entry_ok (rclock (set_entry rid e' s)) q d"
    using assms(3) entry_ok_inv [OF assms(1)] by (auto simp: entry_at_set split: if_splits)
next
  fix i q assume "timer (rclock (set_entry rid e' s)) i = Some q"
  then have "timer (rclock s) i = Some q" by (simp add: set_entry_def)
  from timer_entry [OF assms(1) this] obtain d where "entry_at s q = Some d" "etimer d = i" .
  with assms(2,4) show "\<exists>d. entry_at (set_entry rid e' s) q = Some d \<and> etimer d = i"
    by (cases "q = rid") (auto simp: entry_at_set)
qed

lemma pending_delete [simp]: "pending (s\<lparr>rclock := c, rentries := AList.delete rid (rentries s)\<rparr>) q = (q \<noteq> rid \<and> pending s q)"
  by (auto simp: pending_def entry_at_delete)

lemma pending_set [simp]: "pending (set_entry rid e s) q = (q = rid \<or> pending s q)"
  by (auto simp: pending_def entry_at_set)

lemma req_close_set: "req_close rid (set_entry rid e s)
    = s\<lparr>rclock := clearTimeout (etimer e) (rclock s), rentries := AList.delete rid (rentries s)\<rparr>"
  by (simp add: req_close_def entry_at_set) (simp add: set_entry_def delete_update_same)

section \<open>Every operation settles a request at most once\<close>

lemma settles_same: "req_inv s \<Longrightarrow> settles s (s, [])"
  by (simp add: settles_def)

lemma settles_remove:
  assumes "req_inv s" "entry_at s rid = Some e" "\<And>q. outcomes q out = (if q = rid then 1 else 0)"
  shows "settles s (s\<lparr>rclock := clearTimeout (etimer e) (rclock s), rentries := AList.delete rid (rentries s)\<rparr>, out)"
  using req_inv_remove [OF assms(1,2)] assms(2,3) by (auto simp: settles_def pending_def entry_at_delete)

lemma settles_fail:
  assumes "req_inv s" "entry_at s rid = Some e"
  shows "settles s (s\<lparr>rclock := clearTimeout (etimer e) (rclock s), rentries := AList.delete rid (rentries s)\<rparr>, fail_with rid reason sh)"
  by (rule settles_remove [OF assms]) (simp add: outcomes_with)

lemma settles_set:
  assumes "req_inv s" "entry_at s rid = Some e" "entry_ok (rclock s) rid e'" "etimer e' = etimer e"
  shows "settles s (set_entry rid e' s, [])"
  using req_inv_set [OF assms] assms(2) by (auto simp: settles_def pending_def entry_at_set)

lemma close_remove: "entry_at s rid = Some e \<Longrightarrow>
    req_close rid s = s\<lparr>rclock := clearTimeout (etimer e) (rclock s), rentries := AList.delete rid (rentries s)\<rparr>"
  by (simp add: req_close_def)

lemma settles_via:
  assumes "settles s r" "\<And>q. pending s q = pending s' q"
  shows "settles s' r"
  using assms by (simp add: settles_def)

lemma answered_settles:
  assumes "req_inv s" "entry_at s rid = Some e"
  shows "settles s (answered rid e frm s)"
proof (cases "\<exists>ws. ewaiting e = Some ws \<and> frm \<in> set ws")
  case False
  then show ?thesis using settles_same [OF assms(1)] by (auto simp: answered_def split: option.splits)
next
  case True
  then obtain ws where w: "ewaiting e = Some ws" "frm \<in> set ws" by blast
  have ok: "timer (rclock s) (etimer e) = Some rid" "eshape e \<noteq> Single"
    using entry_ok_inv [OF assms] w(1) by (auto simp: entry_ok_def)
  show ?thesis
  proof (cases "removeAll frm ws = []")
    case True
    with w have "answered rid e frm s
      = (s\<lparr>rclock := clearTimeout (etimer e) (rclock s), rentries := AList.delete rid (rentries s)\<rparr>, complete_with rid (eshape e))"
      by (simp add: answered_def Let_def req_close_set)
    then show ?thesis using settles_remove [OF assms] outcomes_with(2) [OF ok(2)] by simp
  next
    case False
    have "settles s (set_entry rid (e\<lparr>ewaiting := Some (removeAll frm ws)\<rparr>) s, [])"
      by (rule settles_set [OF assms]) (use ok False in \<open>simp_all add: entry_ok_def\<close>)
    then show ?thesis using w False by (simp add: answered_def Let_def)
  qed
qed

lemma deliver_settles:
  assumes "req_inv s"
  shows "settles s (req_deliver rid v frm s)"
proof (cases "entry_at s rid")
  case None
  then show ?thesis using settles_same [OF assms] by (simp add: req_deliver_def)
next
  case (Some e)
  show ?thesis
  proof (cases "eshape e")
    case (Gather vs)
    let ?e = "e\<lparr>eshape := Gather (vs @ [v])\<rparr>"
    have ok: "entry_ok (rclock s) rid ?e" using entry_ok_inv [OF assms Some] by (simp add: entry_ok_def)
    have i: "req_inv (set_entry rid ?e s)" by (rule req_inv_set [OF assms Some ok]) simp
    have "settles (set_entry rid ?e s) (answered rid ?e frm (set_entry rid ?e s))"
      by (rule answered_settles [OF i]) (simp add: entry_at_set)
    moreover have "pending (set_entry rid ?e s) q = pending s q" for q using Some by (auto simp: pending_def entry_at_set)
    ultimately have "settles s (answered rid ?e frm (set_entry rid ?e s))" by (rule settles_via)
    then show ?thesis using Some Gather by (simp add: req_deliver_def Let_def)
  qed (use Some settles_remove [OF assms Some] in \<open>simp_all add: req_deliver_def close_remove\<close>)
qed

lemma miss_settles: "req_inv s \<Longrightarrow> settles s (req_miss rid frm s)"
  using settles_same answered_settles by (cases "entry_at s rid") (auto simp: req_miss_def)

lemma fail_one_settles:
  assumes "req_inv s"
  shows "settles s (fail_one peer rid s)"
proof (cases "entry_at s rid")
  case None
  then show ?thesis using settles_same [OF assms] by (simp add: fail_one_def)
next
  case (Some e)
  then show ?thesis using answered_settles [OF assms Some] settles_fail [OF assms Some]
    by (auto simp: fail_one_def close_remove)
qed

lemma stop_one_settles:
  assumes "req_inv s"
  shows "settles s (stop_one rid s)"
proof (cases "entry_at s rid")
  case None
  then show ?thesis using settles_same [OF assms] by (simp add: stop_one_def)
next
  case (Some e)
  then show ?thesis using settles_fail [OF assms Some] by (auto simp: stop_one_def close_remove)
qed

lemma settles_trans:
  assumes "settles s (s1, out)" "settles s1 (s2, out')"
  shows "settles s (s2, out @ out')"
  unfolding settles_def fst_conv snd_conv
proof (intro conjI allI)
  fix rid
  have "pending s1 rid \<longrightarrow> pending s rid" "outcomes rid out = (if pending s rid \<and> \<not> pending s1 rid then 1 else 0)"
    "pending s2 rid \<longrightarrow> pending s1 rid" "outcomes rid out' = (if pending s1 rid \<and> \<not> pending s2 rid then 1 else 0)"
    using assms by (simp_all add: settles_def)
  then show "pending s2 rid \<longrightarrow> pending s rid"
    "outcomes rid (out @ out') = (if pending s rid \<and> \<not> pending s2 rid then 1 else 0)"
    by (cases "pending s rid"; cases "pending s1 rid"; cases "pending s2 rid"; simp)+
qed (use assms in \<open>simp add: settles_def\<close>)

lemma each_settles:
  assumes "\<And>rid s. req_inv s \<Longrightarrow> settles s (f rid s)" "req_inv s"
  shows "settles s (each_request f rids s)"
  using assms(2)
proof (induction rids arbitrary: s)
  case Nil
  then show ?case by (simp add: settles_same)
next
  case (Cons rid rids)
  obtain s1 out where f: "f rid s = (s1, out)" by fastforce
  obtain s2 out' where r: "each_request f rids s1 = (s2, out')" by fastforce
  have a: "settles s (s1, out)" using assms(1) [OF Cons.prems, of rid] f by simp
  then have "settles s1 (s2, out')" using Cons.IH [of s1] r by (simp add: settles_def)
  from settles_trans [OF a this] show ?case using f r by simp
qed

lemma timeout_settles:
  assumes "req_inv s"
  shows "settles s (req_timeout i s)"
proof (cases "timer (rclock s) i")
  case None
  then show ?thesis using settles_same [OF assms] by (simp add: req_timeout_def)
next
  case (Some rid)
  then obtain e where "entry_at s rid = Some e" "etimer e = i" by (rule timer_entry [OF assms])
  then show ?thesis using Some settles_fail [OF assms, of rid e] by (auto simp: req_timeout_def)
qed

text \<open>Opening a request: it is open afterwards, or, with nobody to wait for, has its outcome at once.\<close>

lemma open_inv:
  assumes "req_inv s" "entry_at s rid = None" "shape = Single \<longrightarrow> peers = None"
  shows "req_inv (fst (req_open rid peer peers ms shape s))
    \<and> pending (fst (req_open rid peer peers ms shape s)) rid = (peers \<noteq> Some [])
    \<and> outcomes rid (snd (req_open rid peer peers ms shape s)) = (if peers = Some [] then 1 else 0)"
proof (cases "peers = Some []")
  case True
  then show ?thesis using assms outcomes_with(2) [of shape rid rid] by (cases "shape = Single") (simp_all add: req_open_def pending_def)
next
  case False
  let ?i = "fst (setTimeout rid ms (rclock s))" and ?c = "snd (setTimeout rid ms (rclock s))"
  let ?e = "\<lparr>epeer = peer, etimer = ?i, ewaiting = map_option remdups peers, eshape = shape\<rparr>"
  let ?s = "s\<lparr>rclock := ?c, rentries := AList.update rid ?e (rentries s)\<rparr>"
  have o: "req_open rid peer peers ms shape s = (?s, [])" using False by (simp add: req_open_def split: prod.splits)
  have c: "clock_ok (rclock s)" using assms(1) by (simp add: req_inv_def)
  have at: "entry_at ?s = (entry_at s)(rid \<mapsto> ?e)" by (auto simp: entry_at_def update_conv')
  have tm: "timer ?c j = (if j = ?i then Some rid else timer (rclock s) j)" for j by (simp add: timer_setTimeout)
  have "req_inv ?s" unfolding req_inv_def
  proof (intro conjI allI impI)
    show "clock_ok (rclock ?s)" "distinct (map fst (rentries ?s))"
      using assms(1) by (simp_all add: clock_ok_setTimeout [OF c] req_inv_def distinct_update)
  next
    fix q d assume q: "entry_at ?s q = Some d"
    show "entry_ok (rclock ?s) q d"
    proof (cases "q = rid")
      case True
      then have "d = ?e" using q at by simp
      then show ?thesis using True False assms(3) tm by (auto simp: entry_ok_def)
    next
      case n: False
      then have "entry_ok (rclock s) q d" using q at entry_ok_inv [OF assms(1)] by simp
      then show ?thesis using timer_fresh [OF c, of rid ms] tm by (auto simp: entry_ok_def)
    qed
  next
    fix j q assume j: "timer (rclock ?s) j = Some q"
    show "\<exists>d. entry_at ?s q = Some d \<and> etimer d = j"
    proof (cases "j = ?i")
      case True
      then show ?thesis using j tm at by simp
    next
      case n: False
      then have "timer (rclock s) j = Some q" using j tm by simp
      from timer_entry [OF assms(1) this] obtain d where "entry_at s q = Some d" "etimer d = j" .
      then show ?thesis using at assms(2) by (cases "q = rid") auto
    qed
  qed
  then show ?thesis using o at False by (simp add: pending_def)
qed

lemma op_settles:
  assumes "req_inv s" "opened e = None"
  shows "settles s (req_op e s)"
  using assms
  by (cases e) (simp_all add: deliver_settles miss_settles timeout_settles failPeer_def req_stop_def
      each_settles fail_one_settles stop_one_settles)

lemma op_opens:
  assumes "req_inv s" "opened e = Some rid" "entry_at s rid = None"
  shows "req_inv (fst (req_op e s))
    \<and> outcomes rid (snd (req_op e s)) = (if pending (fst (req_op e s)) rid then 0 else 1)"
  using assms(2) by (cases e) (auto simp: req_single_def req_first_def req_gather_def open_inv [OF assms(1,3)])

lemma req_inv_new: "req_inv new_requests"
  by (simp add: req_inv_def new_requests_def clock_ok_def entry_at_def timer_def)

interpretation requests: machine req_legal req_step req_inv
proof
  fix s e assume "req_inv s" "req_legal s e"
  then show "req_inv (req_step e s)"
    using op_settles [of s e] op_opens [of s e]
    by (cases "opened e") (auto simp: req_step_def req_legal_def settles_def)
qed

section \<open>A peer that dies\<close>

definition waits_for :: "jsstring \<Rightarrow> 'v Entry \<Rightarrow> bool" where
  "waits_for peer e = (epeer e = Some peer \<or> (\<exists>ws. ewaiting e = Some ws \<and> peer \<in> set ws))"

lemma answered_entry:
  assumes "entry_at s rid = Some e"
  shows "entry_at (fst (answered rid e frm s)) q
    = (if q = rid then
         (case ewaiting e of
            None \<Rightarrow> Some e
          | Some ws \<Rightarrow> if frm \<notin> set ws then Some e
                       else if removeAll frm ws = [] then None else Some (e\<lparr>ewaiting := Some (removeAll frm ws)\<rparr>))
       else entry_at s q)"
  using assms by (auto simp: answered_def Let_def entry_at_set req_close_set entry_at_delete split: option.splits)

lemma fail_one_entry:
  "entry_at (fst (fail_one peer rid s)) q = Some e \<Longrightarrow>
   (q = rid \<longrightarrow> \<not> waits_for peer e) \<and> (q \<noteq> rid \<longrightarrow> entry_at s q = Some e)"
  by (auto simp: fail_one_def waits_for_def close_remove entry_at_delete answered_entry split: option.splits if_splits)

lemma fail_each_entry:
  "entry_at (fst (each_request (fail_one peer) rids s)) q = Some e \<Longrightarrow>
   (if q \<in> set rids then \<not> waits_for peer e else entry_at s q = Some e)"
proof (induction rids arbitrary: s)
  case (Cons rid rids)
  obtain s1 out where f: "fail_one peer rid s = (s1, out)" by fastforce
  have r: "entry_at (fst (each_request (fail_one peer) rids s1)) q = Some e"
    using Cons.prems f by (simp split: prod.splits)
  show ?case
    using Cons.IH [OF r] fail_one_entry [of peer rid s q e] f by (cases "q \<in> set rids"; cases "q = rid") auto
qed simp

lemma failPeer_frees:
  assumes "entry_at (fst (failPeer peer s)) rid = Some e"
  shows "\<not> waits_for peer e"
proof (cases "rid \<in> set (map fst (rentries s))")
  case True
  then show ?thesis using fail_each_entry [of peer "map fst (rentries s)" s rid e] assms by (simp add: failPeer_def)
next
  case False
  then have "entry_at s rid = None" by (simp add: entry_at_def map_of_eq_None_iff [THEN iffD2])
  then show ?thesis using False fail_each_entry [of peer "map fst (rentries s)" s rid e] assms by (simp add: failPeer_def)
qed

section \<open>Whole runs\<close>

lemma open_others:
  assumes "q \<noteq> rid"
  shows "pending (fst (req_open rid peer peers ms shape s)) q = pending s q
    \<and> outcomes q (snd (req_open rid peer peers ms shape s)) = 0"
  using assms by (cases shape) (auto simp: req_open_def pending_def entry_at_def update_conv' split: prod.splits)

lemma op_opens_others: "opened e = Some rid \<Longrightarrow> q \<noteq> rid \<Longrightarrow>
    pending (fst (req_op e s)) q = pending s q \<and> outcomes q (snd (req_op e s)) = 0"
  by (cases e) (simp_all add: req_single_def req_first_def req_gather_def open_others)

text \<open>Opened so far equals settled so far plus still open, one event at a time.\<close>

lemma op_balance:
  assumes "req_inv s" "req_legal s e"
  shows "(if pending s rid then 1 else 0) + (if opened e = Some rid then 1 else 0)
    = outcomes rid (snd (req_op e s)) + (if pending (req_step e s) rid then 1 else 0)"
proof (cases "opened e")
  case None
  then show ?thesis using op_settles [OF assms(1)] by (auto simp: settles_def req_step_def)
next
  case (Some r)
  then have "entry_at s r = None" using assms(2) by (simp add: req_legal_def)
  then show ?thesis using op_opens [OF assms(1) Some] op_opens_others [OF Some, of rid s] Some
    by (cases "rid = r") (auto simp: req_step_def pending_def)
qed

fun req_run :: "'v RequestEvent list \<Rightarrow> 'v Pending \<Rightarrow> 'v Pending \<times> 'v settled" where
  "req_run [] s = (s, [])"
| "req_run (e # es) s = (case req_op e s of (s, out) \<Rightarrow> case req_run es s of (s, out') \<Rightarrow> (s, out @ out'))"

fun legal_run :: "'v RequestEvent list \<Rightarrow> 'v Pending \<Rightarrow> bool" where
  "legal_run [] s = True"
| "legal_run (e # es) s = (req_legal s e \<and> legal_run es (req_step e s))"

definition opens :: "jsstring \<Rightarrow> 'v RequestEvent list \<Rightarrow> nat" where
  "opens rid es = length (filter (\<lambda>e. opened e = Some rid) es)"

lemma run_balance:
  "req_inv s \<Longrightarrow> legal_run es s \<Longrightarrow>
   (if pending s rid then 1 else 0) + opens rid es
    = outcomes rid (snd (req_run es s)) + (if pending (fst (req_run es s)) rid then 1 else 0)"
proof (induction es arbitrary: s)
  case (Cons e es)
  obtain s1 out where e: "req_op e s = (s1, out)" by fastforce
  obtain s2 out' where r: "req_run es s1 = (s2, out')" by fastforce
  have s1: "req_step e s = s1" using e by (simp add: req_step_def)
  have "req_inv s1" "legal_run es s1" using Cons.prems requests.inv_step [of s e] s1 by auto
  from Cons.IH [OF this] r have IH: "(if pending s1 rid then 1 else 0) + opens rid es = outcomes rid out' + (if pending s2 rid then 1 else 0)"
    by simp
  have "(if pending s rid then 1 else 0) + (if opened e = Some rid then 1 else 0) = outcomes rid out + (if pending s1 rid then 1 else 0)"
    using op_balance [of s e rid] Cons.prems e s1 by simp
  then show ?case using IH e r by (simp add: opens_def split: if_splits)
qed (simp add: opens_def)

text \<open>A request's own timer, while it is open.\<close>

lemma pending_timer:
  assumes "req_inv s" "pending s rid"
  obtains i where "timer (rclock s) i = Some rid"
  using assms entry_ok_inv [OF assms(1)] by (auto simp: pending_def entry_ok_def)

lemma timeout_closes:
  assumes "req_inv s" "timer (rclock s) i = Some rid"
  shows "\<not> pending (fst (req_timeout i s)) rid \<and> outcomes rid (snd (req_timeout i s)) = 1"
proof -
  obtain e where "entry_at s rid = Some e" by (rule timer_entry [OF assms])
  then have "\<not> pending (fst (req_timeout i s)) rid" "pending s rid"
    using assms(2) by (auto simp: req_timeout_def pending_def entry_at_delete)
  then show ?thesis using timeout_settles [OF assms(1), of i] by (simp add: settles_def)
qed

end
