(* ===== verification/Cluster.thy ===== *)
theory Cluster
  imports Locks Requests JsValue
begin

text \<open>
  The cluster node (\<open>core/src/cluster\<close>): the registry of live peers (\<open>registry.ts\<close>), and the part
  of \<open>node.ts\<close> that ties the registry, the pending requests and the creation locks together: what
  a received message does to them, the heartbeat tick, the loss of a peer, taking and giving back
  a pool's lock. The backplane and the handlers of the server are outside: what the node publishes
  is returned, and a message whose handling is the server's only proves its sender alive here.
  Clock readings are rationals.
\<close>

section \<open>The registry of peers\<close>

record PeerBeat =
  brooms :: jsnum
  bclients :: jsnum
  bdraining :: bool
  bmeta :: jsval

record Peer =
  peer_id :: jsstring
  roomCount :: jsnum
  clientCount :: jsnum
  draining :: bool
  metadata :: jsval
  lastSeenAt :: rat

record PeerRegistry =
  gpeers :: "(jsstring \<times> Peer) list"
  peerTimeout :: rat
  gstarted :: bool

datatype notice = Found jsstring | Lost jsstring

definition peer_at :: "PeerRegistry \<Rightarrow> jsstring \<Rightarrow> Peer option" where
  "peer_at g p = map_of (gpeers g) p"

definition reg_has :: "jsstring \<Rightarrow> PeerRegistry \<Rightarrow> bool" where
  "reg_has p g = (peer_at g p \<noteq> None)"

definition reg_list :: "PeerRegistry \<Rightarrow> Peer list" where
  "reg_list g = map snd (gpeers g)"

definition reg_start :: "PeerRegistry \<Rightarrow> PeerRegistry" where
  "reg_start g = g\<lparr>gstarted := True\<rparr>"

definition reg_stop :: "PeerRegistry \<Rightarrow> PeerRegistry" where
  "reg_stop g = (if gstarted g then g\<lparr>gstarted := False, gpeers := []\<rparr> else g)"

definition reg_seen :: "jsstring \<Rightarrow> PeerBeat option \<Rightarrow> rat \<Rightarrow> PeerRegistry \<Rightarrow> PeerRegistry \<times> notice list" where
  "reg_seen p beat now g =
     (case peer_at g p of
        None \<Rightarrow>
          (g\<lparr>gpeers := AList.update p
              (case beat of
                 None \<Rightarrow> \<lparr>peer_id = p, roomCount = num_of_int 0, clientCount = num_of_int 0, draining = False, metadata = JObj [], lastSeenAt = now\<rparr>
               | Some b \<Rightarrow> \<lparr>peer_id = p, roomCount = brooms b, clientCount = bclients b, draining = bdraining b, metadata = bmeta b, lastSeenAt = now\<rparr>)
              (gpeers g)\<rparr>, [Found p])
      | Some existing \<Rightarrow>
          (g\<lparr>gpeers := AList.update p
              (case beat of
                 None \<Rightarrow> existing\<lparr>lastSeenAt := now\<rparr>
               | Some b \<Rightarrow> existing\<lparr>lastSeenAt := now, roomCount := brooms b, clientCount := bclients b, draining := bdraining b, metadata := bmeta b\<rparr>)
              (gpeers g)\<rparr>, []))"

definition reg_gone :: "jsstring \<Rightarrow> PeerRegistry \<Rightarrow> PeerRegistry \<times> notice list" where
  "reg_gone p g = (if reg_has p g then (g\<lparr>gpeers := AList.delete p (gpeers g)\<rparr>, [Lost p]) else (g, []))"

fun sweep_peers :: "rat \<Rightarrow> Peer list \<Rightarrow> PeerRegistry \<Rightarrow> PeerRegistry \<times> notice list" where
  "sweep_peers deadline [] g = (g, [])"
| "sweep_peers deadline (p # ps) g =
     (case (if lastSeenAt p \<le> deadline then reg_gone (peer_id p) g else (g, [])) of
        (g, out) \<Rightarrow> case sweep_peers deadline ps g of (g, out') \<Rightarrow> (g, out @ out'))"

definition reg_sweep :: "rat \<Rightarrow> PeerRegistry \<Rightarrow> PeerRegistry \<times> notice list" where
  "reg_sweep now g = sweep_peers (now - peerTimeout g) (reg_list g) g"

definition reg_ok :: "PeerRegistry \<Rightarrow> bool" where
  "reg_ok g = (distinct (map fst (gpeers g)) \<and> (\<forall>p e. peer_at g p = Some e \<longrightarrow> peer_id e = p) \<and> (\<not> gstarted g \<longrightarrow> gpeers g = []))"

lemma peer_at_simps: "peer_at (g\<lparr>gpeers := AList.update p e (gpeers g)\<rparr>) = (peer_at g)(p \<mapsto> e)"
  "peer_at (g\<lparr>gpeers := AList.delete p (gpeers g)\<rparr>) = (peer_at g)(p := None)"
  by (auto simp: peer_at_def update_conv' delete_conv')

lemma reg_seen_has: "reg_has q (fst (reg_seen p beat now g)) = (q = p \<or> reg_has q g)"
  by (auto simp: reg_seen_def reg_has_def peer_at_simps split: option.splits)

lemma reg_gone_has: "reg_has q (fst (reg_gone p g)) = (q \<noteq> p \<and> reg_has q g)"
  by (auto simp: reg_gone_def reg_has_def peer_at_simps)

lemma reg_seen_ok: "reg_ok g \<Longrightarrow> gstarted g \<Longrightarrow> reg_ok (fst (reg_seen p beat now g))"
  unfolding reg_ok_def reg_seen_def by (auto simp: distinct_update peer_at_simps split: option.splits if_splits)

lemma reg_gone_ok: "reg_ok g \<Longrightarrow> reg_ok (fst (reg_gone p g))"
  unfolding reg_ok_def reg_gone_def by (auto simp: distinct_delete peer_at_simps split: if_splits)

lemma reg_gone_map: "peer_at (fst (reg_gone p g)) = (peer_at g)(p := None)"
  by (auto simp: reg_gone_def reg_has_def peer_at_simps)

lemma reg_gone_fields [simp]: "peerTimeout (fst (reg_gone p g)) = peerTimeout g" "gstarted (fst (reg_gone p g)) = gstarted g"
  by (simp_all add: reg_gone_def)

text \<open>What a sweep drops, and who is told.\<close>

lemma sweep_peers_facts:
  "reg_ok g \<Longrightarrow> \<forall>p \<in> set ps. peer_at g (peer_id p) = Some p \<Longrightarrow> distinct (map peer_id ps) \<Longrightarrow>
   peer_at (fst (sweep_peers d ps g)) q = (if \<exists>p \<in> set ps. peer_id p = q \<and> lastSeenAt p \<le> d then None else peer_at g q)
   \<and> snd (sweep_peers d ps g) = map (Lost \<circ> peer_id) (filter (\<lambda>p. lastSeenAt p \<le> d) ps)
   \<and> reg_ok (fst (sweep_peers d ps g)) \<and> peerTimeout (fst (sweep_peers d ps g)) = peerTimeout g
   \<and> gstarted (fst (sweep_peers d ps g)) = gstarted g"
proof (induction ps arbitrary: g)
  case (Cons p ps)
  show ?case
  proof (cases "lastSeenAt p \<le> d")
    case True
    obtain g1 where g1: "reg_gone (peer_id p) g = (g1, [Lost (peer_id p)])"
      using Cons.prems(2) by (auto simp: reg_gone_def reg_has_def)
    have k: "reg_ok g1" "peer_at g1 = (peer_at g)(peer_id p := None)" "peerTimeout g1 = peerTimeout g" "gstarted g1 = gstarted g"
      using reg_gone_ok [OF Cons.prems(1), of "peer_id p"] reg_gone_map [of "peer_id p" g] reg_gone_fields [of "peer_id p" g] g1 by simp_all
    have m: "\<forall>x \<in> set ps. peer_at g1 (peer_id x) = Some x"
    proof
      fix x assume x: "x \<in> set ps"
      then have "peer_id x \<noteq> peer_id p" using Cons.prems(3) by (simp add: image_iff) metis
      with x show "peer_at g1 (peer_id x) = Some x" using Cons.prems(2) k(2) by simp
    qed
    obtain g2 out where g2: "sweep_peers d ps g1 = (g2, out)" by fastforce
    from Cons.IH [OF k(1) m] Cons.prems(3) g2 k True g1 show ?thesis by auto
  next
    case False
    obtain g2 out where g2: "sweep_peers d ps g = (g2, out)" by fastforce
    from Cons.IH [OF Cons.prems(1)] Cons.prems(2,3) g2 False show ?thesis by auto
  qed
qed simp

lemma reg_list_ids:
  assumes "reg_ok g"
  shows "map peer_id (reg_list g) = map fst (gpeers g)" "\<forall>p \<in> set (reg_list g). peer_at g (peer_id p) = Some p"
proof -
  have "peer_at g q = Some e" "peer_id e = q" if "(q, e) \<in> set (gpeers g)" for q e
    using assms that by (auto simp: reg_ok_def peer_at_def)
  then show "map peer_id (reg_list g) = map fst (gpeers g)" "\<forall>p \<in> set (reg_list g). peer_at g (peer_id p) = Some p"
    by (auto simp: reg_list_def)
qed

lemma peer_in_list: "reg_ok g \<Longrightarrow> peer_at g q = Some p \<Longrightarrow> p \<in> set (reg_list g) \<and> peer_id p = q"
  by (force simp: reg_ok_def reg_list_def peer_at_def dest: map_of_SomeD)

lemma reg_sweep_map:
  assumes "reg_ok g"
  shows "peer_at (fst (reg_sweep now g)) q
      = (case peer_at g q of None \<Rightarrow> None | Some p \<Rightarrow> if lastSeenAt p \<le> now - peerTimeout g then None else Some p)
    \<and> snd (reg_sweep now g) = map (Lost \<circ> peer_id) (filter (\<lambda>p. lastSeenAt p \<le> now - peerTimeout g) (reg_list g))
    \<and> reg_ok (fst (reg_sweep now g)) \<and> gstarted (fst (reg_sweep now g)) = gstarted g"
proof -
  have d: "distinct (map peer_id (reg_list g))" using assms by (simp add: reg_list_ids(1) [OF assms]) (simp add: reg_ok_def)
  have f: "peer_at (fst (reg_sweep now g)) q
      = (if \<exists>p \<in> set (reg_list g). peer_id p = q \<and> lastSeenAt p \<le> now - peerTimeout g then None else peer_at g q)"
    "snd (reg_sweep now g) = map (Lost \<circ> peer_id) (filter (\<lambda>p. lastSeenAt p \<le> now - peerTimeout g) (reg_list g))"
    "reg_ok (fst (reg_sweep now g))" "gstarted (fst (reg_sweep now g)) = gstarted g"
    unfolding reg_sweep_def using sweep_peers_facts [OF assms reg_list_ids(2) [OF assms] d, of "now - peerTimeout g" q] by blast+
  have "(\<exists>p \<in> set (reg_list g). peer_id p = q \<and> lastSeenAt p \<le> now - peerTimeout g)
      \<longleftrightarrow> (\<exists>p. peer_at g q = Some p \<and> lastSeenAt p \<le> now - peerTimeout g)"
    using reg_list_ids(2) [OF assms] peer_in_list [OF assms] by blast
  with f show ?thesis by (auto split: option.splits)
qed

section \<open>The node\<close>

text \<open>
  Messages by what they do to the node's own state. \<open>MReply\<close> stands for the replies routed to a
  pending request with the value they carry, \<open>MOther\<close> for the messages the server's handlers answer.
\<close>

datatype ClusterMessage =
    MHello
  | MHeartbeat PeerBeat
  | MBye
  | MLockRequest jsstring jsstring
  | MLockGrant jsstring jsstring
  | MUnlock jsstring jsstring
  | MReply jsstring jsval
  | MMiss jsstring
  | MOther

text \<open>What the node publishes: its heartbeat or another message to every process, or a message to one.\<close>

datatype published = Beat | ToAll ClusterMessage | To jsstring ClusterMessage

record ClusterNode =
  nself :: jsstring
  requestTimeout :: rat
  nrunning :: bool
  nregistry :: PeerRegistry
  npending :: "jsval Pending"
  nlocks :: LockTable

definition node_peers :: "ClusterNode \<Rightarrow> jsstring list" where
  "node_peers n = map peer_id (reg_list (nregistry n))"

text \<open>
  The promise of \<open>acquire\<close> resolves for each waiter granted: one of another process is told so,
  on its channel. A waiter of this process goes on in \<open>lock\<close>.
\<close>

definition grants_to :: "jsstring \<Rightarrow> Waiter list \<Rightarrow> published list" where
  "grants_to me ws =
     map (\<lambda>w. To (waiter_process w) (MLockGrant (waiter_id w) (waiter_grant w))) (filter (\<lambda>w. waiter_process w \<noteq> me) ws)"

definition with_locks :: "LockTable \<times> Waiter list \<Rightarrow> ClusterNode \<Rightarrow> ClusterNode \<times> published list" where
  "with_locks r n = (n\<lparr>nlocks := fst r\<rparr>, grants_to (nself n) (snd r))"

text \<open>\<open>_peerLost\<close>, run for each peer the registry drops, in order.\<close>

definition peerLost :: "jsstring \<Rightarrow> ClusterNode \<Rightarrow> ClusterNode \<times> published list" where
  "peerLost p n = with_locks (processLost p (nlocks n)) (n\<lparr>npending := fst (failPeer p (npending n))\<rparr>)"

fun notify :: "notice list \<Rightarrow> ClusterNode \<Rightarrow> ClusterNode \<times> published list" where
  "notify [] n = (n, [])"
| "notify (Found p # ns) n = notify ns n"
| "notify (Lost p # ns) n = (case peerLost p n of (n, out) \<Rightarrow> case notify ns n of (n, out') \<Rightarrow> (n, out @ out'))"

definition with_registry :: "PeerRegistry \<times> notice list \<Rightarrow> ClusterNode \<Rightarrow> ClusterNode \<times> published list" where
  "with_registry r n = notify (snd r) (n\<lparr>nregistry := fst r\<rparr>)"

definition node_handle :: "jsstring \<Rightarrow> ClusterMessage \<Rightarrow> rat \<Rightarrow> ClusterNode \<Rightarrow> ClusterNode \<times> published list" where
  "node_handle frm m now n =
     (case m of
        MHello \<Rightarrow> (n, [Beat])
      | MHeartbeat beat \<Rightarrow> with_registry (reg_seen frm (Some beat) now (nregistry n)) n
      | MBye \<Rightarrow> with_registry (reg_gone frm (nregistry n)) n
      | MLockRequest rid pool \<Rightarrow> with_locks (acquire pool frm rid (nlocks n)) n
      | MLockGrant rid pool \<Rightarrow>
          if \<not> pending (npending n) rid then (n, [To frm (MUnlock pool rid)])
          else (n\<lparr>npending := fst (req_deliver rid (JBool True) frm (npending n))\<rparr>, [])
      | MUnlock pool lease \<Rightarrow> with_locks (release pool lease (nlocks n)) n
      | MReply rid v \<Rightarrow> (n\<lparr>npending := fst (req_deliver rid v frm (npending n))\<rparr>, [])
      | MMiss rid \<Rightarrow> (n\<lparr>npending := fst (req_miss rid frm (npending n))\<rparr>, [])
      | MOther \<Rightarrow> (n, []))"

definition node_receive :: "jsstring \<Rightarrow> ClusterMessage \<Rightarrow> rat \<Rightarrow> ClusterNode \<Rightarrow> ClusterNode \<times> published list" where
  "node_receive frm m now n =
     (if frm = nself n \<or> \<not> nrunning n then (n, [])
      else case (if m = MBye then (n, []) else with_registry (reg_seen frm None now (nregistry n)) n) of
             (n, out) \<Rightarrow> case node_handle frm m now n of (n, out') \<Rightarrow> (n, out @ out'))"

text \<open>The heartbeat interval: announce, then sweep. It runs between \<open>start\<close> and \<open>stop\<close> of the registry.\<close>

definition node_tick :: "rat \<Rightarrow> ClusterNode \<Rightarrow> ClusterNode \<times> published list" where
  "node_tick now n =
     (if gstarted (nregistry n) then
        (case with_registry (reg_sweep now (nregistry n)) n of (n, out) \<Rightarrow> (n, Beat # out))
      else (n, []))"

definition node_coordinator :: "jsstring \<Rightarrow> ClusterNode \<Rightarrow> jsstring" where
  "node_coordinator pool n = (case coordinatorOf pool (nself n # node_peers n) of None \<Rightarrow> nself n | Some c \<Rightarrow> c)"

definition lockWaitMs :: "rat \<Rightarrow> rat" where
  "lockWaitMs ms = ms * 6"

text \<open>
  \<open>lock\<close> from the top of its loop to where it waits or is done: \<open>i\<close> is the fresh id, of the lease or of
  the request. It waits for a grant of its own table, for an answer of the coordinator, or goes on unlocked.
\<close>

datatype lock_wait = Local jsstring | Remote jsstring jsstring | Unlocked

definition node_lock :: "nat \<Rightarrow> jsstring \<Rightarrow> jsstring \<Rightarrow> ClusterNode \<Rightarrow> (ClusterNode \<times> published list) \<times> lock_wait" where
  "node_lock attempt pool i n =
     (if attempt < 3 \<and> nrunning n then
        let coordinator = node_coordinator pool n
        in if coordinator = nself n then (with_locks (acquire pool (nself n) i (nlocks n)) n, Local i)
           else ((n\<lparr>npending := fst (req_single i coordinator (lockWaitMs (requestTimeout n)) (npending n))\<rparr>,
                  [To coordinator (MLockRequest i pool)]), Remote coordinator i)
      else ((n, []), Unlocked))"

text \<open>
  What \<open>lock\<close> does with the coordinator's answer: it is done, holding the lease \<open>rid\<close>; it asks the
  successor of a coordinator that died, with a fresh id; or it leaves the queue and goes on unlocked.
\<close>

definition lock_answered ::
  "nat \<Rightarrow> jsstring \<Rightarrow> jsstring \<Rightarrow> jsstring \<Rightarrow> jsval outcome \<Rightarrow> jsstring \<Rightarrow> ClusterNode \<Rightarrow> (ClusterNode \<times> published list) \<times> lock_wait" where
  "lock_answered attempt pool coordinator rid answer i n =
     (case answer of
        Failed PeerLost \<Rightarrow> node_lock (attempt + 1) pool i n
      | Failed _ \<Rightarrow> ((n, [To coordinator (MUnlock pool rid)]), Unlocked)
      | _ \<Rightarrow> ((n, []), Remote coordinator rid))"

definition node_unlock :: "jsstring \<Rightarrow> jsstring \<Rightarrow> ClusterNode \<Rightarrow> ClusterNode \<times> published list" where
  "node_unlock pool lease n = with_locks (release pool lease (nlocks n)) n"

definition node_lease_timer :: "nat \<Rightarrow> ClusterNode \<Rightarrow> ClusterNode \<times> published list" where
  "node_lease_timer i n = with_locks (expire i (nlocks n)) n"

text \<open>The function a caller of \<open>lock\<close> gets to give the lock back.\<close>

fun lock_end :: "jsstring \<Rightarrow> lock_wait \<Rightarrow> ClusterNode \<Rightarrow> ClusterNode \<times> published list" where
  "lock_end pool (Local lease) n = node_unlock pool lease n"
| "lock_end pool (Remote coordinator rid) n = (n, [To coordinator (MUnlock pool rid)])"
| "lock_end pool Unlocked n = (n, [])"

text \<open>\<open>start\<close> once both subscriptions succeeded.\<close>

definition node_start :: "ClusterNode \<Rightarrow> ClusterNode \<times> published list" where
  "node_start n = (n\<lparr>nrunning := True, nregistry := reg_start (nregistry n)\<rparr>, [ToAll MHello, Beat])"

definition node_stop :: "ClusterNode \<Rightarrow> ClusterNode \<times> published list" where
  "node_stop n =
     (if \<not> nrunning n then (n, [])
      else (n\<lparr>nrunning := False, nregistry := reg_stop (nregistry n), npending := fst (req_stop (npending n)),
              nlocks := locks_stop (nlocks n)\<rparr>, [ToAll MBye]))"

section \<open>Only live processes hold locks\<close>

datatype NodeEvent =
    NReceive jsstring ClusterMessage rat
  | NTick rat
  | NLock nat jsstring jsstring
  | NUnlock jsstring jsstring
  | NLeaseTimer nat
  | NRequestTimer nat
  | NStart
  | NStop

fun node_step :: "NodeEvent \<Rightarrow> ClusterNode \<Rightarrow> ClusterNode" where
  "node_step (NReceive frm m now) n = fst (node_receive frm m now n)"
| "node_step (NTick now) n = fst (node_tick now n)"
| "node_step (NLock attempt pool i) n = fst (fst (node_lock attempt pool i n))"
| "node_step (NUnlock pool lease) n = fst (node_unlock pool lease n)"
| "node_step (NLeaseTimer i) n = fst (node_lease_timer i n)"
| "node_step (NRequestTimer i) n = n\<lparr>npending := fst (req_timeout i (npending n))\<rparr>"
| "node_step NStart n = fst (node_start n)"
| "node_step NStop n = fst (node_stop n)"

text \<open>Ids handed out for locks are fresh among the node's requests.\<close>

fun node_legal :: "ClusterNode \<Rightarrow> NodeEvent \<Rightarrow> bool" where
  "node_legal n (NLock attempt pool i) = (\<not> pending (npending n) i)"
| "node_legal n e = True"

definition new_node :: "jsstring \<Rightarrow> rat \<Rightarrow> rat \<Rightarrow> ClusterNode" where
  "new_node self peerTimeoutMs requestMs =
     \<lparr>nself = self, requestTimeout = requestMs, nrunning = False,
      nregistry = \<lparr>gpeers = [], peerTimeout = peerTimeoutMs, gstarted = False\<rparr>,
      npending = new_requests, nlocks = new_locks (lockWaitMs requestMs)\<rparr>"

text \<open>Who may hold or await a lock here: this process and the peers it believes alive.\<close>

definition live :: "ClusterNode \<Rightarrow> jsstring \<Rightarrow> bool" where
  "live n p = (p = nself n \<or> reg_has p (nregistry n))"

definition node_inv :: "ClusterNode \<Rightarrow> bool" where
  "node_inv n =
     (reg_ok (nregistry n) \<and> req_inv (npending n) \<and> lock_inv (nlocks n) \<and> gstarted (nregistry n) = nrunning n
      \<and> (\<forall>pool r. r \<in> set (lock_abs (nlocks n) pool) \<longrightarrow> live n (fst r)))"

lemma node_inv_live: "node_inv n \<Longrightarrow> r \<in> set (lock_abs (nlocks n) pool) \<Longrightarrow> live n (fst r)"
  unfolding node_inv_def by blast

lemma with_locks_fields [simp]:
  "fst (with_locks r n) = n\<lparr>nlocks := fst r\<rparr>"
  by (simp add: with_locks_def)

lemma peerLost_fields [simp]:
  "nself (fst (peerLost p n)) = nself n" "nrunning (fst (peerLost p n)) = nrunning n" "nregistry (fst (peerLost p n)) = nregistry n"
  by (simp_all add: peerLost_def)

lemma notify_fields [simp]:
  "nself (fst (notify ns n)) = nself n" "nrunning (fst (notify ns n)) = nrunning n" "nregistry (fst (notify ns n)) = nregistry n"
proof (induction ns arbitrary: n)
  case (Cons a ns)
  { case 1 show ?case using Cons by (cases a) (simp_all add: case_prod_beta) }
  { case 2 show ?case using Cons by (cases a) (simp_all add: case_prod_beta) }
  { case 3 show ?case using Cons by (cases a) (simp_all add: case_prod_beta) }
qed simp_all

lemma notify_state:
  "req_inv (npending n) \<Longrightarrow> lock_inv (nlocks n) \<Longrightarrow>
   req_inv (npending (fst (notify ns n))) \<and> lock_inv (nlocks (fst (notify ns n)))
   \<and> lock_abs (nlocks (fst (notify ns n))) pool = filter (\<lambda>r. Lost (fst r) \<notin> set ns) (lock_abs (nlocks n) pool)"
proof (induction ns arbitrary: n)
  case (Cons a ns)
  have "req_inv (npending (fst (peerLost p n)))" for p
    using each_settles [where f = "fail_one p", OF fail_one_settles Cons.prems(1)] by (simp add: peerLost_def failPeer_def settles_def)
  moreover have "lock_inv (nlocks (fst (peerLost p n)))"
    "lock_abs (nlocks (fst (peerLost p n))) pool = filter (\<lambda>r. fst r \<noteq> p) (lock_abs (nlocks n) pool)" for p
    using lost_refines [OF Cons.prems(2), of p] by (simp_all add: peerLost_def)
  ultimately show ?case using Cons.IH Cons.prems by (cases a) (auto simp: case_prod_beta intro!: filter_cong)
qed simp_all

text \<open>A registry step keeps the invariant if the peers it drops are the ones it reports.\<close>

lemma with_registry_inv:
  assumes n: "node_inv n" and g: "reg_ok (fst r)" "gstarted (fst r) = nrunning n"
    and d: "\<And>p. reg_has p (nregistry n) \<Longrightarrow> \<not> reg_has p (fst r) \<Longrightarrow> Lost p \<in> set (snd r)"
  shows "node_inv (fst (with_registry r n))"
proof -
  let ?n = "fst (with_registry r n)"
  have f: "nself ?n = nself n" "nrunning ?n = nrunning n" "nregistry ?n = fst r" by (simp_all add: with_registry_def)
  have s: "req_inv (npending ?n)" "lock_inv (nlocks ?n)"
    "lock_abs (nlocks ?n) pool = filter (\<lambda>q. Lost (fst q) \<notin> set (snd r)) (lock_abs (nlocks n) pool)" for pool
    using notify_state [of "n\<lparr>nregistry := fst r\<rparr>" "snd r"] n by (simp_all add: node_inv_def with_registry_def)
  have "live ?n (fst q)" if "q \<in> set (lock_abs (nlocks ?n) pool)" for q pool
  proof -
    have "Lost (fst q) \<notin> set (snd r)" and old: "q \<in> set (lock_abs (nlocks n) pool)" using that s(3) by auto
    moreover have "live n (fst q)" by (rule node_inv_live [OF n old])
    ultimately show ?thesis using f d unfolding live_def by metis
  qed
  then show ?thesis unfolding node_inv_def using f s(1,2) g by simp
qed

lemma seen_inv:
  assumes "node_inv n" "nrunning n"
  shows "node_inv (fst (with_registry (reg_seen p beat now (nregistry n)) n))"
proof (rule with_registry_inv [OF assms(1)])
  show "reg_ok (fst (reg_seen p beat now (nregistry n)))" using assms by (intro reg_seen_ok) (simp_all add: node_inv_def)
  show "gstarted (fst (reg_seen p beat now (nregistry n))) = nrunning n"
    using assms by (auto simp: node_inv_def reg_seen_def split: option.splits)
qed (simp add: reg_seen_has)

lemma gone_inv:
  assumes "node_inv n"
  shows "node_inv (fst (with_registry (reg_gone p (nregistry n)) n))"
proof (rule with_registry_inv [OF assms])
  show "reg_ok (fst (reg_gone p (nregistry n)))" using assms by (intro reg_gone_ok) (simp add: node_inv_def)
  show "gstarted (fst (reg_gone p (nregistry n))) = nrunning n" using assms by (simp add: node_inv_def)
  fix q assume "reg_has q (nregistry n)" "\<not> reg_has q (fst (reg_gone p (nregistry n)))"
  then have "q = p" "reg_has p (nregistry n)" by (auto simp: reg_gone_has)
  then show "Lost q \<in> set (snd (reg_gone p (nregistry n)))" by (simp add: reg_gone_def)
qed

lemma sweep_inv:
  assumes "node_inv n"
  shows "node_inv (fst (with_registry (reg_sweep now (nregistry n)) n))"
proof (rule with_registry_inv [OF assms])
  let ?g = "nregistry n"
  have ok: "reg_ok ?g" using assms by (simp add: node_inv_def)
  note f = reg_sweep_map [OF ok, of now]
  show "reg_ok (fst (reg_sweep now ?g))" "gstarted (fst (reg_sweep now ?g)) = nrunning n"
    using f assms by (simp_all add: node_inv_def)
  fix q assume h: "reg_has q ?g" "\<not> reg_has q (fst (reg_sweep now ?g))"
  then obtain p where p: "peer_at ?g q = Some p" "lastSeenAt p \<le> now - peerTimeout ?g"
    using f [of q] by (auto simp: reg_has_def split: if_splits)
  have "p \<in> set (reg_list ?g)" "peer_id p = q" using peer_in_list [OF ok p(1)] by simp_all
  then show "Lost q \<in> set (snd (reg_sweep now ?g))" using f [of q] p(2) by (auto simp: image_iff)
qed

lemma lock_change_inv:
  assumes "node_inv n" "lock_inv t" "\<And>pool r. r \<in> set (lock_abs t pool) \<Longrightarrow> r \<in> set (lock_abs (nlocks n) pool) \<or> live n (fst r)"
  shows "node_inv (n\<lparr>nlocks := t\<rparr>)"
proof -
  have "live (n\<lparr>nlocks := t\<rparr>) (fst r)" if "r \<in> set (lock_abs t pool)" for r pool
    using assms(3) [OF that] node_inv_live [OF assms(1), of r pool] by (auto simp: live_def)
  then show ?thesis using assms(1,2) by (simp add: node_inv_def)
qed

lemma pending_change_inv: "node_inv n \<Longrightarrow> req_inv s \<Longrightarrow> node_inv (n\<lparr>npending := s\<rparr>)"
  by (auto simp: node_inv_def live_def)

lemma set_remove_first: "set (remove_first P xs) \<subseteq> set xs"
  by (induction xs) auto

lemma acquire_inv: "node_inv n \<Longrightarrow> live n p \<Longrightarrow> node_inv (n\<lparr>nlocks := fst (acquire pool p i (nlocks n))\<rparr>)"
  using acquire_refines [of "nlocks n" pool p i] by (intro lock_change_inv) (auto simp: node_inv_def split: if_splits)

lemma release_inv: "node_inv n \<Longrightarrow> node_inv (n\<lparr>nlocks := fst (release pool i (nlocks n))\<rparr>)"
  using release_refines [of "nlocks n" pool i]
  by (intro lock_change_inv) (auto simp: node_inv_def split: if_splits dest!: subsetD [OF set_remove_first])

lemma expire_inv:
  assumes "node_inv n"
  shows "node_inv (n\<lparr>nlocks := fst (expire i (nlocks n))\<rparr>)"
proof (cases "timer (lclock (nlocks n)) i")
  case None
  then show ?thesis using assms by (simp add: expire_def)
next
  case (Some p)
  then show ?thesis using expire_eq_release [of "nlocks n" i "fst p" "snd p"] release_inv [OF assms, of "fst p" "snd p"] assms
    by (cases p) (simp add: node_inv_def)
qed

lemma deliver_inv: "req_inv s \<Longrightarrow> req_inv (fst (req_deliver rid v frm s))"
  "req_inv s \<Longrightarrow> req_inv (fst (req_miss rid frm s))" "req_inv s \<Longrightarrow> req_inv (fst (req_timeout i s))"
  "req_inv s \<Longrightarrow> req_inv (fst (req_stop s))"
  using deliver_settles [of s rid v frm] miss_settles [of s rid frm] timeout_settles [of s i]
    each_settles [where f = stop_one and s = s, OF stop_one_settles]
  by (auto simp: settles_def req_stop_def)

lemma handle_inv:
  assumes "node_inv n" "nrunning n" "m \<noteq> MBye \<longrightarrow> live n frm"
  shows "node_inv (fst (node_handle frm m now n))"
proof -
  have r: "req_inv (npending n)" using assms(1) by (simp add: node_inv_def)
  show ?thesis using assms
    by (cases m) (simp_all add: node_handle_def seen_inv gone_inv acquire_inv release_inv pending_change_inv deliver_inv r)
qed

lemma receive_inv:
  assumes "node_inv n"
  shows "node_inv (fst (node_receive frm m now n))"
proof (cases "frm = nself n \<or> \<not> nrunning n")
  case True
  then show ?thesis using assms by (simp add: node_receive_def)
next
  case False
  let ?n = "fst (if m = MBye then (n, []) else with_registry (reg_seen frm None now (nregistry n)) n)"
  have "node_inv ?n" using assms False seen_inv by simp
  moreover have "nrunning ?n" "m \<noteq> MBye \<longrightarrow> live ?n frm" using False reg_seen_has by (simp_all add: with_registry_def live_def)
  ultimately have "node_inv (fst (node_handle frm m now ?n))" by (rule handle_inv)
  then show ?thesis using False unfolding node_receive_def by (simp add: case_prod_beta)
qed

lemma lock_inv_call:
  assumes "node_inv n" "\<not> pending (npending n) i"
  shows "node_inv (fst (fst (node_lock attempt pool i n)))"
proof -
  have "req_inv (fst (req_single i c ms (npending n)))" for c ms
    using open_inv [of "npending n" i Single None "Some c" ms] assms by (simp add: req_single_def node_inv_def pending_def)
  then show ?thesis
    using assms(1) acquire_inv [OF assms(1), of "nself n" pool i]
    by (auto simp: node_lock_def Let_def pending_change_inv live_def case_prod_beta)
qed

lemma start_inv:
  assumes "node_inv n"
  shows "node_inv (fst (node_start n))"
proof -
  have "reg_ok (reg_start (nregistry n))" "reg_has p (reg_start (nregistry n)) = reg_has p (nregistry n)" for p
    using assms by (simp_all add: node_inv_def reg_ok_def reg_start_def peer_at_def reg_has_def)
  then show ?thesis using assms unfolding node_inv_def by (simp add: node_start_def live_def) (simp add: reg_start_def)
qed

lemma stop_inv:
  assumes "node_inv n"
  shows "node_inv (fst (node_stop n))"
proof (cases "nrunning n")
  case True
  then have "reg_stop (nregistry n) = (nregistry n)\<lparr>gstarted := False, gpeers := []\<rparr>"
    using assms by (simp add: node_inv_def reg_stop_def)
  then show ?thesis
    using True assms stop_refines [of "nlocks n"] deliver_inv(4) [of "npending n"]
    unfolding node_inv_def by (simp add: node_stop_def reg_ok_def peer_at_def)
qed (simp add: node_stop_def assms)

interpretation node: machine node_legal node_step node_inv
proof
  fix n e assume n: "node_inv n" and l: "node_legal n e"
  have "req_inv (npending n)" using n by (simp add: node_inv_def)
  then show "node_inv (node_step e n)" using n l
    by (cases e) (simp_all add: receive_inv sweep_inv lock_inv_call release_inv expire_inv start_inv stop_inv deliver_inv
        pending_change_inv node_tick_def node_unlock_def node_lease_timer_def case_prod_beta)
qed

lemma node_inv_new: "node_inv (new_node self ms lease)"
  using req_inv_new lock_inv_new by (simp add: node_inv_def new_node_def reg_ok_def peer_at_def lock_abs_def new_locks_def pool_at_def)

lemma node_step_self: "nself (node_step e n) = nself n"
  by (cases e) (auto simp: node_receive_def node_handle_def node_tick_def node_lock_def node_unlock_def node_lease_timer_def
      node_start_def node_stop_def with_registry_def Let_def case_prod_beta split: ClusterMessage.splits)

lemma node_reach_self: "reach node_legal node_step (new_node self ms requestMs) n \<Longrightarrow> nself n = self"
  by (induction rule: reach.induct) (simp_all add: node_step_self new_node_def)

end
