(* ===== verification/ClusterProperties.thy ===== *)
theory ClusterProperties
  imports Cluster
begin

text \<open>
  The properties of the cluster: which process coordinates a pool's lock, the lock table as a queue
  of requests, the pending requests and the node that ties them to the registry of peers. States
  are the ones reachable from a new table, a new set of requests and a new node, by any sequence of
  operations, messages and firing timers.
\<close>

abbreviation locks_reach :: "rat \<Rightarrow> LockTable \<Rightarrow> bool" where
  "locks_reach ms \<equiv> reach (\<lambda>_ _. True) lock_step (new_locks ms)"

lemma locks_reach_inv: "locks_reach ms t \<Longrightarrow> lock_inv t \<and> grant_ok t"
  using grants.inv_reach [of "new_locks ms" t] lock_inv_new grant_ok_new by blast

text \<open>C33: processes that see the same members, in whatever order, name the same coordinator for a pool,
  a member; and the members that leave change it for no pool of which they were not the coordinator.\<close>

theorem coordinator_agreed:
  "members \<noteq> [] \<Longrightarrow> \<exists>c \<in> set members. coordinatorOf pool members = Some c
    \<and> (\<forall>rest. set rest \<subseteq> set members \<longrightarrow> c \<in> set rest \<longrightarrow> coordinatorOf pool rest = Some c)"
proof -
  assume "members \<noteq> []"
  then obtain m ms where "members = m # ms" by (cases members) auto
  then obtain c where "coordinatorOf pool members = Some c"
    using coordinator_loop_some [of pool ms m "pool_score pool m"] score_nonneg [of pool m] by (auto simp: coordinatorOf_def Let_def)
  moreover from this have "c \<in> set members" "set rest \<subseteq> set members \<Longrightarrow> c \<in> set rest \<Longrightarrow> coordinatorOf pool rest = Some c" for rest
    unfolding coordinatorOf_iff by auto
  ultimately show ?thesis by auto
qed

theorem coordinator_agreed_witness: "\<exists>c \<in> {[65], [66]}. coordinatorOf [112] [[65], [66]] = Some c"
  using coordinator_agreed [of "[[65], [66]]" "[112]"] by auto



text \<open>C27: every request told that it holds a pool's lock is that lock's one holder when the operation that
  granted it is over, also when the loss of a process frees many pools at once; a request for a free pool is
  granted at once, and a release passes the lock to the oldest waiter.\<close>

theorem granted_requests_hold:
  assumes "locks_reach ms t"
  shows "(\<forall>w \<in> set (snd (lock_op e t)). holder_of (fst (lock_op e t)) (waiter_grant w) = Some (req w))
    \<and> map req (snd (acquire pool process i t)) = (if lock_abs t pool = [] then [(process, i)] else [])
    \<and> map req (snd (release pool i t)) = (case lock_abs t pool of [] \<Rightarrow> [] | r # rs \<Rightarrow> if snd r = i then take 1 rs else [])"
  using lock_op_granted [of t e] acquire_grants [of t] release_grants [of t] locks_reach_inv [OF assms] by (simp add: granted_def)

theorem granted_requests_hold_witness:
  "map req (snd (release [112] [1] (lock_step (LAcquire [112] [66] [2]) (lock_step (LAcquire [112] [65] [1]) (new_locks 5))))) = [([66], [2])]"
proof -
  let ?t = "lock_step (LAcquire [112] [66] [2]) (lock_step (LAcquire [112] [65] [1]) (new_locks 5))"
  have "locks_reach 5 ?t" by (intro reach.event reach.start TrueI)
  from granted_requests_hold [OF this, of LStop "[112]" "[67]" "[1]"] have
    "map req (snd (release [112] [1] ?t)) = (case lock_abs ?t [112] of [] \<Rightarrow> [] | r # rs \<Rightarrow> if snd r = [1] then take 1 rs else [])" by blast
  moreover have "lock_abs ?t [112] = [([65], [1]), ([66], [2])]" by code_simp
  ultimately show ?thesis by simp
qed

text \<open>C28: no one waits forever for a lock whose holders hang: when the leases ahead of it have run out, one
  timer each, a request holds the lock.\<close>

theorem waiting_for_a_lock_ends:
  assumes "locks_reach ms t" "k < length (lock_abs t pool)"
  shows "holder_of ((expire_holder pool ^^ k) t) pool = Some (lock_abs t pool ! k)"
proof -
  have i: "lock_inv t" using locks_reach_inv [OF assms(1)] ..
  have "lock_inv ((expire_holder pool ^^ k) t)" "lock_abs ((expire_holder pool ^^ k) t) pool = drop k (lock_abs t pool)"
    using expire_holders [OF i, of k pool] by simp_all
  then show ?thesis using holder_of_abs assms(2) by (simp add: Cons_nth_drop_Suc [symmetric])
qed

theorem waiting_for_a_lock_ends_witness:
  "holder_of ((expire_holder [112] ^^ 1) (lock_step (LAcquire [112] [66] [2]) (lock_step (LAcquire [112] [65] [1]) (new_locks 5)))) [112]
    = Some ([66], [2])"
proof -
  let ?t = "lock_step (LAcquire [112] [66] [2]) (lock_step (LAcquire [112] [65] [1]) (new_locks 5))"
  have "locks_reach 5 ?t" by (intro reach.event reach.start TrueI)
  moreover have "lock_abs ?t [112] = [([65], [1]), ([66], [2])]" by code_simp
  ultimately show ?thesis using waiting_for_a_lock_ends [of 5 ?t 1 "[112]"] by simp
qed

text \<open>C29: over any run of the pending requests, each call that opens a request has exactly one outcome, or the
  request is still open: none is settled twice, and none is dropped without an outcome, whether it ends by
  an answer, by the last peer's miss, by the loss of a peer, by its timeout or by stopping.\<close>

theorem requests_settle_once:
  assumes "legal_run es new_requests"
  shows "opens rid es = outcomes rid (snd (req_run es new_requests)) + (if pending (fst (req_run es new_requests)) rid then 1 else 0)"
  using run_balance [OF req_inv_new assms, of rid] by (simp add: pending_def entry_at_def new_requests_def)

theorem requests_settle_once_witness:
  "outcomes [1] (snd (req_run [RFirst [1] 9 (Some [[65]]), RMiss [1] [65], RDeliver [1] JNull [65]] new_requests)) = 1"
proof -
  let ?es = "[RFirst [1] 9 (Some [[65]]), RMiss [1] [65], RDeliver [1] JNull [65]]"
  have "legal_run ?es new_requests" "opens [1] ?es = 1" "\<not> pending (fst (req_run ?es new_requests)) [1]" by code_simp+
  with requests_settle_once [of ?es "[1]"] show ?thesis by simp
qed

text \<open>C30: every open request has a live timer, and its firing settles it; after the loss of a peer none of the
  open requests still waits for that peer.\<close>

theorem open_requests_end:
  assumes "reach req_legal req_step new_requests s" "pending s rid"
  shows "(\<exists>i. timer (rclock s) i = Some rid \<and> \<not> pending (fst (req_timeout i s)) rid \<and> outcomes rid (snd (req_timeout i s)) = 1)
    \<and> (\<forall>peer e. entry_at (fst (failPeer peer s)) rid = Some e \<longrightarrow> \<not> waits_for peer e)"
proof -
  have i: "req_inv s" by (rule requests.inv_reach [OF assms(1) req_inv_new])
  obtain t where "timer (rclock s) t = Some rid" by (rule pending_timer [OF i assms(2)])
  with timeout_closes [OF i this] show ?thesis using failPeer_frees by blast
qed

theorem open_requests_end_witness:
  "\<exists>i. \<not> pending (fst (req_timeout i (req_step (RSingle [1] [65] 9) (new_requests :: jsval Pending)))) [1]"
proof -
  have "reach req_legal req_step (new_requests :: jsval Pending) (req_step (RSingle [1] [65] 9) new_requests)"
    by (rule reach.event [OF reach.start]) code_simp
  moreover have "pending (req_step (RSingle [1] [65] 9) (new_requests :: jsval Pending)) [1]" by code_simp
  ultimately show ?thesis using open_requests_end by blast
qed

text \<open>C31: at every moment of a node's life the locks it coordinates are held and awaited only by processes it
  believes alive; the tick drops exactly the peers not heard from for the timeout, and none of the requests
  of a dropped peer is left in a lock's queue.\<close>

theorem only_live_processes_hold_locks:
  assumes "reach node_legal node_step (new_node self timeoutMs requestMs) n"
  shows "(\<forall>r \<in> set (lock_abs (nlocks n) pool). live n (fst r))
    \<and> (nrunning n \<longrightarrow> peer_at (nregistry (fst (node_tick now n))) p
        = (case peer_at (nregistry n) p of None \<Rightarrow> None
           | Some e \<Rightarrow> if lastSeenAt e \<le> now - peerTimeout (nregistry n) then None else Some e))
    \<and> (\<forall>r \<in> set (lock_abs (nlocks (fst (node_tick now n))) pool). live (fst (node_tick now n)) (fst r))"
proof -
  have i: "node_inv n" by (rule node.inv_reach [OF assms node_inv_new])
  then have j: "node_inv (fst (node_tick now n))" using node.inv_step [OF i, of "NTick now"] by simp
  have "reg_ok (nregistry n)" "gstarted (nregistry n) = nrunning n" using i by (simp_all add: node_inv_def)
  then show ?thesis using node_inv_live [OF i] node_inv_live [OF j] reg_sweep_map [of "nregistry n" now p]
    by (simp add: node_tick_def with_registry_def case_prod_beta)
qed

theorem only_live_processes_hold_locks_witness:
  "live (node_step (NLock 0 [112] [1]) (node_step NStart (new_node [65] 10 5))) [65]"
proof -
  let ?n = "node_step (NLock 0 [112] [1]) (node_step NStart (new_node [65] 10 5))"
  have "reach node_legal node_step (new_node [65] 10 5) ?n"
    by (intro reach.event reach.start) code_simp+
  from only_live_processes_hold_locks [OF this, of "[112]" 0 "[]"] have "\<forall>r \<in> set (lock_abs (nlocks ?n) [112]). live ?n (fst r)" by blast
  moreover have "lock_abs (nlocks ?n) [112] = [([65], [1])]" by code_simp
  ultimately show ?thesis by (metis fst_conv list.set_intros(1))
qed

text \<open>C32: a call of \<open>lock\<close> never hangs on another process: while it waits for a coordinator, that request
  is open with a live timer, whose firing makes it leave the queue and go on unlocked; a coordinator that
  died is replaced at most twice; and a grant that comes when it is no longer waiting is handed back.\<close>

theorem lock_call_ends:
  assumes "reach node_legal node_step (new_node self timeoutMs requestMs) n" "\<not> pending (npending n) i"
    "node_lock attempt pool i n = ((n', out), w)"
  shows "(w = Unlocked \<longleftrightarrow> \<not> (attempt < 3 \<and> nrunning n))
    \<and> (\<forall>c rid. w = Remote c rid \<longrightarrow> rid = i \<and> c \<noteq> self \<and> out = [To c (MLockRequest i pool)] \<and>
        (\<exists>t. timer (rclock (npending n')) t = Some rid \<and> snd (req_timeout t (npending n')) = [(rid, Failed Timeout)]))
    \<and> lock_answered attempt pool c rid (Failed Timeout) j n = ((n, [To c (MUnlock pool rid)]), Unlocked)
    \<and> (2 \<le> attempt \<longrightarrow> lock_answered attempt pool c rid (Failed PeerLost) j n = ((n, []), Unlocked))
    \<and> node_handle frm (MLockGrant i pool) now n = (n, [To frm (MUnlock pool i)])"
proof -
  have self: "nself n = self" by (rule node_reach_self [OF assms(1)])
  have i: "req_inv (npending n)" using node.inv_reach [OF assms(1) node_inv_new] by (simp add: node_inv_def)
  have w: "\<exists>t. timer (rclock s) t = Some i \<and> snd (req_timeout t s) = [(i, Failed Timeout)]"
    if s: "s = fst (req_single i c ms (npending n))" for c ms s
  proof -
    obtain t cl where st: "setTimeout i ms (rclock (npending n)) = (t, cl)" by fastforce
    show ?thesis using timer_setTimeout [of i ms "rclock (npending n)"] st s
      by (intro exI [of _ t]) (simp add: req_single_def req_open_def req_timeout_def entry_at_def update_conv')
  qed
  show ?thesis using assms(2,3) self
    by (auto simp: node_lock_def lock_answered_def node_handle_def Let_def intro: w split: if_splits)
qed

theorem lock_call_ends_witness:
  "node_handle [66] (MLockGrant [1] [112]) 0 (node_step NStart (new_node [65] 10 5))
    = (node_step NStart (new_node [65] 10 5), [To [66] (MUnlock [112] [1])])"
proof -
  let ?n = "node_step NStart (new_node [65] 10 5)"
  have "reach node_legal node_step (new_node [65] 10 5) ?n" by (intro reach.event reach.start) code_simp
  moreover have "\<not> pending (npending ?n) [1]" by code_simp
  ultimately show ?thesis
    using lock_call_ends [of "[65]" 10 5 ?n "[1]" 0 "[112]"] by (metis prod.collapse)
qed

end
