(* ===== verification/Rooms.thy ===== *)
theory Rooms
  imports Runtime JsValue
begin

text \<open>
  The seats of a room (\<open>core/src/room.ts\<close>, with \<open>core/src/client.ts\<close> and the parts of
  \<open>core/src/server.ts\<close> and \<open>core/src/matchmaker.ts\<close> that drive them): taking and releasing seats,
  reservations, reconnection tokens and timers, pausing, and disposal. Clients and connections are
  objects, so the state has a heap of each and maps hold object numbers. What a room sends and the
  hooks it runs are returned in order; a hook's own calls into the room come as later operations,
  and what the code does after awaiting a hook is an operation of its own. Frames are given by
  their type, header and the value of their body: the encodings are modelled elsewhere.
\<close>

section \<open>Data\<close>

datatype ClientStatus = Joining | Joined | Reconnecting | Left

datatype JoinedBy = ByReservation | ByJoin | ByCreate | ByServer

datatype RoomFrame = RoomFrame (frame_type: nat) (frame_header: "nat list") (frame_body: "jsval option")

text \<open>\<open>cin\<close> says that the client's room is this one.\<close>

record Client =
  sessionId :: jsstring
  joinedBy :: JoinedBy
  cstatus :: ClientStatus
  cconnection :: "nat option"
  croomRef :: nat
  cqueue :: "RoomFrame list option"
  csynced :: bool
  ctoken :: "jsstring option"
  cin :: bool

text \<open>
  A connection's seats in this room. A connection whose socket is on another process
  (\<open>cremote\<close>) brings the handles its own process gave out; the others come from a counter that
  all rooms share.
\<close>

record Connection =
  conn_seats :: "nat \<rightharpoonup> nat"
  nextRoomRef :: nat
  cremote :: bool

record HeldReservation =
  hoptions :: jsval
  htimer :: nat

text \<open>The matchmaker's entry of a reservation in this room.\<close>

record ReservationEntry =
  entry_session :: jsstring
  entry_expires :: rat
  entry_expired :: bool
  entry_cleanup :: nat

text \<open>What a timer's callback was made for: a held seat, a reservation's hold, or its entry with the matchmaker.\<close>

datatype RoomTimer = TReconnect nat | THold jsstring | TCleanup jsstring

text \<open>A running call of \<open>_dispose\<close>: its leave code and the seats it has yet to release, or waiting for \<open>onDispose\<close>.\<close>

datatype Disposal = Releasing nat "nat list" | Finishing

text \<open>What names the room and its type to a client that joins.\<close>

record RoomIdentity =
  ident_id :: jsstring
  ident_type :: jsstring
  ident_hash :: jsval
  ident_codec :: jsstring
  ident_clientNames :: "jsstring list"
  ident_serverNames :: "jsstring list"

record RoomState =
  rm_clients :: "(jsstring \<times> nat) list"
  rm_reservations :: "(jsstring \<times> HeldReservation) list"
  rm_tokens :: "jsstring \<rightharpoonup> nat"
  rm_timers :: "nat \<rightharpoonup> nat"
  rm_presence :: "jsstring \<rightharpoonup> jsval"
  maxClients :: jsnum
  autoDispose :: bool
  allowReconnection :: bool
  reconnectionTimeout :: rat
  rm_private :: bool
  rm_locked :: bool
  rm_ready :: bool
  rm_paused :: bool
  rm_disposing :: bool
  rm_disposed :: bool
  rm_loops :: bool
  rm_heap :: "nat \<Rightarrow> Client"
  rm_conns :: "nat \<Rightarrow> Connection"
  rm_clock :: "RoomTimer clock"
  rm_leaving :: "(nat \<times> bool) list"
  rm_disposals :: "Disposal list"
  rm_shutdown :: bool
  mm_entries :: "jsstring \<rightharpoonup> ReservationEntry"
  rm_ident :: RoomIdentity

datatype room_out =
    SendFrame nat RoomFrame
  | OnLeave nat bool
  | OnDisconnect nat
  | OnReconnect nat
  | OnJoined nat
  | OnPause
  | OnResume
  | OnDispose
  | SeatReleased nat bool
  | RoomDisposed

datatype RoomErrorCode =
    ROOM_NOT_FOUND | ROOM_LOCKED | ROOM_FULL | ALREADY_JOINED | RESERVATION_NOT_FOUND | RESERVATION_EXPIRED | INVALID_TOKEN

datatype RoomError = RoomError (room_code: RoomErrorCode) (room_message: string)

type_synonym room_op = "RoomState \<times> room_out list"

text \<open>One step after another, with the outputs of both.\<close>

definition then_do :: "room_op \<Rightarrow> (RoomState \<Rightarrow> room_op) \<Rightarrow> room_op" where
  "then_do r f = (case r of (s, out) \<Rightarrow> case f s of (s', out') \<Rightarrow> (s', out @ out'))"

definition set_client :: "nat \<Rightarrow> (Client \<Rightarrow> Client) \<Rightarrow> RoomState \<Rightarrow> RoomState" where
  "set_client c f s = s\<lparr>rm_heap := (rm_heap s)(c := f (rm_heap s c))\<rparr>"

definition seat_at :: "RoomState \<Rightarrow> jsstring \<Rightarrow> nat option" where
  "seat_at s sid = map_of (rm_clients s) sid"

definition held_at :: "RoomState \<Rightarrow> jsstring \<Rightarrow> HeldReservation option" where
  "held_at s i = map_of (rm_reservations s) i"

section \<open>Who may take a seat\<close>

definition getSeatCount :: "RoomState \<Rightarrow> nat" where
  "getSeatCount s = length (rm_clients s) + length (rm_reservations s)"

definition hasFreeSeat :: "RoomState \<Rightarrow> bool" where
  "hasFreeSeat s = (\<not> rm_disposing s \<and> \<not> rm_locked s \<and> num_lt (num_of_int (int (getSeatCount s))) (maxClients s))"

definition isAvailable :: "RoomState \<Rightarrow> bool" where
  "isAvailable s = (\<not> rm_private s \<and> hasFreeSeat s)"

definition undisposed :: "RoomState \<Rightarrow> RoomError + unit" where
  "undisposed s = (if \<not> rm_disposing s then Inr () else Inl (RoomError ROOM_NOT_FOUND ''the room is being disposed''))"

definition acceptsNewSeat :: "RoomState \<Rightarrow> RoomError + unit" where
  "acceptsNewSeat s =
     (case undisposed s of
        Inl e \<Rightarrow> Inl e
      | Inr _ \<Rightarrow>
          if rm_locked s then Inl (RoomError ROOM_LOCKED ''the room is locked'')
          else if num_le (maxClients s) (num_of_int (int (getSeatCount s))) then Inl (RoomError ROOM_FULL ''the room is full'')
          else Inr ())"

section \<open>Seats and connections\<close>

definition bind_seat :: "nat \<Rightarrow> nat option \<Rightarrow> nat option \<Rightarrow> RoomState \<Rightarrow> RoomState" where
  "bind_seat c connection ref s =
     (case connection of
        None \<Rightarrow> set_client c (\<lambda>x. x\<lparr>cconnection := None\<rparr>) s
      | Some k \<Rightarrow>
          let conn = rm_conns s k;
              r = (case ref of Some r \<Rightarrow> r | None \<Rightarrow> nextRoomRef conn);
              conn = (case ref of Some _ \<Rightarrow> conn | None \<Rightarrow> conn\<lparr>nextRoomRef := nextRoomRef conn + 1\<rparr>)
          in (set_client c (\<lambda>x. x\<lparr>cconnection := Some k, croomRef := r\<rparr>) s)
               \<lparr>rm_conns := (rm_conns s)(k := conn\<lparr>conn_seats := (conn_seats conn)(r \<mapsto> c)\<rparr>)\<rparr>)"

definition unbind_seat :: "nat \<Rightarrow> RoomState \<Rightarrow> RoomState" where
  "unbind_seat c s =
     (let x = rm_heap s c;
          s = (case cconnection x of
                 None \<Rightarrow> s
               | Some k \<Rightarrow>
                   let conn = rm_conns s k
                   in if conn_seats conn (croomRef x) = Some c
                      then s\<lparr>rm_conns := (rm_conns s)(k := conn\<lparr>conn_seats := (conn_seats conn)(croomRef x := None)\<rparr>)\<rparr>
                      else s)
      in set_client c (\<lambda>x. x\<lparr>cconnection := None\<rparr>) s)"

definition take_seat :: "nat \<Rightarrow> nat option \<Rightarrow> bool \<Rightarrow> nat option \<Rightarrow> RoomState \<Rightarrow> (RoomError + unit) \<times> RoomState" where
  "take_seat c connection reserved ref s =
     (case (if reserved then undisposed s else acceptsNewSeat s) of
        Inl e \<Rightarrow> (Inl e, s)
      | Inr _ \<Rightarrow>
          if seat_at s (sessionId (rm_heap s c)) \<noteq> None then (Inl (RoomError ALREADY_JOINED ''session already seated''), s)
          else let s = set_client c (\<lambda>x. x\<lparr>cin := True, cstatus := Joining, cqueue := Some [], csynced := False\<rparr>) s;
                   s = bind_seat c connection ref s
               in (Inr (), s\<lparr>rm_clients := AList.update (sessionId (rm_heap s c)) c (rm_clients s)\<rparr>))"

definition revokeToken :: "nat \<Rightarrow> RoomState \<Rightarrow> RoomState" where
  "revokeToken c s =
     (case ctoken (rm_heap s c) of
        None \<Rightarrow> s
      | Some token \<Rightarrow> set_client c (\<lambda>x. x\<lparr>ctoken := None\<rparr>) (s\<lparr>rm_tokens := (rm_tokens s)(token := None)\<rparr>))"

text \<open>\<open>fresh\<close> is the new token, the room's id with a fresh id.\<close>

definition issueToken :: "nat \<Rightarrow> jsstring \<Rightarrow> RoomState \<Rightarrow> jsstring option \<times> RoomState" where
  "issueToken c fresh s =
     (let s = revokeToken c s
      in if \<not> allowReconnection s \<or> reconnectionTimeout s \<le> 0 then (None, s)
         else (Some fresh, set_client c (\<lambda>x. x\<lparr>ctoken := Some fresh\<rparr>) (s\<lparr>rm_tokens := (rm_tokens s)(fresh \<mapsto> c)\<rparr>)))"

definition heldSeat :: "jsstring \<Rightarrow> RoomState \<Rightarrow> nat option" where
  "heldSeat token s =
     (case rm_tokens s token of
        None \<Rightarrow> None
      | Some c \<Rightarrow> if cstatus (rm_heap s c) = Reconnecting then Some c else None)"

definition clear_reconnect :: "nat \<Rightarrow> RoomState \<Rightarrow> RoomState" where
  "clear_reconnect c s =
     (case rm_timers s c of
        None \<Rightarrow> s
      | Some t \<Rightarrow> s\<lparr>rm_clock := clearTimeout t (rm_clock s), rm_timers := (rm_timers s)(c := None)\<rparr>)"

section \<open>Frames\<close>

definition send_frame :: "nat \<Rightarrow> RoomFrame \<Rightarrow> RoomState \<Rightarrow> room_op" where
  "send_frame c frame s =
     (let x = rm_heap s c
      in if cstatus x = Joining then (set_client c (\<lambda>x. x\<lparr>cqueue := map_option (\<lambda>q. q @ [frame]) (cqueue x)\<rparr>) s, [])
         else case cconnection x of
                None \<Rightarrow> (s, [])
              | Some k \<Rightarrow> if cstatus x = Left then (s, []) else (s, [SendFrame k frame]))"

text \<open>
  \<open>_deliverAll\<close> with \<open>_sendGrouped\<close>: recipients are grouped by handle, in the order the handles first
  occur. The code builds one frame per handle and hands the transport the connections that share it.
\<close>

definition by_ref :: "RoomState \<Rightarrow> nat list \<Rightarrow> nat list" where
  "by_ref s cs =
     concat (map (\<lambda>r. filter (\<lambda>c. croomRef (rm_heap s c) = r) cs) (rev (remdups (rev (map (\<lambda>c. croomRef (rm_heap s c)) cs)))))"

fun deliver_to :: "nat list \<Rightarrow> nat \<Rightarrow> nat list \<Rightarrow> jsval option \<Rightarrow> RoomState \<Rightarrow> room_op" where
  "deliver_to [] type header body s = (s, [])"
| "deliver_to (c # cs) type header body s =
     (let x = rm_heap s c; frame = RoomFrame type (croomRef x # header) body
      in then_do
           (if cstatus x = Joining then (set_client c (\<lambda>x. x\<lparr>cqueue := map_option (\<lambda>q. q @ [frame]) (cqueue x)\<rparr>) s, [])
            else if cstatus x = Joined then (case cconnection x of None \<Rightarrow> (s, []) | Some k \<Rightarrow> (s, [SendFrame k frame]))
            else (s, []))
           (deliver_to cs type header body))"

definition deliverAll :: "nat \<Rightarrow> nat list \<Rightarrow> jsval option \<Rightarrow> nat option \<Rightarrow> RoomState \<Rightarrow> room_op" where
  "deliverAll type header body except s =
     deliver_to (by_ref s (filter (\<lambda>c. Some c \<noteq> except \<and> cconnection (rm_heap s c) \<noteq> None) (map snd (rm_clients s))))
       type header body s"

section \<open>Pausing, releasing and disposing\<close>

definition connected_count :: "RoomState \<Rightarrow> nat" where
  "connected_count s =
     length (filter (\<lambda>p. cstatus (rm_heap s (snd p)) \<noteq> Reconnecting \<and> cconnection (rm_heap s (snd p)) \<noteq> None) (rm_clients s))"

definition held_count :: "RoomState \<Rightarrow> nat" where
  "held_count s = length (filter (\<lambda>p. cstatus (rm_heap s (snd p)) = Reconnecting) (rm_clients s))"

definition updatePause :: "RoomState \<Rightarrow> room_op" where
  "updatePause s =
     (if rm_disposing s \<or> \<not> rm_ready s then (s, [])
      else if \<not> rm_paused s \<and> connected_count s = 0 \<and> 0 < held_count s then (s\<lparr>rm_paused := True, rm_loops := False\<rparr>, [OnPause])
      else if rm_paused s \<and> 0 < connected_count s then (s\<lparr>rm_paused := False, rm_loops := True\<rparr>, [OnResume])
      else (s, []))"

fun clear_holds :: "(jsstring \<times> HeldReservation) list \<Rightarrow> RoomTimer clock \<Rightarrow> RoomTimer clock" where
  "clear_holds [] c = c"
| "clear_holds (r # rs) c = clear_holds rs (clearTimeout (htimer (snd r)) c)"

text \<open>\<open>_dispose\<close> once the seats it knew are released: the reservations go, and \<open>onDispose\<close> runs.\<close>

definition dispose_clear :: "RoomState \<Rightarrow> room_op" where
  "dispose_clear s =
     (s\<lparr>rm_clock := clear_holds (rm_reservations s) (rm_clock s), rm_reservations := [], rm_disposals := rm_disposals s @ [Finishing]\<rparr>,
      [OnDispose])"

text \<open>
  \<open>_checkEmpty\<close>. It disposes a room without seats, so what \<open>_dispose\<close> does at once is to stop the
  loops and clear; \<open>_disposing\<close> is assigned when that part of the call is over.
\<close>

definition checkEmpty :: "RoomState \<Rightarrow> room_op" where
  "checkEmpty s =
     (if autoDispose s \<and> rm_ready s \<and> \<not> rm_disposing s \<and> rm_clients s = [] \<and> rm_reservations s = [] then
        (case dispose_clear (s\<lparr>rm_loops := False\<rparr>) of (s, out) \<Rightarrow> (s\<lparr>rm_disposing := True\<rparr>, out))
      else (s, []))"

text \<open>\<open>_release\<close> up to the \<open>onLeave\<close> it awaits, or to its end for a client that was joining.\<close>

definition release_seat :: "nat \<Rightarrow> bool \<Rightarrow> nat option \<Rightarrow> jsval option \<Rightarrow> RoomState \<Rightarrow> room_op" where
  "release_seat c consented code reason s =
     (let x = rm_heap s c
      in if \<not> cin x \<or> cstatus x = Left then (s, [])
         else let wasJoining = (cstatus x = Joining)
              in then_do
                   (case code of
                      None \<Rightarrow> (s, [])
                    | Some n \<Rightarrow>
                        if cconnection x \<noteq> None \<and> \<not> wasJoining then send_frame c (RoomFrame 8 [croomRef x, n] reason) s else (s, []))
                   (\<lambda>s. let s = unbind_seat c (revokeToken c (clear_reconnect c s));
                            s = set_client c (\<lambda>x. x\<lparr>cstatus := Left, cqueue := None\<rparr>) s;
                            s = s\<lparr>rm_clients := AList.delete (sessionId x) (rm_clients s),
                                  rm_presence := (rm_presence s)(sessionId x := None)\<rparr>
                        in if wasJoining then checkEmpty s
                           else (s\<lparr>rm_leaving := rm_leaving s @ [(c, consented)]\<rparr>, [OnLeave c consented])))"

definition remove_nth :: "nat \<Rightarrow> 'a list \<Rightarrow> 'a list" where
  "remove_nth i xs = take i xs @ drop (Suc i) xs"

text \<open>The rest of the \<open>i\<close>-th release that waits for its \<open>onLeave\<close>.\<close>

definition release_done :: "nat \<Rightarrow> RoomState \<Rightarrow> room_op" where
  "release_done i s =
     (if i < length (rm_leaving s) then
        case rm_leaving s ! i of
          (c, consented) \<Rightarrow>
            then_do (deliverAll 7 [] (Some (JStr (sessionId (rm_heap s c)))) (Some c) (s\<lparr>rm_leaving := remove_nth i (rm_leaving s)\<rparr>))
              (\<lambda>s. then_do (s, [SeatReleased c consented]) (\<lambda>s. then_do (updatePause s) checkEmpty))
      else (s, []))"

definition unseat :: "nat \<Rightarrow> RoomState \<Rightarrow> room_op" where
  "unseat c s =
     (let sid = sessionId (rm_heap s c)
      in if seat_at s sid \<noteq> Some c then (s, [])
         else let s = unbind_seat c (s\<lparr>rm_clients := AList.delete sid (rm_clients s)\<rparr>);
                  s = set_client c (\<lambda>x. x\<lparr>cstatus := Left, cqueue := None\<rparr>) s
              in if joinedBy (rm_heap s c) = ByCreate \<or> joinedBy (rm_heap s c) = ByReservation then checkEmpty s else (s, []))"

text \<open>\<open>dispose\<close> up to its first wait: the first seat is released before \<open>_disposing\<close> is assigned.\<close>

definition leave_code :: "RoomState \<Rightarrow> nat" where
  "leave_code s = (if rm_shutdown s then 4001 else 4002)"

definition dispose_room :: "RoomState \<Rightarrow> room_op" where
  "dispose_room s =
     (if rm_disposing s then (s, [])
      else then_do
             (let s = s\<lparr>rm_loops := False\<rparr>
              in case map snd (rm_clients s) of
                   [] \<Rightarrow> dispose_clear s
                 | c # cs \<Rightarrow>
                     let code = leave_code s
                     in then_do (release_seat c False (Some code) None s)
                          (\<lambda>s. (s\<lparr>rm_disposals := rm_disposals s @ [Releasing code cs]\<rparr>, [])))
             (\<lambda>s. (s\<lparr>rm_disposing := True\<rparr>, [])))"

text \<open>The next part of the \<open>i\<close>-th running disposal.\<close>

definition dispose_next :: "nat \<Rightarrow> RoomState \<Rightarrow> room_op" where
  "dispose_next i s =
     (if i < length (rm_disposals s) then
        case rm_disposals s ! i of
          Releasing code (c # cs) \<Rightarrow>
            release_seat c False (Some code) None (s\<lparr>rm_disposals := (rm_disposals s)[i := Releasing code cs]\<rparr>)
        | Releasing code [] \<Rightarrow> dispose_clear (s\<lparr>rm_disposals := remove_nth i (rm_disposals s)\<rparr>)
        | Finishing \<Rightarrow>
            (s\<lparr>rm_disposals := remove_nth i (rm_disposals s), rm_presence := Map.empty, rm_disposed := True\<rparr>, [RoomDisposed])
      else (s, []))"

section \<open>Joining and reconnecting\<close>

fun send_all :: "nat \<Rightarrow> RoomFrame list \<Rightarrow> RoomState \<Rightarrow> room_op" where
  "send_all c [] s = (s, [])"
| "send_all c (f # fs) s = then_do (send_frame c f s) (send_all c fs)"

definition activate :: "nat \<Rightarrow> RoomState \<Rightarrow> room_op" where
  "activate c s =
     (if cstatus (rm_heap s c) \<noteq> Joining then (s, [])
      else then_do (updatePause (set_client c (\<lambda>x. x\<lparr>cstatus := Joined\<rparr>) s))
             (\<lambda>s. let q = cqueue (rm_heap s c); s = set_client c (\<lambda>x. x\<lparr>cqueue := None\<rparr>) s
                  in then_do (case q of None \<Rightarrow> (s, []) | Some fs \<Rightarrow> send_all c fs s)
                       (\<lambda>s. deliverAll 6 [] (Some (JStr (sessionId (rm_heap s c)))) (Some c) s)))"

definition connectionLost :: "nat \<Rightarrow> RoomState \<Rightarrow> room_op" where
  "connectionLost c s =
     (let x = rm_heap s c
      in if cstatus x = Left \<or> cstatus x = Reconnecting then (s, [])
         else let s = unbind_seat c s
              in if cstatus x = Joining then (s, [])
                 else if allowReconnection s \<and> 0 < reconnectionTimeout s \<and> ctoken x \<noteq> None \<and> \<not> rm_shutdown s \<and> \<not> rm_disposing s then
                   (case setTimeout (TReconnect c) (reconnectionTimeout s * 1000) (rm_clock s) of
                      (t, clock) \<Rightarrow>
                        let s = set_client c (\<lambda>x. x\<lparr>cstatus := Reconnecting, csynced := False\<rparr>) s;
                            s = s\<lparr>rm_clock := clock, rm_timers := (rm_timers s)(c \<mapsto> t)\<rparr>
                        in then_do (s, [OnDisconnect c]) updatePause)
                 else release_seat c False None None s)"

definition reconnect_seat :: "nat \<Rightarrow> nat \<Rightarrow> nat option \<Rightarrow> RoomState \<Rightarrow> room_op" where
  "reconnect_seat c k ref s =
     updatePause (set_client c (\<lambda>x. x\<lparr>cstatus := Joined, csynced := False\<rparr>) (bind_seat c (Some k) ref (clear_reconnect c s)))"

definition handshake :: "nat \<Rightarrow> jsstring option \<Rightarrow> RoomState \<Rightarrow> jsval" where
  "handshake c token s =
     (let d = rm_ident s
      in JArr [JStr (ident_id d), JStr (ident_type d), JStr (sessionId (rm_heap s c)), (case token of None \<Rightarrow> JNull | Some t \<Rightarrow> JStr t),
           ident_hash d, JStr (ident_codec d), JArr (map JStr (ident_clientNames d)), JArr (map JStr (ident_serverNames d))])"

text \<open>
  \<open>_completeJoin\<close> of the server: the connection closed meanwhile, or \<open>JOIN_SUCCESS\<close> with a new token
  and the seat is active. The request's id is the header's first number; \<open>encoded\<close> says that the
  serializer could encode the handshake.
\<close>

definition completeJoin :: "nat \<Rightarrow> nat \<Rightarrow> nat \<Rightarrow> bool \<Rightarrow> bool \<Rightarrow> bool \<Rightarrow> jsstring \<Rightarrow> RoomState \<Rightarrow> room_op" where
  "completeJoin k requestId c reconnected connOpen encoded fresh s =
     (if \<not> connOpen then then_do (if reconnected then (s, [OnReconnect c]) else activate c s) (connectionLost c)
      else case issueToken c fresh s of
             (token, s) \<Rightarrow>
               if \<not> encoded then (s, [])
               else then_do (s, [SendFrame k (RoomFrame 4 [requestId, croomRef (rm_heap s c)] (Some (handshake c token s)))])
                      (\<lambda>s. if reconnected then (s, [OnReconnect c]) else then_do (activate c s) (\<lambda>s. (s, [OnJoined c]))))"

text \<open>A held seat's timer fires.\<close>

definition reconnect_expired :: "nat \<Rightarrow> RoomState \<Rightarrow> room_op" where
  "reconnect_expired t s =
     (case timer (rm_clock s) t of
        Some (TReconnect c) \<Rightarrow>
          release_seat c False None None (s\<lparr>rm_clock := clearTimeout t (rm_clock s), rm_timers := (rm_timers s)(c := None)\<rparr>)
      | _ \<Rightarrow> (s, []))"

section \<open>Reservations\<close>

definition hold :: "jsstring \<Rightarrow> jsval \<Rightarrow> rat \<Rightarrow> RoomState \<Rightarrow> RoomState" where
  "hold i options ms s =
     (case setTimeout (THold i) ms (rm_clock s) of
        (t, clock) \<Rightarrow> s\<lparr>rm_clock := clock, rm_reservations := AList.update i \<lparr>hoptions = options, htimer = t\<rparr> (rm_reservations s)\<rparr>)"

definition takeReservation :: "jsstring \<Rightarrow> RoomState \<Rightarrow> jsval option \<times> RoomState" where
  "takeReservation i s =
     (case held_at s i of
        None \<Rightarrow> (None, s)
      | Some h \<Rightarrow> (Some (hoptions h), s\<lparr>rm_clock := clearTimeout (htimer h) (rm_clock s), rm_reservations := AList.delete i (rm_reservations s)\<rparr>))"

definition hold_expired :: "nat \<Rightarrow> RoomState \<Rightarrow> room_op" where
  "hold_expired t s =
     (case timer (rm_clock s) t of
        Some (THold i) \<Rightarrow>
          checkEmpty (s\<lparr>rm_clock := clearTimeout t (rm_clock s), rm_reservations := AList.delete i (rm_reservations s)\<rparr>)
      | _ \<Rightarrow> (s, []))"

text \<open>
  \<open>_reserveIn\<close> of the matchmaker, for a reservation \<open>i\<close> of session \<open>sid\<close> that lasts \<open>seconds\<close>: options
  have been read already. The entry outlives the reservation by as long again.
\<close>

definition reserveIn :: "jsstring \<Rightarrow> jsstring \<Rightarrow> jsval \<Rightarrow> bool \<Rightarrow> rat \<Rightarrow> rat \<Rightarrow> RoomState \<Rightarrow> (RoomError + unit) \<times> RoomState" where
  "reserveIn i sid options byId seconds now s =
     (case (if byId then acceptsNewSeat s
            else if hasFreeSeat s then Inr () else Inl (RoomError ROOM_FULL ''the room filled up'')) of
        Inl e \<Rightarrow> (Inl e, s)
      | Inr _ \<Rightarrow>
          (case setTimeout (TCleanup i) (seconds * 2000) (rm_clock s) of
             (t, clock) \<Rightarrow>
               let entry = \<lparr>entry_session = sid, entry_expires = now + seconds * 1000, entry_expired = False, entry_cleanup = t\<rparr>;
                   s = s\<lparr>rm_clock := clock, mm_entries := (mm_entries s)(i \<mapsto> entry)\<rparr>
               in (Inr (), hold i options (seconds * 1000) s)))"

text \<open>\<open>_consume\<close>: the options the seat was reserved with, if the room still holds it.\<close>

definition consume :: "jsstring \<Rightarrow> rat \<Rightarrow> RoomState \<Rightarrow> (RoomError + jsval option) \<times> RoomState" where
  "consume i now s =
     (case mm_entries s i of
        None \<Rightarrow> (Inl (RoomError RESERVATION_NOT_FOUND ''unknown reservation''), s)
      | Some entry \<Rightarrow>
          if entry_expired entry \<or> entry_expires entry < now then
            (Inl (RoomError RESERVATION_EXPIRED ''reservation expired''),
             s\<lparr>mm_entries := (mm_entries s)(i \<mapsto> entry\<lparr>entry_expired := True\<rparr>)\<rparr>)
          else
            let s = s\<lparr>rm_clock := clearTimeout (entry_cleanup entry) (rm_clock s), mm_entries := (mm_entries s)(i := None)\<rparr>
            in case takeReservation i s of
                 (options, s) \<Rightarrow>
                   if rm_disposing s then (Inl (RoomError ROOM_NOT_FOUND ''the room was disposed''), s) else (Inr options, s))"

definition cleanup_expired :: "nat \<Rightarrow> RoomState \<Rightarrow> RoomState" where
  "cleanup_expired t s =
     (case timer (rm_clock s) t of
        Some (TCleanup i) \<Rightarrow> s\<lparr>rm_clock := clearTimeout t (rm_clock s), mm_entries := (mm_entries s)(i := None)\<rparr>
      | _ \<Rightarrow> s)"

text \<open>
  \<open>_joinReservation\<close> of the server up to its first wait: \<open>refused\<close> is the outcome of \<open>_checkRoom\<close> on the
  client's contract and other seats.
\<close>

definition joinReservation ::
  "jsstring \<Rightarrow> rat \<Rightarrow> RoomError option \<Rightarrow> nat \<Rightarrow> nat option \<Rightarrow> nat option \<Rightarrow> RoomState \<Rightarrow> (RoomError + unit) \<times> RoomState" where
  "joinReservation i now refused c connection ref s =
     (case consume i now s of
        (Inl e, s) \<Rightarrow> (Inl e, s)
      | (Inr _, s) \<Rightarrow> (case refused of Some e \<Rightarrow> (Inl e, s) | None \<Rightarrow> take_seat c connection True ref s))"

text \<open>\<open>_reconnect\<close> of the server.\<close>

definition server_reconnect :: "jsstring \<Rightarrow> RoomError option \<Rightarrow> nat \<Rightarrow> nat option \<Rightarrow> RoomState \<Rightarrow> (RoomError + nat) \<times> room_op" where
  "server_reconnect token refused k ref s =
     (case heldSeat token s of
        None \<Rightarrow> (Inl (RoomError INVALID_TOKEN ''unknown or expired token''), (s, []))
      | Some c \<Rightarrow> (case refused of Some e \<Rightarrow> (Inl e, (s, [])) | None \<Rightarrow> (Inr c, reconnect_seat c k ref s)))"

section \<open>Events\<close>

text \<open>\<open>lock\<close> and \<open>unlock\<close>, \<open>makePrivate\<close> and \<open>makePublic\<close>.\<close>

definition set_locked :: "bool \<Rightarrow> RoomState \<Rightarrow> RoomState" where
  "set_locked b s = s\<lparr>rm_locked := b\<rparr>"

definition set_private :: "bool \<Rightarrow> RoomState \<Rightarrow> RoomState" where
  "set_private b s = s\<lparr>rm_private := b\<rparr>"

datatype RoomEvent =
    ESeat nat "nat option" "nat option"
  | EUnseat nat
  | EComplete nat nat nat bool bool bool jsstring
  | EActivate nat
  | EReconnect jsstring "RoomError option" nat "nat option"
  | ELost nat
  | ERelease nat bool "nat option" "jsval option"
  | EReleaseDone nat
  | EDispose
  | EDisposeNext nat
  | EReserve jsstring jsstring jsval bool rat rat
  | EConsume jsstring rat
  | EJoinReservation jsstring rat "RoomError option" nat "nat option" "nat option"
  | ETimer nat
  | EBroadcast nat "nat list" "jsval option" "nat option"
  | EReady
  | EShutdown
  | ELocked bool
  | EVisibility bool
  | EHandle nat
  | EConfig jsnum bool bool rat

fun room_op :: "RoomEvent \<Rightarrow> RoomState \<Rightarrow> room_op" where
  "room_op (ESeat c k ref) s = (snd (take_seat c k False ref s), [])"
| "room_op (EUnseat c) s = unseat c s"
| "room_op (EComplete k requestId c reconnected connOpen encoded fresh) s = completeJoin k requestId c reconnected connOpen encoded fresh s"
| "room_op (EActivate c) s = activate c s"
| "room_op (EReconnect token refused k ref) s = snd (server_reconnect token refused k ref s)"
| "room_op (ELost c) s = connectionLost c s"
| "room_op (ERelease c consented code reason) s = release_seat c consented code reason s"
| "room_op (EReleaseDone i) s = release_done i s"
| "room_op EDispose s = dispose_room s"
| "room_op (EDisposeNext i) s = dispose_next i s"
| "room_op (EReserve i sid options byId seconds now) s = (snd (reserveIn i sid options byId seconds now s), [])"
| "room_op (EConsume i now) s = (snd (consume i now s), [])"
| "room_op (EJoinReservation i now refused c k ref) s = (snd (joinReservation i now refused c k ref s), [])"
| "room_op (ETimer t) s =
     (case timer (rm_clock s) t of
        None \<Rightarrow> (s, [])
      | Some (TReconnect c) \<Rightarrow> reconnect_expired t s
      | Some (THold i) \<Rightarrow> hold_expired t s
      | Some (TCleanup i) \<Rightarrow> (cleanup_expired t s, []))"
| "room_op (EBroadcast type header body except) s = deliverAll type header body except s"
| "room_op EReady s = (s\<lparr>rm_ready := True, rm_loops := \<not> rm_disposing s\<rparr>, [])"
| "room_op EShutdown s = (s\<lparr>rm_shutdown := True\<rparr>, [])"
| "room_op (ELocked b) s = (set_locked b s, [])"
| "room_op (EVisibility b) s = (set_private b s, [])"
| "room_op (EHandle k) s = (s\<lparr>rm_conns := (rm_conns s)(k := (rm_conns s k)\<lparr>nextRoomRef := nextRoomRef (rm_conns s k) + 1\<rparr>)\<rparr>, [])"
| "room_op (EConfig n dispose reconnection seconds) s =
     (s\<lparr>maxClients := n, autoDispose := dispose, allowReconnection := reconnection, reconnectionTimeout := seconds\<rparr>, [])"

definition room_step :: "RoomEvent \<Rightarrow> RoomState \<Rightarrow> RoomState" where
  "room_step e s = fst (room_op e s)"

text \<open>
  What the callers see to: a remote connection brings a handle of its own that is not in use, a
  local one none; tokens and reservation ids are fresh; only a join that is under way is undone or
  completed; a room becomes ready once.
\<close>

definition ref_legal :: "RoomState \<Rightarrow> nat option \<Rightarrow> nat option \<Rightarrow> bool" where
  "ref_legal s connection ref =
     (case connection of
        None \<Rightarrow> True
      | Some k \<Rightarrow> (case ref of None \<Rightarrow> \<not> cremote (rm_conns s k) | Some r \<Rightarrow> cremote (rm_conns s k) \<and> conn_seats (rm_conns s k) r = None))"

fun room_legal :: "RoomState \<Rightarrow> RoomEvent \<Rightarrow> bool" where
  "room_legal s (ESeat c k ref) = ref_legal s k ref"
| "room_legal s (EUnseat c) = (seat_at s (sessionId (rm_heap s c)) = Some c \<longrightarrow> cstatus (rm_heap s c) = Joining)"
| "room_legal s (EComplete k requestId c reconnected connOpen encoded fresh) = (cin (rm_heap s c) \<and> rm_tokens s fresh = None)"
| "room_legal s (EActivate c) = cin (rm_heap s c)"
| "room_legal s (EReconnect token refused k ref) = ref_legal s (Some k) ref"
| "room_legal s (ELost c) = cin (rm_heap s c)"
| "room_legal s (EReserve i sid options byId seconds now) = (held_at s i = None \<and> mm_entries s i = None)"
| "room_legal s (EJoinReservation i now refused c k ref) = ref_legal s k ref"
| "room_legal s EReady = (\<not> rm_ready s)"
| "room_legal s e = True"

text \<open>A room as it is set up: nobody has a seat in it, and its type's options are given.\<close>

definition new_room ::
  "jsnum \<Rightarrow> bool \<Rightarrow> bool \<Rightarrow> rat \<Rightarrow> bool \<Rightarrow> bool \<Rightarrow> (nat \<Rightarrow> jsstring \<times> JoinedBy) \<Rightarrow> (nat \<Rightarrow> bool) \<Rightarrow> RoomIdentity \<Rightarrow> RoomState" where
  "new_room seats dispose reconnection seconds hidden locked ids remote ident =
     \<lparr>rm_clients = [], rm_reservations = [], rm_tokens = Map.empty, rm_timers = Map.empty, rm_presence = Map.empty,
      maxClients = seats, autoDispose = dispose, allowReconnection = reconnection, reconnectionTimeout = seconds,
      rm_private = hidden, rm_locked = locked, rm_ready = False, rm_paused = False, rm_disposing = False, rm_disposed = False,
      rm_loops = False,
      rm_heap = (\<lambda>c. \<lparr>sessionId = fst (ids c), joinedBy = snd (ids c), cstatus = Joining, cconnection = None, croomRef = 0,
                     cqueue = Some [], csynced = False, ctoken = None, cin = False\<rparr>),
      rm_conns = (\<lambda>k. \<lparr>conn_seats = Map.empty, nextRoomRef = 1, cremote = remote k\<rparr>),
      rm_clock = \<lparr>cnext = 1, ctimers = []\<rparr>, rm_leaving = [], rm_disposals = [], rm_shutdown = False, mm_entries = Map.empty,
      rm_ident = ident\<rparr>"

end
