(* ===== verification/RoomInvariants.thy ===== *)
theory RoomInvariants
  imports Rooms
begin

text \<open>
  The invariants of a room. The maps that lead to a client (its seat by session, its tokens, its
  reconnection timer, the live timers, its handles on connections) belong to that client:
  \<open>client_ok\<close> says of one client that all of them agree with its status. An operation on one client
  leaves what belongs to the others alone, so each proof looks at one client.
\<close>

declare set_locked_def [simp] set_private_def [simp]

section \<open>Reading the maps\<close>

lemma seat_at_unchanged [simp]:
  "seat_at (s\<lparr>rm_heap := armheap\<rparr>) = seat_at s" "seat_at (s\<lparr>rm_conns := armconns\<rparr>) = seat_at s"
  "seat_at (s\<lparr>rm_clock := armclock\<rparr>) = seat_at s" "seat_at (s\<lparr>rm_timers := armtimers\<rparr>) = seat_at s"
  "seat_at (s\<lparr>rm_tokens := armtokens\<rparr>) = seat_at s" "seat_at (s\<lparr>rm_presence := armpresence\<rparr>) = seat_at s"
  "seat_at (s\<lparr>rm_leaving := armleaving\<rparr>) = seat_at s" "seat_at (s\<lparr>rm_disposals := armdisposals\<rparr>) = seat_at s"
  "seat_at (s\<lparr>rm_disposing := armdisposing\<rparr>) = seat_at s" "seat_at (s\<lparr>rm_disposed := armdisposed\<rparr>) = seat_at s"
  "seat_at (s\<lparr>rm_paused := armpaused\<rparr>) = seat_at s" "seat_at (s\<lparr>rm_loops := armloops\<rparr>) = seat_at s"
  "seat_at (s\<lparr>rm_locked := armlocked\<rparr>) = seat_at s" "seat_at (s\<lparr>rm_private := armprivate\<rparr>) = seat_at s"
  "seat_at (s\<lparr>rm_ready := armready\<rparr>) = seat_at s" "seat_at (s\<lparr>rm_shutdown := armshutdown\<rparr>) = seat_at s"
  "seat_at (s\<lparr>mm_entries := ammentries\<rparr>) = seat_at s" "seat_at (s\<lparr>maxClients := amaxClients\<rparr>) = seat_at s"
  "seat_at (s\<lparr>autoDispose := aautoDispose\<rparr>) = seat_at s"
  "seat_at (s\<lparr>allowReconnection := aallowReconnection\<rparr>) = seat_at s"
  "seat_at (s\<lparr>reconnectionTimeout := areconnectionTimeout\<rparr>) = seat_at s"
  "seat_at (s\<lparr>rm_reservations := armreservations\<rparr>) = seat_at s"
  by (auto simp: seat_at_def)

lemma held_at_unchanged [simp]:
  "held_at (s\<lparr>rm_heap := armheap\<rparr>) = held_at s" "held_at (s\<lparr>rm_conns := armconns\<rparr>) = held_at s"
  "held_at (s\<lparr>rm_clock := armclock\<rparr>) = held_at s" "held_at (s\<lparr>rm_timers := armtimers\<rparr>) = held_at s"
  "held_at (s\<lparr>rm_tokens := armtokens\<rparr>) = held_at s" "held_at (s\<lparr>rm_presence := armpresence\<rparr>) = held_at s"
  "held_at (s\<lparr>rm_leaving := armleaving\<rparr>) = held_at s" "held_at (s\<lparr>rm_disposals := armdisposals\<rparr>) = held_at s"
  "held_at (s\<lparr>rm_disposing := armdisposing\<rparr>) = held_at s" "held_at (s\<lparr>rm_disposed := armdisposed\<rparr>) = held_at s"
  "held_at (s\<lparr>rm_paused := armpaused\<rparr>) = held_at s" "held_at (s\<lparr>rm_loops := armloops\<rparr>) = held_at s"
  "held_at (s\<lparr>rm_locked := armlocked\<rparr>) = held_at s" "held_at (s\<lparr>rm_private := armprivate\<rparr>) = held_at s"
  "held_at (s\<lparr>rm_ready := armready\<rparr>) = held_at s" "held_at (s\<lparr>rm_shutdown := armshutdown\<rparr>) = held_at s"
  "held_at (s\<lparr>mm_entries := ammentries\<rparr>) = held_at s" "held_at (s\<lparr>maxClients := amaxClients\<rparr>) = held_at s"
  "held_at (s\<lparr>autoDispose := aautoDispose\<rparr>) = held_at s"
  "held_at (s\<lparr>allowReconnection := aallowReconnection\<rparr>) = held_at s"
  "held_at (s\<lparr>reconnectionTimeout := areconnectionTimeout\<rparr>) = held_at s"
  "held_at (s\<lparr>rm_clients := armclients\<rparr>) = held_at s"
  by (auto simp: held_at_def)

section \<open>One client\<close>

definition client_core :: "RoomState \<Rightarrow> nat \<Rightarrow> bool" where
  "client_core s c =
     (let x = rm_heap s c
      in (\<forall>sid. seat_at s sid = Some c \<longleftrightarrow> cin x \<and> cstatus x \<noteq> Left \<and> sid = sessionId x)
       \<and> (\<forall>t. timer (rm_clock s) t = Some (TReconnect c) \<longleftrightarrow> rm_timers s c = Some t)
       \<and> (\<forall>token. rm_tokens s token = Some c \<longleftrightarrow> ctoken x = Some token)
       \<and> (\<forall>k r. conn_seats (rm_conns s k) r = Some c \<longleftrightarrow> cin x \<and> cstatus x \<noteq> Left \<and> cconnection x = Some k \<and> croomRef x = r)
       \<and> (cstatus x = Reconnecting \<longrightarrow> cconnection x = None)
       \<and> (\<not> cin x \<longrightarrow> cstatus x = Joining))"

definition client_ok :: "RoomState \<Rightarrow> nat \<Rightarrow> bool" where
  "client_ok s c = (client_core s c \<and> (rm_timers s c \<noteq> None \<longleftrightarrow> cstatus (rm_heap s c) = Reconnecting))"

lemmas client_defs = client_ok_def client_core_def Let_def

text \<open>What belongs to the clients other than \<open>c\<close> is the same in both states.\<close>

definition others_same :: "nat \<Rightarrow> RoomState \<Rightarrow> RoomState \<Rightarrow> bool" where
  "others_same c s s' =
     (\<forall>d. d \<noteq> c \<longrightarrow>
        rm_heap s' d = rm_heap s d \<and> rm_timers s' d = rm_timers s d
        \<and> (\<forall>sid. seat_at s' sid = Some d \<longleftrightarrow> seat_at s sid = Some d)
        \<and> (\<forall>t. timer (rm_clock s') t = Some (TReconnect d) \<longleftrightarrow> timer (rm_clock s) t = Some (TReconnect d))
        \<and> (\<forall>token. rm_tokens s' token = Some d \<longleftrightarrow> rm_tokens s token = Some d)
        \<and> (\<forall>k r. conn_seats (rm_conns s' k) r = Some d \<longleftrightarrow> conn_seats (rm_conns s k) r = Some d))"

lemma others_same_ok: "others_same c s s' \<Longrightarrow> d \<noteq> c \<Longrightarrow> client_ok s' d = client_ok s d"
  by (simp add: others_same_def client_defs)

lemma all_ok:
  assumes "others_same c s s'" "client_ok s' c" "\<And>d. client_ok s d"
  shows "client_ok s' d"
  using assms others_same_ok [OF assms(1)] by (cases "d = c") simp_all

lemma client_seat: "client_ok s c \<Longrightarrow> seat_at s sid = Some c \<longleftrightarrow> cin (rm_heap s c) \<and> cstatus (rm_heap s c) \<noteq> Left \<and> sid = sessionId (rm_heap s c)"
  by (simp add: client_defs)

lemma client_handle: "client_ok s c \<Longrightarrow> conn_seats (rm_conns s k) r = Some c \<longleftrightarrow>
    cin (rm_heap s c) \<and> cstatus (rm_heap s c) \<noteq> Left \<and> cconnection (rm_heap s c) = Some k \<and> croomRef (rm_heap s c) = r"
  by (simp add: client_defs)

lemma client_timer: "client_ok s c \<Longrightarrow> rm_timers s c = None \<longleftrightarrow> cstatus (rm_heap s c) \<noteq> Reconnecting"
  unfolding client_ok_def by blast

lemma not_in_joining: "client_ok s c \<Longrightarrow> \<not> cin (rm_heap s c) \<Longrightarrow> cstatus (rm_heap s c) = Joining"
  by (simp add: client_defs)

lemma others_same_refl: "others_same c s s"
  by (simp add: others_same_def)

lemma others_same_trans: "others_same c s s1 \<Longrightarrow> others_same c s1 s2 \<Longrightarrow> others_same c s s2"
  by (simp add: others_same_def)

section \<open>The rest of the room\<close>

definition handles_ok :: "RoomState \<Rightarrow> bool" where
  "handles_ok s = (\<forall>k r c. \<not> cremote (rm_conns s k) \<longrightarrow> conn_seats (rm_conns s k) r = Some c \<longrightarrow> r < nextRoomRef (rm_conns s k))"

definition holds_ok :: "RoomState \<Rightarrow> bool" where
  "holds_ok s = (\<forall>i t. timer (rm_clock s) t = Some (THold i) \<longleftrightarrow> map_option htimer (held_at s i) = Some t)"

definition entries_ok :: "RoomState \<Rightarrow> bool" where
  "entries_ok s = (\<forall>i t. timer (rm_clock s) t = Some (TCleanup i) \<longleftrightarrow> map_option entry_cleanup (mm_entries s i) = Some t)"

definition shape_ok :: "RoomState \<Rightarrow> bool" where
  "shape_ok s = (distinct (map fst (rm_clients s)) \<and> distinct (map fst (rm_reservations s)) \<and> clock_ok (rm_clock s))"

definition pause_ok :: "RoomState \<Rightarrow> bool" where
  "pause_ok s =
     ((rm_paused s \<and> \<not> rm_disposing s \<longrightarrow> (\<forall>c. cstatus (rm_heap s c) = Joined \<longrightarrow> cconnection (rm_heap s c) = None))
      \<and> (rm_paused s \<longrightarrow> rm_ready s))"

text \<open>A running disposal has every seat left on its list; once one waits for \<open>onDispose\<close>, nothing is left.\<close>

definition disposal_ok :: "RoomState \<Rightarrow> bool" where
  "disposal_ok s =
     ((\<forall>code cs sid c. Releasing code cs \<in> set (rm_disposals s) \<longrightarrow> seat_at s sid = Some c \<longrightarrow> c \<in> set cs)
      \<and> (rm_disposing s \<longrightarrow> (\<exists>code cs. Releasing code cs \<in> set (rm_disposals s)) \<or> rm_clients s = [])
      \<and> (Finishing \<in> set (rm_disposals s) \<or> rm_disposed s \<longrightarrow> rm_clients s = [] \<and> rm_reservations s = [])
      \<and> (rm_disposals s \<noteq> [] \<or> rm_disposed s \<longrightarrow> rm_disposing s))"

definition base_ok :: "RoomState \<Rightarrow> bool" where
  "base_ok s = (handles_ok s \<and> holds_ok s \<and> entries_ok s \<and> shape_ok s)"

definition room_inv :: "RoomState \<Rightarrow> bool" where
  "room_inv s = (base_ok s \<and> (\<forall>c. client_ok s c) \<and> pause_ok s \<and> disposal_ok s)"

lemma then_do_simps [simp]:
  "fst (then_do r f) = fst (f (fst r))" "snd (then_do r f) = snd r @ snd (f (fst r))"
  by (simp_all add: then_do_def case_prod_beta)

section \<open>Changes of no consequence\<close>

text \<open>What the invariants do not see of a client: its queue and its sync flag.\<close>

definition same_client :: "Client \<Rightarrow> Client \<Rightarrow> bool" where
  "same_client x y =
     (sessionId x = sessionId y \<and> cstatus x = cstatus y \<and> cconnection x = cconnection y \<and> croomRef x = croomRef y
      \<and> ctoken x = ctoken y \<and> cin x = cin y \<and> joinedBy x = joinedBy y)"

text \<open>The two states differ in nothing but such fields of the clients.\<close>

definition same_room :: "RoomState \<Rightarrow> RoomState \<Rightarrow> bool" where
  "same_room s s' = (\<exists>h. s' = s\<lparr>rm_heap := h\<rparr> \<and> (\<forall>c. same_client (rm_heap s c) (h c)))"

lemma same_room_refl [simp]: "same_room s s"
  unfolding same_room_def by (intro exI [of _ "rm_heap s"]) (simp add: same_client_def)

lemma same_room_trans:
  assumes "same_room s s1" "same_room s1 s2"
  shows "same_room s s2"
proof -
  obtain h where h: "s1 = s\<lparr>rm_heap := h\<rparr>" "\<And>c. same_client (rm_heap s c) (h c)" using assms(1) unfolding same_room_def by blast
  obtain g where g: "s2 = s1\<lparr>rm_heap := g\<rparr>" "\<And>c. same_client (rm_heap s1 c) (g c)" using assms(2) unfolding same_room_def by blast
  have "same_client (rm_heap s c) (g c)" for c using h(2) [of c] g(2) [of c] by (simp add: h(1) same_client_def)
  then show ?thesis unfolding same_room_def using h(1) g(1) by (intro exI [of _ g]) simp
qed

lemma same_room_parts:
  assumes "same_room s s'"
  shows "client_ok s' c = client_ok s c" "client_core s' c = client_core s c" "pause_ok s' = pause_ok s"
    "base_ok s' = base_ok s" "disposal_ok s' = disposal_ok s" "same_client (rm_heap s c) (rm_heap s' c)"
    "rm_clients s' = rm_clients s" "rm_reservations s' = rm_reservations s" "rm_disposals s' = rm_disposals s"
    "rm_disposing s' = rm_disposing s" "rm_paused s' = rm_paused s" "rm_ready s' = rm_ready s" "rm_leaving s' = rm_leaving s"
    "seat_at s' = seat_at s" "maxClients s' = maxClients s"
proof -
  obtain h where h: "s' = s\<lparr>rm_heap := h\<rparr>" "\<And>c. same_client (rm_heap s c) (h c)" using assms unfolding same_room_def by blast
  show "client_ok s' c = client_ok s c" "client_core s' c = client_core s c"
    using h(2) [of c] by (simp_all add: h(1) client_defs same_client_def)
  show "pause_ok s' = pause_ok s" using h(2) by (simp add: h(1) pause_ok_def same_client_def)
  show "base_ok s' = base_ok s" "disposal_ok s' = disposal_ok s" "same_client (rm_heap s c) (rm_heap s' c)"
    "rm_clients s' = rm_clients s" "rm_reservations s' = rm_reservations s" "rm_disposals s' = rm_disposals s"
    "rm_disposing s' = rm_disposing s" "rm_paused s' = rm_paused s" "rm_ready s' = rm_ready s" "rm_leaving s' = rm_leaving s"
    "seat_at s' = seat_at s" "maxClients s' = maxClients s"
    using h(2) by (simp_all add: h(1) base_ok_def handles_ok_def holds_ok_def entries_ok_def shape_ok_def disposal_ok_def)
qed

lemma same_room_inv: "same_room s s' \<Longrightarrow> room_inv s' = room_inv s"
  by (simp add: room_inv_def same_room_parts)

lemma same_room_set: "same_client (rm_heap s c) (f (rm_heap s c)) \<Longrightarrow> same_room s (set_client c f s)"
  unfolding same_room_def set_client_def
  by (intro exI [of _ "(rm_heap s)(c := f (rm_heap s c))"]) (simp add: same_client_def)

lemma deliver_same: "same_room s (fst (deliver_to cs type header body s))"
proof (induction cs arbitrary: s)
  case (Cons c cs)
  have q: "same_room s (set_client c (\<lambda>x. x\<lparr>cqueue := g x\<rparr>) s)" for g by (rule same_room_set) (simp add: same_client_def)
  show ?case
    using Cons.IH same_room_trans [OF q Cons.IH] by (simp add: Let_def split: option.splits)
qed simp

lemma deliverAll_same: "same_room s (fst (deliverAll type header body except s))"
  by (simp add: deliverAll_def deliver_same)

lemma send_same: "same_room s (fst (send_frame c frame s))"
proof -
  have "same_room s (set_client c (\<lambda>x. x\<lparr>cqueue := g x\<rparr>) s)" for g by (rule same_room_set) (simp add: same_client_def)
  then show ?thesis by (simp add: send_frame_def Let_def split: option.splits)
qed

lemma send_all_same: "same_room s (fst (send_all c fs s))"
  by (induction fs arbitrary: s) (simp, metis send_all.simps(2) then_do_simps(1) same_room_trans send_same)

section \<open>One client's operations\<close>

lemmas base_defs = base_ok_def handles_ok_def holds_ok_def entries_ok_def shape_ok_def

lemma base_okD: "base_ok s \<Longrightarrow> clock_ok (rm_clock s)"
  by (simp add: base_defs)

lemma pause_ok_others:
  assumes "others_same c s s'" "pause_ok s" "rm_paused s' = rm_paused s" "rm_ready s' = rm_ready s" "rm_disposing s' = rm_disposing s"
    "cstatus (rm_heap s' c) = Joined \<longrightarrow> cconnection (rm_heap s' c) = None"
  shows "pause_ok s'"
  using assms unfolding pause_ok_def others_same_def by metis

text \<open>Clearing the reconnection timer, revoking the token, unbinding from the connection.\<close>

lemma clear_reconnect_fields [simp]:
  "rm_heap (clear_reconnect c s) = rm_heap s" "rm_clients (clear_reconnect c s) = rm_clients s"
  "rm_reservations (clear_reconnect c s) = rm_reservations s" "rm_tokens (clear_reconnect c s) = rm_tokens s"
  "rm_conns (clear_reconnect c s) = rm_conns s" "mm_entries (clear_reconnect c s) = mm_entries s"
  "rm_disposals (clear_reconnect c s) = rm_disposals s" "rm_disposing (clear_reconnect c s) = rm_disposing s"
  "rm_disposed (clear_reconnect c s) = rm_disposed s" "rm_paused (clear_reconnect c s) = rm_paused s"
  "rm_ready (clear_reconnect c s) = rm_ready s" "maxClients (clear_reconnect c s) = maxClients s"
  "seat_at (clear_reconnect c s) = seat_at s" "held_at (clear_reconnect c s) = held_at s"
  by (simp_all add: clear_reconnect_def split: option.splits)

lemma clear_reconnect_timer:
  assumes "client_core s c"
  shows "rm_timers (clear_reconnect c s) = (rm_timers s)(c := None)"
    "timer (rm_clock (clear_reconnect c s)) t = (if timer (rm_clock s) t = Some (TReconnect c) then None else timer (rm_clock s) t)"
  using assms by (auto simp: clear_reconnect_def timer_clearTimeout client_defs split: option.splits)

lemma clear_reconnect_facts:
  assumes "client_core s c" "base_ok s"
  shows "client_core (clear_reconnect c s) c" "others_same c s (clear_reconnect c s)" "base_ok (clear_reconnect c s)"
proof -
  show "client_core (clear_reconnect c s) c" using assms(1) by (auto simp: client_defs clear_reconnect_timer [OF assms(1)])
  show "others_same c s (clear_reconnect c s)" using assms(1) by (auto simp: others_same_def clear_reconnect_timer [OF assms(1)])
  have "clock_ok (rm_clock (clear_reconnect c s))" using base_okD [OF assms(2)]
    by (auto simp: clear_reconnect_def clock_ok_clearTimeout split: option.splits)
  moreover have "timer (rm_clock (clear_reconnect c s)) t = Some (THold i) \<longleftrightarrow> timer (rm_clock s) t = Some (THold i)"
    "timer (rm_clock (clear_reconnect c s)) t = Some (TCleanup i) \<longleftrightarrow> timer (rm_clock s) t = Some (TCleanup i)" for t i
    by (auto simp: clear_reconnect_timer [OF assms(1)])
  ultimately show "base_ok (clear_reconnect c s)" using assms(2) by (simp add: base_defs)
qed

lemma revokeToken_fields [simp]:
  "rm_clients (revokeToken c s) = rm_clients s" "rm_reservations (revokeToken c s) = rm_reservations s"
  "rm_timers (revokeToken c s) = rm_timers s" "rm_clock (revokeToken c s) = rm_clock s"
  "rm_conns (revokeToken c s) = rm_conns s" "mm_entries (revokeToken c s) = mm_entries s"
  "rm_disposals (revokeToken c s) = rm_disposals s" "rm_disposing (revokeToken c s) = rm_disposing s"
  "rm_disposed (revokeToken c s) = rm_disposed s" "rm_paused (revokeToken c s) = rm_paused s"
  "rm_ready (revokeToken c s) = rm_ready s" "maxClients (revokeToken c s) = maxClients s"
  "seat_at (revokeToken c s) = seat_at s" "held_at (revokeToken c s) = held_at s"
  "allowReconnection (revokeToken c s) = allowReconnection s" "reconnectionTimeout (revokeToken c s) = reconnectionTimeout s"
  by (simp_all add: revokeToken_def set_client_def split: option.splits)

lemma revokeToken_heap: "rm_heap (revokeToken c s) = (rm_heap s)(c := (rm_heap s c)\<lparr>ctoken := None\<rparr>)"
  by (auto simp: revokeToken_def set_client_def split: option.splits)

lemma revokeToken_facts:
  assumes "client_core s c" "base_ok s"
  shows "client_core (revokeToken c s) c" "others_same c s (revokeToken c s)" "base_ok (revokeToken c s)"
proof -
  have t: "rm_tokens (revokeToken c s) tok = (if rm_tokens s tok = Some c then None else rm_tokens s tok)" for tok
    using assms(1) by (auto simp: revokeToken_def set_client_def client_defs split: option.splits)
  show "client_core (revokeToken c s) c" using assms(1) by (auto simp: client_defs t revokeToken_heap)
  show "others_same c s (revokeToken c s)" by (auto simp: others_same_def t revokeToken_heap)
  show "base_ok (revokeToken c s)" using assms(2) by (simp add: base_defs)
qed

lemma unbind_fields [simp]:
  "rm_clients (unbind_seat c s) = rm_clients s" "rm_reservations (unbind_seat c s) = rm_reservations s"
  "rm_timers (unbind_seat c s) = rm_timers s" "rm_clock (unbind_seat c s) = rm_clock s"
  "rm_tokens (unbind_seat c s) = rm_tokens s" "mm_entries (unbind_seat c s) = mm_entries s"
  "rm_disposals (unbind_seat c s) = rm_disposals s" "rm_disposing (unbind_seat c s) = rm_disposing s"
  "rm_disposed (unbind_seat c s) = rm_disposed s" "rm_paused (unbind_seat c s) = rm_paused s"
  "rm_ready (unbind_seat c s) = rm_ready s" "maxClients (unbind_seat c s) = maxClients s"
  "seat_at (unbind_seat c s) = seat_at s" "held_at (unbind_seat c s) = held_at s" "rm_shutdown (unbind_seat c s) = rm_shutdown s"
  "allowReconnection (unbind_seat c s) = allowReconnection s" "reconnectionTimeout (unbind_seat c s) = reconnectionTimeout s"
  by (simp_all add: unbind_seat_def set_client_def Let_def split: option.splits)

lemma unbind_heap: "rm_heap (unbind_seat c s) = (rm_heap s)(c := (rm_heap s c)\<lparr>cconnection := None\<rparr>)"
  by (auto simp: unbind_seat_def set_client_def Let_def split: option.splits)

lemma unbind_conns:
  assumes "client_core s c"
  shows "conn_seats (rm_conns (unbind_seat c s) k) r = (if conn_seats (rm_conns s k) r = Some c then None else conn_seats (rm_conns s k) r)"
    "nextRoomRef (rm_conns (unbind_seat c s) k) = nextRoomRef (rm_conns s k)" "cremote (rm_conns (unbind_seat c s) k) = cremote (rm_conns s k)"
  using assms by (auto simp: unbind_seat_def set_client_def Let_def client_defs split: option.splits)

lemma unbind_facts:
  assumes "client_core s c" "base_ok s"
  shows "client_core (unbind_seat c s) c" "others_same c s (unbind_seat c s)" "base_ok (unbind_seat c s)"
proof -
  show "client_core (unbind_seat c s) c" using assms(1) by (auto simp: client_defs unbind_conns [OF assms(1)] unbind_heap)
  show "others_same c s (unbind_seat c s)" by (auto simp: others_same_def unbind_conns [OF assms(1)] unbind_heap)
  show "base_ok (unbind_seat c s)" using assms(2) by (auto simp: base_defs unbind_conns [OF assms(1)])
qed

section \<open>Pausing, emptiness and releasing\<close>

text \<open>What an operation has to establish for the client it works on, and the state with it.\<close>

definition step_ok :: "nat \<Rightarrow> RoomState \<Rightarrow> RoomState \<Rightarrow> bool" where
  "step_ok c s s' = (base_ok s' \<and> others_same c s s' \<and> client_ok s' c)"

lemma clients_ok:
  assumes "step_ok c s s'" "\<And>d. d \<noteq> c \<Longrightarrow> client_ok s d"
  shows "client_ok s' d"
  using assms others_same_ok [of c s s' d] by (cases "d = c") (simp_all add: step_ok_def)

lemma updatePause_form:
  obtains p l where "fst (updatePause s) = s\<lparr>rm_paused := p, rm_loops := l\<rparr>" "rm_paused s \<and> \<not> p \<or> p = rm_paused s \<or> rm_ready s"
proof -
  have "fst (updatePause s) = s\<lparr>rm_paused := rm_paused (fst (updatePause s)), rm_loops := rm_loops (fst (updatePause s))\<rparr>"
    by (auto simp: updatePause_def)
  moreover have "rm_paused (fst (updatePause s)) = rm_paused s \<or> rm_ready s" by (auto simp: updatePause_def)
  ultimately show ?thesis using that by blast
qed

lemma joined_seated: "client_ok s c \<Longrightarrow> cstatus (rm_heap s c) = Joined \<Longrightarrow> seat_at s (sessionId (rm_heap s c)) = Some c"
  by (auto simp: client_defs)

lemma updatePause_pause:
  assumes "\<And>c. client_ok s c" "rm_paused s \<longrightarrow> rm_ready s"
  shows "pause_ok (fst (updatePause s))"
proof -
  have "cconnection (rm_heap s c) = None" if "connected_count s = 0" "cstatus (rm_heap s c) = Joined" for c
  proof -
    have "(sessionId (rm_heap s c), c) \<in> set (rm_clients s)"
      using joined_seated [OF assms(1) that(2)] by (auto simp: seat_at_def dest: map_of_SomeD)
    then show ?thesis using that by (force simp: connected_count_def filter_empty_conv)
  qed
  then show ?thesis using assms(2) by (auto simp: updatePause_def pause_ok_def)
qed

lemma updatePause_inv:
  assumes "base_ok s" "\<And>c. client_ok s c" "rm_paused s \<longrightarrow> rm_ready s" "disposal_ok s"
  shows "room_inv (fst (updatePause s))"
proof -
  obtain p l where f: "fst (updatePause s) = s\<lparr>rm_paused := p, rm_loops := l\<rparr>" by (rule updatePause_form)
  have "base_ok (fst (updatePause s))" "client_ok (fst (updatePause s)) c" "disposal_ok (fst (updatePause s))" for c
    using assms(1,4) assms(2) [of c] unfolding f by (simp_all add: base_defs client_defs disposal_ok_def)
  then show ?thesis using updatePause_pause [of s] assms(2,3) by (simp add: room_inv_def)
qed

lemma checkEmpty_inv:
  assumes "room_inv s"
  shows "room_inv (fst (checkEmpty s))"
proof (cases "autoDispose s \<and> rm_ready s \<and> \<not> rm_disposing s \<and> rm_clients s = [] \<and> rm_reservations s = []")
  case True
  let ?s = "s\<lparr>rm_loops := False, rm_disposals := rm_disposals s @ [Finishing], rm_disposing := True\<rparr>"
  have f: "fst (checkEmpty s) = ?s" using True by (simp add: checkEmpty_def dispose_clear_def)
  have "client_ok ?s c" for c using assms by (simp add: room_inv_def client_defs)
  moreover have "base_ok ?s" using assms True by (simp add: room_inv_def base_defs)
  moreover have "pause_ok ?s" using assms by (simp add: room_inv_def pause_ok_def)
  moreover have "seat_at s sid = None" for sid using True by (simp add: seat_at_def)
  then have "disposal_ok ?s" using assms True by (simp add: room_inv_def disposal_ok_def)
  ultimately show ?thesis unfolding f room_inv_def by blast
qed (use assms in \<open>auto simp: checkEmpty_def\<close>)

lemma checkEmpty_fields:
  "rm_clients (fst (checkEmpty s)) = rm_clients s" "rm_reservations (fst (checkEmpty s)) = rm_reservations s"
  "rm_disposing (fst (checkEmpty s)) \<Longrightarrow> \<not> rm_disposing s \<Longrightarrow> rm_clients s = [] \<and> rm_reservations s = []"
  "maxClients (fst (checkEmpty s)) = maxClients s"
  by (auto simp: checkEmpty_def dispose_clear_def split: if_splits)

lemma room_inv_unchanged [simp]:
  "room_inv (s\<lparr>rm_presence := v0\<rparr>) = room_inv s"
  "room_inv (s\<lparr>rm_leaving := v1\<rparr>) = room_inv s"
  "room_inv (s\<lparr>rm_loops := v2\<rparr>) = room_inv s"
  "room_inv (s\<lparr>rm_shutdown := v3\<rparr>) = room_inv s"
  "room_inv (s\<lparr>rm_locked := v4\<rparr>) = room_inv s"
  "room_inv (s\<lparr>rm_private := v5\<rparr>) = room_inv s"
  "room_inv (s\<lparr>maxClients := v6\<rparr>) = room_inv s"
  "room_inv (s\<lparr>autoDispose := v7\<rparr>) = room_inv s"
  "room_inv (s\<lparr>allowReconnection := v8\<rparr>) = room_inv s"
  "room_inv (s\<lparr>reconnectionTimeout := v9\<rparr>) = room_inv s"
  by (simp_all add: room_inv_def base_defs client_defs pause_ok_def disposal_ok_def)

text \<open>The state of \<open>release_seat\<close> and of \<open>unseat\<close> once the seat is gone.\<close>

definition vacate :: "nat \<Rightarrow> RoomState \<Rightarrow> RoomState" where
  "vacate c s =
     (let s' = set_client c (\<lambda>x. x\<lparr>cstatus := Left, cqueue := None\<rparr>) (unbind_seat c s)
      in s'\<lparr>rm_clients := AList.delete (sessionId (rm_heap s c)) (rm_clients s')\<rparr>)"

lemma vacate_fields [simp]:
  "rm_reservations (vacate c s) = rm_reservations s" "rm_timers (vacate c s) = rm_timers s" "rm_clock (vacate c s) = rm_clock s"
  "rm_tokens (vacate c s) = rm_tokens s" "mm_entries (vacate c s) = mm_entries s" "rm_disposals (vacate c s) = rm_disposals s"
  "rm_disposing (vacate c s) = rm_disposing s" "rm_disposed (vacate c s) = rm_disposed s" "rm_paused (vacate c s) = rm_paused s"
  "rm_ready (vacate c s) = rm_ready s" "maxClients (vacate c s) = maxClients s" "held_at (vacate c s) = held_at s"
  "rm_conns (vacate c s) = rm_conns (unbind_seat c s)" "rm_clients (vacate c s) = AList.delete (sessionId (rm_heap s c)) (rm_clients s)"
  by (simp_all add: vacate_def set_client_def Let_def)

lemma vacate_heap: "rm_heap (vacate c s) = (rm_heap s)(c := (rm_heap s c)\<lparr>cconnection := None, cstatus := Left, cqueue := None\<rparr>)"
  by (simp add: vacate_def set_client_def Let_def unbind_heap)

lemma vacate_seat: "seat_at (vacate c s) = (seat_at s)(sessionId (rm_heap s c) := None)"
  by (auto simp: seat_at_def delete_conv')

lemma vacate_inv:
  assumes "base_ok s" "client_core s c" "rm_timers s c = None" "cin (rm_heap s c)" "cstatus (rm_heap s c) \<noteq> Left"
    "\<And>d. d \<noteq> c \<Longrightarrow> client_ok s d" "pause_ok s" "disposal_ok s"
  shows "room_inv (vacate c s)"
proof -
  have seat: "seat_at s (sessionId (rm_heap s c)) = Some c" using assms(2,4,5) by (simp add: client_defs)
  have "client_ok (vacate c s) c"
    using assms(2,3,4) by (auto simp: client_defs vacate_seat vacate_heap unbind_conns [OF assms(2)])
  moreover have "others_same c s (vacate c s)"
    using seat by (auto simp: others_same_def vacate_seat vacate_heap unbind_conns [OF assms(2)])
  moreover have "base_ok (vacate c s)" using unbind_facts(3) [OF assms(2,1)] by (simp add: base_defs distinct_delete)
  ultimately have ok: "step_ok c s (vacate c s)" by (simp add: step_ok_def)
  have "pause_ok (vacate c s)"
    by (rule pause_ok_others [of c s]) (use ok assms(7) in \<open>simp_all add: step_ok_def vacate_heap\<close>)
  moreover have "disposal_ok (vacate c s)"
    using assms(8) unfolding disposal_ok_def by (auto simp: vacate_seat split: if_splits)
  ultimately show ?thesis using ok clients_ok [OF ok assms(6)] by (simp add: room_inv_def step_ok_def)
qed

text \<open>
  Releasing a seat. The client's reconnection timer may just have fired, so that its entry is gone
  while the client is still held.
\<close>

lemma release_form:
  assumes "cin (rm_heap s c)" "cstatus (rm_heap s c) \<noteq> Left"
  obtains s1 where "same_room s s1"
    "fst (release_seat c consented code reason s) =
       (let s2 = (vacate c (revokeToken c (clear_reconnect c s1)))\<lparr>rm_presence := (rm_presence s1)(sessionId (rm_heap s c) := None)\<rparr>
        in if cstatus (rm_heap s c) = Joining then fst (checkEmpty s2) else s2\<lparr>rm_leaving := rm_leaving s2 @ [(c, consented)]\<rparr>)"
proof -
  let ?s1 = "fst (case code of None \<Rightarrow> (s, []) | Some n \<Rightarrow>
      if cconnection (rm_heap s c) \<noteq> None \<and> cstatus (rm_heap s c) \<noteq> Joining
      then send_frame c (RoomFrame 8 [croomRef (rm_heap s c), n] reason) s else (s, []))"
  have s1: "same_room s ?s1" using send_same by (simp split: option.splits)
  have "sessionId (rm_heap ?s1 c) = sessionId (rm_heap s c)" using same_room_parts(6) [OF s1, of c] by (simp add: same_client_def)
  moreover have "rm_presence (unbind_seat c (revokeToken c (clear_reconnect c ?s1))) = rm_presence ?s1"
    by (simp add: unbind_seat_def revokeToken_def clear_reconnect_def set_client_def Let_def split: option.splits)
  ultimately show ?thesis
    by (intro that [OF s1]) (use assms in \<open>simp add: release_seat_def vacate_def Let_def set_client_def revokeToken_heap\<close>)
qed

lemma release_seat_inv:
  assumes "base_ok s" "\<And>d. d \<noteq> c \<Longrightarrow> client_ok s d" "client_ok s c \<or> client_core s c \<and> cstatus (rm_heap s c) = Reconnecting"
    "pause_ok s" "disposal_ok s"
  shows "room_inv (fst (release_seat c consented code reason s))"
proof (cases "cin (rm_heap s c) \<and> cstatus (rm_heap s c) \<noteq> Left")
  case False
  then have "client_ok s c" using assms(3) by (auto simp: client_defs)
  then have "client_ok s d" for d using assms(2) by (cases "d = c") auto
  then show ?thesis using False assms by (auto simp: release_seat_def Let_def room_inv_def)
next
  case True
  obtain s1 where s1: "same_room s s1" and f: "fst (release_seat c consented code reason s) =
       (let s2 = (vacate c (revokeToken c (clear_reconnect c s1)))\<lparr>rm_presence := (rm_presence s1)(sessionId (rm_heap s c) := None)\<rparr>
        in if cstatus (rm_heap s c) = Joining then fst (checkEmpty s2) else s2\<lparr>rm_leaving := rm_leaving s2 @ [(c, consented)]\<rparr>)"
    using True release_form by blast
  note p = same_room_parts [OF s1]
  have core: "client_core s1 c" "base_ok s1" using assms(1,3) p by (auto simp: client_ok_def)
  let ?a = "clear_reconnect c s1" and ?b = "revokeToken c (clear_reconnect c s1)"
  note fa = clear_reconnect_facts [OF core]
  note fb = revokeToken_facts [OF fa(1,3)]
  have sc: "same_client (rm_heap s c) (rm_heap s1 c)" by (rule p(6))
  have others: "others_same c s1 ?b" using others_same_trans [OF fa(2) fb(2)] .
  have "room_inv (vacate c ?b)"
  proof (rule vacate_inv [OF fb(3,1)])
    show "rm_timers ?b c = None" by (simp add: clear_reconnect_timer [OF core(1)])
    show "cin (rm_heap ?b c)" "cstatus (rm_heap ?b c) \<noteq> Left" using True sc by (simp_all add: revokeToken_heap same_client_def)
    show "client_ok ?b d" if "d \<noteq> c" for d using others_same_ok [OF others that] assms(2) [OF that] p by simp
    show "disposal_ok ?b" using assms(5) p(5) by (simp add: disposal_ok_def)
    show "pause_ok ?b" using assms(4) p(3) unfolding pause_ok_def by (auto simp: revokeToken_heap)
  qed
  then show ?thesis unfolding f Let_def by (simp add: checkEmpty_inv)
qed

lemma release_seats:
  assumes "cin (rm_heap s c)" "cstatus (rm_heap s c) \<noteq> Left"
  shows "seat_at (fst (release_seat c consented code reason s)) = (seat_at s)(sessionId (rm_heap s c) := None)"
    "rm_clients (fst (release_seat c consented code reason s)) = AList.delete (sessionId (rm_heap s c)) (rm_clients s)"
    "rm_reservations (fst (release_seat c consented code reason s)) = rm_reservations s"
proof -
  obtain s1 where s1: "same_room s s1" and f: "fst (release_seat c consented code reason s) =
       (let s2 = (vacate c (revokeToken c (clear_reconnect c s1)))\<lparr>rm_presence := (rm_presence s1)(sessionId (rm_heap s c) := None)\<rparr>
        in if cstatus (rm_heap s c) = Joining then fst (checkEmpty s2) else s2\<lparr>rm_leaving := rm_leaving s2 @ [(c, consented)]\<rparr>)"
    using assms release_form by blast
  have "sessionId (rm_heap s1 c) = sessionId (rm_heap s c)" using same_room_parts(6) [OF s1, of c] by (simp add: same_client_def)
  then show c: "rm_clients (fst (release_seat c consented code reason s)) = AList.delete (sessionId (rm_heap s c)) (rm_clients s)"
    and "rm_reservations (fst (release_seat c consented code reason s)) = rm_reservations s"
    unfolding f by (simp_all add: Let_def checkEmpty_fields same_room_parts [OF s1] revokeToken_heap)
  then show "seat_at (fst (release_seat c consented code reason s)) = (seat_at s)(sessionId (rm_heap s c) := None)"
    by (auto simp: seat_at_def delete_conv')
qed

lemma release_room_inv: "room_inv s \<Longrightarrow> room_inv (fst (release_seat c consented code reason s))"
  by (rule release_seat_inv) (simp_all add: room_inv_def)

lemma unseat_inv:
  assumes "room_inv s" "seat_at s (sessionId (rm_heap s c)) = Some c \<longrightarrow> cstatus (rm_heap s c) = Joining"
  shows "room_inv (fst (unseat c s))"
proof (cases "seat_at s (sessionId (rm_heap s c)) = Some c")
  case True
  have ok: "client_ok s c" using assms(1) by (simp add: room_inv_def)
  have "room_inv (vacate c s)"
    using assms True ok by (intro vacate_inv) (auto simp: room_inv_def client_defs)
  moreover have "set_client c (\<lambda>x. x\<lparr>cstatus := Left, cqueue := None\<rparr>)
      (unbind_seat c (s\<lparr>rm_clients := AList.delete (sessionId (rm_heap s c)) (rm_clients s)\<rparr>)) = vacate c s"
    by (simp add: vacate_def unbind_seat_def set_client_def Let_def split: option.splits)
  ultimately show ?thesis using True by (simp add: unseat_def Let_def checkEmpty_inv)
qed (use assms in \<open>simp add: unseat_def Let_def\<close>)

section \<open>Taking a seat\<close>

text \<open>The handle a binding gets, and that it is free.\<close>

definition handle :: "nat \<Rightarrow> nat option \<Rightarrow> RoomState \<Rightarrow> nat" where
  "handle k ref s = (case ref of Some r \<Rightarrow> r | None \<Rightarrow> nextRoomRef (rm_conns s k))"

lemma handle_free: "base_ok s \<Longrightarrow> ref_legal s (Some k) ref \<Longrightarrow> conn_seats (rm_conns s k) (handle k ref s) = None"
  by (cases "conn_seats (rm_conns s k) (handle k ref s)") (auto simp: base_defs handle_def ref_legal_def split: option.splits)

lemma bind_fields [simp]:
  "rm_clients (bind_seat c k ref s) = rm_clients s" "rm_reservations (bind_seat c k ref s) = rm_reservations s"
  "rm_timers (bind_seat c k ref s) = rm_timers s" "rm_clock (bind_seat c k ref s) = rm_clock s"
  "rm_tokens (bind_seat c k ref s) = rm_tokens s" "mm_entries (bind_seat c k ref s) = mm_entries s"
  "rm_disposals (bind_seat c k ref s) = rm_disposals s" "rm_disposing (bind_seat c k ref s) = rm_disposing s"
  "rm_disposed (bind_seat c k ref s) = rm_disposed s" "rm_paused (bind_seat c k ref s) = rm_paused s"
  "rm_ready (bind_seat c k ref s) = rm_ready s" "maxClients (bind_seat c k ref s) = maxClients s"
  "seat_at (bind_seat c k ref s) = seat_at s" "held_at (bind_seat c k ref s) = held_at s"
  by (simp_all add: bind_seat_def set_client_def Let_def split: option.splits)

lemma bind_heap:
  "rm_heap (bind_seat c k ref s) = (rm_heap s)(c := (case k of None \<Rightarrow> (rm_heap s c)\<lparr>cconnection := None\<rparr>
     | Some k \<Rightarrow> (rm_heap s c)\<lparr>cconnection := Some k, croomRef := handle k ref s\<rparr>))"
  by (simp add: bind_seat_def set_client_def Let_def handle_def split: option.splits)

lemma bind_conns:
  "conn_seats (rm_conns (bind_seat c k ref s) j)
    = (if k = Some j then (conn_seats (rm_conns s j))(handle j ref s \<mapsto> c) else conn_seats (rm_conns s j))"
  "cremote (rm_conns (bind_seat c k ref s) j) = cremote (rm_conns s j)"
  by (auto simp: bind_seat_def set_client_def Let_def handle_def split: option.splits)

lemma bind_base:
  assumes "base_ok s" "ref_legal s k ref"
  shows "base_ok (bind_seat c k ref s)"
proof -
  have "handles_ok (bind_seat c k ref s)"
    using assms unfolding handles_ok_def base_ok_def
    by (auto simp: bind_seat_def set_client_def Let_def ref_legal_def less_Suc_eq split: option.splits if_splits)
  then show ?thesis using assms(1) by (simp add: base_defs)
qed

lemma bind_others:
  assumes "base_ok s" "ref_legal s k ref"
  shows "others_same c s (bind_seat c k ref s)"
  using handle_free [OF assms(1)] assms(2) by (cases k) (auto simp: others_same_def bind_heap bind_conns)

lemma seat_at_update: "seat_at (s\<lparr>rm_clients := AList.update sid c (rm_clients s)\<rparr>) = (seat_at s)(sid \<mapsto> c)"
  by (auto simp: seat_at_def update_conv')

lemma set_client_fields [simp]:
  "rm_clients (set_client c f s) = rm_clients s" "rm_reservations (set_client c f s) = rm_reservations s"
  "rm_timers (set_client c f s) = rm_timers s" "rm_clock (set_client c f s) = rm_clock s" "rm_conns (set_client c f s) = rm_conns s"
  "rm_tokens (set_client c f s) = rm_tokens s" "mm_entries (set_client c f s) = mm_entries s"
  "rm_disposals (set_client c f s) = rm_disposals s" "rm_disposing (set_client c f s) = rm_disposing s"
  "rm_disposed (set_client c f s) = rm_disposed s" "rm_paused (set_client c f s) = rm_paused s"
  "rm_ready (set_client c f s) = rm_ready s" "maxClients (set_client c f s) = maxClients s"
  "seat_at (set_client c f s) = seat_at s" "held_at (set_client c f s) = held_at s"
  "rm_heap (set_client c f s) = (rm_heap s)(c := f (rm_heap s c))"
  by (simp_all add: set_client_def)

lemma set_client_handle [simp]: "handle k ref (set_client c f s) = handle k ref s"
  by (simp add: handle_def split: option.splits)

lemma set_client_base [simp]: "base_ok (set_client c f s) = base_ok s" "disposal_ok (set_client c f s) = disposal_ok s"
  by (simp_all add: base_defs disposal_ok_def)

lemma take_seat_state:
  assumes "fst (take_seat c k reserved ref s) = Inr ()"
  shows "\<not> rm_disposing s" "seat_at s (sessionId (rm_heap s c)) = None"
    "snd (take_seat c k reserved ref s) =
       (let s1 = bind_seat c k ref (set_client c (\<lambda>x. x\<lparr>cin := True, cstatus := Joining, cqueue := Some [], csynced := False\<rparr>) s)
        in s1\<lparr>rm_clients := AList.update (sessionId (rm_heap s c)) c (rm_clients s)\<rparr>)"
    "\<not> reserved \<Longrightarrow> acceptsNewSeat s = Inr ()"
  using assms
  by (auto simp: take_seat_def acceptsNewSeat_def undisposed_def Let_def bind_heap split: sum.splits if_splits option.splits)

lemma take_seat_refused: "isl (fst (take_seat c k reserved ref s)) \<Longrightarrow> snd (take_seat c k reserved ref s) = s"
  by (auto simp: take_seat_def Let_def split: sum.splits if_splits)

lemma take_seat_inv:
  assumes "room_inv s" "ref_legal s k ref"
  shows "room_inv (snd (take_seat c k reserved ref s))"
proof (cases "fst (take_seat c k reserved ref s)")
  case (Inl e)
  then show ?thesis using take_seat_refused [of c k reserved ref s] assms(1) by simp
next
  case (Inr u)
  note t = take_seat_state [of c k reserved ref s, unfolded Inr, simplified]
  let ?a = "set_client c (\<lambda>x. x\<lparr>cin := True, cstatus := Joining, cqueue := Some [], csynced := False\<rparr>) s"
  let ?b = "bind_seat c k ref ?a"
  let ?s = "?b\<lparr>rm_clients := AList.update (sessionId (rm_heap s c)) c (rm_clients s)\<rparr>"
  have b: "base_ok s" "client_ok s d" "pause_ok s" "disposal_ok s" for d using assms(1) by (simp_all add: room_inv_def)
  have la: "ref_legal ?a k ref" using assms(2) by (simp add: ref_legal_def split: option.splits)
  have bb: "base_ok ?b" by (rule bind_base [OF _ la]) (simp add: b)
  have un: "\<not> (cin (rm_heap s c) \<and> cstatus (rm_heap s c) \<noteq> Left)" using client_seat [OF b(2) [of c], of "sessionId (rm_heap s c)"] t(2) by simp
  have gone: "seat_at s sid \<noteq> Some c" "conn_seats (rm_conns s j) r \<noteq> Some c" for sid j r
    using client_seat [OF b(2) [of c], of sid] client_handle [OF b(2) [of c], of j r] un by simp_all
  have nt: "rm_timers s c = None" using client_timer [OF b(2) [of c]] not_in_joining [OF b(2) [of c]] un by auto
  have ss: "seat_at ?s = (seat_at s)(sessionId (rm_heap s c) \<mapsto> c)" using seat_at_update [of "sessionId (rm_heap s c)" c ?b] by simp
  have "others_same c s ?s"
  proof -
    have "others_same c s ?a" by (simp add: others_same_def)
    moreover have "others_same c ?a ?b" using la b(1) by (intro bind_others) simp_all
    moreover have "others_same c ?b ?s" using t(2) by (auto simp: others_same_def ss)
    ultimately show ?thesis by (meson others_same_trans)
  qed
  moreover have "base_ok ?s" using bb by (simp add: base_defs distinct_update)
  moreover have "client_ok ?s c"
  proof -
    have "timer (rm_clock s) t \<noteq> Some (TReconnect c)" "rm_tokens s token = Some c \<longleftrightarrow> ctoken (rm_heap s c) = Some token" for t token
      using b(2) [of c] nt by (simp_all add: client_defs)
    moreover have "conn_seats (rm_conns ?s j) r = Some c \<longleftrightarrow> k = Some j \<and> handle j ref s = r" for j r
      using gone(2) by (auto simp: bind_conns)
    moreover have "seat_at ?s sid = Some c \<longleftrightarrow> sid = sessionId (rm_heap s c)" for sid using gone(1) by (simp add: ss)
    ultimately show ?thesis using nt by (simp add: client_defs bind_heap split: option.splits) blast
  qed
  ultimately have ok: "step_ok c s ?s" by (simp add: step_ok_def)
  have "pause_ok ?s"
    by (rule pause_ok_others [of c s]) (use ok b(3) in \<open>simp_all add: step_ok_def bind_heap split: option.splits\<close>)
  moreover have "disposal_ok ?s" using b(4) t(1) by (simp add: disposal_ok_def)
  ultimately have "room_inv ?s" using ok clients_ok [OF ok b(2)] by (simp add: room_inv_def step_ok_def)
  then show ?thesis using t(3) by (simp add: Let_def)
qed

section \<open>Tokens, joining, losing a connection and coming back\<close>

lemma issueToken_inv:
  assumes "room_inv s" "rm_tokens s fresh = None"
  shows "room_inv (snd (issueToken c fresh s))" "rm_clients (snd (issueToken c fresh s)) = rm_clients s"
    "cin (rm_heap (snd (issueToken c fresh s)) c) = cin (rm_heap s c)"
    "cstatus (rm_heap (snd (issueToken c fresh s)) d) = cstatus (rm_heap s d)" "rm_reservations (snd (issueToken c fresh s)) = rm_reservations s"
proof -
  let ?a = "revokeToken c s"
  let ?b = "set_client c (\<lambda>x. x\<lparr>ctoken := Some fresh\<rparr>) (?a\<lparr>rm_tokens := (rm_tokens ?a)(fresh \<mapsto> c)\<rparr>)"
  have b: "base_ok s" "client_ok s d" "pause_ok s" "disposal_ok s" for d using assms(1) by (simp_all add: room_inv_def)
  have core: "client_core s c" using b(2) by (simp add: client_ok_def)
  note r = revokeToken_facts [OF core b(1)]
  have ta: "rm_tokens ?a fresh = None" using assms(2) by (auto simp: revokeToken_def split: option.splits)
  have "client_ok ?a c" using r(1) b(2) [of c] by (simp add: client_ok_def revokeToken_heap)
  then have oka: "client_ok ?a d" for d using all_ok [OF r(2) _ b(2)] by simp
  have "pause_ok ?a" using b(3) unfolding pause_ok_def by (auto simp: revokeToken_heap)
  then have ia: "room_inv ?a" using oka r(3) b(4) by (simp add: room_inv_def disposal_ok_def)
  have "client_ok ?b c" using oka [of c] ta by (auto simp: client_defs revokeToken_heap)
  moreover have "others_same c ?a ?b" using ta by (auto simp: others_same_def)
  ultimately have okb: "client_ok ?b d" for d using all_ok [OF _ _ oka] by simp
  have "base_ok ?b" "disposal_ok ?b" using ia by (simp_all add: room_inv_def base_defs disposal_ok_def)
  moreover have "pause_ok ?b" using ia unfolding room_inv_def pause_ok_def by auto
  ultimately have "room_inv ?b" using okb by (simp add: room_inv_def)
  with ia show "room_inv (snd (issueToken c fresh s))" by (simp add: issueToken_def Let_def)
  show "rm_clients (snd (issueToken c fresh s)) = rm_clients s"
    "cin (rm_heap (snd (issueToken c fresh s)) c) = cin (rm_heap s c)"
    "cstatus (rm_heap (snd (issueToken c fresh s)) d) = cstatus (rm_heap s d)" "rm_reservations (snd (issueToken c fresh s)) = rm_reservations s"
    by (simp_all add: issueToken_def Let_def revokeToken_heap)
qed

text \<open>A seated client that is not held changes into one that is joined.\<close>

lemma joined_inv:
  assumes "base_ok s" "\<And>d. client_ok s d" "rm_paused s \<longrightarrow> rm_ready s" "disposal_ok s"
    "cin (rm_heap s c)" "cstatus (rm_heap s c) = Joining"
  shows "room_inv (fst (updatePause (set_client c (\<lambda>x. x\<lparr>cstatus := Joined\<rparr>) s)))"
proof (rule updatePause_inv)
  let ?s = "set_client c (\<lambda>x. x\<lparr>cstatus := Joined\<rparr>) s"
  have "client_ok ?s c" using assms(2) [of c] assms(5,6) by (auto simp: client_defs)
  moreover have "others_same c s ?s" by (simp add: others_same_def)
  ultimately show "client_ok ?s d" for d using all_ok [OF _ _ assms(2)] by simp
qed (use assms in simp_all)

lemma activate_inv:
  assumes "room_inv s" "cin (rm_heap s c)"
  shows "room_inv (fst (activate c s))"
proof (cases "cstatus (rm_heap s c) = Joining")
  case True
  let ?s = "fst (updatePause (set_client c (\<lambda>x. x\<lparr>cstatus := Joined\<rparr>) s))"
  let ?t = "set_client c (\<lambda>x. x\<lparr>cqueue := None\<rparr>) ?s"
  have i: "room_inv ?s" using assms True by (intro joined_inv) (simp_all add: room_inv_def pause_ok_def)
  have t: "same_room ?s ?t" by (rule same_room_set) (simp add: same_client_def)
  have "same_room ?s (fst (activate c s))"
    using True same_room_trans [OF t] same_room_trans [OF same_room_trans [OF t send_all_same] deliverAll_same]
      same_room_trans [OF t deliverAll_same]
    by (simp add: activate_def Let_def split: option.splits)
  then show ?thesis using i same_room_inv by blast
qed (use assms in \<open>simp add: activate_def\<close>)

end
