(* ===== verification/RoomOperations.thy ===== *)
theory RoomOperations
  imports RoomInvariants
begin

text \<open>
  The remaining operations of a room keep its invariant: losing a connection and coming back,
  reservations and their timers, and the parts of a disposal. With that a room is a \<open>machine\<close>, and
  every state it gets to satisfies \<open>room_inv\<close>.
\<close>

section \<open>Losing a connection and coming back\<close>

lemma room_invD:
  assumes "room_inv s"
  shows "base_ok s" "client_ok s c" "pause_ok s" "disposal_ok s" "client_core s c"
  using assms by (auto simp: room_inv_def client_ok_def)

lemma ref_legal_conns: "rm_conns s' = rm_conns s \<Longrightarrow> ref_legal s' k ref = ref_legal s k ref"
  by (simp add: ref_legal_def split: option.splits)

lemma unbind_inv:
  assumes "room_inv s"
  shows "room_inv (unbind_seat c s)"
proof -
  note i = room_invD [OF assms]
  note u = unbind_facts [OF i(5) i(1), of c]
  have "client_ok (unbind_seat c s) c" using u(1) i(2) [of c] by (simp add: client_ok_def unbind_heap)
  then have "client_ok (unbind_seat c s) d" for d using all_ok [OF u(2) _ i(2)] by simp
  moreover have "pause_ok (unbind_seat c s)" by (rule pause_ok_others [OF u(2) i(3)]) (simp_all add: unbind_heap)
  ultimately show ?thesis using u(3) i(4) by (simp add: room_inv_def disposal_ok_def)
qed

lemma held_inv:
  assumes "room_inv s" "cstatus (rm_heap s c) = Joined" "cconnection (rm_heap s c) = None"
    "setTimeout (TReconnect c) ms (rm_clock s) = (t, clock)"
    "s' = (set_client c (\<lambda>x. x\<lparr>cstatus := Reconnecting, csynced := False\<rparr>) s)\<lparr>rm_clock := clock, rm_timers := (rm_timers s)(c \<mapsto> t)\<rparr>"
  shows "room_inv (fst (updatePause s'))"
proof (rule updatePause_inv)
  note i = room_invD [OF assms(1)]
  have cin: "cin (rm_heap s c)" using i(2) [of c] assms(2) by (auto simp: client_defs)
  have cl: "clock_ok (rm_clock s)" using i(1) by (rule base_okD)
  have new: "timer (rm_clock s) t = None" "timer clock = (timer (rm_clock s))(t \<mapsto> TReconnect c)" "clock_ok clock"
    using timer_fresh [OF cl, of "TReconnect c" ms] timer_setTimeout [of "TReconnect c" ms "rm_clock s"]
      clock_ok_setTimeout [OF cl, of "TReconnect c" ms] by (simp_all add: assms(4))
  have nt: "timer (rm_clock s) u \<noteq> Some (TReconnect c)" for u using i(2) [of c] assms(2) by (auto simp: client_defs)
  have "client_ok s' c" using i(2) [of c] assms(2,3) cin nt by (auto simp: client_defs assms(5) new(2))
  moreover have "others_same c s s'" using new(1) by (auto simp: others_same_def assms(5) new(2))
  ultimately show "client_ok s' d" for d using all_ok [OF _ _ i(2)] by simp
  have "timer clock u = Some (THold j) \<longleftrightarrow> timer (rm_clock s) u = Some (THold j)"
    "timer clock u = Some (TCleanup j) \<longleftrightarrow> timer (rm_clock s) u = Some (TCleanup j)" for u j using new(1) by (auto simp: new(2))
  then show "base_ok s'" using i(1) new(3) by (simp add: base_defs assms(5))
  show "rm_paused s' \<longrightarrow> rm_ready s'" "disposal_ok s'" using i(3,4) by (simp_all add: assms(5) pause_ok_def disposal_ok_def)
qed

lemma connectionLost_inv:
  assumes "room_inv s"
  shows "room_inv (fst (connectionLost c s))"
proof -
  obtain t clock where t: "setTimeout (TReconnect c) (reconnectionTimeout s * 1000) (rm_clock s) = (t, clock)" by fastforce
  note u = unbind_inv [OF assms, of c]
  show ?thesis
    using assms u release_room_inv [OF u] held_inv [OF u, of c "reconnectionTimeout s * 1000" t clock] t
    by (cases "cstatus (rm_heap s c)") (simp_all add: connectionLost_def Let_def unbind_heap)
qed

lemma reconnect_seat_inv:
  assumes "room_inv s" "cstatus (rm_heap s c) = Reconnecting" "ref_legal s (Some k) ref"
  shows "room_inv (fst (reconnect_seat c k ref s))"
  unfolding reconnect_seat_def
proof (rule updatePause_inv)
  note i = room_invD [OF assms(1)]
  let ?a = "clear_reconnect c s"
  let ?b = "bind_seat c (Some k) ref ?a"
  let ?s = "set_client c (\<lambda>x. x\<lparr>cstatus := Joined, csynced := False\<rparr>) ?b"
  note a = clear_reconnect_facts [OF i(5) i(1), of c]
  note at = clear_reconnect_timer [OF i(5), of c]
  have la: "ref_legal ?a (Some k) ref" using assms(3) ref_legal_conns [of ?a s] by simp
  show "base_ok ?s" using bind_base [OF a(3) la, of c] by simp
  have cin: "cin (rm_heap s c)" "cconnection (rm_heap s c) = None" using i(2) [of c] assms(2) by (auto simp: client_defs)
  have "client_ok ?s c"
  proof -
    have "conn_seats (rm_conns s j) r \<noteq> Some c" for j r using client_handle [OF i(2) [of c], of j r] cin by simp
    then have "conn_seats (rm_conns ?s j) r = Some c \<longleftrightarrow> k = j \<and> handle j ref ?a = r" for j r by (auto simp: bind_conns)
    moreover have "seat_at s sid = Some c \<longleftrightarrow> sid = sessionId (rm_heap s c)" for sid
      using client_seat [OF i(2) [of c], of sid] cin assms(2) by simp
    moreover have "rm_tokens s token = Some c \<longleftrightarrow> ctoken (rm_heap s c) = Some token" for token using i(2) [of c] by (simp add: client_defs)
    ultimately show ?thesis using cin by (simp add: client_defs bind_heap at) blast
  qed
  moreover have "others_same c ?b ?s" by (simp add: others_same_def)
  then have "others_same c s ?s" using others_same_trans [OF a(2) bind_others [OF a(3) la, of c]] others_same_trans by blast
  ultimately show "client_ok ?s d" for d using all_ok [OF _ _ i(2)] by simp
  show "rm_paused ?s \<longrightarrow> rm_ready ?s" "disposal_ok ?s" using i(3,4) by (simp_all add: pause_ok_def disposal_ok_def)
qed

lemma server_reconnect_inv:
  assumes "room_inv s" "ref_legal s (Some k) ref"
  shows "room_inv (fst (snd (server_reconnect token refused k ref s)))"
  using assms reconnect_seat_inv [OF assms(1) _ assms(2)]
  by (auto simp: server_reconnect_def heldSeat_def split: option.splits)

lemma completeJoin_inv:
  assumes "room_inv s" "cin (rm_heap s c)" "rm_tokens s fresh = None"
  shows "room_inv (fst (completeJoin k requestId c reconnected connOpen encoded fresh s))"
proof -
  obtain token s' where t: "issueToken c fresh s = (token, s')" by fastforce
  have "room_inv s'" "cin (rm_heap s' c)" using issueToken_inv [OF assms(1,3), of c] assms(2) by (simp_all add: t)
  then show ?thesis
    using assms activate_inv connectionLost_inv by (simp add: completeJoin_def t)
qed

lemma reconnect_expired_inv:
  assumes "room_inv s" "timer (rm_clock s) t = Some (TReconnect c)"
  shows "room_inv (fst (reconnect_expired t s))"
proof -
  note i = room_invD [OF assms(1)]
  let ?s = "s\<lparr>rm_clock := clearTimeout t (rm_clock s), rm_timers := (rm_timers s)(c := None)\<rparr>"
  have rt: "rm_timers s c = Some t" using i(2) [of c] assms(2) by (simp add: client_defs)
  then have s: "?s = clear_reconnect c s" by (simp add: clear_reconnect_def)
  note f = clear_reconnect_facts [OF i(5) i(1), of c]
  have "cstatus (rm_heap s c) = Reconnecting" using client_timer [OF i(2) [of c]] rt by auto
  moreover have "client_ok ?s d" if "d \<noteq> c" for d using others_same_ok [OF f(2) that] i(2) unfolding s by simp
  moreover have "pause_ok ?s" "disposal_ok ?s" using i(3,4) by (simp_all add: pause_ok_def disposal_ok_def)
  ultimately have "room_inv (fst (release_seat c False None None ?s))"
    using f unfolding s by (intro release_seat_inv) simp_all
  then show ?thesis by (simp add: reconnect_expired_def assms(2))
qed

section \<open>Reservations\<close>

lemma client_ok_clock:
  assumes "\<And>t. timer clock t = Some (TReconnect c) \<longleftrightarrow> timer (rm_clock s) t = Some (TReconnect c)"
  shows "client_ok (s\<lparr>rm_clock := clock\<rparr>) c = client_ok s c"
  by (simp add: client_defs assms)

text \<open>Reservations and entries are not part of what belongs to a client.\<close>

lemma client_ok_unchanged [simp]:
  "client_ok (s\<lparr>rm_reservations := rs\<rparr>) c = client_ok s c" "client_ok (s\<lparr>mm_entries := es\<rparr>) c = client_ok s c"
  "client_ok (s\<lparr>rm_disposals := ds\<rparr>) c = client_ok s c" "client_ok (s\<lparr>rm_disposing := di\<rparr>) c = client_ok s c"
  "client_ok (s\<lparr>rm_disposed := dd\<rparr>) c = client_ok s c" "client_ok (s\<lparr>rm_loops := l\<rparr>) c = client_ok s c"
  "client_ok (s\<lparr>rm_presence := p\<rparr>) c = client_ok s c"
  by (simp_all add: client_defs)

lemma held_at_update: "held_at (s\<lparr>rm_reservations := AList.update i h (rm_reservations s)\<rparr>) = (held_at s)(i \<mapsto> h)"
  by (auto simp: held_at_def update_conv')

lemma held_at_delete: "held_at (s\<lparr>rm_reservations := AList.delete i (rm_reservations s)\<rparr>) = (held_at s)(i := None)"
  by (auto simp: held_at_def delete_conv')

lemma hold_timer: "base_ok s \<Longrightarrow> held_at s i = Some h \<Longrightarrow> timer (rm_clock s) (htimer h) = Some (THold i)"
  by (simp add: base_defs)

lemma entry_timer: "base_ok s \<Longrightarrow> mm_entries s i = Some e \<Longrightarrow> timer (rm_clock s) (entry_cleanup e) = Some (TCleanup i)"
  by (simp add: base_defs)

lemma base_timers:
  "base_ok s \<Longrightarrow> timer (rm_clock s) t = Some (THold i) \<longleftrightarrow> map_option htimer (held_at s i) = Some t"
  "base_ok s \<Longrightarrow> timer (rm_clock s) t = Some (TCleanup i) \<longleftrightarrow> map_option entry_cleanup (mm_entries s i) = Some t"
  by (simp_all add: base_defs)

lemma holds_ok_keep:
  "base_ok s \<Longrightarrow> (\<And>t i. timer (rm_clock s') t = Some (THold i) \<longleftrightarrow> timer (rm_clock s) t = Some (THold i)) \<Longrightarrow> held_at s' = held_at s \<Longrightarrow> holds_ok s'"
  by (simp add: base_defs)

lemma entries_ok_keep:
  "base_ok s \<Longrightarrow> (\<And>t i. timer (rm_clock s') t = Some (TCleanup i) \<longleftrightarrow> timer (rm_clock s) t = Some (TCleanup i)) \<Longrightarrow> mm_entries s' = mm_entries s \<Longrightarrow> entries_ok s'"
  by (simp add: base_defs)

lemma hold_inv:
  assumes "room_inv s" "held_at s i = None" "\<not> rm_disposing s"
  shows "room_inv (hold i options ms s)"
proof -
  note iv = room_invD [OF assms(1)]
  obtain t clock where t: "setTimeout (THold i) ms (rm_clock s) = (t, clock)" by fastforce
  have cl: "clock_ok (rm_clock s)" using iv(1) by (rule base_okD)
  have new: "timer (rm_clock s) t = None" "timer clock = (timer (rm_clock s))(t \<mapsto> THold i)" "clock_ok clock"
    using timer_fresh [OF cl, of "THold i" ms] timer_setTimeout [of "THold i" ms "rm_clock s"]
      clock_ok_setTimeout [OF cl, of "THold i" ms] by (simp_all add: t)
  let ?h = "\<lparr>hoptions = options, htimer = t\<rparr>"
  let ?s = "s\<lparr>rm_clock := clock, rm_reservations := AList.update i ?h (rm_reservations s)\<rparr>"
  have h: "held_at ?s = (held_at s)(i \<mapsto> ?h)" using held_at_update [of i ?h "s\<lparr>rm_clock := clock\<rparr>"] by simp
  have "client_ok ?s c" for c using iv(2) [of c] new(1,2) by (simp add: client_ok_clock)
  moreover have "base_ok ?s"
  proof -
    have "htimer z \<noteq> t" if "held_at s j = Some z" for j z using hold_timer [OF iv(1) that] new(1) by auto
    then have "holds_ok ?s" unfolding holds_ok_def h using assms(2) new(1) base_timers(1) [OF iv(1)] by (auto simp: new(2))
    moreover have "entries_ok ?s" by (rule entries_ok_keep [OF iv(1)]) (use new(1) in \<open>auto simp: new(2)\<close>)
    ultimately show ?thesis using iv(1) new(3) by (simp add: base_ok_def handles_ok_def shape_ok_def distinct_update)
  qed
  ultimately show ?thesis
    using iv(3,4) assms(3) by (simp add: hold_def t room_inv_def pause_ok_def disposal_ok_def)
qed

lemma takeReservation_inv:
  assumes "room_inv s"
  shows "room_inv (snd (takeReservation i s))"
proof (cases "held_at s i")
  case (Some h)
  note iv = room_invD [OF assms]
  let ?s = "s\<lparr>rm_clock := clearTimeout (htimer h) (rm_clock s), rm_reservations := AList.delete i (rm_reservations s)\<rparr>"
  have h: "held_at ?s = (held_at s)(i := None)" using held_at_delete [of i "s\<lparr>rm_clock := clearTimeout (htimer h) (rm_clock s)\<rparr>"] by simp
  have t: "timer (rm_clock s) (htimer h) = Some (THold i)" using iv(1) Some by (simp add: base_defs)
  have "client_ok ?s c" for c using iv(2) [of c] t by (simp add: client_ok_clock timer_clearTimeout)
  moreover have "base_ok ?s"
  proof -
    have "htimer z \<noteq> htimer h" if "held_at s j = Some z" "j \<noteq> i" for j z using hold_timer [OF iv(1) that(1)] t that(2) by auto
    then have "holds_ok ?s" unfolding holds_ok_def h using Some base_timers(1) [OF iv(1)] by (auto simp: timer_clearTimeout)
    moreover have "entries_ok ?s" by (rule entries_ok_keep [OF iv(1)]) (use t in \<open>auto simp: timer_clearTimeout\<close>)
    ultimately show ?thesis using iv(1) by (simp add: base_ok_def handles_ok_def shape_ok_def distinct_delete clock_ok_clearTimeout)
  qed
  ultimately show ?thesis
    using iv(3,4) Some by (auto simp: takeReservation_def room_inv_def pause_ok_def disposal_ok_def)
qed (use assms in \<open>simp add: takeReservation_def\<close>)

lemma hold_expired_take:
  assumes "room_inv s" "timer (rm_clock s) t = Some (THold i)"
  shows "hold_expired t s = checkEmpty (snd (takeReservation i s))"
proof -
  obtain h where "held_at s i = Some h" "htimer h = t" using room_invD(1) [OF assms(1)] assms(2) by (auto simp: base_defs)
  then show ?thesis by (simp add: hold_expired_def takeReservation_def assms(2))
qed

text \<open>The matchmaker's entries and their timers.\<close>

lemma entry_new_inv:
  assumes "room_inv s" "mm_entries s i = None" "setTimeout (TCleanup i) ms (rm_clock s) = (t, clock)" "entry_cleanup e = t"
  shows "room_inv (s\<lparr>rm_clock := clock, mm_entries := (mm_entries s)(i \<mapsto> e)\<rparr>)"
proof -
  note iv = room_invD [OF assms(1)]
  have cl: "clock_ok (rm_clock s)" using iv(1) by (rule base_okD)
  have new: "timer (rm_clock s) t = None" "timer clock = (timer (rm_clock s))(t \<mapsto> TCleanup i)" "clock_ok clock"
    using timer_fresh [OF cl, of "TCleanup i" ms] timer_setTimeout [of "TCleanup i" ms "rm_clock s"]
      clock_ok_setTimeout [OF cl, of "TCleanup i" ms] by (simp_all add: assms(3))
  let ?s = "s\<lparr>rm_clock := clock, mm_entries := (mm_entries s)(i \<mapsto> e)\<rparr>"
  have "client_ok ?s c" for c using iv(2) [of c] new(1,2) by (simp add: client_ok_clock)
  moreover have "holds_ok ?s" by (rule holds_ok_keep [OF iv(1)]) (use new(1) in \<open>auto simp: new(2)\<close>)
  moreover have "entry_cleanup z \<noteq> t" if "mm_entries s j = Some z" for j z using entry_timer [OF iv(1) that] new(1) by auto
  then have "entries_ok ?s" unfolding entries_ok_def using assms(2,4) new(1) base_timers(2) [OF iv(1)] by (auto simp: new(2))
  ultimately show ?thesis
    using iv(1,3,4) new(3) by (simp add: room_inv_def pause_ok_def disposal_ok_def base_ok_def handles_ok_def shape_ok_def)
qed

lemma entry_drop_inv:
  assumes "room_inv s" "mm_entries s i = Some e"
  shows "room_inv (s\<lparr>rm_clock := clearTimeout (entry_cleanup e) (rm_clock s), mm_entries := (mm_entries s)(i := None)\<rparr>)"
proof -
  note iv = room_invD [OF assms(1)]
  let ?s = "s\<lparr>rm_clock := clearTimeout (entry_cleanup e) (rm_clock s), mm_entries := (mm_entries s)(i := None)\<rparr>"
  have t: "timer (rm_clock s) (entry_cleanup e) = Some (TCleanup i)" using iv(1) assms(2) by (simp add: base_defs)
  have "client_ok ?s c" for c using iv(2) [of c] t by (simp add: client_ok_clock timer_clearTimeout)
  moreover have "holds_ok ?s" by (rule holds_ok_keep [OF iv(1)]) (use t in \<open>auto simp: timer_clearTimeout\<close>)
  moreover have "entry_cleanup z \<noteq> entry_cleanup e" if "mm_entries s j = Some z" "j \<noteq> i" for j z
    using entry_timer [OF iv(1) that(1)] t that(2) by auto
  then have "entries_ok ?s" unfolding entries_ok_def using assms(2) base_timers(2) [OF iv(1)] by (auto simp: timer_clearTimeout)
  ultimately show ?thesis
    using iv(1,3,4) by (simp add: room_inv_def pause_ok_def disposal_ok_def base_ok_def handles_ok_def shape_ok_def clock_ok_clearTimeout)
qed

lemma cleanup_expired_inv:
  assumes "room_inv s" "timer (rm_clock s) t = Some (TCleanup i)"
  shows "room_inv (cleanup_expired t s)"
proof -
  obtain e where "mm_entries s i = Some e" "entry_cleanup e = t" using room_invD(1) [OF assms(1)] assms(2) by (auto simp: base_defs)
  then show ?thesis using entry_drop_inv [OF assms(1), of i e] by (simp add: cleanup_expired_def assms(2))
qed

lemma reserveIn_inv:
  assumes "room_inv s" "held_at s i = None" "mm_entries s i = None"
  shows "room_inv (snd (reserveIn i sid options byId seconds now s))"
proof -
  obtain t clock where t: "setTimeout (TCleanup i) (seconds * 2000) (rm_clock s) = (t, clock)" by fastforce
  have "room_inv (hold i options ms (s\<lparr>rm_clock := clock, mm_entries := (mm_entries s)(i \<mapsto> e)\<rparr>))"
    if "\<not> rm_disposing s" "entry_cleanup e = t" for e ms
    by (rule hold_inv [OF entry_new_inv [OF assms(1,3) t that(2)]]) (use assms(2) that in simp_all)
  then show ?thesis
    using assms(1) by (auto simp: reserveIn_def t Let_def acceptsNewSeat_def undisposed_def hasFreeSeat_def split: sum.splits if_splits)
qed

lemma entry_flag_inv:
  assumes "room_inv s" "mm_entries s i = Some e"
  shows "room_inv (s\<lparr>mm_entries := (mm_entries s)(i \<mapsto> e\<lparr>entry_expired := b\<rparr>)\<rparr>)"
proof -
  note iv = room_invD [OF assms(1)]
  let ?s = "s\<lparr>mm_entries := (mm_entries s)(i \<mapsto> e\<lparr>entry_expired := b\<rparr>)\<rparr>"
  have "entries_ok ?s" using iv(1) assms(2) unfolding entries_ok_def base_ok_def by auto
  then show ?thesis
    using iv by (simp add: room_inv_def pause_ok_def disposal_ok_def base_ok_def handles_ok_def shape_ok_def holds_ok_def)
qed

lemma consume_inv:
  assumes "room_inv s"
  shows "room_inv (snd (consume i now s))"
proof (cases "mm_entries s i")
  case (Some e)
  then show ?thesis
    using entry_flag_inv [OF assms Some] takeReservation_inv [OF entry_drop_inv [OF assms Some], of i]
    by (simp add: consume_def Let_def case_prod_beta)
qed (use assms in \<open>simp add: consume_def\<close>)

lemma consume_conns: "rm_conns (snd (consume i now s)) = rm_conns s"
  by (simp add: consume_def takeReservation_def Let_def case_prod_beta split: option.splits)

lemma joinReservation_inv:
  assumes "room_inv s" "ref_legal s k ref"
  shows "room_inv (snd (joinReservation i now refused c k ref s))"
proof -
  obtain r s' where r: "consume i now s = (r, s')" by fastforce
  have "room_inv s'" using consume_inv [OF assms(1), of i now] by (simp add: r)
  moreover have "ref_legal s' k ref" using ref_legal_conns [of s' s] consume_conns [of i now s] assms(2) by (simp add: r)
  ultimately show ?thesis using take_seat_inv by (simp add: joinReservation_def r split: sum.splits option.splits)
qed

section \<open>The end of a release, and disposal\<close>

lemma updatePause_room_inv: "room_inv s \<Longrightarrow> room_inv (fst (updatePause s))"
  by (rule updatePause_inv) (simp_all add: room_inv_def pause_ok_def)

lemma release_done_inv:
  assumes "room_inv s"
  shows "room_inv (fst (release_done i s))"
proof -
  have "room_inv (fst (deliverAll type header body except (s\<lparr>rm_leaving := l\<rparr>)))" for type header body except l
    using same_room_inv [OF deliverAll_same [of "s\<lparr>rm_leaving := l\<rparr>"]] assms by simp
  then show ?thesis using assms by (simp add: release_done_def case_prod_beta checkEmpty_inv updatePause_room_inv)
qed

lemma clear_holds_timer: "timer (clear_holds rs c) t = (if t \<in> (htimer \<circ> snd) ` set rs then None else timer c t)"
  by (induction rs arbitrary: c) (auto simp: timer_clearTimeout)

lemma clear_holds_ok: "clock_ok c \<Longrightarrow> clock_ok (clear_holds rs c)"
  by (induction rs arbitrary: c) (auto simp: clock_ok_clearTimeout)

lemma held_timers:
  assumes "base_ok s"
  shows "t \<in> (htimer \<circ> snd) ` set (rm_reservations s) \<longleftrightarrow> (\<exists>i. timer (rm_clock s) t = Some (THold i))"
proof -
  have d: "distinct (map fst (rm_reservations s))" using assms by (simp add: base_defs)
  have "t \<in> (htimer \<circ> snd) ` set (rm_reservations s) \<longleftrightarrow> (\<exists>i h. held_at s i = Some h \<and> htimer h = t)"
    using d by (force simp: held_at_def dest: map_of_SomeD)
  then show ?thesis using base_timers(1) [OF assms] by auto
qed

lemma dispose_clear_inv:
  assumes "base_ok s" "\<And>c. client_ok s c" "pause_ok s" "rm_clients s = []"
  shows "room_inv ((fst (dispose_clear s))\<lparr>rm_disposing := True\<rparr>)"
proof -
  let ?clock = "clear_holds (rm_reservations s) (rm_clock s)"
  have t: "timer ?clock t = (case timer (rm_clock s) t of Some (THold i) \<Rightarrow> None | x \<Rightarrow> x)" for t
    using held_timers [OF assms(1), of t] by (auto simp: clear_holds_timer split: option.splits RoomTimer.splits)
  let ?s = "s\<lparr>rm_clock := ?clock, rm_reservations := [], rm_disposals := rm_disposals s @ [Finishing], rm_disposing := True\<rparr>"
  have "client_ok ?s c" for c
    using assms(2) [of c] by (simp add: client_ok_clock t split: option.splits RoomTimer.splits)
  moreover have "holds_ok ?s" by (auto simp: holds_ok_def held_at_def t split: option.splits RoomTimer.splits)
  moreover have "entries_ok ?s" by (rule entries_ok_keep [OF assms(1)]) (auto simp: t split: option.splits RoomTimer.splits)
  moreover have "handles_ok ?s" "shape_ok ?s" using assms(1) by (simp_all add: base_defs clear_holds_ok)
  moreover have "disposal_ok ?s" using assms(4) by (simp add: disposal_ok_def seat_at_def)
  moreover have "pause_ok ?s" using assms(3) by (simp add: pause_ok_def)
  ultimately have "room_inv ?s" by (simp add: room_inv_def base_ok_def)
  then show ?thesis by (simp add: dispose_clear_def)
qed

lemma seat_in: "seat_at s sid = Some c \<Longrightarrow> c \<in> set (map snd (rm_clients s))"
  by (force simp: seat_at_def dest: map_of_SomeD)

lemma seat_of:
  assumes "room_inv s" "c \<in> set (map snd (rm_clients s))"
  shows "cin (rm_heap s c)" "cstatus (rm_heap s c) \<noteq> Left" "seat_at s (sessionId (rm_heap s c)) = Some c"
proof -
  obtain sid where "(sid, c) \<in> set (rm_clients s)" using assms(2) by auto
  then have "seat_at s sid = Some c" using room_invD(1) [OF assms(1)] by (simp add: seat_at_def base_defs)
  with client_seat [OF room_invD(2) [OF assms(1)], of sid c]
  show "cin (rm_heap s c)" "cstatus (rm_heap s c) \<noteq> Left" "seat_at s (sessionId (rm_heap s c)) = Some c" by auto
qed

text \<open>A release leaves the client without a seat.\<close>

lemma release_gone:
  assumes "room_inv s"
  shows "seat_at (fst (release_seat c consented code reason s)) sid = Some d \<Longrightarrow> d \<noteq> c \<and> seat_at s sid = Some d"
proof (cases "cin (rm_heap s c) \<and> cstatus (rm_heap s c) \<noteq> Left")
  case True
  moreover assume "seat_at (fst (release_seat c consented code reason s)) sid = Some d"
  ultimately show ?thesis
    using client_seat [OF room_invD(2) [OF assms], of sid c] by (auto simp: release_seats split: if_splits)
next
  case False
  moreover assume "seat_at (fst (release_seat c consented code reason s)) sid = Some d"
  ultimately show ?thesis
    using client_seat [OF room_invD(2) [OF assms], of sid c] by (auto simp: release_seat_def Let_def)
qed

lemma dispose_room_inv:
  assumes "room_inv s"
  shows "room_inv (fst (dispose_room s))"
proof (cases "rm_disposing s")
  case False
  let ?l = "s\<lparr>rm_loops := False\<rparr>"
  have l: "room_inv ?l" using assms by simp
  note i = room_invD [OF l]
  show ?thesis
  proof (cases "map snd (rm_clients s)")
    case Nil
    then have "room_inv ((fst (dispose_clear ?l))\<lparr>rm_disposing := True\<rparr>)" using i by (intro dispose_clear_inv) simp_all
    then show ?thesis using False Nil by (simp add: dispose_room_def Let_def)
  next
    case (Cons c cs)
    let ?r = "fst (release_seat c False (Some (leave_code ?l)) None ?l)"
    let ?s = "?r\<lparr>rm_disposals := rm_disposals ?r @ [Releasing (leave_code ?l) cs], rm_disposing := True\<rparr>"
    have r: "room_inv ?r" by (rule release_room_inv [OF l])
    have "d \<in> set cs" if "seat_at ?r sid = Some d" for sid d
      using release_gone [OF l that] seat_in [of s sid d] Cons by auto
    then have "disposal_ok ?s" using room_invD(4) [OF r] unfolding disposal_ok_def by auto
    then have "room_inv ?s" using r by (simp add: room_inv_def base_defs pause_ok_def)
    then show ?thesis using False Cons by (simp add: dispose_room_def Let_def)
  qed
qed (use assms in \<open>simp add: dispose_room_def\<close>)

text \<open>
  A disposal that is under way: \<open>release_seat\<close> does not look at the running disposals once
  \<open>_disposing\<close> is assigned, since \<open>checkEmpty\<close> does nothing then.
\<close>

lemma send_frame_disposals:
  "send_frame c frame (s\<lparr>rm_disposals := ds\<rparr>) = (case send_frame c frame s of (s', out) \<Rightarrow> (s'\<lparr>rm_disposals := ds\<rparr>, out))"
  by (simp add: send_frame_def set_client_def Let_def split: option.splits)

lemma clear_reconnect_disposals: "clear_reconnect c (s\<lparr>rm_disposals := ds\<rparr>) = (clear_reconnect c s)\<lparr>rm_disposals := ds\<rparr>"
  by (simp add: clear_reconnect_def split: option.splits)

lemma revokeToken_disposals: "revokeToken c (s\<lparr>rm_disposals := ds\<rparr>) = (revokeToken c s)\<lparr>rm_disposals := ds\<rparr>"
  by (simp add: revokeToken_def set_client_def split: option.splits)

lemma unbind_disposals: "unbind_seat c (s\<lparr>rm_disposals := ds\<rparr>) = (unbind_seat c s)\<lparr>rm_disposals := ds\<rparr>"
  by (simp add: unbind_seat_def set_client_def Let_def split: option.splits)

lemma send_frame_disposing:
  "rm_disposing (fst (send_frame c frame s)) = rm_disposing s" "rm_disposals (fst (send_frame c frame s)) = rm_disposals s"
  using same_room_parts(9,10) [OF send_same [of s c frame]] by simp_all

lemma set_client_disposals: "set_client c f (s\<lparr>rm_disposals := ds\<rparr>) = (set_client c f s)\<lparr>rm_disposals := ds\<rparr>"
  by (simp add: set_client_def)

lemma checkEmpty_disposing: "rm_disposing s \<Longrightarrow> checkEmpty s = (s, [])"
  by (simp add: checkEmpty_def)

lemma dispose_clear_disposing: "rm_disposing (fst (dispose_clear s)) = rm_disposing s"
  by (simp add: dispose_clear_def)

lemma disposing_same: "rm_disposing s \<Longrightarrow> s\<lparr>rm_disposing := True\<rparr> = s"
  by (cases s) simp

lemma release_disposals:
  assumes "rm_disposing s"
  shows "fst (release_seat c consented code reason (s\<lparr>rm_disposals := ds\<rparr>)) = (fst (release_seat c consented code reason s))\<lparr>rm_disposals := ds\<rparr>"
    "rm_disposals (fst (release_seat c consented code reason s)) = rm_disposals s"
    "rm_disposing (fst (release_seat c consented code reason s))"
  using assms
  by (cases code; cases "\<not> cin (rm_heap s c) \<or> cstatus (rm_heap s c) = Left"; cases "cstatus (rm_heap s c) = Joining";
      cases "cconnection (rm_heap s c)"; simp add: release_seat_def Let_def set_client_disposals checkEmpty_disposing
        send_frame_disposals clear_reconnect_disposals revokeToken_disposals unbind_disposals send_frame_disposing case_prod_beta)+

lemma remove_nth_set: "x \<in> set (remove_nth i xs) \<Longrightarrow> x \<in> set xs"
  by (auto simp: remove_nth_def dest: in_set_takeD in_set_dropD)

lemma releasing_all: "disposal_ok s \<Longrightarrow> Releasing code cs \<in> set (rm_disposals s) \<Longrightarrow> seat_at s sid = Some c \<Longrightarrow> c \<in> set cs"
  unfolding disposal_ok_def by blast

lemma dispose_next_inv:
  assumes "room_inv s"
  shows "room_inv (fst (dispose_next i s))"
proof (cases "i < length (rm_disposals s)")
  case True
  note iv = room_invD [OF assms]
  have mem: "rm_disposals s ! i \<in> set (rm_disposals s)" using True by simp
  then have d: "rm_disposing s" using iv(4) by (auto simp: disposal_ok_def)
  show ?thesis
  proof (cases "rm_disposals s ! i")
    case Finishing
    then have "rm_clients s = []" "rm_reservations s = []" using iv(4) mem by (auto simp: disposal_ok_def)
    then have "disposal_ok (s\<lparr>rm_disposals := remove_nth i (rm_disposals s), rm_presence := Map.empty, rm_disposed := True\<rparr>)"
      using d by (simp add: disposal_ok_def seat_at_def)
    then show ?thesis using True Finishing iv by (simp add: dispose_next_def room_inv_def base_defs pause_ok_def)
  next
    case (Releasing code cs)
    show ?thesis
    proof (cases cs)
      case Nil
      then have "seat_at s sid = None" for sid
        using releasing_all [OF iv(4) mem [unfolded Releasing], of sid] by (cases "seat_at s sid") auto
      then have "rm_clients s = []" by (cases "rm_clients s") (auto simp: seat_at_def split: if_splits, metis option.distinct(1))
      then have "room_inv ((fst (dispose_clear (s\<lparr>rm_disposals := remove_nth i (rm_disposals s)\<rparr>)))\<lparr>rm_disposing := True\<rparr>)"
        using iv by (intro dispose_clear_inv) (simp_all add: base_defs pause_ok_def)
      then show ?thesis
        using True Releasing Nil d disposing_same [of "fst (dispose_clear (s\<lparr>rm_disposals := remove_nth i (rm_disposals s)\<rparr>))"]
        by (simp add: dispose_next_def dispose_clear_disposing)
    next
      case (Cons c cs')
      let ?ds = "(rm_disposals s)[i := Releasing code cs']"
      let ?r = "fst (release_seat c False (Some code) None s)"
      note rd = release_disposals [OF d, of c False "Some code" None]
      have r: "room_inv ?r" by (rule release_room_inv [OF assms])
      have "a \<in> set cs'" if "seat_at ?r sid = Some a" for sid a
        using release_gone [OF assms that] releasing_all [OF iv(4) mem [unfolded Releasing], of sid a] Cons by simp
      moreover have "x \<in> set ?ds \<Longrightarrow> x = Releasing code cs' \<or> x \<in> set (rm_disposals s)" for x
        by (meson insert_iff set_update_subset_insert subsetD)
      moreover have "Releasing code cs' \<in> set ?ds" using True by (simp add: set_update_memI)
      moreover have "Releasing n bs \<in> set (rm_disposals s) \<Longrightarrow> seat_at ?r sid = Some a \<Longrightarrow> a \<in> set bs" for n bs sid a
        using releasing_all [OF room_invD(4) [OF r], of n bs] rd(2) by simp
      moreover have "Finishing \<in> set (rm_disposals s) \<or> rm_disposed ?r \<Longrightarrow> rm_clients ?r = [] \<and> rm_reservations ?r = []"
        using room_invD(4) [OF r] rd(2) by (auto simp: disposal_ok_def)
      ultimately have "disposal_ok (?r\<lparr>rm_disposals := ?ds\<rparr>)" using rd(3) unfolding disposal_ok_def by simp blast
      then have "room_inv (?r\<lparr>rm_disposals := ?ds\<rparr>)" using r by (simp add: room_inv_def base_defs pause_ok_def)
      then show ?thesis using True Releasing Cons by (simp add: dispose_next_def rd(1))
    qed
  qed
qed (use assms in \<open>simp add: dispose_next_def\<close>)

section \<open>A room is a machine\<close>

lemma ready_inv: "room_inv s \<Longrightarrow> room_inv (s\<lparr>rm_ready := True\<rparr>)"
  by (simp add: room_inv_def base_defs client_defs pause_ok_def disposal_ok_def)

lemma new_handle_inv:
  assumes "room_inv s"
  shows "room_inv (s\<lparr>rm_conns := (rm_conns s)(k := (rm_conns s k)\<lparr>nextRoomRef := Suc (nextRoomRef (rm_conns s k))\<rparr>)\<rparr>)" (is "room_inv ?s")
proof -
  note iv = room_invD [OF assms]
  have c: "conn_seats (rm_conns ?s j) = conn_seats (rm_conns s j)" "cremote (rm_conns ?s j) = cremote (rm_conns s j)" for j by simp_all
  have "handles_ok ?s" using iv(1) unfolding handles_ok_def base_ok_def by (auto intro: less_SucI)
  moreover have "client_ok ?s d" for d using iv(2) [of d] unfolding client_defs c by simp
  ultimately show ?thesis using iv by (simp add: room_inv_def base_ok_def holds_ok_def entries_ok_def shape_ok_def pause_ok_def disposal_ok_def)
qed

lemma room_step_inv: "room_inv s \<Longrightarrow> room_legal s e \<Longrightarrow> room_inv (room_step e s)"
  by (cases e)
    (auto simp: room_step_def take_seat_inv unseat_inv completeJoin_inv activate_inv server_reconnect_inv connectionLost_inv
      release_room_inv release_done_inv dispose_room_inv dispose_next_inv reserveIn_inv consume_inv joinReservation_inv
      reconnect_expired_inv hold_expired_take checkEmpty_inv takeReservation_inv cleanup_expired_inv
      same_room_inv [OF deliverAll_same] ready_inv new_handle_inv split: option.splits RoomTimer.splits)

lemma new_room_inv: "room_inv (new_room seats dispose reconnection seconds hidden locked ids remote ident)"
  by (simp add: room_inv_def new_room_def base_defs client_defs pause_ok_def disposal_ok_def seat_at_def held_at_def timer_def clock_ok_def)

interpretation room: machine room_legal room_step room_inv
  by unfold_locales (rule room_step_inv)

end
