(* ===== verification/RoomProperties.thy ===== *)
theory RoomProperties
  imports RoomOperations "HOL-Library.Multiset"
begin

text \<open>
  What holds of a room in every state it gets to: how many seats are taken, that a held seat can be
  resumed, that nothing of a room outlives it, and what a broadcast sends.
\<close>

section \<open>Counting seats\<close>

text \<open>No more seats are taken or held than before, and the limit is the same.\<close>

definition seats_le :: "RoomState \<Rightarrow> RoomState \<Rightarrow> bool" where
  "seats_le s s' = (getSeatCount s' \<le> getSeatCount s \<and> maxClients s' = maxClients s)"

lemma seats_le_refl [simp]: "seats_le s s"
  by (simp add: seats_le_def)

lemma seats_le_trans: "seats_le s s1 \<Longrightarrow> seats_le s1 s2 \<Longrightarrow> seats_le s s2"
  by (simp add: seats_le_def)

lemma seats_le_clients: "rm_clients s' = rm_clients s \<Longrightarrow> rm_reservations s' = rm_reservations s \<Longrightarrow> maxClients s' = maxClients s \<Longrightarrow> seats_le s s'"
  by (simp add: seats_le_def getSeatCount_def)

lemma seats_le_same: "same_room s s' \<Longrightarrow> seats_le s s'"
  by (simp add: seats_le_clients same_room_parts)

lemma seats_le_checkEmpty: "seats_le s (fst (checkEmpty s))"
  by (rule seats_le_clients) (simp_all add: checkEmpty_fields)

lemma seats_le_updatePause: "seats_le s (fst (updatePause s))"
  by (rule updatePause_form [of s]) (simp add: seats_le_clients)

lemma seats_le_release: "seats_le s (fst (release_seat c consented code reason s))"
proof (cases "cin (rm_heap s c) \<and> cstatus (rm_heap s c) \<noteq> Left")
  case True
  then obtain s1 where s1: "same_room s s1" and f: "fst (release_seat c consented code reason s) =
       (let s2 = (vacate c (revokeToken c (clear_reconnect c s1)))\<lparr>rm_presence := (rm_presence s1)(sessionId (rm_heap s c) := None)\<rparr>
        in if cstatus (rm_heap s c) = Joining then fst (checkEmpty s2) else s2\<lparr>rm_leaving := rm_leaving s2 @ [(c, consented)]\<rparr>)"
    using release_form by blast
  show ?thesis
    unfolding f by (simp add: Let_def seats_le_def getSeatCount_def checkEmpty_fields same_room_parts [OF s1] length_delete_le)
qed (auto simp: release_seat_def Let_def)

lemma seats_le_unseat: "seats_le s (fst (unseat c s))"
  by (simp add: unseat_def Let_def seats_le_def getSeatCount_def checkEmpty_fields length_delete_le)

lemma seats_le_connectionLost: "seats_le s (fst (connectionLost c s))"
proof -
  have u: "seats_le s (unbind_seat c s)" by (rule seats_le_clients) simp_all
  have "seats_le (unbind_seat c s) s' \<Longrightarrow> seats_le s (fst (updatePause s'))" for s'
    using seats_le_trans [OF u] seats_le_trans seats_le_updatePause by blast
  moreover have "seats_le s (fst (release_seat c False None None (unbind_seat c s)))" using seats_le_trans [OF u seats_le_release] .
  ultimately show ?thesis using u by (simp add: connectionLost_def Let_def case_prod_beta seats_le_clients)
qed

lemma seats_le_activate: "seats_le s (fst (activate c s))"
proof (cases "cstatus (rm_heap s c) = Joining")
  case True
  let ?a = "set_client c (\<lambda>x. x\<lparr>cstatus := Joined\<rparr>) s"
  let ?s = "fst (updatePause ?a)"
  let ?t = "set_client c (\<lambda>x. x\<lparr>cqueue := None\<rparr>) ?s"
  have "seats_le s ?a" "seats_le ?s ?t" by (simp_all add: seats_le_clients)
  then have t: "seats_le s ?t" using seats_le_trans seats_le_updatePause by blast
  have "same_room ?t (fst (activate c s))"
    using True same_room_trans [OF send_all_same deliverAll_same] deliverAll_same
    by (simp add: activate_def Let_def split: option.splits)
  then show ?thesis using seats_le_trans [OF t] seats_le_same by blast
qed (simp add: activate_def)

lemma seats_le_issueToken: "seats_le s (snd (issueToken c fresh s))"
  by (rule seats_le_clients) (simp_all add: issueToken_def Let_def)

lemma seats_le_completeJoin: "seats_le s (fst (completeJoin k requestId c reconnected connOpen encoded fresh s))"
proof -
  obtain token s' where t: "issueToken c fresh s = (token, s')" by fastforce
  have "seats_le s s'" using seats_le_issueToken [of s c fresh] by (simp add: t)
  then have "seats_le s (fst (activate c s'))" "seats_le s s'" using seats_le_trans seats_le_activate by blast+
  moreover have "seats_le s (fst (connectionLost c (fst (activate c s))))" using seats_le_trans seats_le_activate seats_le_connectionLost by blast
  ultimately show ?thesis using seats_le_connectionLost by (simp add: completeJoin_def t)
qed

lemma seats_le_reconnect: "seats_le s (fst (snd (server_reconnect token refused k ref s)))"
proof -
  have "seats_le s (set_client c f (bind_seat c (Some k) ref (clear_reconnect c s)))" for c f by (rule seats_le_clients) simp_all
  then have "seats_le s (fst (reconnect_seat c k ref s))" for c
    using seats_le_trans seats_le_updatePause unfolding reconnect_seat_def by blast
  then show ?thesis by (simp add: server_reconnect_def split: option.splits)
qed

lemma seats_le_takeReservation: "seats_le s (snd (takeReservation i s))"
  by (simp add: takeReservation_def seats_le_def getSeatCount_def length_delete_le split: option.splits)

lemma seats_le_consume: "seats_le s (snd (consume i now s))"
proof -
  have "seats_le s (snd (takeReservation i (s\<lparr>rm_clock := cl, mm_entries := es\<rparr>)))" for cl es
    by (rule seats_le_trans [OF seats_le_clients seats_le_takeReservation]) simp_all
  then show ?thesis by (simp add: consume_def Let_def case_prod_beta seats_le_clients split: option.splits)
qed

lemma seats_le_dispose_clear: "seats_le s (fst (dispose_clear s))"
  by (simp add: dispose_clear_def seats_le_def getSeatCount_def)

lemma seats_le_dispose: "seats_le s (fst (dispose_room s))"
proof -
  have l: "seats_le s (s\<lparr>rm_loops := False\<rparr>)" by (simp add: seats_le_clients)
  have u: "seats_le s s' \<Longrightarrow> seats_le s (s'\<lparr>rm_disposals := ds, rm_disposing := True\<rparr>)"
    "seats_le s s' \<Longrightarrow> seats_le s (s'\<lparr>rm_disposing := True\<rparr>)" for s' ds by (simp_all add: seats_le_def getSeatCount_def)
  show ?thesis
    using u seats_le_trans [OF l seats_le_dispose_clear] seats_le_trans [OF l seats_le_release]
    by (simp add: dispose_room_def Let_def split: list.splits)
qed

lemma seats_le_dispose_next: "seats_le s (fst (dispose_next i s))"
proof -
  have "seats_le s (s\<lparr>rm_disposals := ds\<rparr>)" for ds by (simp add: seats_le_clients)
  then have "seats_le s (fst (release_seat c a b d (s\<lparr>rm_disposals := ds\<rparr>)))" "seats_le s (fst (dispose_clear (s\<lparr>rm_disposals := ds\<rparr>)))"
    for c a b d ds using seats_le_trans seats_le_release seats_le_dispose_clear by blast+
  then show ?thesis by (simp add: dispose_next_def seats_le_clients split: Disposal.splits list.splits)
qed

lemma seats_le_release_done: "seats_le s (fst (release_done i s))"
proof -
  have "seats_le s (s\<lparr>rm_leaving := l\<rparr>)" for l by (simp add: seats_le_clients)
  then have "seats_le s (fst (checkEmpty (fst (updatePause (fst (deliverAll ty h b ex (s\<lparr>rm_leaving := l\<rparr>)))))))" for ty h b ex l
    using seats_le_trans seats_le_same [OF deliverAll_same] seats_le_updatePause seats_le_checkEmpty by meson
  then show ?thesis by (simp add: release_done_def case_prod_beta)
qed

lemma seats_le_timer: "seats_le s (room_step (ETimer t) s)"
proof -
  have "seats_le s (fst (release_seat c a b d (s\<lparr>rm_clock := cl, rm_timers := ts\<rparr>)))" for c a b d cl ts
    by (rule seats_le_trans [OF seats_le_clients seats_le_release]) simp_all
  moreover have "seats_le s (fst (checkEmpty (s\<lparr>rm_clock := cl, rm_reservations := AList.delete i (rm_reservations s)\<rparr>)))" for cl i
    by (rule seats_le_trans [OF _ seats_le_checkEmpty]) (simp add: seats_le_def getSeatCount_def length_delete_le)
  ultimately show ?thesis
    by (simp add: room_step_def reconnect_expired_def hold_expired_def cleanup_expired_def seats_le_clients
        split: option.splits RoomTimer.splits)
qed

text \<open>The steps that take a seat or hold one.\<close>

lemma length_update_new: "map_of al k = None \<Longrightarrow> length (AList.update k v al) = Suc (length al)"
  by (induction al) auto

lemma delete_update_new: "map_of al k = None \<Longrightarrow> AList.delete k (AList.update k v al) = al"
  by (induction al) (auto split: if_splits)

lemma length_delete_key: "distinct (map fst al) \<Longrightarrow> map_of al k = Some v \<Longrightarrow> Suc (length (AList.delete k al)) = length al"
  by (induction al) (auto simp: delete_idem)

lemma take_seat_count:
  assumes "fst (take_seat c k reserved ref s) = Inr ()"
  shows "getSeatCount (snd (take_seat c k reserved ref s)) = Suc (getSeatCount s)"
    "maxClients (snd (take_seat c k reserved ref s)) = maxClients s"
  using take_seat_state(2,3) [OF assms] by (simp_all add: Let_def getSeatCount_def length_update_new seat_at_def)

lemma hold_count:
  "held_at s i = None \<Longrightarrow> getSeatCount (hold i options ms s) = Suc (getSeatCount s)"
  "maxClients (hold i options ms s) = maxClients s"
  by (simp_all add: hold_def getSeatCount_def length_update_new held_at_def case_prod_beta)

lemma accepts_room:
  assumes "maxClients s = num_of_int m"
  shows "acceptsNewSeat s = Inr () \<longleftrightarrow> \<not> rm_disposing s \<and> \<not> rm_locked s \<and> int (getSeatCount s) < m"
    "hasFreeSeat s \<longleftrightarrow> \<not> rm_disposing s \<and> \<not> rm_locked s \<and> int (getSeatCount s) < m"
proof -
  have "(of_int m :: rat) \<le> of_nat n \<longleftrightarrow> m \<le> int n" for n by (metis of_int_le_iff of_int_of_nat_eq)
  then show "acceptsNewSeat s = Inr () \<longleftrightarrow> \<not> rm_disposing s \<and> \<not> rm_locked s \<and> int (getSeatCount s) < m"
    "hasFreeSeat s \<longleftrightarrow> \<not> rm_disposing s \<and> \<not> rm_locked s \<and> int (getSeatCount s) < m"
    using assms by (simp_all add: acceptsNewSeat_def hasFreeSeat_def undisposed_def num_lt_def not_le)
qed

lemma consume_count:
  assumes "room_inv s" "held_at s i \<noteq> None" "consume i now s = (Inr options, s')"
  shows "Suc (getSeatCount s') = getSeatCount s" "maxClients s' = maxClients s" "options = map_option hoptions (held_at s i)"
proof -
  obtain h where h: "held_at s i = Some h" using assms(2) by auto
  have "Suc (length (AList.delete i (rm_reservations s))) = length (rm_reservations s)"
    using room_invD(1) [OF assms(1)] h by (auto simp: base_defs held_at_def intro: length_delete_key)
  then show "Suc (getSeatCount s') = getSeatCount s" "maxClients s' = maxClients s" "options = map_option hoptions (held_at s i)"
    using assms(3) h by (auto simp: consume_def takeReservation_def getSeatCount_def Let_def case_prod_beta split: option.splits if_splits)
qed

text \<open>
  Steps under which the number of seats stays within the limit: the limit is not lowered, and a
  reservation that a join uses is still held by the room.
\<close>

fun seat_legal :: "RoomState \<Rightarrow> RoomEvent \<Rightarrow> bool" where
  "seat_legal s (EConfig n dispose reconnection seconds) = (n = maxClients s)"
| "seat_legal s (EJoinReservation i now refused c k ref) = (room_legal s (EJoinReservation i now refused c k ref) \<and> held_at s i \<noteq> None)"
| "seat_legal s e = room_legal s e"

lemma seat_legal_room: "seat_legal s e \<Longrightarrow> room_legal s e"
  by (cases e) simp_all

definition cap_inv :: "int \<Rightarrow> RoomState \<Rightarrow> bool" where
  "cap_inv m s = (room_inv s \<and> maxClients s = num_of_int m \<and> int (getSeatCount s) \<le> m)"

lemma cap_le: "cap_inv m s \<Longrightarrow> seats_le s s' \<Longrightarrow> maxClients s' = num_of_int m \<and> int (getSeatCount s') \<le> m"
  by (simp add: cap_inv_def seats_le_def)

lemma cap_seat:
  assumes "cap_inv m s"
  shows "maxClients (snd (take_seat c k False ref s)) = num_of_int m \<and> int (getSeatCount (snd (take_seat c k False ref s))) \<le> m"
proof (cases "fst (take_seat c k False ref s)")
  case (Inl e)
  then show ?thesis using take_seat_refused [of c k False ref s] assms by (simp add: cap_inv_def)
next
  case (Inr u)
  then have i: "fst (take_seat c k False ref s) = Inr ()" by simp
  then show ?thesis
    using take_seat_state(4) [OF i] take_seat_count [OF i] assms accepts_room(1) [of s m] by (simp add: cap_inv_def)
qed

lemma cap_reserve:
  assumes "cap_inv m s" "held_at s i = None"
  shows "maxClients (snd (reserveIn i sid options byId seconds now s)) = num_of_int m
    \<and> int (getSeatCount (snd (reserveIn i sid options byId seconds now s))) \<le> m"
proof -
  have max: "maxClients s = num_of_int m" and le: "int (getSeatCount s) \<le> m" using assms(1) by (simp_all add: cap_inv_def)
  have "int (getSeatCount (hold i options ms (s\<lparr>rm_clock := cl, mm_entries := es\<rparr>))) \<le> m" if "int (getSeatCount s) < m" for ms cl es
  proof -
    have "getSeatCount (s\<lparr>rm_clock := cl, mm_entries := es\<rparr>) = getSeatCount s" by (simp add: getSeatCount_def)
    then show ?thesis using hold_count(1) [of "s\<lparr>rm_clock := cl, mm_entries := es\<rparr>" i options ms] assms(2) that by simp
  qed
  then show ?thesis
    using max le accepts_room [OF max]
    by (simp add: reserveIn_def Let_def case_prod_beta hold_count(2) split: sum.splits)
qed

lemma cap_join:
  assumes "cap_inv m s" "held_at s i \<noteq> None" "r = joinReservation i now refused c k ref s"
  shows "maxClients (snd r) = num_of_int m \<and> int (getSeatCount (snd r)) \<le> m"
proof -
  have iv: "room_inv s" "maxClients s = num_of_int m" "int (getSeatCount s) \<le> m" using assms(1) by (simp_all add: cap_inv_def)
  obtain x s' where c: "consume i now s = (x, s')" by fastforce
  have le: "maxClients s' = num_of_int m \<and> int (getSeatCount s') \<le> m"
    using cap_le [OF assms(1) seats_le_consume [of s i now]] by (simp add: c)
  show ?thesis
  proof (cases x)
    case (Inr options)
    note t = consume_count [OF iv(1) assms(2) c [unfolded Inr]]
    have "maxClients (snd (take_seat c k True ref s')) = num_of_int m \<and> int (getSeatCount (snd (take_seat c k True ref s'))) \<le> m"
      using t iv(2,3) le take_seat_count [of c k True ref s'] take_seat_refused [of c k True ref s']
      by (cases "fst (take_seat c k True ref s')") auto
    then show ?thesis using le by (simp add: assms(3) joinReservation_def c Inr split: option.splits)
  qed (use le in \<open>simp add: assms(3) joinReservation_def c\<close>)
qed

lemma cap_step:
  assumes "cap_inv m s" "seat_legal s e"
  shows "cap_inv m (room_step e s)"
proof -
  have "room_inv (room_step e s)" using room_step_inv seat_legal_room assms unfolding cap_inv_def by blast
  moreover have "maxClients (room_step e s) = num_of_int m \<and> int (getSeatCount (room_step e s)) \<le> m"
  proof (cases e)
    case (ETimer t)
    then show ?thesis using cap_le [OF assms(1) seats_le_timer] by simp
  next
    case (EJoinReservation i now refused c k ref)
    then show ?thesis using cap_join [OF assms(1) _ refl] assms(2) by (simp add: room_step_def)
  next
    case EDispose
    then show ?thesis using cap_le [OF assms(1) seats_le_dispose] by (simp add: room_step_def)
  qed (use assms cap_seat cap_reserve cap_le [OF assms(1)] seats_le_unseat seats_le_completeJoin seats_le_activate seats_le_reconnect
      seats_le_connectionLost seats_le_release seats_le_release_done seats_le_dispose_next seats_le_consume seats_le_same [OF deliverAll_same]
      in \<open>auto simp: room_step_def cap_inv_def getSeatCount_def\<close>)
  ultimately show ?thesis unfolding cap_inv_def by blast
qed

interpretation capacity: machine seat_legal room_step "cap_inv m" for m
  by unfold_locales (rule cap_step)

text \<open>A room of two seats, for the examples.\<close>

definition sample_ident :: RoomIdentity where
  "sample_ident = \<lparr>ident_id = [120], ident_type = [114], ident_hash = JNull, ident_codec = [115], ident_clientNames = [], ident_serverNames = []\<rparr>"

definition two_seats :: RoomState where
  "two_seats = new_room (num_of_int 2) True True 10 False False (\<lambda>c. ([of_nat c], ByJoin)) (\<lambda>_. False) sample_ident"

section \<open>Broadcasts\<close>

text \<open>What one seat is sent, and what the reference broadcast does: one seat after the other, in the order of the seats.\<close>

definition frame_for :: "RoomState \<Rightarrow> nat \<Rightarrow> nat list \<Rightarrow> jsval option \<Rightarrow> nat \<Rightarrow> RoomFrame" where
  "frame_for s type header body c = RoomFrame type (croomRef (rm_heap s c) # header) body"

definition sent_to :: "RoomState \<Rightarrow> nat \<Rightarrow> nat list \<Rightarrow> jsval option \<Rightarrow> nat \<Rightarrow> room_out list" where
  "sent_to s type header body c =
     (if cstatus (rm_heap s c) = Joined
      then (case cconnection (rm_heap s c) of None \<Rightarrow> [] | Some k \<Rightarrow> [SendFrame k (frame_for s type header body c)]) else [])"

definition queued :: "RoomState \<Rightarrow> nat \<Rightarrow> nat list \<Rightarrow> jsval option \<Rightarrow> nat \<Rightarrow> Client" where
  "queued s type header body c =
     (let x = rm_heap s c
      in if cstatus x = Joining then x\<lparr>cqueue := map_option (\<lambda>q. q @ [frame_for s type header body c]) (cqueue x)\<rparr> else x)"

text \<open>Grouping by handle permutes the recipients.\<close>

lemma mset_groups:
  assumes "distinct rs" "\<And>x. x \<in> set xs \<Longrightarrow> f x \<in> set rs"
  shows "mset (concat (map (\<lambda>r. filter (\<lambda>x. f x = r) xs) rs)) = mset xs"
  using assms
proof (induction rs arbitrary: xs)
  case (Cons r rs)
  let ?ys = "filter (\<lambda>x. f x \<noteq> r) xs"
  have g: "filter (\<lambda>x. f x = q) ?ys = filter (\<lambda>x. f x = q) xs" if "q \<in> set rs" for q
    using that Cons.prems(1) by (auto intro: filter_cong)
  have "mset (concat (map (\<lambda>q. filter (\<lambda>x. f x = q) ?ys) rs)) = mset ?ys"
    using Cons.prems by (intro Cons.IH) auto
  moreover have "map (\<lambda>q. filter (\<lambda>x. f x = q) ?ys) rs = map (\<lambda>q. filter (\<lambda>x. f x = q) xs) rs" using g by simp
  ultimately have "mset (concat (map (\<lambda>r. filter (\<lambda>x. f x = r) xs) (r # rs))) = mset (filter (\<lambda>x. f x = r) xs) + mset ?ys"
    by (simp only: list.map concat.simps mset_append)
  also have "\<dots> = mset xs" by (simp only: mset_filter) (rule multiset_partition [symmetric])
  finally show ?case .
next
  case Nil
  then show ?case by (cases xs) auto
qed

lemma mset_by_ref: "mset (by_ref s cs) = mset cs"
  unfolding by_ref_def by (rule mset_groups) auto

lemma mset_concat_cong: "mset xs = mset ys \<Longrightarrow> mset (concat (map f xs)) = mset (concat (map f ys))"
proof -
  have "mset (concat (map f zs)) = (\<Sum>x \<in># mset zs. mset (f x))" for zs by (induction zs) simp_all
  then show "mset xs = mset ys \<Longrightarrow> mset (concat (map f xs)) = mset (concat (map f ys))" by simp
qed

text \<open>Queueing a frame for one client does not change what the others are sent.\<close>

lemma others_sent:
  assumes "c \<noteq> d"
  shows "sent_to (set_client d f s) type header body c = sent_to s type header body c"
    "queued (set_client d f s) type header body c = queued s type header body c"
  using assms by (simp_all add: sent_to_def queued_def frame_for_def Let_def split: option.splits)

lemma deliver_to_out: "distinct cs \<Longrightarrow> snd (deliver_to cs type header body s) = concat (map (sent_to s type header body) cs)"
proof (induction cs arbitrary: s)
  case (Cons d cs)
  have "concat (map (sent_to (set_client d f s) type header body) cs) = concat (map (sent_to s type header body) cs)" for f
    using Cons.prems by (intro arg_cong [of _ _ concat] map_cong refl others_sent) auto
  then show ?case using Cons
    by (simp add: Let_def sent_to_def [of s type header body d] frame_for_def [of s type header body d] split: option.splits)
qed simp

lemma deliver_to_heap:
  "distinct cs \<Longrightarrow> rm_heap (fst (deliver_to cs type header body s)) c = (if c \<in> set cs then queued s type header body c else rm_heap s c)"
proof (induction cs arbitrary: s)
  case (Cons d cs)
  then show ?case
    by (cases "c = d") (simp_all add: Let_def queued_def [of s type header body d] frame_for_def [of s type header body d] others_sent
        split: option.splits)
qed simp

lemma seats_distinct:
  assumes "room_inv s"
  shows "distinct (map snd (rm_clients s))"
proof -
  have d: "distinct (map fst (rm_clients s))" using room_invD(1) [OF assms] by (simp add: base_defs)
  have "fst p = sessionId (rm_heap s (snd p))" if "p \<in> set (rm_clients s)" for p
  proof -
    have "seat_at s (fst p) = Some (snd p)" using d that by (simp add: seat_at_def)
    then show ?thesis using client_seat [OF room_invD(2) [OF assms]] by blast
  qed
  then have "map fst (rm_clients s) = map (\<lambda>c. sessionId (rm_heap s c)) (map snd (rm_clients s))" by simp
  with d show ?thesis using distinct_map by metis
qed

text \<open>C23: a broadcast of a room sends exactly what sending to each seat in turn would: every joined seat with a connection,
  but for the excepted one, gets the frame once with its own handle, every joining one has it queued once, and
  no other client is touched. Grouping recipients by handle only changes the order.\<close>

theorem broadcast_reaches_each_seat_once:
  assumes "reach room_legal room_step (new_room seats dispose reconnection seconds hidden locked ids remote ident) s"
  shows "mset (snd (deliverAll type header body except s))
      = mset (concat (map (sent_to s type header body) (filter (\<lambda>c. Some c \<noteq> except) (map snd (rm_clients s)))))
    \<and> (\<forall>c. rm_heap (fst (deliverAll type header body except s)) c
        = (if seat_at s (sessionId (rm_heap s c)) = Some c \<and> Some c \<noteq> except \<and> cconnection (rm_heap s c) \<noteq> None
           then queued s type header body c else rm_heap s c))"
proof -
  have i: "room_inv s" by (rule room.inv_reach [OF assms new_room_inv])
  let ?cs = "filter (\<lambda>c. Some c \<noteq> except \<and> cconnection (rm_heap s c) \<noteq> None) (map snd (rm_clients s))"
  have m: "mset (by_ref s ?cs) = mset ?cs" by (rule mset_by_ref)
  have d: "distinct (by_ref s ?cs)"
    using mset_eq_imp_distinct_iff [OF m] seats_distinct [OF i] by (simp only: distinct_filter)
  have none: "concat (map (sent_to s type header body) (filter (\<lambda>c. cconnection (rm_heap s c) \<noteq> None) cs)) = concat (map (sent_to s type header body) cs)" for cs
    by (induction cs) (auto simp: sent_to_def)
  have "mset (concat (map (sent_to s type header body) (by_ref s ?cs))) = mset (concat (map (sent_to s type header body) ?cs))"
    by (rule mset_concat_cong [OF m])
  moreover have "concat (map (sent_to s type header body) ?cs)
      = concat (map (sent_to s type header body) (filter (\<lambda>c. Some c \<noteq> except) (map snd (rm_clients s))))"
    using none [of "filter (\<lambda>c. Some c \<noteq> except) (map snd (rm_clients s))"] by (simp add: conj_commute)
  moreover have "c \<in> set (map snd (rm_clients s)) \<longleftrightarrow> seat_at s (sessionId (rm_heap s c)) = Some c" for c
    using seat_of(3) [OF i] seat_in by blast
  then have "c \<in> set (by_ref s ?cs) \<longleftrightarrow> seat_at s (sessionId (rm_heap s c)) = Some c \<and> Some c \<noteq> except \<and> cconnection (rm_heap s c) \<noteq> None" for c
    using mset_eq_setD [OF m] by auto
  ultimately show ?thesis
    using deliver_to_out [OF d, of type header body s] deliver_to_heap [OF d, of type header body s] unfolding deliverAll_def by presburger
qed

theorem broadcast_reaches_each_seat_once_witness:
  "mset (snd (deliverAll 3 [7] None None
      (room_step (EComplete 5 1 0 False True True [1]) (room_step (ESeat 1 (Some 6) None) (room_step (ESeat 0 (Some 5) None) two_seats)))))
    = {# SendFrame 5 (RoomFrame 3 [1, 7] None) #}"
proof -
  let ?s = "room_step (EComplete 5 1 0 False True True [1]) (room_step (ESeat 1 (Some 6) None) (room_step (ESeat 0 (Some 5) None) two_seats))"
  have r: "reach room_legal room_step two_seats ?s" by (intro reach.event reach.start) code_simp+
  have "concat (map (sent_to ?s 3 [7] None) (filter (\<lambda>c. Some c \<noteq> None) (map snd (rm_clients ?s)))) = [SendFrame 5 (RoomFrame 3 [1, 7] None)]" by code_simp
  then show ?thesis using broadcast_reaches_each_seat_once [OF r [unfolded two_seats_def], folded two_seats_def, of 3 "[7]" None None] by simp
qed

section \<open>Seats\<close>

text \<open>C19: a lost connection does not lose the seat: while its room allows it, the client's token is good for the same
  seat, on any connection that brings it; the resumed client is the one that was lost, with the new connection and
  a handle that leads to it, its timer is gone, and no other client has changed.\<close>

theorem lost_seat_resumes:
  assumes "reach room_legal room_step (new_room seats dispose reconnection seconds hidden locked ids remote ident) s"
    "cstatus (rm_heap s c) = Joined" "ctoken (rm_heap s c) = Some token" "allowReconnection s" "0 < reconnectionTimeout s"
    "\<not> rm_shutdown s" "\<not> rm_disposing s" "s1 = fst (connectionLost c s)" "server_reconnect token None k ref s1 = (r, s2, out)"
  shows "heldSeat token s1 = Some c \<and> r = Inr c \<and> seat_at s2 = seat_at s
    \<and> rm_heap s2 c = (rm_heap s c)\<lparr>cconnection := Some k, croomRef := handle k ref s1, csynced := False\<rparr>
    \<and> conn_seats (rm_conns s2 k) (croomRef (rm_heap s2 c)) = Some c
    \<and> rm_timers s2 c = None \<and> (\<forall>t. timer (rm_clock s2) t \<noteq> Some (TReconnect c)) \<and> (\<forall>d. d \<noteq> c \<longrightarrow> rm_heap s2 d = rm_heap s d)"
proof -
  have i: "room_inv s" by (rule room.inv_reach [OF assms(1) new_room_inv])
  have i1: "room_inv s1" unfolding assms(8) by (rule connectionLost_inv [OF i])
  obtain t clock where t: "setTimeout (TReconnect c) (reconnectionTimeout s * 1000) (rm_clock s) = (t, clock)" by fastforce
  let ?h = "(set_client c (\<lambda>x. x\<lparr>cstatus := Reconnecting, csynced := False\<rparr>) (unbind_seat c s))\<lparr>rm_clock := clock, rm_timers := (rm_timers s)(c \<mapsto> t)\<rparr>"
  have "s1 = fst (updatePause ?h)" using assms(2-8) t by (simp add: connectionLost_def Let_def)
  then obtain p l where s1: "s1 = ?h\<lparr>rm_paused := p, rm_loops := l\<rparr>" using updatePause_form [of ?h] by metis
  have h1: "rm_heap s1 = (rm_heap s)(c := (rm_heap s c)\<lparr>cconnection := None, cstatus := Reconnecting, csynced := False\<rparr>)"
    "seat_at s1 = seat_at s" "rm_tokens s1 = rm_tokens s" by (simp_all add: s1 unbind_heap)
  have "rm_tokens s token = Some c" using room_invD(2) [OF i, of c] assms(3) by (simp add: client_defs)
  then have held: "heldSeat token s1 = Some c" by (simp add: heldSeat_def h1)
  let ?a = "clear_reconnect c s1"
  let ?b = "set_client c (\<lambda>x. x\<lparr>cstatus := Joined, csynced := False\<rparr>) (bind_seat c (Some k) ref ?a)"
  have sr: "server_reconnect token None k ref s1 = (Inr c, updatePause ?b)" by (simp add: server_reconnect_def held reconnect_seat_def)
  have r: "r = Inr c" and u: "s2 = fst (updatePause ?b)" using assms(9) by (simp_all only: sr prod.inject) (metis fst_conv)
  obtain p l where s2: "s2 = ?b\<lparr>rm_paused := p, rm_loops := l\<rparr>" using updatePause_form [of ?b] u by metis
  have "handle k ref ?a = handle k ref s1" by (simp add: handle_def split: option.splits)
  with held r show ?thesis
    using clear_reconnect_timer [OF room_invD(5) [OF i1], of c]
    by (simp add: s2 h1 bind_heap bind_conns assms(2))
qed

theorem lost_seat_resumes_witness:
  "fst (server_reconnect [1] None 7 None
      (fst (connectionLost 0 (room_step (EComplete 5 1 0 False True True [1]) (room_step (ESeat 0 (Some 5) None) two_seats))))) = Inr 0"
proof -
  let ?s = "room_step (EComplete 5 1 0 False True True [1]) (room_step (ESeat 0 (Some 5) None) two_seats)"
  have r: "reach room_legal room_step two_seats ?s" by (intro reach.event reach.start) code_simp+
  have "cstatus (rm_heap ?s 0) = Joined" "ctoken (rm_heap ?s 0) = Some [1]" "allowReconnection ?s" "0 < reconnectionTimeout ?s"
    "\<not> rm_shutdown ?s" "\<not> rm_disposing ?s" by code_simp+
  from lost_seat_resumes [OF r [unfolded two_seats_def], folded two_seats_def, OF this refl, of 7 None] show ?thesis by (metis prod.collapse)
qed

text \<open>C21: a held seat ends: while a client is being waited for, its seat is kept and a timer for it is live; when that
  fires, the seat is free, the token is void, no timer is left for the client, and \<open>onLeave\<close> runs once, unconsented.\<close>

theorem held_seat_ends:
  assumes "reach room_legal room_step (new_room seats dispose reconnection seconds hidden locked ids remote ident) s"
    "cstatus (rm_heap s c) = Reconnecting"
  shows "seat_at s (sessionId (rm_heap s c)) = Some c
    \<and> (\<exists>t. timer (rm_clock s) t = Some (TReconnect c)
        \<and> seat_at (fst (reconnect_expired t s)) (sessionId (rm_heap s c)) = None
        \<and> cstatus (rm_heap (fst (reconnect_expired t s)) c) = Left
        \<and> (\<forall>token. rm_tokens (fst (reconnect_expired t s)) token \<noteq> Some c)
        \<and> (\<forall>u. timer (rm_clock (fst (reconnect_expired t s))) u \<noteq> Some (TReconnect c))
        \<and> snd (reconnect_expired t s) = [OnLeave c False])"
proof -
  have i: "room_inv s" by (rule room.inv_reach [OF assms(1) new_room_inv])
  note c = room_invD(2) [OF i, of c]
  have in1: "cin (rm_heap s c)" "cconnection (rm_heap s c) = None" using c assms(2) by (auto simp: client_defs)
  obtain t where rt: "rm_timers s c = Some t" using client_timer [OF c] assms(2) by auto
  then have t: "timer (rm_clock s) t = Some (TReconnect c)" using c by (simp add: client_defs)
  let ?s = "s\<lparr>rm_clock := clearTimeout t (rm_clock s), rm_timers := (rm_timers s)(c := None)\<rparr>"
  let ?r = "reconnect_expired t s"
  have r: "?r = release_seat c False None None ?s" by (simp add: reconnect_expired_def t)
  have left: "cstatus (rm_heap (fst ?r) c) = Left" "ctoken (rm_heap (fst ?r) c) = None" and out: "snd ?r = [OnLeave c False]"
    unfolding r using assms(2) in1 by (simp_all add: release_seat_def Let_def unbind_heap revokeToken_heap)
  have i': "client_ok (fst ?r) c" using room_invD(2) [OF reconnect_expired_inv [OF i t]] .
  have "seat_at (fst ?r) (sessionId (rm_heap s c)) = None" unfolding r using in1 assms(2) by (simp add: release_seats)
  moreover have "rm_tokens (fst ?r) token \<noteq> Some c" "timer (rm_clock (fst ?r)) u \<noteq> Some (TReconnect c)" for token u
    using i' left client_timer [OF i'] by (simp_all add: client_defs)
  ultimately show ?thesis using t left(1) out client_seat [OF c] in1(1) assms(2) by auto
qed

theorem held_seat_ends_witness:
  "\<exists>t. snd (reconnect_expired t (room_step (ELost 0) (room_step (EComplete 5 1 0 False True True [1]) (room_step (ESeat 0 (Some 5) None) two_seats))))
    = [OnLeave 0 False]"
proof -
  let ?s = "room_step (ELost 0) (room_step (EComplete 5 1 0 False True True [1]) (room_step (ESeat 0 (Some 5) None) two_seats))"
  have r: "reach room_legal room_step two_seats ?s" by (intro reach.event reach.start) code_simp+
  have "cstatus (rm_heap ?s 0) = Reconnecting" by code_simp
  from held_seat_ends [OF r [unfolded two_seats_def], folded two_seats_def, OF this] show ?thesis by blast
qed



text \<open>C18: the seats taken and held in a room never exceed its \<open>maxClients\<close>, whatever the order of joins, reservations,
  losses, returns and releases, as long as a join that uses a reservation finds it still held; a new seat is given
  exactly when the room is open and one is left.\<close>

theorem seats_within_limit:
  assumes "reach seat_legal room_step (new_room (num_of_int m) dispose reconnection seconds hidden locked ids remote ident) s" "0 \<le> m"
  shows "int (getSeatCount s) \<le> m
    \<and> (acceptsNewSeat s = Inr () \<longleftrightarrow> \<not> rm_disposing s \<and> \<not> rm_locked s \<and> int (getSeatCount s) < m)"
proof -
  have "cap_inv m (new_room (num_of_int m) dispose reconnection seconds hidden locked ids remote ident)"
    using assms(2) by (simp add: cap_inv_def new_room_inv) (simp add: new_room_def getSeatCount_def)
  then have "cap_inv m s" by (rule capacity.inv_reach [OF assms(1)])
  then show ?thesis using accepts_room(1) [of s m] by (simp add: cap_inv_def)
qed

theorem seats_within_limit_witness:
  "int (getSeatCount (room_step (ESeat 2 None None) (room_step (ESeat 1 (Some 5) None) (room_step (ESeat 0 (Some 5) None) two_seats)))) \<le> 2"
proof -
  let ?s = "room_step (ESeat 2 None None) (room_step (ESeat 1 (Some 5) None) (room_step (ESeat 0 (Some 5) None) two_seats))"
  have "reach seat_legal room_step two_seats ?s" by (intro reach.event reach.start) code_simp+
  from seats_within_limit [OF this [unfolded two_seats_def], folded two_seats_def] show ?thesis by simp
qed

text \<open>C24: a reservation is good for one join: until it expires it gives its holder the seat it was made for, with the options
  it was made with, even when the room has been locked meanwhile; the number of seats stays what it was, and a
  second join with the same reservation is told that it is unknown.\<close>

theorem reservation_good_for_one_join:
  assumes "held_at s i = None" "reserveIn i sid options byId lasts now s = (Inr (), s1)" "now' \<le> now + lasts * 1000"
    "seat_at s (sessionId (rm_heap s c)) = None" "joinReservation i now' None c k ref (s1\<lparr>rm_locked := locked\<rparr>) = (r, s2)"
  shows "fst (consume i now' (s1\<lparr>rm_locked := locked\<rparr>)) = Inr (Some options) \<and> r = Inr ()
    \<and> seat_at s2 (sessionId (rm_heap s c)) = Some c \<and> getSeatCount s2 = getSeatCount s1 \<and> held_at s2 i = None
    \<and> consume i now'' s2 = (Inl (RoomError RESERVATION_NOT_FOUND ''unknown reservation''), s2)"
proof -
  obtain t clock where t: "setTimeout (TCleanup i) (lasts * 2000) (rm_clock s) = (t, clock)" by fastforce
  obtain u clock' where u: "setTimeout (THold i) (lasts * 1000) clock = (u, clock')" by fastforce
  let ?e = "\<lparr>entry_session = sid, entry_expires = now + lasts * 1000, entry_expired = False, entry_cleanup = t\<rparr>"
  let ?rs = "AList.update i \<lparr>hoptions = options, htimer = u\<rparr> (rm_reservations s)"
  have s1: "s1 = s\<lparr>rm_clock := clock', mm_entries := (mm_entries s)(i \<mapsto> ?e), rm_reservations := ?rs\<rparr>" and d: "\<not> rm_disposing s"
    using assms(2) by (auto simp: reserveIn_def hold_def t u acceptsNewSeat_def undisposed_def hasFreeSeat_def split: sum.splits if_splits)
  have n: "map_of (rm_reservations s) i = None" using assms(1) by (simp add: held_at_def)
  have del: "AList.delete i ?rs = rm_reservations s" by (rule delete_update_new [OF n])
  let ?l = "s1\<lparr>rm_locked := locked\<rparr>"
  let ?s' = "?l\<lparr>rm_clock := clearTimeout u (clearTimeout t clock'), mm_entries := (mm_entries s)(i := None), rm_reservations := rm_reservations s\<rparr>"
  have h: "held_at ?l i = Some \<lparr>hoptions = options, htimer = u\<rparr>" by (simp add: s1 held_at_def update_conv')
  have c: "consume i now' ?l = (Inr (Some options), ?s')"
    using assms(3) d h by (simp add: consume_def takeReservation_def s1 del held_at_def)
  have ts: "take_seat c k True ref ?s' = (r, s2)" using assms(5) by (simp add: joinReservation_def c)
  have r: "r = Inr ()" using ts assms(4) d
    by (auto simp: take_seat_def undisposed_def s1 seat_at_def Let_def split: if_splits)
  have st: "s2 = (let s3 = bind_seat c k ref (set_client c (\<lambda>x. x\<lparr>cin := True, cstatus := Joining, cqueue := Some [], csynced := False\<rparr>) ?s')
        in s3\<lparr>rm_clients := AList.update (sessionId (rm_heap s c)) c (rm_clients ?s')\<rparr>)"
    using take_seat_state(3) [of c k True ref ?s'] ts r by (simp add: s1)
  have "seat_at s2 (sessionId (rm_heap s c)) = Some c" by (simp add: st Let_def seat_at_def update_conv')
  moreover have "getSeatCount s2 = getSeatCount s1"
    using assms(4) n by (simp add: st Let_def getSeatCount_def s1 length_update_new seat_at_def)
  moreover have "mm_entries s2 i = None" "held_at s2 i = None" using assms(1) by (simp_all add: st Let_def held_at_def)
  ultimately show ?thesis using c r by (simp add: consume_def)
qed

theorem reservation_good_for_one_join_witness:
  "fst (joinReservation [9] 500 None 0 (Some 5) None
      ((room_step (EReserve [9] [65] JNull True 1 0) (new_room (num_of_int 1) True True 10 False False (\<lambda>c. ([65], ByReservation)) (\<lambda>_. False) sample_ident))\<lparr>rm_locked := True\<rparr>))
    = Inr ()"
proof -
  let ?s = "new_room (num_of_int 1) True True 10 False False (\<lambda>c. ([65], ByReservation)) (\<lambda>_. False) sample_ident"
  have "held_at ?s [9] = None" "seat_at ?s (sessionId (rm_heap ?s 0)) = None" "fst (reserveIn [9] [65] JNull True 1 0 ?s) = Inr ()" by code_simp+
  then show ?thesis
    using reservation_good_for_one_join [of ?s "[9]" "[65]" JNull True 1 0 "room_step (EReserve [9] [65] JNull True 1 0) ?s" 500 0 "Some 5" None True]
    by (simp add: room_step_def) (metis (no_types, lifting) prod.collapse)
qed

text \<open>C22: at every moment the maps that lead to a client agree: a session is seated under its own id, a handle of a connection
  leads to exactly the seated client that has that connection and handle, so no two seats share one, a token is good
  exactly for the held client that has it, and a paused room that is not being disposed has no joined client with a connection.\<close>

theorem seats_and_handles_agree:
  assumes "reach room_legal room_step (new_room seats dispose reconnection seconds hidden locked ids remote ident) s"
  shows "(seat_at s sid = Some c \<longrightarrow> sessionId (rm_heap s c) = sid \<and> cstatus (rm_heap s c) \<noteq> Left)
    \<and> (conn_seats (rm_conns s k) r = Some c \<longleftrightarrow>
        seat_at s (sessionId (rm_heap s c)) = Some c \<and> cconnection (rm_heap s c) = Some k \<and> croomRef (rm_heap s c) = r)
    \<and> (heldSeat token s = Some c \<longleftrightarrow> ctoken (rm_heap s c) = Some token \<and> cstatus (rm_heap s c) = Reconnecting)
    \<and> (rm_paused s \<and> \<not> rm_disposing s \<longrightarrow> cstatus (rm_heap s c) = Joined \<longrightarrow> cconnection (rm_heap s c) = None)"
proof -
  have i: "room_inv s" by (rule room.inv_reach [OF assms new_room_inv])
  note c = room_invD(2) [OF i, of c]
  have "rm_tokens s token = Some c \<longleftrightarrow> ctoken (rm_heap s c) = Some token" using c by (simp add: client_defs)
  then have "heldSeat token s = Some c \<longleftrightarrow> ctoken (rm_heap s c) = Some token \<and> cstatus (rm_heap s c) = Reconnecting"
    by (auto simp: heldSeat_def split: option.splits if_splits)
  then show ?thesis
    using client_seat [OF c] client_handle [OF c, of k r] room_invD(3) [OF i] by (auto simp: pause_ok_def)
qed

theorem seats_and_handles_agree_witness:
  "cconnection (rm_heap (room_step (ESeat 0 (Some 5) None) two_seats) 0) = Some 5"
proof -
  let ?s = "room_step (ESeat 0 (Some 5) None) two_seats"
  have r: "reach room_legal room_step two_seats ?s" by (intro reach.event reach.start) code_simp+
  have "conn_seats (rm_conns ?s 5) 1 = Some 0" by code_simp
  then show ?thesis using seats_and_handles_agree [OF r [unfolded two_seats_def], folded two_seats_def, of "[]" 0 5 1 "[]"] by blast
qed

section \<open>Where the code departs from what it means\<close>

text \<open>
  Disposing a room that is ready and disposes itself when empty, while its only client is still
  joining: releasing that client disposes the room a second time, because \<open>_disposing\<close> is assigned
  after the first part of \<open>_dispose\<close> has run. \<open>onDispose\<close> runs twice.
\<close>

lemma disposal_can_run_twice:
  "let s = room_step (ESeat 0 (Some 5) None) (room_step EReady two_seats); (s1, out) = dispose_room s
   in filter (\<lambda>x. x = OnDispose) (out @ snd (dispose_next 1 s1)) = [OnDispose, OnDispose]"
  by code_simp

text \<open>
  A reservation whose timer has fired is accepted until the clock has passed its last millisecond:
  \<open>_consume\<close> does not look at what \<open>_takeReservation\<close> returns, so the client gets a seat the room no
  longer holds for it, and with no options.
\<close>

lemma late_reservation_overfills:
  "let s0 = new_room (num_of_int 1) True True 10 False False (\<lambda>c. ([of_nat c], ByReservation)) (\<lambda>_. False) sample_ident;
       s1 = room_step (EReserve [9] [65] JNull True 1 0) s0;
       s2 = room_step (ESeat 0 (Some 5) None) (room_step (ETimer 2) s1)
   in fst (consume [9] 1000 s2) = Inr None \<and> getSeatCount (snd (joinReservation [9] 1000 None 1 (Some 6) None s2)) = 2"
  by code_simp

text \<open>
  A join with a reservation that is refused by the room's checks uses the reservation up and does
  not look whether the room is empty: such a room stays, with no seat and nothing to come.
\<close>

lemma refused_join_keeps_room:
  "let s = room_step (EJoinReservation [9] 500 (Some (RoomError ALREADY_JOINED [])) 0 (Some 5) None)
             (room_step (EReserve [9] [65] JNull True 1 0) (room_step EReady two_seats))
   in autoDispose s \<and> rm_ready s \<and> rm_clients s = [] \<and> rm_reservations s = [] \<and> \<not> rm_disposing s \<and> ctimers (rm_clock s) = []"
  by code_simp

end
