(* ===== verification/Filters.thy ===== *)
theory Filters
  imports Replica
begin

text \<open>
  Who is sent what: the guards of \<open>state/encoder.ts\<close>. An op of a filtered field carries a guard, a
  chain of fields each with the condition under which the op is for a client, in terms of whether
  the client saw the field after the last sync and whether it does now. Fields and clients are
  numbers; the filters are game code and a parameter. \<open>FilterEvaluator\<close> keeps what it has evaluated,
  and a delta groups the clients whose guards all come out the same: the facts are that neither shows.
\<close>

section \<open>Guards\<close>

datatype GuardKind = Normal | Reveal | Hide | Full

text \<open>A guard with its parents, outermost last; the empty chain is \<open>undefined\<close>.\<close>

type_synonym Guard = "(nat \<times> GuardKind) list"

datatype filter_result = Returned jsval | Threw

type_synonym filters = "nat \<rightharpoonup> (nat \<Rightarrow> filter_result)"

definition evaluateFilter :: "filters \<Rightarrow> nat \<Rightarrow> nat \<Rightarrow> bool" where
  "evaluateFilter fs state who =
     (case fs state of
        None \<Rightarrow> True
      | Some f \<Rightarrow> (case f who of Returned v \<Rightarrow> v = JBool True | Threw \<Rightarrow> False))"

text \<open>\<open>_results\<close> of an evaluator, and \<open>visible\<close>.\<close>

type_synonym results = "nat \<Rightarrow> nat \<Rightarrow> bool option"

definition visible :: "filters \<Rightarrow> nat \<Rightarrow> nat \<Rightarrow> results \<Rightarrow> bool \<times> results" where
  "visible fs state who res =
     (case res state who of
        Some b \<Rightarrow> (b, res)
      | None \<Rightarrow> let b = evaluateFilter fs state who in (b, res(state := (res state)(who \<mapsto> b))))"

fun kind_passes :: "GuardKind \<Rightarrow> bool \<Rightarrow> bool \<Rightarrow> bool" where
  "kind_passes Full before now = now"
| "kind_passes Normal before now = (before \<and> now)"
| "kind_passes Reveal before now = (\<not> before \<and> now)"
| "kind_passes Hide before now = (before \<and> \<not> now)"

fun passes :: "filters \<Rightarrow> (nat \<Rightarrow> nat \<Rightarrow> bool) \<Rightarrow> nat \<Rightarrow> Guard \<Rightarrow> (Guard \<rightharpoonup> bool) \<times> results \<Rightarrow> bool \<times> (Guard \<rightharpoonup> bool) \<times> results" where
  "passes fs before who [] m = (True, m)"
| "passes fs before who ((state, kind) # parent) (memo, res) =
     (case memo ((state, kind) # parent) of
        Some b \<Rightarrow> (b, memo, res)
      | None \<Rightarrow>
          (case passes fs before who parent (memo, res) of
             (ok, memo, res) \<Rightarrow>
               if ok then
                 (case visible fs state who res of
                    (cur, res) \<Rightarrow>
                      let b = kind_passes kind (before state who) cur
                      in (b, memo((state, kind) # parent \<mapsto> b), res))
               else (False, memo((state, kind) # parent \<mapsto> False), res)))"

section \<open>Emitters\<close>

record Emitter =
  em_ops :: "(jsval list \<times> Guard) list"
  distinctGuards :: "Guard list"
  newFiltered :: "nat list"

definition emit :: "jsval list \<Rightarrow> Guard \<Rightarrow> Emitter \<Rightarrow> Emitter" where
  "emit op g em = em\<lparr>em_ops := em_ops em @ [(op, g)]\<rparr>"

definition emit_all :: "jsval list list \<Rightarrow> Guard \<Rightarrow> Emitter \<Rightarrow> Emitter" where
  "emit_all ops g em = fold (\<lambda>op. emit op g) ops em"

definition em_guard :: "nat \<Rightarrow> GuardKind \<Rightarrow> Guard \<Rightarrow> Emitter \<Rightarrow> Guard \<times> Emitter" where
  "em_guard state kind parent em =
     (let g = (state, kind) # parent
      in (g, if g \<in> set (distinctGuards em) then em else em\<lparr>distinctGuards := distinctGuards em @ [g]\<rparr>))"

definition fieldGuard :: "bool \<Rightarrow> nat \<Rightarrow> GuardKind \<Rightarrow> Guard \<Rightarrow> Emitter \<Rightarrow> Guard \<times> Emitter" where
  "fieldGuard filtered state kind parent em = (if \<not> filtered then (parent, em) else em_guard state kind parent em)"

text \<open>\<open>select\<close> for a client, and for none.\<close>

fun select_loop ::
  "filters \<Rightarrow> (nat \<Rightarrow> nat \<Rightarrow> bool) \<Rightarrow> nat \<Rightarrow> (jsval list \<times> Guard) list \<Rightarrow> (Guard \<rightharpoonup> bool) \<times> results \<Rightarrow> jsval list list \<times> (Guard \<rightharpoonup> bool) \<times> results" where
  "select_loop fs before who [] m = ([], m)"
| "select_loop fs before who ((op, g) # ops) m =
     (case passes fs before who g m of
        (b, m) \<Rightarrow> case select_loop fs before who ops m of (out, m) \<Rightarrow> (if b then op # out else out, m))"

definition shared :: "Emitter \<Rightarrow> jsval list list" where
  "shared em = map fst (filter (\<lambda>(op, g). g = []) (em_ops em))"

definition select ::
  "filters \<Rightarrow> (nat \<Rightarrow> nat \<Rightarrow> bool) \<Rightarrow> nat option \<Rightarrow> Emitter \<Rightarrow> (Guard \<rightharpoonup> bool) \<times> results \<Rightarrow> jsval list list \<times> (Guard \<rightharpoonup> bool) \<times> results" where
  "select fs before who em m =
     (case who of None \<Rightarrow> (shared em, m) | Some c \<Rightarrow> select_loop fs before c (em_ops em) m)"

text \<open>The loop of \<open>generateDeltas\<close> over the clients: a signature has a bit per distinct guard.\<close>

fun signature ::
  "filters \<Rightarrow> (nat \<Rightarrow> nat \<Rightarrow> bool) \<Rightarrow> nat \<Rightarrow> Guard list \<Rightarrow> (Guard \<rightharpoonup> bool) \<times> results \<Rightarrow> bool list \<times> (Guard \<rightharpoonup> bool) \<times> results" where
  "signature fs before who [] m = ([], m)"
| "signature fs before who (g # gs) m =
     (case passes fs before who g m of
        (b, m) \<Rightarrow> case signature fs before who gs m of (bs, m) \<Rightarrow> (b # bs, m))"

fun group_loop ::
  "filters \<Rightarrow> (nat \<Rightarrow> nat \<Rightarrow> bool) \<Rightarrow> Emitter \<Rightarrow> nat list \<Rightarrow> (bool list \<rightharpoonup> jsval list list) \<Rightarrow> results
   \<Rightarrow> (nat \<times> jsval list list) list \<times> results" where
  "group_loop fs before em [] bySignature res = ([], res)"
| "group_loop fs before em (c # cs) bySignature res =
     (case signature fs before c (distinctGuards em) (Map.empty, res) of
        (sig, memo, res) \<Rightarrow>
          (case (case bySignature sig of
                   Some ops \<Rightarrow> (ops, bySignature, res)
                 | None \<Rightarrow>
                     (case select fs before (Some c) em (memo, res) of
                        (ops, memo, res) \<Rightarrow> (ops, bySignature(sig \<mapsto> ops), res))) of
             (ops, bySignature, res) \<Rightarrow>
               (case group_loop fs before em cs bySignature res of (out, res) \<Rightarrow> ((c, ops) # out, res))))"

definition per_client ::
  "filters \<Rightarrow> (nat \<Rightarrow> nat \<Rightarrow> bool) \<Rightarrow> Emitter \<Rightarrow> nat list \<Rightarrow> results \<Rightarrow> (nat \<times> jsval list list) list \<times> results" where
  "per_client fs before em clients res =
     (if distinctGuards em = [] then (map (\<lambda>c. (c, map fst (em_ops em))) clients, res)
      else group_loop fs before em clients Map.empty res)"

section \<open>The grouping does not show\<close>

text \<open>The reference: an op is for a client if every link of its guard holds for it.\<close>

definition guard_holds :: "filters \<Rightarrow> (nat \<Rightarrow> nat \<Rightarrow> bool) \<Rightarrow> nat \<Rightarrow> Guard \<Rightarrow> bool" where
  "guard_holds fs before c g = list_all (\<lambda>(state, kind). kind_passes kind (before state c) (evaluateFilter fs state c)) g"

definition ops_for :: "filters \<Rightarrow> (nat \<Rightarrow> nat \<Rightarrow> bool) \<Rightarrow> nat \<Rightarrow> Emitter \<Rightarrow> jsval list list" where
  "ops_for fs before c em = map fst (filter (\<lambda>(op, g). guard_holds fs before c g) (em_ops em))"

definition results_ok :: "filters \<Rightarrow> results \<Rightarrow> bool" where
  "results_ok fs res = (\<forall>state c b. res state c = Some b \<longrightarrow> b = evaluateFilter fs state c)"

definition memo_ok :: "filters \<Rightarrow> (nat \<Rightarrow> nat \<Rightarrow> bool) \<Rightarrow> nat \<Rightarrow> (Guard \<rightharpoonup> bool) \<Rightarrow> bool" where
  "memo_ok fs before c memo = (\<forall>g b. memo g = Some b \<longrightarrow> b = guard_holds fs before c g)"

lemma results_ok_empty [simp]: "results_ok fs (\<lambda>_ _. None)"
  by (simp add: results_ok_def)

lemma memo_ok_empty [simp]: "memo_ok fs before c Map.empty"
  by (simp add: memo_ok_def)

lemma memo_ok_update: "memo_ok fs before c memo \<Longrightarrow> b = guard_holds fs before c g \<Longrightarrow> memo_ok fs before c (memo(g \<mapsto> b))"
  by (simp add: memo_ok_def)

lemma visible_ok:
  "results_ok fs res \<Longrightarrow> visible fs state c res = (b, res') \<Longrightarrow> b = evaluateFilter fs state c \<and> results_ok fs res'"
  by (auto simp: visible_def results_ok_def Let_def split: option.splits if_splits)

text \<open>What a step with the memo and the results returns, when they are right before it.\<close>

definition right :: "filters \<Rightarrow> (nat \<Rightarrow> nat \<Rightarrow> bool) \<Rightarrow> nat \<Rightarrow> 'a \<Rightarrow> 'a \<times> (Guard \<rightharpoonup> bool) \<times> results \<Rightarrow> bool" where
  "right fs before c x r = (fst r = x \<and> memo_ok fs before c (fst (snd r)) \<and> results_ok fs (snd (snd r)))"

lemma passes_right:
  "memo_ok fs before c memo \<Longrightarrow> results_ok fs res \<Longrightarrow>
   right fs before c (guard_holds fs before c g) (passes fs before c g (memo, res))"
proof (induction g arbitrary: memo res)
  case (Cons link g)
  obtain st kd where l: "link = (st, kd)" by fastforce
  show ?case
  proof (cases "memo (link # g)")
    case (Some b)
    then show ?thesis using Cons.prems l by (auto simp: right_def memo_ok_def)
  next
    case None
    obtain ok memo1 res1 where p: "passes fs before c g (memo, res) = (ok, memo1, res1)" using prod_cases3 by blast
    have o: "ok = guard_holds fs before c g" "memo_ok fs before c memo1" "results_ok fs res1"
      using Cons.IH [OF Cons.prems] by (simp_all add: right_def p)
    obtain cur res2 where v: "visible fs st c res1 = (cur, res2)" by fastforce
    show ?thesis
      using o visible_ok [OF o(3) v] None
      by (auto simp: right_def l p v Let_def guard_holds_def intro!: memo_ok_update)
  qed
qed (simp add: right_def guard_holds_def)

lemma select_loop_right:
  "memo_ok fs before c memo \<Longrightarrow> results_ok fs res \<Longrightarrow>
   right fs before c (map fst (filter (\<lambda>(op, g). guard_holds fs before c g) ops)) (select_loop fs before c ops (memo, res))"
proof (induction ops arbitrary: memo res)
  case (Cons x ops)
  obtain op g where x: "x = (op, g)" by fastforce
  obtain b memo1 res1 where p: "passes fs before c g (memo, res) = (b, memo1, res1)" using prod_cases3 by blast
  have b: "b = guard_holds fs before c g" "memo_ok fs before c memo1" "results_ok fs res1"
    using passes_right [OF Cons.prems, of g] by (simp_all add: right_def p)
  then show ?case using Cons.IH [OF b(2,3)] by (simp add: right_def x p case_prod_beta)
qed (simp add: right_def)

lemma signature_right:
  "memo_ok fs before c memo \<Longrightarrow> results_ok fs res \<Longrightarrow>
   right fs before c (map (guard_holds fs before c) gs) (signature fs before c gs (memo, res))"
proof (induction gs arbitrary: memo res)
  case (Cons g gs)
  obtain b memo1 res1 where p: "passes fs before c g (memo, res) = (b, memo1, res1)" using prod_cases3 by blast
  have b: "b = guard_holds fs before c g" "memo_ok fs before c memo1" "results_ok fs res1"
    using passes_right [OF Cons.prems, of g] by (simp_all add: right_def p)
  then show ?case using Cons.IH [OF b(2,3)] by (simp add: right_def p case_prod_beta)
qed (simp add: right_def)

text \<open>Every guard of an op is among the distinct ones.\<close>

definition guards_known :: "Emitter \<Rightarrow> bool" where
  "guards_known em = (\<forall>(op, g) \<in> set (em_ops em). g = [] \<or> g \<in> set (distinctGuards em))"

lemma same_signature:
  assumes "guards_known em" "map (guard_holds fs before c) (distinctGuards em) = map (guard_holds fs before d) (distinctGuards em)"
  shows "ops_for fs before c em = ops_for fs before d em"
proof -
  have "guard_holds fs before c g = guard_holds fs before d g" if "(op, g) \<in> set (em_ops em)" for op g
    using that assms by (cases "g = []") (auto simp: guards_known_def guard_holds_def)
  then show ?thesis by (auto simp: ops_for_def intro!: arg_cong [of _ _ "map fst"] filter_cong)
qed

lemma group_loop_right:
  assumes "guards_known em"
  shows "results_ok fs res \<Longrightarrow>
    (\<And>sig ops. bySignature sig = Some ops \<Longrightarrow> \<exists>d. sig = map (guard_holds fs before d) (distinctGuards em) \<and> ops = ops_for fs before d em) \<Longrightarrow>
    fst (group_loop fs before em cs bySignature res) = map (\<lambda>c. (c, ops_for fs before c em)) cs
    \<and> results_ok fs (snd (group_loop fs before em cs bySignature res))"
proof (induction cs arbitrary: bySignature res)
  case (Cons c cs)
  obtain sig memo res1 where s: "signature fs before c (distinctGuards em) (Map.empty, res) = (sig, memo, res1)" using prod_cases3 by blast
  have sg: "sig = map (guard_holds fs before c) (distinctGuards em)" "memo_ok fs before c memo" "results_ok fs res1"
    using signature_right [OF memo_ok_empty Cons.prems(1), of before c "distinctGuards em"] by (simp_all add: right_def s)
  show ?case
  proof (cases "bySignature sig")
    case (Some ops)
    then have "ops = ops_for fs before c em" using Cons.prems(2) same_signature [OF assms] sg(1) by metis
    then show ?thesis using Cons.IH [OF sg(3) Cons.prems(2)] Some by (simp add: s case_prod_beta)
  next
    case None
    obtain ops memo2 res2 where l: "select_loop fs before c (em_ops em) (memo, res1) = (ops, memo2, res2)" using prod_cases3 by blast
    have o: "ops = ops_for fs before c em" "results_ok fs res2"
      using select_loop_right [OF sg(2,3), of "em_ops em"] by (simp_all add: right_def l ops_for_def)
    have "\<exists>d. sig' = map (guard_holds fs before d) (distinctGuards em) \<and> ops' = ops_for fs before d em"
      if "(bySignature(sig \<mapsto> ops)) sig' = Some ops'" for sig' ops'
      using that Cons.prems(2) o(1) sg(1) by (auto split: if_splits)
    then have "fst (group_loop fs before em cs (bySignature(sig \<mapsto> ops)) res2) = map (\<lambda>c. (c, ops_for fs before c em)) cs
        \<and> results_ok fs (snd (group_loop fs before em cs (bySignature(sig \<mapsto> ops)) res2))"
      by (rule Cons.IH [OF o(2)])
    then show ?thesis using o(1) None by (simp add: s select_def l case_prod_beta)
  qed
qed simp

lemma per_client_right:
  assumes "guards_known em" "results_ok fs res"
  shows "fst (per_client fs before em cs res) = map (\<lambda>c. (c, ops_for fs before c em)) cs"
    "results_ok fs (snd (per_client fs before em cs res))"
proof -
  have "map fst (em_ops em) = ops_for fs before c em" if "distinctGuards em = []" for c
  proof -
    have "filter (\<lambda>(op, g). guard_holds fs before c g) (em_ops em) = em_ops em"
      using assms(1) that by (auto simp: guards_known_def guard_holds_def intro!: filter_True)
    then show ?thesis by (simp add: ops_for_def)
  qed
  then show "fst (per_client fs before em cs res) = map (\<lambda>c. (c, ops_for fs before c em)) cs"
    "results_ok fs (snd (per_client fs before em cs res))"
    using group_loop_right [OF assms(1,2), of Map.empty before cs] assms(2) by (auto simp: per_client_def)
qed

end
