(* ===== verification/FlatState.thy ===== *)
theory FlatState
  imports Filters Convergence
begin

text \<open>
  State sync of a room whose state has primitive fields and collections of primitives, each of them
  filtered or not: \<open>encodeSnapshot\<close>, \<open>generateDeltas\<close> and \<open>clearChangeTrees\<close> of
  \<open>state/encoder.ts\<close> with the change record of \<open>state/change-tree.ts\<close>, for such a root, and
  \<open>applyDelta\<close> of \<open>state/decoder.ts\<close> for a receiver whose class has such fields. Nothing but the root
  has a refId then, so the stamps and blocks of instances do not come into play; the receiver meets
  references to instances only where it has no field for them, and ignores those as the code does.
\<close>

section \<open>Fields\<close>

datatype FieldState = FPrim PrimitiveState | FColl target

record Field =
  fname :: jsstring
  fstate :: FieldState
  ffiltered :: bool

fun prim_type :: "PrimitiveKind \<Rightarrow> jsstring" where
  "prim_type NumberState = js ''float64''"
| "prim_type Float32State = js ''float32''"
| "prim_type (FixedPointState d) = js ''fixed:'' @ digit_text d"
| "prim_type (IntState k) = int_kind_name k"
| "prim_type StringState = js ''string''"
| "prim_type BooleanState = js ''bool''"

text \<open>\<open>_type\<close> of a field.\<close>

fun state_type :: "FieldState \<Rightarrow> jsstring" where
  "state_type (FPrim p) = prim_type (pkind p)"
| "state_type (FColl (TMap m)) = angle ''map'' (codec_type (mkey m) @ 0x2C # codec_type (mval m))"
| "state_type (FColl (TSet s)) = angle ''set'' (codec_type (scodec s))"
| "state_type (FColl (TArray a)) = angle ''array'' (codec_type (acodec a))"

fun is_coll :: "FieldState \<Rightarrow> bool" where
  "is_coll (FPrim p) = False"
| "is_coll (FColl t) = True"

fun coll_dirty :: "target \<Rightarrow> bool" where
  "coll_dirty (TMap m) = mdirty m"
| "coll_dirty (TSet s) = sdirty s"
| "coll_dirty (TArray a) = adirty a"

fun coll_track :: "target \<Rightarrow> target" where
  "coll_track (TMap m) = TMap (m\<lparr>mtracking := True\<rparr>)"
| "coll_track (TSet s) = TSet (s\<lparr>stracking := True\<rparr>)"
| "coll_track (TArray a) = TArray (a\<lparr>atracking := True\<rparr>)"

fun coll_content :: "nat \<Rightarrow> target \<Rightarrow> jsval list list" where
  "coll_content ref (TMap m) = map_content ref m"
| "coll_content ref (TSet s) = set_content ref s"
| "coll_content ref (TArray a) = array_content ref a"

fun coll_ops :: "nat \<Rightarrow> target \<Rightarrow> jsval list list" where
  "coll_ops ref (TMap m) = map_ops ref m"
| "coll_ops ref (TSet s) = set_ops ref s"
| "coll_ops ref (TArray a) = array_ops ref a"

text \<open>\<open>_clearChanges\<close>, and that the collection has left the owner's set of dirty ones.\<close>

fun coll_commit :: "target \<Rightarrow> target" where
  "coll_commit (TMap m) = TMap ((map_clearChanges m)\<lparr>mdirty := False\<rparr>)"
| "coll_commit (TSet s) = TSet ((set_clearChanges s)\<lparr>sdirty := False\<rparr>)"
| "coll_commit (TArray a) = TArray ((array_clearChanges a)\<lparr>adirty := False\<rparr>)"

section \<open>The server's side\<close>

text \<open>The root: its fields, whether it has a refId, and its change tree: changed fields and dirty collections, in order.\<close>

record Instance =
  iname :: jsstring
  ifields :: "Field list"
  ionwire :: bool
  ichanges :: "nat list"
  idirty :: "nat list"

record EncodeContext =
  ectable :: "SchemaClassEntry list"
  ecfiltered :: "nat list"

record StateRoot =
  sroot :: Instance
  sctx :: "EncodeContext option"
  svisible :: "nat \<Rightarrow> nat \<Rightarrow> bool"

definition add_once :: "nat \<Rightarrow> nat list \<Rightarrow> nat list" where
  "add_once i xs = (if i \<in> set xs then xs else xs @ [i])"

definition isDirty :: "Instance \<Rightarrow> bool" where
  "isDirty r = (ichanges r \<noteq> [] \<or> idirty r \<noteq> [])"

text \<open>The writes of game code: to a primitive, and to a collection.\<close>

datatype FieldEdit = EPrim jsval | EMap MapEdit | ESet SetEdit | EArray ArrayEdit

fun coll_edit :: "FieldEdit \<Rightarrow> target \<Rightarrow> target" where
  "coll_edit (EMap e) (TMap m) = TMap (map_edit e m)"
| "coll_edit (ESet e) (TSet s) = TSet (set_edit e s)"
| "coll_edit (EArray e) (TArray a) = TArray (array_edit e a)"
| "coll_edit e t = t"

definition set_state :: "nat \<Rightarrow> FieldState \<Rightarrow> Instance \<Rightarrow> Instance" where
  "set_state i x r = r\<lparr>ifields := (ifields r)[i := (ifields r ! i)\<lparr>fstate := x\<rparr>]\<rparr>"

definition edit_field :: "nat \<Rightarrow> FieldEdit \<Rightarrow> Instance \<Rightarrow> Instance" where
  "edit_field i e r =
     (if length (ifields r) \<le> i then r
      else case fstate (ifields r ! i) of
             FPrim p \<Rightarrow>
               (case e of
                  EPrim v \<Rightarrow>
                    (case prim_set (ionwire r) v p of
                       (p, changed) \<Rightarrow>
                         let r = set_state i (FPrim p) r
                         in if changed then r\<lparr>ichanges := add_once i (ichanges r)\<rparr> else r)
                | _ \<Rightarrow> r)
           | FColl t \<Rightarrow>
               let t = coll_edit e t; r = set_state i (FColl t) r
               in if coll_dirty t then r\<lparr>idirty := add_once i (idirty r)\<rparr> else r)"

definition entry_of :: "Instance \<Rightarrow> SchemaClassEntry" where
  "entry_of r =
     \<lparr>classId = num_of_int 0, cname = iname r, cfields = map fname (ifields r), ctypes = map (state_type \<circ> fstate) (ifields r)\<rparr>"

definition defineOp :: "SchemaClassEntry \<Rightarrow> jsval list" where
  "defineOp e = [nat_val 4, JNum (classId e), JStr (cname e), JArr (map JStr (cfields e)), JArr (map JStr (ctypes e))]"

fun isZeroWire :: "jsval \<Rightarrow> bool" where
  "isZeroWire (JNum n) = num_eq n (JFin 0)"
| "isZeroWire (JStr s) = (s = [])"
| "isZeroWire (JBool b) = (\<not> b)"
| "isZeroWire _ = False"

text \<open>The refId of the collection in field \<open>i\<close>: the root's is 0, its collections' follow in field order.\<close>

definition coll_ref :: "Instance \<Rightarrow> nat \<Rightarrow> nat" where
  "coll_ref r i = Suc (length (filter (is_coll \<circ> fstate) (take i (ifields r))))"

text \<open>\<open>ref\<close> on the root: its class joins the table, it gets its refIds, its filtered fields become known.\<close>

definition root_ref :: "Instance \<times> EncodeContext \<Rightarrow> Emitter \<Rightarrow> Instance \<times> EncodeContext \<times> Emitter" where
  "root_ref rc em =
     (case rc of (r, ctx) \<Rightarrow>
        let ctx = (if ectable ctx = [] then ctx\<lparr>ectable := [entry_of r]\<rparr> else ctx)
        in if ionwire r then (r, ctx, em)
           else let known = filter (\<lambda>i. ffiltered (ifields r ! i)) [0..<length (ifields r)]
                in (r\<lparr>ionwire := True,
                      ifields := map (\<lambda>f. case fstate f of FPrim p \<Rightarrow> f | FColl t \<Rightarrow> f\<lparr>fstate := FColl (coll_track t)\<rparr>) (ifields r)\<rparr>,
                    ctx\<lparr>ecfiltered := fold add_once known (ecfiltered ctx)\<rparr>,
                    em\<lparr>newFiltered := fold add_once known (newFiltered em)\<rparr>))"

text \<open>\<open>content\<close> of the root, one field after the other.\<close>

definition field_content :: "Instance \<Rightarrow> nat \<Rightarrow> Emitter \<Rightarrow> Emitter" where
  "field_content r i em =
     (let f = ifields r ! i
      in case fstate f of
           FPrim p \<Rightarrow>
             if isZeroWire (prim_toWire p) then em
             else (case fieldGuard (ffiltered f) i Full [] em of
                     (g, em) \<Rightarrow> emit [nat_val 0, nat_val 0, nat_val i, prim_toWire p] g em)
         | FColl t \<Rightarrow>
             (case fieldGuard (ffiltered f) i Full [] em of (g, em) \<Rightarrow> emit_all (coll_content (coll_ref r i) t) g em))"

definition root_content :: "Instance \<Rightarrow> Emitter \<Rightarrow> Emitter" where
  "root_content r em = fold (field_content r) [0..<length (ifields r)] em"

text \<open>\<open>visit\<close> of the root: its changed fields, then its dirty collections.\<close>

definition visit_change :: "Instance \<Rightarrow> nat \<Rightarrow> Emitter \<Rightarrow> Emitter" where
  "visit_change r i em =
     (let f = ifields r ! i
      in case fstate f of
           FPrim p \<Rightarrow>
             (case fieldGuard (ffiltered f) i Normal [] em of
                (g, em) \<Rightarrow> emit [nat_val 0, nat_val 0, nat_val i, prim_toWire p] g em)
         | FColl t \<Rightarrow> em)"

definition visit_collection :: "Instance \<Rightarrow> nat \<Rightarrow> Emitter \<Rightarrow> Emitter" where
  "visit_collection r i em =
     (let f = ifields r ! i
      in case fstate f of
           FPrim p \<Rightarrow> em
         | FColl t \<Rightarrow>
             (case fieldGuard (ffiltered f) i Normal [] em of (g, em) \<Rightarrow> emit_all (coll_ops (coll_ref r i) t) g em))"

definition visit :: "Instance \<Rightarrow> Emitter \<Rightarrow> Emitter" where
  "visit r em =
     (if \<not> ionwire r then em else fold (visit_collection r) (idirty r) (fold (visit_change r) (ichanges r) em))"

text \<open>\<open>transitions\<close>: the loop over the clients for one field, and what it emits.\<close>

fun flips :: "filters \<Rightarrow> (nat \<Rightarrow> nat \<Rightarrow> bool) \<Rightarrow> nat \<Rightarrow> nat list \<Rightarrow> bool \<times> bool \<Rightarrow> results \<Rightarrow> (bool \<times> bool) \<times> results" where
  "flips fs before state [] acc res = (acc, res)"
| "flips fs before state (c # cs) (reveal, hide) res =
     (case visible fs state c res of
        (cur, res) \<Rightarrow>
          flips fs before state cs
            (if \<not> before state c \<and> cur then (True, hide) else if before state c \<and> \<not> cur then (reveal, True) else (reveal, hide)) res)"

definition reveal_field :: "Instance \<Rightarrow> nat \<Rightarrow> Emitter \<Rightarrow> Emitter" where
  "reveal_field r i em =
     (case em_guard i Reveal [] em of
        (g, em) \<Rightarrow>
          (case fstate (ifields r ! i) of
             FPrim p \<Rightarrow> emit [nat_val 0, nat_val 0, nat_val i, prim_toWire p] g em
           | FColl t \<Rightarrow> emit_all (coll_content (coll_ref r i) t) g em))"

definition hide_field :: "Instance \<Rightarrow> nat \<Rightarrow> Emitter \<Rightarrow> Emitter" where
  "hide_field r i em =
     (case em_guard i Hide [] em of
        (g, em) \<Rightarrow>
          (case fstate (ifields r ! i) of
             FPrim p \<Rightarrow> emit [nat_val 0, nat_val 0, nat_val i, zeroWire (pkind p)] g em
           | FColl t \<Rightarrow> emit [nat_val 3, nat_val (coll_ref r i)] g em))"

fun transitions ::
  "filters \<Rightarrow> (nat \<Rightarrow> nat \<Rightarrow> bool) \<Rightarrow> Instance \<Rightarrow> nat list \<Rightarrow> nat list \<Rightarrow> Emitter \<Rightarrow> results \<Rightarrow> Emitter \<times> results" where
  "transitions fs before r clients [] em res = (em, res)"
| "transitions fs before r clients (i # is) em res =
     (if i \<in> set (newFiltered em) \<or> \<not> ionwire r then transitions fs before r clients is em res
      else case flips fs before i clients (False, False) res of
             ((reveal, hide), res) \<Rightarrow>
               let em = (if reveal then reveal_field r i em else em);
                   em = (if hide then hide_field r i em else em)
               in transitions fs before r clients is em res)"

text \<open>\<open>setVisible\<close> for every known filtered field and every client.\<close>

fun set_visible :: "filters \<Rightarrow> nat \<Rightarrow> nat list \<Rightarrow> (nat \<Rightarrow> nat \<Rightarrow> bool) \<Rightarrow> results \<Rightarrow> (nat \<Rightarrow> nat \<Rightarrow> bool) \<times> results" where
  "set_visible fs i [] vis res = (vis, res)"
| "set_visible fs i (c # cs) vis res =
     (case visible fs i c res of (b, res) \<Rightarrow> set_visible fs i cs (vis(i := (vis i)(c := b))) res)"

fun set_visibles :: "filters \<Rightarrow> nat list \<Rightarrow> nat list \<Rightarrow> (nat \<Rightarrow> nat \<Rightarrow> bool) \<Rightarrow> results \<Rightarrow> (nat \<Rightarrow> nat \<Rightarrow> bool) \<times> results" where
  "set_visibles fs [] cs vis res = (vis, res)"
| "set_visibles fs (i # is) cs vis res =
     (case set_visible fs i cs vis res of (vis, res) \<Rightarrow> set_visibles fs is cs vis res)"

definition new_emitter :: Emitter where
  "new_emitter = \<lparr>em_ops = [], distinctGuards = [], newFiltered = []\<rparr>"

definition encodeSnapshot :: "filters \<Rightarrow> nat option \<Rightarrow> StateRoot \<Rightarrow> (StateError + jsval list list) \<times> StateRoot" where
  "encodeSnapshot fs who s =
     (if sctx s \<noteq> None \<and> isDirty (sroot s) then
        (Inl (StateError SNAPSHOT_DIRTY (Msg ''encodeSnapshot requires a clean tree; flush pending deltas first'' [])), s)
      else
        let ctx = (case sctx s of None \<Rightarrow> \<lparr>ectable = [], ecfiltered = []\<rparr> | Some ctx \<Rightarrow> ctx)
        in case root_ref (sroot s, ctx) new_emitter of
             (r, ctx, em) \<Rightarrow>
               (case select fs (svisible s) who (root_content r em) (Map.empty, \<lambda>_ _. None) of
                  (body, memo, res) \<Rightarrow>
                    let vis = (case who of None \<Rightarrow> svisible s | Some c \<Rightarrow> fst (set_visibles fs (ecfiltered ctx) [c] (svisible s) res))
                    in (Inr (map defineOp (ectable ctx) @ body), s\<lparr>sroot := r, sctx := Some ctx, svisible := vis\<rparr>)))"

definition generateDeltas :: "filters \<Rightarrow> nat list \<Rightarrow> StateRoot \<Rightarrow> (nat \<times> jsval list list) list \<times> StateRoot" where
  "generateDeltas fs clients s =
     (case sctx s of
        None \<Rightarrow> (map (\<lambda>c. (c, [])) clients, s)
      | Some ctx \<Rightarrow>
          let r = sroot s;
              em = (if isDirty r then visit r new_emitter else new_emitter)
          in case (if clients \<noteq> [] \<and> ecfiltered ctx \<noteq> [] then transitions fs (svisible s) r clients (ecfiltered ctx) em (\<lambda>_ _. None)
                   else (em, \<lambda>_ _. None)) of
               (em, res) \<Rightarrow>
                 (case per_client fs (svisible s) em clients res of
                    (out, res) \<Rightarrow> (out, s\<lparr>svisible := fst (set_visibles fs (ecfiltered ctx) clients (svisible s) res)\<rparr>)))"

text \<open>The call without clients: what an unfiltered view receives.\<close>

definition generateDeltas_shared :: "StateRoot \<Rightarrow> jsval list list" where
  "generateDeltas_shared s =
     (if sctx s = None then [] else shared (if isDirty (sroot s) then visit (sroot s) new_emitter else new_emitter))"

definition clear_field :: "nat \<Rightarrow> Instance \<Rightarrow> Instance" where
  "clear_field i r =
     (case fstate (ifields r ! i) of FPrim p \<Rightarrow> r | FColl t \<Rightarrow> set_state i (FColl (coll_commit t)) r)"

definition clearChangeTrees :: "StateRoot \<Rightarrow> StateRoot" where
  "clearChangeTrees s = s\<lparr>sroot := (fold clear_field (idirty (sroot s)) (sroot s))\<lparr>ichanges := [], idirty := []\<rparr>\<rparr>"

section \<open>The receiver's side\<close>

datatype Ref = RRoot | RField nat

record ClassBinding =
  bentry :: SchemaClassEntry
  bcollections :: "bool list"
  bnested :: "bool list"
  blocal :: "nat option list option"

record DecodeContext =
  drefs :: "int \<rightharpoonup> Ref"
  dignored :: "int \<Rightarrow> bool"
  dclasses :: "int \<rightharpoonup> ClassBinding"
  dbinding :: "ClassBinding option"
  rootBound :: bool

record ReplicaRoot =
  rname :: jsstring
  rfields :: "Field list"
  rctx :: DecodeContext

abbreviation the_int :: "jsval \<Rightarrow> int" where
  "the_int v \<equiv> int_of_num (the_num v)"

fun isWireRef :: "jsval \<Rightarrow> bool" where
  "isWireRef (JArr vs) = (length vs = 2 \<and> isInt (arg vs 0) \<and> isInt (arg vs 1))"
| "isWireRef _ = False"

fun elems :: "jsval \<Rightarrow> jsval list" where
  "elems (JArr vs) = vs"
| "elems _ = []"

fun is_arr :: "jsval \<Rightarrow> bool" where
  "is_arr (JArr vs) = True"
| "is_arr _ = False"

fun parseTypes :: "jsval list \<Rightarrow> ParsedFieldType list option" where
  "parseTypes [] = Some []"
| "parseTypes (t # ts) =
     (case t of
        JStr s \<Rightarrow> (case parseFieldType s of None \<Rightarrow> None | Some p \<Rightarrow> map_option ((#) p) (parseTypes ts))
      | _ \<Rightarrow> None)"

fun is_nested :: "ParsedFieldType \<Rightarrow> bool" where
  "is_nested (PSchema n) = True"
| "is_nested _ = False"

definition field_index :: "jsstring \<Rightarrow> Field list \<Rightarrow> nat option" where
  "field_index name fs = find (\<lambda>i. fname (fs ! i) = name) [0..<length fs]"

text \<open>\<open>_localFields\<close>.\<close>

fun localFields :: "jsstring \<Rightarrow> (jsstring \<times> jsstring) list \<Rightarrow> Field list \<Rightarrow> StateError + nat option list" where
  "localFields class [] fs = Inr []"
| "localFields class ((name, type) # rest) fs =
     (case field_index name fs of
        None \<Rightarrow> (case localFields class rest fs of Inl e \<Rightarrow> Inl e | Inr l \<Rightarrow> Inr (None # l))
      | Some i \<Rightarrow>
          if state_type (fstate (fs ! i)) \<noteq> type then
            Inl (StateError SCHEMA_MISMATCH (Msg ''{}.{}: server sends {}, local field is {}''
              [JStr class, JStr name, JStr type, JStr (state_type (fstate (fs ! i)))]))
          else (case localFields class rest fs of Inl e \<Rightarrow> Inl e | Inr l \<Rightarrow> Inr (Some i # l)))"

fun reset_state :: "FieldState \<Rightarrow> FieldState" where
  "reset_state (FPrim p) = FPrim (prim_reset p)"
| "reset_state (FColl (TMap m)) = FColl (TMap (map_reset m))"
| "reset_state (FColl (TSet s)) = FColl (TSet (set_reset s))"
| "reset_state (FColl (TArray a)) = FColl (TArray (array_reset a))"

text \<open>The loop of \<open>_bind\<close> over the server's collection fields, from a refId on.\<close>

fun bind_refs :: "int \<Rightarrow> bool list \<Rightarrow> nat option list \<Rightarrow> Field list \<Rightarrow> DecodeContext \<Rightarrow> DecodeContext" where
  "bind_refs nxt (True # cs) (l # ls) fs d =
     bind_refs (nxt + 1) cs ls fs
       (case l of
          Some i \<Rightarrow>
            if is_coll (fstate (fs ! i)) then d\<lparr>drefs := (drefs d)(nxt \<mapsto> RField i), dignored := (dignored d)(nxt := False)\<rparr>
            else d\<lparr>drefs := (drefs d)(nxt := None), dignored := (dignored d)(nxt := True)\<rparr>
        | None \<Rightarrow> d\<lparr>drefs := (drefs d)(nxt := None), dignored := (dignored d)(nxt := True)\<rparr>)"
| "bind_refs nxt (False # cs) (l # ls) fs d = bind_refs nxt cs ls fs d"
| "bind_refs nxt _ _ fs d = d"

text \<open>\<open>_bind\<close> of the root, which happens once, so that there is no earlier binding to undo.\<close>

definition bind_root :: "ClassBinding \<Rightarrow> ReplicaRoot \<Rightarrow> StateError + ReplicaRoot" where
  "bind_root b R =
     (case (case blocal b of
              Some l \<Rightarrow> Inr l
            | None \<Rightarrow> localFields (cname (bentry b)) (zip (cfields (bentry b)) (ctypes (bentry b))) (rfields R)) of
        Inl e \<Rightarrow> Inl e
      | Inr l \<Rightarrow>
          let b = b\<lparr>blocal := Some l\<rparr>; d = rctx R;
              d = d\<lparr>dignored := (dignored d)(0 := False), drefs := (drefs d)(0 \<mapsto> RRoot), dbinding := Some b,
                    dclasses := (dclasses d)(int_of_num (classId (bentry b)) \<mapsto> b)\<rparr>;
              fs = map (\<lambda>f. f\<lparr>fstate := reset_state (fstate f)\<rparr>) (rfields R)
          in Inr (R\<lparr>rfields := fs, rctx := bind_refs 1 (bcollections b) l fs d\<rparr>))"

text \<open>A step that fails leaves the replica as it was, but for a \<open>DEFINE\<close>, which has entered its class by then.\<close>

fun stay :: "ReplicaRoot \<Rightarrow> StateError + ReplicaRoot \<Rightarrow> StateError option \<times> ReplicaRoot" where
  "stay R (Inl e) = (Some e, R)"
| "stay R (Inr R') = (None, R')"

definition rep_define :: "jsval list \<Rightarrow> ReplicaRoot \<Rightarrow> StateError option \<times> ReplicaRoot" where
  "rep_define op R =
     (case (if is_arr (arg op 4) then parseTypes (elems (arg op 4)) else None) of
        None \<Rightarrow> stay R (malformed ''bad DEFINE'' [])
      | Some parsed \<Rightarrow>
          if length op \<noteq> 5 \<or> \<not> isInt (arg op 1) \<or> \<not> is_string (arg op 2) \<or> \<not> is_arr (arg op 3)
             \<or> length (elems (arg op 3)) \<noteq> length (elems (arg op 4)) \<or> \<not> list_all is_string (elems (arg op 3)) then
            stay R (malformed ''bad DEFINE'' [])
          else
            let e = \<lparr>classId = the_num (arg op 1), cname = the_string (arg op 2), cfields = strings_of (arg op 3), ctypes = strings_of (arg op 4)\<rparr>;
                b = \<lparr>bentry = e, bcollections = map isCollectionField parsed, bnested = map is_nested parsed, blocal = None\<rparr>;
                R = R\<lparr>rctx := (rctx R)\<lparr>dclasses := (dclasses (rctx R))(the_int (arg op 1) \<mapsto> b)\<rparr>\<rparr>
            in if \<not> rootBound (rctx R) \<and> rname R = cname e then
                 (case stay R (bind_root b R) of
                    (Some err, R) \<Rightarrow> (Some err, R)
                  | (None, R) \<Rightarrow> (None, R\<lparr>rctx := (rctx R)\<lparr>rootBound := True\<rparr>\<rparr>))
               else (None, R))"

text \<open>\<open>_ignore\<close> and \<open>_ignoreValue\<close>.\<close>

fun ignore_from :: "int \<Rightarrow> bool list \<Rightarrow> (int \<Rightarrow> bool) \<Rightarrow> int \<Rightarrow> bool" where
  "ignore_from nxt [] g = g"
| "ignore_from nxt (c # cs) g = (if c then ignore_from (nxt + 1) cs (g(nxt := True)) else ignore_from nxt cs g)"

definition unknownClass :: "jsval \<Rightarrow> StateError + 'a" where
  "unknownClass c = Inl (StateError UNKNOWN_CLASS (Msg ''classId {} not defined'' [c]))"

definition unknownRef :: "jsval \<Rightarrow> StateError + 'a" where
  "unknownRef r = Inl (StateError UNKNOWN_REF (Msg ''unknown refId {}'' [r]))"

definition ignoreValue :: "jsval \<Rightarrow> ReplicaRoot \<Rightarrow> StateError + ReplicaRoot" where
  "ignoreValue v R =
     (if \<not> isWireRef v then Inr R
      else let ref = the_int (arg (elems v) 1)
           in if drefs (rctx R) ref \<noteq> None \<or> dignored (rctx R) ref then Inr R
              else case dclasses (rctx R) (the_int (arg (elems v) 0)) of
                     None \<Rightarrow> unknownClass (arg (elems v) 0)
                   | Some b \<Rightarrow>
                       Inr (R\<lparr>rctx := (rctx R)\<lparr>dignored := ignore_from (ref + 1) (bcollections b) ((dignored (rctx R))(ref := True))\<rparr>\<rparr>))"

definition set_local :: "nat \<Rightarrow> FieldState \<Rightarrow> ReplicaRoot \<Rightarrow> ReplicaRoot" where
  "set_local i x R = R\<lparr>rfields := (rfields R)[i := (rfields R ! i)\<lparr>fstate := x\<rparr>]\<rparr>"

text \<open>An op on the collection in field \<open>i\<close>.\<close>

definition on_coll :: "nat \<Rightarrow> (target \<Rightarrow> StateError + target \<times> event list) \<Rightarrow> ReplicaRoot \<Rightarrow> StateError + ReplicaRoot" where
  "on_coll i f R =
     (case fstate (rfields R ! i) of
        FPrim p \<Rightarrow> malformed ''unsupported target'' []
      | FColl t \<Rightarrow> (case f t of Inl e \<Rightarrow> Inl e | Inr (t, es) \<Rightarrow> Inr (set_local i (FColl t) R)))"

definition rep_set_field :: "jsval list \<Rightarrow> ClassBinding \<Rightarrow> ReplicaRoot \<Rightarrow> StateError + ReplicaRoot" where
  "rep_set_field op b R =
     (case js_index (ctypes (bentry b)) (the_num (arg op 2)) of
        None \<Rightarrow> malformed ''field {} out of range'' [arg op 2]
      | Some type \<Rightarrow>
          let i = nat (the_int (arg op 2)); name = (case blocal b of None \<Rightarrow> None | Some l \<Rightarrow> l ! i)
          in if bnested b ! i then
               (if \<not> isWireRef (arg op 3) then malformed ''schema field needs a ref'' [] else ignoreValue (arg op 3) R)
             else case name of
                    None \<Rightarrow> Inr R
                  | Some j \<Rightarrow>
                      (case fstate (rfields R ! j) of
                         FColl t \<Rightarrow> Inr R
                       | FPrim p \<Rightarrow>
                           (case prim_applyWire (arg op 3) p of
                              None \<Rightarrow> malformed ''bad value for {} field {}'' [JStr type, JStr (fname (rfields R ! j))]
                            | Some (p, queued) \<Rightarrow> Inr (set_local j (FPrim p) R))))"

definition rep_set :: "jsval list \<Rightarrow> ReplicaRoot \<Rightarrow> StateError + ReplicaRoot" where
  "rep_set op R =
     (if length op \<noteq> 4 \<or> \<not> isInt (arg op 2) then malformed ''bad SET'' []
      else if dignored (rctx R) (the_int (arg op 1)) then ignoreValue (arg op 3) R
      else case drefs (rctx R) (the_int (arg op 1)) of
             None \<Rightarrow> unknownRef (arg op 1)
           | Some RRoot \<Rightarrow>
               (case dbinding (rctx R) of
                  None \<Rightarrow> malformed ''field {} out of range'' [arg op 2]
                | Some b \<Rightarrow> rep_set_field op b R)
           | Some (RField i) \<Rightarrow> on_coll i (coll_set op) R)"

definition rep_add :: "jsval list \<Rightarrow> ReplicaRoot \<Rightarrow> StateError + ReplicaRoot" where
  "rep_add op R =
     (let v = (if length op = 3 then arg op 2 else arg op 3)
      in if dignored (rctx R) (the_int (arg op 1)) then ignoreValue v R
         else case drefs (rctx R) (the_int (arg op 1)) of
                None \<Rightarrow> unknownRef (arg op 1)
              | Some RRoot \<Rightarrow> malformed ''ADD on a schema'' []
              | Some (RField i) \<Rightarrow> on_coll i (coll_add op) R)"

definition rep_remove :: "jsval list \<Rightarrow> ReplicaRoot \<Rightarrow> StateError + ReplicaRoot" where
  "rep_remove op R =
     (if length op \<noteq> 3 then malformed ''bad REMOVE'' []
      else if dignored (rctx R) (the_int (arg op 1)) then Inr R
      else case drefs (rctx R) (the_int (arg op 1)) of
             None \<Rightarrow> unknownRef (arg op 1)
           | Some RRoot \<Rightarrow> malformed ''REMOVE on a schema'' []
           | Some (RField i) \<Rightarrow> on_coll i (coll_remove op) R)"

definition rep_clear :: "jsval list \<Rightarrow> ReplicaRoot \<Rightarrow> StateError + ReplicaRoot" where
  "rep_clear op R =
     (if length op \<noteq> 2 then malformed ''bad CLEAR'' []
      else if dignored (rctx R) (the_int (arg op 1)) then Inr R
      else case drefs (rctx R) (the_int (arg op 1)) of
             None \<Rightarrow> unknownRef (arg op 1)
           | Some RRoot \<Rightarrow> malformed ''CLEAR on a schema'' []
           | Some (RField i) \<Rightarrow> on_coll i (coll_clear op) R)"

definition rep_apply :: "jsval list \<Rightarrow> ReplicaRoot \<Rightarrow> StateError option \<times> ReplicaRoot" where
  "rep_apply op R =
     (if \<not> isInt (arg op 0) \<or> \<not> isInt (arg op 1) then stay R (malformed ''op must start with [code, id]'' [])
      else if is_lit (arg op 0) 4 then rep_define op R
      else stay R
        (if is_lit (arg op 0) 0 then rep_set op R
         else if is_lit (arg op 0) 1 then rep_add op R
         else if is_lit (arg op 0) 2 then rep_remove op R
         else if is_lit (arg op 0) 3 then rep_clear op R
         else malformed ''unknown op code {}'' [arg op 0]))"

text \<open>\<open>applyDelta\<close>: ops before the failing one stay applied.\<close>

fun applyDelta :: "jsval list list \<Rightarrow> ReplicaRoot \<Rightarrow> StateError option \<times> ReplicaRoot" where
  "applyDelta [] R = (None, R)"
| "applyDelta (op # ops) R = (case rep_apply op R of (Some e, R) \<Rightarrow> (Some e, R) | (None, R) \<Rightarrow> applyDelta ops R)"

definition new_replica :: "jsstring \<Rightarrow> Field list \<Rightarrow> ReplicaRoot" where
  "new_replica name fs =
     \<lparr>rname = name, rfields = fs,
      rctx = \<lparr>drefs = Map.empty, dignored = (\<lambda>_. False), dclasses = Map.empty, dbinding = None, rootBound = False\<rparr>\<rparr>"

end
