(* ===== verification/FlatFields.thy ===== *)
theory FlatFields
  imports FlatState
begin

text \<open>
  One field and one replica of it: what the ops of a tick, of a snapshot, of a reveal and of a hide do
  to the replica of a field. A field is \<open>live\<close> if its change record leads some replica to it; the
  replica of a client that sees the field is such a one, that of the others is blank.
\<close>

section \<open>Shapes of ops\<close>

text \<open>The ops on a collection with refId \<open>ref\<close> whose values are primitives.\<close>

definition coll_shape :: "nat \<Rightarrow> jsval list \<Rightarrow> bool" where
  "coll_shape ref op =
     ((\<exists>k w. op = [nat_val 0, nat_val ref, nat_val k, w] \<and> is_primitive w)
      \<or> (\<exists>k w. op = [nat_val 1, nat_val ref, k, w] \<and> is_primitive w)
      \<or> (\<exists>w. op = [nat_val 1, nat_val ref, w] \<and> is_primitive w)
      \<or> (\<exists>k. op = [nat_val 2, nat_val ref, k])
      \<or> op = [nat_val 3, nat_val ref])"

lemma attach_shape: "op \<in> set (attach f w) \<Longrightarrow> op = f w \<and> is_primitive w"
  by (auto simp: attach_def split: if_splits)

lemma content_shape: "op \<in> set (coll_content ref t) \<Longrightarrow> coll_shape ref op"
  by (cases t) (auto simp: map_content_def set_content_def array_content_def coll_shape_def dest!: attach_shape)

lemma array_op_shape: "op \<in> set (array_op ref c x) \<Longrightarrow> coll_shape ref op"
  by (cases x) (auto simp: array_op_def coll_shape_def dest!: attach_shape)

lemma ops_shape: "op \<in> set (coll_ops ref t) \<Longrightarrow> coll_shape ref op"
proof (cases t)
  case (TMap m)
  assume "op \<in> set (coll_ops ref t)"
  then show ?thesis using TMap content_shape [of op ref t]
    by (auto simp: map_ops_def map_key_ops_def coll_shape_def Let_def dest!: attach_shape split: if_splits option.splits)
next
  case (TSet s)
  assume "op \<in> set (coll_ops ref t)"
  then show ?thesis using TSet content_shape [of op ref t]
    by (auto simp: set_ops_def set_key_ops_def coll_shape_def dest!: attach_shape split: if_splits option.splits)
next
  case (TArray a)
  assume "op \<in> set (coll_ops ref t)"
  then show ?thesis using TArray array_op_shape by (auto simp: array_ops_def split: option.splits)
qed

section \<open>Agreement\<close>

text \<open>Equality of \<open>===\<close>, and of NaN with itself: a snapshot sends no zero, so a negative zero arrives as zero.\<close>

fun agrees :: "jsval \<Rightarrow> jsval \<Rightarrow> bool" where
  "agrees (JNum a) (JNum b) = (a = b \<or> num_eq a b)"
| "agrees u v = (u = v)"

lemma agrees_refl [simp]: "agrees v v"
  by (cases v) simp_all

fun same_kind :: "FieldState \<Rightarrow> FieldState \<Rightarrow> bool" where
  "same_kind (FPrim p) (FPrim q) = (pkind q = pkind p)"
| "same_kind (FColl (TMap m)) (FColl (TMap n)) = (mkey n = mkey m \<and> mval n = mval m)"
| "same_kind (FColl (TSet s)) (FColl (TSet u)) = (scodec u = scodec s)"
| "same_kind (FColl (TArray a)) (FColl (TArray b)) = (acodec b = acodec a)"
| "same_kind _ _ = False"

lemma same_kind_type: "same_kind x y \<Longrightarrow> state_type y = state_type x \<and> is_coll y = is_coll x"
  by (cases "(x, y)" rule: same_kind.cases) auto

fun coll_synced :: "target \<Rightarrow> target \<Rightarrow> bool" where
  "coll_synced (TMap m) u = map_synced m u"
| "coll_synced (TSet s) u = set_synced s u"
| "coll_synced (TArray a) u = array_synced a u"

fun coll_pending :: "target \<Rightarrow> target \<Rightarrow> bool" where
  "coll_pending u (TMap m) = map_pending u m"
| "coll_pending u (TSet s) = set_pending u s"
| "coll_pending u (TArray a) = array_pending u a"

text \<open>A replica in step with a field, and one the change record leads to it.\<close>

fun mirrors :: "FieldState \<Rightarrow> FieldState \<Rightarrow> bool" where
  "mirrors (FPrim p) (FPrim q) =
     (pkind q = pkind p \<and> prim_typed (pkind p) (pval p) \<and> agrees (pval q) (prim.seen (pkind p) (pval p)))"
| "mirrors (FColl t) (FColl u) = coll_synced t u"
| "mirrors _ _ = False"

fun pends :: "FieldState \<Rightarrow> bool \<Rightarrow> FieldState \<Rightarrow> bool" where
  "pends (FPrim q) changed (FPrim p) =
     (pkind q = pkind p \<and> prim_typed (pkind p) (pval p) \<and> (\<not> changed \<longrightarrow> agrees (pval q) (prim.seen (pkind p) (pval p))))"
| "pends (FColl u) changed (FColl t) = coll_pending u t"
| "pends _ _ _ = False"

fun blank :: "FieldState \<Rightarrow> bool" where
  "blank (FPrim q) = (prim_decode (pkind q) (zeroWire (pkind q)) = Some (pval q))"
| "blank (FColl (TMap m)) = (mmap m = [])"
| "blank (FColl (TSet s)) = (sset s = [])"
| "blank (FColl (TArray a)) = (aitems a = [])"

definition live :: "FieldState \<Rightarrow> bool \<Rightarrow> bool" where
  "live x changed = (\<exists>y. pends y changed x)"

text \<open>Edits that keep the field's type.\<close>

fun edit_legal :: "FieldState \<Rightarrow> FieldEdit \<Rightarrow> bool" where
  "edit_legal (FPrim p) (EPrim v) = prim_typed (pkind p) v"
| "edit_legal (FColl (TMap m)) (EMap e) = map_legal m e"
| "edit_legal (FColl (TSet s)) (ESet e) = set_legal s e"
| "edit_legal (FColl (TArray a)) (EArray e) = array_legal a e"
| "edit_legal _ _ = False"

text \<open>What a tick sends of a field to a client that sees it, and the field after the commit.\<close>

fun field_ops :: "nat \<Rightarrow> nat \<Rightarrow> bool \<Rightarrow> FieldState \<Rightarrow> jsval list list" where
  "field_ops i ref changed (FPrim p) = (if changed then [[nat_val 0, nat_val 0, nat_val i, prim_toWire p]] else [])"
| "field_ops i ref changed (FColl t) = (if coll_dirty t then coll_ops ref t else [])"

fun field_full :: "nat \<Rightarrow> nat \<Rightarrow> FieldState \<Rightarrow> jsval list list" where
  "field_full i ref (FPrim p) = [[nat_val 0, nat_val 0, nat_val i, prim_toWire p]]"
| "field_full i ref (FColl t) = coll_content ref t"

fun field_hide :: "nat \<Rightarrow> nat \<Rightarrow> FieldState \<Rightarrow> jsval list list" where
  "field_hide i ref (FPrim p) = [[nat_val 0, nat_val 0, nat_val i, zeroWire (pkind p)]]"
| "field_hide i ref (FColl t) = [[nat_val 3, nat_val ref]]"

fun field_commit :: "FieldState \<Rightarrow> FieldState" where
  "field_commit (FPrim p) = FPrim p"
| "field_commit (FColl t) = FColl (if coll_dirty t then coll_commit t else t)"

text \<open>The ops of a field on a replica of it.\<close>

definition field_applies :: "nat \<Rightarrow> nat \<Rightarrow> jsval list list \<Rightarrow> FieldState \<Rightarrow> FieldState \<Rightarrow> bool" where
  "field_applies i ref ops y y' =
     ((\<exists>q q' w b. y = FPrim q \<and> y' = FPrim q' \<and> ops = [[nat_val 0, nat_val 0, nat_val i, w]] \<and> \<not> isWireRef w \<and> prim_applyWire w q = Some (q', b))
      \<or> (\<exists>u u'. y = FColl u \<and> y' = FColl u' \<and> (\<forall>op \<in> set ops. coll_shape ref op) \<and> applies ops u u')
      \<or> ops = [] \<and> y' = y)"

lemma field_applies_Nil: "field_applies i ref [] y y"
  by (simp add: field_applies_def)

section \<open>Delivery\<close>

lemma not_ref: "is_primitive w \<Longrightarrow> \<not> isWireRef w"
  by (cases w) simp_all

lemma applyWire_full:
  assumes "prim_typed (pkind p) (pval p)" "pkind q = pkind p"
  shows "\<exists>q' b. prim_applyWire (prim_toWire p) q = Some (q', b) \<and> pkind q' = pkind p \<and> pval q' = prim.seen (pkind p) (pval p)"
  using prim.dec_enc [OF assms(1)] assms(2) by (auto simp: prim_applyWire_def prim_toWire_def)

lemma tick_delivers:
  assumes "pends y changed x"
  shows "\<exists>y'. field_applies i ref (field_ops i ref changed x) y y' \<and> mirrors (field_commit x) y'"
proof (cases x)
  case (FPrim p)
  then obtain q where y: "y = FPrim q" "pkind q = pkind p" "prim_typed (pkind p) (pval p)"
    "\<not> changed \<longrightarrow> agrees (pval q) (prim.seen (pkind p) (pval p))" using assms by (cases y) auto
  show ?thesis
  proof (cases changed)
    case True
    obtain q' b where "prim_applyWire (prim_toWire p) q = Some (q', b)" "pkind q' = pkind p" "pval q' = prim.seen (pkind p) (pval p)"
      using applyWire_full [OF y(3,2)] by blast
    moreover have "\<not> isWireRef (prim_toWire p)" using prim.on_wire [OF y(3)] by (simp add: not_ref prim_toWire_def)
    ultimately show ?thesis using True FPrim y by (intro exI [of _ "FPrim q'"]) (auto simp: field_applies_def)
  qed (use FPrim y in \<open>auto intro!: exI [of _ y] field_applies_Nil\<close>)
next
  case (FColl t)
  then obtain u where y: "y = FColl u" "coll_pending u t" using assms by (cases y) auto
  have "\<exists>u'. applies (if coll_dirty t then coll_ops ref t else []) u u' \<and> coll_synced (if coll_dirty t then coll_commit t else t) u'"
  proof (cases t)
    case (TMap m)
    then show ?thesis using map.deliver [of u m ref] y(2) by (auto simp: map_tick_ops_def map_commit_def split: if_splits)
  next
    case (TSet s)
    then show ?thesis using set.deliver [of u s ref] y(2) by (auto simp: set_tick_ops_def set_commit_def split: if_splits)
  next
    case (TArray a)
    then show ?thesis using array.deliver [of u a ref] y(2) by (auto simp: array_tick_ops_def array_commit_def split: if_splits)
  qed
  then obtain u' where "applies (if coll_dirty t then coll_ops ref t else []) u u'" "coll_synced (if coll_dirty t then coll_commit t else t) u'" by blast
  then show ?thesis using FColl y ops_shape by (intro exI [of _ "FColl u'"]) (auto simp: field_applies_def)
qed

text \<open>A field that is live is typed and tracked, and its change record is empty unless it is dirty.\<close>

lemma live_prim: "live (FPrim p) changed \<Longrightarrow> prim_typed (pkind p) (pval p)"
  unfolding live_def by (elim exE, rename_tac y, case_tac y) auto

lemma live_coll: "live (FColl t) changed \<Longrightarrow> \<exists>u. coll_pending u t"
  unfolding live_def by (elim exE, rename_tac y, case_tac y) auto

lemma full_fills:
  assumes "live x changed" "blank y" "same_kind x y"
  shows "\<exists>y'. field_applies i ref (field_full i ref x) y y' \<and> mirrors (field_commit x) y'"
proof (cases x)
  case (FPrim p)
  obtain q where y: "y = FPrim q" "pkind q = pkind p" using assms(3) FPrim by (cases y) auto
  have t: "prim_typed (pkind p) (pval p)" using assms(1) FPrim live_prim by blast
  obtain q' b where "prim_applyWire (prim_toWire p) q = Some (q', b)" "pkind q' = pkind p" "pval q' = prim.seen (pkind p) (pval p)"
    using applyWire_full [OF t y(2)] by blast
  moreover have "\<not> isWireRef (prim_toWire p)" using prim.on_wire [OF t] by (simp add: not_ref prim_toWire_def)
  ultimately show ?thesis using FPrim y t by (intro exI [of _ "FPrim q'"]) (auto simp: field_applies_def)
next
  case (FColl t)
  obtain u where y: "y = FColl u" using assms(3) FColl by (cases y; cases t) auto
  obtain v where v: "coll_pending v t" using assms(1) FColl live_coll by blast
  have "\<exists>u'. applies (coll_content ref t) u u' \<and> coll_synced (if coll_dirty t then coll_commit t else t) u'"
  proof (cases t)
    case (TMap m)
    obtain n where u: "u = TMap n" "mkey n = mkey m" "mval n = mval m" "mmap n = []" using assms(2,3) FColl y TMap by (cases u) auto
    obtain base where b: "map_inv base m" using v TMap by (cases v) auto
    then have ty: "map_typed m" by (simp add: map_inv_def map_core_def)
    obtain xs where x: "applies (map_content ref m) u (TMap (n\<lparr>mmap := xs\<rparr>))" "\<forall>k. map_of xs k = map_seen m k"
      using map_content_applies [OF ty u(2,3,4)] u(1) by blast
    have "map_synced (map_commit m) (TMap (n\<lparr>mmap := xs\<rparr>))" by (rule map_commit_synced [OF b]) (use u x in simp_all)
    then show ?thesis using x(1) TMap by (auto simp: map_commit_def split: if_splits)
  next
    case (TSet s)
    obtain n where u: "u = TSet n" "scodec n = scodec s" "sset n = []" using assms(2,3) FColl y TSet by (cases u) auto
    obtain base where b: "set_inv base s" using v TSet by (cases v) auto
    then have ty: "set_typed s" by (simp add: set_inv_def set_core_def)
    obtain xs where x: "applies (set_content ref s) u (TSet (n\<lparr>sset := xs\<rparr>))" "set xs = set (sset s)"
      using set_content_applies [OF ty u(2,3)] u(1) by blast
    have "set_synced (set_commit s) (TSet (n\<lparr>sset := xs\<rparr>))"
      using b u x(2) by (auto simp: set_commit_def set_clearChanges_def set_inv_def set_core_def set_typed_def stouched_of_def)
    then show ?thesis using x(1) TSet by (auto simp: set_commit_def split: if_splits)
  next
    case (TArray a)
    obtain n where u: "u = TArray n" "acodec n = acodec a" "aitems n = []" using assms(2,3) FColl y TArray by (cases u) auto
    obtain base where b: "array_inv base a" using v TArray by (cases v) auto
    then have ty: "array_typed a" by (simp add: array_inv_def)
    have x: "applies (array_content ref a) u (TArray (n\<lparr>aitems := array_seen a\<rparr>))"
      using array_content_applies [OF ty u(2,3)] u(1) by blast
    have "array_synced (array_commit a) (TArray (n\<lparr>aitems := array_seen a\<rparr>))"
      using b u by (auto simp: array_inv_def array_rep_def array_commit_def array_clearChanges_def log_of_def array_typed_def)
    then show ?thesis using x TArray by (auto simp: array_commit_def split: if_splits)
  qed
  then obtain u' where "applies (coll_content ref t) u u'" "coll_synced (if coll_dirty t then coll_commit t else t) u'" by blast
  then show ?thesis using FColl y content_shape by (intro exI [of _ "FColl u'"]) (auto simp: field_applies_def)
qed

lemma int_range_zero: "fst (INT_RANGE k) \<le> 0 \<and> 0 \<le> snd (INT_RANGE k)"
  by (cases k) simp_all

lemma num_eq_zero: "num_eq n (JFin 0) \<longleftrightarrow> n = JFin 0 \<or> n = JNegZero"
proof (cases n)
  case (JInf b)
  then show ?thesis by (cases b) (auto simp: num_eq_def)
qed (auto simp: num_eq_def)

lemma zero_decodes: "prim_typed k v \<Longrightarrow> prim_decode k (zeroWire k) \<noteq> None \<and> \<not> isWireRef (zeroWire k)"
  by (cases k) (auto simp: isIntOf.simps int_range_zero)

lemma hide_blanks:
  assumes "pends y changed x"
  shows "\<exists>y'. field_applies i ref (field_hide i ref x) y y' \<and> blank y' \<and> same_kind x y'"
proof (cases x)
  case (FPrim p)
  then obtain q where y: "y = FPrim q" "pkind q = pkind p" "prim_typed (pkind p) (pval p)" using assms by (cases y) auto
  obtain z where z: "prim_decode (pkind p) (zeroWire (pkind p)) = Some z" "\<not> isWireRef (zeroWire (pkind p))"
    using zero_decodes [OF y(3)] by auto
  show ?thesis using FPrim y z
    by (intro exI [of _ "FPrim (if pval q = z then q else q\<lparr>pval := z\<rparr>)"]) (auto simp: field_applies_def prim_applyWire_def)
next
  case (FColl t)
  then obtain u where y: "y = FColl u" "coll_pending u t" using assms by (cases y) auto
  have sh: "coll_shape ref [nat_val 3, nat_val ref]" by (simp add: coll_shape_def)
  have "\<exists>u'. applies [[nat_val 3, nat_val ref]] u u' \<and> blank (FColl u') \<and> same_kind (FColl t) (FColl u')"
  proof (cases u)
    case (TMap m)
    then show ?thesis using map_clear_applies [of ref m] y(2) by (cases t) auto
  next
    case (TSet s)
    then show ?thesis using set_clear_applies [of ref s] y(2) by (cases t) auto
  next
    case (TArray a)
    then have "applies [[nat_val 3, nat_val ref]] u (TArray (a\<lparr>aitems := []\<rparr>))"
      by (auto simp: apply_simps array_rClear_def intro!: applies_one)
    then show ?thesis using TArray y(2) by (cases t) auto
  qed
  then obtain u' where "applies [[nat_val 3, nat_val ref]] u u'" "blank (FColl u')" "same_kind (FColl t) (FColl u')" by blast
  then show ?thesis using FColl y sh by (intro exI [of _ "FColl u'"]) (auto simp: field_applies_def)
qed

text \<open>A field whose wire value is a zero is not part of a snapshot: the receiver starts from zero.\<close>

lemma fround_zero: "fround (JFin 0) = JFin 0" "fround JNegZero = JNegZero"
  by (simp_all add: fround_def round_num_def)

lemma fromFixed_zero: "fromFixed (JFin 0) d = JFin 0" "fromFixed JNegZero d = JNegZero"
  by (simp_all add: fromFixed_def num_div_def SCALE_def Let_def signed_zero_def)

lemma zero_agrees:
  assumes "prim_typed k v" "isZeroWire (prim_encode k v)" "prim_decode k (zeroWire k) = Some z"
  shows "agrees z (prim.seen k v)"
proof -
  obtain s where s: "prim_decode k (prim_encode k v) = Some s" "s = prim.seen k v" using prim.dec_enc [OF assms(1)] by blast
  have "num_eq (JFin 0) JNegZero" by (simp add: num_eq_def)
  then have "agrees z s" using s(1) assms
    by (cases k; cases "prim_encode k v") (auto simp: num_eq_zero fround_zero fromFixed_zero split: if_splits)
  then show ?thesis using s(2) by simp
qed

section \<open>Edits\<close>

lemma mirrors_pends: "mirrors x y \<Longrightarrow> pends y False x"
proof (cases x; cases y)
  fix t u
  assume "x = FColl t" "y = FColl u" "mirrors x y"
  then show ?thesis
    using map.pending_start set.pending_start array.pending_start by (cases t) auto
qed auto

lemma pends_kind: "pends y changed x \<Longrightarrow> same_kind x y"
proof (cases x; cases y)
  fix t u
  assume "x = FColl t" "y = FColl u" "pends y changed x"
  then show ?thesis by (cases t; cases u) auto
qed auto

lemma pends_mono: "pends y changed x \<Longrightarrow> pends y True x"
  by (cases x; cases y) auto

text \<open>The field after an edit, and whether it was marked changed; \<open>on\<close> says that the owner has a refId.\<close>

fun edited :: "bool \<Rightarrow> FieldEdit \<Rightarrow> FieldState \<Rightarrow> FieldState \<times> bool" where
  "edited on (EPrim v) (FPrim p) = (case prim_set on v p of (p, changed) \<Rightarrow> (FPrim p, changed))"
| "edited on e (FPrim p) = (FPrim p, False)"
| "edited on e (FColl t) = (FColl (coll_edit e t), False)"

lemma coll_edit_pends:
  "coll_pending u t \<Longrightarrow> edit_legal (FColl t) e \<Longrightarrow> coll_pending u (coll_edit e t)"
  using map.pending_step set.pending_step array.pending_step by (cases t; cases e) auto

lemma edit_pends:
  assumes "pends y changed x" "edit_legal x e" "edited True e x = (x', c)"
  shows "pends y (changed \<or> c) x'"
proof (cases x)
  case (FPrim p)
  then obtain v where e: "e = EPrim v" "prim_typed (pkind p) v" using assms(2) by (cases e) auto
  obtain q where y: "y = FPrim q" using assms(1) FPrim by (cases y) auto
  have "prim.seen (pkind p) v = prim.seen (pkind p) (pval p)" if "prim_encode (pkind p) (pval p) = prim_encode (pkind p) v"
    using that by (simp add: prim.seen_def)
  then show ?thesis using assms(1,3) FPrim e y by (auto simp: prim_set_def split: if_splits)
next
  case (FColl t)
  obtain u where y: "y = FColl u" using assms(1) FColl by (cases y) auto
  then have "pends y changed (FColl (coll_edit e t))" using assms(1,2) FColl coll_edit_pends by simp
  then show ?thesis using assms(3) FColl y by auto
qed

lemma edit_live:
  assumes "live x changed" "edit_legal x e" "edited True e x = (x', c)"
  shows "live x' (changed \<or> c)"
  using edit_pends [OF _ assms(2,3)] assms(1) unfolding live_def by blast

lemma map_edit_codecs [simp]: "mkey (map_edit e m) = mkey m" "mval (map_edit e m) = mval m"
  by (cases e; simp add: map_set_def map_delete_def map_clear_def map_markDirty_def Let_def)+

lemma set_edit_codec [simp]: "scodec (set_edit e s) = scodec s"
  by (cases e) (simp_all add: set_add_def set_delete_def set_clear_def set_markDirty_def Let_def)

section \<open>Before the first snapshot\<close>

text \<open>
  A root without a refId records nothing. Its arrays go through the same contents as tracked ones
  would: \<open>twin a b\<close> says that \<open>a\<close> is untracked and holds what \<open>b\<close> does.
\<close>

definition twin :: "ArrayBase \<Rightarrow> ArrayBase \<Rightarrow> bool" where
  "twin a b = (aitems b = aitems a \<and> acodec b = acodec a \<and> \<not> atracking a \<and> aops a = None \<and> \<not> adirty a)"

lemma twin_log: "twin a b \<Longrightarrow> twin (array_log op a) (array_log op b)"
  by (simp add: twin_def array_log_def array_markDirty_def)

lemma twin_items: "twin a b \<Longrightarrow> twin (a\<lparr>aitems := xs\<rparr>) (b\<lparr>aitems := xs\<rparr>)"
  by (simp add: twin_def)

lemma twin_D: "twin a b \<Longrightarrow> aitems b = aitems a \<and> acodec b = acodec a"
  by (simp add: twin_def)

lemma twin_set: "twin a b \<Longrightarrow> twin (fst (snd (array_set i v a))) (fst (snd (array_set i v b)))"
  using twin_D [of a b] by (simp add: array_set_def Let_def array_sameWire_def twin_items twin_log)

lemma twin_insert: "twin a b \<Longrightarrow> twin (fst (array_insert i v a)) (fst (array_insert i v b))"
  using twin_D [of a b] by (simp add: array_insert_def twin_items twin_log)

lemma twin_removeAt: "twin a b \<Longrightarrow> twin (fst (snd (array_removeAt i a))) (fst (snd (array_removeAt i b)))"
  using twin_D [of a b] by (simp add: array_removeAt_def Let_def twin_items twin_log)

lemma twin_insert_all: "twin a b \<Longrightarrow> twin (fst (array_insert_all i vs a)) (fst (array_insert_all i vs b))"
proof (induction vs arbitrary: i a b)
  case (Cons v vs)
  then show ?case using Cons.IH [OF twin_insert [OF Cons.prems, of i v]] by (simp add: case_prod_beta)
qed simp

lemma twin_remove_n: "twin a b \<Longrightarrow> twin (fst (snd (array_remove_n n i a))) (fst (snd (array_remove_n n i b)))"
proof (induction n arbitrary: a b)
  case (Suc n)
  then show ?case using Suc.IH [OF twin_removeAt [OF Suc.prems, of i]] by (simp add: case_prod_beta)
qed simp

lemma twin_permute: "twin a b \<Longrightarrow> twin (fst (permute_log i olds a)) (fst (permute_log i olds b))"
proof (induction olds arbitrary: i a b)
  case (Cons old olds)
  show ?case
    using twin_D [OF Cons.prems] Cons.IH [OF Cons.prems] Cons.IH [OF twin_log [OF Cons.prems]]
    by (simp add: Let_def array_sameWire_def case_prod_beta)
qed simp

lemma twin_fill: "twin a b \<Longrightarrow> twin (fst (fill_loop is v a)) (fst (fill_loop is v b))"
proof (induction "is" arbitrary: a b)
  case (Cons i "is")
  then show ?case using Cons.IH [OF twin_set [OF Cons.prems, of "num_of_int (int i)" v]] by (simp add: case_prod_beta)
qed simp

lemma twin_edit: "twin a b \<Longrightarrow> twin (array_edit e a) (array_edit e b)"
proof (cases e)
  case (ASplice i n vs)
  assume t: "twin a b"
  show ?thesis
    using twin_insert_all [OF twin_remove_n [OF t]] twin_D [OF t] ASplice by (simp add: array_splice_def Let_def case_prod_beta)
next
  case AEmpty
  assume "twin a b"
  then show ?thesis using AEmpty by (simp add: twin_def array_clear_def array_markDirty_def Let_def)
next
  case (APermute f)
  assume t: "twin a b"
  show ?thesis using twin_permute [OF twin_items [OF t]] twin_D [OF t] APermute by (simp add: array_permute_def)
qed (simp_all add: twin_set twin_insert_all twin_removeAt twin_fill twin_D array_push_def array_unshift_def array_pop_def
    array_shift_def array_fill_def Let_def)

text \<open>A field of a root without a refId: typed, and with an empty change record.\<close>

fun idle :: "FieldState \<Rightarrow> bool" where
  "idle (FPrim p) = prim_typed (pkind p) (pval p)"
| "idle (FColl (TMap m)) = (map_typed m \<and> \<not> mtracking m \<and> \<not> mdirty m \<and> \<not> mcleared m \<and> mtouched m = None)"
| "idle (FColl (TSet s)) = (set_typed s \<and> \<not> stracking s \<and> \<not> sdirty s \<and> \<not> scleared s \<and> stouched s = None)"
| "idle (FColl (TArray a)) = (array_typed a \<and> \<not> atracking a \<and> \<not> adirty a \<and> aops a = None)"

fun track :: "FieldState \<Rightarrow> FieldState" where
  "track (FPrim p) = FPrim p"
| "track (FColl t) = FColl (coll_track t)"

lemma idle_array_edit:
  assumes "idle (FColl (TArray a))" "array_legal a e"
  shows "idle (FColl (TArray (array_edit e a)))" "acodec (array_edit e a) = acodec a"
proof -
  let ?b = "a\<lparr>atracking := True\<rparr>"
  have t: "twin a ?b" using assms(1) by (simp add: twin_def)
  have "array_inv (array_seen a) ?b" using assms(1) by (simp add: array_inv_def array_rep_def log_of_def array_typed_def)
  moreover have "array_legal ?b e" using assms(2) by (cases e) auto
  ultimately have "array_inv (array_seen a) (array_edit e ?b) \<and> acodec (array_edit e ?b) = acodec ?b" by (rule array_edit_inv)
  then show "idle (FColl (TArray (array_edit e a)))" "acodec (array_edit e a) = acodec a"
    using twin_edit [OF t, of e] by (auto simp: twin_def array_inv_def array_typed_def)
qed

lemma idle_map_edit:
  assumes "idle (FColl (TMap m))" "map_legal m e"
  shows "idle (FColl (TMap (map_edit e m)))"
proof -
  have r: "map_record k m = m" for k using assms(1) by (simp add: map_record_def)
  show ?thesis
  proof (cases e)
    case (MSet k v)
    then have "map_typed (m\<lparr>mmap := AList.update (map_key k) v (mmap m)\<rparr>)"
      using assms map_typed_update [of m k v] by (simp add: map_key_typed map_typed_def)
    then show ?thesis using assms MSet r by (simp add: map_set_def map_markDirty_def Let_def)
  next
    case (MDelete k)
    then show ?thesis using assms r map_typed_delete [of m "map_key k"] by (simp add: map_delete_def map_markDirty_def Let_def)
  next
    case MEmpty
    then show ?thesis using assms by (simp add: map_clear_def map_markDirty_def Let_def map_typed_def)
  qed
qed

lemma idle_set_edit:
  assumes "idle (FColl (TSet s))" "set_legal s e"
  shows "idle (FColl (TSet (set_edit e s)))"
proof -
  have r: "set_record v s = s" for v using assms(1) by (simp add: set_record_def)
  show ?thesis
    using assms r by (cases e) (auto simp: set_add_def set_delete_def set_clear_def set_markDirty_def Let_def set_typed_def set_has_def
        elem_ok_def list_all_iff map_key_typed)
qed

lemma idle_edit:
  assumes "idle x" "edit_legal x e" "edited False e x = (x', c)"
  shows "idle x'" "\<not> c" "state_type x' = state_type x" "is_coll x' = is_coll x"
proof -
  have "idle x' \<and> \<not> c \<and> state_type x' = state_type x \<and> is_coll x' = is_coll x"
  proof (cases x)
    case (FPrim p)
    then show ?thesis using assms by (cases e) (auto simp: prim_set_def split: if_splits)
  next
    case (FColl t)
    then show ?thesis
      using assms idle_array_edit idle_map_edit idle_set_edit by (cases t; cases e) auto
  qed
  then show "idle x'" "\<not> c" "state_type x' = state_type x" "is_coll x' = is_coll x" by blast+
qed

lemma idle_track:
  assumes "idle x"
  shows "live (track x) False" "\<not> is_coll x \<or> (\<exists>t. track x = FColl t \<and> \<not> coll_dirty t)"
    "state_type (track x) = state_type x" "is_coll (track x) = is_coll x"
proof -
  have "\<exists>y. pends y False (track x)"
  proof (cases x)
    case (FPrim p)
    then show ?thesis using assms by (intro exI [of _ "FPrim (p\<lparr>pval := prim.seen (pkind p) (pval p)\<rparr>)"]) simp
  next
    case (FColl t)
    show ?thesis
    proof (cases t)
      case (TMap m)
      let ?m = "m\<lparr>mtracking := True\<rparr>" and ?xs = "map (\<lambda>(k, v). (k, element.seen (mval m) v)) (mmap m)"
      have "map_typed m" using assms FColl TMap by simp
      then have "\<forall>u \<in> ran (mview m). codec_typed (mval m) u" using map_typed_get by (auto simp: ran_def)
      then have "map_inv (mview m) ?m" using assms FColl TMap by (auto simp: map_inv_def map_core_def map_typed_def touched_of_def)
      moreover have "map_of ?xs k = map_option (element.seen (mval m)) (mview m k)" for k by (simp add: map_of_map)
      ultimately show ?thesis using FColl TMap by (intro exI [of _ "FColl (TMap (m\<lparr>mmap := ?xs\<rparr>))"]) auto
    next
      case (TSet s)
      then have "set_inv (set (sset s)) (s\<lparr>stracking := True\<rparr>)"
        using assms FColl by (auto simp: set_inv_def set_core_def set_typed_def stouched_of_def)
      then show ?thesis using FColl TSet by (intro exI [of _ "FColl (TSet s)"]) simp
    next
      case (TArray a)
      then have "array_inv (array_seen a) (a\<lparr>atracking := True\<rparr>)"
        using assms FColl by (simp add: array_inv_def array_rep_def log_of_def array_typed_def)
      then show ?thesis using FColl TArray by (intro exI [of _ "FColl (TArray (a\<lparr>aitems := array_seen a\<rparr>))"]) simp
    qed
  qed
  then show "live (track x) False" by (simp add: live_def)
  show "\<not> is_coll x \<or> (\<exists>t. track x = FColl t \<and> \<not> coll_dirty t)" "state_type (track x) = state_type x" "is_coll (track x) = is_coll x"
    using assms by (cases x rule: idle.cases; simp)+
qed

end
