(* ===== verification/FlatReplica.thy ===== *)
theory FlatReplica
  imports FlatFields
begin

text \<open>
  The receiver as a list of fields. A bound replica leads the ops of each of the server's fields to its
  own field of that name, or ignores them if it has none; so a frame whose ops come in runs, one per
  field, acts on each field alone.
\<close>

section \<open>Where ops go\<close>

abbreviation state_at :: "Instance \<Rightarrow> nat \<Rightarrow> FieldState" where
  "state_at r i \<equiv> fstate (ifields r ! i)"

abbreviation local_at :: "ReplicaRoot \<Rightarrow> nat \<Rightarrow> FieldState" where
  "local_at R j \<equiv> fstate (rfields R ! j)"

text \<open>The receiver's field for the server's field \<open>i\<close>.\<close>

definition loc :: "Instance \<Rightarrow> ReplicaRoot \<Rightarrow> nat \<Rightarrow> nat option" where
  "loc r R i = field_index (fname (ifields r ! i)) (rfields R)"

definition bound :: "Instance \<Rightarrow> ReplicaRoot \<Rightarrow> bool" where
  "bound r R =
     (drefs (rctx R) 0 = Some RRoot \<and> \<not> dignored (rctx R) 0
      \<and> (\<exists>b. dbinding (rctx R) = Some b \<and> ctypes (bentry b) = map (state_type \<circ> fstate) (ifields r)
           \<and> blocal b = Some (map (loc r R) [0..<length (ifields r)]) \<and> bnested b = replicate (length (ifields r)) False)
      \<and> (\<forall>i < length (ifields r). is_coll (state_at r i) \<longrightarrow>
           (case loc r R i of
              None \<Rightarrow> dignored (rctx R) (int (coll_ref r i))
            | Some j \<Rightarrow> drefs (rctx R) (int (coll_ref r i)) = Some (RField j) \<and> \<not> dignored (rctx R) (int (coll_ref r i)))))"

lemma field_index_Some: "field_index name fs = Some j \<Longrightarrow> j < length fs \<and> fname (fs ! j) = name"
  by (auto simp: field_index_def find_Some_iff)

lemma loc_inj:
  assumes "distinct (map fname (ifields r))" "i < length (ifields r)" "k < length (ifields r)" "loc r R i = Some j" "loc r R k = Some j"
  shows "i = k"
  using assms field_index_Some [of _ "rfields R" j] unfolding loc_def by (metis length_map nth_eq_iff_index_eq nth_map)

lemma set_local_names: "fname (rfields (set_local j y R) ! k) = fname (rfields R ! k)" "length (rfields (set_local j y R)) = length (rfields R)"
  by (cases "j < length (rfields R)"; cases "k = j"; simp add: set_local_def list_update_beyond)+

lemma loc_set_local [simp]: "loc r (set_local j y R) = loc r R"
  by (rule ext) (simp add: loc_def field_index_def set_local_names)

lemma rctx_set_local [simp]: "rctx (set_local j y R) = rctx R"
  by (simp add: set_local_def)

lemma bound_set_local [simp]: "bound r (set_local j y R) = bound r R"
  by (simp add: bound_def cong: option.case_cong)

lemma local_set_local: "j < length (rfields R) \<Longrightarrow> local_at (set_local j y R) k = (if k = j then y else local_at R k)"
  by (simp add: set_local_def)

text \<open>A \<open>SET\<close> of the server's field \<open>i\<close>, a primitive.\<close>

lemma apply_set:
  assumes "bound r R" "i < length (ifields r)" "\<not> is_coll (state_at r i)" "\<not> isWireRef w"
  shows "loc r R i = None \<Longrightarrow> rep_apply [nat_val 0, nat_val 0, nat_val i, w] R = (None, R)"
    "loc r R i = Some j \<Longrightarrow> local_at R j = FPrim q \<Longrightarrow> prim_applyWire w q = Some (q', b) \<Longrightarrow>
     rep_apply [nat_val 0, nat_val 0, nat_val i, w] R = (None, set_local j (FPrim q') R)"
proof -
  obtain b where b: "dbinding (rctx R) = Some b" "ctypes (bentry b) = map (state_type \<circ> fstate) (ifields r)"
    "blocal b = Some (map (loc r R) [0..<length (ifields r)])" "bnested b = replicate (length (ifields r)) False"
    and d: "drefs (rctx R) 0 = Some RRoot" "\<not> dignored (rctx R) 0" using assms(1) unfolding bound_def by blast
  have ix: "js_index (ctypes (bentry b)) (num_of_int (int i)) = Some (state_type (state_at r i))"
    using assms(2) by (simp add: js_index_def b(2))
  show "loc r R i = None \<Longrightarrow> rep_apply [nat_val 0, nat_val 0, nat_val i, w] R = (None, R)"
    using b d ix assms(2) by (simp add: rep_apply_def is_lit_nat_val rep_set_def rep_set_field_def Let_def)
  show "loc r R i = Some j \<Longrightarrow> local_at R j = FPrim q \<Longrightarrow> prim_applyWire w q = Some (q', b') \<Longrightarrow>
     rep_apply [nat_val 0, nat_val 0, nat_val i, w] R = (None, set_local j (FPrim q') R)" for b'
    using b d ix assms(2) by (simp add: rep_apply_def is_lit_nat_val rep_set_def rep_set_field_def Let_def)
qed

text \<open>An op on the collection in the server's field \<open>i\<close>.\<close>

lemma apply_ignored:
  assumes "dignored (rctx R) (int ref)" "coll_shape ref op"
  shows "rep_apply op R = (None, R)"
  using assms(2) unfolding coll_shape_def
  by (elim disjE exE conjE)
    (simp_all add: assms(1) rep_apply_def is_lit_nat_val rep_set_def rep_add_def rep_remove_def rep_clear_def ignoreValue_def not_ref)

lemma apply_target:
  assumes "drefs (rctx R) (int ref) = Some (RField j)" "\<not> dignored (rctx R) (int ref)" "coll_shape ref op"
    "local_at R j = FColl u" "coll_apply op u = Inr (u', es)"
  shows "rep_apply op R = (None, set_local j (FColl u') R)"
  using assms(3,5) unfolding coll_shape_def
  by (elim disjE exE conjE)
    (simp_all add: assms(1,2,4) rep_apply_def is_lit_nat_val rep_set_def rep_add_def rep_remove_def rep_clear_def coll_apply_def on_coll_def)

lemma apply_coll:
  assumes "bound r R" "i < length (ifields r)" "is_coll (state_at r i)" "coll_shape (coll_ref r i) op"
  shows "loc r R i = None \<Longrightarrow> rep_apply op R = (None, R)"
    "loc r R i = Some j \<Longrightarrow> local_at R j = FColl u \<Longrightarrow> coll_apply op u = Inr (u', es) \<Longrightarrow> rep_apply op R = (None, set_local j (FColl u') R)"
proof -
  have b: "case loc r R i of None \<Rightarrow> dignored (rctx R) (int (coll_ref r i))
      | Some j \<Rightarrow> drefs (rctx R) (int (coll_ref r i)) = Some (RField j) \<and> \<not> dignored (rctx R) (int (coll_ref r i))"
    using assms(1-3) unfolding bound_def by blast
  show "loc r R i = None \<Longrightarrow> rep_apply op R = (None, R)"
    using b apply_ignored [OF _ assms(4)] by simp
  show "loc r R i = Some j \<Longrightarrow> local_at R j = FColl u \<Longrightarrow> coll_apply op u = Inr (u', es) \<Longrightarrow> rep_apply op R = (None, set_local j (FColl u') R)"
    using b apply_target [OF _ _ assms(4)] by simp
qed

section \<open>Runs of ops\<close>

lemma applyDelta_append:
  "applyDelta ops R = (None, R1) \<Longrightarrow> applyDelta (ops @ ops') R = applyDelta ops' R1"
  by (induction ops arbitrary: R) (auto split: prod.splits option.splits)

lemma set_local_twice: "set_local j y' (set_local j y R) = set_local j y' R"
proof (cases "j < length (rfields R)")
  case False
  then show ?thesis by (simp add: set_local_def list_update_beyond)
qed (simp add: set_local_def)

lemma set_local_same: "j < length (rfields R) \<Longrightarrow> set_local j (local_at R j) R = R"
  by (simp add: set_local_def list_update_same_conv)

lemma coll_run:
  assumes "bound r R" "i < length (ifields r)" "is_coll (state_at r i)" "loc r R i = Some j"
  shows "applies ops u u' \<Longrightarrow> \<forall>op \<in> set ops. coll_shape (coll_ref r i) op \<Longrightarrow> local_at R j = FColl u \<Longrightarrow>
    applyDelta ops R = (None, set_local j (FColl u') R)"
  using assms
proof (induction ops arbitrary: u R)
  case Nil
  have "j < length (rfields R)" using Nil.prems(7) field_index_Some unfolding loc_def by blast
  then show ?case using Nil set_local_same [of j R] by simp
next
  case (Cons op ops)
  have j: "j < length (rfields R)" using Cons.prems(7) field_index_Some unfolding loc_def by blast
  obtain u1 es es' where a: "coll_apply op u = Inr (u1, es)" "coll_apply_all ops u1 = (None, u', es')"
    using Cons.prems(1) by (auto simp: applies_def split: sum.splits prod.splits)
  have s: "rep_apply op R = (None, set_local j (FColl u1) R)"
    using apply_coll(2) [OF Cons.prems(4-6)] Cons.prems(2,3,7) a(1) by simp
  have "applyDelta ops (set_local j (FColl u1) R) = (None, set_local j (FColl u') (set_local j (FColl u1) R))"
    using Cons.prems a(2) j by (intro Cons.IH) (auto simp: applies_def local_set_local)
  then show ?case using s by (simp add: set_local_twice)
qed

text \<open>The ops of one field: what the receiver has of it goes where they lead, or nothing happens.\<close>

definition run_shape :: "Instance \<Rightarrow> nat \<Rightarrow> jsval list list \<Rightarrow> bool" where
  "run_shape r i ops =
     (i < length (ifields r) \<and>
      (if is_coll (state_at r i) then \<forall>op \<in> set ops. coll_shape (coll_ref r i) op
       else \<forall>op \<in> set ops. \<exists>w. op = [nat_val 0, nat_val 0, nat_val i, w] \<and> \<not> isWireRef w))"

lemma run_ignored:
  assumes "bound r R" "run_shape r i ops" "loc r R i = None"
  shows "applyDelta ops R = (None, R)"
  using assms
proof (induction ops)
  case (Cons op ops)
  have i: "i < length (ifields r)" using Cons.prems(2) by (simp add: run_shape_def)
  have "rep_apply op R = (None, R)"
  proof (cases "is_coll (state_at r i)")
    case True
    then show ?thesis using apply_coll(1) [OF Cons.prems(1) i True] Cons.prems(2,3) by (simp add: run_shape_def)
  next
    case False
    then show ?thesis using apply_set(1) [OF Cons.prems(1) i False] Cons.prems(2,3) by (auto simp: run_shape_def)
  qed
  moreover have "run_shape r i ops" using Cons.prems(2) by (auto simp: run_shape_def split: if_splits)
  ultimately show ?case using Cons.IH Cons.prems by simp
qed simp

lemma run_applies:
  assumes "bound r R" "run_shape r i ops" "loc r R i = Some j" "same_kind (state_at r i) (local_at R j)"
    "field_applies i (coll_ref r i) ops (local_at R j) y'"
  shows "applyDelta ops R = (None, set_local j y' R)"
proof -
  have i: "i < length (ifields r)" using assms(2) by (simp add: run_shape_def)
  have j: "j < length (rfields R)" using assms(3) field_index_Some unfolding loc_def by blast
  have k: "is_coll (local_at R j) = is_coll (state_at r i)" using same_kind_type [OF assms(4)] by simp
  from assms(5) consider
      (prim) q q' w b where "local_at R j = FPrim q" "y' = FPrim q'" "ops = [[nat_val 0, nat_val 0, nat_val i, w]]"
        "\<not> isWireRef w" "prim_applyWire w q = Some (q', b)"
    | (coll) u u' where "local_at R j = FColl u" "y' = FColl u'" "\<forall>op \<in> set ops. coll_shape (coll_ref r i) op" "applies ops u u'"
    | (none) "ops = []" "y' = local_at R j"
    unfolding field_applies_def by blast
  then show ?thesis
  proof cases
    case prim
    then show ?thesis using apply_set(2) [OF assms(1) i _ prim(4) assms(3) prim(1,5)] k by simp
  next
    case coll
    then show ?thesis using coll_run [OF assms(1) i _ assms(3)] k by simp
  next
    case none
    then show ?thesis using set_local_same [OF j] by simp
  qed
qed

text \<open>
  A frame of runs of distinct fields. \<open>goal i y'\<close> is what the run of field \<open>i\<close> is to make of the
  receiver's field.
\<close>

lemma frame_applies:
  assumes names: "distinct (map fname (ifields r))"
    and "distinct (map fst segs)" "\<forall>(i, ops) \<in> set segs. run_shape r i ops" "bound r R"
    and "\<forall>(i, ops) \<in> set segs. \<forall>j. loc r R i = Some j \<longrightarrow> same_kind (state_at r i) (local_at R j)
      \<and> (\<exists>y'. field_applies i (coll_ref r i) ops (local_at R j) y' \<and> goal i y')"
  shows "\<exists>R'. applyDelta (concat (map snd segs)) R = (None, R') \<and> bound r R' \<and> loc r R' = loc r R
    \<and> (\<forall>i < length (ifields r). \<forall>j. loc r R i = Some j \<longrightarrow>
         (if i \<in> fst ` set segs then goal i (local_at R' j) else local_at R' j = local_at R j))"
  using assms(2-5)
proof (induction segs arbitrary: R)
  case (Cons seg segs)
  obtain i ops where s: "seg = (i, ops)" by fastforce
  have sh: "run_shape r i ops" and i: "i < length (ifields r)" using Cons.prems(2) s by (auto simp: run_shape_def)
  have fresh: "i \<notin> fst ` set segs" using Cons.prems(1) s by auto
  obtain R1 where R1: "applyDelta ops R = (None, R1)" "bound r R1" "loc r R1 = loc r R"
    "\<And>k j. k < length (ifields r) \<Longrightarrow> k \<noteq> i \<Longrightarrow> loc r R k = Some j \<Longrightarrow> local_at R1 j = local_at R j"
    "\<And>j. loc r R i = Some j \<Longrightarrow> goal i (local_at R1 j)"
  proof (cases "loc r R i")
    case None
    then show ?thesis using run_ignored [OF Cons.prems(3) sh None] Cons.prems(3) that by simp
  next
    case (Some j)
    have j: "j < length (rfields R)" using Some field_index_Some unfolding loc_def by blast
    obtain y' where y: "same_kind (state_at r i) (local_at R j)" "field_applies i (coll_ref r i) ops (local_at R j) y'" "goal i y'"
      using Cons.prems(4) s Some by auto
    have ne: "k < length (ifields r) \<Longrightarrow> k \<noteq> i \<Longrightarrow> loc r R k = Some j' \<Longrightarrow> j' \<noteq> j" for k j'
      using loc_inj [OF names _ i _ Some] by blast
    show ?thesis
      by (rule that [of "set_local j y' R"])
        (use run_applies [OF Cons.prems(3) sh Some y(1,2)] Cons.prems(3) y(3) j ne Some in \<open>auto simp: local_set_local\<close>)
  qed
  have ih: "\<exists>R'. applyDelta (concat (map snd segs)) R1 = (None, R') \<and> bound r R' \<and> loc r R' = loc r R1
    \<and> (\<forall>k < length (ifields r). \<forall>j. loc r R1 k = Some j \<longrightarrow>
         (if k \<in> fst ` set segs then goal k (local_at R' j) else local_at R' j = local_at R1 j))"
  proof (rule Cons.IH)
    show "\<forall>(k, ops) \<in> set segs. \<forall>j. loc r R1 k = Some j \<longrightarrow> same_kind (state_at r k) (local_at R1 j)
      \<and> (\<exists>y'. field_applies k (coll_ref r k) ops (local_at R1 j) y' \<and> goal k y')"
    proof (clarify, goal_cases)
      case (1 k kops j)
      then have k: "k \<in> fst ` set segs" "run_shape r k kops" using Cons.prems(2) by force+
      then have "k < length (ifields r)" "k \<noteq> i" using fresh by (auto simp: run_shape_def)
      moreover have "same_kind (state_at r k) (local_at R j) \<and> (\<exists>y'. field_applies k (coll_ref r k) kops (local_at R j) y' \<and> goal k y')"
        using 1 Cons.prems(4) R1(3) by auto
      ultimately show ?case using 1(2) R1(3,4) by metis
    qed
  qed (use Cons.prems R1(2) s in auto)
  then obtain R' where R': "applyDelta (concat (map snd segs)) R1 = (None, R')" "bound r R'" "loc r R' = loc r R1"
    "\<And>k j. k < length (ifields r) \<Longrightarrow> loc r R1 k = Some j \<Longrightarrow>
      (if k \<in> fst ` set segs then goal k (local_at R' j) else local_at R' j = local_at R1 j)" by blast
  show ?case
    using applyDelta_append [OF R1(1)] R' R1(3-5) s fresh by (intro exI [of _ R']) (auto split: if_splits)
qed simp

end
