(* ===== verification/FlatEmit.thy ===== *)
theory FlatEmit
  imports FlatReplica
begin

text \<open>
  What a root emits, field by field: classes and their field types, and the ops of a tick and of a
  snapshot as one run per field, of which a client is sent those its visibility asks for.
\<close>

section \<open>Kinds of fields\<close>

datatype FieldKind = KPrim PrimitiveKind | KMap ElementCodec ElementCodec | KSet ElementCodec | KArray ElementCodec

fun kind_of :: "FieldState \<Rightarrow> FieldKind" where
  "kind_of (FPrim p) = KPrim (pkind p)"
| "kind_of (FColl (TMap m)) = KMap (mkey m) (mval m)"
| "kind_of (FColl (TSet s)) = KSet (scodec s)"
| "kind_of (FColl (TArray a)) = KArray (acodec a)"

lemma same_kind_iff: "same_kind x y \<longleftrightarrow> kind_of y = kind_of x"
  by (cases x rule: kind_of.cases; cases y rule: kind_of.cases) auto

fun kind_type :: "FieldKind \<Rightarrow> jsstring" where
  "kind_type (KPrim k) = prim_type k"
| "kind_type (KMap k v) = angle ''map'' (codec_type k @ 0x2C # codec_type v)"
| "kind_type (KSet k) = angle ''set'' (codec_type k)"
| "kind_type (KArray v) = angle ''array'' (codec_type v)"

fun kind_coll :: "FieldKind \<Rightarrow> bool" where
  "kind_coll (KPrim k) = False"
| "kind_coll _ = True"

lemma kind_type_of: "state_type x = kind_type (kind_of x)" "is_coll x = kind_coll (kind_of x)"
  by (cases x rule: kind_of.cases; simp)+

text \<open>The kinds that the field constructors of the schema classes make.\<close>

fun value_codec :: "ElementCodec \<Rightarrow> bool" where
  "value_codec (fixedCodec d) = (d \<le> 9)"
| "value_codec (intCodec k) = False"
| "value_codec INVALID_CODEC = False"
| "value_codec _ = True"

fun kind_ok :: "FieldKind \<Rightarrow> bool" where
  "kind_ok (KPrim (FixedPointState d)) = (d \<le> 9)"
| "kind_ok (KPrim _) = True"
| "kind_ok (KMap k v) = (is_key_codec k \<and> value_codec v)"
| "kind_ok (KSet k) = is_key_codec k"
| "kind_ok (KArray v) = value_codec v"

fun kind_parsed :: "FieldKind \<Rightarrow> ParsedFieldType" where
  "kind_parsed (KPrim (IntState k)) = PInt (int_kind_name k)"
| "kind_parsed (KPrim k) = PPrimitive (prim_type k)"
| "kind_parsed (KMap k v) = PMap (codec_type k) (codec_type v)"
| "kind_parsed (KSet k) = PSet (codec_type k)"
| "kind_parsed (KArray v) = PArray (codec_type v)"

lemma digit_text_ok: "d \<le> 9 \<Longrightarrow> is_fixed_type (js ''fixed:'' @ digit_text d)"
proof -
  have "list_all (\<lambda>d. is_fixed_type (js ''fixed:'' @ digit_text d)) [0..<10]" by code_simp
  then show "d \<le> 9 \<Longrightarrow> is_fixed_type (js ''fixed:'' @ digit_text d)" by (simp add: list_all_iff)
qed

lemma int_kind_named: "isIntKind (int_kind_name k) \<noteq> None"
  by (cases k) (simp_all add: isIntKind_def int_kinds_def js_def)

lemma value_codec_type: "value_codec c \<Longrightarrow> isPrimitiveFieldType (codec_type c)"
  by (cases c) (simp_all add: isPrimitiveFieldType_def digit_text_ok)

lemma key_codec_type: "is_key_codec c \<Longrightarrow> isKeyFieldType (codec_type c)"
proof (cases c)
  case (intCodec k)
  then show ?thesis by (cases k) (simp_all add: isKeyFieldType_def KEY_TYPES_def)
qed (simp_all add: isKeyFieldType_def KEY_TYPES_def)

lemma kind_parsed_ok: "kind_ok k \<Longrightarrow> parsed_ok (kind_parsed k)"
proof (cases k)
  case (KPrim p)
  assume "kind_ok k"
  then show ?thesis using KPrim int_kind_named by (cases p) (simp_all add: isPrimitiveFieldType_def digit_text_ok)
qed (simp_all add: value_codec_type key_codec_type)

lemma kind_shown: "showFieldType (kind_parsed k) = kind_type k"
  by (cases k rule: kind_parsed.cases) simp_all

lemma kind_parse:
  assumes "kind_ok k"
  shows "parseFieldType (kind_type k) = Some (kind_parsed k)"
  using parse_showFieldType [OF kind_parsed_ok [OF assms]] by (simp add: kind_shown)

lemma kind_parsed_coll: "isCollectionField (kind_parsed k) = kind_coll k" "\<not> is_nested (kind_parsed k)"
  by (cases k rule: kind_parsed.cases; simp)+

text \<open>A type names its kind, so that two sides that agree on the types agree on the kinds.\<close>

lemma digit_text_inj: "d \<le> 9 \<Longrightarrow> e \<le> 9 \<Longrightarrow> digit_text d = digit_text e \<Longrightarrow> d = e"
proof -
  have "list_all (\<lambda>d. list_all (\<lambda>e. digit_text d = digit_text e \<longrightarrow> d = e) [0..<10]) [0..<10]" by code_simp
  then show "d \<le> 9 \<Longrightarrow> e \<le> 9 \<Longrightarrow> digit_text d = digit_text e \<Longrightarrow> d = e" by (simp add: list_all_iff)
qed

lemma int_kind_name_inj: "int_kind_name k = int_kind_name l \<Longrightarrow> k = l"
  by (cases k; cases l) (simp_all add: js_def)

lemma int_text:
  "int_kind_name k \<noteq> js ''float64''" "int_kind_name k \<noteq> js ''float32''" "int_kind_name k \<noteq> js ''string''"
  "int_kind_name k \<noteq> js ''bool''" "int_kind_name k \<noteq> js ''fixed:'' @ digit_text d"
  by (cases k; simp add: js_def)+

lemma plain_text:
  "js ''fixed:'' @ digit_text d \<noteq> js ''float64''" "js ''fixed:'' @ digit_text d \<noteq> js ''float32''" "js ''fixed:'' @ digit_text d \<noteq> js ''string''"
  "js ''fixed:'' @ digit_text d \<noteq> js ''bool''" "js ''float64'' \<noteq> js ''float32''" "js ''float64'' \<noteq> js ''string''"
  "js ''float64'' \<noteq> js ''bool''" "js ''float32'' \<noteq> js ''string''" "js ''float32'' \<noteq> js ''bool''" "js ''string'' \<noteq> js ''bool''"
  by (simp_all add: js_def digit_text_def)

lemmas type_texts = int_text int_text [THEN not_sym] plain_text plain_text [THEN not_sym]

lemma prim_type_inj:
  assumes "kind_ok (KPrim k)" "kind_ok (KPrim l)" "prim_type k = prim_type l"
  shows "k = l"
  using assms by (cases k; cases l) (simp_all add: type_texts digit_text_inj int_kind_name_inj)

fun codec_kind :: "ElementCodec \<Rightarrow> PrimitiveKind" where
  "codec_kind FLOAT64 = NumberState"
| "codec_kind FLOAT32 = Float32State"
| "codec_kind STRING = StringState"
| "codec_kind BOOL = BooleanState"
| "codec_kind (fixedCodec d) = FixedPointState d"
| "codec_kind (intCodec k) = IntState k"
| "codec_kind INVALID_CODEC = StringState"

lemma codec_type_inj:
  assumes "is_key_codec c \<or> value_codec c" "is_key_codec d \<or> value_codec d" "codec_type c = codec_type d"
  shows "c = d"
proof -
  have t: "codec_type x = prim_type (codec_kind x)" for x by (cases x) simp_all
  have ok: "is_key_codec x \<or> value_codec x \<Longrightarrow> kind_ok (KPrim (codec_kind x))" for x by (cases x) simp_all
  have "codec_kind c = codec_kind d" using prim_type_inj [OF ok ok] assms t by simp
  then show ?thesis using assms(1,2) by (cases c; cases d) simp_all
qed

lemma kind_type_inj:
  assumes "kind_ok k" "kind_ok l" "kind_type k = kind_type l"
  shows "k = l"
proof -
  have p: "kind_parsed k = kind_parsed l" using kind_parse [OF assms(1)] kind_parse [OF assms(2)] assms(3) by simp
  show ?thesis
  proof (cases k)
    case (KPrim i)
    moreover obtain j where "l = KPrim j" using p KPrim by (cases l; cases i) simp_all
    ultimately show ?thesis using assms prim_type_inj [of i j] by simp
  next
    case (KMap a b)
    moreover obtain c d where "l = KMap c d" using p KMap by (cases l rule: kind_parsed.cases) simp_all
    ultimately show ?thesis using p assms codec_type_inj [of a c] codec_type_inj [of b d] by simp
  next
    case (KSet a)
    moreover obtain c where "l = KSet c" using p KSet by (cases l rule: kind_parsed.cases) simp_all
    ultimately show ?thesis using p assms codec_type_inj [of a c] by simp
  next
    case (KArray b)
    moreover obtain d where "l = KArray d" using p KArray by (cases l rule: kind_parsed.cases) simp_all
    ultimately show ?thesis using p assms codec_type_inj [of b d] by simp
  qed
qed

section \<open>Shapes of roots\<close>

text \<open>What of a root no write changes: names, filters and kinds.\<close>

definition field_shape :: "Field \<Rightarrow> jsstring \<times> bool \<times> FieldKind" where
  "field_shape f = (fname f, ffiltered f, kind_of (fstate f))"

definition shape :: "Instance \<Rightarrow> (jsstring \<times> bool \<times> FieldKind) list" where
  "shape r = map field_shape (ifields r)"

lemma shape_length: "shape r = shape r' \<Longrightarrow> length (ifields r) = length (ifields r')"
  unfolding shape_def by (metis length_map)

lemma shape_nth:
  assumes "shape r = shape r'" "i < length (ifields r)"
  shows "fname (ifields r ! i) = fname (ifields r' ! i)" "ffiltered (ifields r ! i) = ffiltered (ifields r' ! i)"
    "kind_of (state_at r i) = kind_of (state_at r' i)"
proof -
  have "shape r ! i = shape r' ! i" using assms(1) by simp
  then show "fname (ifields r ! i) = fname (ifields r' ! i)" "ffiltered (ifields r ! i) = ffiltered (ifields r' ! i)"
    "kind_of (state_at r i) = kind_of (state_at r' i)"
    using assms(2) shape_length [OF assms(1)] by (simp_all add: shape_def field_shape_def)
qed

lemma shape_map:
  assumes "shape r = shape r'"
  shows "map fname (ifields r) = map fname (ifields r')" "map (state_type \<circ> fstate) (ifields r) = map (state_type \<circ> fstate) (ifields r')"
    "map (is_coll \<circ> fstate) (ifields r) = map (is_coll \<circ> fstate) (ifields r')"
  by (rule nth_equalityI; simp add: shape_length [OF assms] shape_nth [OF assms] kind_type_of)+

lemma shape_coll_ref: "shape r = shape r' \<Longrightarrow> coll_ref r i = coll_ref r' i"
proof -
  assume "shape r = shape r'"
  then have "filter id (take i (map (is_coll \<circ> fstate) (ifields r))) = filter id (take i (map (is_coll \<circ> fstate) (ifields r')))"
    using shape_map(3) by metis
  then show ?thesis by (simp add: coll_ref_def take_map filter_map comp_def) (metis length_map)
qed

lemma shape_loc: "shape r = shape r' \<Longrightarrow> i < length (ifields r) \<Longrightarrow> loc r R i = loc r' R i"
  using shape_nth(1) [of r r' i] by (simp add: loc_def)

lemma shape_entry: "shape r = shape r' \<Longrightarrow> iname r = iname r' \<Longrightarrow> entry_of r = entry_of r'"
  using shape_map(1,2) [of r r'] by (simp add: entry_of_def)

lemma shape_bound:
  assumes "shape r = shape r'" "bound r R"
  shows "bound r' R"
proof -
  have l: "map (loc r R) [0..<length (ifields r')] = map (loc r' R) [0..<length (ifields r')]"
    using shape_loc [OF assms(1)] shape_length [OF assms(1)] by simp
  have c: "i < length (ifields r') \<Longrightarrow> is_coll (state_at r' i) \<longleftrightarrow> is_coll (state_at r i)" for i
    using shape_nth(3) [OF assms(1)] shape_length [OF assms(1)] by (simp add: kind_type_of)
  have k: "i < length (ifields r') \<Longrightarrow> loc r' R i = loc r R i" for i
    using shape_loc [OF assms(1)] shape_length [OF assms(1)] by simp
  note b = assms(2) [unfolded bound_def shape_length [OF assms(1)] shape_map [OF assms(1)] shape_coll_ref [OF assms(1)] l]
  show ?thesis unfolding bound_def
  proof (intro conjI allI impI)
    fix i
    assume i: "i < length (ifields r')" "is_coll (state_at r' i)"
    then show "case loc r' R i of None \<Rightarrow> dignored (rctx R) (int (coll_ref r' i))
        | Some j \<Rightarrow> drefs (rctx R) (int (coll_ref r' i)) = Some (RField j) \<and> \<not> dignored (rctx R) (int (coll_ref r' i))"
      unfolding k [OF i(1)] using b c by blast
  qed (use b in blast)+
qed

section \<open>Emission\<close>

text \<open>\<open>em'\<close> is \<open>em\<close> with the ops \<open>out\<close> after its own, each under its guard.\<close>

definition emits :: "Emitter \<Rightarrow> (jsval list \<times> Guard) list \<Rightarrow> Emitter \<Rightarrow> bool" where
  "emits em out em' =
     (em_ops em' = em_ops em @ out \<and> (guards_known em \<longrightarrow> guards_known em') \<and> newFiltered em' = newFiltered em)"

lemma emits_refl [simp]: "emits em [] em"
  by (simp add: emits_def)

lemma emits_trans: "emits em out em1 \<Longrightarrow> emits em1 out' em2 \<Longrightarrow> emits em (out @ out') em2"
  by (simp add: emits_def)

lemma emits_fold: "(\<And>i em. emits em (out i) (f i em)) \<Longrightarrow> emits em (concat (map out is)) (fold f is em)"
proof (induction "is" arbitrary: em)
  case (Cons i "is")
  then show ?case using emits_trans [OF Cons.prems Cons.IH [OF Cons.prems]] by simp
qed simp

lemma emit_all_parts:
  "em_ops (emit_all ops g em) = em_ops em @ map (\<lambda>op. (op, g)) ops" "distinctGuards (emit_all ops g em) = distinctGuards em"
  "newFiltered (emit_all ops g em) = newFiltered em"
  by (induction ops arbitrary: em) (simp_all add: emit_all_def emit_def)

lemma emit_one: "emit op g em = emit_all [op] g em"
  by (simp add: emit_all_def)

definition own_guard :: "Instance \<Rightarrow> nat \<Rightarrow> GuardKind \<Rightarrow> Guard" where
  "own_guard r i k = (if ffiltered (ifields r ! i) then [(i, k)] else [])"

definition tagged :: "Guard \<Rightarrow> jsval list list \<Rightarrow> (jsval list \<times> Guard) list" where
  "tagged g ops = map (\<lambda>op. (op, g)) ops"

lemma tagged_Nil [simp]: "tagged g [] = []"
  by (simp add: tagged_def)

lemma guard_emits: "em_guard i k [] em = (g, em1) \<Longrightarrow> emits em (tagged [(i, k)] ops) (emit_all ops g em1)"
  by (auto simp: em_guard_def emits_def emit_all_parts guards_known_def tagged_def Let_def split: if_splits)

lemma field_guard_emits:
  "fieldGuard (ffiltered (ifields r ! i)) i k [] em = (g, em1) \<Longrightarrow> emits em (tagged (own_guard r i k) ops) (emit_all ops g em1)"
  using guard_emits [of i k em g em1 ops]
  by (auto simp: fieldGuard_def own_guard_def emits_def emit_all_parts guards_known_def tagged_def split: if_splits)

text \<open>The ops of a field in a snapshot, and as a changed field and as a dirty collection of a tick.\<close>

fun snap_ops :: "nat \<Rightarrow> nat \<Rightarrow> FieldState \<Rightarrow> jsval list list" where
  "snap_ops i ref (FPrim p) = (if isZeroWire (prim_toWire p) then [] else [[nat_val 0, nat_val 0, nat_val i, prim_toWire p]])"
| "snap_ops i ref (FColl t) = coll_content ref t"

fun change_ops :: "nat \<Rightarrow> FieldState \<Rightarrow> jsval list list" where
  "change_ops i (FPrim p) = [[nat_val 0, nat_val 0, nat_val i, prim_toWire p]]"
| "change_ops i (FColl t) = []"

fun dirty_ops :: "nat \<Rightarrow> FieldState \<Rightarrow> jsval list list" where
  "dirty_ops ref (FPrim p) = []"
| "dirty_ops ref (FColl t) = coll_ops ref t"

lemma field_content_emits: "emits em (tagged (own_guard r i Full) (snap_ops i (coll_ref r i) (state_at r i))) (field_content r i em)"
  using field_guard_emits [of r i Full em]
  by (cases "state_at r i") (auto simp: field_content_def emit_one Let_def split: prod.splits)

lemma visit_change_emits: "emits em (tagged (own_guard r i Normal) (change_ops i (state_at r i))) (visit_change r i em)"
  using field_guard_emits [of r i Normal em]
  by (cases "state_at r i") (auto simp: visit_change_def emit_one Let_def split: prod.splits)

lemma visit_collection_emits: "emits em (tagged (own_guard r i Normal) (dirty_ops (coll_ref r i) (state_at r i))) (visit_collection r i em)"
  using field_guard_emits [of r i Normal em]
  by (cases "state_at r i") (auto simp: visit_collection_def Let_def split: prod.splits)

lemma root_content_emits:
  "emits em (concat (map (\<lambda>i. tagged (own_guard r i Full) (snap_ops i (coll_ref r i) (state_at r i))) [0..<length (ifields r)])) (root_content r em)"
  unfolding root_content_def by (rule emits_fold) (rule field_content_emits)

lemma visit_emits:
  "ionwire r \<Longrightarrow>
   emits em (concat (map (\<lambda>i. tagged (own_guard r i Normal) (change_ops i (state_at r i))) (ichanges r))
     @ concat (map (\<lambda>i. tagged (own_guard r i Normal) (dirty_ops (coll_ref r i) (state_at r i))) (idirty r))) (visit r em)"
  unfolding visit_def by (simp) (rule emits_trans emits_fold visit_change_emits visit_collection_emits)+

lemma reveal_emits: "emits em (tagged [(i, Reveal)] (field_full i (coll_ref r i) (state_at r i))) (reveal_field r i em)"
  using guard_emits [of i Reveal em]
  by (cases "state_at r i") (auto simp: reveal_field_def emit_one split: prod.splits)

lemma hide_emits: "emits em (tagged [(i, Hide)] (field_hide i (coll_ref r i) (state_at r i))) (hide_field r i em)"
  using guard_emits [of i Hide em]
  by (cases "state_at r i") (auto simp: hide_field_def emit_one split: prod.splits)

lemma flips_right:
  "results_ok fs res \<Longrightarrow>
   fst (flips fs before i cs acc res) =
     (fst acc \<or> (\<exists>c \<in> set cs. \<not> before i c \<and> evaluateFilter fs i c), snd acc \<or> (\<exists>c \<in> set cs. before i c \<and> \<not> evaluateFilter fs i c))
   \<and> results_ok fs (snd (flips fs before i cs acc res))"
proof (induction cs arbitrary: acc res)
  case (Cons c cs)
  obtain cur res1 where v: "visible fs i c res = (cur, res1)" by fastforce
  have o: "cur = evaluateFilter fs i c" "results_ok fs res1" using visible_ok [OF Cons.prems v] by blast+
  show ?case using Cons.IH [OF o(2)] by (cases acc) (auto simp: v o(1))
qed auto

text \<open>The ops of a field that some client is shown, or no longer shown, from this tick on.\<close>

definition flip_out :: "filters \<Rightarrow> (nat \<Rightarrow> nat \<Rightarrow> bool) \<Rightarrow> Instance \<Rightarrow> nat list \<Rightarrow> nat \<Rightarrow> (jsval list \<times> Guard) list" where
  "flip_out fs before r cs i =
     (if \<exists>c \<in> set cs. \<not> before i c \<and> evaluateFilter fs i c then tagged [(i, Reveal)] (field_full i (coll_ref r i) (state_at r i)) else [])
     @ (if \<exists>c \<in> set cs. before i c \<and> \<not> evaluateFilter fs i c then tagged [(i, Hide)] (field_hide i (coll_ref r i) (state_at r i)) else [])"

lemma transitions_emit:
  assumes "ionwire r"
  shows "results_ok fs res \<Longrightarrow> newFiltered em = [] \<Longrightarrow>
    emits em (concat (map (flip_out fs before r cs) is)) (fst (transitions fs before r cs is em res))
    \<and> results_ok fs (snd (transitions fs before r cs is em res))"
proof (induction "is" arbitrary: em res)
  case (Cons i "is")
  obtain reveal hide res1 where f: "flips fs before i cs (False, False) res = ((reveal, hide), res1)" by (metis surj_pair)
  have o: "reveal = (\<exists>c \<in> set cs. \<not> before i c \<and> evaluateFilter fs i c)" "hide = (\<exists>c \<in> set cs. before i c \<and> \<not> evaluateFilter fs i c)"
    "results_ok fs res1" using flips_right [OF Cons.prems(1), of before i cs "(False, False)"] by (simp_all add: f)
  define em1 where "em1 = (if reveal then reveal_field r i em else em)"
  define em2 where "em2 = (if hide then hide_field r i em1 else em1)"
  have "emits em (if reveal then tagged [(i, Reveal)] (field_full i (coll_ref r i) (state_at r i)) else []) em1"
    "emits em1 (if hide then tagged [(i, Hide)] (field_hide i (coll_ref r i) (state_at r i)) else []) em2"
    using reveal_emits hide_emits by (auto simp: em1_def em2_def)
  then have e: "emits em (flip_out fs before r cs i) em2" unfolding flip_out_def o(1,2) by (rule emits_trans)
  then have n: "newFiltered em2 = []" using Cons.prems(2) by (simp add: emits_def)
  have t: "transitions fs before r cs (i # is) em res = transitions fs before r cs is em2 res1"
    using assms Cons.prems(2) by (simp add: f Let_def em1_def em2_def)
  show ?case unfolding t using Cons.IH [OF o(3) n] emits_trans [OF e] by simp
qed simp

lemma set_visible_right:
  "results_ok fs res \<Longrightarrow>
   fst (set_visible fs i cs vis res) = (\<lambda>k c. if k = i \<and> c \<in> set cs then evaluateFilter fs k c else vis k c)
   \<and> results_ok fs (snd (set_visible fs i cs vis res))"
proof (induction cs arbitrary: vis res)
  case (Cons c cs)
  obtain b res1 where v: "visible fs i c res = (b, res1)" by fastforce
  have o: "b = evaluateFilter fs i c" "results_ok fs res1" using visible_ok [OF Cons.prems v] by blast+
  show ?case using Cons.IH [OF o(2)] by (auto simp: v o(1) fun_eq_iff)
qed simp

lemma set_visibles_right:
  "results_ok fs res \<Longrightarrow>
   fst (set_visibles fs is cs vis res) = (\<lambda>k c. if k \<in> set is \<and> c \<in> set cs then evaluateFilter fs k c else vis k c)"
proof (induction "is" arbitrary: vis res)
  case (Cons i "is")
  obtain vis1 res1 where v: "set_visible fs i cs vis res = (vis1, res1)" by fastforce
  have o: "vis1 = (\<lambda>k c. if k = i \<and> c \<in> set cs then evaluateFilter fs k c else vis k c)" "results_ok fs res1"
    using set_visible_right [OF Cons.prems, of i cs vis] by (simp_all add: v)
  have "fst (set_visibles fs is cs vis1 res1) = (\<lambda>k c. if k \<in> set is \<and> c \<in> set cs then evaluateFilter fs k c else vis1 k c)"
    by (rule Cons.IH [OF o(2)])
  then show ?case by (simp add: v) (auto simp: o(1) fun_eq_iff)
qed simp

section \<open>Selection\<close>

text \<open>What a client is sent of a list of ops with guards, and of runs of them.\<close>

definition chosen :: "filters \<Rightarrow> (nat \<Rightarrow> nat \<Rightarrow> bool) \<Rightarrow> nat \<Rightarrow> (jsval list \<times> Guard) list \<Rightarrow> jsval list list" where
  "chosen fs before c out = map fst (filter (\<lambda>(op, g). guard_holds fs before c g) out)"

lemma chosen_append [simp]: "chosen fs before c (xs @ ys) = chosen fs before c xs @ chosen fs before c ys"
  by (simp add: chosen_def)

lemma chosen_Nil [simp]: "chosen fs before c [] = []"
  by (simp add: chosen_def)

lemma chosen_tagged: "chosen fs before c (tagged g ops) = (if guard_holds fs before c g then ops else [])"
  by (simp add: chosen_def tagged_def filter_map comp_def)

lemma chosen_runs:
  "chosen fs before c (concat (map (\<lambda>i. tagged (g i) (ops i)) is)) =
   concat (map snd (map (\<lambda>i. (i, ops i)) (filter (\<lambda>i. guard_holds fs before c (g i)) is)))"
  by (induction "is") (simp_all add: chosen_tagged)

lemma own_guard_holds:
  "guard_holds fs before c (own_guard r i k) \<longleftrightarrow>
   (ffiltered (ifields r ! i) \<longrightarrow> kind_passes k (before i c) (evaluateFilter fs i c))"
  by (simp add: own_guard_def guard_holds_def)

lemma chosen_flips:
  assumes "c \<in> set cs"
  shows "chosen fs before c (concat (map (flip_out fs before r cs) is)) =
    concat (map snd (map (\<lambda>i. (i, if evaluateFilter fs i c then field_full i (coll_ref r i) (state_at r i) else field_hide i (coll_ref r i) (state_at r i)))
      (filter (\<lambda>i. before i c \<noteq> evaluateFilter fs i c) is)))"
proof (induction "is")
  case (Cons i "is")
  have "chosen fs before c (flip_out fs before r cs i) =
    (if before i c \<noteq> evaluateFilter fs i c
     then if evaluateFilter fs i c then field_full i (coll_ref r i) (state_at r i) else field_hide i (coll_ref r i) (state_at r i) else [])"
    using assms by (auto simp: flip_out_def chosen_tagged guard_holds_def)
  then show ?case using Cons.IH by simp
qed simp

lemma ops_for_chosen: "emits new_emitter out em \<Longrightarrow> ops_for fs before c em = chosen fs before c out"
  by (simp add: emits_def ops_for_def chosen_def new_emitter_def)

lemma new_emitter_known: "emits new_emitter out em \<Longrightarrow> guards_known em"
  by (simp add: emits_def guards_known_def new_emitter_def)

end
