(* ===== verification/FlatSync.thy ===== *)
theory FlatSync
  imports FlatEmit
begin

text \<open>
  The state of a room and its clients' replicas over edits, ticks and snapshots. \<open>server_ok\<close> is the
  invariant of the server's side, \<open>client_ok\<close> relates a client's replica to it: bound to the class,
  led to what the client sees by the change record, and blank in what it does not see.
\<close>

section \<open>Dirty stays dirty\<close>

lemma log_dirty: "adirty a \<Longrightarrow> adirty (array_log op a)"
  by (simp add: array_log_def array_markDirty_def)

lemma set_stays: "adirty a \<Longrightarrow> adirty (fst (snd (array_set i v a)))"
  by (simp add: array_set_def Let_def log_dirty)

lemma insert_stays: "adirty a \<Longrightarrow> adirty (fst (array_insert i v a))"
  by (simp add: array_insert_def log_dirty)

lemma removeAt_stays: "adirty a \<Longrightarrow> adirty (fst (snd (array_removeAt i a)))"
  by (simp add: array_removeAt_def Let_def log_dirty)

lemma insert_all_stays: "adirty a \<Longrightarrow> adirty (fst (array_insert_all i vs a))"
  by (induction vs arbitrary: i a) (simp_all add: case_prod_beta insert_stays)

lemma remove_n_stays: "adirty a \<Longrightarrow> adirty (fst (snd (array_remove_n n i a)))"
  by (induction n arbitrary: a) (simp_all add: case_prod_beta removeAt_stays)

lemma permute_stays: "adirty a \<Longrightarrow> adirty (fst (permute_log i olds a))"
  by (induction olds arbitrary: i a) (simp_all add: Let_def case_prod_beta log_dirty)

lemma fill_stays: "adirty a \<Longrightarrow> adirty (fst (fill_loop is v a))"
  by (induction "is" arbitrary: a) (simp_all add: case_prod_beta set_stays)

lemma array_stays: "adirty a \<Longrightarrow> adirty (array_edit e a)"
proof (cases e)
  case (ASplice i n vs)
  assume d: "adirty a"
  show ?thesis using insert_all_stays [OF remove_n_stays [OF d]] ASplice by (simp add: array_splice_def Let_def case_prod_beta)
qed (simp_all add: set_stays insert_all_stays removeAt_stays fill_stays permute_stays array_push_def array_unshift_def array_pop_def
    array_shift_def array_fill_def array_permute_def array_clear_def array_markDirty_def Let_def)

lemma map_stays: "mdirty m \<Longrightarrow> mdirty (map_edit e m)"
  by (cases e) (simp_all add: map_set_def map_delete_def map_clear_def map_markDirty_def map_record_def Let_def)

lemma set_edit_stays: "sdirty s \<Longrightarrow> sdirty (set_edit e s)"
  by (cases e) (simp_all add: set_add_def set_delete_def set_clear_def set_markDirty_def set_record_def Let_def)

lemma coll_stays: "coll_dirty t \<Longrightarrow> coll_dirty (coll_edit e t)"
  using array_stays map_stays set_edit_stays by (cases t; cases e) auto

section \<open>The server's side\<close>

fun state_dirty :: "FieldState \<Rightarrow> bool" where
  "state_dirty (FPrim p) = False"
| "state_dirty (FColl t) = coll_dirty t"

definition class_ok :: "Field list \<Rightarrow> bool" where
  "class_ok fs = (distinct (map fname fs) \<and> list_all (\<lambda>f. kind_ok (kind_of (fstate f))) fs)"

definition filtered_of :: "Instance \<Rightarrow> nat list" where
  "filtered_of r = filter (\<lambda>i. ffiltered (ifields r ! i)) [0..<length (ifields r)]"

text \<open>The change tree of a root with a refId names its changed fields and its dirty collections.\<close>

definition tree_ok :: "Instance \<Rightarrow> bool" where
  "tree_ok r =
     (distinct (ichanges r) \<and> distinct (idirty r)
      \<and> (\<forall>i \<in> set (ichanges r). i < length (ifields r) \<and> \<not> is_coll (state_at r i))
      \<and> (\<forall>i \<in> set (idirty r). i < length (ifields r))
      \<and> (\<forall>i < length (ifields r). state_dirty (state_at r i) \<longleftrightarrow> i \<in> set (idirty r))
      \<and> (\<forall>i < length (ifields r). live (state_at r i) (i \<in> set (ichanges r))))"

definition untouched :: "Instance \<Rightarrow> bool" where
  "untouched r = (ichanges r = [] \<and> idirty r = [] \<and> (\<forall>i < length (ifields r). idle (state_at r i)))"

definition server_ok :: "StateRoot \<Rightarrow> bool" where
  "server_ok s =
     (class_ok (ifields (sroot s)) \<and>
      (case sctx s of
         None \<Rightarrow> \<not> ionwire (sroot s) \<and> untouched (sroot s)
       | Some ctx \<Rightarrow> ionwire (sroot s) \<and> ectable ctx = [entry_of (sroot s)] \<and> ecfiltered ctx = filtered_of (sroot s) \<and> tree_ok (sroot s)))"

section \<open>A client's replica\<close>

definition sees :: "StateRoot \<Rightarrow> nat \<Rightarrow> nat \<Rightarrow> bool" where
  "sees s c i = (ffiltered (ifields (sroot s) ! i) \<longrightarrow> svisible s i c)"

definition client_ok :: "StateRoot \<Rightarrow> nat \<Rightarrow> ReplicaRoot \<Rightarrow> bool" where
  "client_ok s c R =
     (bound (sroot s) R \<and>
      (\<forall>i < length (ifields (sroot s)). \<forall>j. loc (sroot s) R i = Some j \<longrightarrow>
         same_kind (state_at (sroot s) i) (local_at R j)
         \<and> (if sees s c i then pends (local_at R j) (i \<in> set (ichanges (sroot s))) (state_at (sroot s) i) else blank (local_at R j))))"

text \<open>A replica that shows what the client sees, as it is now, and nothing of the rest.\<close>

definition in_step :: "StateRoot \<Rightarrow> nat \<Rightarrow> ReplicaRoot \<Rightarrow> bool" where
  "in_step s c R =
     (\<forall>i < length (ifields (sroot s)). \<forall>j. loc (sroot s) R i = Some j \<longrightarrow>
        (if sees s c i then mirrors (state_at (sroot s) i) (local_at R j) else blank (local_at R j)))"

lemma class_ok_shape: "shape r = shape r' \<Longrightarrow> class_ok (ifields r) = class_ok (ifields r')"
proof -
  assume s: "shape r = shape r'"
  have "class_ok (ifields r) \<longleftrightarrow> distinct (map fst (shape r)) \<and> list_all (\<lambda>(n, b, k). kind_ok k) (shape r)" for r
    by (simp add: class_ok_def shape_def field_shape_def comp_def list_all_iff)
  then show ?thesis using s by simp
qed

lemma filtered_of_shape: "shape r = shape r' \<Longrightarrow> filtered_of r = filtered_of r'"
  using shape_length [of r r'] shape_nth(2) [of r r'] by (auto simp: filtered_of_def intro!: filter_cong)

section \<open>Edits\<close>

lemma edit_field_eq:
  assumes "i < length (ifields r)" "edited (ionwire r) e (state_at r i) = (x, c)"
  shows "edit_field i e r = r\<lparr>ifields := (ifields r)[i := (ifields r ! i)\<lparr>fstate := x\<rparr>],
     ichanges := (if c then add_once i (ichanges r) else ichanges r), idirty := (if state_dirty x then add_once i (idirty r) else idirty r)\<rparr>"
proof (cases "state_at r i")
  case (FPrim p)
  have same: "(ifields r ! i)\<lparr>fstate := FPrim p\<rparr> = ifields r ! i" by (simp flip: FPrim)
  show ?thesis
  proof (cases "\<exists>v. e = EPrim v")
    case True
    then obtain v where v: "e = EPrim v" ..
    obtain p' ch where s: "prim_set (ionwire r) v p = (p', ch)" by fastforce
    then have "x = FPrim p'" "c = ch" using assms(2) FPrim v by auto
    then show ?thesis using assms(1) FPrim v s by (simp add: edit_field_def set_state_def Let_def)
  next
    case False
    then have "x = FPrim p" "\<not> c" using assms(2) FPrim by (cases e; simp)+
    moreover have "edit_field i e r = r" using False FPrim by (cases e) (simp_all add: edit_field_def)
    ultimately show ?thesis using same by simp
  qed
next
  case (FColl t)
  then have "x = FColl (coll_edit e t)" "\<not> c" using assms(2) by (cases e; auto)+
  then show ?thesis using assms(1) FColl by (simp add: edit_field_def set_state_def Let_def)
qed

lemma edit_field_parts:
  assumes "i < length (ifields r)" "edited (ionwire r) e (state_at r i) = (x, c)"
  shows "ifields (edit_field i e r) = (ifields r)[i := (ifields r ! i)\<lparr>fstate := x\<rparr>]"
    "ichanges (edit_field i e r) = (if c then add_once i (ichanges r) else ichanges r)"
    "idirty (edit_field i e r) = (if state_dirty x then add_once i (idirty r) else idirty r)"
    "ionwire (edit_field i e r) = ionwire r" "iname (edit_field i e r) = iname r"
  by (simp_all add: edit_field_eq [OF assms])

lemma set_add_once [simp]: "set (add_once i xs) = insert i (set xs)" "distinct xs \<Longrightarrow> distinct (add_once i xs)"
  by (auto simp: add_once_def)

lemma edit_beyond: "length (ifields r) \<le> i \<Longrightarrow> edit_field i e r = r"
  by (simp add: edit_field_def)

lemma idle_kind:
  assumes "idle x" "edit_legal x e" "edited False e x = (x', c)"
  shows "kind_of x' = kind_of x"
proof -
  show ?thesis
  proof (cases x)
    case (FPrim p)
    then show ?thesis using assms by (cases e) (auto simp: prim_set_def split: if_splits)
  next
    case (FColl t)
    then show ?thesis using assms idle_array_edit(2) by (cases t; cases e) auto
  qed
qed

lemma live_kind:
  assumes "live x changed" "edit_legal x e" "edited True e x = (x', c)"
  shows "kind_of x' = kind_of x"
proof -
  obtain y where y: "pends y changed x" using assms(1) live_def by blast
  then show ?thesis using pends_kind [OF y] pends_kind [OF edit_pends [OF y assms(2,3)]] by (simp add: same_kind_iff)
qed

lemma edit_dirty: "edited on e x = (x', c) \<Longrightarrow> state_dirty x \<Longrightarrow> state_dirty x'"
  using coll_stays by (cases x; cases e) auto

text \<open>An edit with a value of the field's type.\<close>

definition legal :: "nat \<Rightarrow> FieldEdit \<Rightarrow> Instance \<Rightarrow> bool" where
  "legal i e r = (i < length (ifields r) \<longrightarrow> edit_legal (state_at r i) e)"

lemma edit_shape:
  assumes "legal i e r" "if ionwire r then tree_ok r else untouched r"
  shows "shape (edit_field i e r) = shape r"
proof (cases "i < length (ifields r)")
  case True
  obtain x c where x: "edited (ionwire r) e (state_at r i) = (x, c)" by fastforce
  have "kind_of x = kind_of (state_at r i)"
  proof (cases "ionwire r")
    case w: True
    then show ?thesis using live_kind [of "state_at r i"] x assms True by (auto simp: tree_ok_def legal_def)
  next
    case w: False
    then show ?thesis using idle_kind [of "state_at r i"] x assms True by (auto simp: untouched_def legal_def)
  qed
  then have "field_shape ((ifields r ! i)\<lparr>fstate := x\<rparr>) = field_shape (ifields r ! i)" by (simp add: field_shape_def)
  then show ?thesis using True by (simp add: shape_def edit_field_parts(1) [OF True x] map_update list_update_same_conv)
qed (simp add: edit_beyond)

lemma edit_tracked:
  assumes "legal i e r" "ionwire r" "tree_ok r"
  shows "tree_ok (edit_field i e r)"
proof (cases "i < length (ifields r)")
  case True
  obtain x c where x: "edited (ionwire r) e (state_at r i) = (x, c)" by fastforce
  note p = edit_field_parts [OF True x]
  have l: "live x ((i \<in> set (ichanges r)) \<or> c)"
    using edit_live [of "state_at r i"] x assms True by (auto simp: tree_ok_def legal_def)
  have pr: "c \<Longrightarrow> \<not> is_coll x \<and> \<not> is_coll (state_at r i)" using x by (cases "state_at r i"; cases e) (auto split: prod.splits)
  have d: "state_dirty (state_at r i) \<Longrightarrow> state_dirty x" using edit_dirty [OF x] .
  have kc: "is_coll x = is_coll (state_at r i)" using x by (cases "state_at r i"; cases e) (auto split: prod.splits)
  have at: "k < length (ifields r) \<Longrightarrow> state_at (edit_field i e r) k = (if k = i then x else state_at r k)" for k
    using True by (simp add: p(1))
  note t = assms(3) [unfolded tree_ok_def]
  show ?thesis unfolding tree_ok_def
  proof (intro conjI ballI allI impI)
    fix k
    assume k: "k < length (ifields (edit_field i e r))"
    then have k': "k < length (ifields r)" by (simp add: p(1))
    show "state_dirty (state_at (edit_field i e r) k) \<longleftrightarrow> k \<in> set (idirty (edit_field i e r))"
      using t k' d by (auto simp: at p(3))
    show "live (state_at (edit_field i e r) k) (k \<in> set (ichanges (edit_field i e r)))"
      using t k' l by (cases c) (auto simp: at p(2))
  qed (use t True pr kc at in \<open>auto simp: p split: if_splits\<close>)
qed (use assms in \<open>simp add: edit_beyond\<close>)

lemma edit_untouched:
  assumes "legal i e r" "\<not> ionwire r" "untouched r"
  shows "untouched (edit_field i e r)"
proof (cases "i < length (ifields r)")
  case True
  obtain x c where x: "edited (ionwire r) e (state_at r i) = (x, c)" by fastforce
  note p = edit_field_parts [OF True x]
  have o: "idle (state_at r i)" "edit_legal (state_at r i) e" using assms True by (auto simp: untouched_def legal_def)
  have i: "idle x" "\<not> c" using idle_edit(1,2) [OF o] x assms(2) by auto
  have "\<not> state_dirty x" using i(1) by (cases x rule: idle.cases) auto
  then show ?thesis using assms(3) True i by (auto simp: untouched_def p nth_list_update)
qed (use assms in \<open>simp add: edit_beyond\<close>)

definition edit :: "nat \<Rightarrow> FieldEdit \<Rightarrow> StateRoot \<Rightarrow> StateRoot" where
  "edit i e s = s\<lparr>sroot := edit_field i e (sroot s)\<rparr>"

lemma server_ok_cases:
  "server_ok s \<Longrightarrow> if ionwire (sroot s) then tree_ok (sroot s) else untouched (sroot s)"
  by (auto simp: server_ok_def split: option.splits)

lemma edit_keeps:
  "ionwire (edit_field i e r) = ionwire r \<and> iname (edit_field i e r) = iname r"
proof (cases "i < length (ifields r)")
  case True
  obtain x c where x: "edited (ionwire r) e (state_at r i) = (x, c)" by fastforce
  show ?thesis using edit_field_parts(4,5) [OF True x] by simp
qed (simp add: edit_beyond)

lemma edit_server_ok:
  assumes "server_ok s" "legal i e (sroot s)"
  shows "server_ok (edit i e s)"
proof -
  have s: "shape (edit_field i e (sroot s)) = shape (sroot s)" by (rule edit_shape [OF assms(2) server_ok_cases [OF assms(1)]])
  show ?thesis
    using assms(1) edit_tracked [OF assms(2)] edit_untouched [OF assms(2)] edit_keeps [of i e "sroot s"]
      class_ok_shape [OF s] shape_entry [OF s] filtered_of_shape [OF s]
    by (auto simp: server_ok_def edit_def split: option.splits)
qed

lemma edit_client_ok:
  assumes "server_ok s" "ionwire (sroot s)" "legal i e (sroot s)" "client_ok s c R"
  shows "client_ok (edit i e s) c R"
proof -
  let ?r = "sroot s" and ?q = "edit_field i e (sroot s)"
  have t: "if ionwire ?r then tree_ok ?r else untouched ?r" by (rule server_ok_cases [OF assms(1)])
  have s: "shape ?q = shape ?r" by (rule edit_shape [OF assms(3) t])
  have n: "length (ifields ?q) = length (ifields ?r)" by (rule shape_length [OF s])
  have b: "bound ?q R" using assms(4) shape_bound [OF s [symmetric]] by (simp add: client_ok_def)
  have "same_kind (state_at ?q k) (local_at R j)
      \<and> (if sees s c k then pends (local_at R j) (k \<in> set (ichanges ?q)) (state_at ?q k) else blank (local_at R j))"
    if k: "k < length (ifields ?r)" "loc ?r R k = Some j" for k j
  proof -
    have old: "same_kind (state_at ?r k) (local_at R j)"
      "if sees s c k then pends (local_at R j) (k \<in> set (ichanges ?r)) (state_at ?r k) else blank (local_at R j)"
      using assms(4) k by (auto simp: client_ok_def)
    have kd: "same_kind (state_at ?q k) (local_at R j)" using old(1) shape_nth(3) [OF s] k n by (simp add: same_kind_iff)
    have "pends (local_at R j) (k \<in> set (ichanges ?q)) (state_at ?q k)" if "pends (local_at R j) (k \<in> set (ichanges ?r)) (state_at ?r k)"
    proof (cases "i < length (ifields ?r)")
      case True
      obtain x ch where x: "edited (ionwire ?r) e (state_at ?r i) = (x, ch)" by fastforce
      note p = edit_field_parts [OF True x]
      show ?thesis
      proof (cases "k = i")
        case ki: True
        have "pends (local_at R j) ((i \<in> set (ichanges ?r)) \<or> ch) x"
          using edit_pends [of "local_at R j" _ "state_at ?r i" e x ch] that x assms(2,3) True ki by (auto simp: legal_def)
        then show ?thesis using ki True by (cases ch) (simp_all add: p)
      qed (use that k in \<open>simp add: p\<close>)
    qed (use that in \<open>simp add: edit_beyond\<close>)
    then show ?thesis using old(2) kd by auto
  qed
  moreover have "sees (edit i e s) c k = sees s c k" if "k < length (ifields ?r)" for k
    using shape_nth(2) [OF s] that n by (simp add: sees_def edit_def)
  ultimately show ?thesis
    using b shape_loc [OF s] by (simp add: client_ok_def n) (simp add: edit_def n)
qed

section \<open>The commit\<close>

lemma same_field: "fstate f = x \<Longrightarrow> f\<lparr>fstate := x\<rparr> = f"
  by auto

lemma clear_field_nth:
  "length (ifields (clear_field i r)) = length (ifields r)" "ifields (clear_field i r) ! k =
     (if k = i \<and> i < length (ifields r) then (ifields r ! i)\<lparr>fstate := (case state_at r i of FPrim p \<Rightarrow> FPrim p | FColl t \<Rightarrow> FColl (coll_commit t))\<rparr> else ifields r ! k)"
proof -
  have same: "state_at r i = FPrim p \<Longrightarrow> (ifields r ! i)\<lparr>fstate := FPrim p\<rparr> = ifields r ! i" for p
    by (rule same_field)
  show "length (ifields (clear_field i r)) = length (ifields r)" by (cases "state_at r i") (simp_all add: clear_field_def set_state_def)
  show "ifields (clear_field i r) ! k =
     (if k = i \<and> i < length (ifields r) then (ifields r ! i)\<lparr>fstate := (case state_at r i of FPrim p \<Rightarrow> FPrim p | FColl t \<Rightarrow> FColl (coll_commit t))\<rparr> else ifields r ! k)"
    by (cases "state_at r i"; cases "i < length (ifields r)") (auto simp: clear_field_def set_state_def same list_update_beyond)
qed

lemma fold_clear_nth:
  "distinct is \<Longrightarrow> length (ifields (fold clear_field is r)) = length (ifields r) \<and> ifields (fold clear_field is r) ! k =
     (if k \<in> set is \<and> k < length (ifields r) then (ifields r ! k)\<lparr>fstate := (case state_at r k of FPrim p \<Rightarrow> FPrim p | FColl t \<Rightarrow> FColl (coll_commit t))\<rparr> else ifields r ! k)"
proof (induction "is" arbitrary: r)
  case (Cons i "is")
  then show ?case using Cons.IH [of "clear_field i r"] by (auto simp: clear_field_nth)
qed simp

lemma fold_clear_keeps: "ionwire (fold clear_field is r) = ionwire r \<and> iname (fold clear_field is r) = iname r"
proof (induction "is" arbitrary: r)
  case (Cons i "is")
  have "ionwire (clear_field i r) = ionwire r \<and> iname (clear_field i r) = iname r"
    by (cases "state_at r i") (simp_all add: clear_field_def set_state_def)
  then show ?case using Cons.IH by simp
qed simp

definition committed :: "Instance \<Rightarrow> Instance" where
  "committed r = r\<lparr>ifields := map (\<lambda>f. f\<lparr>fstate := field_commit (fstate f)\<rparr>) (ifields r), ichanges := [], idirty := []\<rparr>"

lemma clear_committed:
  assumes "tree_ok (sroot s)"
  shows "clearChangeTrees s = s\<lparr>sroot := committed (sroot s)\<rparr>"
proof -
  let ?r = "sroot s" and ?q = "fold clear_field (idirty (sroot s)) (sroot s)"
  have d: "distinct (idirty ?r)" using assms by (simp add: tree_ok_def)
  have n: "length (ifields ?q) = length (ifields ?r)" using fold_clear_nth [OF d] by blast
  have "ifields ?q ! k = (ifields ?r ! k)\<lparr>fstate := field_commit (state_at ?r k)\<rparr>" if "k < length (ifields ?r)" for k
  proof (cases "state_at ?r k")
    case (FPrim p)
    then show ?thesis using fold_clear_nth [OF d, of ?r k] that same_field [OF FPrim] by (simp split: if_splits)
  next
    case (FColl t)
    have "coll_dirty t = (k \<in> set (idirty ?r))" using assms that FColl unfolding tree_ok_def by (metis state_dirty.simps(2))
    then show ?thesis using fold_clear_nth [OF d, of ?r k] that FColl same_field [OF FColl] by (simp split: if_splits)
  qed
  then have "ifields ?q = map (\<lambda>f. f\<lparr>fstate := field_commit (fstate f)\<rparr>) (ifields ?r)" by (intro nth_equalityI) (simp_all add: n)
  then show ?thesis using fold_clear_keeps [of "idirty ?r" ?r]
    by (cases ?q; cases ?r) (auto simp: clearChangeTrees_def committed_def)
qed

lemma commit_kind: "kind_of (field_commit x) = kind_of x"
  by (cases x rule: kind_of.cases) (simp_all add: map_clearChanges_def set_clearChanges_def array_clearChanges_def)

lemma commit_clean: "\<not> state_dirty (field_commit x)"
proof (cases x)
  case (FColl t)
  then show ?thesis by (cases t) auto
qed simp

lemma commit_live: "live x changed \<Longrightarrow> live (field_commit x) False"
  using tick_delivers mirrors_pends unfolding live_def by blast

lemma committed_shape: "shape (committed r) = shape r"
  by (simp add: shape_def committed_def field_shape_def comp_def commit_kind)

lemma committed_at: "i < length (ifields r) \<Longrightarrow> state_at (committed r) i = field_commit (state_at r i)"
  by (simp add: committed_def)

lemma commit_tracked: "tree_ok r \<Longrightarrow> tree_ok (committed r)"
  unfolding tree_ok_def using commit_clean commit_live by (auto simp: committed_at) (auto simp: committed_def)

lemma commit_server_ok:
  assumes "server_ok s" "sctx s \<noteq> None"
  shows "server_ok (clearChangeTrees s)"
proof -
  have "tree_ok (sroot s)" using assms by (auto simp: server_ok_def)
  then show ?thesis
    using assms commit_tracked [of "sroot s"] committed_shape [of "sroot s"] class_ok_shape [of "committed (sroot s)" "sroot s"]
      shape_entry [of "committed (sroot s)" "sroot s"] filtered_of_shape [of "committed (sroot s)" "sroot s"]
    by (auto simp: server_ok_def clear_committed committed_def)
qed

section \<open>A tick\<close>

text \<open>What a client is sent of a tick, as one run per field.\<close>

definition steady :: "filters \<Rightarrow> StateRoot \<Rightarrow> nat \<Rightarrow> nat \<Rightarrow> bool" where
  "steady fs s c i = (ffiltered (ifields (sroot s) ! i) \<longrightarrow> svisible s i c \<and> evaluateFilter fs i c)"

definition flip_run :: "filters \<Rightarrow> StateRoot \<Rightarrow> nat \<Rightarrow> nat \<Rightarrow> jsval list list" where
  "flip_run fs s c i =
     (let r = sroot s
      in if evaluateFilter fs i c then field_full i (coll_ref r i) (state_at r i) else field_hide i (coll_ref r i) (state_at r i))"

definition tick_runs :: "filters \<Rightarrow> StateRoot \<Rightarrow> nat \<Rightarrow> (nat \<times> jsval list list) list" where
  "tick_runs fs s c =
     (let r = sroot s
      in map (\<lambda>i. (i, change_ops i (state_at r i))) (filter (steady fs s c) (ichanges r))
         @ map (\<lambda>i. (i, dirty_ops (coll_ref r i) (state_at r i))) (filter (steady fs s c) (idirty r))
         @ map (\<lambda>i. (i, flip_run fs s c i)) (filter (\<lambda>i. svisible s i c \<noteq> evaluateFilter fs i c) (filtered_of r)))"

lemma steady_guard: "guard_holds fs (svisible s) c (own_guard (sroot s) i Normal) = steady fs s c i"
  by (simp add: own_guard_holds steady_def)

definition shown :: "filters \<Rightarrow> nat list \<Rightarrow> StateRoot \<Rightarrow> StateRoot" where
  "shown fs cs s = s\<lparr>svisible := (\<lambda>i c. if i \<in> set (filtered_of (sroot s)) \<and> c \<in> set cs then evaluateFilter fs i c else svisible s i c)\<rparr>"

lemma deltas_right:
  assumes "server_ok s" "sctx s \<noteq> None"
  shows "generateDeltas fs cs s = (map (\<lambda>c. (c, concat (map snd (tick_runs fs s c)))) cs, shown fs cs s)"
proof -
  obtain ctx where ctx: "sctx s = Some ctx" using assms(2) by blast
  let ?r = "sroot s"
  have o: "ionwire ?r" "ecfiltered ctx = filtered_of ?r" using assms(1) ctx by (auto simp: server_ok_def)
  define out where "out = concat (map (\<lambda>i. tagged (own_guard ?r i Normal) (change_ops i (state_at ?r i))) (ichanges ?r))
     @ concat (map (\<lambda>i. tagged (own_guard ?r i Normal) (dirty_ops (coll_ref ?r i) (state_at ?r i))) (idirty ?r))"
  define em where "em = (if isDirty ?r then visit ?r new_emitter else new_emitter)"
  have e: "emits new_emitter out em"
    using visit_emits [OF o(1), of new_emitter] by (auto simp: em_def out_def isDirty_def)
  then have nf: "newFiltered em = []" by (simp add: emits_def new_emitter_def)
  define tr where "tr = (if cs \<noteq> [] \<and> ecfiltered ctx \<noteq> [] then transitions fs (svisible s) ?r cs (ecfiltered ctx) em (\<lambda>_ _. None) else (em, \<lambda>_ _. None))"
  have t: "emits em (concat (map (flip_out fs (svisible s) ?r cs) (filtered_of ?r))) (fst tr) \<and> results_ok fs (snd tr)"
  proof (cases "cs = [] \<or> filtered_of ?r = []")
    case True
    then have z: "tr = (em, \<lambda>_ _. None)" "concat (map (flip_out fs (svisible s) ?r cs) (filtered_of ?r)) = []"
      using o(2) by (auto simp: tr_def flip_out_def)
    show ?thesis unfolding z by simp
  next
    case False
    then show ?thesis
      using transitions_emit [OF o(1) results_ok_empty nf, of fs "svisible s" cs "filtered_of ?r"] o(2) by (simp add: tr_def)
  qed
  note t = conjunct1 [OF t] conjunct2 [OF t]
  have all: "emits new_emitter (out @ concat (map (flip_out fs (svisible s) ?r cs) (filtered_of ?r))) (fst tr)"
    by (rule emits_trans [OF e t(1)])
  have "ops_for fs (svisible s) c (fst tr) = concat (map snd (tick_runs fs s c))" if "c \<in> set cs" for c
    unfolding ops_for_chosen [OF all]
    by (simp add: out_def chosen_runs chosen_flips [OF that] steady_guard tick_runs_def Let_def flip_run_def comp_def)
  then have p: "fst (per_client fs (svisible s) (fst tr) cs (snd tr)) = map (\<lambda>c. (c, concat (map snd (tick_runs fs s c)))) cs"
    using per_client_right(1) [OF new_emitter_known [OF all] t(2), of "svisible s" cs] by simp
  have "results_ok fs (snd (per_client fs (svisible s) (fst tr) cs (snd tr)))"
    by (rule per_client_right(2) [OF new_emitter_known [OF all] t(2)])
  then have v: "fst (set_visibles fs (ecfiltered ctx) cs (svisible s) (snd (per_client fs (svisible s) (fst tr) cs (snd tr)))) = svisible (shown fs cs s)"
    by (simp add: set_visibles_right shown_def o(2))
  have g: "generateDeltas fs cs s =
    (case tr of (em, res) \<Rightarrow> (case per_client fs (svisible s) em cs res of
      (out, res) \<Rightarrow> (out, s\<lparr>svisible := fst (set_visibles fs (ecfiltered ctx) cs (svisible s) res)\<rparr>)))"
    unfolding generateDeltas_def tr_def em_def by (simp add: ctx Let_def)
  show ?thesis unfolding g using p v by (simp add: case_prod_beta) (simp add: shown_def)
qed

text \<open>The runs of a tick are of distinct fields, and each does to the field what the client's view asks for.\<close>

lemma filtered_of_iff: "i \<in> set (filtered_of r) \<longleftrightarrow> i < length (ifields r) \<and> ffiltered (ifields r ! i)"
  by (auto simp: filtered_of_def)

lemma change_not_dirty: "tree_ok r \<Longrightarrow> i \<in> set (ichanges r) \<Longrightarrow> i \<notin> set (idirty r)"
  unfolding tree_ok_def by (metis is_coll.elims(1) state_dirty.simps(1))

lemma tick_runs_distinct:
  assumes "tree_ok (sroot s)"
  shows "distinct (map fst (tick_runs fs s c))"
proof -
  have d: "distinct (ichanges (sroot s))" "distinct (idirty (sroot s))" "distinct (filtered_of (sroot s))"
    using assms by (auto simp: tree_ok_def filtered_of_def)
  show ?thesis
    using d change_not_dirty [OF assms]
    by (auto simp: tick_runs_def Let_def comp_def steady_def filtered_of_iff)
qed

lemma prim_wire_shape: "live (FPrim p) changed \<Longrightarrow> \<not> isWireRef (prim_toWire p) \<and> \<not> isWireRef (zeroWire (pkind p))"
  using live_prim [of p changed] prim.on_wire [of "pkind p" "pval p"] zero_decodes [of "pkind p" "pval p"] not_ref
  by (auto simp: prim_toWire_def)

lemma full_shape: "live (state_at r i) changed \<Longrightarrow> i < length (ifields r) \<Longrightarrow> run_shape r i (field_full i (coll_ref r i) (state_at r i))"
  using prim_wire_shape content_shape by (cases "state_at r i") (auto simp: run_shape_def)

lemma hide_shape: "live (state_at r i) changed \<Longrightarrow> i < length (ifields r) \<Longrightarrow> run_shape r i (field_hide i (coll_ref r i) (state_at r i))"
  using prim_wire_shape by (cases "state_at r i") (auto simp: run_shape_def coll_shape_def)

lemma change_shape: "live (state_at r i) changed \<Longrightarrow> i < length (ifields r) \<Longrightarrow> run_shape r i (change_ops i (state_at r i))"
  using prim_wire_shape by (cases "state_at r i") (auto simp: run_shape_def)

lemma dirty_shape: "i < length (ifields r) \<Longrightarrow> run_shape r i (dirty_ops (coll_ref r i) (state_at r i))"
  using ops_shape by (cases "state_at r i") (auto simp: run_shape_def)

lemma tick_runs_shape:
  assumes "tree_ok (sroot s)" "(i, ops) \<in> set (tick_runs fs s c)"
  shows "run_shape (sroot s) i ops"
proof -
  let ?r = "sroot s"
  have i: "i < length (ifields ?r)" using assms by (auto simp: tick_runs_def Let_def tree_ok_def filtered_of_iff)
  have l: "live (state_at ?r i) (i \<in> set (ichanges ?r))" using assms(1) i by (simp add: tree_ok_def)
  show ?thesis using assms(2) full_shape [OF l i] hide_shape [OF l i] change_shape [OF l i] dirty_shape [OF i]
    by (auto simp: tick_runs_def flip_run_def Let_def)
qed

text \<open>What a field of the replica of a client is to be after a tick in which the client sees the field, or not.\<close>

definition meets :: "bool \<Rightarrow> FieldState \<Rightarrow> FieldState \<Rightarrow> bool" where
  "meets now x y = (same_kind x y \<and> (if now then mirrors (field_commit x) y else blank y))"

lemma mirrors_meets: "mirrors (field_commit x) y \<Longrightarrow> meets True x y"
  using pends_kind [OF mirrors_pends] commit_kind [of x] by (simp add: meets_def same_kind_iff)

definition now_sees :: "filters \<Rightarrow> StateRoot \<Rightarrow> nat \<Rightarrow> nat \<Rightarrow> bool" where
  "now_sees fs s c i = (ffiltered (ifields (sroot s) ! i) \<longrightarrow> evaluateFilter fs i c)"

lemma change_is_tick: "i \<in> set (ichanges r) \<Longrightarrow> tree_ok r \<Longrightarrow> change_ops i (state_at r i) = field_ops i ref True (state_at r i)"
  unfolding tree_ok_def by (cases "state_at r i") force+

lemma dirty_is_tick: "i \<in> set (idirty r) \<Longrightarrow> tree_ok r \<Longrightarrow> dirty_ops ref (state_at r i) = field_ops i ref False (state_at r i)"
  unfolding tree_ok_def by (cases "state_at r i") force+

lemma tick_run_meets:
  assumes t: "tree_ok (sroot s)" and c: "client_ok s c R" and m: "(i, ops) \<in> set (tick_runs fs s c)" and j: "loc (sroot s) R i = Some j"
  shows "same_kind (state_at (sroot s) i) (local_at R j)
    \<and> (\<exists>y'. field_applies i (coll_ref (sroot s) i) ops (local_at R j) y' \<and> meets (now_sees fs s c i) (state_at (sroot s) i) y')"
proof -
  let ?r = "sroot s" and ?x = "state_at (sroot s) i" and ?y = "local_at R j" and ?ref = "coll_ref (sroot s) i"
  have i: "i < length (ifields ?r)" using tick_runs_shape [OF t m] by (simp add: run_shape_def)
  have l: "live ?x (i \<in> set (ichanges ?r))" using t i by (simp add: tree_ok_def)
  have k: "same_kind ?x ?y" and y: "if sees s c i then pends ?y (i \<in> set (ichanges ?r)) ?x else blank ?y"
    using c i j by (auto simp: client_ok_def)
  from m consider
      (change) "i \<in> set (ichanges ?r)" "steady fs s c i" "ops = change_ops i ?x"
    | (dirty) "i \<in> set (idirty ?r)" "steady fs s c i" "ops = dirty_ops ?ref ?x"
    | (reveal) "ffiltered (ifields ?r ! i)" "\<not> svisible s i c" "evaluateFilter fs i c" "ops = field_full i ?ref ?x"
    | (hide) "ffiltered (ifields ?r ! i)" "svisible s i c" "\<not> evaluateFilter fs i c" "ops = field_hide i ?ref ?x"
    by (auto simp: tick_runs_def flip_run_def Let_def filtered_of_iff split: if_splits)
  then have "\<exists>y'. field_applies i ?ref ops ?y y' \<and> meets (now_sees fs s c i) ?x y'"
  proof cases
    case change
    then have "pends ?y True ?x" "now_sees fs s c i" using y by (auto simp: steady_def sees_def now_sees_def)
    then show ?thesis using tick_delivers [of ?y True ?x i ?ref] mirrors_meets change_is_tick [OF change(1) t] change(3) by auto
  next
    case dirty
    have nc: "i \<notin> set (ichanges ?r)" using change_not_dirty [OF t] dirty(1) by blast
    then have "pends ?y False ?x" "now_sees fs s c i" using y dirty(2) by (auto simp: steady_def sees_def now_sees_def)
    then show ?thesis using tick_delivers [of ?y False ?x i ?ref] mirrors_meets dirty_is_tick [OF dirty(1) t] dirty(3) by auto
  next
    case reveal
    then have "blank ?y" "now_sees fs s c i" using y by (auto simp: sees_def now_sees_def)
    then show ?thesis using full_fills [OF l _ k, of i ?ref] mirrors_meets reveal(4) by auto
  next
    case hide
    then have "pends ?y (i \<in> set (ichanges ?r)) ?x" "\<not> now_sees fs s c i" using y by (auto simp: sees_def now_sees_def)
    then show ?thesis using hide_blanks [of ?y _ ?x i ?ref] hide(4) by (auto simp: meets_def)
  qed
  then show ?thesis using k by blast
qed

text \<open>A field without a run is as it is to be.\<close>

lemma field_applies_none: "field_applies i ref [] y y' \<Longrightarrow> y' = y"
  by (auto simp: field_applies_def applies_def)

lemma idle_mirrors:
  assumes "pends y False x" "\<not> state_dirty x"
  shows "mirrors (field_commit x) y"
proof -
  have "field_ops i ref False x = []" for i ref using assms(2) by (cases x) simp_all
  then show ?thesis using tick_delivers [OF assms(1)] field_applies_none by metis
qed

lemma tick_rest_meets:
  assumes t: "tree_ok (sroot s)" and c: "client_ok s c R" and i: "i < length (ifields (sroot s))"
    and n: "i \<notin> fst ` set (tick_runs fs s c)" and j: "loc (sroot s) R i = Some j"
  shows "meets (now_sees fs s c i) (state_at (sroot s) i) (local_at R j)"
proof -
  let ?r = "sroot s" and ?x = "state_at (sroot s) i" and ?y = "local_at R j"
  have k: "same_kind ?x ?y" and y: "if sees s c i then pends ?y (i \<in> set (ichanges ?r)) ?x else blank ?y"
    using c i j by (auto simp: client_ok_def)
  have ch: "steady fs s c i \<Longrightarrow> i \<notin> set (ichanges ?r) \<and> i \<notin> set (idirty ?r)"
    and fl: "ffiltered (ifields ?r ! i) \<Longrightarrow> svisible s i c = evaluateFilter fs i c"
    using n i by (auto simp: tick_runs_def Let_def filtered_of_iff image_Un image_image)
  show ?thesis
  proof (cases "sees s c i")
    case True
    then have s: "steady fs s c i" "now_sees fs s c i" using fl by (auto simp: sees_def steady_def now_sees_def)
    then have "pends ?y False ?x" "\<not> state_dirty ?x" using y True ch [OF s(1)] t i by (auto simp: tree_ok_def)
    then show ?thesis using idle_mirrors mirrors_meets s(2) by simp
  next
    case False
    then have "\<not> now_sees fs s c i" using fl by (auto simp: sees_def now_sees_def)
    then show ?thesis using y False k by (simp add: meets_def)
  qed
qed

lemma shown_sees: "c \<in> set cs \<Longrightarrow> i < length (ifields (sroot s)) \<Longrightarrow> sees (shown fs cs s) c i = now_sees fs s c i"
  by (simp add: sees_def shown_def now_sees_def filtered_of_iff)

lemma clear_sees: "i < length (ifields (sroot s)) \<Longrightarrow> sees (s\<lparr>sroot := committed (sroot s)\<rparr>) c i = sees s c i"
  by (simp add: sees_def committed_def)

lemma in_step_ok:
  assumes "bound (sroot s) R" "in_step s c R" "ichanges (sroot s) = []"
    and "\<forall>i < length (ifields (sroot s)). \<forall>j. loc (sroot s) R i = Some j \<longrightarrow> same_kind (state_at (sroot s) i) (local_at R j)"
  shows "client_ok s c R"
  using assms mirrors_pends by (auto simp: client_ok_def in_step_def)

text \<open>The ops a client is sent apply, and leave its replica in step with the committed state.\<close>

lemma tick_reaches:
  assumes "server_ok s" "sctx s \<noteq> None" "client_ok s c R" "c \<in> set cs"
  shows "\<exists>R'. applyDelta (concat (map snd (tick_runs fs s c))) R = (None, R')
    \<and> in_step (clearChangeTrees (shown fs cs s)) c R' \<and> client_ok (clearChangeTrees (shown fs cs s)) c R'"
proof -
  let ?r = "sroot s"
  have t: "tree_ok ?r" and names: "distinct (map fname (ifields ?r))" using assms(1,2) by (auto simp: server_ok_def class_ok_def)
  have b: "bound ?r R" using assms(3) by (simp add: client_ok_def)
  obtain R' where R': "applyDelta (concat (map snd (tick_runs fs s c))) R = (None, R')" "bound ?r R'" "loc ?r R' = loc ?r R"
    "\<And>i j. i < length (ifields ?r) \<Longrightarrow> loc ?r R i = Some j \<Longrightarrow>
       (if i \<in> fst ` set (tick_runs fs s c) then meets (now_sees fs s c i) (state_at ?r i) (local_at R' j) else local_at R' j = local_at R j)"
    using frame_applies [OF names tick_runs_distinct [OF t] _ b, of fs c "\<lambda>i. meets (now_sees fs s c i) (state_at ?r i)"]
      tick_runs_shape [OF t, of _ _ fs c] tick_run_meets [OF t assms(3), of _ _ fs] by fastforce
  have m: "meets (now_sees fs s c i) (state_at ?r i) (local_at R' j)" if "i < length (ifields ?r)" "loc ?r R i = Some j" for i j
    using R'(4) [OF that] tick_rest_meets [OF t assms(3) that(1) _ that(2), of fs] by (auto split: if_splits)
  let ?q = "committed ?r" and ?s = "(shown fs cs s)\<lparr>sroot := committed (sroot s)\<rparr>"
  have s: "clearChangeTrees (shown fs cs s) = ?s" using clear_committed [of "shown fs cs s"] t by (simp add: shown_def)
  have sh: "shape ?q = shape ?r" by (rule committed_shape)
  have n: "length (ifields ?q) = length (ifields ?r)" by (rule shape_length [OF sh])
  have l: "loc ?q R' i = loc ?r R i" if "i < length (ifields ?r)" for i using shape_loc [OF sh] n that R'(3) by simp
  have v: "sees ?s c i = now_sees fs s c i" if "i < length (ifields ?r)" for i
    using shown_sees [OF assms(4) that, of fs] clear_sees [of i "shown fs cs s" c] that by (simp add: shown_def)
  have st: "in_step ?s c R'"
    using m by (auto simp: in_step_def n l v committed_at meets_def)
  have "client_ok ?s c R'"
    by (rule in_step_ok) (use shape_bound [OF sh [symmetric] R'(2)] st m in \<open>auto simp: n l committed_at meets_def same_kind_iff commit_kind\<close>,
        simp add: committed_def)
  then show ?thesis using R'(1) st s by auto
qed

end
