(* ===== verification/FlatJoin.thy ===== *)
theory FlatJoin
  imports FlatSync
begin

text \<open>
  A snapshot: the server gives the root its refIds if it has none, the receiver binds its own class to
  the server's by field names, and fills a blank replica with what the client sees.
\<close>

section \<open>The server's side\<close>

definition enrolled :: "Instance \<Rightarrow> Instance" where
  "enrolled r =
     (if ionwire r then r
      else r\<lparr>ionwire := True, ifields := map (\<lambda>f. f\<lparr>fstate := track (fstate f)\<rparr>) (ifields r)\<rparr>)"

definition snap_runs :: "filters \<Rightarrow> StateRoot \<Rightarrow> nat \<Rightarrow> (nat \<times> jsval list list) list" where
  "snap_runs fs s c =
     (let r = sroot s
      in map (\<lambda>i. (i, snap_ops i (coll_ref r i) (state_at r i))) (filter (now_sees fs s c) [0..<length (ifields r)]))"

text \<open>The server after a snapshot for a client.\<close>

definition enlisted :: "filters \<Rightarrow> nat \<Rightarrow> StateRoot \<Rightarrow> StateRoot" where
  "enlisted fs c s =
     shown fs [c] (s\<lparr>sroot := enrolled (sroot s), sctx := Some \<lparr>ectable = [entry_of (sroot s)], ecfiltered = filtered_of (sroot s)\<rparr>\<rparr>)"

lemma track_kind: "kind_of (track x) = kind_of x"
  by (cases x rule: kind_of.cases) simp_all

lemma enrolled_shape: "shape (enrolled r) = shape r"
  by (simp add: enrolled_def shape_def field_shape_def track_kind comp_def)

lemma fold_add_once: "distinct (xs @ ys) \<Longrightarrow> fold add_once ys xs = xs @ ys"
  by (induction ys arbitrary: xs) (auto simp: add_once_def)

lemma root_ref_right:
  assumes "server_ok s" "ctx = (case sctx s of None \<Rightarrow> \<lparr>ectable = [], ecfiltered = []\<rparr> | Some ctx \<Rightarrow> ctx)"
  obtains em where "root_ref (sroot s, ctx) new_emitter
      = (enrolled (sroot s), \<lparr>ectable = [entry_of (sroot s)], ecfiltered = filtered_of (sroot s)\<rparr>, em)"
    "em_ops em = []" "guards_known em"
proof (cases "sctx s")
  case None
  let ?known = "filter (\<lambda>i. ffiltered (ifields (sroot s) ! i)) [0..<length (ifields (sroot s))]"
  have k: "fold add_once ?known [] = ?known" using fold_add_once [of "[]" ?known] by simp
  have f: "(case fstate f of FPrim p \<Rightarrow> f | FColl t \<Rightarrow> f\<lparr>fstate := FColl (coll_track t)\<rparr>) = f\<lparr>fstate := track (fstate f)\<rparr>" for f :: Field
    using same_field [of f] by (cases "fstate f") simp_all
  show ?thesis
    by (rule that [of "new_emitter\<lparr>newFiltered := ?known\<rparr>"])
      (use assms None in \<open>auto simp: root_ref_def server_ok_def enrolled_def filtered_of_def k f Let_def new_emitter_def guards_known_def\<close>)
next
  case (Some c)
  show ?thesis
    by (rule that [of new_emitter])
      (use assms Some in \<open>auto simp: root_ref_def server_ok_def enrolled_def Let_def new_emitter_def guards_known_def\<close>)
qed

lemma emits_from: "em_ops em0 = [] \<Longrightarrow> emits em0 out em \<Longrightarrow> em_ops em = out"
  by (simp add: emits_def)

lemma snapshot_right:
  assumes "server_ok s" "\<not> isDirty (sroot s)"
  shows "encodeSnapshot fs (Some c) s =
    (Inr (defineOp (entry_of (sroot s)) # concat (map snd (snap_runs fs (enlisted fs c s) c))), enlisted fs c s)"
proof -
  define ctx where "ctx = (case sctx s of None \<Rightarrow> \<lparr>ectable = [], ecfiltered = []\<rparr> | Some ctx \<Rightarrow> ctx)"
  obtain em where em: "root_ref (sroot s, ctx) new_emitter
      = (enrolled (sroot s), \<lparr>ectable = [entry_of (sroot s)], ecfiltered = filtered_of (sroot s)\<rparr>, em)"
    "em_ops em = []" "guards_known em" using root_ref_right [OF assms(1) ctx_def] by blast
  let ?r = "enrolled (sroot s)"
  obtain body memo res where l: "select_loop fs (svisible s) c (em_ops (root_content ?r em)) (Map.empty, \<lambda>_ _. None) = (body, memo, res)"
    using prod_cases3 by blast
  have o: "body = chosen fs (svisible s) c (em_ops (root_content ?r em))" "results_ok fs res"
    using select_loop_right [OF memo_ok_empty results_ok_empty, of fs "svisible s" c "em_ops (root_content ?r em)"]
    by (simp_all add: right_def l chosen_def)
  have "body = concat (map snd (snap_runs fs (enlisted fs c s) c))"
    unfolding o(1) emits_from [OF em(2) root_content_emits]
    by (simp add: chosen_runs snap_runs_def Let_def enlisted_def shown_def own_guard_holds now_sees_def [abs_def])
  then show ?thesis
    using assms(2) em(1) o(2) l shape_length [OF enrolled_shape [of "sroot s"]] filtered_of_shape [OF enrolled_shape [of "sroot s"]]
    by (simp add: encodeSnapshot_def ctx_def [symmetric] Let_def select_def set_visibles_right enlisted_def shown_def)
qed

lemma enlisted_root: "sroot (enlisted fs c s) = enrolled (sroot s)"
  by (simp add: enlisted_def shown_def)

lemma enrolled_tracked:
  assumes "if ionwire r then tree_ok r else untouched r"
  shows "tree_ok (enrolled r)"
proof (cases "ionwire r")
  case False
  have d: "idle x \<Longrightarrow> \<not> state_dirty (track x)" for x using idle_track(2) [of x] by (cases x) auto
  show ?thesis using assms False idle_track(1) d by (auto simp: tree_ok_def enrolled_def untouched_def)
qed (use assms in \<open>simp add: enrolled_def\<close>)

lemma enlisted_ok:
  assumes "server_ok s"
  shows "server_ok (enlisted fs c s)"
proof -
  note sh = enrolled_shape [of "sroot s"]
  have "tree_ok (enrolled (sroot s))" by (rule enrolled_tracked [OF server_ok_cases [OF assms]])
  moreover have "iname (enrolled (sroot s)) = iname (sroot s)" "ionwire (enrolled (sroot s))" by (simp_all add: enrolled_def)
  ultimately show ?thesis
    using assms class_ok_shape [OF sh] shape_entry [OF sh] filtered_of_shape [OF sh]
    by (simp add: server_ok_def enlisted_def shown_def)
qed

section \<open>Binding\<close>

text \<open>A receiver's class that the code accepts: fields it shares with the server's class have the same types.\<close>

definition compatible :: "Instance \<Rightarrow> jsstring \<Rightarrow> Field list \<Rightarrow> bool" where
  "compatible r name fs =
     (name = iname r \<and> class_ok fs
      \<and> (\<forall>i < length (ifields r). \<forall>j. field_index (fname (ifields r ! i)) fs = Some j \<longrightarrow>
           state_type (fstate (fs ! j)) = state_type (state_at r i)))"

lemma localFields_right:
  "\<forall>(name, type) \<in> set nts. \<forall>j. field_index name fs = Some j \<longrightarrow> state_type (fstate (fs ! j)) = type \<Longrightarrow>
   localFields class nts fs = Inr (map (\<lambda>(name, type). field_index name fs) nts)"
proof (induction nts)
  case (Cons nt nts)
  obtain name type where nt: "nt = (name, type)" by fastforce
  have ih: "localFields class nts fs = Inr (map (\<lambda>(name, type). field_index name fs) nts)" using Cons by simp
  show ?case using Cons.prems nt ih by (auto split: option.splits)
qed simp

lemma compatible_local:
  assumes "compatible r name fs"
  shows "localFields class (zip (map fname (ifields r)) (map (state_type \<circ> fstate) (ifields r))) fs
    = Inr (map (\<lambda>i. field_index (fname (ifields r ! i)) fs) [0..<length (ifields r)])"
proof -
  have z: "zip (map fname (ifields r)) (map (state_type \<circ> fstate) (ifields r)) = map (\<lambda>i. (fname (ifields r ! i), state_type (state_at r i))) [0..<length (ifields r)]"
    by (rule nth_equalityI) simp_all
  have "\<forall>(name, type) \<in> set (map (\<lambda>i. (fname (ifields r ! i), state_type (state_at r i))) [0..<length (ifields r)]).
      \<forall>j. field_index name fs = Some j \<longrightarrow> state_type (fstate (fs ! j)) = type"
    using assms by (auto simp: compatible_def)
  from localFields_right [OF this] show ?thesis unfolding z by (simp add: comp_def)
qed

lemma compatible_kind:
  assumes "compatible r name fs" "class_ok (ifields r)" "i < length (ifields r)" "field_index (fname (ifields r ! i)) fs = Some j"
  shows "kind_of (fstate (fs ! j)) = kind_of (state_at r i)"
proof (rule kind_type_inj)
  have "j < length fs" using field_index_Some [OF assms(4)] by blast
  then show "kind_ok (kind_of (fstate (fs ! j)))" using assms(1) by (simp add: compatible_def class_ok_def list_all_length)
  show "kind_ok (kind_of (state_at r i))" using assms(2,3) by (simp add: class_ok_def list_all_length)
  show "kind_type (kind_of (fstate (fs ! j))) = kind_type (kind_of (state_at r i))"
    using assms by (simp add: compatible_def flip: kind_type_of)
qed

lemma parseTypes_right:
  assumes "class_ok fs"
  shows "parseTypes (map JStr (map (state_type \<circ> fstate) fs)) = Some (map (kind_parsed \<circ> kind_of \<circ> fstate) fs)"
proof -
  have "list_all (\<lambda>f. kind_ok (kind_of (fstate f))) fs" using assms by (simp add: class_ok_def)
  then show ?thesis by (induction fs) (simp_all add: kind_type_of kind_parse)
qed

text \<open>The refIds of the collections: the \<open>i\<close>-th field's, if it is a collection, is the one after those of the collections before it.\<close>

definition coll_count :: "bool list \<Rightarrow> nat \<Rightarrow> nat" where
  "coll_count cs i = length (filter id (take i cs))"

lemma bind_below: "x < nxt \<Longrightarrow> drefs (bind_refs nxt cs ls fs d) x = drefs d x \<and> dignored (bind_refs nxt cs ls fs d) x = dignored d x"
  by (induction nxt cs ls fs d rule: bind_refs.induct) (auto split: option.splits)

lemma bind_rest:
  "dbinding (bind_refs nxt cs ls fs d) = dbinding d \<and> dclasses (bind_refs nxt cs ls fs d) = dclasses d
   \<and> rootBound (bind_refs nxt cs ls fs d) = rootBound d"
  by (induction nxt cs ls fs d rule: bind_refs.induct) (auto split: option.splits)

lemma bind_at:
  "length ls = length cs \<Longrightarrow> i < length cs \<Longrightarrow> cs ! i \<Longrightarrow>
   (case ls ! i of
      Some j \<Rightarrow> is_coll (fstate (fs ! j)) \<longrightarrow> drefs (bind_refs nxt cs ls fs d) (nxt + int (coll_count cs i)) = Some (RField j)
        \<and> \<not> dignored (bind_refs nxt cs ls fs d) (nxt + int (coll_count cs i))
    | None \<Rightarrow> dignored (bind_refs nxt cs ls fs d) (nxt + int (coll_count cs i)))"
proof (induction nxt cs ls fs d arbitrary: i rule: bind_refs.induct)
  case (1 nxt cs l ls fs d)
  show ?case
  proof (cases i)
    case 0
    then show ?thesis using bind_below [of nxt "nxt + 1" cs ls fs] by (auto simp: coll_count_def split: option.splits)
  next
    case (Suc k)
    have e: "nxt + int (coll_count (True # cs) i) = nxt + 1 + int (coll_count cs k)" by (simp add: coll_count_def Suc)
    show ?thesis unfolding e bind_refs.simps using "1.IH" [of k] "1.prems" by (simp add: Suc)
  qed
next
  case (2 nxt cs l ls fs d)
  then obtain k where k: "i = Suc k" by (cases i) auto
  have e: "coll_count (False # cs) i = coll_count cs k" by (simp add: coll_count_def k)
  show ?case unfolding e bind_refs.simps using "2.IH" [of k] "2.prems" by (simp add: k)
qed auto

lemma coll_ref_count: "int (coll_ref r i) = 1 + int (coll_count (map (is_coll \<circ> fstate) (ifields r)) i)"
  by (simp add: coll_ref_def coll_count_def take_map filter_map comp_def)

lemma reset_blank: "kind_ok (kind_of x) \<Longrightarrow> blank (reset_state x) \<and> kind_of (reset_state x) = kind_of x"
proof (cases x rule: reset_state.cases)
  case (1 p)
  assume "kind_ok (kind_of x)"
  then show ?thesis using 1
    by (cases "pkind p") (simp_all add: prim_reset_def isIntOf.simps int_range_zero fround_zero fromFixed_zero)
qed (simp_all add: map_reset_def set_reset_def array_reset_def)

text \<open>The first \<open>DEFINE\<close> binds a new replica.\<close>

definition binding_of :: "Instance \<Rightarrow> ClassBinding" where
  "binding_of r =
     \<lparr>bentry = entry_of r, bcollections = map (is_coll \<circ> fstate) (ifields r), bnested = replicate (length (ifields r)) False, blocal = None\<rparr>"

lemma parsed_columns:
  "map isCollectionField (map (kind_parsed \<circ> kind_of \<circ> fstate) fs) = map (is_coll \<circ> fstate) fs"
  "map is_nested (map (kind_parsed \<circ> kind_of \<circ> fstate) fs) = replicate (length fs) False"
  by (rule nth_equalityI; simp add: kind_parsed_coll kind_type_of)+

definition bound_replica :: "Instance \<Rightarrow> jsstring \<Rightarrow> Field list \<Rightarrow> ReplicaRoot" where
  "bound_replica r name fs =
     (let l = map (\<lambda>i. field_index (fname (ifields r ! i)) fs) [0..<length (ifields r)];
          b = (binding_of r)\<lparr>blocal := Some l\<rparr>;
          fs' = map (\<lambda>f. f\<lparr>fstate := reset_state (fstate f)\<rparr>) fs;
          d = \<lparr>drefs = [0 \<mapsto> RRoot], dignored = (\<lambda>_. False), dclasses = [0 \<mapsto> b], dbinding = Some b, rootBound = False\<rparr>
      in \<lparr>rname = name, rfields = fs', rctx = (bind_refs 1 (bcollections b) l fs' d)\<lparr>rootBound := True\<rparr>\<rparr>)"

lemma define_binds:
  assumes "compatible r name fs" "class_ok (ifields r)"
  shows "rep_apply (defineOp (entry_of r)) (new_replica name fs) = (None, bound_replica r name fs)"
proof -
  let ?op = "defineOp (entry_of r)"
  let ?R = "(new_replica name fs)\<lparr>rctx := (rctx (new_replica name fs))\<lparr>dclasses := [0 \<mapsto> binding_of r]\<rparr>\<rparr>"
  have a: "arg ?op 0 = nat_val 4" "arg ?op 1 = JNum (num_of_int 0)" "arg ?op 2 = JStr (iname r)" "length ?op = 5"
    "arg ?op 3 = JArr (map JStr (map fname (ifields r)))" "arg ?op 4 = JArr (map JStr (map (state_type \<circ> fstate) (ifields r)))"
    by (simp_all add: defineOp_def entry_of_def arg_def)
  have e: "\<lparr>classId = the_num (arg ?op 1), cname = the_string (arg ?op 2), cfields = strings_of (arg ?op 3), ctypes = strings_of (arg ?op 4)\<rparr> = entry_of r"
    unfolding a by (simp add: entry_of_def comp_def)
  have i: "isInt (arg ?op 0)" "isInt (arg ?op 1)" "the_int (arg ?op 1) = 0" unfolding a by simp_all
  have n: "rname ?R = cname (entry_of r)" "\<not> rootBound (rctx ?R)" using assms(1) by (simp_all add: new_replica_def compatible_def entry_of_def)
  have l: "localFields (cname (bentry (binding_of r))) (zip (cfields (bentry (binding_of r))) (ctypes (bentry (binding_of r)))) fs
      = Inr (map (\<lambda>i. field_index (fname (ifields r ! i)) fs) [0..<length (ifields r)])"
    using compatible_local [OF assms(1)] by (simp add: binding_of_def entry_of_def)
  have c: "int_of_num (classId (bentry (binding_of r))) = 0" by (simp add: binding_of_def entry_of_def)
  have "\<exists>R. bind_root (binding_of r) ?R = Inr R \<and> R\<lparr>rctx := (rctx R)\<lparr>rootBound := True\<rparr>\<rparr> = bound_replica r name fs"
    unfolding bind_root_def using l c
    by (simp add: binding_of_def new_replica_def bound_replica_def Let_def fun_upd_idem)
  then obtain R where R: "bind_root (binding_of r) ?R = Inr R" "R\<lparr>rctx := (rctx R)\<lparr>rootBound := True\<rparr>\<rparr> = bound_replica r name fs" by blast
  let ?parsed = "map (kind_parsed \<circ> kind_of \<circ> fstate) (ifields r)"
  have p: "(if is_arr (arg ?op 4) then parseTypes (elems (arg ?op 4)) else None) = Some ?parsed"
    unfolding a using parseTypes_right [OF assms(2)] by simp
  have g: "length ?op = 5 \<and> is_string (arg ?op 2) \<and> is_arr (arg ?op 3) \<and> length (elems (arg ?op 3)) = length (elems (arg ?op 4))
    \<and> list_all is_string (elems (arg ?op 3))"
    unfolding a by (simp add: list_all_iff)
  have b: "\<lparr>bentry = entry_of r, bcollections = map isCollectionField ?parsed, bnested = map is_nested ?parsed, blocal = None\<rparr> = binding_of r"
    unfolding parsed_columns binding_of_def ..
  have d: "(dclasses (rctx (new_replica name fs)))(0 \<mapsto> binding_of r) = [0 \<mapsto> binding_of r]" by (simp add: new_replica_def)
  have "rep_define ?op (new_replica name fs) = (None, bound_replica r name fs)"
    unfolding rep_define_def p option.case e Let_def b i(3) d using R n g i(2) by simp
  then show ?thesis unfolding rep_apply_def using i a(1) by (simp add: is_lit_nat_val)
qed

lemma reset_index: "field_index name (map (\<lambda>f. f\<lparr>fstate := reset_state (fstate f)\<rparr>) fs) = field_index name fs"
proof -
  have "find (\<lambda>i. fname (map (\<lambda>f. f\<lparr>fstate := reset_state (fstate f)\<rparr>) fs ! i) = name) [0..<length fs] = find (\<lambda>i. fname (fs ! i) = name) [0..<length fs]"
    by (rule find_cong) simp_all
  then show ?thesis by (simp add: field_index_def)
qed

lemma bound_replica_loc: "loc r (bound_replica r name fs) i = field_index (fname (ifields r ! i)) fs"
  by (simp add: loc_def bound_replica_def Let_def reset_index)

lemma bound_replica_at:
  assumes "compatible r name fs" "class_ok (ifields r)" "i < length (ifields r)" "loc r (bound_replica r name fs) i = Some j"
  shows "same_kind (state_at r i) (local_at (bound_replica r name fs) j)" "blank (local_at (bound_replica r name fs) j)"
proof -
  have j: "field_index (fname (ifields r ! i)) fs = Some j" using assms(4) by (simp add: bound_replica_loc)
  then have lt: "j < length fs" using field_index_Some by blast
  have k: "kind_of (fstate (fs ! j)) = kind_of (state_at r i)" by (rule compatible_kind [OF assms(1-3) j])
  have "kind_ok (kind_of (fstate (fs ! j)))" using assms(1) lt by (simp add: compatible_def class_ok_def list_all_length)
  then show "same_kind (state_at r i) (local_at (bound_replica r name fs) j)" "blank (local_at (bound_replica r name fs) j)"
    using reset_blank [of "fstate (fs ! j)"] k lt by (simp_all add: bound_replica_def Let_def same_kind_iff)
qed

lemma bound_replica_bound:
  assumes "compatible r name fs" "class_ok (ifields r)"
  shows "bound r (bound_replica r name fs)"
proof -
  let ?R = "bound_replica r name fs" and ?cs = "map (is_coll \<circ> fstate) (ifields r)"
  let ?l = "map (\<lambda>i. field_index (fname (ifields r ! i)) fs) [0..<length (ifields r)]" and ?fs = "map (\<lambda>f. f\<lparr>fstate := reset_state (fstate f)\<rparr>) fs"
  define b where "b = (binding_of r)\<lparr>blocal := Some ?l\<rparr>"
  define d where "d = \<lparr>drefs = [0 \<mapsto> RRoot], dignored = (\<lambda>_. False), dclasses = [0 \<mapsto> b], dbinding = Some b, rootBound = False\<rparr>"
  have R: "rctx ?R = (bind_refs 1 ?cs ?l ?fs d)\<lparr>rootBound := True\<rparr>" by (simp add: bound_replica_def Let_def d_def b_def binding_of_def)
  have zero: "drefs (rctx ?R) 0 = Some RRoot" "\<not> dignored (rctx ?R) 0" "dbinding (rctx ?R) = Some b"
    using bind_below [of 0 1 ?cs ?l ?fs d] bind_rest [of 1 ?cs ?l ?fs d] by (simp_all add: R d_def)
  have l: "?l = map (loc r ?R) [0..<length (ifields r)]" by (simp add: bound_replica_loc)
  have "case loc r ?R i of None \<Rightarrow> dignored (rctx ?R) (int (coll_ref r i))
      | Some j \<Rightarrow> drefs (rctx ?R) (int (coll_ref r i)) = Some (RField j) \<and> \<not> dignored (rctx ?R) (int (coll_ref r i))"
    if i: "i < length (ifields r)" "is_coll (state_at r i)" for i
  proof (cases "loc r ?R i")
    case None
    then show ?thesis using bind_at [of ?l ?cs i 1 ?fs d] i by (simp add: R coll_ref_count bound_replica_loc)
  next
    case (Some j)
    have "j < length fs" using Some field_index_Some by (auto simp: bound_replica_loc)
    then have "is_coll (fstate (?fs ! j))"
      using bound_replica_at(1) [OF assms i(1) Some] same_kind_type i(2) by (auto simp: bound_replica_def Let_def)
    then show ?thesis using bind_at [of ?l ?cs i 1 ?fs d] i Some by (simp add: R coll_ref_count bound_replica_loc)
  qed
  then show ?thesis using zero unfolding bound_def by (simp add: b_def binding_of_def entry_of_def l)
qed

section \<open>A client that joins\<close>

lemma snap_fills:
  assumes "live x False" "blank y" "same_kind x y"
  shows "\<exists>y'. field_applies i ref (snap_ops i ref x) y y' \<and> mirrors (field_commit x) y'"
proof (cases x)
  case (FPrim p)
  show ?thesis
  proof (cases "isZeroWire (prim_toWire p)")
    case True
    obtain q where q: "y = FPrim q" "pkind q = pkind p" using assms(3) FPrim by (cases y) auto
    have t: "prim_typed (pkind p) (pval p)" using live_prim assms(1) FPrim by blast
    have "agrees (pval q) (prim.seen (pkind p) (pval p))"
      by (rule zero_agrees [OF t]) (use True q assms(2) in \<open>simp_all add: prim_toWire_def\<close>)
    then show ?thesis using FPrim True q t field_applies_Nil by (intro exI [of _ y]) simp
  next
    case False
    then show ?thesis using full_fills [OF assms] FPrim by simp
  qed
next
  case (FColl t)
  then show ?thesis using full_fills [OF assms] by simp
qed

lemma snap_shape: "live (state_at r i) changed \<Longrightarrow> i < length (ifields r) \<Longrightarrow> run_shape r i (snap_ops i (coll_ref r i) (state_at r i))"
  using prim_wire_shape content_shape by (cases "state_at r i") (auto simp: run_shape_def)

lemma enlisted_sees: "i < length (ifields (sroot s)) \<Longrightarrow> sees (enlisted fs c s) c i = now_sees fs (enlisted fs c s) c i"
  using shape_length [OF enrolled_shape [of "sroot s"]] by (simp add: enlisted_def sees_def shown_def now_sees_def filtered_of_iff)

lemma clean_commit: "\<not> state_dirty x \<Longrightarrow> field_commit x = x"
  by (cases x) simp_all

text \<open>A new replica that applies the snapshot is in step with what its client sees.\<close>

lemma snapshot_reaches:
  assumes "server_ok s" "\<not> isDirty (sroot s)" "compatible (sroot s) name cls"
  shows "\<exists>R. applyDelta (defineOp (entry_of (sroot s)) # concat (map snd (snap_runs fs (enlisted fs c s) c))) (new_replica name cls) = (None, R)
    \<and> in_step (enlisted fs c s) c R \<and> client_ok (enlisted fs c s) c R"
proof -
  let ?s = "enlisted fs c s" and ?r = "enrolled (sroot s)"
  note sh = enrolled_shape [of "sroot s"]
  have r: "sroot ?s = ?r" by (rule enlisted_root)
  have ok: "server_ok ?s" by (rule enlisted_ok [OF assms(1)])
  then have t: "tree_ok ?r" and cl: "class_ok (ifields ?r)" by (auto simp: server_ok_def r enlisted_def shown_def)
  have empty: "ichanges ?r = []" "idirty ?r = []" using assms(2) by (simp_all add: isDirty_def enrolled_def)
  have "field_index (fname (ifields ?r ! i)) cls = Some j \<Longrightarrow> i < length (ifields ?r) \<Longrightarrow> state_type (fstate (cls ! j)) = state_type (state_at ?r i)" for i j
    using assms(3) shape_length [OF sh] shape_nth [OF sh, of i] unfolding compatible_def kind_type_of by metis
  then have cp: "compatible ?r name cls" using assms(3) by (simp add: compatible_def enrolled_def)
  have e: "entry_of (sroot s) = entry_of ?r" using shape_entry [OF sh] by (simp add: enrolled_def)
  let ?R = "bound_replica ?r name cls"
  have b: "bound ?r ?R" by (rule bound_replica_bound [OF cp cl])
  have l: "live (state_at ?r i) False" "\<not> state_dirty (state_at ?r i)" if "i < length (ifields ?r)" for i
    using t that empty by (auto simp: tree_ok_def)
  have d: "distinct (map fst (snap_runs fs ?s c))" by (simp add: snap_runs_def Let_def comp_def)
  have sp: "\<forall>(i, ops) \<in> set (snap_runs fs ?s c). run_shape ?r i ops"
    using snap_shape l(1) by (auto simp: snap_runs_def Let_def r)
  have g: "\<forall>(i, ops) \<in> set (snap_runs fs ?s c). \<forall>j. loc ?r ?R i = Some j \<longrightarrow> same_kind (state_at ?r i) (local_at ?R j)
      \<and> (\<exists>y'. field_applies i (coll_ref ?r i) ops (local_at ?R j) y' \<and> meets True (state_at ?r i) y')"
    using bound_replica_at [OF cp cl] snap_fills [OF l(1)] mirrors_meets by (auto simp: snap_runs_def Let_def r) blast
  obtain R' where R': "applyDelta (concat (map snd (snap_runs fs ?s c))) ?R = (None, R')" "bound ?r R'" "loc ?r R' = loc ?r ?R"
    "\<And>i j. i < length (ifields ?r) \<Longrightarrow> loc ?r ?R i = Some j \<Longrightarrow>
       (if i \<in> fst ` set (snap_runs fs ?s c) then meets True (state_at ?r i) (local_at R' j) else local_at R' j = local_at ?R j)"
    using frame_applies [OF _ d sp b g] cl unfolding class_ok_def by blast
  have runs: "i \<in> fst ` set (snap_runs fs ?s c) \<longleftrightarrow> sees ?s c i" if "i < length (ifields ?r)" for i
    using that enlisted_sees [of i s fs c] shape_length [OF sh] by (auto simp: snap_runs_def Let_def r image_image)
  have m: "meets (sees ?s c i) (state_at ?r i) (local_at R' j)" if "i < length (ifields ?r)" "loc ?r ?R i = Some j" for i j
    using R'(4) [OF that] runs [OF that(1)] bound_replica_at [OF cp cl that] by (auto simp: meets_def split: if_splits)
  have "if sees ?s c i then mirrors (state_at ?r i) (local_at R' j) else blank (local_at R' j)"
    if "i < length (ifields ?r)" "loc ?r ?R i = Some j" for i j
    using m [OF that] clean_commit [OF l(2) [OF that(1)]] by (simp add: meets_def split: if_splits)
  then have st: "in_step ?s c R'" using R'(3) by (simp add: in_step_def r)
  have "client_ok ?s c R'"
    by (rule in_step_ok) (use R'(2,3) st m empty in \<open>auto simp: r meets_def\<close>)
  then show ?thesis using R'(1) st define_binds [OF cp cl] e by auto
qed

end
