(* ===== verification/RoomSync.thy ===== *)
theory RoomSync
  imports FlatJoin
begin

text \<open>
  The sync boundary of a room (\<open>core/src/room.ts\<close>: \<open>_applyBackpressure\<close>, \<open>_syncNow\<close>,
  \<open>_syncOnce\<close>, \<open>_adoptReplacedState\<close>) with the clients at the other end of the wire
  (\<open>client-js/src/room.ts\<close>: \<open>_snapshot\<close>, \<open>_patch\<close>, \<open>_applyState\<close>): patches to seats that
  have a snapshot, the commit, then snapshots for the seats that wait for one. Seats are those of the
  room's \<open>clients\<close>, in order, with the fields this part reads and writes; frames are the ops they
  carry. What the host answers at a boundary (clock, queued bytes, limits, filters, and which bodies
  and frames encode) is a record of parameters.
\<close>

section \<open>A boundary\<close>

record SyncSeat =
  seat_joined :: bool
  seat_conn :: "nat option"
  seat_synced :: bool
  pausedSince :: "rat option"

record SyncHost =
  host_now :: rat
  queuedFor :: "nat \<Rightarrow> nat option"
  pauseBytes :: nat
  resumeBytes :: nat
  maxPausedMs :: rat
  host_filters :: filters
  encodes :: "jsval list list \<Rightarrow> bool"
  frames :: "nat \<Rightarrow> bool"

datatype SyncFrame = StateSnapshot "jsval list list" | StatePatch "jsval list list"

text \<open>\<open>sync_root\<close> is \<open>_root\<close>; \<open>sync_next\<close> is \<open>state\<close> where that is another tree.\<close>

record SyncRoom =
  sync_root :: "StateRoot option"
  sync_next :: "StateRoot option"
  sync_seats :: "(nat \<times> SyncSeat) list"
  sync_ready :: bool
  sync_disposing :: bool

definition adoptReplacedState :: "(StateRoot \<Rightarrow> bool) \<Rightarrow> SyncRoom \<Rightarrow> SyncRoom" where
  "adoptReplacedState valid rm =
     (case sync_next rm of
        None \<Rightarrow> rm
      | Some s \<Rightarrow>
          if \<not> valid s then rm
          else rm\<lparr>sync_root := Some s, sync_next := None, sync_seats := map (\<lambda>(c, seat). (c, seat\<lparr>seat_synced := False\<rparr>)) (sync_seats rm)\<rparr>)"

text \<open>The body of the loop of \<open>_applyBackpressure\<close>; it also says whether the connection is shed.\<close>

definition press_seat :: "SyncHost \<Rightarrow> SyncSeat \<Rightarrow> SyncSeat \<times> bool" where
  "press_seat h seat =
     (case seat_conn seat of
        None \<Rightarrow> (seat, False)
      | Some k \<Rightarrow>
          if \<not> seat_joined seat then (seat, False)
          else case queuedFor h k of
                 None \<Rightarrow> (seat, False)
               | Some queued \<Rightarrow>
                   (case pausedSince seat of
                      None \<Rightarrow>
                        if queued \<le> pauseBytes h then (seat, False)
                        else (seat\<lparr>pausedSince := Some (host_now h), seat_synced := False\<rparr>, False)
                    | Some t \<Rightarrow>
                        if queued \<le> resumeBytes h then (seat\<lparr>pausedSince := None\<rparr>, False)
                        else (seat, 0 < maxPausedMs h \<and> maxPausedMs h < host_now h - t)))"

definition applyBackpressure :: "SyncHost \<Rightarrow> (nat \<times> SyncSeat) list \<Rightarrow> (nat \<times> SyncSeat) list \<times> nat list" where
  "applyBackpressure h seats =
     (if pauseBytes h = 0 then (seats, [])
      else (map (\<lambda>(c, seat). (c, fst (press_seat h seat))) seats,
            map (the \<circ> seat_conn \<circ> snd) (filter (\<lambda>(c, seat). snd (press_seat h seat)) seats)))"

definition synced_clients :: "(nat \<times> SyncSeat) list \<Rightarrow> nat list" where
  "synced_clients seats = map fst (filter (\<lambda>(c, seat). seat_joined seat \<and> seat_synced seat) seats)"

definition patches :: "SyncHost \<Rightarrow> (nat \<times> jsval list list) list \<Rightarrow> (nat \<times> SyncFrame) list" where
  "patches h deltas =
     map (\<lambda>(c, ops). (c, StatePatch ops)) (filter (\<lambda>(c, ops). ops \<noteq> [] \<and> encodes h ops \<and> frames h c) deltas)"

text \<open>The loop that sends snapshots, and its body.\<close>

definition snapshot_step :: "SyncHost \<Rightarrow> nat \<Rightarrow> SyncSeat \<Rightarrow> StateRoot option \<Rightarrow> SyncSeat \<times> StateRoot option \<times> (nat \<times> SyncFrame) list" where
  "snapshot_step h c seat tree =
     (if \<not> seat_joined seat \<or> seat_synced seat \<or> seat_conn seat = None \<or> pausedSince seat \<noteq> None then (seat, tree, [])
      else
        case (case tree of
                None \<Rightarrow> (Inr [], None)
              | Some s \<Rightarrow> (case encodeSnapshot (host_filters h) (Some c) s of (ops, s) \<Rightarrow> (ops, Some s))) of
          (Inl e, tree) \<Rightarrow> (seat, tree, [])
        | (Inr ops, tree) \<Rightarrow>
            if encodes h ops \<and> frames h c then (seat\<lparr>seat_synced := True\<rparr>, tree, [(c, StateSnapshot ops)]) else (seat, tree, []))"

fun snapshot_loop ::
  "SyncHost \<Rightarrow> (nat \<times> SyncSeat) list \<Rightarrow> StateRoot option \<Rightarrow> (nat \<times> SyncSeat) list \<times> StateRoot option \<times> (nat \<times> SyncFrame) list" where
  "snapshot_loop h [] tree = ([], tree, [])"
| "snapshot_loop h ((c, seat) # seats) tree =
     (case snapshot_step h c seat tree of
        (seat, tree, sent) \<Rightarrow>
          (case snapshot_loop h seats tree of (seats, tree, out) \<Rightarrow> ((c, seat) # seats, tree, sent @ out)))"

definition syncOnce :: "(StateRoot \<Rightarrow> bool) \<Rightarrow> SyncHost \<Rightarrow> SyncRoom \<Rightarrow> SyncRoom \<times> (nat \<times> SyncFrame) list \<times> nat list" where
  "syncOnce valid h rm =
     (let rm = adoptReplacedState valid rm
      in case applyBackpressure h (sync_seats rm) of
           (seats, shed) \<Rightarrow>
             (case (case sync_root rm of
                      None \<Rightarrow> (None, [])
                    | Some s \<Rightarrow>
                        (case generateDeltas (host_filters h) (synced_clients seats) s of
                           (deltas, s) \<Rightarrow> (Some (clearChangeTrees s), patches h deltas))) of
                (tree, sent) \<Rightarrow>
                  (case snapshot_loop h seats tree of
                     (seats, tree, out) \<Rightarrow> (rm\<lparr>sync_root := tree, sync_seats := seats\<rparr>, sent @ out, shed))))"

text \<open>Calls from within \<open>onBeforeSync\<close>, which \<open>_syncing\<close> turns away, do not reach the state; so there is no field for it.\<close>

definition syncNow :: "(StateRoot \<Rightarrow> bool) \<Rightarrow> SyncHost \<Rightarrow> SyncRoom \<Rightarrow> SyncRoom \<times> (nat \<times> SyncFrame) list \<times> nat list" where
  "syncNow valid h rm = (if sync_disposing rm \<or> \<not> sync_ready rm then (rm, [], []) else syncOnce valid h rm)"

section \<open>The other end\<close>

text \<open>A client's replica, if it has a session; a frame that does not apply ends it.\<close>

definition applyState :: "jsval list list \<Rightarrow> ReplicaRoot \<Rightarrow> ReplicaRoot option" where
  "applyState ops R = (case applyDelta ops R of (None, R) \<Rightarrow> Some R | (Some e, R) \<Rightarrow> None)"

fun receive :: "jsstring \<times> Field list \<Rightarrow> SyncFrame \<Rightarrow> ReplicaRoot option \<Rightarrow> ReplicaRoot option" where
  "receive (name, fs) (StateSnapshot ops) st = applyState ops (new_replica name fs)"
| "receive (name, fs) (StatePatch ops) None = None"
| "receive (name, fs) (StatePatch ops) (Some R) = applyState ops R"

definition frames_for :: "nat \<Rightarrow> (nat \<times> SyncFrame) list \<Rightarrow> SyncFrame list" where
  "frames_for c out = map snd (filter (\<lambda>(d, f). d = c) out)"

text \<open>A replica after the frames on their way to it, and that none of them ends its session.\<close>

definition arrived :: "jsstring \<times> Field list \<Rightarrow> SyncFrame list \<Rightarrow> ReplicaRoot option \<Rightarrow> ReplicaRoot option" where
  "arrived cls fs st = fold (receive cls) fs st"

fun smooth :: "jsstring \<times> Field list \<Rightarrow> SyncFrame list \<Rightarrow> ReplicaRoot option \<Rightarrow> bool" where
  "smooth cls [] st = True"
| "smooth cls (f # fs) st = (receive cls f st \<noteq> None \<and> smooth cls fs (receive cls f st))"

lemma arrived_append: "arrived cls (fs @ gs) st = arrived cls gs (arrived cls fs st)"
  by (simp add: arrived_def)

lemma smooth_append: "smooth cls (fs @ gs) st \<longleftrightarrow> smooth cls fs st \<and> smooth cls gs (arrived cls fs st)"
  by (induction fs arbitrary: st) (auto simp: arrived_def)

lemma frames_for_simps [simp]:
  "frames_for c [] = []" "frames_for c (x # xs) = (if fst x = c then snd x # frames_for c xs else frames_for c xs)"
  "frames_for c (xs @ ys) = frames_for c xs @ frames_for c ys"
  by (auto simp: frames_for_def split: prod.splits)

lemma frames_for_none: "c \<notin> fst ` set out \<Longrightarrow> frames_for c out = []"
  by (induction out) auto

end
