(* ===== verification/StateSync.thy ===== *)
theory StateSync
  imports RoomSync
begin

text \<open>
  A room and its clients as one system: writes of game code, replaced states, boundaries, frames that
  arrive, and seats that are taken, lost, resumed and left. The invariant is that the replica of every
  seat that counts as synced, once the frames on their way have arrived, is one the next patch leads to
  what its client sees; at a boundary it is in step.
\<close>

section \<open>The system\<close>

record SyncSystem =
  sys_room :: SyncRoom
  sys_chan :: "nat \<Rightarrow> SyncFrame list"
  sys_rep :: "nat \<Rightarrow> ReplicaRoot option"

datatype SyncEvent =
    Edit nat FieldEdit
  | Assign StateRoot
  | Boundary SyncHost
  | Deliver nat
  | Seat nat nat
  | Confirm nat
  | Lost nat
  | Resume nat nat
  | Leave nat

definition set_seat :: "nat \<Rightarrow> (SyncSeat \<Rightarrow> SyncSeat) \<Rightarrow> SyncRoom \<Rightarrow> SyncRoom" where
  "set_seat c f rm = rm\<lparr>sync_seats := map (\<lambda>(d, seat). (d, if d = c then f seat else seat)) (sync_seats rm)\<rparr>"

text \<open>Game code writes to \<open>state\<close>.\<close>

definition edit_room :: "nat \<Rightarrow> FieldEdit \<Rightarrow> SyncRoom \<Rightarrow> SyncRoom" where
  "edit_room i e rm =
     (case sync_next rm of
        Some s \<Rightarrow> rm\<lparr>sync_next := Some (edit i e s)\<rparr>
      | None \<Rightarrow> rm\<lparr>sync_root := map_option (edit i e) (sync_root rm)\<rparr>)"

definition new_seat :: "nat \<Rightarrow> SyncSeat" where
  "new_seat k = \<lparr>seat_joined = False, seat_conn = Some k, seat_synced = False, pausedSince = None\<rparr>"

fun sys_step :: "(StateRoot \<Rightarrow> bool) \<Rightarrow> (nat \<Rightarrow> jsstring \<times> Field list) \<Rightarrow> SyncEvent \<Rightarrow> SyncSystem \<Rightarrow> SyncSystem" where
  "sys_step valid cls (Edit i e) y = y\<lparr>sys_room := edit_room i e (sys_room y)\<rparr>"
| "sys_step valid cls (Assign s) y = y\<lparr>sys_room := (sys_room y)\<lparr>sync_next := Some s\<rparr>\<rparr>"
| "sys_step valid cls (Boundary h) y =
     (case syncNow valid h (sys_room y) of
        (rm, out, shed) \<Rightarrow> y\<lparr>sys_room := rm, sys_chan := (\<lambda>c. sys_chan y c @ frames_for c out)\<rparr>)"
| "sys_step valid cls (Deliver c) y =
     (case sys_chan y c of
        [] \<Rightarrow> y
      | f # fs \<Rightarrow> y\<lparr>sys_chan := (sys_chan y)(c := fs), sys_rep := (sys_rep y)(c := receive (cls c) f (sys_rep y c))\<rparr>)"
| "sys_step valid cls (Seat c k) y =
     (if c \<in> fst ` set (sync_seats (sys_room y)) then y
      else y\<lparr>sys_room := (sys_room y)\<lparr>sync_seats := sync_seats (sys_room y) @ [(c, new_seat k)]\<rparr>, sys_chan := (sys_chan y)(c := [])\<rparr>)"
| "sys_step valid cls (Confirm c) y = y\<lparr>sys_room := set_seat c (\<lambda>seat. seat\<lparr>seat_joined := True\<rparr>) (sys_room y)\<rparr>"
| "sys_step valid cls (Lost c) y =
     y\<lparr>sys_room := set_seat c (\<lambda>seat. seat\<lparr>seat_joined := False, seat_conn := None, seat_synced := False\<rparr>) (sys_room y),
       sys_chan := (sys_chan y)(c := [])\<rparr>"
| "sys_step valid cls (Resume c k) y =
     y\<lparr>sys_room := set_seat c (\<lambda>seat. seat\<lparr>seat_joined := True, seat_conn := Some k, seat_synced := False\<rparr>) (sys_room y),
       sys_chan := (sys_chan y)(c := [])\<rparr>"
| "sys_step valid cls (Leave c) y =
     y\<lparr>sys_room := (sys_room y)\<lparr>sync_seats := filter (\<lambda>(d, seat). d \<noteq> c) (sync_seats (sys_room y))\<rparr>, sys_chan := (sys_chan y)(c := [])\<rparr>"

text \<open>
  Writes have the field's type, an assigned state is one whose class the clients' classes fit, and the
  bodies of a boundary's patches encode. Snapshots need not.
\<close>

definition fits :: "(nat \<Rightarrow> jsstring \<times> Field list) \<Rightarrow> StateRoot \<Rightarrow> bool" where
  "fits cls s = (\<forall>c. compatible (sroot s) (fst (cls c)) (snd (cls c)))"

definition boundary_deltas :: "(StateRoot \<Rightarrow> bool) \<Rightarrow> SyncHost \<Rightarrow> SyncRoom \<Rightarrow> (nat \<times> jsval list list) list" where
  "boundary_deltas valid h rm =
     (let rm = adoptReplacedState valid rm
      in case sync_root rm of
           None \<Rightarrow> []
         | Some s \<Rightarrow> fst (generateDeltas (host_filters h) (synced_clients (fst (applyBackpressure h (sync_seats rm)))) s))"

fun event_ok :: "(StateRoot \<Rightarrow> bool) \<Rightarrow> (nat \<Rightarrow> jsstring \<times> Field list) \<Rightarrow> SyncEvent \<Rightarrow> SyncSystem \<Rightarrow> bool" where
  "event_ok valid cls (Edit i e) y =
     (case sync_next (sys_room y) of
        Some s \<Rightarrow> legal i e (sroot s)
      | None \<Rightarrow> (case sync_root (sys_room y) of None \<Rightarrow> True | Some s \<Rightarrow> legal i e (sroot s)))"
| "event_ok valid cls (Assign s) y = (server_ok s \<and> fits cls s)"
| "event_ok valid cls (Boundary h) y =
     list_all (\<lambda>(c, ops). ops = [] \<or> encodes h ops \<and> frames h c) (boundary_deltas valid h (sys_room y))"
| "event_ok valid cls ev y = True"

definition new_system :: "StateRoot \<Rightarrow> SyncSystem" where
  "new_system s =
     \<lparr>sys_room = \<lparr>sync_root = Some s, sync_next = None, sync_seats = [], sync_ready = True, sync_disposing = False\<rparr>,
      sys_chan = (\<lambda>_. []), sys_rep = (\<lambda>_. None)\<rparr>"

inductive reached :: "(StateRoot \<Rightarrow> bool) \<Rightarrow> (nat \<Rightarrow> jsstring \<times> Field list) \<Rightarrow> SyncSystem \<Rightarrow> bool" for valid cls where
  start: "server_ok s \<Longrightarrow> fits cls s \<Longrightarrow> reached valid cls (new_system s)"
| step: "reached valid cls y \<Longrightarrow> event_ok valid cls ev y \<Longrightarrow> reached valid cls (sys_step valid cls ev y)"

section \<open>The invariant\<close>

definition seat_ok :: "StateRoot \<Rightarrow> ReplicaRoot option \<Rightarrow> nat \<Rightarrow> bool" where
  "seat_ok s st c = (sctx s \<noteq> None \<and> (\<exists>R. st = Some R \<and> client_ok s c R))"

definition sys_ok :: "(nat \<Rightarrow> jsstring \<times> Field list) \<Rightarrow> SyncSystem \<Rightarrow> bool" where
  "sys_ok cls y =
     (\<exists>s. sync_root (sys_room y) = Some s \<and> server_ok s \<and> fits cls s
      \<and> (\<forall>s'. sync_next (sys_room y) = Some s' \<longrightarrow> server_ok s' \<and> fits cls s')
      \<and> distinct (map fst (sync_seats (sys_room y)))
      \<and> (\<forall>(c, seat) \<in> set (sync_seats (sys_room y)). seat_synced seat \<longrightarrow> seat_joined seat \<and> seat_ok s (arrived (cls c) (sys_chan y c) (sys_rep y c)) c)
      \<and> (\<forall>c. smooth (cls c) (sys_chan y c) (sys_rep y c)))"

lemma fits_shape: "shape (sroot s) = shape (sroot s') \<Longrightarrow> iname (sroot s) = iname (sroot s') \<Longrightarrow> fits cls s \<Longrightarrow> fits cls s'"
proof -
  assume sh: "shape (sroot s) = shape (sroot s')" and n: "iname (sroot s) = iname (sroot s')" and f: "fits cls s"
  show ?thesis unfolding fits_def
  proof
    fix c
    have k: "compatible (sroot s) (fst (cls c)) (snd (cls c))" using f by (simp add: fits_def)
    have "state_type (fstate (snd (cls c) ! j)) = state_type (state_at (sroot s') i)"
      if i: "i < length (ifields (sroot s'))" and j: "field_index (fname (ifields (sroot s') ! i)) (snd (cls c)) = Some j" for i j
    proof -
      have i': "i < length (ifields (sroot s))" using i shape_length [OF sh] by simp
      then show ?thesis using k j shape_nth [OF sh i'] by (simp add: compatible_def kind_type_of)
    qed
    then show "compatible (sroot s') (fst (cls c)) (snd (cls c))" using k n by (simp add: compatible_def)
  qed
qed

lemma edit_fits:
  assumes "server_ok s" "legal i e (sroot s)" "fits cls s"
  shows "fits cls (edit i e s)"
  by (rule fits_shape [OF _ _ assms(3)]) (simp_all add: edit_def edit_shape [OF assms(2) server_ok_cases [OF assms(1)]] edit_keeps)

lemma server_ok_wire: "server_ok s \<Longrightarrow> sctx s \<noteq> None \<Longrightarrow> ionwire (sroot s)"
  by (auto simp: server_ok_def)

lemma edit_seat_ok: "server_ok s \<Longrightarrow> legal i e (sroot s) \<Longrightarrow> seat_ok s st c \<Longrightarrow> seat_ok (edit i e s) st c"
  using edit_client_ok server_ok_wire by (auto simp: seat_ok_def edit_def)

section \<open>Snapshots\<close>

text \<open>A seat in step with the state as it is, of which its client is shown what the filters let it see.\<close>

definition seat_now :: "filters \<Rightarrow> StateRoot \<Rightarrow> ReplicaRoot option \<Rightarrow> nat \<Rightarrow> bool" where
  "seat_now fs s st c =
     (sctx s \<noteq> None \<and> (\<exists>R. st = Some R \<and> client_ok s c R \<and> in_step s c R)
      \<and> (\<forall>i \<in> set (filtered_of (sroot s)). svisible s i c = evaluateFilter fs i c))"

lemma seat_now_ok: "seat_now fs s st c \<Longrightarrow> seat_ok s st c"
  by (auto simp: seat_now_def seat_ok_def)

lemma enlisted_clean: "isDirty (sroot (enlisted fs c s)) = isDirty (sroot s)"
  by (simp add: enlisted_root isDirty_def enrolled_def)

lemma enlisted_fits: "fits cls s \<Longrightarrow> fits cls (enlisted fs c s)"
  by (rule fits_shape [of s]) (simp_all add: enlisted_root enrolled_shape, simp add: enrolled_def)

lemma enlisted_other:
  assumes "server_ok s" "seat_now fs s st d" "d \<noteq> c"
  shows "seat_now fs (enlisted fs c s) st d"
proof -
  have "ionwire (sroot s)" using assms(1,2) server_ok_wire by (auto simp: seat_now_def)
  then have r: "sroot (enlisted fs c s) = sroot s" by (simp add: enlisted_root enrolled_def)
  have v: "svisible (enlisted fs c s) i d = svisible s i d" for i using assms(3) by (simp add: enlisted_def shown_def)
  then have "sees (enlisted fs c s) d i = sees s d i" for i by (simp add: sees_def r)
  with r have q: "client_ok (enlisted fs c s) d R \<longleftrightarrow> client_ok s d R" "in_step (enlisted fs c s) d R \<longleftrightarrow> in_step s d R" for R
    by (simp_all add: client_ok_def in_step_def)
  have "sctx (enlisted fs c s) \<noteq> None" by (simp add: enlisted_def shown_def)
  then show ?thesis using assms(2) q r v by (simp add: seat_now_def)
qed

lemma snapshot_seat:
  assumes "server_ok s" "\<not> isDirty (sroot s)" "fits cls s" "encodeSnapshot fs (Some c) s = (Inr ops, s')"
  shows "s' = enlisted fs c s" "seat_now fs s' (receive (cls c) (StateSnapshot ops) st) c"
proof -
  have e: "ops = defineOp (entry_of (sroot s)) # concat (map snd (snap_runs fs (enlisted fs c s) c))" "s' = enlisted fs c s"
    using snapshot_right [OF assms(1,2), of fs c] assms(4) by simp_all
  show "s' = enlisted fs c s" by (rule e(2))
  have "compatible (sroot s) (fst (cls c)) (snd (cls c))" using assms(3) by (simp add: fits_def)
  then obtain R where R: "applyDelta ops (new_replica (fst (cls c)) (snd (cls c))) = (None, R)" "in_step s' c R" "client_ok s' c R"
    using snapshot_reaches [OF assms(1,2)] e by blast
  then show "seat_now fs s' (receive (cls c) (StateSnapshot ops) st) c"
    by (cases "cls c") (simp add: applyState_def seat_now_def e(2) enlisted_def shown_def)
qed

text \<open>
  The loop: it leaves seats with a snapshot in step, gives those it can one, which puts them in step,
  and sends nothing to the others.
\<close>

lemma snapshot_step_ok:
  assumes "server_ok s" "\<not> isDirty (sroot s)" "fits cls s" "snapshot_step h c seat (Some s) = (seat', tree', sent)"
    and "seat_synced seat \<Longrightarrow> seat_joined seat \<and> seat_now (host_filters h) s st c"
  shows "\<exists>s'. tree' = Some s' \<and> server_ok s' \<and> \<not> isDirty (sroot s') \<and> fits cls s' \<and> fst ` set sent \<subseteq> {c}
    \<and> (\<forall>d st. d \<noteq> c \<longrightarrow> seat_now (host_filters h) s st d \<longrightarrow> seat_now (host_filters h) s' st d)
    \<and> (seat_synced seat' \<longrightarrow> seat_joined seat' \<and> seat_now (host_filters h) s' (arrived (cls c) (frames_for c sent) st) c)
    \<and> smooth (cls c) (frames_for c sent) st"
proof (cases "\<not> seat_joined seat \<or> seat_synced seat \<or> seat_conn seat = None \<or> pausedSince seat \<noteq> None")
  case True
  then have "seat' = seat" "tree' = Some s" "sent = []" using assms(4) by (auto simp: snapshot_step_def)
  then show ?thesis using assms by (auto simp: arrived_def)
next
  case False
  obtain ops s' where e: "encodeSnapshot (host_filters h) (Some c) s = (Inr ops, s')"
    using snapshot_right [OF assms(1,2)] by blast
  have r: "seat' = (if encodes h ops \<and> frames h c then seat\<lparr>seat_synced := True\<rparr> else seat)" "tree' = Some s'"
    "sent = (if encodes h ops \<and> frames h c then [(c, StateSnapshot ops)] else [])"
    using assms(4) False e by (auto simp: snapshot_step_def split: if_splits)
  note n = snapshot_seat [OF assms(1-3) e]
  have "receive (cls c) (StateSnapshot ops) st \<noteq> None" using n(2) [of st] by (auto simp: seat_now_def)
  then show ?thesis
    using r n assms(2) False enlisted_ok [OF assms(1)] enlisted_clean enlisted_fits [OF assms(3)] enlisted_other [OF assms(1)]
    by (auto simp: arrived_def)
qed

lemma snapshot_loop_ok:
  assumes "server_ok s" "\<not> isDirty (sroot s)" "fits cls s" "distinct (map fst seats)"
    and "snapshot_loop h seats (Some s) = (seats', tree', out)"
    and "\<And>c seat. (c, seat) \<in> set seats \<Longrightarrow> seat_synced seat \<Longrightarrow> seat_joined seat \<and> seat_now (host_filters h) s (st c) c"
  shows "\<exists>s'. tree' = Some s' \<and> server_ok s' \<and> fits cls s' \<and> map fst seats' = map fst seats \<and> fst ` set out \<subseteq> fst ` set seats
    \<and> (\<forall>d st. d \<notin> fst ` set seats \<longrightarrow> seat_now (host_filters h) s st d \<longrightarrow> seat_now (host_filters h) s' st d)
    \<and> (\<forall>(c, seat) \<in> set seats'. seat_synced seat \<longrightarrow> seat_joined seat \<and> seat_now (host_filters h) s' (arrived (cls c) (frames_for c out) (st c)) c)
    \<and> (\<forall>c. smooth (cls c) (frames_for c out) (st c))"
  using assms
proof (induction seats arbitrary: s seats' tree' out)
  case Nil
  then show ?case by (auto simp: arrived_def)
next
  case (Cons x seats)
  obtain c seat where x: "x = (c, seat)" by fastforce
  obtain seat1 tree1 sent where s1: "snapshot_step h c seat (Some s) = (seat1, tree1, sent)" using prod_cases3 by blast
  obtain s1 where o: "tree1 = Some s1" "server_ok s1" "\<not> isDirty (sroot s1)" "fits cls s1" "fst ` set sent \<subseteq> {c}"
    "\<And>d st. d \<noteq> c \<Longrightarrow> seat_now (host_filters h) s st d \<Longrightarrow> seat_now (host_filters h) s1 st d"
    "seat_synced seat1 \<Longrightarrow> seat_joined seat1 \<and> seat_now (host_filters h) s1 (arrived (cls c) (frames_for c sent) (st c)) c"
    "smooth (cls c) (frames_for c sent) (st c)"
    using snapshot_step_ok [OF Cons.prems(1-3) s1, of "st c"] Cons.prems(6) [of c seat] x by auto
  obtain seats2 tree2 out2 where l: "snapshot_loop h seats (Some s1) = (seats2, tree2, out2)" using prod_cases3 by blast
  have r: "seats' = (c, seat1) # seats2" "tree' = tree2" "out = sent @ out2" using Cons.prems(5) x s1 o(1) l by auto
  have c: "c \<notin> fst ` set seats" "distinct (map fst seats)" using Cons.prems(4) x by auto
  have "seat_joined sd \<and> seat_now (host_filters h) s1 (st d) d" if "(d, sd) \<in> set seats" "seat_synced sd" for d sd
  proof -
    have "d \<noteq> c" using that(1) c(1) by force
    then show ?thesis using Cons.prems(6) [of d sd] that x o(6) by simp
  qed
  from Cons.IH [OF o(2-4) c(2) l this]
  obtain s' where i: "tree2 = Some s'" "server_ok s'" "fits cls s'" "map fst seats2 = map fst seats" "fst ` set out2 \<subseteq> fst ` set seats"
    "\<And>d st. d \<notin> fst ` set seats \<Longrightarrow> seat_now (host_filters h) s1 st d \<Longrightarrow> seat_now (host_filters h) s' st d"
    "\<And>d sd. (d, sd) \<in> set seats2 \<Longrightarrow> seat_synced sd \<Longrightarrow> seat_joined sd \<and> seat_now (host_filters h) s' (arrived (cls d) (frames_for d out2) (st d)) d"
    "\<And>d. smooth (cls d) (frames_for d out2) (st d)" by fastforce
  have none: "frames_for c out2 = []" using c(1) i(5) by (intro frames_for_none) blast
  have other: "frames_for d out = frames_for d out2" if "d \<noteq> c" for d
    using that o(5) frames_for_none [of d sent] by (auto simp: r(3))
  have mine: "frames_for c out = frames_for c sent" by (simp add: r(3) none)
  have ne: "(d, sd) \<in> set seats2 \<Longrightarrow> d \<noteq> c" for d sd using i(4) c(1) by (metis fst_conv image_eqI list.set_map)
  have "smooth (cls d) (frames_for d out) (st d)" for d using o(8) i(8) other mine by (cases "d = c") simp_all
  moreover have "seat_joined sd \<and> seat_now (host_filters h) s' (arrived (cls d) (frames_for d out) (st d)) d" if "(d, sd) \<in> set seats'" "seat_synced sd" for d sd
  proof (cases "(d, sd) \<in> set seats2")
    case True
    then show ?thesis using i(7) that(2) other ne by simp
  next
    case False
    then have "d = c" "sd = seat1" using that(1) r(1) by auto
    then show ?thesis using o(7) that(2) i(6) [OF c(1)] mine by simp
  qed
  moreover have "seat_now (host_filters h) s' st d" if "d \<notin> fst ` set (x # seats)" "seat_now (host_filters h) s st d" for d st
    using that i(6) o(6) x by simp
  moreover have "map fst seats' = map fst (x # seats)" "fst ` set out \<subseteq> fst ` set (x # seats)"
    using r(1,3) i(4,5) o(5) x by auto
  ultimately show ?case using i(1-3) r(2) by (intro exI [of _ s']) blast
qed

section \<open>Patches\<close>

lemma frames_for_patches:
  "distinct cs \<Longrightarrow> frames_for c (patches h (map (\<lambda>c. (c, f c)) cs)) =
   (if c \<in> set cs \<and> f c \<noteq> [] \<and> encodes h (f c) \<and> frames h c then [StatePatch (f c)] else [])"
  by (induction cs) (auto simp: patches_def)

lemma synced_clients_iff: "c \<in> set (synced_clients seats) \<longleftrightarrow> (\<exists>seat. (c, seat) \<in> set seats \<and> seat_joined seat \<and> seat_synced seat)"
  by (force simp: synced_clients_def)

lemma synced_clients_distinct: "distinct (map fst seats) \<Longrightarrow> distinct (synced_clients seats)"
  by (simp add: synced_clients_def distinct_map_filter)

lemma clear_untouched: "untouched (sroot s) \<Longrightarrow> clearChangeTrees s = s"
  by (simp add: clearChangeTrees_def untouched_def)

lemma clear_clean: "\<not> isDirty (sroot (clearChangeTrees s))"
  by (simp add: clearChangeTrees_def isDirty_def)

lemma shown_ok: "server_ok (shown fs cs s) = server_ok s" "fits cls (shown fs cs s) = fits cls s" "sctx (shown fs cs s) = sctx s"
  by (simp_all add: server_ok_def shown_def fits_def cong: option.case_cong)

lemma clear_fits:
  assumes "tree_ok (sroot s)" "fits cls s"
  shows "fits cls (clearChangeTrees s)"
  by (rule fits_shape [OF _ _ assms(2)]) (simp_all add: clear_committed [OF assms(1)] committed_shape, simp add: committed_def)

lemma patches_ok:
  assumes "server_ok s" "fits cls s" "distinct (map fst seats)"
    and "generateDeltas (host_filters h) (synced_clients seats) s = (deltas, s1)"
    and "\<forall>(c, ops) \<in> set deltas. ops = [] \<or> encodes h ops \<and> frames h c"
    and "\<And>c seat. (c, seat) \<in> set seats \<Longrightarrow> seat_synced seat \<Longrightarrow> seat_joined seat \<and> seat_ok s (st c) c"
  shows "server_ok (clearChangeTrees s1)" "fits cls (clearChangeTrees s1)"
    "\<And>c seat. (c, seat) \<in> set seats \<Longrightarrow> seat_synced seat \<Longrightarrow>
      seat_joined seat \<and> seat_now (host_filters h) (clearChangeTrees s1) (arrived (cls c) (frames_for c (patches h deltas)) (st c)) c"
    "\<And>c. smooth (cls c) (frames_for c (patches h deltas)) (st c)"
proof -
  let ?fs = "host_filters h" and ?cs = "synced_clients seats"
  have "server_ok (clearChangeTrees s1) \<and> fits cls (clearChangeTrees s1)
    \<and> (\<forall>c \<in> set ?cs. seat_now (host_filters h) (clearChangeTrees s1) (arrived (cls c) (frames_for c (patches h deltas)) (st c)) c)
    \<and> (\<forall>c. smooth (cls c) (frames_for c (patches h deltas)) (st c))"
  proof (cases "sctx s = None")
    case True
    have "?cs = []" using assms(6) True synced_clients_iff [of _ seats] by (cases ?cs) (auto simp: seat_ok_def, blast)
    then have d: "deltas = []" "s1 = s" using assms(4) True by (simp_all add: generateDeltas_def)
    have "clearChangeTrees s = s" using clear_untouched server_ok_cases [OF assms(1)] assms(1) True by (auto simp: server_ok_def)
    then show ?thesis using d assms(1,2) \<open>?cs = []\<close> by (simp add: patches_def)
  next
    case False
    define f where "f = (\<lambda>c. concat (map snd (tick_runs ?fs s c)))"
    have d: "deltas = map (\<lambda>c. (c, f c)) ?cs" "s1 = shown ?fs ?cs s"
      using assms(4) deltas_right [OF assms(1) False] by (simp_all add: f_def)
    have sent: "frames_for c (patches h deltas) = (if c \<in> set ?cs \<and> f c \<noteq> [] then [StatePatch (f c)] else [])" for c
      using frames_for_patches [OF synced_clients_distinct [OF assms(3)], of c h f] assms(5) by (auto simp: d(1))
    have t: "tree_ok (sroot s)" using assms(1) False by (auto simp: server_ok_def)
    have r: "seat_now (host_filters h) (clearChangeTrees s1) (arrived (cls c) (frames_for c (patches h deltas)) (st c)) c
        \<and> smooth (cls c) (frames_for c (patches h deltas)) (st c)" if c: "c \<in> set ?cs" for c
    proof -
      obtain R where R: "st c = Some R" "client_ok s c R" using c assms(6) by (auto simp: synced_clients_iff seat_ok_def)
      obtain R' where R': "applyDelta (f c) R = (None, R')" "in_step (clearChangeTrees s1) c R'" "client_ok (clearChangeTrees s1) c R'"
        using tick_reaches [OF assms(1) False R(2) c, of ?fs] by (auto simp: d(2) f_def)
      have "arrived (cls c) (frames_for c (patches h deltas)) (st c) = Some R'"
        using R(1) R'(1) c by (cases "cls c") (auto simp: sent arrived_def applyState_def)
      moreover have "smooth (cls c) (frames_for c (patches h deltas)) (st c)"
        using R(1) R'(1) c by (cases "cls c") (auto simp: sent applyState_def)
      moreover have "sctx (clearChangeTrees s1) \<noteq> None" using False by (simp add: clearChangeTrees_def d(2) shown_ok)
      moreover have "svisible (clearChangeTrees s1) i c = evaluateFilter ?fs i c" if "i \<in> set (filtered_of (sroot (clearChangeTrees s1)))" for i
      proof -
        have "filtered_of (sroot (clearChangeTrees s1)) = filtered_of (sroot s)"
          using clear_committed [of s1] t filtered_of_shape [OF committed_shape] by (simp add: d(2) shown_def)
        then show ?thesis using that c by (simp add: clearChangeTrees_def d(2) shown_def)
      qed
      ultimately show ?thesis using R'(2,3) by (simp add: seat_now_def)
    qed
    have "smooth (cls c) (frames_for c (patches h deltas)) (st c)" for c using r [of c] by (cases "c \<in> set ?cs") (simp_all add: sent)
    then show ?thesis
      using r commit_server_ok [of s1] assms(1,2) False clear_fits [of s1 cls] t by (simp add: d(2) shown_ok) (simp add: shown_def)
  qed
  then show "server_ok (clearChangeTrees s1)" "fits cls (clearChangeTrees s1)"
    "\<And>c seat. (c, seat) \<in> set seats \<Longrightarrow> seat_synced seat \<Longrightarrow>
      seat_joined seat \<and> seat_now (host_filters h) (clearChangeTrees s1) (arrived (cls c) (frames_for c (patches h deltas)) (st c)) c"
    "\<And>c. smooth (cls c) (frames_for c (patches h deltas)) (st c)"
    using assms(6) synced_clients_iff by blast+
qed

section \<open>Boundaries\<close>

lemma press_synced: "seat_synced (fst (press_seat h seat)) \<Longrightarrow> seat_synced seat"
  "seat_joined (fst (press_seat h seat)) = seat_joined seat"
  by (auto simp: press_seat_def split: option.splits if_splits)

lemma backpressure_seats:
  assumes "applyBackpressure h seats = (seats', shed)"
  shows "map fst seats' = map fst seats"
    "\<And>c seat. (c, seat) \<in> set seats' \<Longrightarrow> seat_synced seat \<Longrightarrow> \<exists>old. (c, old) \<in> set seats \<and> seat_synced old \<and> seat_joined seat = seat_joined old"
  using assms press_synced by (fastforce simp: applyBackpressure_def split: if_splits)+

text \<open>What holds at the end of a boundary: every seat that counts as synced is in step.\<close>

definition synced_now :: "filters \<Rightarrow> (nat \<Rightarrow> jsstring \<times> Field list) \<Rightarrow> SyncSystem \<Rightarrow> bool" where
  "synced_now fs cls y =
     (\<exists>s. sync_root (sys_room y) = Some s
      \<and> (\<forall>(c, seat) \<in> set (sync_seats (sys_room y)). seat_synced seat \<longrightarrow> seat_now fs s (arrived (cls c) (sys_chan y c) (sys_rep y c)) c))"

lemma adopt_ok: "sys_ok cls y \<Longrightarrow> sys_ok cls (y\<lparr>sys_room := adoptReplacedState valid (sys_room y)\<rparr>)"
  by (auto simp: sys_ok_def adoptReplacedState_def comp_def case_prod_beta split: option.splits)

lemma syncOnce_ok:
  assumes y: "sys_ok cls y" and ok: "event_ok valid cls (Boundary h) y" and r: "syncOnce valid h (sys_room y) = (rm, out, shed)"
  defines "y' \<equiv> y\<lparr>sys_room := rm, sys_chan := (\<lambda>c. sys_chan y c @ frames_for c out)\<rparr>"
  shows "sys_ok cls y'" "synced_now (host_filters h) cls y'"
proof -
  let ?st = "\<lambda>c. arrived (cls c) (sys_chan y c) (sys_rep y c)"
  define rm1 where "rm1 = adoptReplacedState valid (sys_room y)"
  have y1: "sys_ok cls (y\<lparr>sys_room := rm1\<rparr>)" unfolding rm1_def by (rule adopt_ok [OF y])
  obtain s where s: "sync_root rm1 = Some s" "server_ok s" "fits cls s" "distinct (map fst (sync_seats rm1))"
    "\<And>s'. sync_next rm1 = Some s' \<Longrightarrow> server_ok s' \<and> fits cls s'"
    "\<And>c seat. (c, seat) \<in> set (sync_seats rm1) \<Longrightarrow> seat_synced seat \<Longrightarrow> seat_joined seat \<and> seat_ok s (?st c) c"
    "\<And>c. smooth (cls c) (sys_chan y c) (sys_rep y c)" using y1 by (fastforce simp: sys_ok_def)
  obtain seats1 shed1 where b: "applyBackpressure h (sync_seats rm1) = (seats1, shed1)" by fastforce
  have k1: "distinct (map fst seats1)" using backpressure_seats(1) [OF b] s(4) by simp
  have o1: "seat_joined seat \<and> seat_ok s (?st c) c" if "(c, seat) \<in> set seats1" "seat_synced seat" for c seat
    using backpressure_seats(2) [OF b that] s(6) by blast
  obtain deltas s1 where g: "generateDeltas (host_filters h) (synced_clients seats1) s = (deltas, s1)" by fastforce
  have enc: "\<forall>(c, ops) \<in> set deltas. ops = [] \<or> encodes h ops \<and> frames h c"
    using ok by (simp add: boundary_deltas_def Let_def s(1) b g list_all_iff flip: rm1_def)
  let ?s2 = "clearChangeTrees s1" and ?sent = "patches h deltas"
  note p = patches_ok [OF s(2,3) k1 g enc o1]
  obtain seats3 tree3 out3 where l: "snapshot_loop h seats1 (Some ?s2) = (seats3, tree3, out3)" using prod_cases3 by blast
  have res: "rm = rm1\<lparr>sync_root := tree3, sync_seats := seats3\<rparr>" "out = ?sent @ out3"
    using r by (simp_all add: syncOnce_def Let_def b s(1) g l flip: rm1_def)
  obtain s3 where n: "tree3 = Some s3" "server_ok s3" "fits cls s3" "map fst seats3 = map fst seats1"
    "\<And>c seat. (c, seat) \<in> set seats3 \<Longrightarrow> seat_synced seat \<Longrightarrow>
       seat_joined seat \<and> seat_now (host_filters h) s3 (arrived (cls c) (frames_for c out3) (arrived (cls c) (frames_for c ?sent) (?st c))) c"
    "\<And>c. smooth (cls c) (frames_for c out3) (arrived (cls c) (frames_for c ?sent) (?st c))"
    using snapshot_loop_ok [OF p(1) clear_clean p(2) k1 l p(3)] by fastforce
  have now: "seat_joined seat \<and> seat_now (host_filters h) s3 (arrived (cls c) (sys_chan y c @ frames_for c out) (sys_rep y c)) c"
    if "(c, seat) \<in> set seats3" "seat_synced seat" for c seat
    using n(5) [OF that] by (simp add: res(2) arrived_append)
  have "smooth (cls c) (sys_chan y c @ frames_for c out) (sys_rep y c)" for c
    using s(7) p(4) n(6) by (simp add: res(2) smooth_append arrived_append)
  then show "sys_ok cls y'"
    unfolding sys_ok_def y'_def using n(1-4) k1 s(5) now seat_now_ok by (fastforce simp: res(1))
  show "synced_now (host_filters h) cls y'" unfolding synced_now_def y'_def using n(1) now by (fastforce simp: res(1))
qed

lemma boundary_ok:
  assumes "sys_ok cls y" "event_ok valid cls (Boundary h) y"
  shows "sys_ok cls (sys_step valid cls (Boundary h) y)"
    "sync_ready (sys_room y) \<Longrightarrow> \<not> sync_disposing (sys_room y) \<Longrightarrow> synced_now (host_filters h) cls (sys_step valid cls (Boundary h) y)"
proof -
  obtain rm out shed where o: "syncOnce valid h (sys_room y) = (rm, out, shed)" using prod_cases3 by blast
  show "sys_ok cls (sys_step valid cls (Boundary h) y)"
    using syncOnce_ok(1) [OF assms o] assms(1) o by (auto simp: syncNow_def)
  show "sync_ready (sys_room y) \<Longrightarrow> \<not> sync_disposing (sys_room y) \<Longrightarrow> synced_now (host_filters h) cls (sys_step valid cls (Boundary h) y)"
    using syncOnce_ok(2) [OF assms o] o by (simp add: syncNow_def)
qed

section \<open>The other events\<close>

lemma edit_ok:
  assumes "sys_ok cls y" "event_ok valid cls (Edit i e) y"
  shows "sys_ok cls (sys_step valid cls (Edit i e) y)"
proof -
  obtain s where s: "sync_root (sys_room y) = Some s" "server_ok s" "fits cls s" using assms(1) by (auto simp: sys_ok_def)
  show ?thesis
  proof (cases "sync_next (sys_room y)")
    case None
    then have "legal i e (sroot s)" using assms(2) s(1) by simp
    then show ?thesis
      using assms(1) s None edit_server_ok [OF s(2)] edit_fits [OF s(2) _ s(3)] edit_seat_ok [OF s(2)]
      by (fastforce simp: sys_ok_def edit_room_def)
  next
    case (Some s')
    then have "server_ok s'" "fits cls s'" "legal i e (sroot s')" using assms by (auto simp: sys_ok_def)
    then show ?thesis using assms(1) Some edit_server_ok edit_fits by (auto simp: sys_ok_def edit_room_def)
  qed
qed

lemma deliver_ok:
  assumes "sys_ok cls y"
  shows "sys_ok cls (sys_step valid cls (Deliver c) y)"
proof (cases "sys_chan y c")
  case (Cons f fs)
  have "arrived (cls d) (((sys_chan y)(c := fs)) d) (((sys_rep y)(c := receive (cls c) f (sys_rep y c))) d)
      = arrived (cls d) (sys_chan y d) (sys_rep y d)" for d
    using Cons by (simp add: arrived_def)
  moreover have "smooth (cls d) (((sys_chan y)(c := fs)) d) (((sys_rep y)(c := receive (cls c) f (sys_rep y c))) d)" for d
    using assms Cons by (cases "d = c") (auto simp: sys_ok_def dest: spec [of _ c])
  ultimately show ?thesis using assms Cons by (auto simp: sys_ok_def)
qed (use assms in simp)

text \<open>A change of seats that makes none synced, and drops the frames on their way to seats that are not.\<close>

lemma sys_ok_distinct: "sys_ok cls y \<Longrightarrow> distinct (map fst (sync_seats (sys_room y)))"
  by (auto simp: sys_ok_def)

lemma seats_ok:
  assumes "sys_ok cls y" "distinct (map fst seats)"
    and "\<And>d seat. (d, seat) \<in> set seats \<Longrightarrow> seat_synced seat \<Longrightarrow>
      seat_joined seat \<and> (\<exists>old. (d, old) \<in> set (sync_seats (sys_room y)) \<and> seat_synced old) \<and> chan d = sys_chan y d"
    and "\<And>d. chan d = sys_chan y d \<or> chan d = []"
  shows "sys_ok cls (y\<lparr>sys_room := (sys_room y)\<lparr>sync_seats := seats\<rparr>, sys_chan := chan\<rparr>)"
proof -
  obtain s where s: "sync_root (sys_room y) = Some s" "server_ok s" "fits cls s"
    "\<And>s'. sync_next (sys_room y) = Some s' \<Longrightarrow> server_ok s' \<and> fits cls s'"
    "\<And>c seat. (c, seat) \<in> set (sync_seats (sys_room y)) \<Longrightarrow> seat_synced seat \<Longrightarrow> seat_ok s (arrived (cls c) (sys_chan y c) (sys_rep y c)) c"
    "\<And>c. smooth (cls c) (sys_chan y c) (sys_rep y c)" using assms(1) by (fastforce simp: sys_ok_def)
  have "seat_joined seat \<and> seat_ok s (arrived (cls d) (chan d) (sys_rep y d)) d" if "(d, seat) \<in> set seats" "seat_synced seat" for d seat
    using assms(3) [OF that] s(5) by auto
  moreover have "smooth (cls d) (chan d) (sys_rep y d)" for d using assms(4) [of d] s(6) [of d] by auto
  ultimately show ?thesis unfolding sys_ok_def using s(1-4) assms(2) by (intro exI [of _ s]) auto
qed

lemma set_seat_keys: "map fst (map (\<lambda>(d, seat). (d, if d = c then f seat else seat)) seats) = map fst seats"
  by (simp add: comp_def case_prod_beta)

lemma sys_synced_joined: "sys_ok cls y \<Longrightarrow> (d, seat) \<in> set (sync_seats (sys_room y)) \<Longrightarrow> seat_synced seat \<Longrightarrow> seat_joined seat"
  by (auto simp: sys_ok_def)

lemma reseat_ok:
  assumes "sys_ok cls y" "\<And>seat. \<not> seat_synced (f seat)"
  shows "sys_ok cls (y\<lparr>sys_room := set_seat c f (sys_room y), sys_chan := (sys_chan y)(c := [])\<rparr>)"
  unfolding set_seat_def
proof (rule seats_ok [OF assms(1)])
  show "distinct (map fst (map (\<lambda>(d, seat). (d, if d = c then f seat else seat)) (sync_seats (sys_room y))))"
    unfolding set_seat_keys by (rule sys_ok_distinct [OF assms(1)])
qed (use assms(2) sys_synced_joined [OF assms(1)] in \<open>auto split: if_splits\<close>)

lemma confirm_ok:
  assumes "sys_ok cls y"
  shows "sys_ok cls (sys_step valid cls (Confirm c) y)"
proof -
  have "sys_ok cls (y\<lparr>sys_room := (sys_room y)\<lparr>sync_seats := map (\<lambda>(d, seat). (d, if d = c then seat\<lparr>seat_joined := True\<rparr> else seat))
      (sync_seats (sys_room y))\<rparr>, sys_chan := sys_chan y\<rparr>)"
  proof (rule seats_ok [OF assms])
    show "distinct (map fst (map (\<lambda>(d, seat). (d, if d = c then seat\<lparr>seat_joined := True\<rparr> else seat)) (sync_seats (sys_room y))))"
      unfolding set_seat_keys by (rule sys_ok_distinct [OF assms])
  qed (use sys_synced_joined [OF assms] in \<open>auto split: if_splits\<close>)
  then show ?thesis by (simp add: set_seat_def)
qed

lemma seat_event_ok:
  assumes "sys_ok cls y"
  shows "sys_ok cls (sys_step valid cls (Seat c k) y)"
proof (cases "c \<in> fst ` set (sync_seats (sys_room y))")
  case False
  have "sys_ok cls (y\<lparr>sys_room := (sys_room y)\<lparr>sync_seats := sync_seats (sys_room y) @ [(c, new_seat k)]\<rparr>, sys_chan := (sys_chan y)(c := [])\<rparr>)"
    by (rule seats_ok [OF assms])
      (use sys_ok_distinct [OF assms] sys_synced_joined [OF assms] False in \<open>auto simp: new_seat_def image_iff\<close>)
  then show ?thesis using False by simp
qed (use assms in simp)

lemma leave_ok:
  assumes "sys_ok cls y"
  shows "sys_ok cls (sys_step valid cls (Leave c) y)"
proof -
  have "sys_ok cls (y\<lparr>sys_room := (sys_room y)\<lparr>sync_seats := filter (\<lambda>(d, seat). d \<noteq> c) (sync_seats (sys_room y))\<rparr>, sys_chan := (sys_chan y)(c := [])\<rparr>)"
    by (rule seats_ok [OF assms]) (use sys_ok_distinct [OF assms] sys_synced_joined [OF assms] in \<open>auto simp: distinct_map_filter\<close>)
  then show ?thesis by simp
qed

lemma step_ok:
  assumes "sys_ok cls y" "event_ok valid cls ev y"
  shows "sys_ok cls (sys_step valid cls ev y)"
proof (cases ev)
  case (Assign s)
  then show ?thesis using assms by (auto simp: sys_ok_def)
qed (use assms edit_ok boundary_ok(1) deliver_ok seat_event_ok confirm_ok leave_ok reseat_ok in \<open>auto simp del: sys_step.simps(1,3,4,5,6,9) event_ok.simps(1,3)\<close>)

lemma reached_ok: "reached valid cls y \<Longrightarrow> sys_ok cls y"
proof (induction rule: reached.induct)
  case (start s)
  then show ?case by (auto simp: sys_ok_def new_system_def)
qed (rule step_ok)

end
