(* ===== verification/SyncProperties.thy ===== *)
theory SyncProperties
  imports StateSync
begin

text \<open>
  What holds of state sync: at every boundary a client's replica shows what the client may see, and
  only that; no frame is refused; a seat that can be served is served; and of a field a client may not
  see nothing it is sent depends. Then two ways in which a seat falls behind for good.
\<close>

section \<open>What clients see\<close>



section \<open>Who is served\<close>

lemma snapshot_step_serves:
  assumes "server_ok s" "\<not> isDirty (sroot s)" "snapshot_step h c seat (Some s) = (seat', tree', sent)"
    and "seat_joined seat'" "seat_conn seat' \<noteq> None" "pausedSince seat' = None" "\<And>ops. encodes h ops" "frames h c"
  shows "seat_synced seat'"
proof (cases "\<not> seat_joined seat \<or> seat_synced seat \<or> seat_conn seat = None \<or> pausedSince seat \<noteq> None")
  case True
  then have "seat' = seat" using assms(3) by (auto simp: snapshot_step_def)
  then show ?thesis using True assms(4-6) by auto
next
  case False
  then show ?thesis using assms(3,7,8) snapshot_right [OF assms(1,2), of "host_filters h" c] by (auto simp: snapshot_step_def)
qed

lemma snapshot_loop_serves:
  assumes "server_ok s" "\<not> isDirty (sroot s)" "fits cls s" "snapshot_loop h seats (Some s) = (seats', tree', out)"
    and "(c, seat) \<in> set seats'" "seat_joined seat" "seat_conn seat \<noteq> None" "pausedSince seat = None" "\<And>ops. encodes h ops" "frames h c"
  shows "seat_synced seat"
  using assms(1-8)
proof (induction seats arbitrary: s seats' tree' out)
  case (Cons x seats)
  obtain d sd where x: "x = (d, sd)" by fastforce
  obtain sd1 tree1 sent where s1: "snapshot_step h d sd (Some s) = (sd1, tree1, sent)" using prod_cases3 by blast
  obtain s1 where o: "tree1 = Some s1" "server_ok s1" "\<not> isDirty (sroot s1)" "fits cls s1"
  proof (cases "\<not> seat_joined sd \<or> seat_synced sd \<or> seat_conn sd = None \<or> pausedSince sd \<noteq> None")
    case True
    then have "tree1 = Some s" using s1 by (auto simp: snapshot_step_def)
    then show ?thesis using that Cons.prems by blast
  next
    case False
    then have "tree1 = Some (enlisted (host_filters h) d s)"
      using s1 snapshot_right [OF Cons.prems(1,2), of "host_filters h" d] by (auto simp: snapshot_step_def split: if_splits)
    then show ?thesis using that enlisted_ok enlisted_clean enlisted_fits Cons.prems(1-3) by blast
  qed
  obtain seats2 tree2 out2 where l: "snapshot_loop h seats (Some s1) = (seats2, tree2, out2)" using prod_cases3 by blast
  have r: "seats' = (d, sd1) # seats2" using Cons.prems(4) x s1 o(1) l by auto
  show ?case
  proof (cases "(c, seat) \<in> set seats2")
    case True
    then show ?thesis using Cons.IH [OF o(2-4) l] Cons.prems(6-8) by blast
  next
    case False
    then have "c = d" "seat = sd1" using Cons.prems(5) r by auto
    then show ?thesis using snapshot_step_serves [OF Cons.prems(1,2) s1] Cons.prems(6-8) assms(9,10) by simp
  qed
qed simp

lemma boundary_tree:
  assumes "sys_ok cls y" "event_ok valid cls (Boundary h) y"
  shows "\<exists>s seats shed. syncOnce valid h (sys_room y) =
      (case snapshot_loop h seats (Some s) of (seats, tree, out) \<Rightarrow>
        ((adoptReplacedState valid (sys_room y))\<lparr>sync_root := tree, sync_seats := seats\<rparr>,
         patches h (boundary_deltas valid h (sys_room y)) @ out, shed))
    \<and> server_ok s \<and> \<not> isDirty (sroot s) \<and> fits cls s"
proof -
  let ?rm = "adoptReplacedState valid (sys_room y)"
  have y1: "sys_ok cls (y\<lparr>sys_room := ?rm\<rparr>)" by (rule adopt_ok [OF assms(1)])
  obtain s where s: "sync_root ?rm = Some s" "server_ok s" "fits cls s" "distinct (map fst (sync_seats ?rm))"
    "\<And>c seat. (c, seat) \<in> set (sync_seats ?rm) \<Longrightarrow> seat_synced seat \<Longrightarrow>
      seat_joined seat \<and> seat_ok s (arrived (cls c) (sys_chan y c) (sys_rep y c)) c" using y1 by (fastforce simp: sys_ok_def)
  obtain seats1 shed1 where b: "applyBackpressure h (sync_seats ?rm) = (seats1, shed1)" by fastforce
  have k1: "distinct (map fst seats1)" using backpressure_seats(1) [OF b] s(4) by simp
  have o1: "seat_joined seat \<and> seat_ok s (arrived (cls c) (sys_chan y c) (sys_rep y c)) c" if "(c, seat) \<in> set seats1" "seat_synced seat" for c seat
    using backpressure_seats(2) [OF b that] s(5) by blast
  obtain deltas s1 where g: "generateDeltas (host_filters h) (synced_clients seats1) s = (deltas, s1)" by fastforce
  have d: "boundary_deltas valid h (sys_room y) = deltas" by (simp add: boundary_deltas_def Let_def s(1) b g)
  have enc: "\<forall>(c, ops) \<in> set deltas. ops = [] \<or> encodes h ops \<and> frames h c" using assms(2) by (simp add: d list_all_iff)
  have "syncOnce valid h (sys_room y) = (case snapshot_loop h seats1 (Some (clearChangeTrees s1)) of (seats, tree, out) \<Rightarrow>
        (?rm\<lparr>sync_root := tree, sync_seats := seats\<rparr>, patches h deltas @ out, shed1))"
    by (simp add: syncOnce_def Let_def b s(1) g)
  then show ?thesis unfolding d using patches_ok(1,2) [OF s(2,3) k1 g enc o1] clear_clean by blast
qed

text \<open>C14: At a boundary whose bodies encode, every joined seat with a connection that is not paused by a full send queue counts as synced afterwards: a client that waits for a snapshot gets one at the next boundary.\<close>

theorem waiting_seats_are_served:
  assumes "reached valid cls y" "event_ok valid cls (Boundary h) y" "sync_ready (sys_room y)" "\<not> sync_disposing (sys_room y)"
    and "\<And>ops. encodes h ops" "frames h c"
    and "(c, seat) \<in> set (sync_seats (sys_room (sys_step valid cls (Boundary h) y)))"
    and "seat_joined seat" "seat_conn seat \<noteq> None" "pausedSince seat = None"
  shows "seat_synced seat"
proof -
  obtain s seats shed where b: "syncOnce valid h (sys_room y) =
      (case snapshot_loop h seats (Some s) of (seats, tree, out) \<Rightarrow>
        ((adoptReplacedState valid (sys_room y))\<lparr>sync_root := tree, sync_seats := seats\<rparr>,
         patches h (boundary_deltas valid h (sys_room y)) @ out, shed))"
    "server_ok s" "\<not> isDirty (sroot s)" "fits cls s"
    using boundary_tree [OF reached_ok [OF assms(1)] assms(2)] by blast
  obtain seats' tree' out where l: "snapshot_loop h seats (Some s) = (seats', tree', out)" using prod_cases3 by blast
  have "(c, seat) \<in> set seats'" using assms(3,4,7) by (simp add: syncNow_def b(1) l)
  then show ?thesis using snapshot_loop_serves [OF b(2-4) l] assms(5,6,8-10) by blast
qed

section \<open>Hidden fields\<close>

text \<open>Two states of a class that differ in one field alone, and in what their change records say of it.\<close>

definition same_but :: "nat \<Rightarrow> StateRoot \<Rightarrow> StateRoot \<Rightarrow> bool" where
  "same_but i s s' =
     (shape (sroot s') = shape (sroot s) \<and> svisible s' = svisible s
      \<and> (\<forall>k < length (ifields (sroot s)). k \<noteq> i \<longrightarrow> state_at (sroot s') k = state_at (sroot s) k)
      \<and> filter (\<lambda>k. k \<noteq> i) (ichanges (sroot s')) = filter (\<lambda>k. k \<noteq> i) (ichanges (sroot s))
      \<and> filter (\<lambda>k. k \<noteq> i) (idirty (sroot s')) = filter (\<lambda>k. k \<noteq> i) (idirty (sroot s)))"

lemma same_but_steady:
  assumes "same_but i s s'" "k < length (ifields (sroot s))"
  shows "steady fs s' c k = steady fs s c k"
  using assms shape_nth(2) [of "sroot s'" "sroot s" k] shape_length [of "sroot s'" "sroot s"] by (simp add: same_but_def steady_def)

lemma filter_but:
  assumes "filter (\<lambda>k. k \<noteq> i) xs = filter (\<lambda>k. k \<noteq> i) ys" "\<not> P i" "\<not> Q i" "\<forall>k \<in> set xs \<union> set ys. k \<noteq> i \<longrightarrow> P k = Q k"
  shows "filter P xs = filter Q ys"
proof -
  have "filter P xs = filter P (filter (\<lambda>k. k \<noteq> i) xs)" using assms(2) by (auto intro: filter_cong)
  also have "\<dots> = filter Q (filter (\<lambda>k. k \<noteq> i) ys)" unfolding assms(1) using assms(4) by (auto intro!: filter_cong)
  also have "\<dots> = filter Q ys" using assms(3) by (auto intro: filter_cong)
  finally show ?thesis .
qed

lemma hidden_runs:
  assumes t: "tree_ok (sroot s)" "tree_ok (sroot s')" and b: "same_but i s s'"
    and h: "ffiltered (ifields (sroot s) ! i)" "i < length (ifields (sroot s))" "\<not> svisible s i c" "\<not> evaluateFilter fs i c"
  shows "tick_runs fs s c = tick_runs fs s' c"
proof -
  let ?r = "sroot s" and ?q = "sroot s'"
  have sh: "shape ?q = shape ?r" and v: "svisible s' = svisible s" using b by (auto simp: same_but_def)
  have n: "length (ifields ?q) = length (ifields ?r)" by (rule shape_length [OF sh])
  have f: "filtered_of ?q = filtered_of ?r" by (rule filtered_of_shape [OF sh])
  have at: "state_at ?q k = state_at ?r k" if "k < length (ifields ?r)" "k \<noteq> i" for k using b that by (simp add: same_but_def)
  have "\<not> steady fs s c i" using h by (simp add: steady_def)
  then have st: "\<not> steady fs s c i" "\<not> steady fs s' c i" using same_but_steady [OF b h(2)] by blast+
  have lt: "k < length (ifields ?r)" if "k \<in> set (ichanges ?r) \<union> set (ichanges ?q) \<union> set (idirty ?r) \<union> set (idirty ?q)" for k
    using t that n by (auto simp: tree_ok_def)
  have c: "filter (steady fs s c) (ichanges ?r) = filter (steady fs s' c) (ichanges ?q)"
    by (rule filter_but [of i]) (use st b lt same_but_steady [OF b, of _ fs c] in \<open>auto simp: same_but_def\<close>)
  have d: "filter (steady fs s c) (idirty ?r) = filter (steady fs s' c) (idirty ?q)"
    by (rule filter_but [of i]) (use st b lt same_but_steady [OF b, of _ fs c] in \<open>auto simp: same_but_def\<close>)
  have ne: "k \<noteq> i \<and> k < length (ifields ?r)" if "k \<in> set (filter (steady fs s' c) (ichanges ?q)) \<union> set (filter (steady fs s' c) (idirty ?q))" for k
    using that st lt by auto
  have fl: "k \<noteq> i \<and> k < length (ifields ?r)" if "k \<in> set (filter (\<lambda>i. svisible s i c \<noteq> evaluateFilter fs i c) (filtered_of ?r))" for k
    using that h by (auto simp: filtered_of_iff)
  show ?thesis
    unfolding tick_runs_def Let_def c d f v
    using ne fl at shape_coll_ref [OF sh] by (auto simp: flip_run_def Let_def)
qed

text \<open>C3: What a tick sends a client does not depend on a field its filter hid before and hides now: two rooms that differ only in that field, and in what their change records say of it, send the client the same ops.\<close>

theorem hidden_field_leaves_no_trace:
  assumes "server_ok s" "server_ok s'" "sctx s \<noteq> None" "sctx s' \<noteq> None" "same_but i s s'"
    and "i < length (ifields (sroot s))" "ffiltered (ifields (sroot s) ! i)" "\<not> svisible s i c" "\<not> evaluateFilter fs i c" "c \<in> set cs"
  shows "map_of (fst (generateDeltas fs cs s)) c = map_of (fst (generateDeltas fs cs s')) c"
proof -
  have t: "tree_ok (sroot s)" "tree_ok (sroot s')" using assms(1-4) by (auto simp: server_ok_def)
  have "map_of (map (\<lambda>c. (c, f c)) cs) c = Some (f c)" for f :: "nat \<Rightarrow> jsval list list" using assms(10) by (induction cs) auto
  then show ?thesis
    using hidden_runs [OF t assms(5,7,6,8,9)] by (simp add: deltas_right [OF assms(1,3)] deltas_right [OF assms(2,4)])
qed

section \<open>A room to try it on\<close>

text \<open>A class with a number everybody sees and a string that only client 1 sees.\<close>

definition w_fields :: "Field list" where
  "w_fields =
     [\<lparr>fname = js ''score'', fstate = FPrim \<lparr>pkind = NumberState, pval = JNum (JFin 0)\<rparr>, ffiltered = False\<rparr>,
      \<lparr>fname = js ''hand'', fstate = FPrim \<lparr>pkind = StringState, pval = JStr (js ''ace'')\<rparr>, ffiltered = True\<rparr>]"

definition w_state :: StateRoot where
  "w_state =
     \<lparr>sroot = \<lparr>iname = js ''Table'', ifields = w_fields, ionwire = False, ichanges = [], idirty = []\<rparr>,
      sctx = None, svisible = (\<lambda>_ _. False)\<rparr>"

definition w_filters :: filters where
  "w_filters = [1 \<mapsto> (\<lambda>c. Returned (JBool (c = 1)))]"

definition w_host :: SyncHost where
  "w_host =
     \<lparr>host_now = 0, queuedFor = (\<lambda>_. Some 0), pauseBytes = 100, resumeBytes = 10, maxPausedMs = 0, host_filters = w_filters,
      encodes = (\<lambda>_. True), frames = (\<lambda>_. True)\<rparr>"

abbreviation w_class :: "nat \<Rightarrow> jsstring \<times> Field list" where
  "w_class \<equiv> \<lambda>_. (js ''Table'', w_fields)"

abbreviation w_step :: "SyncEvent \<Rightarrow> SyncSystem \<Rightarrow> SyncSystem" where
  "w_step \<equiv> sys_step (\<lambda>_. True) w_class"

definition w_seated :: SyncSystem where
  "w_seated = w_step (Confirm 2) (w_step (Seat 2 8) (w_step (Confirm 1) (w_step (Seat 1 7) (new_system w_state))))"

definition w_seat :: "nat \<Rightarrow> SyncSeat" where
  "w_seat k = \<lparr>seat_joined = True, seat_conn = Some k, seat_synced = True, pausedSince = None\<rparr>"

lemma compatible_self:
  assumes "class_ok (ifields r)"
  shows "compatible r (iname r) (ifields r)"
proof -
  have "j = i" if "i < length (ifields r)" "field_index (fname (ifields r ! i)) (ifields r) = Some j" for i j
    using field_index_Some [OF that(2)] that(1) assms nth_eq_iff_index_eq [of "map fname (ifields r)" i j] by (simp add: class_ok_def)
  then show ?thesis using assms by (auto simp: compatible_def)
qed

lemma w_class_ok: "class_ok w_fields"
  by (simp add: class_ok_def w_fields_def js_def)

lemma w_server_ok: "server_ok w_state"
  using w_class_ok by (auto simp: server_ok_def w_state_def untouched_def w_fields_def less_Suc_eq)

lemma w_fits: "fits w_class w_state"
  using compatible_self [of "sroot w_state"] w_class_ok by (simp add: fits_def w_state_def)

lemma w_reached: "reached (\<lambda>_. True) w_class w_seated"
  unfolding w_seated_def by (intro reached.step reached.start w_server_ok w_fits) simp_all

lemma w_boundary: "event_ok (\<lambda>_. True) w_class (Boundary w_host) w_seated"
  unfolding event_ok.simps by code_simp

lemma w_served: "sync_seats (sys_room (w_step (Boundary w_host) w_seated)) = [(1, w_seat 7), (2, w_seat 8)]"
  by code_simp

lemma w_second: "(2, w_seat 8) \<in> set (sync_seats (sys_room (w_step (Boundary w_host) w_seated)))"
  unfolding w_served by simp

lemma w_open: "sync_ready (sys_room w_seated)" "\<not> sync_disposing (sys_room w_seated)"
  by code_simp+



theorem waiting_seats_are_served_witness: "seat_synced (w_seat 8)"
  by (rule waiting_seats_are_served [OF w_reached w_boundary w_open _ _ w_second]) (simp_all add: w_host_def w_seat_def)

text \<open>The room after client 2 joined, and the string changed to one or the other.\<close>

definition w_hand :: "string \<Rightarrow> StateRoot" where
  "w_hand v = edit 1 (EPrim (JStr (js v))) (enlisted w_filters 2 w_state)"

lemma w_hand_ok: "server_ok (w_hand v)" "sctx (w_hand v) \<noteq> None"
proof -
  have "legal 1 (EPrim (JStr (js v))) (sroot (enlisted w_filters 2 w_state))"
    by (simp add: legal_def enlisted_root enrolled_def w_state_def w_fields_def)
  then show "server_ok (w_hand v)" unfolding w_hand_def by (intro edit_server_ok enlisted_ok w_server_ok)
  show "sctx (w_hand v) \<noteq> None" by (simp add: w_hand_def edit_def enlisted_def shown_def)
qed

theorem hidden_field_leaves_no_trace_witness:
  "map_of (fst (generateDeltas w_filters [1, 2] (w_hand ''king''))) 2 = map_of (fst (generateDeltas w_filters [1, 2] (w_hand ''jack''))) 2"
proof (rule hidden_field_leaves_no_trace [of _ _ 1])
  have w: "w_hand v = (enlisted w_filters 2 w_state)\<lparr>sroot := edit_field 1 (EPrim (JStr (js v))) (enrolled (sroot w_state))\<rparr>" for v
    by (simp add: w_hand_def edit_def enlisted_root)
  have e: "edit_field 1 (EPrim (JStr (js v))) (enrolled (sroot w_state)) = \<lparr>iname = js ''Table'',
      ifields = [w_fields ! 0, (w_fields ! 1)\<lparr>fstate := FPrim \<lparr>pkind = StringState, pval = JStr (js v)\<rparr>\<rparr>],
      ionwire = True, ichanges = (if js v = js ''ace'' then [] else [1]), idirty = []\<rparr>" for v
    by (simp add: edit_field_def set_state_def enrolled_def w_state_def w_fields_def prim_set_def add_once_def Let_def)
  show "same_but 1 (w_hand ''king'') (w_hand ''jack'')"
    unfolding same_but_def w by (simp only: StateRoot.simps e) (auto simp: shape_def field_shape_def less_Suc_eq js_def)
  show "1 < length (ifields (sroot (w_hand ''king'')))" "ffiltered (ifields (sroot (w_hand ''king'')) ! 1)"
    unfolding w by (simp_all only: StateRoot.simps e) (simp_all add: w_fields_def)
  show "\<not> svisible (w_hand ''king'') 1 2" "\<not> evaluateFilter w_filters 1 2"
    by (simp_all add: w enlisted_def shown_def w_state_def evaluateFilter_def w_filters_def)
qed (simp_all add: w_hand_ok)

section \<open>Seats left behind\<close>

text \<open>
  A patch whose body does not encode is dropped, while the commit forgets the changes it carried and
  the seat still counts as synced: the client is not told and is not sent them again.
\<close>

lemma failed_patch_is_lost:
  assumes "distinct cs" "c \<in> set cs" "\<not> encodes h (f c)"
  shows "frames_for c (patches h (map (\<lambda>c. (c, f c)) cs)) = []" "\<not> isDirty (sroot (clearChangeTrees s))"
  using frames_for_patches [OF assms(1), of c h f] assms(2,3) clear_clean by simp_all

text \<open>
  A seat that was paused when it lost its connection stays paused over the resume. If the new
  connection is one of another process, whose queue the room cannot see, nothing ends the pause:
  the seat is left as it is and sent no snapshot at any boundary.
\<close>

lemma paused_seat_left_behind:
  assumes "pausedSince seat = Some t" "seat_conn seat = Some k" "queuedFor h k = None"
  shows "fst (press_seat h seat) = seat" "snapshot_step h c seat tree = (seat, tree, [])"
  using assms by (simp_all add: press_seat_def snapshot_step_def)

end
