(* ===== verification/RoomTypes.thy ===== *)
theory RoomTypes
  imports SchemaMessages MessageRoundtrip Rooms
begin

text \<open>
  Room types (\<open>core/src/room-type.ts\<close>): the resolved options of a type, the checks of
  \<open>createRoomType\<close>, and how join and create options are read where they come from a client, are
  built by server code, or were packed by another process. A room class is a number; what the
  constructor and the state class of a class do is given with it.
\<close>

section \<open>Room types\<close>

record DefineRoomOptions =
  dro_maxClients :: "jsnum option"
  dro_autoDispose :: "bool option"
  dro_allowReconnection :: "bool option"
  dro_reconnectionTimeout :: "rat option"
  dro_private :: "bool option"
  dro_locked :: "bool option"
  dro_metadata :: "(jsstring \<times> jsval) list"
  dro_reservationTimeout :: "rat option"

record ResolvedRoomOptions =
  ro_maxClients :: jsnum
  ro_autoDispose :: bool
  ro_allowReconnection :: bool
  ro_reconnectionTimeout :: rat
  ro_private :: bool
  ro_locked :: bool
  ro_metadata :: "(jsstring \<times> jsval) list"
  ro_reservationTimeout :: rat

definition orElse :: "'a option \<Rightarrow> 'a \<Rightarrow> 'a" where
  "orElse x d = (case x of Some v \<Rightarrow> v | None \<Rightarrow> d)"

definition resolveOptions :: "DefineRoomOptions \<Rightarrow> ResolvedRoomOptions" where
  "resolveOptions o' =
     \<lparr>ro_maxClients = orElse (dro_maxClients o') (JInf False),
      ro_autoDispose = orElse (dro_autoDispose o') True,
      ro_allowReconnection = orElse (dro_allowReconnection o') True,
      ro_reconnectionTimeout = orElse (dro_reconnectionTimeout o') 30,
      ro_private = orElse (dro_private o') False,
      ro_locked = orElse (dro_locked o') False,
      ro_metadata = dro_metadata o',
      ro_reservationTimeout = orElse (dro_reservationTimeout o') 60\<rparr>"

text \<open>
  A room class: its declared contract, with the hash of it, whether its constructor throws, and
  what is wrong with the state of a new instance, if it has one.
\<close>

record RoomClassInfo =
  cls :: nat
  cls_contract :: "Contract option"
  cls_hash :: jsstring
  cls_throws :: bool
  cls_state :: "jsstring list"

record RoomTypeDef =
  rt_name :: jsstring
  rt_ctor :: nat
  rt_options :: ResolvedRoomOptions
  rt_contractHash :: jsstring
  rt_clientNames :: "jsstring list"
  rt_serverNames :: "jsstring list"
  rt_createOptions :: "messagedef option"
  rt_joinOptions :: "messagedef option"

definition RESERVED_CREATE_FIELDS :: "jsstring list" where
  "RESERVED_CREATE_FIELDS = map js [''roomId'', ''roomType'', ''maxClients'', ''autoDispose'', ''allowReconnection'',
     ''reconnectionTimeout'', ''visibility'', ''locked'', ''metadata'']"

definition EMPTY_CONTRACT :: Contract where
  "EMPTY_CONTRACT = \<lparr>client = [], server = [], options = None\<rparr>"

text \<open>\<open>createRoomType\<close>: every problem at once, or the type.\<close>

definition createRoomType :: "jsstring \<Rightarrow> RoomClassInfo \<Rightarrow> DefineRoomOptions \<Rightarrow> jsstring list + RoomTypeDef" where
  "createRoomType name ctor opts =
     (let contract = orElse (cls_contract ctor) EMPTY_CONTRACT;
          createOptions = optionsDef (Some contract) KCreate;
          fields = (case createOptions of None \<Rightarrow> [] | Some def \<Rightarrow> map fst (def_fields def));
          problems =
            (if name = [] then [js ''room type name must be a non-empty string''] else [])
            @ (case cls_contract ctor of None \<Rightarrow> [] | Some c \<Rightarrow> map (\<lambda>p. js ''contract '' @ p) (validateContract c))
            @ map (\<lambda>field. js ''contract options.create.'' @ field @ js '': onCreate already receives it from the framework; rename the option'')
                (filter (\<lambda>field. field \<in> set RESERVED_CREATE_FIELDS) fields)
            @ (if cls_throws ctor then [js ''constructor threw''] else map (\<lambda>p. js ''state: '' @ p) (cls_state ctor))
      in if problems \<noteq> [] then Inl problems
         else Inr \<lparr>rt_name = name, rt_ctor = cls ctor, rt_options = resolveOptions opts, rt_contractHash = cls_hash ctor,
                   rt_clientNames = map fst (client contract), rt_serverNames = map fst (server contract),
                   rt_createOptions = createOptions, rt_joinOptions = optionsDef (Some contract) KJoin\<rparr>)"

section \<open>Reading options\<close>

text \<open>Options on their way to a room: bytes, or any other value.\<close>

datatype options_value = OBytes "byte list" | OVal jsval

type_synonym options_error = "option_kind \<times> SerializerError"

definition defOf :: "RoomTypeDef \<Rightarrow> option_kind \<Rightarrow> messagedef option" where
  "defOf type kind = (case kind of KCreate \<Rightarrow> rt_createOptions type | KJoin \<Rightarrow> rt_joinOptions type)"

text \<open>How the decoder sees an element: \<open>null\<close> and \<open>undefined\<close> stand for zero bytes.\<close>

definition element_of :: "options_value \<Rightarrow> wire_element" where
  "element_of v = (case v of OBytes bs \<Rightarrow> EBytes bs | OVal x \<Rightarrow> if isAbsent x then EAbsent else EOther)"

definition readClientOptions :: "RoomTypeDef \<Rightarrow> option_kind \<Rightarrow> options_value \<Rightarrow> options_error + options_value" where
  "readClientOptions type kind element =
     (case defOf type kind of
        None \<Rightarrow> Inr element
      | Some def \<Rightarrow> (case decodeOptions def (element_of element) of Inl e \<Rightarrow> Inl (kind, e) | Inr v \<Rightarrow> Inr (OVal v)))"

text \<open>\<open>packOptions\<close> and \<open>convertOptions\<close>. The encoder's scratch writer is \<open>out\<close>. Bytes are what another process encoded.\<close>

definition packOptions :: "bytewriter \<Rightarrow> messagedef \<Rightarrow> option_kind \<Rightarrow> jsval \<Rightarrow> options_error + byte list" where
  "packOptions out def kind v =
     (case fst (encodeOptions def v out) of Inl e \<Rightarrow> Inl (kind, e) | Inr encoded \<Rightarrow> Inr (orElse encoded []))"

definition convertOptions :: "bytewriter \<Rightarrow> messagedef \<Rightarrow> option_kind \<Rightarrow> options_value \<Rightarrow> options_error + options_value" where
  "convertOptions out def kind v =
     (case (case v of OBytes bs \<Rightarrow> Inr bs | OVal x \<Rightarrow> packOptions out def kind x) of
        Inl e \<Rightarrow> Inl e
      | Inr bs \<Rightarrow> (case decodeOptions def (EBytes bs) of Inl e \<Rightarrow> Inl (kind, e) | Inr x \<Rightarrow> Inr (OVal x)))"

definition readServerOptions :: "bytewriter \<Rightarrow> RoomTypeDef \<Rightarrow> option_kind \<Rightarrow> options_value \<Rightarrow> options_error + options_value" where
  "readServerOptions out type kind v =
     (case defOf type kind of None \<Rightarrow> Inr v | Some def \<Rightarrow> convertOptions out def kind v)"

section \<open>The same options everywhere\<close>

text \<open>Options that encode are read as their declaration promises, whichever way they come.\<close>

lemma encoded_options_read:
  assumes "fst (encodeOptions def payload out) = Inr element" "wf_message def" "payload_ok payload" "wbytes out \<noteq> []"
  shows "decodeOptions def (EBytes (orElse element [])) = Inr (JObj (seen_message def (if isAbsent payload then JObj [] else payload)))"
    "decodeOptions def (element_of (case element of None \<Rightarrow> OVal JNull | Some bs \<Rightarrow> OBytes bs))
       = Inr (JObj (seen_message def (if isAbsent payload then JObj [] else payload)))"
proof -
  obtain out' where e: "encodeOptions def payload out = (Inr element, out')" using assms(1) by (metis prod.collapse)
  note d = decodeOptions_encodeOptions [OF e assms(2-4)]
  have "decodeOptions def (EBytes []) = decodeOptions def EAbsent" by (simp add: decodeOptions_def)
  then show "decodeOptions def (EBytes (orElse element [])) = Inr (JObj (seen_message def (if isAbsent payload then JObj [] else payload)))"
    using d by (cases element) (simp_all add: orElse_def)
  show "decodeOptions def (element_of (case element of None \<Rightarrow> OVal JNull | Some bs \<Rightarrow> OBytes bs))
       = Inr (JObj (seen_message def (if isAbsent payload then JObj [] else payload)))"
    using d by (cases element) (simp_all add: element_of_def)
qed

end
