(* ===== verification/Matchmaker.thy ===== *)
theory Matchmaker
  imports RoomTypes
begin

text \<open>
  The rooms of a process and how they are found (\<open>core/src/room-manager.ts\<close> and the synchronous
  parts of \<open>core/src/matchmaker.ts\<close>): registering and removing rooms, the searches by key and by
  availability, listings and queries, the choice of a process for a new room, and the names of
  creation pools. Rooms are objects: the manager has a heap of them, in the order they were made,
  and its map holds object numbers.
\<close>

section \<open>Rooms and their manager\<close>

text \<open>
  \<open>mr_outcome\<close> is what \<open>_readyPromise\<close> settled with: nothing yet, success, or
  \<open>ROOM_CREATE_FAILED\<close>.
\<close>

record ManagedRoom =
  mr_id :: jsstring
  mr_type :: jsstring
  mr_key :: "jsstring option"
  mr_metadata :: "(jsstring \<times> jsval) list"
  mr_state :: RoomState
  mr_outcome :: "bool option"

datatype announcement = RoomCreated nat | RoomRemoved nat

record RoomManager =
  mg_heap :: "ManagedRoom list"
  mg_rooms :: "(jsstring \<times> nat) list"
  mg_announced :: "announcement list"

definition new_manager :: RoomManager where
  "new_manager = \<lparr>mg_heap = [], mg_rooms = [], mg_announced = []\<rparr>"

definition getRoom :: "RoomManager \<Rightarrow> jsstring \<Rightarrow> nat option" where
  "getRoom m i = map_of (mg_rooms m) i"

definition getRooms :: "RoomManager \<Rightarrow> nat list" where
  "getRooms m = map snd (mg_rooms m)"

definition getRoomCount :: "RoomManager \<Rightarrow> nat" where
  "getRoomCount m = length (mg_rooms m)"

abbreviation mroom :: "RoomManager \<Rightarrow> nat \<Rightarrow> ManagedRoom" where
  "mroom m r \<equiv> mg_heap m ! r"

abbreviation rstate :: "RoomManager \<Rightarrow> nat \<Rightarrow> RoomState" where
  "rstate m r \<equiv> mr_state (mroom m r)"

text \<open>\<open>_closing\<close> and \<open>isDisposed\<close> read the same field.\<close>

abbreviation closing :: "RoomManager \<Rightarrow> nat \<Rightarrow> bool" where
  "closing m r \<equiv> rm_disposing (rstate m r)"

subsection \<open>Metadata\<close>

text \<open>A property of an object literal: unlike an assignment, it creates an own \<open>__proto__\<close>.\<close>

definition put_own :: "(jsstring \<times> jsval) list \<Rightarrow> jsstring \<times> jsval \<Rightarrow> (jsstring \<times> jsval) list" where
  "put_own ps p =
     (if fst p \<in> fst ` set ps then map (\<lambda>(k, v). (k, if k = fst p then snd p else v)) ps
      else if isIntegerLikeKey (fst p) then insert_index (fst p) (snd p) ps
      else ps @ [p])"

text \<open>\<open>{ ...a, ...b }\<close>.\<close>

definition spread :: "(jsstring \<times> jsval) list \<Rightarrow> (jsstring \<times> jsval) list \<Rightarrow> (jsstring \<times> jsval) list" where
  "spread ps qs = foldl put_own ps qs"

definition asOptions :: "jsval \<Rightarrow> (jsstring \<times> jsval) list" where
  "asOptions v = (case v of JObj ps \<Rightarrow> ps | _ \<Rightarrow> [])"

datatype MetadataValue = MStr jsstring | MNum jsnum | MBool bool | MNull

fun meta_val :: "MetadataValue \<Rightarrow> jsval" where
  "meta_val (MStr s) = JStr s"
| "meta_val (MNum n) = JNum n"
| "meta_val (MBool b) = JBool b"
| "meta_val MNull = JNull"

type_synonym where_entries = "(jsstring \<times> MetadataValue) list"

abbreviation entries :: "where_entries \<Rightarrow> (jsstring \<times> jsval) list" where
  "entries \<equiv> map (map_prod id meta_val)"

text \<open>
  \<open>===\<close>. Objects are compared by identity, which values here do not have: two objects count as
  different.
\<close>

fun strict_eq :: "jsval \<Rightarrow> jsval \<Rightarrow> bool" where
  "strict_eq JUndef JUndef = True"
| "strict_eq JNull JNull = True"
| "strict_eq (JBool a) (JBool b) = (a = b)"
| "strict_eq (JNum a) (JNum b) = num_eq a b"
| "strict_eq (JStr a) (JStr b) = (a = b)"
| "strict_eq _ _ = False"

definition matches :: "(jsstring \<times> jsval) list \<Rightarrow> (jsstring \<times> jsval) list \<Rightarrow> bool" where
  "matches metadata wanted = list_all (\<lambda>(k, v). strict_eq (js_get metadata k) v) wanted"

subsection \<open>Creating and removing\<close>

text \<open>What matchmaking created a room for.\<close>

record RoomPlacement =
  rp_key :: "jsstring option"
  rp_where :: "where_entries option"

definition no_placement :: RoomPlacement where
  "no_placement = \<lparr>rp_key = None, rp_where = None\<rparr>"

text \<open>
  What a new room is given from outside: its id, the codec's name, and the clients and connections
  that will come.
\<close>

record RoomSeed =
  sd_id :: jsstring
  sd_codec :: jsstring
  sd_clients :: "nat \<Rightarrow> jsstring \<times> JoinedBy"
  sd_remote :: "nat \<Rightarrow> bool"

definition room_setup :: "RoomTypeDef \<Rightarrow> RoomSeed \<Rightarrow> ManagedRoom" where
  "room_setup type seed =
     (let o' = rt_options type
      in \<lparr>mr_id = sd_id seed, mr_type = rt_name type, mr_key = None, mr_metadata = ro_metadata o',
          mr_state = new_room (ro_maxClients o') (ro_autoDispose o') (ro_allowReconnection o') (ro_reconnectionTimeout o')
            (ro_private o') (ro_locked o') (sd_clients seed) (sd_remote seed)
            \<lparr>ident_id = sd_id seed, ident_type = rt_name type, ident_hash = JStr (rt_contractHash type), ident_codec = sd_codec seed,
             ident_clientNames = rt_clientNames type, ident_serverNames = rt_serverNames type\<rparr>,
          mr_outcome = None\<rparr>)"

text \<open>\<open>_create\<close> of the room up to \<open>onCreate\<close>: the placement's entries go into the metadata last.\<close>

definition room_create :: "options_value \<Rightarrow> RoomPlacement \<Rightarrow> ManagedRoom \<Rightarrow> ManagedRoom" where
  "room_create opts placement room =
     (let user = (case opts of OBytes bs \<Rightarrow> JUndef | OVal v \<Rightarrow> js_get (asOptions v) (js ''metadata''))
      in room\<lparr>mr_key := rp_key placement,
              mr_metadata := spread (spread (mr_metadata room) (asOptions user))
                (case rp_where placement of None \<Rightarrow> [] | Some w \<Rightarrow> entries w)\<rparr>)"

definition mg_create :: "RoomTypeDef \<Rightarrow> options_value \<Rightarrow> RoomPlacement \<Rightarrow> RoomSeed \<Rightarrow> RoomManager \<Rightarrow> nat \<times> RoomManager" where
  "mg_create type opts placement seed m =
     (let r = length (mg_heap m); room = room_create opts placement (room_setup type seed)
      in (r, m\<lparr>mg_heap := mg_heap m @ [room], mg_rooms := AList.update (mr_id room) r (mg_rooms m)\<rparr>))"

definition set_room :: "nat \<Rightarrow> (ManagedRoom \<Rightarrow> ManagedRoom) \<Rightarrow> RoomManager \<Rightarrow> RoomManager" where
  "set_room r f m = m\<lparr>mg_heap := (mg_heap m)[r := f (mroom m r)]\<rparr>"

definition removed :: "nat \<Rightarrow> RoomManager \<Rightarrow> RoomManager" where
  "removed r m =
     (let i = mr_id (mroom m r)
      in if getRoom m i \<noteq> Some r then m
         else let m = m\<lparr>mg_rooms := AList.delete i (mg_rooms m)\<rparr>
              in if rm_ready (rstate m r) then m\<lparr>mg_announced := mg_announced m @ [RoomRemoved r]\<rparr> else m)"

text \<open>An operation of a room; the host is told when the room has finished disposing.\<close>

definition mg_op :: "nat \<Rightarrow> RoomEvent \<Rightarrow> RoomManager \<Rightarrow> RoomManager" where
  "mg_op r e m =
     (if r < length (mg_heap m) then
        case room_op e (rstate m r) of
          (s, out) \<Rightarrow>
            let m = set_room r (\<lambda>x. x\<lparr>mr_state := s\<rparr>) m
            in if RoomDisposed \<in> set out then removed r m else m
      else m)"

text \<open>\<open>onCreate\<close> ended: the room is ready and announced, or it is disposed and its creation failed.\<close>

definition mg_ready :: "nat \<Rightarrow> bool \<Rightarrow> RoomManager \<Rightarrow> RoomManager" where
  "mg_ready r created m =
     (if r < length (mg_heap m) \<and> mr_outcome (mroom m r) = None then
        if created then
          (let m = set_room r (\<lambda>x. x\<lparr>mr_outcome := Some True\<rparr>) (mg_op r EReady m)
           in m\<lparr>mg_announced := mg_announced m @ [RoomCreated r]\<rparr>)
        else set_room r (\<lambda>x. x\<lparr>mr_outcome := Some False\<rparr>) (mg_op r EDispose m)
      else m)"

definition set_metadata :: "nat \<Rightarrow> (jsstring \<times> jsval) list \<Rightarrow> RoomManager \<Rightarrow> RoomManager" where
  "set_metadata r ps m = (if r < length (mg_heap m) then set_room r (\<lambda>x. x\<lparr>mr_metadata := ps\<rparr>) m else m)"

section \<open>Finding rooms\<close>

definition findKeyed :: "jsstring \<Rightarrow> jsstring \<Rightarrow> RoomManager \<Rightarrow> nat option" where
  "findKeyed roomType key m =
     find (\<lambda>r. mr_type (mroom m r) = roomType \<and> mr_key (mroom m r) = Some key \<and> \<not> closing m r) (getRooms m)"

definition findAvailable ::
  "bool \<Rightarrow> jsstring \<Rightarrow> jsstring list \<Rightarrow> (jsstring \<times> jsval) list option \<Rightarrow> RoomManager \<Rightarrow> nat option" where
  "findAvailable draining roomType exclude wanted m =
     (if draining then None
      else find (\<lambda>r. mr_type (mroom m r) = roomType \<and> mr_id (mroom m r) \<notin> set exclude
                \<and> (case wanted of
                     None \<Rightarrow> isAvailable (rstate m r)
                   | Some w \<Rightarrow> hasFreeSeat (rstate m r) \<and> matches (mr_metadata (mroom m r)) w)) (getRooms m))"

record RoomListingInfo =
  li_id :: jsstring
  li_type :: jsstring
  li_clients :: nat
  li_maxClients :: jsnum
  li_private :: bool
  li_locked :: bool
  li_metadata :: "(jsstring \<times> jsval) list"
  li_key :: "jsstring option"
  li_processId :: jsstring
  li_draining :: bool

definition getClientCount :: "RoomState \<Rightarrow> nat" where
  "getClientCount s = length (rm_clients s)"

definition listing :: "jsstring \<Rightarrow> bool \<Rightarrow> ManagedRoom \<Rightarrow> RoomListingInfo" where
  "listing processId draining room =
     \<lparr>li_id = mr_id room, li_type = mr_type room, li_clients = getClientCount (mr_state room), li_maxClients = maxClients (mr_state room),
      li_private = rm_private (mr_state room), li_locked = rm_locked (mr_state room), li_metadata = mr_metadata room, li_key = mr_key room,
      li_processId = processId, li_draining = draining\<rparr>"

definition listLocal ::
  "jsstring \<Rightarrow> bool \<Rightarrow> jsstring \<Rightarrow> (jsstring \<times> jsval) list option \<Rightarrow> bool \<Rightarrow> bool \<Rightarrow> RoomManager \<Rightarrow> RoomListingInfo list" where
  "listLocal processId draining roomType metadata includePrivate includeDraining m =
     (if draining \<and> \<not> includeDraining then []
      else map (listing processId draining)
             (filter (\<lambda>x. mr_type x = roomType \<and> \<not> rm_disposing (mr_state x) \<and> rm_ready (mr_state x)
                        \<and> (rm_private (mr_state x) \<longrightarrow> includePrivate)
                        \<and> (case metadata of None \<Rightarrow> True | Some w \<Rightarrow> matches (mr_metadata x) w))
               (map (mroom m) (getRooms m))))"

record MatchMakerQueryOptions =
  qo_type :: jsstring
  qo_metadata :: "(jsstring \<times> jsval) list option"
  qo_filters :: "(RoomListingInfo \<Rightarrow> bool) list"
  qo_limit :: "jsnum option"
  qo_includePrivate :: bool
  qo_includeDraining :: bool

text \<open>The loop of \<open>query\<close> over the merged listings.\<close>

fun query_loop :: "(RoomListingInfo \<Rightarrow> bool) list \<Rightarrow> jsnum option \<Rightarrow> RoomListingInfo list \<Rightarrow> RoomListingInfo list \<Rightarrow> RoomListingInfo list" where
  "query_loop filters limit [] out = out"
| "query_loop filters limit (x # xs) out =
     (if list_ex (\<lambda>f. \<not> f x) filters then query_loop filters limit xs out
      else let out = out @ [x]
           in case limit of
                None \<Rightarrow> query_loop filters limit xs out
              | Some n \<Rightarrow> if num_le n (num_of_int (int (length out))) then out else query_loop filters limit xs out)"

text \<open>\<open>others\<close> are the listings of the cluster's other processes, if there is a cluster.\<close>

definition query :: "MatchMakerQueryOptions \<Rightarrow> jsstring \<Rightarrow> bool \<Rightarrow> RoomListingInfo list option \<Rightarrow> RoomManager \<Rightarrow> RoomListingInfo list" where
  "query q processId draining others m =
     query_loop (qo_filters q) (qo_limit q)
       (listLocal processId draining (qo_type q) (qo_metadata q) (qo_includePrivate q) (qo_includeDraining q) m
        @ (case others of None \<Rightarrow> [] | Some ls \<Rightarrow> ls)) []"

section \<open>Choosing a process\<close>

datatype MatchCode =
    Refused RoomErrorCode
  | ROOM_TYPE_NOT_DEFINED
  | INVALID_OPTIONS
  | ROOM_EXISTS
  | ROOM_CREATE_FAILED
  | SERVER_SHUTTING_DOWN
  | CLUSTER_NOT_IMPLEMENTED
  | JOIN_FAILED
  | CONTRACT_MISMATCH
  | TIMEOUT
  | CONNECTION_LOST
  | OTHER_CODE jsstring

record ProcessInfo =
  pi_id :: jsstring
  pi_roomCount :: nat
  pi_clientCount :: nat
  pi_metadata :: "(jsstring \<times> jsval) list"
  pi_draining :: bool

text \<open>A selector is user code: it throws, or picks something, which may be nothing at all.\<close>

datatype pick = Throws | Picks "ProcessInfo option"

type_synonym selector = "ProcessInfo list \<Rightarrow> pick"

definition localProcess :: "jsstring \<Rightarrow> bool \<Rightarrow> (jsstring \<times> jsval) list \<Rightarrow> RoomManager \<Rightarrow> ProcessInfo" where
  "localProcess processId draining metadata m =
     \<lparr>pi_id = processId, pi_roomCount = getRoomCount m, pi_clientCount = sum_list (map (\<lambda>r. getClientCount (rstate m r)) (getRooms m)),
      pi_metadata = metadata, pi_draining = draining\<rparr>"

definition lighter :: "ProcessInfo \<Rightarrow> ProcessInfo \<Rightarrow> bool" where
  "lighter b a = (pi_roomCount b < pi_roomCount a \<or> (pi_roomCount b = pi_roomCount a \<and> pi_clientCount b < pi_clientCount a))"

definition leastLoaded :: "ProcessInfo list \<Rightarrow> ProcessInfo" where
  "leastLoaded ps = foldl (\<lambda>a b. if lighter b a then b else a) (hd ps) (tl ps)"

definition runSelector :: "selector \<Rightarrow> ProcessInfo list \<Rightarrow> MatchCode + jsstring" where
  "runSelector f offered =
     (case f offered of
        Throws \<Rightarrow> Inl INVALID_OPTIONS
      | Picks None \<Rightarrow> Inl INVALID_OPTIONS
      | Picks (Some p) \<Rightarrow> if pi_id p \<in> pi_id ` set offered then Inr (pi_id p) else Inl INVALID_OPTIONS)"

text \<open>\<open>_selectLocal\<close>; picking nothing is a \<open>TypeError\<close> here, which rejects the call (\<open>None\<close>).\<close>

definition selectLocal :: "selector option \<Rightarrow> ProcessInfo \<Rightarrow> (MatchCode + unit) option" where
  "selectLocal f here =
     (case f of
        None \<Rightarrow> Some (Inr ())
      | Some f \<Rightarrow>
          (case f [here] of
             Throws \<Rightarrow> Some (Inl INVALID_OPTIONS)
           | Picks None \<Rightarrow> None
           | Picks (Some p) \<Rightarrow> Some (if pi_id p = pi_id here then Inr () else Inl CLUSTER_NOT_IMPLEMENTED)))"

text \<open>
  One round of \<open>_place\<close>, up to a process being asked or an answer: \<open>Here\<close> is this process. This
  process is struck off when it drains, and the choice is made again.
\<close>

datatype placing = Here | Ask jsstring "jsstring list" | NoPlace MatchCode

definition offered_of :: "ProcessInfo list \<Rightarrow> jsstring list \<Rightarrow> ProcessInfo list" where
  "offered_of ps refused = filter (\<lambda>p. \<not> pi_draining p \<and> pi_id p \<notin> set refused) ps"

lemma refuse_fewer:
  assumes "i \<in> pi_id ` set (offered_of ps refused)"
  shows "length (offered_of ps (i # refused)) < length (offered_of ps refused)"
proof -
  obtain p where p: "p \<in> set (offered_of ps refused)" "pi_id p = i" using assms by auto
  have "offered_of ps (i # refused) = filter (\<lambda>p. pi_id p \<noteq> i) (offered_of ps refused)"
    unfolding offered_of_def filter_filter by (rule filter_cong) auto
  then show ?thesis using p by (simp add: length_filter_less)
qed

lemma foldl_lighter_in: "foldl (\<lambda>a b. if lighter b a then b else a) a ps \<in> insert a (set ps)"
proof (induction ps arbitrary: a)
  case (Cons p ps)
  show ?case using Cons.IH [of p] Cons.IH [of a] by (cases "lighter p a") auto
qed simp

lemma leastLoaded_in: "ps \<noteq> [] \<Longrightarrow> leastLoaded ps \<in> set ps"
  using foldl_lighter_in [of "hd ps" "tl ps"] by (cases ps) (auto simp: leastLoaded_def)

definition choice :: "selector option \<Rightarrow> ProcessInfo list \<Rightarrow> MatchCode + jsstring" where
  "choice f offered = (case f of None \<Rightarrow> Inr (pi_id (leastLoaded offered)) | Some f \<Rightarrow> runSelector f offered)"

lemma choice_offered: "choice f ps = Inr i \<Longrightarrow> ps \<noteq> [] \<Longrightarrow> i \<in> pi_id ` set ps"
  using leastLoaded_in by (auto simp: choice_def runSelector_def split: option.splits pick.splits if_splits)

function place_round :: "jsstring \<Rightarrow> bool \<Rightarrow> selector option \<Rightarrow> ProcessInfo list \<Rightarrow> jsstring list \<Rightarrow> placing" where
  "place_round self draining f ps refused =
     (let offered = offered_of ps refused
      in if offered = [] then NoPlace SERVER_SHUTTING_DOWN
         else case choice f offered of
                Inl e \<Rightarrow> NoPlace e
              | Inr i \<Rightarrow>
                  if i = self then
                    if \<not> draining then Here else place_round self draining f ps (i # refused)
                  else Ask i refused)"
  by pat_completeness auto
termination
  by (relation "measure (\<lambda>(self, draining, f, ps, refused). length (offered_of ps refused))")
    (auto dest: choice_offered intro: refuse_fewer)

declare place_round.simps [simp del]

text \<open>Whether a process that refused is struck off and another one asked.\<close>

definition place_again :: "selector option \<Rightarrow> MatchCode \<Rightarrow> bool" where
  "place_again f e = (e = SERVER_SHUTTING_DOWN \<or> (f = None \<and> e = ROOM_TYPE_NOT_DEFINED))"

section \<open>Placements and pools\<close>

record Place =
  pl_selector :: "selector option"
  pl_where :: "where_entries option"
  pl_key :: "jsstring option"

datatype placement_arg = NoPlacement | BySelector selector | ByPlacement Place

definition resolvePlacement :: "placement_arg \<Rightarrow> Place" where
  "resolvePlacement p =
     (case p of
        NoPlacement \<Rightarrow> \<lparr>pl_selector = None, pl_where = None, pl_key = None\<rparr>
      | BySelector f \<Rightarrow> \<lparr>pl_selector = Some f, pl_where = None, pl_key = None\<rparr>
      | ByPlacement q \<Rightarrow> q)"

text \<open>\<open>isWellFormed\<close> and no NUL: what \<open>wire_ok\<close> says of a string.\<close>

definition badKey :: "jsstring option \<Rightarrow> bool" where
  "badKey key = (case key of None \<Rightarrow> False | Some k \<Rightarrow> \<not> wire_ok k)"

subsection \<open>JSON text\<close>

definition hex_digit :: "nat \<Rightarrow> code_unit" where
  "hex_digit n = word_of_nat (if n < 10 then 0x30 + n else 0x57 + n)"

definition json_unicode :: "code_unit \<Rightarrow> jsstring" where
  "json_unicode c =
     (let n = unat c
      in [0x5C, 0x75, hex_digit (n div 4096), hex_digit (n div 256 mod 16), hex_digit (n div 16 mod 16), hex_digit (n mod 16)])"

definition json_unit :: "code_unit \<Rightarrow> jsstring" where
  "json_unit c =
     (if c = 0x08 then [0x5C, 0x62] else if c = 0x09 then [0x5C, 0x74] else if c = 0x0A then [0x5C, 0x6E]
      else if c = 0x0C then [0x5C, 0x66] else if c = 0x0D then [0x5C, 0x72] else if c = 0x22 \<or> c = 0x5C then [0x5C, c]
      else if c < 0x20 \<or> is_high c \<or> is_low c then json_unicode c
      else [c])"

fun json_units :: "jsstring \<Rightarrow> jsstring" where
  "json_units [] = []"
| "json_units [c] = json_unit c"
| "json_units (c # d # cs) = (if is_high c \<and> is_low d then c # d # json_units cs else json_unit c @ json_units (d # cs))"

definition json_string :: "jsstring \<Rightarrow> jsstring" where
  "json_string s = 0x22 # json_units s @ [0x22]"

fun json_list :: "jsstring list \<Rightarrow> jsstring" where
  "json_list [] = []"
| "json_list [x] = x"
| "json_list (x # y # xs) = x @ 0x2C # json_list (y # xs)"

definition json_array :: "jsstring list \<Rightarrow> jsstring" where
  "json_array xs = 0x5B # json_list xs @ [0x5D]"

text \<open>\<open>num_text\<close> is the text of a finite number.\<close>

fun json_meta :: "(rat \<Rightarrow> jsstring) \<Rightarrow> MetadataValue \<Rightarrow> jsstring" where
  "json_meta num_text (MStr s) = json_string s"
| "json_meta num_text (MNum (JFin q)) = num_text q"
| "json_meta num_text (MNum JNegZero) = num_text 0"
| "json_meta num_text (MNum _) = js ''null''"
| "json_meta num_text (MBool b) = (if b then js ''true'' else js ''false'')"
| "json_meta num_text MNull = js ''null''"

fun insert_entry :: "jsstring \<times> MetadataValue \<Rightarrow> where_entries \<Rightarrow> where_entries" where
  "insert_entry p [] = [p]"
| "insert_entry p (q # qs) = (if ord_class.lexordp (fst q) (fst p) then q # insert_entry p qs else p # q # qs)"

definition sort_entries :: "where_entries \<Rightarrow> where_entries" where
  "sort_entries ps = foldr insert_entry ps []"

definition poolOf :: "(rat \<Rightarrow> jsstring) \<Rightarrow> jsstring \<Rightarrow> jsstring option \<Rightarrow> where_entries option \<Rightarrow> jsstring" where
  "poolOf num_text roomType key wanted =
     (case key of
        Some k \<Rightarrow> json_array [json_string roomType, json_string (js ''key''), json_string k]
      | None \<Rightarrow>
          (case wanted of
             None \<Rightarrow> roomType
           | Some w \<Rightarrow>
               json_array [json_string roomType, json_string (js ''where''),
                 json_array (map (\<lambda>(k, v). json_array [json_string k, json_meta num_text v]) (sort_entries w))]))"

text \<open>\<open>_nameOf\<close> of a class: the one name it is registered under.\<close>

definition nameOf_class :: "nat \<Rightarrow> RoomTypeDef list \<Rightarrow> MatchCode + jsstring" where
  "nameOf_class c types =
     (case map rt_name (filter (\<lambda>t. rt_ctor t = c) types) of
        [] \<Rightarrow> Inl ROOM_TYPE_NOT_DEFINED
      | [name] \<Rightarrow> Inr name
      | _ \<Rightarrow> Inl INVALID_OPTIONS)"

end
