(* ===== verification/Creating.thy ===== *)
theory Creating
  imports Matchmaker
begin

text \<open>
  Finding or creating a room, as the calls of one process do it concurrently
  (\<open>createRoom\<close>, \<open>joinOrCreate\<close> and \<open>reserve\<close> of \<open>core/src/matchmaker.ts\<close> and
  \<open>_routeByType\<close> of \<open>core/src/server.ts\<close>). A call runs from one \<open>await\<close> to the next, and its state
  is the \<open>await\<close> it is at; awaits through which a value is only handed on within a call are one. The
  steps of different calls, of rooms and of peers come in any order. What comes from outside in a
  step (answers of other processes, hooks, fresh ids) is the step's \<open>Env\<close>.
\<close>

section \<open>Calls\<close>

text \<open>What a find-or-create does with its room: \<open>joinOrCreate\<close> hands it out, \<open>reserve\<close> holds a seat.\<close>

datatype Take = TakeRoom | TakeSeat options_value

datatype JoinMode = MJoin | MCreate | MJoinOrCreate

record Joining =
  jn_connection :: nat
  jn_client :: nat
  jn_options :: options_value
  jn_hash :: "jsstring option"
  jn_createOptions :: options_value

datatype Request =
    CreateRoom jsstring options_value Place
  | FindOrCreate jsstring options_value Place Take
  | RouteByType JoinMode jsstring Joining

datatype Outcome = GotRoom nat | GotRemote jsstring jsstring | GotSeat nat | GotRemoteSeat | JoinedRoom nat | JoinedElsewhere

text \<open>\<open>Rejected\<close>: an exception left the call.\<close>

datatype Reply = Ok Outcome | Err MatchCode | Rejected

text \<open>The awaits. A claim on creating is a number; the calls that hold one release it at their end.\<close>

datatype Pc =
    AwaitCreation nat
  | AwaitFound nat
  | AwaitTaken Reply
  | AwaitGranted nat
  | AwaitLook "nat option" "nat option" bool
  | AwaitLookup "nat option"
  | AwaitProxy jsstring jsstring
  | AwaitRemoteTaken jsstring jsstring
  | AwaitProcesses "nat option"
  | AwaitRemote "nat option" "ProcessInfo list" "jsstring list" jsstring
  | AwaitHere "nat option"
  | AwaitReady "nat option" nat
  | AwaitCreated "nat option" Reply
  | AwaitNewTaken "nat option" Reply
  | AwaitForward
  | AwaitElsewhere "nat option"
  | AwaitAuth "nat option" options_value
  | AwaitNewRoom "nat option" nat
  | AwaitSeated nat
  | AwaitAuthorize nat
  | AwaitJoin nat
  | Returned Reply

record Call =
  cl_request :: Request
  cl_known :: bool
  cl_ask :: bool
  cl_pc :: Pc

text \<open>
  A process: its id and description, room types, rooms, pending creations by pool, claims (whether
  each is released), whether it drains and is in a cluster, and its calls. \<open>pr_numText\<close> is the text
  of a number and \<open>pr_out\<close> the encoder's scratch writer.
\<close>

record Process =
  pr_id :: jsstring
  pr_metadata :: "(jsstring \<times> jsval) list"
  pr_types :: "RoomTypeDef list"
  pr_manager :: RoomManager
  pr_creating :: "jsstring \<rightharpoonup> nat"
  pr_claims :: "bool list"
  pr_draining :: bool
  pr_cluster :: bool
  pr_calls :: "Call list"
  pr_numText :: "rat \<Rightarrow> jsstring"
  pr_out :: bytewriter

record Env =
  env_found :: "(jsstring \<times> jsstring) option"
  env_refused :: "MatchCode option"
  env_processes :: "ProcessInfo list"
  env_seed :: RoomSeed
  env_reservation :: jsstring
  env_session :: jsstring
  env_now :: rat

definition getType :: "jsstring \<Rightarrow> Process \<Rightarrow> RoomTypeDef option" where
  "getType name p = find (\<lambda>t. rt_name t = name) (pr_types p)"

fun request_name :: "Request \<Rightarrow> jsstring" where
  "request_name (CreateRoom name opts place) = name"
| "request_name (FindOrCreate name opts place tk) = name"
| "request_name (RouteByType mode name j) = name"

fun request_place :: "Request \<Rightarrow> Place" where
  "request_place (CreateRoom name opts place) = place"
| "request_place (FindOrCreate name opts place tk) = place"
| "request_place (RouteByType mode name j) = \<lparr>pl_selector = None, pl_where = None, pl_key = None\<rparr>"

definition pool_of :: "(rat \<Rightarrow> jsstring) \<Rightarrow> Request \<Rightarrow> jsstring" where
  "pool_of num_text rq = poolOf num_text (request_name rq) (pl_key (request_place rq)) (pl_where (request_place rq))"

abbreviation call_at :: "Process \<Rightarrow> nat \<Rightarrow> Call" where
  "call_at p c \<equiv> pr_calls p ! c"

abbreviation request_at :: "Process \<Rightarrow> nat \<Rightarrow> Request" where
  "request_at p c \<equiv> cl_request (call_at p c)"

abbreviation pool_at_call :: "Process \<Rightarrow> nat \<Rightarrow> jsstring" where
  "pool_at_call p c \<equiv> pool_of (pr_numText p) (request_at p c)"

definition set_pc :: "nat \<Rightarrow> Pc \<Rightarrow> Process \<Rightarrow> Process" where
  "set_pc c pc p = p\<lparr>pr_calls := (pr_calls p)[c := (call_at p c)\<lparr>cl_pc := pc\<rparr>]\<rparr>"

section \<open>Claims\<close>

definition claimCreation :: "jsstring \<Rightarrow> Process \<Rightarrow> nat \<times> Process" where
  "claimCreation pool p =
     (length (pr_claims p), p\<lparr>pr_creating := (pr_creating p)(pool \<mapsto> length (pr_claims p)), pr_claims := pr_claims p @ [False]\<rparr>)"

text \<open>\<open>release\<close> of a claim on \<open>pool\<close>; a second one does nothing. The cluster's lock is given back by its own module.\<close>

definition release_claim :: "jsstring \<Rightarrow> nat option \<Rightarrow> Process \<Rightarrow> Process" where
  "release_claim pool claim p =
     (case claim of
        None \<Rightarrow> p
      | Some k \<Rightarrow>
          if pr_claims p ! k then p
          else p\<lparr>pr_claims := (pr_claims p)[k := True],
                 pr_creating := (if pr_creating p pool = Some k then (pr_creating p)(pool := None) else pr_creating p)\<rparr>)"

definition finish :: "nat \<Rightarrow> nat option \<Rightarrow> Reply \<Rightarrow> Process \<Rightarrow> Process" where
  "finish c claim reply p = set_pc c (Returned reply) (release_claim (pool_at_call p c) claim p)"

section \<open>Taking a room\<close>

text \<open>Options as a held seat keeps them; a byte array is listed.\<close>

definition kept_options :: "options_value \<Rightarrow> jsval" where
  "kept_options v = (case v of OVal x \<Rightarrow> x | OBytes bs \<Rightarrow> JArr (map (\<lambda>b. JNum (num_of_int (uint b))) bs))"

text \<open>\<open>_reserveIn\<close> with the reading of the options: room first, options second.\<close>

definition reserve_in :: "Env \<Rightarrow> nat \<Rightarrow> options_value \<Rightarrow> bool \<Rightarrow> Process \<Rightarrow> Reply \<times> Process" where
  "reserve_in env r raw byId p =
     (let m = pr_manager p; type = getType (mr_type (mroom m r)) p;
          reading = (case type of None \<Rightarrow> Inr raw | Some t \<Rightarrow> readServerOptions (pr_out p) t KJoin raw);
          seconds = (case type of None \<Rightarrow> 60 | Some t \<Rightarrow> ro_reservationTimeout (rt_options t));
          hold = (\<lambda>v. reserveIn (env_reservation env) (env_session env) v byId seconds (env_now env) (rstate m r))
      in case reading of
           Inl e \<Rightarrow> ((case fst (hold JUndef) of Inl x \<Rightarrow> Err (Refused (room_code x)) | Inr _ \<Rightarrow> Err INVALID_OPTIONS), p)
         | Inr v \<Rightarrow>
             (case hold (kept_options v) of
                (Inl x, s) \<Rightarrow> (Err (Refused (room_code x)), p)
              | (Inr _, s) \<Rightarrow> (Ok (GotSeat r), p\<lparr>pr_manager := set_room r (\<lambda>x. x\<lparr>mr_state := s\<rparr>) m\<rparr>)))"

definition take_now :: "Env \<Rightarrow> nat \<Rightarrow> Request \<Rightarrow> Process \<Rightarrow> Reply \<times> Process" where
  "take_now env r rq p =
     (case rq of
        FindOrCreate name opts place (TakeSeat joinOptions) \<Rightarrow> reserve_in env r joinOptions (pl_key place \<noteq> None) p
      | _ \<Rightarrow> (Ok (GotRoom r), p))"

definition isFull :: "Reply \<Rightarrow> bool" where
  "isFull reply = (reply = Err (Refused ROOM_FULL))"

text \<open>\<open>take\<close> on a room of another process: that process answers.\<close>

definition take_remote :: "Env \<Rightarrow> jsstring \<Rightarrow> jsstring \<Rightarrow> Request \<Rightarrow> Reply" where
  "take_remote env pid rid rq =
     (case rq of
        FindOrCreate name opts place (TakeSeat joinOptions) \<Rightarrow>
          (case env_refused env of None \<Rightarrow> Ok GotRemoteSeat | Some e \<Rightarrow> Err e)
      | _ \<Rightarrow> Ok (GotRemote pid rid))"

section \<open>Placing and creating\<close>

definition create_options :: "Request \<Rightarrow> options_value" where
  "create_options rq =
     (case rq of CreateRoom name opts place \<Rightarrow> opts | FindOrCreate name opts place tk \<Rightarrow> opts | RouteByType mode name j \<Rightarrow> jn_createOptions j)"

definition placement_of :: "Request \<Rightarrow> RoomPlacement" where
  "placement_of rq = \<lparr>rp_key = pl_key (request_place rq), rp_where = pl_where (request_place rq)\<rparr>"

text \<open>The end of \<open>_createPlaced\<close>: a room of this process.\<close>

definition create_here :: "Env \<Rightarrow> nat option \<Rightarrow> nat \<Rightarrow> Process \<Rightarrow> Process" where
  "create_here env claim c p =
     (let rq = request_at p c
      in case getType (request_name rq) p of
           None \<Rightarrow> set_pc c (AwaitCreated claim (Err ROOM_TYPE_NOT_DEFINED)) p
         | Some t \<Rightarrow>
             (case readServerOptions (pr_out p) t KCreate (create_options rq) of
                Inl e \<Rightarrow> set_pc c (AwaitCreated claim (Err INVALID_OPTIONS)) p
              | Inr v \<Rightarrow>
                  (case mg_create t v (placement_of rq) (env_seed env) (pr_manager p) of
                     (r, m) \<Rightarrow> set_pc c (AwaitReady claim r) (p\<lparr>pr_manager := m\<rparr>))))"

text \<open>\<open>_pack\<close>: whether options can cross to another process. A byte array has none of the declared fields.\<close>

definition pack_fails :: "Request \<Rightarrow> Process \<Rightarrow> bool" where
  "pack_fails rq p =
     (case Option.bind (getType (request_name rq) p) rt_createOptions of
        None \<Rightarrow> False
      | Some def \<Rightarrow>
          isl (packOptions (pr_out p) def KCreate (case create_options rq of OVal v \<Rightarrow> v | OBytes bs \<Rightarrow> JObj [])))"

definition place_next :: "nat option \<Rightarrow> ProcessInfo list \<Rightarrow> jsstring list \<Rightarrow> nat \<Rightarrow> Process \<Rightarrow> Process" where
  "place_next claim ps refused c p =
     (let rq = request_at p c
      in case place_round (pr_id p) (pr_draining p) (pl_selector (request_place rq)) ps refused of
           Here \<Rightarrow> set_pc c (AwaitHere claim) p
         | NoPlace e \<Rightarrow> set_pc c (AwaitCreated claim (Err e)) p
         | Ask i refused \<Rightarrow>
             if pack_fails rq p then set_pc c (AwaitCreated claim (Err INVALID_OPTIONS)) p
             else set_pc c (AwaitRemote claim ps refused i) p)"

definition createPlaced :: "Env \<Rightarrow> nat option \<Rightarrow> nat \<Rightarrow> Process \<Rightarrow> Process" where
  "createPlaced env claim c p =
     (let chooser = pl_selector (request_place (request_at p c))
      in if pr_cluster p \<and> (chooser \<noteq> None \<or> pr_draining p) then set_pc c (AwaitProcesses claim) p
         else if pr_draining p then set_pc c (AwaitCreated claim (Err SERVER_SHUTTING_DOWN)) p
         else case selectLocal chooser (localProcess (pr_id p) (pr_draining p) (pr_metadata p) (pr_manager p)) of
                None \<Rightarrow> set_pc c (AwaitCreated claim Rejected) p
              | Some (Inl e) \<Rightarrow> set_pc c (AwaitCreated claim (Err e)) p
              | Some (Inr _) \<Rightarrow> create_here env claim c p)"

section \<open>The loops\<close>

text \<open>\<open>createRoom\<close> with a key: after any creation of it in progress here.\<close>

definition create_loop :: "nat \<Rightarrow> Process \<Rightarrow> Process" where
  "create_loop c p =
     (let pool = pool_at_call p c
      in case pr_creating p pool of
           Some k \<Rightarrow> set_pc c (AwaitCreation k) p
         | None \<Rightarrow> (case claimCreation pool p of (k, p) \<Rightarrow> set_pc c (AwaitGranted k) p))"

definition local_look :: "Request \<Rightarrow> Process \<Rightarrow> nat option" where
  "local_look rq p =
     (case pl_key (request_place rq) of
        Some key \<Rightarrow> findKeyed (request_name rq) key (pr_manager p)
      | None \<Rightarrow> findAvailable (pr_draining p) (request_name rq) [] (map_option entries (pl_where (request_place rq))) (pr_manager p))"

text \<open>\<open>_findOrCreate\<close> from the head of its loop.\<close>

definition find_loop :: "nat \<Rightarrow> Process \<Rightarrow> Process" where
  "find_loop c p =
     (let pool = pool_at_call p c
      in case pr_creating p pool of
           Some k \<Rightarrow> set_pc c (AwaitCreation k) p
         | None \<Rightarrow>
             (case (if cl_known (call_at p c) then local_look (request_at p c) p else None) of
                Some r \<Rightarrow> set_pc c (AwaitFound r) p
              | None \<Rightarrow> (case claimCreation pool p of (k, p) \<Rightarrow> set_pc c (AwaitGranted k) p)))"

text \<open>The handles of a connection to this process are below its counter.\<close>

definition seatedIn :: "nat \<Rightarrow> RoomState \<Rightarrow> bool" where
  "seatedIn connection s =
     (let conn = rm_conns s connection
      in list_ex (\<lambda>ref. case conn_seats conn ref of None \<Rightarrow> False | Some c \<Rightarrow> cstatus (rm_heap s c) \<noteq> Left) [0..<nextRoomRef conn])"

text \<open>The rest of \<open>_routeByType\<close> when the cluster had no room: \<open>JOIN\<close> fails, the other modes create.\<close>

definition route_create :: "nat option \<Rightarrow> nat \<Rightarrow> Process \<Rightarrow> Process" where
  "route_create claim c p =
     (case request_at p c of
        RouteByType mode name j \<Rightarrow>
          if mode = MJoin then finish c claim (Err (Refused ROOM_NOT_FOUND)) p
          else (case (if cl_known (call_at p c) then getType name p else None) of
                  None \<Rightarrow> finish c claim (Err ROOM_TYPE_NOT_DEFINED) p
                | Some t \<Rightarrow>
                    if pr_draining p then set_pc c (AwaitElsewhere claim) p
                    else (case (if rt_createOptions t = None then readClientOptions t KJoin (jn_options j)
                                else readClientOptions t KCreate (jn_createOptions j)) of
                            Inl e \<Rightarrow> set_pc c (AwaitCreated claim (Err INVALID_OPTIONS)) p
                          | Inr v \<Rightarrow> set_pc c (AwaitAuth claim v) p))
      | _ \<Rightarrow> p)"

definition route_seat :: "nat \<Rightarrow> nat \<Rightarrow> Joining \<Rightarrow> Process \<Rightarrow> Process" where
  "route_seat c r j p =
     (case take_seat (jn_client j) (Some (jn_connection j)) False None (rstate (pr_manager p) r) of
        (Inl e, s) \<Rightarrow> finish c None (Err (Refused (room_code e))) p
      | (Inr _, s) \<Rightarrow> set_pc c (AwaitSeated r) (p\<lparr>pr_manager := set_room r (\<lambda>x. x\<lparr>mr_state := s\<rparr>) (pr_manager p)\<rparr>))"

definition route_find :: "jsstring \<Rightarrow> nat \<Rightarrow> Process \<Rightarrow> nat option" where
  "route_find name connection p =
     (let m = pr_manager p
      in if pr_draining p then None
         else find (\<lambda>r. mr_type (mroom m r) = name \<and> isAvailable (rstate m r) \<and> \<not> seatedIn connection (rstate m r)) (getRooms m))"

definition route_loop :: "nat \<Rightarrow> Process \<Rightarrow> Process" where
  "route_loop c p =
     (case request_at p c of
        RouteByType mode name j \<Rightarrow>
          if mode = MCreate then route_create None c p
          else (case (if mode = MJoinOrCreate then pr_creating p name else None) of
                  Some k \<Rightarrow> set_pc c (AwaitCreation k) p
                | None \<Rightarrow>
                    (case route_find name (jn_connection j) p of
                       Some r \<Rightarrow>
                         if mode = MJoinOrCreate \<and> \<not> rm_ready (rstate (pr_manager p) r) then set_pc c (AwaitFound r) p
                         else route_seat c r j p
                     | None \<Rightarrow>
                         if mode = MJoinOrCreate \<and> cl_known (call_at p c)
                         then (case claimCreation name p of (k, p) \<Rightarrow> set_pc c (AwaitGranted k) p)
                         else if cl_ask (call_at p c) then set_pc c (AwaitLook None None (pr_cluster p)) p
                         else route_create None c p))
      | _ \<Rightarrow> p)"

text \<open>A call's loop, from its head.\<close>

definition again :: "nat \<Rightarrow> Process \<Rightarrow> Process" where
  "again c p =
     (case request_at p c of
        CreateRoom name opts place \<Rightarrow> create_loop c p
      | FindOrCreate name opts place tk \<Rightarrow> find_loop c p
      | RouteByType mode name j \<Rightarrow> route_loop c p)"

section \<open>Starting a call\<close>

definition add_call :: "Request \<Rightarrow> Process \<Rightarrow> Process" where
  "add_call rq p =
     p\<lparr>pr_calls := pr_calls p @ [\<lparr>cl_request = rq, cl_known = (getType (request_name rq) p \<noteq> None), cl_ask = True, cl_pc = Returned Rejected\<rparr>]\<rparr>"

definition checkContract :: "RoomTypeDef \<Rightarrow> jsstring option \<Rightarrow> bool" where
  "checkContract t hash = (case hash of None \<Rightarrow> True | Some h \<Rightarrow> h = rt_contractHash t)"

text \<open>What \<open>_routeByType\<close> checks before it looks for a room.\<close>

definition route_problem :: "JoinMode \<Rightarrow> jsstring \<Rightarrow> Joining \<Rightarrow> Process \<Rightarrow> MatchCode option" where
  "route_problem mode name j p =
     (case getType name p of
        Some t \<Rightarrow>
          if \<not> checkContract t (jn_hash j) then Some CONTRACT_MISMATCH
          else if isl (readClientOptions t KJoin (jn_options j)) then Some INVALID_OPTIONS
          else None
      | None \<Rightarrow> if mode = MCreate \<or> \<not> pr_cluster p then Some ROOM_TYPE_NOT_DEFINED else None)"

definition start_call :: "Env \<Rightarrow> Request \<Rightarrow> Process \<Rightarrow> Process" where
  "start_call env rq p0 =
     (let c = length (pr_calls p0); p = add_call rq p0
      in case rq of
           CreateRoom name opts place \<Rightarrow>
             if badKey (pl_key place) then finish c None (Err INVALID_OPTIONS) p
             else if pl_key place = None then createPlaced env None c p
             else create_loop c p
         | FindOrCreate name opts place tk \<Rightarrow>
             if badKey (pl_key place) then finish c None (Err INVALID_OPTIONS) p else find_loop c p
         | RouteByType mode name j \<Rightarrow>
             (case route_problem mode name j p of
                Some e \<Rightarrow> finish c None (Err e) p
              | None \<Rightarrow> route_loop c p))"

text \<open>\<open>reserve\<close>: join options that do not fit fail the call before anything is looked for.\<close>

definition reserve_request ::
  "jsstring \<Rightarrow> options_value \<Rightarrow> placement_arg \<Rightarrow> options_value option \<Rightarrow> Process \<Rightarrow> MatchCode + Request" where
  "reserve_request name opts placement createOptions p =
     (case getType name p of
        Some t \<Rightarrow>
          if isl (readServerOptions (pr_out p) t KJoin opts) then Inl INVALID_OPTIONS
          else Inr (FindOrCreate name
                 (case createOptions of Some v \<Rightarrow> v | None \<Rightarrow> if rt_createOptions t \<noteq> None then OVal JUndef else opts)
                 (resolvePlacement placement) (TakeSeat opts))
      | None \<Rightarrow> Inr (FindOrCreate name (orElse createOptions opts) (resolvePlacement placement) (TakeSeat opts)))"

section \<open>Resuming a call\<close>

definition raceLost :: "MatchCode \<Rightarrow> bool" where
  "raceLost e = (e \<in> {Refused ROOM_NOT_FOUND, Refused ROOM_FULL, Refused ROOM_LOCKED, SERVER_SHUTTING_DOWN, TIMEOUT, CONNECTION_LOST})"

definition resume_found :: "Env \<Rightarrow> nat \<Rightarrow> nat \<Rightarrow> Process \<Rightarrow> Process" where
  "resume_found env r c p =
     (case mr_outcome (mroom (pr_manager p) r) of
        None \<Rightarrow> p
      | Some created \<Rightarrow>
          (case request_at p c of
             FindOrCreate name opts place tk \<Rightarrow>
               if \<not> created then find_loop c p
               else (case take_now env r (request_at p c) p of (reply, p) \<Rightarrow> set_pc c (AwaitTaken reply) p)
           | _ \<Rightarrow> again c p))"

definition resume_granted :: "nat \<Rightarrow> nat \<Rightarrow> Process \<Rightarrow> Process" where
  "resume_granted k c p =
     (case request_at p c of
        CreateRoom name opts place \<Rightarrow>
          set_pc c (AwaitLook (Some k) (Option.bind (pl_key place) (\<lambda>key. findKeyed name key (pr_manager p))) (pr_cluster p)) p
      | FindOrCreate name opts place tk \<Rightarrow> set_pc c (AwaitLook (Some k) None (pr_cluster p)) p
      | RouteByType mode name j \<Rightarrow>
          if cl_ask (call_at p c) then set_pc c (AwaitLook (Some k) None (pr_cluster p)) p else route_create (Some k) c p)"

text \<open>After the cluster was asked for a room; outside a cluster the answer is none.\<close>

definition resume_look :: "Env \<Rightarrow> nat option \<Rightarrow> nat option \<Rightarrow> bool \<Rightarrow> nat \<Rightarrow> Process \<Rightarrow> Process" where
  "resume_look env claim here asked c p =
     (let found = (if asked then env_found env else None)
      in case request_at p c of
           CreateRoom name opts place \<Rightarrow>
             if here \<noteq> None then finish c claim (Err ROOM_EXISTS) p
             else (case found of
                     Some _ \<Rightarrow> set_pc c (AwaitLookup claim) p
                   | None \<Rightarrow> createPlaced env claim c p)
         | FindOrCreate name opts place tk \<Rightarrow>
             (case found of
                Some (pid, rid) \<Rightarrow> set_pc c (AwaitProxy pid rid) (release_claim (pool_at_call p c) claim p)
              | None \<Rightarrow>
                  if \<not> cl_known (call_at p c) then finish c claim (Err ROOM_TYPE_NOT_DEFINED) p
                  else createPlaced env claim c p)
         | RouteByType mode name j \<Rightarrow>
             (case found of
                Some _ \<Rightarrow> set_pc c AwaitForward (release_claim (pool_at_call p c) claim p)
              | None \<Rightarrow> route_create claim c p))"

text \<open>The room another process answered with: \<open>_lookupKeyed\<close> of \<open>createRoom\<close>, and \<open>_findOrCreate\<close>.\<close>

definition resume_lookup :: "Env \<Rightarrow> nat option \<Rightarrow> nat \<Rightarrow> Process \<Rightarrow> Process" where
  "resume_lookup env claim c p =
     (case env_refused env of None \<Rightarrow> finish c claim (Err ROOM_EXISTS) p | Some e \<Rightarrow> createPlaced env claim c p)"

definition resume_proxy :: "Env \<Rightarrow> jsstring \<Rightarrow> jsstring \<Rightarrow> nat \<Rightarrow> Process \<Rightarrow> Process" where
  "resume_proxy env pid rid c p =
     (case env_refused env of
        None \<Rightarrow> set_pc c (AwaitRemoteTaken pid rid) p
      | Some e \<Rightarrow> if e = Refused ROOM_NOT_FOUND then again c p else finish c None (Err e) p)"

definition resume_remote_taken :: "Env \<Rightarrow> jsstring \<Rightarrow> jsstring \<Rightarrow> nat \<Rightarrow> Process \<Rightarrow> Process" where
  "resume_remote_taken env pid rid c p =
     (let taken = take_remote env pid rid (request_at p c)
      in if pl_key (request_place (request_at p c)) = None \<and> (isFull taken \<or> taken = Err SERVER_SHUTTING_DOWN) then again c p
         else finish c None taken p)"

definition resume_created :: "Env \<Rightarrow> nat option \<Rightarrow> Reply \<Rightarrow> nat \<Rightarrow> Process \<Rightarrow> Process" where
  "resume_created env claim reply c p =
     (case (request_at p c, reply) of
        (FindOrCreate name opts place tk, Ok (GotRoom r)) \<Rightarrow>
          (case take_now env r (request_at p c) p of (taken, p) \<Rightarrow> set_pc c (AwaitNewTaken claim taken) p)
      | (FindOrCreate name opts place tk, Ok (GotRemote pid rid)) \<Rightarrow>
          set_pc c (AwaitNewTaken claim (take_remote env pid rid (request_at p c))) p
      | _ \<Rightarrow> finish c claim reply p)"

text \<open>\<open>_createAndJoin\<close> after the static \<open>onAuth\<close>.\<close>

definition resume_auth :: "Env \<Rightarrow> nat option \<Rightarrow> options_value \<Rightarrow> nat \<Rightarrow> Process \<Rightarrow> Process" where
  "resume_auth env claim v c p =
     (case env_refused env of
        Some e \<Rightarrow> set_pc c (AwaitCreated claim (Err e)) p
      | None \<Rightarrow>
          if pr_draining p then set_pc c (AwaitCreated claim (Err SERVER_SHUTTING_DOWN)) p
          else (case (request_at p c, getType (request_name (request_at p c)) p) of
                  (RouteByType mode name j, Some t) \<Rightarrow>
                    (case mg_create t v no_placement (env_seed env) (pr_manager p) of
                       (r, m) \<Rightarrow>
                         (case take_seat (jn_client j) (Some (jn_connection j)) False None (rstate m r) of
                            (Inl e, s) \<Rightarrow> set_pc c (AwaitCreated claim (Err (Refused (room_code e)))) (p\<lparr>pr_manager := m\<rparr>)
                          | (Inr _, s) \<Rightarrow>
                              set_pc c (AwaitNewRoom claim r) (p\<lparr>pr_manager := set_room r (\<lambda>x. x\<lparr>mr_state := s\<rparr>) m\<rparr>)))
                | _ \<Rightarrow> set_pc c (AwaitCreated claim (Err ROOM_TYPE_NOT_DEFINED)) p))"

text \<open>A join whose room failed, or whom the room refuses, gives its seat back.\<close>

definition unseat_call :: "nat \<Rightarrow> nat \<Rightarrow> Process \<Rightarrow> Process" where
  "unseat_call r c p =
     (case request_at p c of
        RouteByType mode name j \<Rightarrow> p\<lparr>pr_manager := mg_op r (EUnseat (jn_client j)) (pr_manager p)\<rparr>
      | _ \<Rightarrow> p)"

definition resume_new_room :: "nat option \<Rightarrow> nat \<Rightarrow> nat \<Rightarrow> Process \<Rightarrow> Process" where
  "resume_new_room claim r c p =
     (case mr_outcome (mroom (pr_manager p) r) of
        None \<Rightarrow> p
      | Some created \<Rightarrow>
          if created then set_pc c (AwaitJoin r) (release_claim (pool_at_call p c) claim p)
          else finish c None (Err JOIN_FAILED) (unseat_call r c (release_claim (pool_at_call p c) claim p)))"

definition resume_seated :: "nat \<Rightarrow> nat \<Rightarrow> Process \<Rightarrow> Process" where
  "resume_seated r c p =
     (case mr_outcome (mroom (pr_manager p) r) of
        None \<Rightarrow> p
      | Some created \<Rightarrow> if created then set_pc c (AwaitAuthorize r) p else finish c None (Err JOIN_FAILED) (unseat_call r c p))"

definition resume_forward :: "Env \<Rightarrow> nat \<Rightarrow> Process \<Rightarrow> Process" where
  "resume_forward env c p =
     (case (env_refused env, request_at p c) of
        (None, _) \<Rightarrow> finish c None (Ok JoinedElsewhere) p
      | (Some e, RouteByType mode name j) \<Rightarrow>
          if mode = MJoin \<or> \<not> raceLost e then finish c None (Err e) p
          else route_loop c (p\<lparr>pr_calls := (pr_calls p)[c := (call_at p c)\<lparr>cl_ask := False\<rparr>]\<rparr>)
      | _ \<Rightarrow> p)"

definition reply_of :: "Env \<Rightarrow> Outcome \<Rightarrow> Reply" where
  "reply_of env ok = (case env_refused env of None \<Rightarrow> Ok ok | Some e \<Rightarrow> Err e)"

definition resume_call :: "Env \<Rightarrow> nat \<Rightarrow> Process \<Rightarrow> Process" where
  "resume_call env c p =
     (case cl_pc (call_at p c) of
        AwaitCreation k \<Rightarrow> if pr_claims p ! k then again c p else p
      | AwaitFound r \<Rightarrow> resume_found env r c p
      | AwaitTaken reply \<Rightarrow>
          if isFull reply \<and> pl_key (request_place (request_at p c)) = None then again c p else finish c None reply p
      | AwaitGranted k \<Rightarrow> resume_granted k c p
      | AwaitLook claim here asked \<Rightarrow> resume_look env claim here asked c p
      | AwaitLookup claim \<Rightarrow> resume_lookup env claim c p
      | AwaitProxy pid rid \<Rightarrow> resume_proxy env pid rid c p
      | AwaitRemoteTaken pid rid \<Rightarrow> resume_remote_taken env pid rid c p
      | AwaitProcesses claim \<Rightarrow> place_next claim (env_processes env) [] c p
      | AwaitRemote claim ps refused i \<Rightarrow>
          (case env_refused env of
             None \<Rightarrow> set_pc c (AwaitCreated claim (Ok (GotRemote i (sd_id (env_seed env))))) p
           | Some e \<Rightarrow>
               if place_again (pl_selector (request_place (request_at p c))) e then place_next claim ps (i # refused) c p
               else set_pc c (AwaitCreated claim (Err e)) p)
      | AwaitHere claim \<Rightarrow> create_here env claim c p
      | AwaitReady claim r \<Rightarrow>
          (case mr_outcome (mroom (pr_manager p) r) of
             None \<Rightarrow> p
           | Some created \<Rightarrow> set_pc c (AwaitCreated claim (if created then Ok (GotRoom r) else Err ROOM_CREATE_FAILED)) p)
      | AwaitCreated claim reply \<Rightarrow> resume_created env claim reply c p
      | AwaitNewTaken claim reply \<Rightarrow> finish c claim reply p
      | AwaitForward \<Rightarrow> resume_forward env c p
      | AwaitElsewhere claim \<Rightarrow> finish c claim (reply_of env JoinedElsewhere) p
      | AwaitAuth claim v \<Rightarrow> resume_auth env claim v c p
      | AwaitNewRoom claim r \<Rightarrow> resume_new_room claim r c p
      | AwaitSeated r \<Rightarrow> resume_seated r c p
      | AwaitAuthorize r \<Rightarrow>
          (case env_refused env of None \<Rightarrow> set_pc c (AwaitJoin r) p | Some e \<Rightarrow> finish c None (Err e) (unseat_call r c p))
      | AwaitJoin r \<Rightarrow> finish c None (reply_of env (JoinedRoom r)) p
      | Returned reply \<Rightarrow> p)"

section \<open>Steps of a process\<close>

text \<open>\<open>_clusterCreateRoom\<close>: a peer has a room created here.\<close>

definition peer_create :: "Env \<Rightarrow> jsstring \<Rightarrow> options_value \<Rightarrow> RoomPlacement \<Rightarrow> Process \<Rightarrow> Process" where
  "peer_create env name opts placement p =
     (if pr_draining p then p
      else case getType name p of
             None \<Rightarrow> p
           | Some t \<Rightarrow>
               (case readServerOptions (pr_out p) t KCreate opts of
                  Inl e \<Rightarrow> p
                | Inr v \<Rightarrow> p\<lparr>pr_manager := snd (mg_create t v placement (env_seed env) (pr_manager p))\<rparr>))"

definition registerRoomType :: "RoomTypeDef \<Rightarrow> Process \<Rightarrow> Process" where
  "registerRoomType t p = (if getType (rt_name t) p \<noteq> None then p else p\<lparr>pr_types := pr_types p @ [t]\<rparr>)"

datatype ProcessEvent =
    Begin Env Request
  | Resume Env nat
  | OfRoom nat RoomEvent
  | Created nat bool
  | Metadata nat "(jsstring \<times> jsval) list"
  | Peer Env jsstring options_value RoomPlacement
  | Register RoomTypeDef
  | Drain bool
  | Clustered bool

fun process_step :: "ProcessEvent \<Rightarrow> Process \<Rightarrow> Process" where
  "process_step (Begin env rq) p = start_call env rq p"
| "process_step (Resume env c) p = (if c < length (pr_calls p) then resume_call env c p else p)"
| "process_step (OfRoom r e) p = p\<lparr>pr_manager := mg_op r e (pr_manager p)\<rparr>"
| "process_step (Created r created) p = p\<lparr>pr_manager := mg_ready r created (pr_manager p)\<rparr>"
| "process_step (Metadata r ps) p = p\<lparr>pr_manager := set_metadata r ps (pr_manager p)\<rparr>"
| "process_step (Peer env name opts placement) p = peer_create env name opts placement p"
| "process_step (Register t) p = registerRoomType t p"
| "process_step (Drain b) p = p\<lparr>pr_draining := b\<rparr>"
| "process_step (Clustered b) p = p\<lparr>pr_cluster := b\<rparr>"

definition new_process :: "jsstring \<Rightarrow> (rat \<Rightarrow> jsstring) \<Rightarrow> bytewriter \<Rightarrow> Process" where
  "new_process i num_text out =
     \<lparr>pr_id = i, pr_metadata = [], pr_types = [], pr_manager = new_manager, pr_creating = Map.empty, pr_claims = [],
      pr_draining = False, pr_cluster = False, pr_calls = [], pr_numText = num_text, pr_out = out\<rparr>"

text \<open>
  What peers and rooms see to: a peer has a keyed room made here only when no room here has the
  key and no call here is creating one; a room becomes ready once, through \<open>Created\<close>.
\<close>

fun process_legal :: "Process \<Rightarrow> ProcessEvent \<Rightarrow> bool" where
  "process_legal p (Peer env name opts placement) =
     (case rp_key placement of
        None \<Rightarrow> True
      | Some key \<Rightarrow> findKeyed name key (pr_manager p) = None \<and> pr_creating p (poolOf (pr_numText p) name (Some key) None) = None)"
| "process_legal p (OfRoom r e) = (e \<noteq> EReady)"
| "process_legal p e = True"

end
