(* ===== verification/Claims.thy ===== *)
theory Claims
  imports Creating RoomOperations
begin

text \<open>
  The invariant of a process that finds and creates rooms: pending creations are claims with one
  holder each, a call that is about to create a room with a key knows that no room here has it,
  and at most one open room has a key. A run of a call is described by what it does to its claim
  and to the rooms (\<open>moves\<close>), and the invariant is proved once for all moves.
\<close>

section \<open>A room that closes stays closed\<close>

lemma disposing_updatePause [simp]: "rm_disposing (fst (updatePause s)) = rm_disposing s"
  by (simp add: updatePause_def)

lemma disposing_checkEmpty: "rm_disposing s \<Longrightarrow> rm_disposing (fst (checkEmpty s))"
  by (simp add: checkEmpty_disposing)

lemma disposing_same_room: "same_room s s' \<Longrightarrow> rm_disposing s' = rm_disposing s"
  by (rule same_room_parts(10))

lemma disposing_deliver [simp]: "rm_disposing (fst (deliverAll ty h b ex s)) = rm_disposing s"
  by (rule disposing_same_room [OF deliverAll_same])

lemma disposing_send_all [simp]: "rm_disposing (fst (send_all c fs s)) = rm_disposing s"
  by (rule disposing_same_room [OF send_all_same])

lemma disposing_activate: "rm_disposing (fst (activate c s)) = rm_disposing s"
  by (simp add: activate_def Let_def set_client_def split: option.splits)

lemma disposing_connectionLost: "rm_disposing s \<Longrightarrow> rm_disposing (fst (connectionLost c s))"
  by (simp add: connectionLost_def Let_def release_disposals(3) set_client_def split: prod.splits)

lemma disposing_issueToken [simp]: "rm_disposing (snd (issueToken c fresh s)) = rm_disposing s"
  by (simp add: issueToken_def Let_def set_client_def)

lemma disposing_completeJoin: "rm_disposing s \<Longrightarrow> rm_disposing (fst (completeJoin k requestId c reconnected connOpen encoded fresh s))"
proof -
  assume d: "rm_disposing s"
  obtain token s' where t: "issueToken c fresh s = (token, s')" by fastforce
  have "rm_disposing s'" using d disposing_issueToken [of c fresh s] by (simp add: t)
  then show ?thesis using d by (simp add: completeJoin_def t disposing_activate disposing_connectionLost)
qed

lemma disposing_reserve: "rm_disposing (snd (reserveIn i sid v byId seconds now s)) = rm_disposing s"
  by (simp add: reserveIn_def hold_def Let_def case_prod_beta split: sum.splits)

lemma disposing_consume: "rm_disposing (snd (consume i now s)) = rm_disposing s"
  by (simp add: consume_def takeReservation_def Let_def case_prod_beta split: option.splits)

lemma disposing_take_seat: "rm_disposing (snd (take_seat c k reserved ref s)) = rm_disposing s"
  by (simp add: take_seat_def Let_def split: sum.splits)

lemma disposing_unseat: "rm_disposing s \<Longrightarrow> rm_disposing (fst (unseat c s))"
  by (simp add: unseat_def Let_def disposing_checkEmpty)

lemma disposing_kept:
  assumes "rm_disposing s"
  shows "rm_disposing (fst (room_op e s))"
proof (cases e)
  case (EReleaseDone i)
  then show ?thesis using assms by (simp add: release_done_def disposing_checkEmpty case_prod_beta)
next
  case (EDisposeNext i)
  then show ?thesis using assms
    by (simp add: dispose_next_def release_disposals(3) dispose_clear_disposing split: Disposal.splits list.splits)
next
  case (EReconnect token refused k ref)
  then show ?thesis using assms
    by (simp add: server_reconnect_def reconnect_seat_def split: option.splits)
next
  case (EJoinReservation i now refused c k ref)
  obtain x s' where x: "consume i now s = (x, s')" by fastforce
  then have "rm_disposing s'" using assms disposing_consume [of i now s] by simp
  then show ?thesis using EJoinReservation x
    by (cases x) (simp_all add: joinReservation_def disposing_take_seat split: option.splits)
next
  case (ETimer t)
  then show ?thesis using assms
    by (simp add: reconnect_expired_def hold_expired_def cleanup_expired_def disposing_checkEmpty release_disposals(3)
        split: option.splits RoomTimer.splits)
qed (use assms in \<open>simp_all add: disposing_take_seat disposing_unseat disposing_completeJoin disposing_activate disposing_connectionLost
      release_disposals(3) dispose_room_def disposing_reserve disposing_consume set_locked_def set_private_def\<close>)

section \<open>What happens to the rooms of a process\<close>

text \<open>
  The manager's map holds rooms of its heap. Under \<open>mg_le\<close> no room is added, and rooms keep type,
  key and id and never reopen.
\<close>

definition mg_ok :: "RoomManager \<Rightarrow> bool" where
  "mg_ok m = (\<forall>r \<in> set (getRooms m). r < length (mg_heap m))"

definition mg_le :: "RoomManager \<Rightarrow> RoomManager \<Rightarrow> bool" where
  "mg_le m m' =
     (length (mg_heap m') = length (mg_heap m) \<and> set (getRooms m') \<subseteq> set (getRooms m)
      \<and> (\<forall>r < length (mg_heap m). mr_type (mroom m' r) = mr_type (mroom m r) \<and> mr_key (mroom m' r) = mr_key (mroom m r)
            \<and> (closing m r \<longrightarrow> closing m' r)))"

definition open_keyed :: "jsstring \<Rightarrow> jsstring \<Rightarrow> RoomManager \<Rightarrow> nat \<Rightarrow> bool" where
  "open_keyed t key m r = (r \<in> set (getRooms m) \<and> mr_type (mroom m r) = t \<and> mr_key (mroom m r) = Some key \<and> \<not> closing m r)"

definition one_open :: "RoomManager \<Rightarrow> bool" where
  "one_open m = (\<forall>t key r r'. open_keyed t key m r \<longrightarrow> open_keyed t key m r' \<longrightarrow> r = r')"

lemma findKeyed_None: "findKeyed t key m = None \<longleftrightarrow> (\<forall>r. \<not> open_keyed t key m r)"
  by (auto simp: findKeyed_def find_None_iff open_keyed_def)

lemma findKeyed_Some: "findKeyed t key m = Some r \<Longrightarrow> open_keyed t key m r"
  by (auto simp: findKeyed_def find_Some_iff open_keyed_def)

lemma mg_le_refl [simp]: "mg_le m m"
  by (simp add: mg_le_def)

lemma mg_le_trans: "mg_le a b \<Longrightarrow> mg_le b c \<Longrightarrow> mg_le a c"
  by (auto simp: mg_le_def)

lemma mg_le_open: "mg_le m m' \<Longrightarrow> mg_ok m \<Longrightarrow> open_keyed t key m' r \<Longrightarrow> open_keyed t key m r"
  unfolding mg_le_def mg_ok_def open_keyed_def by (metis subsetD)

lemma mg_le_ok: "mg_le m m' \<Longrightarrow> mg_ok m \<Longrightarrow> mg_ok m'"
  by (auto simp: mg_le_def mg_ok_def)

lemma mg_le_one: "mg_le m m' \<Longrightarrow> mg_ok m \<Longrightarrow> one_open m \<Longrightarrow> one_open m'"
  unfolding one_open_def using mg_le_open by blast

lemma mg_le_set_room:
  assumes "mr_type (f (mroom m r)) = mr_type (mroom m r)" "mr_key (f (mroom m r)) = mr_key (mroom m r)"
    "rm_disposing (rstate m r) \<Longrightarrow> rm_disposing (mr_state (f (mroom m r)))"
  shows "mg_le m (set_room r f m)"
proof -
  have n: "(mg_heap m)[r := f (mroom m r)] ! i = (if i = r then f (mroom m r) else mroom m i)" if "i < length (mg_heap m)" for i
    using that by (simp add: nth_list_update)
  show ?thesis using assms by (simp add: mg_le_def set_room_def getRooms_def n)
qed

lemma mg_le_removed: "mg_le m (removed r m)"
proof -
  have "set (map snd (AList.delete i al)) \<subseteq> set (map snd al)" for i :: jsstring and al :: "(jsstring \<times> nat) list"
    by (induction al) auto
  then show ?thesis by (simp add: mg_le_def removed_def Let_def getRooms_def)
qed

lemma mg_le_op: "mg_le m (mg_op r e m)"
proof -
  have s: "mg_le m (set_room r (\<lambda>x. x\<lparr>mr_state := fst (room_op e (rstate m r))\<rparr>) m)"
    using disposing_kept by (intro mg_le_set_room) simp_all
  then show ?thesis using mg_le_trans [OF s mg_le_removed] by (simp add: mg_op_def case_prod_beta Let_def)
qed

lemma mg_le_ready: "mg_le m (mg_ready r created m)"
proof -
  have "mg_le m (set_room r (\<lambda>x. x\<lparr>mr_outcome := b\<rparr>) (mg_op r e m))" for b e
    by (rule mg_le_trans [OF mg_le_op mg_le_set_room]) simp_all
  moreover have "mg_le m m' \<Longrightarrow> mg_le m (m'\<lparr>mg_announced := a\<rparr>)" for m' a by (simp add: mg_le_def getRooms_def)
  ultimately show ?thesis by (simp add: mg_ready_def Let_def)
qed

lemma mg_le_metadata: "mg_le m (set_metadata r ps m)"
  by (simp add: set_metadata_def mg_le_set_room)

text \<open>A new room is one more room, with the type's name and the placement's key.\<close>

lemma mg_create_open:
  assumes "mg_create t v pl seed m = (r, m')" "mg_ok m"
  shows "mg_ok m'" "open_keyed n key m' r' \<Longrightarrow> open_keyed n key m r' \<or> (r' = r \<and> n = rt_name t \<and> rp_key pl = Some key)"
proof -
  let ?room = "room_create v pl (room_setup t seed)"
  have m': "m' = m\<lparr>mg_heap := mg_heap m @ [?room], mg_rooms := AList.update (mr_id ?room) (length (mg_heap m)) (mg_rooms m)\<rparr>"
    and r: "r = length (mg_heap m)" using assms(1) by (auto simp: mg_create_def Let_def)
  have room: "mr_type ?room = rt_name t" "mr_key ?room = rp_key pl" by (simp_all add: room_create_def room_setup_def Let_def)
  have "set (map snd (AList.update k x al)) \<subseteq> insert x (set (map snd al))" for k :: jsstring and x :: nat and al
    by (induction al) auto
  then have sub: "set (getRooms m') \<subseteq> insert r (set (getRooms m))" by (simp add: m' r getRooms_def)
  have "length (mg_heap m') = Suc r" by (simp add: m' r)
  then show "mg_ok m'" using assms(2) sub r unfolding mg_ok_def by (metis insertE less_Suc_eq subsetD)
  assume o': "open_keyed n key m' r'"
  show "open_keyed n key m r' \<or> (r' = r \<and> n = rt_name t \<and> rp_key pl = Some key)"
  proof (cases "r' = r")
    case True
    then show ?thesis using o' room by (simp add: open_keyed_def m' r)
  next
    case False
    then have "r' \<in> set (getRooms m)" using o' sub by (auto simp: open_keyed_def)
    moreover from this have "r' < length (mg_heap m)" using assms(2) by (simp add: mg_ok_def)
    ultimately show ?thesis using o' by (simp add: open_keyed_def m' nth_append)
  qed
qed

section \<open>Claims and their holders\<close>

text \<open>The claim a call holds and has not released.\<close>

fun held :: "Pc \<Rightarrow> nat option" where
  "held (AwaitGranted k) = Some k"
| "held (AwaitLook claim here asked) = claim"
| "held (AwaitLookup claim) = claim"
| "held (AwaitProcesses claim) = claim"
| "held (AwaitRemote claim ps refused i) = claim"
| "held (AwaitHere claim) = claim"
| "held (AwaitReady claim r) = claim"
| "held (AwaitCreated claim reply) = claim"
| "held (AwaitNewTaken claim reply) = claim"
| "held (AwaitElsewhere claim) = claim"
| "held (AwaitAuth claim v) = claim"
| "held (AwaitNewRoom claim r) = claim"
| "held _ = None"

abbreviation held_at_call :: "Process \<Rightarrow> nat \<Rightarrow> nat option" where
  "held_at_call p c \<equiv> held (cl_pc (call_at p c))"

text \<open>
  Every pending creation is a claim that is not released and that one call holds, for its own
  pool; every claim that is not released is a pending creation.
\<close>

definition claims_ok :: "Process \<Rightarrow> bool" where
  "claims_ok p =
     ((\<forall>c < length (pr_calls p). \<forall>k. held_at_call p c = Some k \<longrightarrow> pr_creating p (pool_at_call p c) = Some k)
      \<and> (\<forall>pool k. pr_creating p pool = Some k \<longrightarrow> k < length (pr_claims p) \<and> \<not> pr_claims p ! k
            \<and> (\<exists>c < length (pr_calls p). held_at_call p c = Some k \<and> pool_at_call p c = pool))
      \<and> (\<forall>k < length (pr_claims p). \<not> pr_claims p ! k \<longrightarrow> (\<exists>pool. pr_creating p pool = Some k))
      \<and> (\<forall>c < length (pr_calls p). \<forall>c' < length (pr_calls p). \<forall>k. held_at_call p c = Some k \<longrightarrow> held_at_call p c' = Some k \<longrightarrow> c = c')
      \<and> (\<forall>c < length (pr_calls p). \<forall>k. cl_pc (call_at p c) = AwaitCreation k \<longrightarrow> k < length (pr_claims p)))"

text \<open>
  Whether a call has looked for its room here, found none, and may go on to create it.
\<close>

definition about :: "Call \<Rightarrow> bool" where
  "about cl =
     (case (cl_pc cl, cl_request cl) of
        (AwaitGranted k, FindOrCreate name opts place tk) \<Rightarrow> cl_known cl
      | (AwaitLook claim here asked, CreateRoom name opts place) \<Rightarrow> here = None
      | (AwaitLook claim here asked, FindOrCreate name opts place tk) \<Rightarrow> cl_known cl
      | (AwaitLookup claim, _) \<Rightarrow> True
      | (AwaitProcesses claim, _) \<Rightarrow> True
      | (AwaitRemote claim ps refused i, _) \<Rightarrow> True
      | (AwaitHere claim, _) \<Rightarrow> True
      | _ \<Rightarrow> False)"

definition keyed :: "Request \<Rightarrow> jsstring \<Rightarrow> jsstring \<Rightarrow> bool" where
  "keyed rq t key = (request_name rq = t \<and> pl_key (request_place rq) = Some key)"

definition keys_ok :: "Process \<Rightarrow> bool" where
  "keys_ok p =
     (\<forall>c < length (pr_calls p). \<forall>t key. keyed (request_at p c) t key \<longrightarrow> about (call_at p c) \<longrightarrow>
        held_at_call p c \<noteq> None \<and> findKeyed t key (pr_manager p) = None)"

definition process_inv :: "Process \<Rightarrow> bool" where
  "process_inv p = (claims_ok p \<and> keys_ok p \<and> mg_ok (pr_manager p) \<and> one_open (pr_manager p))"

lemma keyed_pool: "keyed rq t key \<Longrightarrow> keyed rq' t key \<Longrightarrow> pool_of nt rq = pool_of nt rq'"
  by (simp add: keyed_def pool_of_def poolOf_def)

text \<open>Two holders of claims on one pool are one call.\<close>

lemma one_holder:
  assumes "claims_ok p" "c < length (pr_calls p)" "c' < length (pr_calls p)" "pool_at_call p c = pool_at_call p c'"
    "held_at_call p c \<noteq> None" "held_at_call p c' \<noteq> None"
  shows "c = c'"
proof -
  obtain k k' where k: "held_at_call p c = Some k" "held_at_call p c' = Some k'" using assms(5,6) by auto
  then have "pr_creating p (pool_at_call p c) = Some k" "pr_creating p (pool_at_call p c') = Some k'"
    using assms(1-3) unfolding claims_ok_def by blast+
  then have "k = k'" using assms(4) by simp
  then show ?thesis using k assms(1-3) unfolding claims_ok_def by blast
qed

subsection \<open>The moves of a call\<close>

text \<open>
  What a run of a call from one await to the next does: its claim is kept, taken or released;
  rooms come to no more than one new room, with the call's key only if it was about to create;
  and it gets about to create only when no room has its key.
\<close>

definition claim_move :: "nat \<Rightarrow> Process \<Rightarrow> Process \<Rightarrow> bool" where
  "claim_move c p p' =
     ((held_at_call p' c = held_at_call p c \<and> pr_creating p' = pr_creating p \<and> pr_claims p' = pr_claims p)
      \<or> (held_at_call p c = None \<and> pr_creating p (pool_at_call p c) = None \<and> held_at_call p' c = Some (length (pr_claims p))
         \<and> pr_creating p' = (pr_creating p)(pool_at_call p c \<mapsto> length (pr_claims p)) \<and> pr_claims p' = pr_claims p @ [False])
      \<or> (held_at_call p' c = None
         \<and> pr_creating p' = pr_creating (release_claim (pool_at_call p c) (held_at_call p c) p)
         \<and> pr_claims p' = pr_claims (release_claim (pool_at_call p c) (held_at_call p c) p)))"

definition room_move :: "nat \<Rightarrow> Process \<Rightarrow> Process \<Rightarrow> bool" where
  "room_move c p p' =
     (mg_le (pr_manager p) (pr_manager p')
      \<or> (\<exists>t v pl seed. mg_le (snd (mg_create t v pl seed (pr_manager p))) (pr_manager p') \<and> rt_name t = request_name (request_at p c)
           \<and> (rp_key pl = None \<or> rp_key pl = pl_key (request_place (request_at p c)) \<and> about (call_at p c) \<and> \<not> about (call_at p' c))))"

definition about_move :: "nat \<Rightarrow> Process \<Rightarrow> Process \<Rightarrow> bool" where
  "about_move c p p' =
     (\<forall>t key. keyed (request_at p c) t key \<longrightarrow> about (call_at p' c) \<longrightarrow>
        held_at_call p' c \<noteq> None
        \<and> (about (call_at p c) \<and> pr_manager p' = pr_manager p \<or> findKeyed t key (pr_manager p') = None))"

definition same_others :: "nat \<Rightarrow> Process \<Rightarrow> Process \<Rightarrow> bool" where
  "same_others c p p' =
     (length (pr_calls p') = length (pr_calls p) \<and> (\<forall>c'. c' \<noteq> c \<longrightarrow> call_at p' c' = call_at p c')
      \<and> request_at p' c = request_at p c \<and> pr_numText p' = pr_numText p
      \<and> (\<forall>k. cl_pc (call_at p' c) = AwaitCreation k \<longrightarrow> pr_creating p (pool_at_call p c) = Some k))"

definition moves :: "nat \<Rightarrow> Process \<Rightarrow> Process \<Rightarrow> bool" where
  "moves c p p' = (same_others c p p' \<and> claim_move c p p' \<and> room_move c p p' \<and> about_move c p p')"

lemmas moves_defs = moves_def same_others_def claim_move_def room_move_def about_move_def

lemma claims_okD:
  assumes "claims_ok p"
  shows "c < length (pr_calls p) \<Longrightarrow> held_at_call p c = Some k \<Longrightarrow> pr_creating p (pool_at_call p c) = Some k"
    "pr_creating p pool = Some k \<Longrightarrow> k < length (pr_claims p)"
    "pr_creating p pool = Some k \<Longrightarrow> \<not> pr_claims p ! k"
    "pr_creating p pool = Some k \<Longrightarrow> \<exists>c < length (pr_calls p). held_at_call p c = Some k \<and> pool_at_call p c = pool"
    "k < length (pr_claims p) \<Longrightarrow> \<not> pr_claims p ! k \<Longrightarrow> \<exists>pool. pr_creating p pool = Some k"
    "c < length (pr_calls p) \<Longrightarrow> c' < length (pr_calls p) \<Longrightarrow> held_at_call p c = Some k \<Longrightarrow> held_at_call p c' = Some k \<Longrightarrow> c = c'"
    "c < length (pr_calls p) \<Longrightarrow> cl_pc (call_at p c) = AwaitCreation k \<Longrightarrow> k < length (pr_claims p)"
  using assms unfolding claims_ok_def by blast+

lemma creating_inj:
  assumes "claims_ok p" "pr_creating p pool = Some k" "pr_creating p pool' = Some k"
  shows "pool = pool'"
proof -
  obtain c c' where "c < length (pr_calls p)" "held_at_call p c = Some k" "pool_at_call p c = pool"
    "c' < length (pr_calls p)" "held_at_call p c' = Some k" "pool_at_call p c' = pool'"
    using claims_okD(4) [OF assms(1,2)] claims_okD(4) [OF assms(1,3)] by auto
  then show ?thesis using claims_okD(6) [OF assms(1), of c c' k] by simp
qed

lemma same_others_calls:
  assumes "same_others c p p'"
  shows "length (pr_calls p') = length (pr_calls p)" "c' \<noteq> c \<Longrightarrow> call_at p' c' = call_at p c'"
    "pool_at_call p' i = pool_at_call p i" "request_at p' i = request_at p i"
  using assms unfolding same_others_def by metis+

lemma waits_for_old:
  assumes "claims_ok p" "same_others c p p'" "i < length (pr_calls p)" "cl_pc (call_at p' i) = AwaitCreation k"
  shows "k < length (pr_claims p)"
proof (cases "i = c")
  case True
  then have "pr_creating p (pool_at_call p c) = Some k" using assms(2,4) by (simp add: same_others_def)
  then show ?thesis by (rule claims_okD(2) [OF assms(1)])
next
  case False
  then show ?thesis using claims_okD(7) [OF assms(1,3)] same_others_calls(2) [OF assms(2) False] assms(4) by simp
qed

lemma claims_ok_keep:
  assumes "claims_ok p" "same_others c p p'" "c < length (pr_calls p)"
    "held_at_call p' c = held_at_call p c" "pr_creating p' = pr_creating p" "pr_claims p' = pr_claims p"
  shows "claims_ok p'"
proof -
  note s = same_others_calls [OF assms(2)]
  have h: "held_at_call p' i = held_at_call p i" for i using s(2) [of i] assms(4) by (cases "i = c") simp_all
  have w: "k < length (pr_claims p)" if "i < length (pr_calls p)" "cl_pc (call_at p' i) = AwaitCreation k" for i k
    by (rule waits_for_old [OF assms(1,2) that])
  show ?thesis unfolding claims_ok_def h s(1) s(3) assms(5,6) using claims_okD(1-6) [OF assms(1)] w by blast
qed

lemma claims_ok_take:
  assumes "claims_ok p" "same_others c p p'" "c < length (pr_calls p)" "held_at_call p c = None" "pr_creating p (pool_at_call p c) = None"
    "held_at_call p' c = Some (length (pr_claims p))" "pr_creating p' = (pr_creating p)(pool_at_call p c \<mapsto> length (pr_claims p))"
    "pr_claims p' = pr_claims p @ [False]"
  shows "claims_ok p'"
proof -
  note s = same_others_calls [OF assms(2)] and d = claims_okD [OF assms(1)]
  let ?n = "length (pr_claims p)"
  have h: "held_at_call p' i = (if i = c then Some ?n else held_at_call p i)" for i using s(2) [of i] assms(6) by simp
  have old: "k < ?n" if "i < length (pr_calls p)" "held_at_call p i = Some k" for i k using d(2) [OF d(1) [OF that]] .
  have w: "k < length (pr_claims p')" if "i < length (pr_calls p)" "cl_pc (call_at p' i) = AwaitCreation k" for i k
    using waits_for_old [OF assms(1,2) that] assms(8) by simp
  have cr: "pr_creating p' (pool_at_call p i) = Some k" if "i < length (pr_calls p)" "held_at_call p' i = Some k" for i k
  proof (cases "i = c")
    case False
    then have "pr_creating p (pool_at_call p i) = Some k" using that d(1) [of i k] h by simp
    moreover from this have "pool_at_call p i \<noteq> pool_at_call p c" using assms(5) by auto
    ultimately show ?thesis using assms(7) by simp
  qed (use that h assms(7) in simp)
  have pend: "k < length (pr_claims p') \<and> \<not> pr_claims p' ! k \<and> (\<exists>i < length (pr_calls p). held_at_call p' i = Some k \<and> pool_at_call p i = pool)"
    if "pr_creating p' pool = Some k" for pool k
  proof (cases "pool = pool_at_call p c")
    case True
    then show ?thesis using that assms(3,7,8) h [of c] by auto
  next
    case False
    then have o': "pr_creating p pool = Some k" using that assms(7) by simp
    obtain i where i: "i < length (pr_calls p)" "held_at_call p i = Some k" "pool_at_call p i = pool" using d(4) [OF o'] by auto
    then have "i \<noteq> c" using assms(4) by auto
    then show ?thesis using i h [of i] d(2,3) [OF o'] assms(8) by (auto simp: nth_append)
  qed
  have un: "\<exists>pool. pr_creating p' pool = Some k" if "k < length (pr_claims p')" "\<not> pr_claims p' ! k" for k
  proof (cases "k = ?n")
    case False
    then have "k < ?n" "\<not> pr_claims p ! k" using that assms(8) by (auto simp: nth_append)
    then obtain pool where q: "pr_creating p pool = Some k" using d(5) by blast
    then have "pool \<noteq> pool_at_call p c" using assms(5) by auto
    then show ?thesis using q assms(7) by auto
  qed (use assms(7) in auto)
  have uq: "i = j" if "i < length (pr_calls p)" "j < length (pr_calls p)" "held_at_call p' i = Some k" "held_at_call p' j = Some k" for i j k
    using that h [of i] h [of j] old [of i k] old [of j k] d(6) [of i j k] by (auto split: if_splits)
  show ?thesis unfolding claims_ok_def s(1) s(3) using w cr pend un uq by blast
qed

lemma claims_ok_drop:
  assumes "claims_ok p" "same_others c p p'" "c < length (pr_calls p)" "held_at_call p' c = None"
    "pr_creating p' = pr_creating (release_claim (pool_at_call p c) (held_at_call p c) p)"
    "pr_claims p' = pr_claims (release_claim (pool_at_call p c) (held_at_call p c) p)"
  shows "claims_ok p'"
proof (cases "held_at_call p c")
  case None
  then show ?thesis using claims_ok_keep [OF assms(1-3)] assms(4-6) by (simp add: release_claim_def)
next
  case (Some k)
  note s = same_others_calls [OF assms(2)] and d = claims_okD [OF assms(1)]
  have k: "pr_creating p (pool_at_call p c) = Some k" "k < length (pr_claims p)" "\<not> pr_claims p ! k"
    using d(1) [OF assms(3) Some] d(2,3) by blast+
  have cr': "pr_creating p' = (pr_creating p)(pool_at_call p c := None)" and cl': "pr_claims p' = (pr_claims p)[k := True]"
    using assms(5,6) k Some by (simp_all add: release_claim_def)
  have h: "held_at_call p' i = (if i = c then None else held_at_call p i)" for i using s(2) [of i] assms(4) by simp
  have w: "n < length (pr_claims p')" if "i < length (pr_calls p)" "cl_pc (call_at p' i) = AwaitCreation n" for i n
    using waits_for_old [OF assms(1,2) that] cl' by simp
  have pool: "pool_at_call p i \<noteq> pool_at_call p c" if "i < length (pr_calls p)" "held_at_call p i \<noteq> None" "i \<noteq> c" for i
    using one_holder [OF assms(1) that(1) assms(3)] that Some by auto
  have cr: "pr_creating p' (pool_at_call p i) = Some n" if "i < length (pr_calls p)" "held_at_call p' i = Some n" for i n
    using that h [of i] d(1) [of i n] pool [of i] cr' by (auto split: if_splits)
  have pend: "n < length (pr_claims p') \<and> \<not> pr_claims p' ! n \<and> (\<exists>i < length (pr_calls p). held_at_call p' i = Some n \<and> pool_at_call p i = q)"
    if "pr_creating p' q = Some n" for q n
  proof -
    have q: "q \<noteq> pool_at_call p c" "pr_creating p q = Some n" using that cr' by (auto split: if_splits)
    then have "n \<noteq> k" using creating_inj [OF assms(1) _ k(1)] by auto
    moreover obtain i where i: "i < length (pr_calls p)" "held_at_call p i = Some n" "pool_at_call p i = q" using d(4) [OF q(2)] by auto
    ultimately have "i \<noteq> c" using Some by auto
    then show ?thesis using i h [of i] d(2,3) [OF q(2)] \<open>n \<noteq> k\<close> cl' by auto
  qed
  have un: "\<exists>q. pr_creating p' q = Some n" if "n < length (pr_claims p')" "\<not> pr_claims p' ! n" for n
  proof -
    have n: "n \<noteq> k" "n < length (pr_claims p)" "\<not> pr_claims p ! n" using that cl' k(2) by (metis nth_list_update_eq nth_list_update_neq length_list_update)+
    then obtain q where q: "pr_creating p q = Some n" using d(5) by blast
    then have "q \<noteq> pool_at_call p c" using k(1) n(1) by auto
    then show ?thesis using q cr' by auto
  qed
  have uq: "i = j" if "i < length (pr_calls p)" "j < length (pr_calls p)" "held_at_call p' i = Some n" "held_at_call p' j = Some n" for i j n
    using that h [of i] h [of j] d(6) [of i j n] by (auto split: if_splits)
  show ?thesis unfolding claims_ok_def s(1) s(3) using w cr pend un uq by blast
qed

lemma moves_claims: "claims_ok p \<Longrightarrow> c < length (pr_calls p) \<Longrightarrow> moves c p p' \<Longrightarrow> claims_ok p'"
  using claims_ok_keep [of p c p'] claims_ok_take [of p c p'] claims_ok_drop [of p c p'] unfolding moves_def claim_move_def by blast

lemma keys_okD:
  assumes "keys_ok p" "c < length (pr_calls p)" "keyed (request_at p c) t key" "about (call_at p c)"
  shows "held_at_call p c \<noteq> None" "\<not> open_keyed t key (pr_manager p) r"
  using assms unfolding keys_ok_def findKeyed_None by blast+

text \<open>A call's move opens no room with a key, unless the call was about to create that room.\<close>

lemma room_move_open:
  assumes "process_inv p" "room_move c p p'" "open_keyed t key (pr_manager p') r"
  shows "open_keyed t key (pr_manager p) r \<or> (r = length (mg_heap (pr_manager p)) \<and> keyed (request_at p c) t key \<and> about (call_at p c))"
proof (cases "mg_le (pr_manager p) (pr_manager p')")
  case True
  then show ?thesis using mg_le_open assms(1,3) unfolding process_inv_def by blast
next
  case False
  have ok: "mg_ok (pr_manager p)" using assms(1) by (simp add: process_inv_def)
  obtain ty v pl seed where c: "mg_le (snd (mg_create ty v pl seed (pr_manager p))) (pr_manager p')"
    "rt_name ty = request_name (request_at p c)"
    "rp_key pl = None \<or> rp_key pl = pl_key (request_place (request_at p c)) \<and> about (call_at p c)"
    using assms(2) False unfolding room_move_def by blast
  obtain r0 m0 where m0: "mg_create ty v pl seed (pr_manager p) = (r0, m0)" by fastforce
  have "r0 = length (mg_heap (pr_manager p))" using m0 by (auto simp: mg_create_def Let_def)
  moreover have "open_keyed t key m0 r" using mg_create_open(1) [OF m0 ok] mg_le_open [OF c(1) _ assms(3)] m0 by simp
  ultimately show ?thesis using mg_create_open(2) [OF m0 ok, of t key r] c(2,3) m0 by (auto simp: keyed_def)
qed

lemma room_move_ok:
  assumes "mg_ok (pr_manager p)" "room_move c p p'"
  shows "mg_ok (pr_manager p')"
  using assms mg_le_ok mg_create_open(1) [OF surjective_pairing assms(1)] unfolding room_move_def by blast

lemma moves_inv:
  assumes "process_inv p" "c < length (pr_calls p)" "moves c p p'"
  shows "process_inv p'"
proof -
  have iv: "claims_ok p" "keys_ok p" "mg_ok (pr_manager p)" "one_open (pr_manager p)" using assms(1) by (simp_all add: process_inv_def)
  have mv: "same_others c p p'" "room_move c p p'" "about_move c p p'" using assms(3) by (simp_all add: moves_def)
  note s = same_others_calls [OF mv(1)] and op = room_move_open [OF assms(1) mv(2)]
  have "one_open (pr_manager p')"
  proof (unfold one_open_def, intro allI impI)
    fix t key r r'
    assume a: "open_keyed t key (pr_manager p') r" "open_keyed t key (pr_manager p') r'"
    show "r = r'"
    proof (cases "keyed (request_at p c) t key \<and> about (call_at p c)")
      case True
      then show ?thesis using op [OF a(1)] op [OF a(2)] keys_okD(2) [OF iv(2) assms(2)] by blast
    next
      case False
      then show ?thesis using op [OF a(1)] op [OF a(2)] iv(4) unfolding one_open_def by blast
    qed
  qed
  moreover have "held_at_call p' i \<noteq> None \<and> \<not> open_keyed t key (pr_manager p') r"
    if i: "i < length (pr_calls p)" and k: "keyed (request_at p i) t key" and a: "about (call_at p' i)" for i t key r
  proof (cases "i = c")
    case True
    then have k': "keyed (request_at p c) t key" "about (call_at p' c)" using k a by simp_all
    then have m: "held_at_call p' c \<noteq> None \<and> (about (call_at p c) \<and> pr_manager p' = pr_manager p \<or> (\<forall>r. \<not> open_keyed t key (pr_manager p') r))"
      using mv(3) unfolding about_move_def findKeyed_None by blast
    then show ?thesis using True keys_okD(2) [OF iv(2) assms(2) k'(1)] by auto
  next
    case False
    then have ai: "about (call_at p i)" "held_at_call p' i = held_at_call p i" using a s(2) by simp_all
    note ki = keys_okD [OF iv(2) i k ai(1)]
    have "\<not> (keyed (request_at p c) t key \<and> about (call_at p c))"
      using one_holder [OF iv(1) i assms(2)] keyed_pool [OF k] ki(1) keys_okD(1) [OF iv(2) assms(2)] False by blast
    then show ?thesis using ki ai(2) op [of t key r] by auto
  qed
  then have "keys_ok p'" unfolding keys_ok_def s(1) s(4) findKeyed_None by blast
  ultimately show ?thesis using moves_claims [OF iv(1) assms(2,3)] room_move_ok [OF iv(3) mv(2)] by (simp add: process_inv_def)
qed

subsection \<open>The runs of a call\<close>

lemma set_pc_fields [simp]:
  "length (pr_calls (set_pc c pc p)) = length (pr_calls p)" "pr_manager (set_pc c pc p) = pr_manager p"
  "pr_creating (set_pc c pc p) = pr_creating p" "pr_claims (set_pc c pc p) = pr_claims p" "pr_numText (set_pc c pc p) = pr_numText p"
  "pr_draining (set_pc c pc p) = pr_draining p" "pr_cluster (set_pc c pc p) = pr_cluster p" "pr_types (set_pc c pc p) = pr_types p"
  by (simp_all add: set_pc_def)

lemma set_pc_call [simp]:
  "c < length (pr_calls p) \<Longrightarrow> call_at (set_pc c pc p) c = (call_at p c)\<lparr>cl_pc := pc\<rparr>"
  "c' \<noteq> c \<Longrightarrow> call_at (set_pc c pc p) c' = call_at p c'"
  by (simp_all add: set_pc_def)

lemma release_fields [simp]:
  "pr_calls (release_claim pool claim p) = pr_calls p" "pr_manager (release_claim pool claim p) = pr_manager p"
  "pr_numText (release_claim pool claim p) = pr_numText p" "pr_types (release_claim pool claim p) = pr_types p"
  by (simp_all add: release_claim_def split: option.splits)

text \<open>
  A run that ends with the call at \<open>pc\<close>, having made \<open>q\<close> of the rest: the claim is kept or
  released, and no room with a key is created.
\<close>

definition at_pc :: "nat \<Rightarrow> Pc \<Rightarrow> Process \<Rightarrow> Call" where
  "at_pc c pc p = (call_at p c)\<lparr>cl_pc := pc\<rparr>"

definition claim_kept :: "nat \<Rightarrow> Pc \<Rightarrow> Process \<Rightarrow> Process \<Rightarrow> bool" where
  "claim_kept c pc p q =
     ((held pc = held_at_call p c \<and> pr_creating q = pr_creating p \<and> pr_claims q = pr_claims p)
      \<or> (held pc = None
         \<and> pr_creating q = pr_creating (release_claim (pool_at_call p c) (held_at_call p c) p)
         \<and> pr_claims q = pr_claims (release_claim (pool_at_call p c) (held_at_call p c) p)))"

lemma inv_set_pc:
  assumes "process_inv p" "c < length (pr_calls p)" "pr_calls q = pr_calls p" "pr_numText q = pr_numText p" "claim_kept c pc p q"
    "mg_le (pr_manager p) (pr_manager q)" "\<And>k. pc = AwaitCreation k \<Longrightarrow> pr_creating p (pool_at_call p c) = Some k"
    "\<And>t key. keyed (request_at p c) t key \<Longrightarrow> about (at_pc c pc p) \<Longrightarrow>
       held pc \<noteq> None \<and> (about (call_at p c) \<and> pr_manager q = pr_manager p \<or> findKeyed t key (pr_manager q) = None)"
  shows "process_inv (set_pc c pc q)"
proof -
  have "c < length (pr_calls q)" using assms(2,3) by simp
  then have call: "call_at (set_pc c pc q) c = at_pc c pc p" using assms(3) by (simp add: at_pc_def)
  have "same_others c p (set_pc c pc q)" using assms(3,4,7) call by (simp add: same_others_def at_pc_def)
  moreover have "claim_move c p (set_pc c pc q)" using assms(5) call unfolding claim_move_def claim_kept_def by (simp add: at_pc_def) blast
  moreover have "room_move c p (set_pc c pc q)" using assms(6) by (simp add: room_move_def)
  moreover have "about_move c p (set_pc c pc q)" using assms(8) call unfolding about_move_def by (simp add: at_pc_def)
  ultimately have "moves c p (set_pc c pc q)" by (simp add: moves_def)
  then show ?thesis by (rule moves_inv [OF assms(1,2)])
qed

lemma inv_created:
  assumes "process_inv p" "c < length (pr_calls p)" "held pc = held_at_call p c"
    "mg_le (snd (mg_create t v pl seed (pr_manager p))) m" "rt_name t = request_name (request_at p c)"
    "rp_key pl = None \<or> rp_key pl = pl_key (request_place (request_at p c)) \<and> about (call_at p c)"
    "\<not> about (at_pc c pc p)" "\<And>k. pc \<noteq> AwaitCreation k"
  shows "process_inv (set_pc c pc (p\<lparr>pr_manager := m\<rparr>))"
proof -
  let ?q = "set_pc c pc (p\<lparr>pr_manager := m\<rparr>)"
  have call: "call_at ?q c = at_pc c pc p" using assms(2) by (simp add: at_pc_def)
  have "same_others c p ?q" "claim_move c p ?q" "about_move c p ?q"
    using assms(3,7,8) call by (simp_all add: same_others_def claim_move_def about_move_def at_pc_def)
  moreover have "room_move c p ?q" unfolding room_move_def using assms(4-7) call by (simp add: at_pc_def) blast
  ultimately have "moves c p ?q" by (simp add: moves_def)
  then show ?thesis by (rule moves_inv [OF assms(1,2)])
qed

lemma inv_claimed:
  assumes "process_inv p" "c < length (pr_calls p)" "held_at_call p c = None" "pr_creating p (pool_at_call p c) = None"
    "claimCreation (pool_at_call p c) p = (k, q)"
    "\<And>t key. keyed (request_at p c) t key \<Longrightarrow> about (at_pc c (AwaitGranted k) p) \<Longrightarrow> findKeyed t key (pr_manager p) = None"
  shows "process_inv (set_pc c (AwaitGranted k) q)"
proof -
  have q: "k = length (pr_claims p)"
    "q = p\<lparr>pr_creating := (pr_creating p)(pool_at_call p c \<mapsto> length (pr_claims p)), pr_claims := pr_claims p @ [False]\<rparr>"
    using assms(5) by (auto simp: claimCreation_def)
  have "moves c p (set_pc c (AwaitGranted k) q)"
    using assms(2-4,6) unfolding moves_defs at_pc_def q by simp
  then show ?thesis by (rule moves_inv [OF assms(1,2)])
qed

lemma inv_at:
  assumes "process_inv p" "c < length (pr_calls p)" "held pc = held_at_call p c" "\<And>k. pc \<noteq> AwaitCreation k"
    "\<And>t key. keyed (request_at p c) t key \<Longrightarrow> about (at_pc c pc p) \<Longrightarrow> about (call_at p c)"
  shows "process_inv (set_pc c pc p)"
proof -
  have "held pc \<noteq> None" if "keyed (request_at p c) t key" "about (at_pc c pc p)" for t key
    using keys_okD(1) [OF _ assms(2) that(1)] assms(1,3) assms(5) [OF that] by (simp add: process_inv_def)
  then show ?thesis using assms by (intro inv_set_pc) (auto simp: claim_kept_def)
qed

lemma inv_released:
  assumes "process_inv p" "c < length (pr_calls p)" "claim = held_at_call p c" "held pc = None" "\<not> about (at_pc c pc p)"
    "\<And>k. pc \<noteq> AwaitCreation k" "mg_le (pr_manager p) m"
  shows "process_inv (set_pc c pc ((release_claim (pool_at_call p c) claim p)\<lparr>pr_manager := m\<rparr>))"
  by (rule inv_set_pc [OF assms(1,2)]) (use assms in \<open>simp_all add: claim_kept_def\<close>)

lemma inv_finish:
  assumes "process_inv p" "c < length (pr_calls p)" "claim = held_at_call p c"
  shows "process_inv (finish c claim reply p)"
  unfolding finish_def by (rule inv_set_pc [OF assms(1,2)]) (use assms in \<open>simp_all add: claim_kept_def about_def at_pc_def\<close>)

text \<open>Whether a call may create now: a room with a key only when it has found that there is none.\<close>

definition may_create :: "nat \<Rightarrow> Process \<Rightarrow> bool" where
  "may_create c p = (pl_key (request_place (request_at p c)) = None \<or> about (call_at p c))"

lemma may_create_keyed: "may_create c p \<Longrightarrow> keyed (request_at p c) t key \<Longrightarrow> about (call_at p c)"
  by (simp add: may_create_def keyed_def)

lemma inv_here:
  assumes "process_inv p" "c < length (pr_calls p)" "may_create c p" "held pc = held_at_call p c" "\<And>k. pc \<noteq> AwaitCreation k"
  shows "process_inv (set_pc c pc p)"
  using assms may_create_keyed by (intro inv_at) simp_all

lemma getType_name: "getType name p = Some t \<Longrightarrow> rt_name t = name"
  by (auto simp: getType_def find_Some_iff)

lemma create_here_inv:
  assumes "process_inv p" "c < length (pr_calls p)" "may_create c p" "claim = held_at_call p c"
  shows "process_inv (create_here env claim c p)"
proof -
  have e: "process_inv (set_pc c (AwaitCreated claim reply) p)" for reply using assms by (intro inv_here) simp_all
  have "process_inv (set_pc c (AwaitReady claim r) (p\<lparr>pr_manager := m\<rparr>))"
    if "getType (request_name (request_at p c)) p = Some t" "mg_create t v (placement_of (request_at p c)) seed (pr_manager p) = (r, m)" for t v seed r m
    using assms that getType_name [OF that(1)]
    by (intro inv_created [of p c _ t v "placement_of (request_at p c)" seed])
      (simp_all add: placement_of_def may_create_def about_def at_pc_def)
  then show ?thesis using e by (simp add: create_here_def Let_def split: option.splits sum.splits prod.splits)
qed

lemma place_next_inv:
  assumes "process_inv p" "c < length (pr_calls p)" "may_create c p" "claim = held_at_call p c"
  shows "process_inv (place_next claim ps refused c p)"
proof -
  have "process_inv (set_pc c pc p)" if "held pc = claim" "\<And>k. pc \<noteq> AwaitCreation k" for pc using assms that by (intro inv_here) simp_all
  then show ?thesis by (simp add: place_next_def Let_def split: placing.splits)
qed

lemma createPlaced_inv:
  assumes "process_inv p" "c < length (pr_calls p)" "may_create c p" "claim = held_at_call p c"
  shows "process_inv (createPlaced env claim c p)"
proof -
  have "process_inv (set_pc c pc p)" if "held pc = claim" "\<And>k. pc \<noteq> AwaitCreation k" for pc using assms that by (intro inv_here) simp_all
  then show ?thesis using create_here_inv [OF assms] by (simp add: createPlaced_def Let_def split: option.splits sum.splits)
qed

lemma inv_wait:
  assumes "process_inv p" "c < length (pr_calls p)" "held_at_call p c = None" "pr_creating p (pool_at_call p c) = Some k"
  shows "process_inv (set_pc c (AwaitCreation k) p)"
  by (rule inv_set_pc [OF assms(1,2)]) (use assms in \<open>simp_all add: claim_kept_def about_def at_pc_def\<close>)

lemma create_loop_inv:
  assumes "process_inv p" "c < length (pr_calls p)" "held_at_call p c = None" "request_at p c = CreateRoom name opts place"
  shows "process_inv (create_loop c p)"
  using inv_wait [OF assms(1-3)] inv_claimed [OF assms(1-3)] assms(4)
  by (simp add: create_loop_def Let_def about_def at_pc_def split: option.splits prod.splits)

lemma find_loop_inv:
  assumes "process_inv p" "c < length (pr_calls p)" "held_at_call p c = None"
  shows "process_inv (find_loop c p)"
proof -
  let ?look = "if cl_known (call_at p c) then local_look (request_at p c) p else None"
  have "process_inv (set_pc c (AwaitFound r) p)" for r using assms by (intro inv_at) (simp_all add: about_def at_pc_def)
  moreover have "process_inv (set_pc c (AwaitGranted k) q)"
    if "pr_creating p (pool_at_call p c) = None" "?look = None" "claimCreation (pool_at_call p c) p = (k, q)" for k q
  proof (rule inv_claimed [OF assms that(1,3)])
    fix t key
    assume "keyed (request_at p c) t key" "about (at_pc c (AwaitGranted k) p)"
    then show "findKeyed t key (pr_manager p) = None"
      using that(2) by (auto simp: keyed_def about_def at_pc_def local_look_def split: Request.splits)
  qed
  ultimately show ?thesis using inv_wait [OF assms] by (simp add: find_loop_def Let_def split: option.splits prod.splits)
qed

lemma route_unkeyed: "request_at p c = RouteByType mode name j \<Longrightarrow> may_create c p \<and> pool_at_call p c = name"
  by (simp add: may_create_def pool_of_def poolOf_def)

lemma route_create_inv:
  assumes "process_inv p" "c < length (pr_calls p)" "claim = held_at_call p c"
  shows "process_inv (route_create claim c p)"
proof -
  have "process_inv (set_pc c pc p)" if "held pc = claim" "\<And>k. pc \<noteq> AwaitCreation k" "request_at p c = RouteByType mode name j" for pc mode name j
    using assms that route_unkeyed [OF that(3)] by (intro inv_here) simp_all
  then show ?thesis using assms(1) inv_finish [OF assms]
    by (simp add: route_create_def split: option.splits sum.splits Request.splits)
qed

lemma mg_le_state:
  "(rm_disposing (rstate m r) \<Longrightarrow> rm_disposing s) \<Longrightarrow> mg_le m (set_room r (\<lambda>x. x\<lparr>mr_state := s\<rparr>) m)"
  by (rule mg_le_set_room) simp_all

lemma route_seat_inv:
  assumes "process_inv p" "c < length (pr_calls p)" "held_at_call p c = None"
  shows "process_inv (route_seat c r j p)"
proof -
  let ?t = "take_seat (jn_client j) (Some (jn_connection j)) False None (rstate (pr_manager p) r)"
  have "mg_le (pr_manager p) (set_room r (\<lambda>x. x\<lparr>mr_state := snd ?t\<rparr>) (pr_manager p))"
    by (rule mg_le_state) (simp add: disposing_take_seat)
  then have "process_inv (set_pc c (AwaitSeated r) (p\<lparr>pr_manager := set_room r (\<lambda>x. x\<lparr>mr_state := snd ?t\<rparr>) (pr_manager p)\<rparr>))"
    using assms by (intro inv_set_pc [OF assms(1,2)]) (simp_all add: claim_kept_def about_def at_pc_def)
  then show ?thesis using inv_finish [OF assms(1,2)] assms(3) by (simp add: route_seat_def case_prod_beta split: sum.splits)
qed

lemma route_loop_inv:
  assumes "process_inv p" "c < length (pr_calls p)" "held_at_call p c = None"
  shows "process_inv (route_loop c p)"
proof (cases "request_at p c")
  case (RouteByType mode name j)
  note u = route_unkeyed [OF RouteByType]
  have "process_inv (set_pc c (AwaitFound r) p)" "process_inv (set_pc c (AwaitLook None None b) p)" for r b
    using assms u by (simp_all add: inv_here)
  moreover have "process_inv (set_pc c (AwaitGranted k) q)" if "pr_creating p name = None" "claimCreation name p = (k, q)" for k q
    using that u RouteByType by (intro inv_claimed [OF assms]) (simp_all add: keyed_def)
  moreover have "pr_creating p name = Some k \<Longrightarrow> process_inv (set_pc c (AwaitCreation k) p)" for k using inv_wait [OF assms] u by simp
  ultimately show ?thesis
    using RouteByType route_create_inv [OF assms(1,2)] assms(3) route_seat_inv [OF assms]
    by (simp add: route_loop_def split: option.splits prod.splits)
qed (use assms(1) in \<open>simp_all add: route_loop_def\<close>)

lemma again_inv:
  assumes "process_inv p" "c < length (pr_calls p)" "held_at_call p c = None"
  shows "process_inv (again c p)"
  using create_loop_inv [OF assms] find_loop_inv [OF assms] route_loop_inv [OF assms] by (simp add: again_def split: Request.splits)

subsection \<open>Resuming\<close>

lemma mg_le_reserve: "mg_le (pr_manager p) (pr_manager (snd (take_now env r rq p)))"
proof -
  have "mg_le (pr_manager p) (pr_manager (snd (reserve_in env r raw byId p)))" for raw byId
    using disposing_reserve
    by (auto simp: reserve_in_def Let_def case_prod_beta intro!: mg_le_state split: sum.splits)
  then show ?thesis by (simp add: take_now_def split: Request.splits Take.splits)
qed

lemma take_now_fields:
  "pr_calls (snd (take_now env r rq p)) = pr_calls p" "pr_creating (snd (take_now env r rq p)) = pr_creating p"
  "pr_claims (snd (take_now env r rq p)) = pr_claims p" "pr_numText (snd (take_now env r rq p)) = pr_numText p"
  by (simp_all add: take_now_def reserve_in_def Let_def case_prod_beta split: Request.splits Take.splits sum.splits)

lemma inv_taken:
  assumes "process_inv p" "c < length (pr_calls p)" "take_now env r rq p = (reply, q)" "held pc = held_at_call p c"
    "\<And>k. pc \<noteq> AwaitCreation k" "\<not> about (at_pc c pc p)"
  shows "process_inv (set_pc c pc q)"
  by (rule inv_set_pc [OF assms(1,2)])
    (use assms take_now_fields [of env r rq p] mg_le_reserve [of p env r rq] in \<open>simp_all add: claim_kept_def\<close>)

lemma resume_found_inv:
  assumes "process_inv p" "c < length (pr_calls p)" "held_at_call p c = None"
  shows "process_inv (resume_found env r c p)"
proof -
  have "process_inv (set_pc c (AwaitTaken reply) q)" if "take_now env r rq p = (reply, q)" for rq reply q
    using assms by (intro inv_taken [OF assms(1,2) that]) (simp_all add: about_def at_pc_def)
  then show ?thesis using assms(1) find_loop_inv [OF assms] again_inv [OF assms]
    by (simp add: resume_found_def split: option.splits Request.splits prod.splits)
qed

lemma resume_granted_inv:
  assumes "process_inv p" "c < length (pr_calls p)" "cl_pc (call_at p c) = AwaitGranted k"
  shows "process_inv (resume_granted k c p)"
proof (cases "request_at p c")
  case (CreateRoom name opts place)
  let ?here = "Option.bind (pl_key place) (\<lambda>key. findKeyed name key (pr_manager p))"
  have "process_inv (set_pc c (AwaitLook (Some k) ?here (pr_cluster p)) p)"
    using assms CreateRoom
    by (intro inv_set_pc [OF assms(1,2)]) (auto simp: claim_kept_def about_def at_pc_def keyed_def)
  then show ?thesis using CreateRoom by (simp add: resume_granted_def)
next
  case (FindOrCreate name opts place tk)
  have "process_inv (set_pc c (AwaitLook (Some k) None (pr_cluster p)) p)"
    using assms FindOrCreate by (intro inv_at) (simp_all add: about_def at_pc_def)
  then show ?thesis using FindOrCreate by (simp add: resume_granted_def)
next
  case (RouteByType mode name j)
  have "process_inv (set_pc c (AwaitLook (Some k) None (pr_cluster p)) p)"
    using assms route_unkeyed [OF RouteByType] by (intro inv_here) simp_all
  then show ?thesis using RouteByType route_create_inv [OF assms(1,2)] assms(3) by (simp add: resume_granted_def)
qed

lemma inv_release:
  assumes "process_inv p" "c < length (pr_calls p)" "claim = held_at_call p c" "held pc = None" "\<not> about (at_pc c pc p)" "\<And>k. pc \<noteq> AwaitCreation k"
  shows "process_inv (set_pc c pc (release_claim (pool_at_call p c) claim p))"
  by (rule inv_set_pc [OF assms(1,2)]) (use assms in \<open>simp_all add: claim_kept_def\<close>)

lemma resume_look_inv:
  assumes "process_inv p" "c < length (pr_calls p)" "cl_pc (call_at p c) = AwaitLook claim here asked"
  shows "process_inv (resume_look env claim here asked c p)"
proof -
  have h: "claim = held_at_call p c" using assms(3) by simp
  note f = inv_finish [OF assms(1,2) h] and cp = createPlaced_inv [OF assms(1,2) _ h]
  show ?thesis
  proof (cases "request_at p c")
    case (CreateRoom name opts place)
    have "process_inv (set_pc c (AwaitLookup claim) p)" if "here = None"
      using assms CreateRoom that by (intro inv_at) (simp_all add: about_def)
    moreover have "here = None \<Longrightarrow> may_create c p" using CreateRoom assms(3) by (simp add: may_create_def about_def)
    ultimately show ?thesis using f cp CreateRoom by (simp add: resume_look_def Let_def split: option.splits prod.splits)
  next
    case (FindOrCreate name opts place tk)
    have "process_inv (set_pc c (AwaitProxy pid rid) (release_claim (pool_at_call p c) claim p))" for pid rid
      using FindOrCreate by (intro inv_release [OF assms(1,2) h]) (simp_all add: about_def at_pc_def)
    moreover have "cl_known (call_at p c) \<Longrightarrow> may_create c p" using FindOrCreate assms(3) by (simp add: may_create_def about_def)
    ultimately show ?thesis using f cp FindOrCreate by (simp add: resume_look_def Let_def split: option.splits prod.splits)
  next
    case (RouteByType mode name j)
    have "process_inv (set_pc c AwaitForward (release_claim (pool_at_call p c) claim p))"
      by (intro inv_release [OF assms(1,2) h]) (simp_all add: about_def at_pc_def)
    then show ?thesis using RouteByType route_create_inv [OF assms(1,2) h] by (simp add: resume_look_def Let_def split: option.splits prod.splits)
  qed
qed

lemma unseat_call_fields [simp]:
  "pr_calls (unseat_call r c p) = pr_calls p" "pr_creating (unseat_call r c p) = pr_creating p" "pr_claims (unseat_call r c p) = pr_claims p"
  "pr_numText (unseat_call r c p) = pr_numText p" "mg_le (pr_manager p) (pr_manager (unseat_call r c p))"
  by (simp_all add: unseat_call_def mg_le_op split: Request.splits)

lemma finish_None: "finish c None reply p = set_pc c (Returned reply) p"
  by (simp add: finish_def release_claim_def)

text \<open>A call that ends, with its claim released or without one, and gives a seat back.\<close>

lemma inv_returned:
  assumes "process_inv p" "c < length (pr_calls p)" "held_at_call p c = claim"
  shows "process_inv (set_pc c (Returned reply) (unseat_call r c (release_claim (pool_at_call p c) claim p)))"
  by (rule inv_set_pc [OF assms(1,2)])
    (use assms unseat_call_fields(5) [of "release_claim (pool_at_call p c) claim p" r c] in \<open>simp_all add: claim_kept_def about_def at_pc_def\<close>)

lemma resume_new_room_inv:
  assumes "process_inv p" "c < length (pr_calls p)" "held_at_call p c = claim"
  shows "process_inv (resume_new_room claim r c p)"
proof -
  have "process_inv (set_pc c (AwaitJoin r) (release_claim (pool_at_call p c) claim p))"
    using assms by (intro inv_release) (simp_all add: about_def at_pc_def)
  then show ?thesis using assms(1) inv_returned [OF assms] by (simp add: resume_new_room_def finish_None split: option.splits)
qed

lemma inv_unseated:
  assumes "process_inv p" "c < length (pr_calls p)" "held_at_call p c = None"
  shows "process_inv (finish c None reply (unseat_call r c p))"
  using inv_returned [OF assms] by (simp add: finish_None release_claim_def)

lemma resume_created_inv:
  assumes "process_inv p" "c < length (pr_calls p)" "held_at_call p c = claim"
  shows "process_inv (resume_created env claim reply c p)"
proof -
  have "process_inv (set_pc c (AwaitNewTaken claim taken) q)" if "take_now env r rq p = (taken, q)" for r rq taken q
    using assms by (intro inv_taken [OF assms(1,2) that]) (simp_all add: about_def at_pc_def)
  moreover have "process_inv (set_pc c (AwaitNewTaken claim taken) p)" for taken using assms by (intro inv_at) (simp_all add: about_def at_pc_def)
  ultimately show ?thesis using inv_finish [OF assms(1,2)] assms(3)
    by (simp add: resume_created_def split: Request.splits Reply.splits Outcome.splits prod.splits)
qed

lemma resume_auth_inv:
  assumes "process_inv p" "c < length (pr_calls p)" "held_at_call p c = claim"
  shows "process_inv (resume_auth env claim v c p)"
proof -
  have e: "process_inv (set_pc c (AwaitCreated claim reply) p)" for reply using assms by (intro inv_at) (simp_all add: about_def at_pc_def)
  have n: "process_inv (set_pc c pc (p\<lparr>pr_manager := m'\<rparr>))"
    if "getType (request_name (request_at p c)) p = Some t" "mg_create t v no_placement seed (pr_manager p) = (r, m)" "mg_le m m'"
      "held pc = claim" "\<not> about (at_pc c pc p)" "\<And>k. pc \<noteq> AwaitCreation k" for t seed r m m' pc
    using that assms getType_name [OF that(1)] by (intro inv_created [of p c _ t v no_placement seed]) (simp_all add: no_placement_def)
  have s: "mg_le m (set_room r (\<lambda>x. x\<lparr>mr_state := s\<rparr>) m)" if "take_seat a b False None (rstate m r) = (x, s)" for a b m r x s
    using that disposing_take_seat [of a b False None "rstate m r"] by (intro mg_le_state) simp
  show ?thesis
    unfolding resume_auth_def
    by (auto simp: at_pc_def about_def intro!: e split: option.splits Request.splits prod.splits sum.splits)
      (auto intro!: n [unfolded at_pc_def] s simp: about_def)
qed

lemma resume_forward_inv:
  assumes "process_inv p" "c < length (pr_calls p)" "held_at_call p c = None" "\<not> about (call_at p c)" "\<And>k. cl_pc (call_at p c) \<noteq> AwaitCreation k"
  shows "process_inv (resume_forward env c p)"
proof -
  let ?p = "p\<lparr>pr_calls := (pr_calls p)[c := (call_at p c)\<lparr>cl_ask := False\<rparr>]\<rparr>"
  have call: "call_at ?p c = (call_at p c)\<lparr>cl_ask := False\<rparr>" using assms(2) by simp
  have "about ((call_at p c)\<lparr>cl_ask := False\<rparr>) = about (call_at p c)" by (simp add: about_def split: Pc.splits Request.splits)
  then have "moves c p ?p"
    using assms(4,5) call unfolding moves_def same_others_def claim_move_def room_move_def about_move_def by simp
  then have "process_inv ?p" by (rule moves_inv [OF assms(1,2)])
  then have "process_inv (route_loop c ?p)" using assms(2,3) call by (intro route_loop_inv) simp_all
  then show ?thesis using assms(1) inv_finish [OF assms(1,2)] assms(3)
    by (simp add: resume_forward_def split: option.splits Request.splits)
qed

lemma resume_inv:
  assumes "process_inv p" "c < length (pr_calls p)"
  shows "process_inv (resume_call env c p)"
proof -
  note f = inv_finish [OF assms]
  have at': "process_inv (set_pc c pc p)" if "held pc = held_at_call p c" "\<not> about (at_pc c pc p)" "\<And>k. pc \<noteq> AwaitCreation k" for pc
    using assms that by (intro inv_at) simp_all
  have mc: "may_create c p" if "about (call_at p c)" using that by (simp add: may_create_def)
  show ?thesis
  proof (cases "cl_pc (call_at p c)")
    case (AwaitRemote claim ps refused i)
    then show ?thesis using at' place_next_inv [OF assms mc]
      by (simp add: resume_call_def about_def at_pc_def split: option.splits)
  next
    case AwaitForward
    then show ?thesis using resume_forward_inv [OF assms] by (simp add: resume_call_def about_def)
  qed (use assms again_inv [OF assms] resume_found_inv [OF assms] resume_granted_inv [OF assms] resume_look_inv [OF assms] f at'
        createPlaced_inv [OF assms mc] place_next_inv [OF assms mc] create_here_inv [OF assms mc] resume_created_inv [OF assms]
        resume_auth_inv [OF assms] resume_new_room_inv [OF assms] inv_unseated [OF assms]
      in \<open>simp_all add: resume_call_def resume_lookup_def resume_proxy_def resume_remote_taken_def resume_seated_def Let_def about_def at_pc_def
            split: option.splits\<close>)
qed

subsection \<open>Every reachable process\<close>

lemma add_call_fields [simp]:
  "length (pr_calls (add_call rq p)) = Suc (length (pr_calls p))" "pr_manager (add_call rq p) = pr_manager p"
  "pr_creating (add_call rq p) = pr_creating p" "pr_claims (add_call rq p) = pr_claims p" "pr_numText (add_call rq p) = pr_numText p"
  "i < length (pr_calls p) \<Longrightarrow> call_at (add_call rq p) i = call_at p i" "request_at (add_call rq p) (length (pr_calls p)) = rq"
  "cl_pc (call_at (add_call rq p) (length (pr_calls p))) = Returned Rejected"
  by (simp_all add: add_call_def nth_append)

lemma add_call_inv:
  assumes "process_inv p"
  shows "process_inv (add_call rq p)"
proof -
  let ?q = "add_call rq p" and ?n = "length (pr_calls p)"
  have iv: "claims_ok p" "keys_ok p" using assms by (simp_all add: process_inv_def)
  note d = claims_okD [OF iv(1)]
  have new: "held_at_call ?q ?n = None" "\<not> about (call_at ?q ?n)" "cl_pc (call_at ?q ?n) \<noteq> AwaitCreation k" for k by (simp_all add: about_def)
  have lt: "i < ?n" if "i < length (pr_calls ?q)" "i \<noteq> ?n" for i using that by simp
  have old: "i < length (pr_calls ?q) \<Longrightarrow> held_at_call ?q i = Some k \<Longrightarrow> i < ?n"
    "i < length (pr_calls ?q) \<Longrightarrow> about (call_at ?q i) \<Longrightarrow> i < ?n"
    "i < length (pr_calls ?q) \<Longrightarrow> cl_pc (call_at ?q i) = AwaitCreation k \<Longrightarrow> i < ?n" for i k
    using lt [of i] by (metis new(1) option.distinct(1), metis new(2), metis new(3))
  have "claims_ok ?q"
    unfolding claims_ok_def
  proof (intro conjI allI impI)
    fix i k assume a: "i < length (pr_calls ?q)" "held_at_call ?q i = Some k"
    then have "i < ?n" by (rule old(1))
    then show "pr_creating ?q (pool_at_call ?q i) = Some k" using a d(1) [of i k] by simp
  next
    fix q k assume "pr_creating ?q q = Some k"
    then have q: "pr_creating p q = Some k" by simp
    then show "k < length (pr_claims ?q)" "\<not> pr_claims ?q ! k" using d(2,3) [OF q] by simp_all
    obtain i where "i < ?n" "held_at_call p i = Some k" "pool_at_call p i = q" using d(4) [OF q] by auto
    then show "\<exists>i < length (pr_calls ?q). held_at_call ?q i = Some k \<and> pool_at_call ?q i = q" by (intro exI [of _ i]) simp
  next
    fix k assume "k < length (pr_claims ?q)" "\<not> pr_claims ?q ! k"
    then show "\<exists>q. pr_creating ?q q = Some k" using d(5) by simp
  next
    fix i j k assume a: "i < length (pr_calls ?q)" "j < length (pr_calls ?q)" "held_at_call ?q i = Some k" "held_at_call ?q j = Some k"
    then have "i < ?n" "j < ?n" using old(1) by blast+
    then show "i = j" using a d(6) [of i j k] by simp
  next
    fix i k assume a: "i < length (pr_calls ?q)" "cl_pc (call_at ?q i) = AwaitCreation k"
    then have "i < ?n" by (rule old(3))
    then show "k < length (pr_claims ?q)" using a d(7) [of i k] by simp
  qed
  moreover have "keys_ok ?q"
    unfolding keys_ok_def
  proof (intro allI impI)
    fix i t key assume a: "i < length (pr_calls ?q)" "keyed (request_at ?q i) t key" "about (call_at ?q i)"
    then have "i < ?n" using old(2) by blast
    then show "held_at_call ?q i \<noteq> None \<and> findKeyed t key (pr_manager ?q) = None" using a iv(2) by (simp add: keys_ok_def)
  qed
  ultimately show ?thesis using assms by (simp add: process_inv_def)
qed

lemma start_call_inv:
  assumes "process_inv p"
  shows "process_inv (start_call env rq p)"
proof -
  let ?c = "length (pr_calls p)" and ?p = "add_call rq p"
  have i: "process_inv ?p" "?c < length (pr_calls ?p)" "held_at_call ?p ?c = None" using add_call_inv [OF assms] by simp_all
  note f = inv_finish [OF i(1,2), of None] and l = create_loop_inv [OF i] find_loop_inv [OF i] route_loop_inv [OF i]
    and cp = createPlaced_inv [OF i(1,2), of None env]
  show ?thesis by (cases rq) (use f l cp in \<open>simp_all add: start_call_def Let_def may_create_def split: option.splits\<close>)
qed

lemma inv_manager:
  assumes "process_inv p" "mg_le (pr_manager p) m"
  shows "process_inv (p\<lparr>pr_manager := m\<rparr>)"
proof -
  have iv: "claims_ok p" "keys_ok p" "mg_ok (pr_manager p)" "one_open (pr_manager p)" using assms(1) by (simp_all add: process_inv_def)
  have "keys_ok (p\<lparr>pr_manager := m\<rparr>)"
    using iv(2) mg_le_open [OF assms(2) iv(3)] unfolding keys_ok_def findKeyed_None by simp blast
  then show ?thesis using iv mg_le_ok [OF assms(2)] mg_le_one [OF assms(2)] by (simp add: process_inv_def claims_ok_def)
qed

lemma peer_inv:
  assumes "process_inv p" "process_legal p (Peer env name opts placement)"
  shows "process_inv (peer_create env name opts placement p)"
proof -
  have iv: "claims_ok p" "keys_ok p" "mg_ok (pr_manager p)" "one_open (pr_manager p)" using assms(1) by (simp_all add: process_inv_def)
  have "process_inv (p\<lparr>pr_manager := snd (mg_create t v placement seed (pr_manager p))\<rparr>)" if t: "getType name p = Some t" for t v seed
  proof -
    obtain r m where m: "mg_create t v placement seed (pr_manager p) = (r, m)" by fastforce
    note new = mg_create_open [OF m iv(3)]
    have free: "\<not> open_keyed n key (pr_manager p) x" "pr_creating p (poolOf (pr_numText p) n (Some key) None) = None"
      if "n = rt_name t" "rp_key placement = Some key" for n key x
      using assms(2) that getType_name [OF t] by (simp_all add: findKeyed_None)
    have "one_open m" unfolding one_open_def using iv(4) new(2) free(1) unfolding one_open_def by metis
    moreover have "\<not> open_keyed n key m x"
      if c: "c < length (pr_calls p)" "keyed (request_at p c) n key" "about (call_at p c)" for c n key x
    proof
      assume "open_keyed n key m x"
      then have k: "n = rt_name t" "rp_key placement = Some key" using new(2) keys_okD(2) [OF iv(2) c] by blast+
      obtain k where "held_at_call p c = Some k" using keys_okD(1) [OF iv(2) c] by auto
      then have "pr_creating p (pool_at_call p c) = Some k" using claims_okD(1) [OF iv(1) c(1)] by blast
      then show False using free(2) [OF k] c(2) by (simp add: keyed_def pool_of_def poolOf_def)
    qed
    then have "keys_ok (p\<lparr>pr_manager := m\<rparr>)" using iv(2) unfolding keys_ok_def findKeyed_None by simp
    ultimately show ?thesis using m new(1) iv(1) by (simp add: process_inv_def claims_ok_def)
  qed
  then show ?thesis using assms(1) by (simp add: peer_create_def split: option.splits sum.splits)
qed

lemma inv_flags:
  "process_inv (p\<lparr>pr_types := ts\<rparr>) = process_inv p" "process_inv (p\<lparr>pr_draining := b\<rparr>) = process_inv p"
  "process_inv (p\<lparr>pr_cluster := b\<rparr>) = process_inv p"
  by (simp_all add: process_inv_def claims_ok_def keys_ok_def)

lemma process_step_inv:
  assumes "process_inv p" "process_legal p e"
  shows "process_inv (process_step e p)"
  by (cases e) (use assms in \<open>simp_all add: start_call_inv resume_inv inv_manager mg_le_op mg_le_ready mg_le_metadata peer_inv inv_flags
        registerRoomType_def del: process_legal.simps\<close>)

interpretation process: machine process_legal process_step process_inv
  by unfold_locales (rule process_step_inv)

lemma process_inv_new: "process_inv (new_process i num_text out)"
  by (simp add: process_inv_def claims_ok_def keys_ok_def mg_ok_def one_open_def open_keyed_def new_process_def new_manager_def getRooms_def)

end
