(* ===== verification/Progress.thy ===== *)
theory Progress
  imports Claims
begin

text \<open>
  No call of a process waits for ever: a call that holds a claim gets to its end by itself, so a
  call that waits for a claim is woken, and after that it gets to its own end. Rooms that are being
  created become ready meanwhile.
\<close>

section \<open>A room that is ready stays ready\<close>

lemma ready_checkEmpty [simp]: "rm_ready (fst (checkEmpty s)) = rm_ready s"
  by (simp add: checkEmpty_def dispose_clear_def)

lemma ready_updatePause [simp]: "rm_ready (fst (updatePause s)) = rm_ready s"
  by (simp add: updatePause_def)

lemma ready_deliver [simp]: "rm_ready (fst (deliverAll ty h b ex s)) = rm_ready s"
  by (rule same_room_parts(12) [OF deliverAll_same])

lemma ready_send_all [simp]: "rm_ready (fst (send_all c fs s)) = rm_ready s"
  by (rule same_room_parts(12) [OF send_all_same])

lemma ready_release [simp]: "rm_ready (fst (release_seat c consented code reason s)) = rm_ready s"
proof (cases "cin (rm_heap s c) \<and> cstatus (rm_heap s c) \<noteq> Left")
  case True
  then obtain s1 where s1: "same_room s s1" and f: "fst (release_seat c consented code reason s) =
       (let s2 = (vacate c (revokeToken c (clear_reconnect c s1)))\<lparr>rm_presence := (rm_presence s1)(sessionId (rm_heap s c) := None)\<rparr>
        in if cstatus (rm_heap s c) = Joining then fst (checkEmpty s2) else s2\<lparr>rm_leaving := rm_leaving s2 @ [(c, consented)]\<rparr>)"
    using release_form by blast
  show ?thesis unfolding f using same_room_parts(12) [OF s1] by (simp add: Let_def)
qed (auto simp: release_seat_def Let_def)

lemma ready_activate [simp]: "rm_ready (fst (activate c s)) = rm_ready s"
  by (simp add: activate_def Let_def set_client_def split: option.splits)

lemma ready_connectionLost [simp]: "rm_ready (fst (connectionLost c s)) = rm_ready s"
  by (simp add: connectionLost_def Let_def set_client_def split: prod.splits)

lemma ready_completeJoin [simp]: "rm_ready (fst (completeJoin k requestId c reconnected connOpen encoded fresh s)) = rm_ready s"
proof -
  obtain token s' where t: "issueToken c fresh s = (token, s')" by fastforce
  moreover have "rm_ready (snd (issueToken c fresh s)) = rm_ready s" by (simp add: issueToken_def Let_def set_client_def)
  ultimately show ?thesis by (simp add: completeJoin_def)
qed

lemma ready_reserve [simp]: "rm_ready (snd (reserveIn i sid v byId seconds now s)) = rm_ready s"
  by (simp add: reserveIn_def hold_def Let_def case_prod_beta split: sum.splits)

lemma ready_consume [simp]: "rm_ready (snd (consume i now s)) = rm_ready s"
  by (simp add: consume_def takeReservation_def Let_def case_prod_beta split: option.splits)

lemma ready_take_seat [simp]: "rm_ready (snd (take_seat c k reserved ref s)) = rm_ready s"
  by (simp add: take_seat_def Let_def split: sum.splits)

lemma ready_dispose_clear [simp]: "rm_ready (fst (dispose_clear s)) = rm_ready s"
  by (simp add: dispose_clear_def)

lemma ready_kept:
  assumes "rm_ready s"
  shows "rm_ready (fst (room_op e s))"
proof (cases e)
  case (EJoinReservation i now refused c k ref)
  obtain x s' where x: "consume i now s = (x, s')" by fastforce
  then have "rm_ready s'" using assms ready_consume [of i now s] by simp
  then show ?thesis using EJoinReservation x by (cases x) (simp_all add: joinReservation_def split: option.splits)
qed (use assms in \<open>simp_all add: unseat_def Let_def release_done_def dispose_next_def dispose_room_def server_reconnect_def reconnect_seat_def
      reconnect_expired_def hold_expired_def cleanup_expired_def set_locked_def set_private_def case_prod_beta
      split: option.splits RoomTimer.splits Disposal.splits list.splits\<close>)

section \<open>Rooms that calls wait for\<close>

text \<open>A room whose creation failed is closing; one whose creation succeeded is ready.\<close>

definition outcome_ok :: "ManagedRoom \<Rightarrow> bool" where
  "outcome_ok x = ((mr_outcome x = Some False \<longrightarrow> rm_disposing (mr_state x)) \<and> (mr_outcome x = Some True \<longrightarrow> rm_ready (mr_state x)))"

fun room_of :: "Pc \<Rightarrow> nat option" where
  "room_of (AwaitFound r) = Some r"
| "room_of (AwaitReady claim r) = Some r"
| "room_of (AwaitNewRoom claim r) = Some r"
| "room_of (AwaitSeated r) = Some r"
| "room_of _ = None"

abbreviation heap_size :: "Process \<Rightarrow> nat" where
  "heap_size p \<equiv> length (mg_heap (pr_manager p))"

definition outcomes_ok :: "RoomManager \<Rightarrow> bool" where
  "outcomes_ok m = list_all outcome_ok (mg_heap m)"

definition waits_ok :: "Process \<Rightarrow> bool" where
  "waits_ok p =
     (outcomes_ok (pr_manager p) \<and> (\<forall>c < length (pr_calls p). \<forall>r. room_of (cl_pc (call_at p c)) = Some r \<longrightarrow> r < heap_size p))"

lemma outcomes_set_room: "outcomes_ok m \<Longrightarrow> (outcome_ok (mroom m r) \<Longrightarrow> outcome_ok (f (mroom m r))) \<Longrightarrow> outcomes_ok (set_room r f m)"
  unfolding outcomes_ok_def set_room_def list_all_length by simp (metis nth_list_update_eq nth_list_update_neq)

lemma length_set_room [simp]: "length (mg_heap (set_room r f m)) = length (mg_heap m)"
  by (simp add: set_room_def)

lemma outcomes_removed: "outcomes_ok (removed r m) = outcomes_ok m"
  by (simp add: removed_def outcomes_ok_def Let_def)

lemma outcomes_state:
  "outcomes_ok m \<Longrightarrow> (rm_disposing (rstate m r) \<Longrightarrow> rm_disposing s) \<Longrightarrow> (rm_ready (rstate m r) \<Longrightarrow> rm_ready s)
    \<Longrightarrow> outcomes_ok (set_room r (\<lambda>x. x\<lparr>mr_state := s\<rparr>) m)"
  by (rule outcomes_set_room) (auto simp: outcome_ok_def)

lemma outcomes_op: "outcomes_ok m \<Longrightarrow> outcomes_ok (mg_op r e m)"
  using outcomes_state [OF _ disposing_kept ready_kept] by (simp add: mg_op_def case_prod_beta Let_def outcomes_removed)

lemma mg_op_room:
  assumes "r < length (mg_heap m)"
  shows "mroom (mg_op r e m) r = (mroom m r)\<lparr>mr_state := fst (room_op e (rstate m r))\<rparr>" "length (mg_heap (mg_op r e m)) = length (mg_heap m)"
  using assms by (auto simp: mg_op_def set_room_def removed_def Let_def case_prod_beta)

lemma dispose_disposing: "rm_disposing (fst (dispose_room s))"
  by (simp add: dispose_room_def)

lemma outcomes_ready: "outcomes_ok m \<Longrightarrow> outcomes_ok (mg_ready r created m)"
proof -
  assume o': "outcomes_ok m"
  have "outcomes_ok (set_room r (\<lambda>x. x\<lparr>mr_outcome := Some True\<rparr>) (mg_op r EReady m))"
    "outcomes_ok (set_room r (\<lambda>x. x\<lparr>mr_outcome := Some False\<rparr>) (mg_op r EDispose m))" if "r < length (mg_heap m)"
    by (rule outcomes_set_room [OF outcomes_op [OF o']]; simp add: outcome_ok_def mg_op_room [OF that] dispose_disposing)+
  then show ?thesis using o' by (simp add: mg_ready_def Let_def outcomes_ok_def)
qed

lemma outcomes_create: "outcomes_ok m \<Longrightarrow> outcomes_ok (snd (mg_create t v pl seed m))"
  by (simp add: mg_create_def Let_def outcomes_ok_def outcome_ok_def room_create_def room_setup_def)

text \<open>What a step may do to the rest of the process.\<close>

definition grows :: "Process \<Rightarrow> Process \<Rightarrow> bool" where
  "grows p q = (pr_calls q = pr_calls p \<and> outcomes_ok (pr_manager q) \<and> heap_size p \<le> heap_size q)"

lemma waits_set_pc:
  assumes "waits_ok p" "grows p q" "\<And>r. room_of pc = Some r \<Longrightarrow> r < heap_size q"
  shows "waits_ok (set_pc c pc q)"
proof -
  have "r < heap_size q" if "i < length (pr_calls p)" "room_of (cl_pc (call_at (set_pc c pc q) i)) = Some r" for i r
  proof (cases "i = c")
    case True
    then show ?thesis using that assms(2,3) by (simp add: grows_def)
  next
    case False
    then have "r < heap_size p" using that assms(1,2) by (simp add: waits_ok_def grows_def)
    then show ?thesis using assms(2) by (simp add: grows_def)
  qed
  then show ?thesis using assms(2) by (simp add: waits_ok_def grows_def)
qed

lemma grows_refl: "waits_ok p \<Longrightarrow> grows p p"
  by (simp add: grows_def waits_ok_def)

lemma grows_release: "waits_ok p \<Longrightarrow> grows p (release_claim pool claim p)"
  by (simp add: grows_def waits_ok_def)

lemma grows_claim: "waits_ok p \<Longrightarrow> claimCreation pool p = (k, q) \<Longrightarrow> grows p q"
  by (auto simp: grows_def waits_ok_def claimCreation_def)

lemma grows_take: "waits_ok p \<Longrightarrow> take_now env r rq p = (reply, q) \<Longrightarrow> grows p q"
proof -
  assume a: "waits_ok p" "take_now env r rq p = (reply, q)"
  have "grows p (snd (reserve_in env r raw byId p))" for raw byId
    using a(1) by (auto simp: grows_def waits_ok_def reserve_in_def Let_def case_prod_beta disposing_reserve intro!: outcomes_state split: sum.splits)
  then have "grows p (snd (take_now env r rq p))" using grows_refl [OF a(1)] by (simp add: take_now_def split: Request.splits Take.splits)
  then show ?thesis using a(2) by simp
qed

lemma grows_create:
  assumes "waits_ok p" "mg_create t v pl seed (pr_manager p) = (r, m)"
  shows "grows p (p\<lparr>pr_manager := m\<rparr>)" "r < length (mg_heap m)"
  using assms outcomes_create [of "pr_manager p" t v pl seed] by (auto simp: grows_def waits_ok_def mg_create_def Let_def)

lemma grows_manager: "waits_ok p \<Longrightarrow> outcomes_ok m \<Longrightarrow> length (mg_heap m) = heap_size p \<Longrightarrow> grows p (p\<lparr>pr_manager := m\<rparr>)"
  by (simp add: grows_def)

lemma waits_finish: "waits_ok p \<Longrightarrow> waits_ok (finish c claim reply p)"
  unfolding finish_def by (rule waits_set_pc [OF _ grows_release]) simp_all

lemma waits_pc: "waits_ok p \<Longrightarrow> room_of pc = None \<Longrightarrow> waits_ok (set_pc c pc p)"
  by (rule waits_set_pc [OF _ grows_refl]) simp_all

lemma waits_created:
  assumes "waits_ok p" "mg_create t v pl seed (pr_manager p) = (r, m)" "outcomes_ok m \<Longrightarrow> outcomes_ok m'" "length (mg_heap m') = length (mg_heap m)"
    "room_of pc = None \<or> room_of pc = Some r"
  shows "waits_ok (set_pc c pc (p\<lparr>pr_manager := m'\<rparr>))"
proof (rule waits_set_pc [OF assms(1)])
  show "grows p (p\<lparr>pr_manager := m'\<rparr>)" using grows_create(1) [OF assms(1,2)] assms(3,4) by (simp add: grows_def)
  show "x < heap_size (p\<lparr>pr_manager := m'\<rparr>)" if "room_of pc = Some x" for x
    using that assms(4,5) grows_create(2) [OF assms(1,2)] by simp
qed

lemma waits_create_here: "waits_ok p \<Longrightarrow> waits_ok (create_here env claim c p)"
  using waits_created [of p _ _ _ _ _ _ _ "AwaitReady claim _" c]
  by (auto simp: create_here_def Let_def waits_pc split: option.splits sum.splits prod.splits)

lemma waits_place_next: "waits_ok p \<Longrightarrow> waits_ok (place_next claim ps refused c p)"
  by (simp add: place_next_def Let_def waits_pc split: placing.splits)

lemma waits_createPlaced: "waits_ok p \<Longrightarrow> waits_ok (createPlaced env claim c p)"
  by (simp add: createPlaced_def Let_def waits_pc waits_create_here split: option.splits sum.splits)

lemma waits_claim: "waits_ok p \<Longrightarrow> claimCreation pool p = (k, q) \<Longrightarrow> waits_ok (set_pc c (AwaitGranted k) q)"
  by (rule waits_set_pc [OF _ grows_claim]) simp_all

lemma waits_create_loop: "waits_ok p \<Longrightarrow> waits_ok (create_loop c p)"
  by (simp add: create_loop_def Let_def waits_pc waits_claim split: option.splits prod.splits)

lemma found_in:
  "find Q (getRooms m) = Some r \<Longrightarrow> mg_ok m \<Longrightarrow> r < length (mg_heap m)"
  unfolding mg_ok_def find_Some_iff by (metis nth_mem)

lemma local_look_in: "local_look rq p = Some r \<Longrightarrow> mg_ok (pr_manager p) \<Longrightarrow> r < heap_size p"
  using found_in by (auto simp: local_look_def findKeyed_def findAvailable_def split: option.splits if_splits)

lemma route_find_in: "route_find name k p = Some r \<Longrightarrow> mg_ok (pr_manager p) \<Longrightarrow> r < heap_size p"
  using found_in by (auto simp: route_find_def Let_def split: if_splits)

lemma waits_find_loop:
  assumes "waits_ok p" "mg_ok (pr_manager p)"
  shows "waits_ok (find_loop c p)"
proof -
  have "waits_ok (set_pc c (AwaitFound r) p)" if "local_look rq p = Some r" for r rq
    using assms that local_look_in by (intro waits_set_pc [OF assms(1) grows_refl [OF assms(1)]]) auto
  then show ?thesis using assms(1) by (simp add: find_loop_def Let_def waits_pc waits_claim split: option.splits prod.splits)
qed

lemma waits_route_create: "waits_ok p \<Longrightarrow> waits_ok (route_create claim c p)"
  by (simp add: route_create_def waits_pc waits_finish split: Request.splits option.splits sum.splits)

lemma waits_route_seat:
  assumes "waits_ok p" "r < heap_size p"
  shows "waits_ok (route_seat c r j p)"
proof -
  let ?t = "take_seat (jn_client j) (Some (jn_connection j)) False None (rstate (pr_manager p) r)"
  have "outcomes_ok (set_room r (\<lambda>x. x\<lparr>mr_state := snd ?t\<rparr>) (pr_manager p))"
    using assms(1) by (intro outcomes_state) (simp_all add: waits_ok_def disposing_take_seat)
  then have "waits_ok (set_pc c (AwaitSeated r) (p\<lparr>pr_manager := set_room r (\<lambda>x. x\<lparr>mr_state := snd ?t\<rparr>) (pr_manager p)\<rparr>))"
    using assms by (intro waits_set_pc [OF assms(1) grows_manager]) simp_all
  then show ?thesis using waits_finish [OF assms(1)] by (simp add: route_seat_def case_prod_beta split: sum.splits)
qed

lemma waits_route_loop:
  assumes "waits_ok p" "mg_ok (pr_manager p)"
  shows "waits_ok (route_loop c p)"
proof -
  have "waits_ok (set_pc c (AwaitFound r) p)" "waits_ok (route_seat c r j p)" if "route_find name k p = Some r" for r name k j
    using assms(1) waits_route_seat [OF assms(1)] route_find_in [OF that assms(2)]
    by (auto intro!: waits_set_pc [OF assms(1) grows_refl [OF assms(1)]])
  then show ?thesis using assms(1)
    by (simp add: route_loop_def waits_pc waits_claim waits_route_create split: Request.splits option.splits prod.splits)
qed

lemma waits_again: "waits_ok p \<Longrightarrow> mg_ok (pr_manager p) \<Longrightarrow> waits_ok (again c p)"
  by (simp add: again_def waits_create_loop waits_find_loop waits_route_loop split: Request.splits)

lemma waits_taken: "waits_ok p \<Longrightarrow> take_now env r rq p = (reply, q) \<Longrightarrow> room_of pc = None \<Longrightarrow> waits_ok (set_pc c pc q)"
  by (rule waits_set_pc [OF _ grows_take]) simp_all

lemma waits_unseated: "waits_ok p \<Longrightarrow> waits_ok (finish c None reply (unseat_call r c (release_claim pool claim p)))"
proof -
  assume w: "waits_ok p"
  have "length (mg_heap (mg_op r e m)) = length (mg_heap m)" for e m using mg_le_op [of m r e] by (simp add: mg_le_def)
  then have "grows p (unseat_call r c (release_claim pool claim p))"
    using w by (simp add: unseat_call_def grows_def waits_ok_def outcomes_op split: Request.splits)
  then show ?thesis unfolding finish_None by (rule waits_set_pc [OF w]) simp
qed

lemma waits_resume_auth: "waits_ok p \<Longrightarrow> waits_ok (resume_auth env claim v c p)"
proof -
  assume w: "waits_ok p"
  have "waits_ok (set_pc c (AwaitNewRoom claim r) (p\<lparr>pr_manager := set_room r (\<lambda>x. x\<lparr>mr_state := s\<rparr>) m\<rparr>))"
    if "mg_create t v no_placement seed (pr_manager p) = (r, m)" "take_seat a b False None (rstate m r) = (x, s)" for t seed r m a b x s
    using disposing_take_seat [of a b False None "rstate m r"] ready_take_seat [of a b False None "rstate m r"] that(2)
    by (intro waits_created [OF w that(1)]) (auto intro!: outcomes_state)
  moreover have "waits_ok (set_pc c (AwaitCreated claim e) (p\<lparr>pr_manager := m\<rparr>))"
    if "mg_create t v no_placement seed (pr_manager p) = (r, m)" for t seed r m e
    by (rule waits_created [OF w that]) simp_all
  ultimately show ?thesis using w
    by (simp add: resume_auth_def waits_pc split: option.splits Request.splits prod.splits sum.splits)
qed

lemma ask_pc: "cl_pc ((pr_calls p)[c := (call_at p c)\<lparr>cl_ask := b\<rparr>] ! i) = cl_pc (call_at p i)"
  by (cases "i = c"; cases "c < length (pr_calls p)") (simp_all add: nth_list_update list_update_beyond)

lemma waits_resume:
  assumes "waits_ok p" "mg_ok (pr_manager p)"
  shows "waits_ok (resume_call env c p)"
proof (cases "cl_pc (call_at p c)")
  case (AwaitFound r)
  then show ?thesis using assms waits_taken [OF assms(1), of env r "request_at p c"]
    by (simp add: resume_call_def resume_found_def waits_find_loop waits_again split: option.splits Request.splits prod.splits)
next
  case (AwaitGranted k)
  then show ?thesis using assms(1) by (simp add: resume_call_def resume_granted_def waits_pc waits_route_create split: Request.splits)
next
  case (AwaitLook claim here asked)
  have "waits_ok (set_pc c pc (release_claim pool claim p))" if "room_of pc = None" for pc pool
    using that by (intro waits_set_pc [OF assms(1) grows_release [OF assms(1)]]) simp
  then show ?thesis using assms AwaitLook
    by (simp add: resume_call_def resume_look_def Let_def waits_pc waits_finish waits_createPlaced waits_route_create
        split: Request.splits option.splits prod.splits)
next
  case (AwaitCreated claim reply)
  then show ?thesis using assms(1) waits_taken [OF assms(1), of env _ "request_at p c"]
    by (simp add: resume_call_def resume_created_def waits_pc waits_finish split: Request.splits Reply.splits Outcome.splits prod.splits)
next
  case AwaitForward
  have "waits_ok (p\<lparr>pr_calls := (pr_calls p)[c := (call_at p c)\<lparr>cl_ask := False\<rparr>]\<rparr>)"
    using assms(1) ask_pc [of p c] by (simp add: waits_ok_def)
  then show ?thesis using assms AwaitForward
    by (simp add: resume_call_def resume_forward_def waits_finish waits_route_loop split: option.splits Request.splits)
next
  case (AwaitNewRoom claim r)
  have "waits_ok (set_pc c (AwaitJoin r) (release_claim pool claim p))" for pool
    by (intro waits_set_pc [OF assms(1) grows_release [OF assms(1)]]) simp
  then show ?thesis using assms AwaitNewRoom waits_unseated [OF assms(1)]
    by (simp add: resume_call_def resume_new_room_def split: option.splits)
next
  case (AwaitSeated r)
  then show ?thesis using assms(1) waits_unseated [OF assms(1), of c _ r _ None]
    by (simp add: resume_call_def resume_seated_def waits_pc release_claim_def split: option.splits)
next
  case (AwaitAuthorize r)
  then show ?thesis using assms(1) waits_unseated [OF assms(1), of c _ r _ None]
    by (simp add: resume_call_def waits_pc release_claim_def split: option.splits)
qed (use assms in \<open>simp_all add: resume_call_def resume_lookup_def resume_proxy_def resume_remote_taken_def Let_def waits_again waits_finish waits_pc
      waits_createPlaced waits_place_next waits_create_here waits_resume_auth split: option.splits\<close>)

lemma waits_manager: "waits_ok p \<Longrightarrow> outcomes_ok m \<Longrightarrow> heap_size p \<le> length (mg_heap m) \<Longrightarrow> waits_ok (p\<lparr>pr_manager := m\<rparr>)"
  by (fastforce simp: waits_ok_def)

lemma waits_flags:
  "waits_ok (p\<lparr>pr_types := ts\<rparr>) = waits_ok p" "waits_ok (p\<lparr>pr_draining := b\<rparr>) = waits_ok p" "waits_ok (p\<lparr>pr_cluster := b\<rparr>) = waits_ok p"
  by (simp_all add: waits_ok_def)

lemma waits_start:
  assumes "waits_ok p" "mg_ok (pr_manager p)"
  shows "waits_ok (start_call env rq p)"
proof -
  have "waits_ok (add_call rq p)" using assms(1) by (auto simp: waits_ok_def add_call_def nth_append less_Suc_eq)
  then show ?thesis using assms(2)
    by (cases rq) (simp_all add: start_call_def Let_def waits_finish waits_createPlaced waits_create_loop waits_find_loop waits_route_loop split: option.splits)
qed

lemma waits_step:
  assumes "waits_ok p" "mg_ok (pr_manager p)"
  shows "waits_ok (process_step e p)"
proof -
  have l: "length (mg_heap m') = length (mg_heap m)" if "mg_le m m'" for m m' using that by (simp add: mg_le_def)
  have o': "outcomes_ok (pr_manager p)" using assms(1) by (simp add: waits_ok_def)
  have "outcomes_ok (set_metadata r ps (pr_manager p))" for r ps
    using o' by (auto simp: set_metadata_def outcome_ok_def intro!: outcomes_set_room)
  moreover have "heap_size p \<le> length (mg_heap (snd (mg_create t v pl seed (pr_manager p))))" for t v pl seed by (simp add: mg_create_def Let_def)
  ultimately show ?thesis using assms o' l [OF mg_le_op] l [OF mg_le_ready] l [OF mg_le_metadata]
    by (cases e) (simp_all add: waits_start waits_resume waits_manager outcomes_op outcomes_ready outcomes_create peer_create_def registerRoomType_def
        waits_flags split: option.splits sum.splits)
qed

section \<open>One call at a time\<close>

text \<open>A run of a call changes no other call, and of the call itself not what it asks for.\<close>

definition frame :: "nat \<Rightarrow> Process \<Rightarrow> Process \<Rightarrow> bool" where
  "frame c p q =
     (length (pr_calls q) = length (pr_calls p) \<and> (\<forall>i. i \<noteq> c \<longrightarrow> call_at q i = call_at p i)
      \<and> request_at q c = request_at p c \<and> cl_known (call_at q c) = cl_known (call_at p c) \<and> pr_numText q = pr_numText p
      \<and> length (pr_claims p) \<le> length (pr_claims q))"

lemma frame_refl [simp]: "frame c p p"
  by (simp add: frame_def)

lemma frame_trans: "frame c p q \<Longrightarrow> frame c q r \<Longrightarrow> frame c p r"
  by (simp add: frame_def)

lemma release_length [simp]: "length (pr_claims (release_claim pool claim p)) = length (pr_claims p)"
  by (simp add: release_claim_def split: option.splits)

lemma frame_set_pc:
  "pr_calls q = pr_calls p \<Longrightarrow> pr_numText q = pr_numText p \<Longrightarrow> length (pr_claims p) \<le> length (pr_claims q) \<Longrightarrow> frame c p (set_pc c pc q)"
  by (cases "c < length (pr_calls p)") (simp_all add: frame_def set_pc_def list_update_beyond)

lemma frame_pc [simp]: "frame c p (set_pc c pc p)"
  by (simp add: frame_set_pc)

lemma frame_finish [simp]: "frame c p (finish c claim reply p)"
  by (simp add: finish_def frame_set_pc)

lemma frame_created: "frame c p (set_pc c pc (p\<lparr>pr_manager := m\<rparr>))"
  by (simp add: frame_set_pc)

lemma frame_claimed: "claimCreation pool p = (k, q) \<Longrightarrow> frame c p (set_pc c pc q)"
  by (rule frame_set_pc) (auto simp: claimCreation_def)

lemma frame_taken: "take_now env r rq p = (reply, q) \<Longrightarrow> frame c p (set_pc c pc q)"
  using take_now_fields [of env r rq p] by (simp add: frame_set_pc)

lemma frame_unseated [simp]:
  "frame c p (finish c None reply (unseat_call r c (release_claim pool claim p)))" "frame c p (finish c None reply (unseat_call r c p))"
  by (simp_all add: finish_None frame_set_pc)

lemma frame_create_here [simp]: "frame c p (create_here env claim c p)"
  by (simp add: create_here_def Let_def frame_created split: option.splits sum.splits prod.splits)

lemma frame_createPlaced [simp]: "frame c p (createPlaced env claim c p)"
  by (simp add: createPlaced_def Let_def split: option.splits sum.splits)

lemma frame_place_next [simp]: "frame c p (place_next claim ps refused c p)"
  by (simp add: place_next_def Let_def split: placing.splits)

lemma frame_loops [simp]:
  "frame c p (create_loop c p)" "frame c p (find_loop c p)" "frame c p (route_create claim c p)" "frame c p (route_seat c r j p)"
  by (simp_all add: create_loop_def find_loop_def route_create_def route_seat_def Let_def frame_claimed frame_created
      split: option.splits sum.splits prod.splits Request.splits)

lemma frame_route_loop [simp]: "frame c p (route_loop c p)"
  by (simp add: route_loop_def frame_claimed split: Request.splits option.splits prod.splits)

lemma frame_again [simp]: "frame c p (again c p)"
  by (simp add: again_def split: Request.splits)

lemma frame_released [simp]: "frame c p (set_pc c pc (release_claim pool claim p))"
  by (simp add: frame_set_pc)

lemma frame_ask: "frame c p (p\<lparr>pr_calls := (pr_calls p)[c := (call_at p c)\<lparr>cl_ask := b\<rparr>]\<rparr>)"
  by (cases "c < length (pr_calls p)") (simp_all add: frame_def list_update_beyond)

lemma frame_resume: "frame c p (resume_call env c p)"
proof (cases "cl_pc (call_at p c)")
  case (AwaitFound r)
  then show ?thesis by (simp add: resume_call_def resume_found_def frame_taken split: option.splits Request.splits prod.splits)
next
  case (AwaitGranted k)
  then show ?thesis by (simp add: resume_call_def resume_granted_def split: Request.splits)
next
  case (AwaitLook claim here asked)
  then show ?thesis by (simp add: resume_call_def resume_look_def Let_def split: Request.splits option.splits prod.splits)
next
  case (AwaitCreated claim reply)
  then show ?thesis
    by (simp add: resume_call_def resume_created_def frame_taken split: Request.splits Reply.splits Outcome.splits prod.splits)
next
  case AwaitForward
  have "frame c p (route_loop c (p\<lparr>pr_calls := (pr_calls p)[c := (call_at p c)\<lparr>cl_ask := False\<rparr>]\<rparr>))"
    by (rule frame_trans [OF frame_ask frame_route_loop])
  then show ?thesis using AwaitForward by (simp add: resume_call_def resume_forward_def split: option.splits Request.splits)
next
  case (AwaitAuth claim v)
  then show ?thesis
    by (simp add: resume_call_def resume_auth_def frame_created split: option.splits Request.splits prod.splits sum.splits)
qed (simp_all add: resume_call_def resume_lookup_def resume_proxy_def resume_remote_taken_def resume_new_room_def resume_seated_def Let_def
      split: option.splits)

section \<open>Getting to the end\<close>

text \<open>
  Steps in which nothing unexpected happens: calls go on, no other process has a room or refuses
  anything, and rooms that are being created become ready.
\<close>

definition calm :: "Env \<Rightarrow> bool" where
  "calm env = (env_found env = None \<and> env_refused env = None \<and> env_processes env = [])"

definition benign :: "Env \<Rightarrow> ProcessEvent \<Rightarrow> bool" where
  "benign env e = (case e of Resume env' i \<Rightarrow> env' = env | Created r created \<Rightarrow> created | _ \<Rightarrow> False)"

fun process_run :: "ProcessEvent list \<Rightarrow> Process \<Rightarrow> Process" where
  "process_run [] p = p"
| "process_run (e # es) p = process_run es (process_step e p)"

definition leads :: "Env \<Rightarrow> Process \<Rightarrow> Process \<Rightarrow> bool" where
  "leads env p q = (\<exists>es. list_all (benign env) es \<and> q = process_run es p)"

definition good :: "Process \<Rightarrow> bool" where
  "good p = (process_inv p \<and> waits_ok p)"

lemma process_run_append: "process_run (es @ es') p = process_run es' (process_run es p)"
  by (induction es arbitrary: p) simp_all

lemma leads_refl [simp]: "leads env p p"
  unfolding leads_def by (rule exI [of _ "[]"]) simp

lemma leads_trans: "leads env p q \<Longrightarrow> leads env q r \<Longrightarrow> leads env p r"
  unfolding leads_def by (metis list_all_append process_run_append)

lemma leads_step: "benign env e \<Longrightarrow> leads env p (process_step e p)"
  unfolding leads_def by (rule exI [of _ "[e]"]) simp

lemma leads_resume: "c < length (pr_calls p) \<Longrightarrow> leads env p (resume_call env c p)"
  using leads_step [of env "Resume env c" p] by (simp add: benign_def)

lemma good_benign: "good p \<Longrightarrow> benign env e \<Longrightarrow> good (process_step e p)"
proof -
  assume a: "good p" "benign env e"
  have "process_legal p e" using a(2) by (cases e) (simp_all add: benign_def)
  then show ?thesis using a(1) process_step_inv waits_step unfolding good_def process_inv_def [of p] by (metis process_inv_def)
qed

lemma good_leads: "leads env p q \<Longrightarrow> good p \<Longrightarrow> good q"
proof -
  have "list_all (benign env) es \<Longrightarrow> good p \<Longrightarrow> good (process_run es p)" for es
    by (induction es arbitrary: p) (auto intro: good_benign)
  then show "leads env p q \<Longrightarrow> good p \<Longrightarrow> good q" by (auto simp: leads_def)
qed

subsection \<open>A call that waits for nobody\<close>

text \<open>How many awaits are left to a call that does not wait for another call.\<close>

fun rank :: "Pc \<Rightarrow> nat option" where
  "rank (Returned reply) = Some 0"
| "rank (AwaitJoin r) = Some 1"
| "rank AwaitForward = Some 1"
| "rank (AwaitElsewhere claim) = Some 1"
| "rank (AwaitNewTaken claim reply) = Some 1"
| "rank (AwaitRemoteTaken pid rid) = Some 1"
| "rank (AwaitLookup claim) = Some 1"
| "rank (AwaitCreated claim reply) = Some 2"
| "rank (AwaitAuthorize r) = Some 2"
| "rank (AwaitNewRoom claim r) = Some 2"
| "rank (AwaitProxy pid rid) = Some 2"
| "rank (AwaitReady claim r) = Some 3"
| "rank (AwaitRemote claim ps refused i) = Some 3"
| "rank (AwaitSeated r) = Some 3"
| "rank (AwaitAuth claim v) = Some 3"
| "rank (AwaitHere claim) = Some 4"
| "rank (AwaitProcesses claim) = Some 5"
| "rank (AwaitLook claim here asked) = Some 6"
| "rank (AwaitGranted k) = Some 7"
| "rank _ = None"

abbreviation rank_at :: "Process \<Rightarrow> nat \<Rightarrow> nat option" where
  "rank_at p c \<equiv> rank (cl_pc (call_at p c))"

definition below :: "nat \<Rightarrow> nat option \<Rightarrow> bool" where
  "below n x = (case x of None \<Rightarrow> False | Some k \<Rightarrow> k < n)"

lemma rank_set_pc [simp]: "c < length (pr_calls q) \<Longrightarrow> rank_at (set_pc c pc q) c = rank pc"
  by simp

lemma rank_finish [simp]: "c < length (pr_calls p) \<Longrightarrow> rank_at (finish c claim reply p) c = Some 0"
  by (simp add: finish_def)

lemma below_create_here: "c < length (pr_calls p) \<Longrightarrow> below 4 (rank_at (create_here env claim c p) c)"
  by (simp add: create_here_def Let_def below_def split: option.splits sum.splits prod.splits)

lemma below_createPlaced: "c < length (pr_calls p) \<Longrightarrow> below 6 (rank_at (createPlaced env claim c p) c)"
  using below_create_here [of c p env claim]
  by (auto simp: createPlaced_def Let_def below_def split: option.splits sum.splits)

lemma below_route_create:
  "c < length (pr_calls p) \<Longrightarrow> request_at p c = RouteByType mode name j \<Longrightarrow> below 6 (rank_at (route_create claim c p) c)"
  by (simp add: route_create_def below_def split: option.splits sum.splits)

lemma below_taken: "c < length (pr_calls p) \<Longrightarrow> take_now env r rq p = (reply, q) \<Longrightarrow> below (Suc (Suc 0)) (rank_at (set_pc c (AwaitNewTaken claim reply) q) c)"
  using take_now_fields(1) [of env r rq p] by (simp add: below_def)

lemma resume_below:
  assumes "c < length (pr_calls p)" "calm env" "rank_at p c = Some (Suc n)" "room_of (cl_pc (call_at p c)) = None"
  shows "below (Suc n) (rank_at (resume_call env c p) c)"
proof (cases "cl_pc (call_at p c)")
  case (AwaitGranted k)
  then show ?thesis using assms below_route_create [OF assms(1), of _ _ _ "Some k"]
    by (fastforce simp: resume_call_def resume_granted_def below_def split: Request.splits option.splits)
next
  case (AwaitLook claim here asked)
  then show ?thesis
    using assms below_createPlaced [OF assms(1), of env claim] below_route_create [OF assms(1), of _ _ _ claim]
    by (auto simp: resume_call_def resume_look_def Let_def calm_def below_def split: Request.splits)
next
  case (AwaitHere claim)
  then show ?thesis using assms below_create_here [OF assms(1), of env claim] by (simp add: resume_call_def)
next
  case (AwaitProcesses claim)
  then show ?thesis using assms
    by (simp add: resume_call_def place_next_def calm_def Let_def place_round.simps [of _ _ _ "[]"] offered_of_def below_def)
next
  case (AwaitCreated claim reply)
  then show ?thesis using assms below_taken [OF assms(1), of env _ "request_at p c"]
    by (auto simp: resume_call_def resume_created_def below_def split: Request.splits Reply.splits Outcome.splits prod.splits)
next
  case (AwaitAuth claim v)
  then show ?thesis using assms
    by (auto simp: resume_call_def resume_auth_def calm_def below_def split: option.splits Request.splits prod.splits sum.splits)
qed (use assms in \<open>auto simp: resume_call_def resume_lookup_def resume_proxy_def resume_remote_taken_def resume_forward_def take_remote_def isFull_def
      calm_def Let_def below_def split: Request.splits Take.splits\<close>)

lemma resume_below_room:
  assumes "c < length (pr_calls p)" "rank_at p c = Some (Suc n)" "room_of (cl_pc (call_at p c)) = Some r"
    "mr_outcome (mroom (pr_manager p) r) \<noteq> None"
  shows "below (Suc n) (rank_at (resume_call env c p) c)"
proof (cases "cl_pc (call_at p c)")
  case (AwaitNewRoom claim x)
  then show ?thesis using assms by (auto simp: resume_call_def resume_new_room_def below_def)
next
  case (AwaitSeated x)
  then show ?thesis using assms by (auto simp: resume_call_def resume_seated_def below_def)
qed (use assms in \<open>auto simp: resume_call_def below_def\<close>)

text \<open>A room becomes ready, if its creation has not ended yet.\<close>

definition settle_room :: "nat \<Rightarrow> Process \<Rightarrow> Process" where
  "settle_room r p = process_step (Created r True) p"

lemma settle_room_fields [simp]:
  "pr_calls (settle_room r p) = pr_calls p" "pr_creating (settle_room r p) = pr_creating p" "pr_claims (settle_room r p) = pr_claims p"
  "pr_numText (settle_room r p) = pr_numText p" "pr_draining (settle_room r p) = pr_draining p" "leads env p (settle_room r p)"
  "frame c p (settle_room r p)"
  using leads_step [of env "Created r True" p] by (simp_all add: settle_room_def benign_def frame_def)

lemma settle_room_outcome: "r < heap_size p \<Longrightarrow> mr_outcome (mroom (pr_manager (settle_room r p)) r) \<noteq> None"
  by (auto simp: settle_room_def mg_ready_def Let_def set_room_def mg_op_room)

lemma solo_ends:
  assumes "good p" "c < length (pr_calls p)" "calm env" "rank_at p c = Some n"
  shows "\<exists>q reply. leads env p q \<and> frame c p q \<and> cl_pc (call_at q c) = Returned reply"
  using assms
proof (induction n arbitrary: p rule: less_induct)
  case (less n)
  show ?case
  proof (cases n)
    case 0
    then have "\<exists>reply. cl_pc (call_at p c) = Returned reply" using less.prems(4) by (cases "cl_pc (call_at p c)") simp_all
    then show ?thesis using leads_refl frame_refl by blast
  next
    case (Suc k)
    define p1 where "p1 = (case room_of (cl_pc (call_at p c)) of None \<Rightarrow> p | Some r \<Rightarrow> settle_room r p)"
    have p1: "leads env p p1" "frame c p p1" "pr_calls p1 = pr_calls p" by (simp_all add: p1_def split: option.splits)
    have "below n (rank_at (resume_call env c p1) c)"
    proof (cases "room_of (cl_pc (call_at p c))")
      case None
      then show ?thesis using resume_below [OF less.prems(2,3)] less.prems(4) Suc by (simp add: p1_def)
    next
      case (Some r)
      then have "r < heap_size p" using less.prems(1,2) by (simp add: good_def waits_ok_def)
      then show ?thesis using resume_below_room [of c p1 k r env] settle_room_outcome [of r p] less.prems(2,4) Some Suc p1(3) by (simp add: p1_def)
    qed
    then obtain m where m: "rank_at (resume_call env c p1) c = Some m" "m < n" by (auto simp: below_def split: option.splits)
    let ?q = "resume_call env c p1"
    have l: "leads env p ?q" "frame c p ?q"
      using leads_trans [OF p1(1) leads_resume] less.prems(2) p1(3) frame_trans [OF p1(2) frame_resume] by simp_all
    have "good ?q" "c < length (pr_calls ?q)" using good_leads [OF l(1) less.prems(1)] l(2) less.prems(2) by (simp_all add: frame_def)
    then obtain q reply where "leads env ?q q" "frame c ?q q" "cl_pc (call_at q c) = Returned reply"
      using less.IH [OF m(2) _ _ less.prems(3) m(1)] by blast
    then show ?thesis using leads_trans [OF l(1)] frame_trans [OF l(2)] by blast
  qed
qed

subsection \<open>A call that waits for another one\<close>

lemma held_rank: "held pc \<noteq> None \<Longrightarrow> rank pc \<noteq> None"
  by (cases pc) simp_all

text \<open>The holder of a claim gets to its end, which releases the claim, and nothing is pending for its pool then.\<close>

lemma claim_ends:
  assumes "good p" "calm env" "pr_creating p pool = Some k"
  shows "\<exists>q. leads env p q \<and> pr_claims q ! k \<and> pr_creating q pool = None \<and> pr_numText q = pr_numText p
    \<and> length (pr_calls q) = length (pr_calls p) \<and> (\<forall>i < length (pr_calls p). held_at_call p i = None \<longrightarrow> call_at q i = call_at p i)"
proof -
  have ck: "claims_ok p" using assms(1) by (simp add: good_def process_inv_def)
  obtain h where h: "h < length (pr_calls p)" "held_at_call p h = Some k" "pool_at_call p h = pool"
    using claims_okD(4) [OF ck assms(3)] by auto
  obtain n where "rank_at p h = Some n" using held_rank [of "cl_pc (call_at p h)"] h(2) by auto
  then obtain q reply where q: "leads env p q" "frame h p q" "cl_pc (call_at q h) = Returned reply"
    using solo_ends [OF assms(1) h(1) assms(2)] by blast
  have f: "length (pr_calls q) = length (pr_calls p)" "\<And>i. i \<noteq> h \<Longrightarrow> call_at q i = call_at p i" "pr_numText q = pr_numText p"
    "\<And>i. request_at q i = request_at p i" "length (pr_claims p) \<le> length (pr_claims q)" using q(2) unfolding frame_def by metis+
  have cq: "claims_ok q" using good_leads [OF q(1) assms(1)] by (simp add: good_def process_inv_def)
  have none: "held_at_call q i \<noteq> Some k" "pool_at_call p i = pool \<Longrightarrow> held_at_call q i = None" if "i < length (pr_calls p)" for i
  proof -
    show "held_at_call q i \<noteq> Some k" using q(3) f(2) [of i] claims_okD(6) [OF ck that h(1)] h(2) by (cases "i = h") auto
    show "held_at_call q i = None" if "pool_at_call p i = pool"
      using q(3) f(2) [of i] one_holder [OF ck \<open>i < length (pr_calls p)\<close> h(1)] that h(2,3) by (cases "i = h"; cases "held_at_call p i") auto
  qed
  have "pr_creating q pool = None"
    using claims_okD(4) [OF cq, of pool] none(2) f(1,3,4) by (cases "pr_creating q pool") auto
  moreover have "k < length (pr_claims q)" using claims_okD(2) [OF ck assms(3)] f(5) by simp
  then have "pr_claims q ! k" using claims_okD(4,5) [OF cq] none(1) f(1) by metis
  ultimately show ?thesis using q(1) f(1,3) f(2) h(2) by (metis option.distinct(1))
qed

subsection \<open>The head of a loop\<close>

definition ends :: "Env \<Rightarrow> nat \<Rightarrow> Process \<Rightarrow> bool" where
  "ends env c p = (\<exists>q reply. leads env p q \<and> cl_pc (call_at q c) = Returned reply)"

lemma ends_leads: "leads env p q \<Longrightarrow> ends env c q \<Longrightarrow> ends env c p"
  unfolding ends_def using leads_trans by blast

lemma ends_solo: "good p \<Longrightarrow> c < length (pr_calls p) \<Longrightarrow> calm env \<Longrightarrow> rank_at p c \<noteq> None \<Longrightarrow> ends env c p"
  unfolding ends_def using solo_ends by blast

lemma settle_manager:
  assumes "r < heap_size p" "mr_outcome (mroom (pr_manager p) r) = None"
  shows "pr_manager (settle_room r p) = (pr_manager p)\<lparr>mg_heap := (mg_heap (pr_manager p))[r := (mroom (pr_manager p) r)\<lparr>
      mr_state := (rstate (pr_manager p) r)\<lparr>rm_ready := True, rm_loops := \<not> closing (pr_manager p) r\<rparr>, mr_outcome := Some True\<rparr>],
    mg_announced := mg_announced (pr_manager p) @ [RoomCreated r]\<rparr>"
  using assms by (simp add: settle_room_def mg_ready_def mg_op_def set_room_def Let_def)

lemma settled_unchanged: "mr_outcome (mroom (pr_manager p) r) \<noteq> None \<Longrightarrow> settle_room r p = p"
  by (auto simp: settle_room_def mg_ready_def)

text \<open>A room that a search finds is not closing, so it becomes ready, and it can still be taken.\<close>

lemma found_open:
  assumes "local_look rq p = Some r"
  shows "\<not> closing (pr_manager p) r" "pl_key (request_place rq) = None \<Longrightarrow> hasFreeSeat (rstate (pr_manager p) r)"
  using assms
  by (auto simp: local_look_def findKeyed_def findAvailable_def find_Some_iff isAvailable_def hasFreeSeat_def split: option.splits if_splits)

lemma settle_open:
  assumes "good p" "r < heap_size p" "\<not> closing (pr_manager p) r"
  shows "mr_outcome (mroom (pr_manager (settle_room r p)) r) = Some True" "rm_ready (rstate (pr_manager (settle_room r p)) r)"
    "hasFreeSeat (rstate (pr_manager (settle_room r p)) r) = hasFreeSeat (rstate (pr_manager p) r)"
proof -
  let ?x = "mroom (pr_manager p) r"
  have ok: "outcome_ok ?x" using assms(1,2) by (simp add: good_def waits_ok_def outcomes_ok_def list_all_length)
  have "mr_outcome (mroom (pr_manager (settle_room r p)) r) = Some True \<and> rm_ready (rstate (pr_manager (settle_room r p)) r)
    \<and> hasFreeSeat (rstate (pr_manager (settle_room r p)) r) = hasFreeSeat (rstate (pr_manager p) r)"
  proof (cases "mr_outcome ?x")
    case None
    then show ?thesis using assms(2) by (simp add: settle_manager hasFreeSeat_def getSeatCount_def)
  next
    case (Some b)
    then have "b" "rm_ready (rstate (pr_manager p) r)" using ok assms(3) by (auto simp: outcome_ok_def)
    then show ?thesis using Some settled_unchanged [of p r] by simp
  qed
  then show "mr_outcome (mroom (pr_manager (settle_room r p)) r) = Some True" "rm_ready (rstate (pr_manager (settle_room r p)) r)"
    "hasFreeSeat (rstate (pr_manager (settle_room r p)) r) = hasFreeSeat (rstate (pr_manager p) r)" by blast+
qed

lemma take_not_full:
  assumes "hasFreeSeat (rstate (pr_manager p) r)" "pl_key (request_place rq) = None"
  shows "\<not> isFull (fst (take_now env r rq p))"
  using assms by (auto simp: take_now_def reserve_in_def reserveIn_def isFull_def Let_def case_prod_beta split: Request.splits Take.splits sum.splits)

text \<open>A find-or-create that has found a room takes it.\<close>

lemma found_ends:
  assumes "good p" "c < length (pr_calls p)" "request_at p c = FindOrCreate name opts place tk" "local_look (request_at p c) p = Some r"
    "cl_pc (call_at p c) = AwaitFound r"
  shows "ends env c p"
proof -
  let ?p = "settle_room r p" and ?rq = "request_at p c"
  have r: "r < heap_size p" using assms(1,2,5) by (simp add: good_def waits_ok_def)
  note st = settle_open [OF assms(1) r found_open(1) [OF assms(4)]]
  obtain reply q where t: "take_now env r ?rq ?p = (reply, q)" by fastforce
  have "resume_call env c ?p = set_pc c (AwaitTaken reply) q"
    using assms(3,5) st(1) t by (simp add: resume_call_def resume_found_def)
  then have l: "leads env p (set_pc c (AwaitTaken reply) q)"
    using leads_trans [OF settle_room_fields(6) leads_resume [of c ?p env]] assms(2) by simp
  have q: "pr_calls q = pr_calls p" using take_now_fields(1) [of env r ?rq ?p] t by simp
  let ?q = "set_pc c (AwaitTaken reply) q"
  have "\<not> (isFull reply \<and> pl_key (request_place ?rq) = None)"
    using take_not_full [of ?p r ?rq env] st(3) found_open(2) [OF assms(4)] t by auto
  then have "resume_call env c ?q = finish c None reply ?q" using assms(2) q by (auto simp: resume_call_def)
  then have "cl_pc (call_at (resume_call env c ?q) c) = Returned reply" using assms(2) q by (simp add: finish_None)
  then show ?thesis unfolding ends_def using leads_trans [OF l leads_resume [of c ?q env]] assms(2) q by auto
qed

lemma seatedIn_ready [simp]: "seatedIn k (s\<lparr>rm_ready := a, rm_loops := b\<rparr>) = seatedIn k s"
  by (simp add: seatedIn_def Let_def cong: option.case_cong)

lemma route_find_settled:
  assumes "r < heap_size p" "mr_outcome (mroom (pr_manager p) r) = None"
  shows "route_find name k (settle_room r p) = route_find name k p"
proof -
  let ?m = "pr_manager p" and ?m' = "pr_manager (settle_room r p)"
  let ?Q = "\<lambda>m r. mr_type (mroom m r) = name \<and> isAvailable (rstate m r) \<and> \<not> seatedIn k (rstate m r)"
  have "?Q ?m' = ?Q ?m"
    by (rule ext) (use assms in \<open>simp add: settle_manager nth_list_update isAvailable_def hasFreeSeat_def getSeatCount_def\<close>)
  moreover have "getRooms ?m' = getRooms ?m" using assms by (simp add: settle_manager getRooms_def)
  ultimately show ?thesis by (simp add: route_find_def Let_def)
qed

lemma route_ends:
  assumes "good p" "c < length (pr_calls p)" "calm env" "request_at p c = RouteByType mode name j" "cl_pc (call_at p c) = AwaitFound r"
    "mode = MJoinOrCreate" "pr_creating p name = None" "route_find name (jn_connection j) p = Some r" "\<not> rm_ready (rstate (pr_manager p) r)"
  shows "ends env c p"
proof -
  let ?p = "settle_room r p"
  have r: "r < heap_size p" using assms(1,2,5) by (simp add: good_def waits_ok_def)
  have op: "\<not> closing (pr_manager p) r"
    using assms(8) by (auto simp: route_find_def find_Some_iff isAvailable_def hasFreeSeat_def Let_def split: if_splits)
  have "mr_outcome (mroom (pr_manager p) r) = None"
  proof (rule ccontr)
    assume "mr_outcome (mroom (pr_manager p) r) \<noteq> None"
    then show False using settled_unchanged [of p r] settle_open(2) [OF assms(1) r op] assms(9) by simp
  qed
  then have f: "route_find name (jn_connection j) ?p = Some r" using route_find_settled [OF r] assms(8) by simp
  note st = settle_open [OF assms(1) r op]
  have "resume_call env c ?p = route_seat c r j ?p"
    using assms(4-7) st(1,2) f by (simp add: resume_call_def resume_found_def again_def route_loop_def)
  then have l: "leads env p (route_seat c r j ?p)"
    using leads_trans [OF settle_room_fields(6) leads_resume [of c ?p env]] assms(2) by simp
  have "rank_at (route_seat c r j ?p) c \<noteq> None" using assms(2) by (simp add: route_seat_def split: prod.splits sum.splits)
  then show ?thesis
    using ends_leads [OF l ends_solo [OF good_leads [OF l assms(1)] _ assms(3)]] assms(2) frame_loops(4) [of c ?p r j] by (simp add: frame_def)
qed

text \<open>Where the head of a loop takes a call.\<close>

lemma again_shape:
  assumes "c < length (pr_calls p)"
  shows "rank_at (again c p) c \<noteq> None \<or> (\<exists>k. again c p = set_pc c (AwaitCreation k) p \<and> pr_creating p (pool_at_call p c) = Some k)
    \<or> (\<exists>r. again c p = set_pc c (AwaitFound r) p \<and> pr_creating p (pool_at_call p c) = None
         \<and> ((\<exists>name opts place tk. request_at p c = FindOrCreate name opts place tk \<and> local_look (request_at p c) p = Some r)
            \<or> (\<exists>name j. request_at p c = RouteByType MJoinOrCreate name j \<and> route_find name (jn_connection j) p = Some r
                  \<and> \<not> rm_ready (rstate (pr_manager p) r))))"
proof (cases "request_at p c")
  case (CreateRoom name opts place)
  then show ?thesis using assms by (auto simp: again_def create_loop_def claimCreation_def Let_def split: option.splits)
next
  case (FindOrCreate name opts place tk)
  then show ?thesis using assms by (auto simp: again_def find_loop_def claimCreation_def Let_def split: option.splits if_splits)
next
  case (RouteByType mode name j)
  have "rank_at (route_create claim c p) c \<noteq> None" for claim
    using below_route_create [OF assms RouteByType, of claim] by (auto simp: below_def split: option.splits)
  moreover have "rank_at (route_seat c r j p) c \<noteq> None" for r using assms by (simp add: route_seat_def split: prod.splits sum.splits)
  ultimately show ?thesis using assms RouteByType route_unkeyed [OF RouteByType]
    by (auto simp: again_def route_loop_def claimCreation_def split: option.splits if_splits)
qed

lemma local_look_set_pc [simp]: "local_look rq (set_pc c pc p) = local_look rq p"
  by (simp add: local_look_def split: option.splits)

lemma route_find_set_pc [simp]: "route_find name k (set_pc c pc p) = route_find name k p"
  by (simp add: route_find_def Let_def)

lemma found_again_ends:
  assumes "good (again c p)" "c < length (pr_calls p)" "calm env" "again c p = set_pc c (AwaitFound r) p" "pr_creating p (pool_at_call p c) = None"
    "(\<exists>name opts place tk. request_at p c = FindOrCreate name opts place tk \<and> local_look (request_at p c) p = Some r)
     \<or> (\<exists>name j. request_at p c = RouteByType MJoinOrCreate name j \<and> route_find name (jn_connection j) p = Some r
          \<and> \<not> rm_ready (rstate (pr_manager p) r))"
  shows "ends env c (again c p)"
  using assms(6)
proof
  assume "\<exists>name opts place tk. request_at p c = FindOrCreate name opts place tk \<and> local_look (request_at p c) p = Some r"
  then obtain name opts place tk where "request_at p c = FindOrCreate name opts place tk" "local_look (request_at p c) p = Some r" by blast
  then show ?thesis using found_ends [of "again c p" c name opts place tk r env] assms(1,2,4) by simp
next
  assume "\<exists>name j. request_at p c = RouteByType MJoinOrCreate name j \<and> route_find name (jn_connection j) p = Some r
          \<and> \<not> rm_ready (rstate (pr_manager p) r)"
  then obtain name j where "request_at p c = RouteByType MJoinOrCreate name j" "route_find name (jn_connection j) p = Some r"
    "\<not> rm_ready (rstate (pr_manager p) r)" by blast
  then show ?thesis using route_ends [of "again c p" c env MJoinOrCreate name j r] assms(1-5) route_unkeyed [of p c] by simp
qed

lemma again_ends:
  assumes "good p" "good (again c p)" "c < length (pr_calls p)" "calm env" "held_at_call p c = None"
  shows "ends env c (again c p)"
proof -
  let ?q = "again c p"
  have n: "c < length (pr_calls ?q)" using frame_again [of c p] assms(3) by (simp add: frame_def)
  consider "rank_at ?q c \<noteq> None"
    | k where "?q = set_pc c (AwaitCreation k) p" "pr_creating p (pool_at_call p c) = Some k"
    | r where "?q = set_pc c (AwaitFound r) p" "pr_creating p (pool_at_call p c) = None"
        "(\<exists>name opts place tk. request_at p c = FindOrCreate name opts place tk \<and> local_look (request_at p c) p = Some r)
         \<or> (\<exists>name j. request_at p c = RouteByType MJoinOrCreate name j \<and> route_find name (jn_connection j) p = Some r
              \<and> \<not> rm_ready (rstate (pr_manager p) r))"
    using again_shape [OF assms(3)] by blast
  then show ?thesis
  proof cases
    case 1
    then show ?thesis by (rule ends_solo [OF assms(2) n assms(4)])
  next
    case 2
    have "pr_creating ?q (pool_at_call p c) = Some k" using 2 by simp
    then obtain q where q: "leads env ?q q" "pr_claims q ! k" "pr_creating q (pool_at_call p c) = None" "pr_numText q = pr_numText ?q"
      "length (pr_calls q) = length (pr_calls ?q)" "\<forall>i < length (pr_calls ?q). held_at_call ?q i = None \<longrightarrow> call_at q i = call_at ?q i"
      using claim_ends [OF assms(2,4)] by blast
    have c: "call_at q c = call_at ?q c" "cl_pc (call_at q c) = AwaitCreation k" "request_at q c = request_at p c" "c < length (pr_calls q)"
      using q(5,6) n 2(1) assms(3) by auto
    have r: "resume_call env c q = again c q" using c(2) q(2) by (simp add: resume_call_def)
    then have l: "leads env q (again c q)" using leads_resume [OF c(4), of env] by simp
    have pool: "pr_creating q (pool_at_call q c) = None" using q(3,4) c(3) 2(1) by simp
    have g: "good (again c q)" using good_leads [OF leads_trans [OF q(1) l] assms(2)] .
    have n': "c < length (pr_calls (again c q))" using frame_again [of c q] c(4) by (simp add: frame_def)
    have "ends env c (again c q)"
      using again_shape [OF c(4)] pool ends_solo [OF g n' assms(4)] found_again_ends [OF g c(4) assms(4) _ pool] by fastforce
    then show ?thesis by (rule ends_leads [OF leads_trans [OF q(1) l]])
  next
    case 3
    then show ?thesis using found_again_ends [OF assms(2-4)] by blast
  qed
qed

subsection \<open>Every call\<close>

lemma resumed_again_ends:
  assumes "good p" "c < length (pr_calls p)" "calm env" "held_at_call p c = None" "resume_call env c p = again c p"
  shows "ends env c p"
proof -
  have l: "leads env p (again c p)" using leads_resume [OF assms(2), of env] assms(5) by simp
  show ?thesis by (rule ends_leads [OF l again_ends [OF assms(1) good_leads [OF l assms(1)] assms(2,3,4)]])
qed

lemma taken_ends:
  assumes "good p" "c < length (pr_calls p)" "calm env" "cl_pc (call_at p c) = AwaitTaken reply"
  shows "ends env c p"
proof (cases "isFull reply \<and> pl_key (request_place (request_at p c)) = None")
  case True
  then show ?thesis using resumed_again_ends [OF assms(1-3)] assms(4) by (simp add: resume_call_def)
next
  case False
  then have "cl_pc (call_at (resume_call env c p) c) = Returned reply" using assms(2,4) by (auto simp: resume_call_def finish_None)
  then show ?thesis unfolding ends_def using leads_resume [OF assms(2), of env] by blast
qed

lemma call_ends:
  assumes "good p" "c < length (pr_calls p)" "calm env"
  shows "ends env c p"
proof (cases "cl_pc (call_at p c)")
  case (AwaitCreation k)
  show ?thesis
  proof (cases "pr_claims p ! k")
    case True
    then show ?thesis using resumed_again_ends [OF assms] AwaitCreation by (simp add: resume_call_def)
  next
    case False
    have ck: "claims_ok p" using assms(1) by (simp add: good_def process_inv_def)
    have "\<exists>pool. pr_creating p pool = Some k" using claims_okD(5) [OF ck claims_okD(7) [OF ck assms(2) AwaitCreation] False] .
    then obtain q where q: "leads env p q" "pr_claims q ! k" "length (pr_calls q) = length (pr_calls p)"
      "\<forall>i < length (pr_calls p). held_at_call p i = None \<longrightarrow> call_at q i = call_at p i"
      using claim_ends [OF assms(1,3)] by blast
    have c: "cl_pc (call_at q c) = AwaitCreation k" using q(4) assms(2) AwaitCreation by simp
    then have "ends env c q"
      using resumed_again_ends [OF good_leads [OF q(1) assms(1)] _ assms(3)] q(2,3) assms(2) by (simp add: resume_call_def)
    then show ?thesis by (rule ends_leads [OF q(1)])
  qed
next
  case (AwaitFound r)
  let ?p = "settle_room r p"
  have "r < heap_size p" using assms(1,2) AwaitFound by (simp add: good_def waits_ok_def)
  then obtain b where b: "mr_outcome (mroom (pr_manager ?p) r) = Some b" using settle_room_outcome by blast
  have g: "good ?p" using good_leads [OF settle_room_fields(6) assms(1)] .
  have n: "c < length (pr_calls ?p)" "held_at_call ?p c = None" using assms(2) AwaitFound by simp_all
  have "ends env c ?p"
  proof (cases "b \<and> (\<exists>name opts place tk. request_at p c = FindOrCreate name opts place tk)")
    case True
    obtain reply q where t: "take_now env r (request_at p c) ?p = (reply, q)" by fastforce
    have e: "resume_call env c ?p = set_pc c (AwaitTaken reply) q" using True AwaitFound b t by (auto simp: resume_call_def resume_found_def)
    have q: "pr_calls q = pr_calls p" using take_now_fields(1) [of env r "request_at p c" ?p] t by simp
    have l: "leads env ?p (set_pc c (AwaitTaken reply) q)" using leads_resume [OF n(1), of env] e by simp
    have "ends env c (set_pc c (AwaitTaken reply) q)"
      using taken_ends [OF good_leads [OF l g] _ assms(3)] assms(2) q by simp
    then show ?thesis by (rule ends_leads [OF l])
  next
    case False
    then have "resume_call env c ?p = again c ?p"
      using AwaitFound b by (auto simp: resume_call_def resume_found_def again_def split: Request.splits)
    then show ?thesis by (rule resumed_again_ends [OF g n(1) assms(3) n(2)])
  qed
  then show ?thesis by (rule ends_leads [OF settle_room_fields(6)])
next
  case (AwaitTaken reply)
  then show ?thesis by (rule taken_ends [OF assms])
qed (use ends_solo [OF assms] in simp_all)

interpretation progress: machine process_legal process_step good
  by unfold_locales (use process_step_inv waits_step in \<open>auto simp: good_def process_inv_def\<close>)

lemma good_new: "good (new_process i num_text out)"
  using process_inv_new [of i num_text out] by (simp add: good_def waits_ok_def new_process_def new_manager_def outcomes_ok_def)

end
