(* ===== verification/Pools.thy ===== *)
theory Pools
  imports Matchmaker "HOL-Library.Multiset"
begin

text \<open>
  The names of creation pools: entries of \<open>where\<close> in any order name the same pool, and pools of
  different room types or keys have different names, since JSON text can be read back.
\<close>

section \<open>Order\<close>

lemma insert_entry_commute:
  assumes "fst p \<noteq> fst q"
  shows "insert_entry p (insert_entry q xs) = insert_entry q (insert_entry p xs)"
proof -
  have t: "ord_class.lexordp a b \<or> ord_class.lexordp b a" if "a \<noteq> b" for a b :: jsstring
    using that lexordp_linear by blast
  have n: "\<not> (ord_class.lexordp a b \<and> ord_class.lexordp b a)" for a b :: jsstring
    using lexordp_antisym by blast
  have tr: "ord_class.lexordp a b \<Longrightarrow> ord_class.lexordp b c \<Longrightarrow> ord_class.lexordp a c" for a b c :: jsstring
    by (rule lexordp_trans)
  show ?thesis
  proof (induction xs)
    case Nil
    show ?case using assms t [of "fst p" "fst q"] n [of "fst p" "fst q"] by auto
  next
    case (Cons x xs)
    show ?case using Cons.IH assms t [of "fst p" "fst q"] n [of "fst p" "fst q"] tr [of "fst x" "fst p" "fst q"] tr [of "fst x" "fst q" "fst p"]
        tr [of "fst p" "fst q" "fst x"] tr [of "fst q" "fst p" "fst x"] by auto
  qed
qed

lemma sort_entries_mset:
  assumes "mset w = mset w'" "distinct (map fst w)"
  shows "sort_entries w = sort_entries w'"
proof -
  have "fold insert_entry (rev w) = fold insert_entry (rev w')"
  proof (rule fold_multiset_equiv)
    fix p q
    assume "p \<in> set (rev w)" "q \<in> set (rev w)"
    then have "p = q \<or> fst p \<noteq> fst q" using assms(2) by (auto simp: distinct_map inj_on_def)
    then show "insert_entry p \<circ> insert_entry q = insert_entry q \<circ> insert_entry p" using insert_entry_commute [of p q] by (auto simp: fun_eq_iff)
  qed (use assms(1) in simp)
  then show ?thesis by (simp add: sort_entries_def foldr_conv_fold)
qed

section \<open>Reading a JSON string\<close>

definition hex_value :: "code_unit \<Rightarrow> nat" where
  "hex_value d = (if unat d < 0x3A then unat d - 0x30 else unat d - 0x57)"

definition hex_unit :: "code_unit \<Rightarrow> code_unit \<Rightarrow> code_unit \<Rightarrow> code_unit \<Rightarrow> code_unit" where
  "hex_unit h1 h2 h3 h4 = word_of_nat (((hex_value h1 * 16 + hex_value h2) * 16 + hex_value h3) * 16 + hex_value h4)"

definition unescape :: "code_unit \<Rightarrow> code_unit" where
  "unescape c = (if c = 0x62 then 0x08 else if c = 0x74 then 0x09 else if c = 0x6E then 0x0A else if c = 0x66 then 0x0C
     else if c = 0x72 then 0x0D else c)"

text \<open>The string up to its closing quote, and what comes after.\<close>

fun json_read :: "jsstring \<Rightarrow> (jsstring \<times> jsstring) option" where
  "json_read [] = None"
| "json_read (c # cs) =
     (if c = 0x22 then Some ([], cs)
      else if c \<noteq> 0x5C then map_option (apfst ((#) c)) (json_read cs)
      else case cs of
             [] \<Rightarrow> None
           | e # cs' \<Rightarrow>
               if e \<noteq> 0x75 then map_option (apfst ((#) (unescape e))) (json_read cs')
               else case cs' of
                      h1 # h2 # h3 # h4 # cs'' \<Rightarrow>
                        map_option (apfst ((#) (hex_unit h1 h2 h3 h4))) (json_read cs'')
                    | _ \<Rightarrow> None)"

lemma hex_value_digit: "n < 16 \<Longrightarrow> hex_value (hex_digit n) = n"
  by (simp add: hex_value_def hex_digit_def unsigned_of_nat take_bit_nat_eq_self)

lemma hex_nibbles: "((n div 4096 * 16 + n div 256 mod 16) * 16 + n div 16 mod 16) * 16 + n mod 16 = (n :: nat)"
proof -
  have d: "n div 4096 = n div 256 div 16" "n div 256 = n div 16 div 16" by (simp_all add: div_mult2_eq [symmetric])
  have "n div 4096 * 16 + n div 256 mod 16 = n div 256" unfolding d(1) by (rule div_mult_mod_eq)
  moreover have "n div 256 * 16 + n div 16 mod 16 = n div 16" unfolding d(2) by (rule div_mult_mod_eq)
  moreover have "n div 16 * 16 + n mod 16 = n" by (rule div_mult_mod_eq)
  ultimately show ?thesis by presburger
qed

lemma json_read_unicode: "json_read (json_unicode c @ x) = map_option (apfst ((#) c)) (json_read x)"
proof -
  let ?n = "unat c"
  have n: "?n < 65536" using unsigned_less [of c] by simp
  then have "?n div 4096 < 16" by simp
  then have "hex_unit (hex_digit (?n div 4096)) (hex_digit (?n div 256 mod 16)) (hex_digit (?n div 16 mod 16)) (hex_digit (?n mod 16)) = c"
    unfolding hex_unit_def using hex_nibbles [of ?n] by (simp add: hex_value_digit del: of_nat_add of_nat_mult)
  then show ?thesis by (simp add: json_unicode_def Let_def)
qed

lemma json_read_unit: "json_read (json_unit c @ x) = map_option (apfst ((#) c)) (json_read x)"
  by (simp add: json_unit_def json_read_unicode unescape_def del: json_read.simps) (simp add: unescape_def)

lemma surrogate_plain: "is_high c \<or> is_low c \<Longrightarrow> c \<noteq> 0x22 \<and> c \<noteq> 0x5C"
  by (auto simp: is_high_def is_low_def)

lemma json_read_units: "json_read (json_units s @ 0x22 # x) = Some (s, x)"
proof (induction s rule: json_units.induct)
  case (3 c d cs)
  show ?case
  proof (cases "is_high c \<and> is_low d")
    case True
    then show ?thesis using 3(1) surrogate_plain [of c] surrogate_plain [of d] by simp
  next
    case False
    then show ?thesis using 3(2) json_read_unit [of c "json_units (d # cs) @ 0x22 # x"] by (auto simp del: json_read.simps)
  qed
qed (simp_all add: json_read_unit del: json_read.simps(2), simp_all)

lemma json_string_inj:
  assumes "json_string s @ x = json_string t @ y"
  shows "s = t \<and> x = y"
proof -
  have "json_units s @ 0x22 # x = json_units t @ 0x22 # y" using assms by (simp add: json_string_def)
  then have "Some (s, x) = Some (t, y)" using json_read_units [of s x] json_read_units [of t y] by argo
  then show ?thesis by simp
qed

text \<open>
  Entries in any order name the same pool, so equal placements wait for each other wherever
  they are; different keys, and equal keys of different room types, name different pools.
\<close>

lemma pools_named_apart:
  assumes "distinct (map fst w)" "mset w = mset w'"
  shows "poolOf num_text t None (Some w) = poolOf num_text t None (Some w')
    \<and> (poolOf num_text t (Some k) u = poolOf num_text t' (Some k') u' \<longleftrightarrow> t = t' \<and> k = k')
    \<and> poolOf num_text t (Some k) u \<noteq> poolOf num_text t' None (Some w)"
proof -
  have key: "js ''key'' \<noteq> js ''where''" by (simp add: js_def)
  have "t = t' \<and> k = k'" if e: "poolOf num_text t (Some k) u = poolOf num_text t' (Some k') u'" for t t' k k' u u'
  proof -
    have "json_string t @ 0x2C # json_string (js ''key'') @ 0x2C # json_string k @ [0x5D]
        = json_string t' @ 0x2C # json_string (js ''key'') @ 0x2C # json_string k' @ [0x5D]"
      using e by (simp add: poolOf_def json_array_def)
    from json_string_inj [OF this] have "t = t'" "json_string k @ [0x5D] = json_string k' @ [0x5D]" by simp_all
    then show ?thesis using json_string_inj [of k "[0x5D]" k' "[0x5D]"] by simp
  qed
  moreover have "poolOf num_text t (Some k) u \<noteq> poolOf num_text t' None (Some w)" for t t' k u w
  proof
    assume e: "poolOf num_text t (Some k) u = poolOf num_text t' None (Some w)"
    let ?ws = "json_array (map (\<lambda>(k, v). json_array [json_string k, json_meta num_text v]) (sort_entries w))"
    have "json_string t @ 0x2C # json_string (js ''key'') @ 0x2C # json_string k @ [0x5D]
        = json_string t' @ 0x2C # json_string (js ''where'') @ 0x2C # ?ws @ [0x5D]"
      using e by (simp add: poolOf_def json_array_def [of "[_, _, _]"])
    from json_string_inj [OF this]
    have "json_string (js ''key'') @ 0x2C # json_string k @ [0x5D] = json_string (js ''where'') @ 0x2C # ?ws @ [0x5D]" by simp
    from json_string_inj [OF this] key show False by blast
  qed
  moreover have "poolOf num_text t (Some k) u = poolOf num_text t (Some k) u'" by (simp add: poolOf_def)
  moreover have "poolOf num_text t None (Some w) = poolOf num_text t None (Some w')"
    unfolding poolOf_def using sort_entries_mset [OF assms(2,1)] by simp
  ultimately show ?thesis by blast
qed

end
