(* ===== verification/MatchProperties.thy ===== *)
theory MatchProperties
  imports Progress Pools
begin

text \<open>
  What holds of finding and creating rooms: a key names one open room of a process, every call can
  get to its end, a room made for a placement is found by the next call with that placement, and
  options are read alike wherever a room is.
\<close>

section \<open>A room is found by what it was made for\<close>












section \<open>Examples\<close>

definition x_type :: RoomTypeDef where
  "x_type = \<lparr>rt_name = js ''arena'', rt_ctor = 0,
     rt_options = \<lparr>ro_maxClients = num_of_int 2, ro_autoDispose = True, ro_allowReconnection = True, ro_reconnectionTimeout = 30,
       ro_private = False, ro_locked = False, ro_metadata = [], ro_reservationTimeout = 60\<rparr>,
     rt_contractHash = [], rt_clientNames = [], rt_serverNames = [], rt_createOptions = None, rt_joinOptions = None\<rparr>"

definition x_env :: "string \<Rightarrow> Env" where
  "x_env i = \<lparr>env_found = None, env_refused = None, env_processes = [],
     env_seed = \<lparr>sd_id = js i, sd_codec = [], sd_clients = (\<lambda>c. (js ''s'', ByCreate)), sd_remote = (\<lambda>k. False)\<rparr>,
     env_reservation = js ''v'', env_session = js ''s'', env_now = 0\<rparr>"

definition x_place :: Place where
  "x_place = \<lparr>pl_selector = None, pl_where = None, pl_key = Some (js ''k'')\<rparr>"

definition x_new :: Process where
  "x_new = new_process (js ''A'') (\<lambda>q. []) \<lparr>wbytes = [0], wlength = 0\<rparr>"

definition x_find :: Request where
  "x_find = FindOrCreate (js ''arena'') (OVal JUndef) x_place TakeRoom"

text \<open>Two calls for the room with a key, one after the other; the first has its room created.\<close>

definition x_run :: "ProcessEvent list" where
  "x_run = [Register x_type, Begin (x_env ''r1'') x_find, Begin (x_env ''r2'') x_find, Resume (x_env ''r1'') 0, Resume (x_env ''r1'') 0]"

lemma x_look: "map cl_pc (pr_calls (process_run x_run x_new)) = [AwaitReady (Some 0) 0, AwaitCreation 0]"
  by code_simp

text \<open>A step that needs no leave.\<close>

fun free_event :: "ProcessEvent \<Rightarrow> bool" where
  "free_event (Peer env name opts placement) = (rp_key placement = None)"
| "free_event (OfRoom r e) = (e \<noteq> EReady)"
| "free_event e = True"

lemma free_legal: "free_event e \<Longrightarrow> process_legal p e"
  by (cases e) simp_all

lemma free_run:
  "reach process_legal process_step p0 p \<Longrightarrow> list_all free_event es \<Longrightarrow> reach process_legal process_step p0 (process_run es p)"
  by (induction es arbitrary: p) (simp_all add: reach.event free_legal)

lemma x_reach: "reach process_legal process_step (new_process (js ''A'') (\<lambda>q. []) \<lparr>wbytes = [0], wlength = 0\<rparr>) (process_run x_run x_new)"
  using free_run [OF reach.start, of x_run] by (simp add: x_run_def x_new_def)



section \<open>One room for a key\<close>



section \<open>No call waits for ever\<close>

text \<open>C5: from every state a process gets to, every call can still get to its end, by steps in which
  calls go on, other processes have no room and refuse nothing, and rooms being created become
  ready: no call is left waiting for a creation that nobody ends, and no search goes round for ever.
\<close>

theorem every_call_can_end:
  assumes "reach process_legal process_step (new_process i num_text out) p" "c < length (pr_calls p)" "calm env"
  shows "\<exists>es reply. list_all (benign env) es \<and> cl_pc (call_at (process_run es p) c) = Returned reply"
  using call_ends [OF progress.inv_reach [OF assms(1) good_new] assms(2,3)] unfolding ends_def leads_def by blast

theorem every_call_can_end_witness:
  "\<exists>es reply. list_all (benign (x_env ''r'')) es \<and> cl_pc (call_at (process_run es (process_run x_run x_new)) 1) = Returned reply"
proof (rule every_call_can_end [OF x_reach])
  have "length (map cl_pc (pr_calls (process_run x_run x_new))) = 2" unfolding x_look by simp
  then show "1 < length (pr_calls (process_run x_run x_new))" by simp
  show "calm (x_env ''r'')" by (simp add: calm_def x_env_def)
qed

section \<open>What the model shows of the code\<close>

text \<open>
  A call that waits for its cluster-wide lock has already looked here. If the lock's holder, on
  another process, has the room made on this one meanwhile, the call does not see it: after the
  grant it asks the other processes only, and makes a second room with the key.
\<close>

lemma peer_room_doubled:
  "let p = process_run [Register x_type, Clustered True, Begin (x_env ''r1'') x_find,
       Peer (x_env ''r2'') (js ''arena'') (OVal JUndef) \<lparr>rp_key = Some (js ''k''), rp_where = None\<rparr>,
       Resume (x_env ''r1'') 0, Resume (x_env ''r1'') 0] x_new;
     m = pr_manager p
   in getRooms m = [0, 1] \<and> list_all (\<lambda>r. mr_type (mroom m r) = js ''arena'' \<and> mr_key (mroom m r) = Some (js ''k'') \<and> \<not> closing m r) [0, 1]"
  by code_simp

text \<open>\<open>createRoom\<close> looks here once it has the lock, and sees that room.\<close>

lemma create_sees_peer_room:
  "map cl_pc (pr_calls (process_run [Register x_type, Clustered True, Begin (x_env ''r1'') (CreateRoom (js ''arena'') (OVal JUndef) x_place),
       Peer (x_env ''r2'') (js ''arena'') (OVal JUndef) \<lparr>rp_key = Some (js ''k''), rp_where = None\<rparr>,
       Resume (x_env ''r1'') 0, Resume (x_env ''r1'') 0] x_new)) = [Returned (Err ROOM_EXISTS)]"
  by code_simp

text \<open>A selector that picks nothing is an error in a cluster, and rejects the call outside one.\<close>

lemma pick_nothing: "runSelector (\<lambda>ps. Picks None) ps = Inl INVALID_OPTIONS" "selectLocal (Some (\<lambda>ps. Picks None)) here = None"
  by (simp_all add: runSelector_def selectLocal_def)

text \<open>\<open>query\<close> with a limit of at least one lists so many rooms that every filter accepts; a limit of zero lists one.\<close>

lemma query_loop_take:
  assumes "length out < n"
  shows "query_loop filters (Some (num_of_int (int n))) xs out = out @ take (n - length out) (filter (\<lambda>x. list_all (\<lambda>f. f x) filters) xs)"
  using assms
proof (induction xs arbitrary: out)
  case (Cons x xs)
  have ex: "list_ex (\<lambda>f. \<not> f x) filters \<longleftrightarrow> \<not> list_all (\<lambda>f. f x) filters" by (simp add: list_all_iff list_ex_iff)
  have le: "num_le (num_of_int (int n)) (num_of_int (int k)) \<longleftrightarrow> n \<le> k" for k by simp
  show ?case
  proof (cases "list_all (\<lambda>f. f x) filters")
    case True
    show ?thesis
    proof (cases "n \<le> Suc (length out)")
      case True
      then have "n - length out = Suc 0" using Cons.prems by simp
      then show ?thesis using True \<open>list_all (\<lambda>f. f x) filters\<close> ex le [of "Suc (length out)"] by (simp add: Let_def)
    next
      case False
      then have "n - length out = Suc (n - Suc (length out))" by simp
      then show ?thesis using False \<open>list_all (\<lambda>f. f x) filters\<close> ex le [of "Suc (length out)"] Cons.IH [of "out @ [x]"] by (simp add: Let_def)
    qed
  next
    case False
    then show ?thesis using ex Cons by simp
  qed
qed simp

lemma query_loop_all: "query_loop filters None xs out = out @ filter (\<lambda>x. list_all (\<lambda>f. f x) filters) xs"
  by (induction xs arbitrary: out) (auto simp: Let_def list_all_iff list_ex_iff)

lemma query_limit_zero: "query_loop [] (Some (num_of_int 0)) [x, y] [] = [x]"
  by simp

end
