(* ===== verification/Layout.thy ===== *)
theory Layout
  imports Pools
begin

text \<open>
  Layout strings and hashes of contracts (\<open>types/layout.ts\<close>): what client and server compare
  before a join is read. A layout does not depend on the order of the contract's messages, and
  where message names are identifiers it can be read back, so that contracts with equal layouts
  declare the same messages. The name of a message is only checked to be a non-empty string, and
  is not escaped: a contract with an unusual name can have the layout of another.
\<close>

section \<open>Layout strings\<close>

text \<open>\<open>JSON.stringify\<close> of an enum value, a string or a finite number; \<open>num_text\<close> is the text of a number.\<close>

fun enum_text :: "(rat \<Rightarrow> jsstring) \<Rightarrow> jsval \<Rightarrow> jsstring" where
  "enum_text num_text (JStr s) = json_string s"
| "enum_text num_text (JNum (JFin q)) = num_text q"
| "enum_text num_text (JNum JNegZero) = num_text 0"
| "enum_text num_text _ = js ''null''"

text \<open>\<open>parts.join(sep)\<close>, for a separator of one unit.\<close>

fun join :: "code_unit \<Rightarrow> jsstring list \<Rightarrow> jsstring" where
  "join sep [] = []"
| "join sep [x] = x"
| "join sep (x # y # xs) = x @ sep # join sep (y # xs)"

function (sequential) fieldLayout :: "(rat \<Rightarrow> jsstring) \<Rightarrow> field \<Rightarrow> jsstring"
  and messageLayout :: "(rat \<Rightarrow> jsstring) \<Rightarrow> messagedef \<Rightarrow> jsstring" where
  "fieldLayout num_text (FScalar kind) = kind"
| "fieldLayout num_text (FFixed d) = js ''fixed:'' @ num_text (of_nat d)"
| "fieldLayout num_text (FEnum vs) = js ''enum['' @ join 0x7C (map (enum_text num_text) vs) @ js '']''"
| "fieldLayout num_text (FArray f) = js ''array<'' @ fieldLayout num_text f @ js ''>''"
| "fieldLayout num_text (FMap f) = js ''map<'' @ fieldLayout num_text f @ js ''>''"
| "fieldLayout num_text (FOptional f) = js ''optional<'' @ fieldLayout num_text f @ js ''>''"
| "fieldLayout num_text (FNested m) = js ''nested<'' @ messageLayout num_text m @ js ''>''"
| "messageLayout num_text (MessageDef i name fs) =
     name @ js ''('' @ join 0x2C (map (\<lambda>p. fst p @ js '':'' @ fieldLayout num_text (snd p)) fs) @ js '')''"
  by pat_completeness auto
termination
proof (relation "measure (\<lambda>x. case x of Inl (_, f) \<Rightarrow> size f | Inr (_, m) \<Rightarrow> size m)", goal_cases)
  case (6 num_text i name fs p)
  then have "(fst p, snd p) \<in> set fs" by simp
  from size_field_mem [OF this] show ?case by simp
qed auto

text \<open>Sorting by code units; equal layouts are equal strings.\<close>

fun insert_layout :: "jsstring \<Rightarrow> jsstring list \<Rightarrow> jsstring list" where
  "insert_layout x [] = [x]"
| "insert_layout x (y # ys) = (if ord_class.lexordp y x then y # insert_layout x ys else x # y # ys)"

definition sort_layouts :: "jsstring list \<Rightarrow> jsstring list" where
  "sort_layouts xs = foldr insert_layout xs []"

definition mapLayout :: "(rat \<Rightarrow> jsstring) \<Rightarrow> (jsstring \<times> messagedef) list \<Rightarrow> jsstring" where
  "mapLayout num_text m = join 0x3B (sort_layouts (map (messageLayout num_text \<circ> snd) m))"

definition OPTION_KINDS :: "(jsstring \<times> option_kind) list" where
  "OPTION_KINDS = [(js ''create'', KCreate), (js ''join'', KJoin)]"

definition option_parts :: "(rat \<Rightarrow> jsstring) \<Rightarrow> Contract \<Rightarrow> jsstring list" where
  "option_parts num_text c =
     concat (map (\<lambda>(kind, k).
       case Option.bind (options c) (\<lambda>opts. option_of opts k) of
         None \<Rightarrow> []
       | Some def \<Rightarrow> [kind @ js '':'' @ messageLayout num_text def]) OPTION_KINDS)"

definition contractLayout :: "(rat \<Rightarrow> jsstring) \<Rightarrow> Contract \<Rightarrow> jsstring" where
  "contractLayout num_text c =
     (let messages = js ''client{'' @ mapLayout num_text (client c) @ js ''}server{'' @ mapLayout num_text (server c) @ js ''}'';
          parts = option_parts num_text c
      in if parts = [] then messages else messages @ js ''options{'' @ join 0x3B parts @ js ''}'')"

section \<open>The hash\<close>

definition fnv_step :: "32 word \<Rightarrow> byte \<Rightarrow> 32 word" where
  "fnv_step hash b = (hash XOR ucast b) * 0x01000193"

definition hex8 :: "32 word \<Rightarrow> jsstring" where
  "hex8 hash = map (\<lambda>k. hex_digit (unat hash div 16 ^ k mod 16)) [7, 6, 5, 4, 3, 2, 1, 0]"

definition fnv1a32 :: "jsstring \<Rightarrow> jsstring" where
  "fnv1a32 text = hex8 (foldl fnv_step 0x811c9dc5 (utf8_encode text))"

definition contractHash :: "(rat \<Rightarrow> jsstring) \<Rightarrow> Contract \<Rightarrow> jsstring" where
  "contractHash num_text c = fnv1a32 (contractLayout num_text c)"

section \<open>Order\<close>

lemma insert_layout_commute: "insert_layout x (insert_layout y zs) = insert_layout y (insert_layout x zs)"
proof (cases "x = y")
  case False
  have n: "\<not> (ord_class.lexordp a b \<and> ord_class.lexordp b a)" for a b :: jsstring
    using lexordp_antisym by blast
  have tr: "ord_class.lexordp a b \<Longrightarrow> ord_class.lexordp b c \<Longrightarrow> ord_class.lexordp a c" for a b c :: jsstring
    by (rule lexordp_trans)
  have t: "ord_class.lexordp x y \<or> ord_class.lexordp y x" using False lexordp_linear by blast
  show ?thesis
  proof (induction zs)
    case Nil
    show ?case using t n [of x y] by auto
  next
    case (Cons z zs)
    show ?case using Cons.IH t n [of x y] tr [of z x y] tr [of z y x] tr [of x y z] tr [of y x z] by auto
  qed
qed simp

lemma sort_layouts_mset: "mset xs = mset ys \<Longrightarrow> sort_layouts xs = sort_layouts ys"
  using fold_multiset_equiv [of "rev xs" insert_layout "rev ys"]
  by (simp add: sort_layouts_def foldr_conv_fold fun_eq_iff insert_layout_commute)

lemma mset_insert_layout [simp]: "mset (insert_layout x xs) = add_mset x (mset xs)"
  by (induction xs) auto

lemma mset_sort_layouts [simp]: "mset (sort_layouts xs) = mset xs"
  by (induction xs) (simp_all add: sort_layouts_def)

lemma sort_layouts_map: "\<exists>ys. sort_layouts (map f xs) = map f ys \<and> mset ys = mset xs"
proof (induction xs)
  case (Cons x xs)
  then obtain ys where ys: "sort_layouts (map f xs) = map f ys" "mset ys = mset xs" by blast
  have "\<exists>zs. insert_layout (f x) (map f ys) = map f zs \<and> mset zs = add_mset x (mset ys)"
  proof (induction ys)
    case (Cons y ys)
    then obtain zs where "insert_layout (f x) (map f ys) = map f zs" "mset zs = add_mset x (mset ys)" by blast
    then show ?case by (auto intro: exI [of _ "y # zs"] exI [of _ "x # y # ys"])
  qed (auto intro: exI [of _ "[x]"])
  with ys show ?case by (simp add: sort_layouts_def)
qed (simp add: sort_layouts_def)

section \<open>What a layout says\<close>

text \<open>A declaration without the identities of its objects; the two zeros are one enum value.\<close>

primrec bare_field :: "field \<Rightarrow> field" and bare :: "messagedef \<Rightarrow> messagedef" where
  "bare_field (FScalar k) = FScalar k"
| "bare_field (FFixed d) = FFixed d"
| "bare_field (FEnum vs) = FEnum (map enum_key vs)"
| "bare_field (FArray f) = FArray (bare_field f)"
| "bare_field (FMap f) = FMap (bare_field f)"
| "bare_field (FOptional f) = FOptional (bare_field f)"
| "bare_field (FNested m) = FNested (bare m)"
| "bare (MessageDef i n fs) = MessageDef 0 n (map (map_prod id bare_field) fs)"

text \<open>Declarations as the definition-time checks want them, with identifiers for message names too.\<close>

definition known_kinds :: "jsstring list" where
  "known_kinds = scalar_kinds @ map int_kind_name int_kinds"

primrec plain_field :: "field \<Rightarrow> bool" and plain :: "messagedef \<Rightarrow> bool" where
  "plain_field (FScalar k) = (k \<in> set known_kinds)"
| "plain_field (FFixed d) = (d \<le> 9)"
| "plain_field (FEnum vs) = list_all enum_value_ok vs"
| "plain_field (FArray f) = plain_field f"
| "plain_field (FMap f) = plain_field f"
| "plain_field (FOptional f) = plain_field f"
| "plain_field (FNested m) = plain m"
| "plain (MessageDef i n fs) = (IDENTIFIER n \<and> list_all (\<lambda>(n, ok). IDENTIFIER n \<and> ok) (map (map_prod id plain_field) fs))"

definition declared :: "Contract \<Rightarrow> (jsstring \<times> messagedef) list" where
  "declared c =
     concat (map (\<lambda>(kind, k). case Option.bind (options c) (\<lambda>opts. option_of opts k) of None \<Rightarrow> [] | Some def \<Rightarrow> [(kind, def)])
       OPTION_KINDS)"

definition plain_contract :: "Contract \<Rightarrow> bool" where
  "plain_contract c = list_all (\<lambda>(n, m). plain m) (client c @ server c @ declared c)"

text \<open>What the text of a number is made of, and that different numbers have different texts.\<close>

definition number_unit :: "code_unit \<Rightarrow> bool" where
  "number_unit c = (is_digit c \<or> c \<in> {0x2B, 0x2D, 0x2E, 0x65})"

definition number_texts :: "(rat \<Rightarrow> jsstring) \<Rightarrow> bool" where
  "number_texts num_text = (inj num_text \<and> (\<forall>q. num_text q \<noteq> [] \<and> list_all number_unit (num_text q)))"

section \<open>Reading a layout\<close>

lemma split_where:
  assumes "a @ x = b @ y" "\<forall>c \<in> set a \<union> set b. P c" "x = [] \<or> \<not> P (hd x)" "y = [] \<or> \<not> P (hd y)"
  shows "a = b \<and> x = y"
proof -
  have w: "takeWhile P (u @ v) = u" if "\<forall>c \<in> set u. P c" "v = [] \<or> \<not> P (hd v)" for u v
    using that by (cases v) auto
  have "a = b" using w [of a x] w [of b y] assms by auto
  with assms(1) show ?thesis by simp
qed

lemma join_more: "join sep (x # xs) = x @ concat (map ((#) sep) xs)"
  by (induction xs arbitrary: x) auto

lemma more_reads:
  assumes "\<And>x y r r'. x \<in> set xs \<Longrightarrow> y \<in> set ys \<Longrightarrow> r \<noteq> [] \<Longrightarrow> hd r \<in> {sep, stop} \<Longrightarrow> r' \<noteq> [] \<Longrightarrow> hd r' \<in> {sep, stop} \<Longrightarrow>
      T x @ r = T y @ r' \<Longrightarrow> K x = K y \<and> r = r'"
    and "sep \<noteq> stop" "concat (map ((#) sep) (map T xs)) @ stop # r = concat (map ((#) sep) (map T ys)) @ stop # r'"
  shows "map K xs = map K ys \<and> r = r'"
  using assms
proof (induction xs arbitrary: ys)
  case Nil
  then show ?case by (cases ys) auto
next
  case (Cons x xs)
  then obtain y zs where ys: "ys = y # zs" by (cases ys) auto
  have h: "concat (map ((#) sep) (map T us)) @ stop # v \<noteq> [] \<and> hd (concat (map ((#) sep) (map T us)) @ stop # v) \<in> {sep, stop}" for us v
    by (cases us) auto
  have "K x = K y \<and> concat (map ((#) sep) (map T xs)) @ stop # r = concat (map ((#) sep) (map T zs)) @ stop # r'"
    by (rule Cons.prems(1)) (use h Cons.prems(3) ys in auto)
  with Cons.IH [of zs] Cons.prems ys show ?case by auto
qed

text \<open>Parts that can be told apart where they end are told apart in a list.\<close>

lemma join_reads:
  assumes "\<And>x y r r'. x \<in> set xs \<Longrightarrow> y \<in> set ys \<Longrightarrow> r \<noteq> [] \<Longrightarrow> hd r \<in> {sep, stop} \<Longrightarrow> r' \<noteq> [] \<Longrightarrow> hd r' \<in> {sep, stop} \<Longrightarrow>
      T x @ r = T y @ r' \<Longrightarrow> K x = K y \<and> r = r'"
    and "\<And>x. x \<in> set xs \<union> set ys \<Longrightarrow> T x \<noteq> [] \<and> hd (T x) \<noteq> stop"
    and "sep \<noteq> stop" "join sep (map T xs) @ stop # r = join sep (map T ys) @ stop # r'"
  shows "map K xs = map K ys \<and> r = r'"
proof (cases "xs = [] \<or> ys = []")
  case True
  have "T x @ z \<noteq> stop # w \<and> stop # w \<noteq> T x @ z" if "x \<in> set xs \<union> set ys" for x z w
    using assms(2) [OF that] by (cases "T x") auto
  then show ?thesis using True assms(4) by (cases xs; cases ys) (auto simp: join_more)
next
  case False
  then have "concat (map ((#) sep) (map T xs)) @ stop # r = concat (map ((#) sep) (map T ys)) @ stop # r'"
    using assms(4) by (cases xs; cases ys) (auto simp: join_more)
  then show ?thesis using more_reads [of xs ys sep stop T K r r'] assms(1,3) by blast
qed

text \<open>The units that end the first word of a field's layout, and what may follow the whole.\<close>

definition ends_word :: "code_unit \<Rightarrow> bool" where
  "ends_word c = (c \<in> {0x28, 0x29, 0x2C, 0x3A, 0x3C, 0x3E, 0x5B})"

definition ends_field :: "jsstring \<Rightarrow> bool" where
  "ends_field r = (r \<noteq> [] \<and> hd r \<in> {0x29, 0x2C, 0x3E})"

fun head_word :: "field \<Rightarrow> jsstring" where
  "head_word (FScalar k) = k"
| "head_word (FFixed d) = js ''fixed''"
| "head_word (FEnum vs) = js ''enum''"
| "head_word (FArray f) = js ''array''"
| "head_word (FMap f) = js ''map''"
| "head_word (FOptional f) = js ''optional''"
| "head_word (FNested m) = js ''nested''"

fun after_word :: "(rat \<Rightarrow> jsstring) \<Rightarrow> field \<Rightarrow> jsstring" where
  "after_word num_text (FScalar k) = []"
| "after_word num_text (FFixed d) = 0x3A # num_text (of_nat d)"
| "after_word num_text (FEnum vs) = 0x5B # join 0x7C (map (enum_text num_text) vs) @ [0x5D]"
| "after_word num_text (FArray f) = 0x3C # fieldLayout num_text f @ [0x3E]"
| "after_word num_text (FMap f) = 0x3C # fieldLayout num_text f @ [0x3E]"
| "after_word num_text (FOptional f) = 0x3C # fieldLayout num_text f @ [0x3E]"
| "after_word num_text (FNested m) = 0x3C # messageLayout num_text m @ [0x3E]"

lemma fieldLayout_word: "fieldLayout num_text f = head_word f @ after_word num_text f"
  by (cases f) (simp_all add: js_def)

lemma known_kinds_eq:
  "known_kinds = map js [''float32'', ''float64'', ''string'', ''bool'', ''int8'', ''int16'', ''int32'', ''uint8'', ''uint16'', ''uint32'']"
  by (simp add: known_kinds_def scalar_kinds_def int_kinds_def)

lemma word_plain: "plain_field f \<Longrightarrow> \<forall>c \<in> set (head_word f). \<not> ends_word c"
  by (cases f) (auto simp: known_kinds_eq js_def ends_word_def)

lemma word_apart:
  assumes "plain_field f" "plain_field g" "head_word f = head_word g"
  shows "(\<exists>k. f = FScalar k \<and> g = FScalar k) \<or> (\<exists>d e. f = FFixed d \<and> g = FFixed e) \<or> (\<exists>vs ws. f = FEnum vs \<and> g = FEnum ws)
    \<or> (\<exists>a b. f = FArray a \<and> g = FArray b) \<or> (\<exists>a b. f = FMap a \<and> g = FMap b) \<or> (\<exists>a b. f = FOptional a \<and> g = FOptional b)
    \<or> (\<exists>a b. f = FNested a \<and> g = FNested b)"
  using assms by (cases f; cases g) (auto simp: known_kinds_eq js_def)

lemma fieldLayout_split:
  assumes "fieldLayout num_text f @ r = fieldLayout num_text g @ r'" "plain_field f" "plain_field g" "ends_field r" "ends_field r'"
  shows "head_word f = head_word g \<and> after_word num_text f @ r = after_word num_text g @ r'"
proof (rule split_where [where P = "\<lambda>c. \<not> ends_word c"])
  have e: "after_word num_text h = [] \<or> ends_word (hd (after_word num_text h))" for h
    by (cases h) (simp_all add: ends_word_def)
  have "after_word num_text h @ s = [] \<or> \<not> \<not> ends_word (hd (after_word num_text h @ s))" if "ends_field s" for h s
    using e [of h] that by (cases "after_word num_text h") (auto simp: ends_field_def ends_word_def)
  then show "after_word num_text f @ r = [] \<or> \<not> \<not> ends_word (hd (after_word num_text f @ r))"
    "after_word num_text g @ r' = [] \<or> \<not> \<not> ends_word (hd (after_word num_text g @ r'))" using assms(4,5) by blast+
  show "head_word f @ after_word num_text f @ r = head_word g @ after_word num_text g @ r'" using assms(1) by (simp add: fieldLayout_word)
  show "\<forall>c \<in> set (head_word f) \<union> set (head_word g). \<not> ends_word c" using assms(2,3) word_plain by blast
qed

subsection \<open>Numbers and enums\<close>

lemma number_reads:
  assumes "number_texts num_text" "num_text p @ r = num_text q @ r'" "r = [] \<or> \<not> number_unit (hd r)" "r' = [] \<or> \<not> number_unit (hd r')"
  shows "p = q \<and> r = r'"
proof -
  have "num_text p = num_text q \<and> r = r'"
    using assms(1) by (intro split_where [OF assms(2) _ assms(3,4)]) (auto simp: number_texts_def list_all_iff)
  then show ?thesis using assms(1) by (auto simp: number_texts_def inj_def)
qed

lemma enum_value_cases:
  assumes "enum_value_ok v"
  obtains (str) s where "v = JStr s" "enum_text num_text v = json_string s" "enum_key v = JStr s"
    | (num) q where "enum_text num_text v = num_text q" "enum_key v = JNum (JFin q)"
proof (cases v)
  case (JNum n)
  with assms that(2) show ?thesis by (cases n) auto
qed (use assms that(1) in auto)

lemma not_number_units [simp]: "\<not> number_unit 0x22" "\<not> number_unit 0x7C" "\<not> number_unit 0x5D" "\<not> number_unit 0x29" "\<not> number_unit 0x2C" "\<not> number_unit 0x3E"
  by (simp_all add: number_unit_def is_digit_def)

lemma number_text_head: "number_texts num_text \<Longrightarrow> num_text q \<noteq> [] \<and> number_unit (hd (num_text q))"
  by (cases "num_text q") (auto simp: number_texts_def list_all_iff dest!: spec [of _ q])

lemma enum_text_reads:
  assumes "number_texts num_text" "enum_value_ok v" "enum_value_ok w" "r \<noteq> []" "hd r \<in> {0x7C, 0x5D}" "r' \<noteq> []" "hd r' \<in> {0x7C, 0x5D}"
    "enum_text num_text v @ r = enum_text num_text w @ r'"
  shows "enum_key v = enum_key w \<and> r = r'"
proof -
  have no: "json_string s @ x \<noteq> num_text q @ y" for s x q y
    using number_text_head [OF assms(1), of q] by (cases "num_text q") (auto simp: json_string_def)
  show ?thesis
  proof (rule enum_value_cases [OF assms(2), of num_text]; rule enum_value_cases [OF assms(3), of num_text])
    fix p q
    assume "enum_text num_text v = num_text p" "enum_key v = JNum (JFin p)" "enum_text num_text w = num_text q" "enum_key w = JNum (JFin q)"
    then show ?thesis using number_reads [OF assms(1), of p r q r'] assms(4-8) by auto
  qed (use assms(8) no json_string_inj in \<open>metis+\<close>)
qed

subsection \<open>Messages\<close>

lemma identifier_units:
  assumes "IDENTIFIER n"
  shows "n \<noteq> [] \<and> (\<forall>c \<in> set n. \<not> ends_word c) \<and> hd n \<notin> {0x29, 0x3B, 0x7D}"
proof -
  have "\<not> ends_word c" if "is_ident_start c \<or> is_digit c" for c
    using that by (auto simp: is_ident_start_def is_digit_def ends_word_def)
  moreover have "c \<notin> {0x29, 0x3B, 0x7D}" if "is_ident_start c" for c
    using that by (auto simp: is_ident_start_def)
  ultimately show ?thesis using assms by (cases n) (auto simp: list_all_iff)
qed

lemma identifier_reads:
  assumes "n @ c # x = n' @ c' # y" "IDENTIFIER n" "IDENTIFIER n'" "ends_word c" "ends_word c'"
  shows "n = n' \<and> c # x = c' # y"
  using split_where [OF assms(1), of "\<lambda>c. \<not> ends_word c"] identifier_units [OF assms(2)] identifier_units [OF assms(3)] assms(4,5) by auto

abbreviation field_entry :: "(rat \<Rightarrow> jsstring) \<Rightarrow> jsstring \<times> field \<Rightarrow> jsstring" where
  "field_entry num_text p \<equiv> fst p @ js '':'' @ fieldLayout num_text (snd p)"

lemma plain_fields: "plain (MessageDef i n fs) \<longleftrightarrow> IDENTIFIER n \<and> (\<forall>p \<in> set fs. IDENTIFIER (fst p) \<and> plain_field (snd p))"
  by (auto simp: list_all_iff)

lemma fields_read:
  assumes "\<And>p g r r'. p \<in> set fs \<Longrightarrow> plain_field (snd p) \<Longrightarrow> plain_field g \<Longrightarrow> ends_field r \<Longrightarrow> ends_field r' \<Longrightarrow>
      fieldLayout num_text (snd p) @ r = fieldLayout num_text g @ r' \<Longrightarrow> bare_field (snd p) = bare_field g \<and> r = r'"
    and "\<forall>p \<in> set fs \<union> set gs. IDENTIFIER (fst p) \<and> plain_field (snd p)"
    and "join 0x2C (map (field_entry num_text) fs) @ 0x29 # r = join 0x2C (map (field_entry num_text) gs) @ 0x29 # r'"
  shows "map (map_prod id bare_field) fs = map (map_prod id bare_field) gs \<and> r = r'"
proof (rule join_reads [OF _ _ _ assms(3)])
  fix p q s s'
  assume p: "p \<in> set fs" and q: "q \<in> set gs" and s: "s \<noteq> []" "hd s \<in> {0x2C, 0x29}" "s' \<noteq> []" "hd s' \<in> {0x2C, 0x29}"
    and e: "field_entry num_text p @ s = field_entry num_text q @ s'"
  have c: "js '':'' = [0x3A]" "ends_word 0x3A" by (simp_all add: js_def ends_word_def)
  have "fst p = fst q \<and> fieldLayout num_text (snd p) @ s = fieldLayout num_text (snd q) @ s'"
    using identifier_reads [of "fst p" "0x3A" "fieldLayout num_text (snd p) @ s" "fst q" "0x3A" "fieldLayout num_text (snd q) @ s'"] e p q assms(2) c
    by auto
  moreover have "plain_field (snd p)" "plain_field (snd q)" using assms(2) p q by auto
  moreover have "ends_field s" "ends_field s'" using s by (auto simp: ends_field_def)
  ultimately show "map_prod id bare_field p = map_prod id bare_field q \<and> s = s'"
    using assms(1) [OF p, of "snd q" s s'] by (cases p; cases q) simp
next
  fix p
  assume "p \<in> set fs \<union> set gs"
  then have "IDENTIFIER (fst p)" using assms(2) by blast
  from identifier_units [OF this] show "field_entry num_text p \<noteq> [] \<and> hd (field_entry num_text p) \<noteq> 0x29" by simp
qed simp

lemma layout_reads:
  assumes "number_texts num_text"
  shows "plain_field f \<Longrightarrow> plain_field g \<Longrightarrow> ends_field r \<Longrightarrow> ends_field r' \<Longrightarrow>
      fieldLayout num_text f @ r = fieldLayout num_text g @ r' \<Longrightarrow> bare_field f = bare_field g \<and> r = r'"
    and "plain m \<Longrightarrow> plain m' \<Longrightarrow> messageLayout num_text m @ s = messageLayout num_text m' @ s' \<Longrightarrow> bare m = bare m' \<and> s = s'"
proof (induction f and m arbitrary: g r r' and m' s s')
  case (FScalar k)
  note split = fieldLayout_split [OF FScalar.prems(5,1,2,3,4)]
  then have "g = FScalar k" using word_apart [OF FScalar.prems(1,2)] by blast
  with split show ?case by simp
next
  case (FFixed d)
  have s: "\<not> number_unit (hd x)" if "ends_field x" for x using that by (auto simp: ends_field_def)
  obtain e where "g = FFixed e" "num_text (of_nat d) @ r = num_text (of_nat e) @ r'"
    using fieldLayout_split [OF FFixed.prems(5,1,2,3,4)] word_apart [OF FFixed.prems(1,2)] by auto
  with number_reads [OF assms this(2)] s FFixed.prems(3,4) show ?case by simp
next
  case (FEnum vs)
  obtain ws where g: "g = FEnum ws"
    and e: "join 0x7C (map (enum_text num_text) vs) @ 0x5D # r = join 0x7C (map (enum_text num_text) ws) @ 0x5D # r'"
    using fieldLayout_split [OF FEnum.prems(5,1,2,3,4)] word_apart [OF FEnum.prems(1,2)] by auto
  have ok: "enum_value_ok v" if "v \<in> set vs \<union> set ws" for v using that FEnum.prems(1,2) g by (auto simp: list_all_iff)
  have h: "enum_text num_text v \<noteq> [] \<and> hd (enum_text num_text v) \<noteq> 0x5D" if "v \<in> set vs \<union> set ws" for v
    by (rule enum_value_cases [OF ok [OF that], of num_text])
      (use number_text_head [OF assms] not_number_units(3) in \<open>(simp add: json_string_def), metis\<close>)
  have "map enum_key vs = map enum_key ws \<and> r = r'"
  proof (rule join_reads [OF _ _ _ e])
    fix v w s s'
    assume "v \<in> set vs" "w \<in> set ws" and s: "s \<noteq> []" "hd s \<in> {0x7C, 0x5D}" "s' \<noteq> []" "hd s' \<in> {0x7C, 0x5D}"
      "enum_text num_text v @ s = enum_text num_text w @ s'"
    then have "enum_value_ok v" "enum_value_ok w" using ok by blast+
    then show "enum_key v = enum_key w \<and> s = s'" using enum_text_reads [OF assms] s by blast
  qed (use h in blast, simp)
  then show ?case using g by simp
next
  case (FArray f)
  obtain h where g: "g = FArray h" using fieldLayout_split [OF FArray.prems(5,1,2,3,4)] word_apart [OF FArray.prems(1,2)] by auto
  then have "fieldLayout num_text f @ 0x3E # r = fieldLayout num_text h @ 0x3E # r'" using FArray.prems(5) by (simp add: js_def)
  with FArray.IH [of h "0x3E # r" "0x3E # r'"] FArray.prems(1,2) g show ?case by (simp add: ends_field_def)
next
  case (FMap f)
  obtain h where g: "g = FMap h" using fieldLayout_split [OF FMap.prems(5,1,2,3,4)] word_apart [OF FMap.prems(1,2)] by auto
  then have "fieldLayout num_text f @ 0x3E # r = fieldLayout num_text h @ 0x3E # r'" using FMap.prems(5) by (simp add: js_def)
  with FMap.IH [of h "0x3E # r" "0x3E # r'"] FMap.prems(1,2) g show ?case by (simp add: ends_field_def)
next
  case (FOptional f)
  obtain h where g: "g = FOptional h" using fieldLayout_split [OF FOptional.prems(5,1,2,3,4)] word_apart [OF FOptional.prems(1,2)] by auto
  then have "fieldLayout num_text f @ 0x3E # r = fieldLayout num_text h @ 0x3E # r'" using FOptional.prems(5) by (simp add: js_def)
  with FOptional.IH [of h "0x3E # r" "0x3E # r'"] FOptional.prems(1,2) g show ?case by (simp add: ends_field_def)
next
  case (FNested m)
  obtain h where g: "g = FNested h" using fieldLayout_split [OF FNested.prems(5,1,2,3,4)] word_apart [OF FNested.prems(1,2)] by auto
  then have "messageLayout num_text m @ 0x3E # r = messageLayout num_text h @ 0x3E # r'" using FNested.prems(5) by (simp add: js_def)
  with FNested.IH [of h "0x3E # r" "0x3E # r'"] FNested.prems(1,2) g show ?case by simp
next
  case (MessageDef i n fs)
  obtain j n' gs where m': "m' = MessageDef j n' gs" by (cases m')
  have p: "IDENTIFIER n" "IDENTIFIER n'" "\<forall>p \<in> set fs \<union> set gs. IDENTIFIER (fst p) \<and> plain_field (snd p)"
    using MessageDef.prems(1,2) m' plain_fields by (blast, blast, blast)
  have b: "js ''('' = [0x28]" "js '')'' = [0x29]" "ends_word 0x28" by (simp_all add: js_def ends_word_def)
  have "n = n' \<and> join 0x2C (map (field_entry num_text) fs) @ 0x29 # s = join 0x2C (map (field_entry num_text) gs) @ 0x29 # s'"
    using identifier_reads [of n "0x28" "join 0x2C (map (field_entry num_text) fs) @ 0x29 # s" n' "0x28"
        "join 0x2C (map (field_entry num_text) gs) @ 0x29 # s'"] MessageDef.prems(3) m' p(1,2) b by auto
  moreover have "map (map_prod id bare_field) fs = map (map_prod id bare_field) gs \<and> s = s'"
  proof (rule fields_read [OF _ p(3)])
    fix p g r r'
    assume "p \<in> set fs" "plain_field (snd p)" "plain_field g" "ends_field r" "ends_field r'"
      "fieldLayout num_text (snd p) @ r = fieldLayout num_text g @ r'"
    then show "bare_field (snd p) = bare_field g \<and> r = r'" using MessageDef.IH [of p "snd p" g r r'] by (auto simp: snds.simps)
  qed (use calculation in blast)
  ultimately show ?case using m' by simp
qed

subsection \<open>Contracts\<close>

lemma messageLayout_head: "plain m \<Longrightarrow> messageLayout num_text m \<noteq> [] \<and> hd (messageLayout num_text m) \<noteq> 0x7D"
  by (cases m) (use identifier_units in \<open>auto simp: js_def\<close>)

lemma mapLayout_reads:
  assumes "number_texts num_text" "\<forall>m \<in> set (map snd ms) \<union> set (map snd ns). plain m"
    "mapLayout num_text ms @ 0x7D # r = mapLayout num_text ns @ 0x7D # r'"
  shows "mset (map (bare \<circ> snd) ms) = mset (map (bare \<circ> snd) ns) \<and> r = r'"
proof -
  obtain xs ys where xs: "sort_layouts (map (messageLayout num_text) (map snd ms)) = map (messageLayout num_text) xs" "mset xs = mset (map snd ms)"
    and ys: "sort_layouts (map (messageLayout num_text) (map snd ns)) = map (messageLayout num_text) ys" "mset ys = mset (map snd ns)"
    using sort_layouts_map by metis
  have p: "plain m" if "m \<in> set xs \<union> set ys" for m
    using that assms(2) mset_eq_setD [OF xs(2)] mset_eq_setD [OF ys(2)] by blast
  have e: "join 0x3B (map (messageLayout num_text) xs) @ 0x7D # r = join 0x3B (map (messageLayout num_text) ys) @ 0x7D # r'"
    using assms(3) xs(1) ys(1) by (simp add: mapLayout_def)
  have "map bare xs = map bare ys \<and> r = r'"
  proof (rule join_reads [OF _ _ _ e])
    fix m n s s'
    assume "m \<in> set xs" "n \<in> set ys" "messageLayout num_text m @ s = messageLayout num_text n @ s'"
    then show "bare m = bare n \<and> s = s'" using layout_reads(2) [OF assms(1)] p by blast
  qed (use messageLayout_head p in blast, simp)
  moreover have "mset (map (bare \<circ> snd) ms) = image_mset bare (mset xs)" "mset (map (bare \<circ> snd) ns) = image_mset bare (mset ys)"
    by (simp_all add: xs(2) ys(2) image_mset.compositionality)
  ultimately show ?thesis by (metis mset_map)
qed

lemma option_parts_declared: "option_parts num_text c = map (\<lambda>p. fst p @ js '':'' @ messageLayout num_text (snd p)) (declared c)"
  by (auto simp: option_parts_def declared_def OPTION_KINDS_def split: option.splits)

lemma declared_identifier: "p \<in> set (declared c) \<Longrightarrow> IDENTIFIER (fst p)"
  by (auto simp: declared_def OPTION_KINDS_def js_def is_ident_start_def split: option.splits)

lemma declared_reads:
  assumes "number_texts num_text" "\<forall>p \<in> set (declared c) \<union> set (declared c'). plain (snd p)"
    "join 0x3B (option_parts num_text c) @ 0x7D # r = join 0x3B (option_parts num_text c') @ 0x7D # r'"
  shows "map (map_prod id bare) (declared c) = map (map_prod id bare) (declared c') \<and> r = r'"
proof -
  let ?T = "\<lambda>p. fst p @ js '':'' @ messageLayout num_text (snd p)"
  have k: "js '':'' = [0x3A]" "ends_word 0x3A" by (simp_all add: js_def ends_word_def)
  have e: "join 0x3B (map ?T (declared c)) @ 0x7D # r = join 0x3B (map ?T (declared c')) @ 0x7D # r'"
    using assms(3) by (simp add: option_parts_declared)
  show ?thesis
  proof (rule join_reads [OF _ _ _ e])
    fix p q s s'
    assume p: "p \<in> set (declared c)" and q: "q \<in> set (declared c')" and pq: "?T p @ s = ?T q @ s'"
    have "fst p = fst q \<and> messageLayout num_text (snd p) @ s = messageLayout num_text (snd q) @ s'"
      using identifier_reads [of "fst p" "0x3A" "messageLayout num_text (snd p) @ s" "fst q" "0x3A" "messageLayout num_text (snd q) @ s'"]
        declared_identifier [OF p] declared_identifier [OF q] pq k by auto
    moreover have "plain (snd p)" "plain (snd q)" using assms(2) p q by blast+
    ultimately show "map_prod id bare p = map_prod id bare q \<and> s = s'"
      using layout_reads(2) [OF assms(1), of "snd p" "snd q" s s'] by (cases p; cases q) simp
  next
    fix p
    assume "p \<in> set (declared c) \<union> set (declared c')"
    then have "IDENTIFIER (fst p)" using declared_identifier by blast
    from identifier_units [OF this] show "?T p \<noteq> [] \<and> hd (?T p) \<noteq> 0x7D" by simp
  qed simp
qed

text \<open>The two contracts declare the same messages, whatever their order and identity.\<close>

definition same_declarations :: "Contract \<Rightarrow> Contract \<Rightarrow> bool" where
  "same_declarations c c' \<longleftrightarrow>
     mset (map (bare \<circ> snd) (client c)) = mset (map (bare \<circ> snd) (client c'))
     \<and> mset (map (bare \<circ> snd) (server c)) = mset (map (bare \<circ> snd) (server c'))
     \<and> map (map_prod id bare) (declared c) = map (map_prod id bare) (declared c')"

lemma contractLayout_reads:
  assumes "number_texts num_text" "plain_contract c" "plain_contract c'" "contractLayout num_text c = contractLayout num_text c'"
  shows "same_declarations c c'"
proof -
  let ?o = "\<lambda>c. if option_parts num_text c = [] then [] else js ''options{'' @ join 0x3B (option_parts num_text c) @ [0x7D]"
  have l: "contractLayout num_text d = js ''client{'' @ mapLayout num_text (client d) @ 0x7D # js ''server{'' @ mapLayout num_text (server d) @ 0x7D # ?o d" for d
    by (simp add: contractLayout_def Let_def js_def)
  have p: "\<forall>m \<in> set (map snd (client c)) \<union> set (map snd (client c')). plain m" "\<forall>m \<in> set (map snd (server c)) \<union> set (map snd (server c')). plain m"
    "\<forall>p \<in> set (declared c) \<union> set (declared c'). plain (snd p)" using assms(2,3) by (auto simp: plain_contract_def list_all_iff)
  have "mapLayout num_text (client c) @ 0x7D # js ''server{'' @ mapLayout num_text (server c) @ 0x7D # ?o c
      = mapLayout num_text (client c') @ 0x7D # js ''server{'' @ mapLayout num_text (server c') @ 0x7D # ?o c'"
    using assms(4) l [of c] l [of c'] by (simp only: append_same_eq same_append_eq)
  note 1 = mapLayout_reads [OF assms(1) p(1) this]
  then have "mapLayout num_text (server c) @ 0x7D # ?o c = mapLayout num_text (server c') @ 0x7D # ?o c'" by (simp only: same_append_eq)
  note 2 = mapLayout_reads [OF assms(1) p(2) this]
  have "js ''options{'' \<noteq> []" by (simp add: js_def)
  then have "option_parts num_text c = [] \<longleftrightarrow> option_parts num_text c' = []"
    "join 0x3B (option_parts num_text c) @ 0x7D # [] = join 0x3B (option_parts num_text c') @ 0x7D # []"
    using 2 by (auto split: if_splits)
  then have "map (map_prod id bare) (declared c) = map (map_prod id bare) (declared c')" using declared_reads [OF assms(1) p(3)] by blast
  with 1 2 show ?thesis by (simp add: same_declarations_def)
qed

subsection \<open>Layouts say no more\<close>

lemma enum_text_key: "enum_text num_text (enum_key v) = enum_text num_text v"
  by (induction v rule: enum_key.induct) auto

lemma layout_bare:
  shows "fieldLayout num_text (bare_field f) = fieldLayout num_text f" and "messageLayout num_text (bare m) = messageLayout num_text m"
proof (induction f and m)
  case (MessageDef i n fs)
  then have "map (\<lambda>p. fst p @ js '':'' @ fieldLayout num_text (snd p)) (map (map_prod id bare_field) fs)
      = map (\<lambda>p. fst p @ js '':'' @ fieldLayout num_text (snd p)) fs" by (auto simp: snds.simps)
  then show ?case by (simp only: bare.simps messageLayout.simps)
qed (simp_all add: enum_text_key comp_def)

lemma mapLayout_bare:
  assumes "mset (map (bare \<circ> snd) ms) = mset (map (bare \<circ> snd) ns)"
  shows "mapLayout num_text ms = mapLayout num_text ns"
proof -
  have "mset (map (messageLayout num_text) (map (bare \<circ> snd) ms)) = mset (map (messageLayout num_text) (map (bare \<circ> snd) ns))"
    using assms by (metis mset_map)
  then have "mset (map (messageLayout num_text \<circ> snd) ms) = mset (map (messageLayout num_text \<circ> snd) ns)"
    by (simp only: map_map comp_def layout_bare)
  then show ?thesis unfolding mapLayout_def using sort_layouts_mset by metis
qed

lemma contractLayout_same:
  assumes "same_declarations c c'"
  shows "contractLayout num_text c = contractLayout num_text c'"
proof -
  have "option_parts num_text d = map (\<lambda>p. fst p @ js '':'' @ messageLayout num_text (snd p)) (map (map_prod id bare) (declared d))" for d
    unfolding option_parts_declared map_map by (simp add: layout_bare comp_def del: messageLayout.simps fieldLayout.simps)
  then have "option_parts num_text c = option_parts num_text c'" using assms by (simp only: same_declarations_def)
  moreover have "mapLayout num_text (client c) = mapLayout num_text (client c')" "mapLayout num_text (server c) = mapLayout num_text (server c')"
    using assms mapLayout_bare unfolding same_declarations_def by blast+
  ultimately show ?thesis by (simp add: contractLayout_def)
qed

section \<open>The text of a hash\<close>

text \<open>Eight digits, from which the number can be read.\<close>

lemma hex8_digits: "length (hex8 h) = 8" "c \<in> set (hex8 h) \<Longrightarrow> c \<in> hex_digit ` {..<16}"
  by (auto simp: hex8_def)

lemma hex8_inj: "hex8 h = hex8 h' \<Longrightarrow> h = h'"
proof -
  assume "hex8 h = hex8 h'"
  have v: "unat h div 16 ^ k mod 16 = unat h' div 16 ^ k mod 16" if "k \<in> {7, 6, 5, 4, 3, 2, 1, 0}" for k
  proof -
    have "\<forall>k \<in> set [7, 6, 5, 4, 3, 2, 1, 0]. hex_digit (unat h div 16 ^ k mod 16) = hex_digit (unat h' div 16 ^ k mod 16)"
      using \<open>hex8 h = hex8 h'\<close> unfolding hex8_def by (subst (asm) map_eq_conv)
    then have "hex_digit (unat h div 16 ^ k mod 16) = hex_digit (unat h' div 16 ^ k mod 16)"
      using that by (simp only: list.set)
    then show ?thesis using hex_value_digit mod_less_divisor [of "16 :: nat"] zero_less_numeral by metis
  qed
  have "unat h mod 16 ^ k = unat h' mod 16 ^ k" if "k \<le> 8" for k
    using that
  proof (induction k)
    case (Suc k)
    then have "k = 7 \<or> k = 6 \<or> k = 5 \<or> k = 4 \<or> k = 3 \<or> k = 2 \<or> k = 1 \<or> k = 0" by linarith
    then have "unat h div 16 ^ k mod 16 = unat h' div 16 ^ k mod 16" using v [of k] by blast
    moreover have "n mod 16 ^ Suc k = 16 ^ k * (n div 16 ^ k mod 16) + n mod 16 ^ k" for n :: nat
      by (simp only: power_Suc2 mod_mult2_eq)
    ultimately show ?case using Suc by simp
  qed simp
  from this [of 8] have "unat h = unat h'" using unsigned_less [of h, where 'a = nat] unsigned_less [of h', where 'a = nat] by simp
  then show "h = h'" by (rule unsigned_word_eqI)
qed

section \<open>Layouts and declarations\<close>

text \<open>Contracts to try layouts on, and texts of numbers that can be told apart.\<close>

definition unary_text :: "rat \<Rightarrow> jsstring" where
  "unary_text q = (case quotient_of q of (a, b) \<Rightarrow> (if a < 0 then [0x2D] else []) @ replicate (nat \<bar>a\<bar>) 0x30 @ 0x65 # replicate (nat b) 0x30)"

definition x_move :: messagedef where
  "x_move = MessageDef 1 (js ''move'') [(js ''x'', FFixed 2), (js ''dir'', FEnum [JStr (js ''up''), JNum (JFin 1)])]"

definition x_chat :: messagedef where
  "x_chat = MessageDef 2 (js ''chat'') [(js ''text'', FOptional (FScalar (js ''string'')))]"

definition x_contract :: "messagedef list \<Rightarrow> Contract" where
  "x_contract ms = \<lparr>client = map (\<lambda>m. (def_name m, m)) ms, server = [], options = None\<rparr>"

lemma unary_text_reads: "number_texts unary_text"
proof -
  have split: "replicate m (0x30 :: code_unit) @ 0x65 # replicate n 0x30 = replicate m' 0x30 @ 0x65 # replicate n' 0x30 \<Longrightarrow> m = m' \<and> n = n'" for m n m' n'
    using split_where [of "replicate m (0x30 :: code_unit)" "0x65 # replicate n 0x30" "replicate m' 0x30" "0x65 # replicate n' 0x30" "\<lambda>c. c = 0x30"]
    by (simp add: replicate_eq_replicate ball_Un set_replicate_conv_if)
  have "p = q" if e: "unary_text p = unary_text q" for p q
  proof -
    obtain a b a' b' where ab: "quotient_of p = (a, b)" "quotient_of q = (a', b')" by fastforce
    have pos: "0 < b" "0 < b'" using ab quotient_of_denom_pos by blast+
    have first: "hd (replicate m (0x30 :: code_unit) @ 0x65 # ys) \<noteq> 0x2D" for m ys by (cases m) auto
    have "hd (unary_text p) = 0x2D \<longleftrightarrow> a < 0" "hd (unary_text q) = 0x2D \<longleftrightarrow> a' < 0" using first by (simp_all add: unary_text_def ab)
    then have s: "a < 0 \<longleftrightarrow> a' < 0" using e by simp
    then have "replicate (nat \<bar>a\<bar>) (0x30 :: code_unit) @ 0x65 # replicate (nat b) 0x30 = replicate (nat \<bar>a'\<bar>) 0x30 @ 0x65 # replicate (nat b') 0x30"
      using e by (simp only: unary_text_def ab prod.case same_append_eq)
    from split [OF this] have "nat \<bar>a\<bar> = nat \<bar>a'\<bar>" "nat b = nat b'" by blast+
    with s have "a = a'" "b = b'" using pos by linarith+
    then show ?thesis using ab quotient_of_inject by metis
  qed
  then show ?thesis by (auto simp: number_texts_def inj_def unary_text_def list_all_iff number_unit_def is_digit_def split: prod.split)
qed

text \<open>C12: Two contracts have the same layout string exactly when they declare the same messages and
  options: the order of messages and the identity of declarations do not matter, and every
  difference in a name, a field, a type or an option shows. Message names are identifiers, and
  different numbers have different texts.\<close>

theorem layout_says_what_is_declared:
  assumes "number_texts num_text" "plain_contract c" "plain_contract c'"
  shows "contractLayout num_text c = contractLayout num_text c' \<longleftrightarrow> same_declarations c c'"
  using contractLayout_reads [OF assms] contractLayout_same by blast

theorem layout_says_what_is_declared_witness:
  "contractLayout unary_text (x_contract [x_move, x_chat]) = contractLayout unary_text (x_contract [x_chat, x_move])
   \<and> contractLayout unary_text (x_contract [x_move, x_chat]) \<noteq> contractLayout unary_text (x_contract [x_move])"
proof -
  have p: "plain_contract (x_contract [x_move, x_chat])" "plain_contract (x_contract [x_chat, x_move])" "plain_contract (x_contract [x_move])"
    by (simp_all add: plain_contract_def x_contract_def x_move_def x_chat_def declared_def OPTION_KINDS_def js_def is_ident_start_def is_digit_def
        known_kinds_eq)
  have "same_declarations (x_contract [x_move, x_chat]) (x_contract [x_chat, x_move])"
    by (simp add: same_declarations_def x_contract_def declared_def OPTION_KINDS_def)
  moreover have "\<not> same_declarations (x_contract [x_move, x_chat]) (x_contract [x_move])"
    by (simp add: same_declarations_def x_contract_def)
  ultimately show ?thesis
    using layout_says_what_is_declared [OF unary_text_reads p(1,2)] layout_says_what_is_declared [OF unary_text_reads p(1,3)] by blast
qed

text \<open>
  A message name passes the checks as any non-empty string and is not escaped: two contracts
  without problems, one with two messages and one with a single one, have the same hash.
\<close>

lemma message_names_not_escaped:
  "let c = x_contract [MessageDef 1 (js ''a'') [], MessageDef 2 (js ''b'') []]; c' = x_contract [MessageDef 1 (js ''a();b'') []]
   in validateContract c = [] \<and> validateContract c' = [] \<and> \<not> same_declarations c c' \<and> contractHash num_text c = contractHash num_text c'"
proof -
  have "ord_class.lexordp (js ''b()'') (js ''a()'') = False" by (simp add: js_def)
  then show ?thesis
    by (simp add: validateContract_def map_problems_def x_contract_def same_declarations_def contractHash_def contractLayout_def mapLayout_def
        sort_layouts_def option_parts_def OPTION_KINDS_def js_def)
qed

end
