(* ===== verification/Spec2Isabelle.thy ===== *)
theory Spec2Isabelle
  imports MessagePack Convergence ClusterProperties RoomProperties SyncProperties MatchProperties Layout "HOL-Library.Sublist"
begin

text \<open>
  A verification of the protocol and state-sync core of \<^emph>\<open>bungohan\<close>, a framework for
  multiplayer rooms (TypeScript, under \<open>src/packages\<close>). A server keeps a tree of schema objects
  per room; every tick it turns the recorded changes into ops, encodes them with a state codec and
  sends the frame to every client, which decodes the ops and applies them to its copy. Messages of
  the room's contract travel beside the state, through the same codecs.

  \<^bold>\<open>Parts and theories.\<close> Paths are relative to \<open>src/packages\<close>.

  \<^item> \<open>Prelude\<close>: byte and string types, fact collections, little-endian numbers, powers of two.
  \<^item> \<open>JsNum\<close>, \<open>JsText\<close>, \<open>JsValue\<close>: what the source uses of the language. Numbers are IEEE
    binary64 values (NaN, infinities, negative zero, rationals that are rounded after each
    operation); strings are lists of UTF-16 code units, with \<open>TextEncoder\<close> and \<open>TextDecoder\<close> as
    UTF-8 functions and \<open>wireString\<close> of \<open>serializer/src/bytes.ts\<close>; values are a datatype, with
    property assignment that respects the order of integer-like keys and \<open>__proto__\<close>.
  \<^item> \<open>Numeric\<close>: \<open>types/src/ints.ts\<close> and \<open>fixed.ts\<close>, clamping and fixed point.
  \<^item> \<open>Bytes\<close>: \<open>ByteWriter\<close> and \<open>ByteReader\<close> of \<open>bytes.ts\<close> on explicit buffers, growth and
    sticky errors included. \<open>Codec\<close> holds the locale of a codec written with them.
  \<^item> \<open>Frame\<close>: \<open>serializer/src/frame.ts\<close>, the header of every frame.
  \<^item> \<open>WireTypes\<close>: \<open>types/src/wire.ts\<close>, the grammar of field types.
  \<^item> \<open>ClassTable\<close>: op shapes, class tables and the MessagePack session of
    \<open>serializer/src/state-codec.ts\<close>.
  \<^item> \<open>SchemaTables\<close>, \<open>SchemaOps\<close>, \<open>SchemaSession\<close>, \<open>SchemaRoundtrip\<close>: the schema codec's state
    half (\<open>serializer/src/schema-codec.ts\<close>): class, layout and target tables with their undo
    journal, the encoder and decoder of ops, sessions, and the proof that they are inverse.
  \<^item> \<open>Contract\<close>, \<open>SchemaMessages\<close>, \<open>MessageRoundtrip\<close>: contract declarations
    (\<open>types/src/contract.ts\<close>, \<open>layout.ts\<close>), the codec's message half, typed options
    (\<open>serializer/src/options.ts\<close>). \<open>Layout\<close>: the layout strings and hashes by which client and
    server compare contracts, read back to what they declare.
  \<^item> \<open>Positional\<close>, \<open>MessagePack\<close>: the other codec: positional messages
    (\<open>serializer/src/message-codec.ts\<close>), string clean-up and the string check of
    \<open>serializer/src/messagepack.ts\<close> against a datatype of the MessagePack format.
  \<^item> \<open>Elements\<close>: element codecs and primitive fields (\<open>state/src/elements.ts\<close>,
    \<open>primitives.ts\<close>), with the locale of a lossy codec.
  \<^item> \<open>Collections\<close>: maps, sets and arrays of primitives (\<open>state/src/collections.ts\<close>) with their
    change records, and the ops the encoder makes of them (\<open>state/src/encoder.ts\<close>).
  \<^item> \<open>Replica\<close>: the receiver's branches for such collections (\<open>state/src/decoder.ts\<close>).
  \<^item> \<open>Convergence\<close>: the locale of a tracked collection (writes, tick, commit) and its three
    interpretations.
  \<^item> \<open>Runtime\<close>: event-driven components as machines (locales for an invariant and for a refinement),
    and the timers of \<open>types/src/clock.ts\<close>.
  \<^item> \<open>Locks\<close>, \<open>Requests\<close>, \<open>Cluster\<close>: \<open>core/src/cluster\<close>: the lock table and the choice of a
    coordinator (\<open>locks.ts\<close>), pending requests (\<open>requests.ts\<close>), the registry of peers (\<open>registry.ts\<close>)
    and the node that joins them (\<open>node.ts\<close>). \<open>ClusterProperties\<close> has what is shown of them: the
    lock table refines a queue of requests per pool, whoever is granted holds, waiting ends, every
    request has one outcome, only live processes hold locks.

  \<^item> \<open>Rooms\<close>, \<open>RoomInvariants\<close>, \<open>RoomOperations\<close>, \<open>RoomProperties\<close>: the seats of a room
    (\<open>core/src/room.ts\<close>, \<open>client.ts\<close>, the reservations of \<open>matchmaker.ts\<close>, the joins of
    \<open>server.ts\<close>): clients and connections as objects of a heap, seats, tokens, reservations and their
    timers, pausing, broadcasts, disposal. The first holds the operations and the events, the second
    the invariant (what belongs to one client agrees with its status), the third that every
    operation keeps it, the last what follows, with three places where the code departs from what it
    means (\<open>disposal_can_run_twice\<close>, \<open>late_reservation_overfills\<close>, \<open>refused_join_keeps_room\<close>).

  \<^item> \<open>Filters\<close>, \<open>FlatState\<close>: state sync of a root with primitive fields and collections of
    primitives, filtered or not: guards and the grouping of clients, snapshots, deltas and the commit of
    \<open>state/src/encoder.ts\<close>, the change record of \<open>change-tree.ts\<close>, binding and \<open>applyDelta\<close> of
    \<open>decoder.ts\<close>. \<open>FlatFields\<close> has what ops do to one field's replica, \<open>FlatReplica\<close> that a frame
    acts on each field alone, \<open>FlatEmit\<close> that a tick and a snapshot are one run of ops per field,
    \<open>FlatSync\<close> the invariant of server and client over writes and ticks, \<open>FlatJoin\<close> the snapshot
    that establishes it.
  \<^item> \<open>RoomSync\<close>, \<open>StateSync\<close>, \<open>SyncProperties\<close>: the sync boundary of \<open>core/src/room.ts\<close> and the
    frame handlers of \<open>client-js/src/room.ts\<close>; a room with its clients, the frames between them, and
    seats that are taken, lost and resumed, as one system; what holds of it, and two ways in which a
    seat falls behind (\<open>failed_patch_is_lost\<close>, \<open>paused_seat_left_behind\<close>).

  \<^item> \<open>RoomTypes\<close>, \<open>Matchmaker\<close>, \<open>Pools\<close>: room types and the reading of options
    (\<open>core/src/room-type.ts\<close>), the rooms of a process (\<open>room-manager.ts\<close>), and the searches, listings,
    choices of a process and pool names of \<open>matchmaker.ts\<close>. \<open>Creating\<close>: \<open>createRoom\<close>,
    \<open>joinOrCreate\<close>, \<open>reserve\<close> and a client's \<open>JOIN\<close> by room type as concurrent calls, each at one of
    its awaits, with the claims by which they wait for each other. \<open>Claims\<close> has the invariant (claims
    and their holders, at most one open room for a key), \<open>Progress\<close> that every call can get to its
    end, \<open>MatchProperties\<close> what follows and three places where the code departs from what it means
    (\<open>peer_room_doubled\<close>, \<open>pick_nothing\<close>, \<open>query_limit_zero\<close>).

  \<^bold>\<open>How the model reads.\<close> A class is a record, a method a function that returns the record updated;
  an error is a value (\<open>Inl\<close>), with its code and message; a \<open>Bad\<close> or \<open>Fail\<close> of the source is a
  sum. Messages of errors keep their text and the values printed into them. Loops are structural
  recursions, or functions with a measure; no fuel is used, so every definition is total.

  \<^bold>\<open>What is shown.\<close> The properties below say that frames and messages round trip byte for byte
  through both codecs, that a failed frame leaves no trace in a session, that arbitrary bytes yield
  either an error or well-formed results, that two sessions stay in lockstep over any traffic, that
  both codecs deliver the same payloads, and that replicas of fields and collections converge
  whatever is written to them. Of rooms they say that seats stay within the limit, that a lost seat is
  resumed or ends, that a reservation is good for one join, that a broadcast reaches each seat once and
  that nothing outlives a disposed room; of their state that every synced replica shows at each boundary
  what its client may see and nothing else, that no frame is refused, and that what a client is sent does
  not depend on what is hidden from it; of matchmaking that a key names one open room of a process, that a
  room is found by what it was made for, and that no call waits for ever. Game code's filters are a parameter of each boundary, as are
  the host's answers; a client's class may lack fields of the server's. Hypotheses on payloads (\<open>payload_ok\<close>, \<open>op_ok\<close>) say that numbers are
  binary64 values, that strings and counts stay under 2 to the 32, and that object keys stay apart
  as wire strings. The MessagePack library is a parameter; \<open>msgpack_law\<close> states what is relied on.

  \<^bold>\<open>Time and concurrency.\<close> The server runs on one thread: an operation, a received message or a
  timer's callback runs to its end before the next. The cluster's components and rooms are therefore machines
  whose events come in any order; any live timer may fire at any moment, and clock readings are
  arguments. What waits on a promise is an entry of the state, and what settles it an output.

  \<^bold>\<open>Not modelled.\<close> Of rooms message handlers and game code's hooks, of the server the
  routing of frames, of matchmaking the look-ups that create nothing; the browser client but for its replicas; schema
  objects that refer to each other (nested fields, collections of schema instances, the reuse of their
  refIds and the receiver's reference counts), which the encoder and decoder walk as graphs; the node's
  queries and forwarding; drivers for stores, backplanes and sockets; code
  generation; test harnesses; logging.
\<close>

section \<open>Inputs of the witnesses\<close>

text \<open>A frame that defines the class \<open>A { x: uint8 }\<close> and sets the root's \<open>x\<close> to 5.\<close>

definition w_ops :: "jsval list" where
  "w_ops = [JArr [nat_val 4, nat_val 0, JStr (js ''A''), JArr [JStr (js ''x'')], JArr [JStr (js ''uint8'')]],
            JArr [nat_val 0, nat_val 0, nat_val 0, nat_val 5]]"

text \<open>A frame that names an object nobody announced.\<close>

definition w_bad_ops :: "jsval list" where
  "w_bad_ops = [JArr [nat_val 0, nat_val 7, nat_val 0, nat_val 5]]"

text \<open>A session with a small scratch buffer.\<close>

definition w_session :: SchemaSession where
  "w_session = \<lparr>stables = new_tables, sout = \<lparr>wbytes = replicate 8 0, wlength = 0\<rparr>\<rparr>"

definition w_frame :: "byte list" where
  "w_frame = [128, 0, 1, 65, 1, 1, 120, 5, 117, 105, 110, 116, 56, 16, 5]"

lemma w_define_clean:
  "define_clean [nat_val 4, nat_val 0, JStr (js ''A''), JArr [JStr (js ''x'')], JArr [JStr (js ''uint8'')]]"
  by code_simp

lemma w_ops_ok: "list_all op_ok w_ops"
  using w_define_clean unfolding w_ops_def
  by (simp add: val_ok_nat string_ok_short MAX_UINT32_def js_def is_lit_nat_val arg_def)

lemma w_bad_ops_ok: "list_all op_ok w_bad_ops"
  unfolding w_bad_ops_def by (simp add: val_ok_nat MAX_UINT32_def is_lit_nat_val arg_def)

lemma w_encode: "fst (encodeOps w_ops w_session) = Inr w_frame"
  by code_simp

lemma w_encode_bad: "isl (fst (encodeOps w_bad_ops w_session))"
  by code_simp

lemma w_decode_bad: "isl (fst (decodeOps [255, 255] w_session))"
  by code_simp

lemma w_session_ok: "tables_ok (stables w_session)" "wbytes (sout w_session) \<noteq> []"
  by (simp_all add: w_session_def new_tables_def tables_ok_def)

lemma w_decode: "fst (decodeOps w_frame w_session) = Inr (seen_ops w_ops (start_encoder w_session))"
  using decodeOps_encodeOps [of w_ops w_session w_frame "snd (encodeOps w_ops w_session)" w_session]
    w_encode w_ops_ok w_session_ok by (auto simp: same_tables_def prod_eq_iff)

lemmas w_inputs_ok = w_ops_ok w_bad_ops_ok w_session_ok

text \<open>A message \<open>{ x: uint8, tag?: string, on: bool }\<close> and a payload of it.\<close>

definition w_def :: messagedef where
  "w_def = MessageDef 0 (js ''Move'') [(js ''x'', FScalar (js ''uint8'')),
     (js ''tag'', FOptional (FScalar (js ''string''))), (js ''on'', FScalar (js ''bool''))]"

definition w_payload :: jsval where
  "w_payload = JObj [(js ''x'', nat_val 5), (js ''tag'', JStr (js ''hi'')), (js ''on'', JBool True)]"

definition w_writer :: bytewriter where
  "w_writer = \<lparr>wbytes = replicate 8 0, wlength = 0\<rparr>"

definition w_room_type :: RoomTypeDef where
  "w_room_type = x_type\<lparr>rt_joinOptions := Some w_def\<rparr>"

lemma w_def_wf: "wf_message w_def"
  by code_simp

lemma w_keys: "let ks = map (wireString \<circ> fst) [(js ''x'', nat_val 5), (js ''tag'', JStr (js ''hi'')), (js ''on'', JBool True)]
  in distinct ks \<and> key_order ks \<and> proto_key \<notin> set ks"
  by code_simp

lemma w_payload_ok: "payload_ok w_payload"
  using w_keys num_ok_int [of 5] unfolding w_payload_def
  by (simp add: Let_def string_ok_short MAX_UINT32_def js_def nat_val_def del: rep.simps)

lemma w_writer_ok: "wbytes w_writer \<noteq> []"
  by (simp add: w_writer_def)

lemma w_message: "fst (encodeMessage w_def w_payload w_writer) = Inr [3, 5, 2, 104, 105]"
  by code_simp

lemma w_options: "fst (encodeOptions w_def w_payload w_writer) = Inr (Some [3, 5, 2, 104, 105])"
  by code_simp

lemma w_encode_frame:
  "encodeFrame (num_of_int 0) [num_of_int 7, num_of_int 300] (Some [9]) = Inr [0, 7, 172, 2, 9]"
  by (subst encodeFrame_bytes) (simp_all add: isHeaderValue_def num_lt_def MAX_VARINT_def varint_bytes.simps)

lemma w_decode_ping:
  "decodeFrame [4, 172, 2, 1, 9] CLIENT_FRAME_HEADERS = Inr \<lparr>ftype = 4, fheader = [300, 1], fbody = [9]\<rparr>"
  using decodeFrame_encodeFrame_bytes [of 4 CLIENT_FRAME_HEADERS "[num_of_int 300, num_of_int 1]" "[9]"]
  by (simp add: CLIENT_FRAME_HEADERS_def isHeaderValue_def MAX_VARINT_def varint_bytes.simps)

lemma w_wire_ops: "list_all (\<lambda>op. isWireOp (JArr op)) (map op_args w_ops)"
  by code_simp

lemma w_ops_args: "map JArr (map op_args w_ops) = w_ops"
  by (simp add: w_ops_def)

text \<open>A MessagePack library that knows the frame \<open>w_ops\<close> and the message \<open>w_payload\<close>, in the bytes of the format.\<close>

definition w_packed :: jsval where
  "w_packed = JArr [nat_val 5, JStr (js ''hi''), JBool True]"

definition w_mp_ops :: mp where
  "w_mp_ops = MArr 0 [MArr 0 [MScalar 4 [], MScalar 0 [], mp.MStr 0 [65], MArr 0 [mp.MStr 0 [120]], MArr 0 [mp.MStr 0 [117, 105, 110, 116, 56]]],
     MArr 0 [MScalar 0 [], MScalar 0 [], MScalar 0 [], MScalar 5 []]]"

definition w_mp_message :: mp where
  "w_mp_message = MArr 0 [MScalar 5 [], mp.MStr 0 [104, 105], MScalar 195 []]"

definition w_encoder :: "jsval \<Rightarrow> byte list option" where
  "w_encoder v = (if v = JArr w_ops then Some (mp_bytes w_mp_ops)
     else if v = w_packed then Some (mp_bytes w_mp_message) else None)"

definition w_decoder :: "byte list \<Rightarrow> jsval option" where
  "w_decoder bs = (if bs = mp_bytes w_mp_ops then Some (JArr w_ops)
     else if bs = mp_bytes w_mp_message then Some w_packed else None)"

lemma w_mp_ok: "mp_ok w_mp_ops" "mp_ok w_mp_message" "mp_bytes w_mp_ops \<noteq> mp_bytes w_mp_message"
  "list_all valid_utf8 (mp_strings w_mp_ops)" "list_all valid_utf8 (mp_strings w_mp_message)"
  by code_simp+

lemma w_law: "msgpack_law w_encoder w_decoder"
  unfolding msgpack_law_def w_encoder_def w_decoder_def using w_mp_ok by (auto split: if_splits)

lemma w_plain: "mp_plain (JArr w_ops)" "wireStrings w_packed = w_packed" "mp_plain w_packed"
  by code_simp+

lemma w_mp_encode: "fst (mp_encodeOps (mp_encode w_encoder) (map op_args w_ops) []) = Inr (mp_bytes w_mp_ops)"
  by code_simp

lemma w_mp_encode_message: "mp_encodeMessage (mp_encode w_encoder) w_def w_payload = Inr (mp_bytes w_mp_message)"
  by code_simp



definition w_map :: MapBase where
  "w_map = \<lparr>mkey = STRING, mval = FLOAT64, mmap = [], mtouched = None, mcleared = False, mtracking = True, mdirty = False\<rparr>"

definition w_set :: SetBase where
  "w_set = \<lparr>scodec = STRING, sset = [], stouched = None, scleared = False, stracking = True, sdirty = False\<rparr>"


definition w_map_ticks :: "MapEdit list list" where
  "w_map_ticks = [[MSet (JStr (js ''a'')) (nat_val 1), MSet (JStr (js ''a'')) (nat_val 2)], [MEmpty, MSet (JStr (js ''b'')) (nat_val 3)]]"

definition w_set_ticks :: "SetEdit list list" where
  "w_set_ticks = [[SAdd (JStr (js ''a'')), SAdd (JStr (js ''b''))], [SDelete (JStr (js ''a''))]]"

section \<open>State sessions\<close>

text \<open>C2: a sender and a receiver that start with equal sessions stay in lockstep over any
  sequence of batches, including batches the encoder refuses: every frame sent is decoded to
  the ops it was made from, as the wire carries them, and the class tables, object targets and
  everything else the two sessions keep agree at the end.\<close>

theorem stream_lockstep:
  assumes "list_all (list_all op_ok) batches" "tables_ok (stables s)" "wbytes (sout s) \<noteq> []"
    "same_tables (stables d) (stables s)"
  shows "case stream batches s d of (out, s', d') \<Rightarrow>
    list_all (\<lambda>(want, got). got = Inr want) out \<and> same_tables (stables d') (stables s')"
  using stream_agrees [OF assms(1,3,2,4)] by (fastforce simp: list_all_iff split: prod.split)

theorem stream_lockstep_witness:
  "case stream [w_ops, w_bad_ops, w_ops] w_session w_session of (out, s', d') \<Rightarrow>
    list_all (\<lambda>(want, got). got = Inr want) out \<and> same_tables (stables d') (stables s')"
  by (rule stream_lockstep) (simp_all add: w_inputs_ok same_tables_def)

text \<open>C6: a frame the encoder produced decodes, in a session whose tables agree with the
  sender's before the frame, to exactly the ops that were encoded (integers unchanged, strings
  as wire strings, floats as their wire type holds them).\<close>

theorem frame_ops_roundtrip:
  assumes "fst (encodeOps ops s) = Inr bytes" "list_all op_ok ops" "wbytes (sout s) \<noteq> []"
    "same_tables (stables d) (stables s)"
  shows "fst (decodeOps bytes d) = Inr (seen_ops ops (start_encoder s))
    \<and> same_tables (stables (snd (decodeOps bytes d))) (stables (snd (encodeOps ops s)))"
  using decodeOps_encodeOps [of ops s bytes "snd (encodeOps ops s)" d] assms
  by (metis fst_conv prod.collapse snd_conv)

theorem frame_ops_roundtrip_witness:
  "fst (decodeOps w_frame w_session) = Inr (seen_ops w_ops (start_encoder w_session))"
  using frame_ops_roundtrip [OF w_encode w_ops_ok w_session_ok(2), of w_session]
  by (simp add: same_tables_def)

text \<open>C8: a batch the encoder refuses leaves the session's tables as they were, so the next
  batch is encoded as if the failed one had never been tried.\<close>

theorem encode_failure_rolls_back:
  assumes "isl (fst (encodeOps ops s))" "tables_ok (stables s)"
  shows "same_tables (stables (snd (encodeOps ops s))) (stables s)"
  using encodeOps_ok(2) [OF assms(2), of ops] assms(1) by (metis isl_def prod.collapse)

theorem encode_failure_rolls_back_witness:
  "same_tables (stables (snd (encodeOps w_bad_ops w_session))) (stables w_session)"
  by (rule encode_failure_rolls_back [OF w_encode_bad w_session_ok(1)])

text \<open>C9: a frame the decoder refuses, whatever its bytes, leaves the receiver's tables as they were.\<close>

theorem decode_failure_rolls_back:
  assumes "isl (fst (decodeOps bytes s))" "tables_ok (stables s)"
  shows "same_tables (stables (snd (decodeOps bytes s))) (stables s)"
  using decodeOps_ok(2) [OF assms(2), of bytes] assms(1) by (metis isl_def prod.collapse)

theorem decode_failure_rolls_back_witness:
  "same_tables (stables (snd (decodeOps [255, 255] w_session))) (stables w_session)"
  by (rule decode_failure_rolls_back [OF w_decode_bad w_session_ok(1)])

text \<open>C10: whatever bytes arrive, the ops a decoder hands on have the shape of the protocol.\<close>

theorem decoded_ops_well_formed:
  assumes "fst (decodeOps bytes s) = Inr ops"
  shows "list_all isWireOp ops"
  using decodeOps_isWireOp [of bytes s ops "snd (decodeOps bytes s)"] assms by (metis prod.collapse)

theorem decoded_ops_well_formed_witness: "list_all isWireOp (seen_ops w_ops (start_encoder w_session))"
  by (rule decoded_ops_well_formed) (rule w_decode)

text \<open>C7: a payload the message encoder accepted decodes to the payload the declaration says the
  receiver gets: absent optionals stay absent, integers are clamped to their kind, fixed-point
  numbers quantised, strings wire strings, and nothing else changes.\<close>

theorem message_roundtrip:
  assumes "fst (encodeMessage def payload out) = Inr bytes" "wf_message def" "payload_ok payload" "wbytes out \<noteq> []"
  shows "decodeMessage def bytes = Inr (JObj (seen_message def payload))"
  using decodeMessage_encodeMessage [of def payload out bytes, OF _ assms(2-4)] assms(1) by (metis prod.collapse)

theorem message_roundtrip_witness:
  "decodeMessage w_def [3, 5, 2, 104, 105] = Inr (JObj (seen_message w_def w_payload))"
  by (rule message_roundtrip [OF w_message w_def_wf w_payload_ok w_writer_ok])

text \<open>C11: options that encode are read as the same value where server code built them, where another
  process packed them, and where a client sent them.
\<close>

theorem options_read_alike:
  assumes "defOf type kind = Some def" "fst (encodeOptions def payload out) = Inr element" "wf_message def" "payload_ok payload" "wbytes out \<noteq> []"
  shows "readServerOptions out type kind (OVal payload) = Inr (OVal (JObj (seen_message def (if isAbsent payload then JObj [] else payload))))
    \<and> packOptions out def kind payload = Inr (orElse element [])
    \<and> readServerOptions out' type kind (OBytes (orElse element [])) = readServerOptions out type kind (OVal payload)
    \<and> readClientOptions type kind (case element of None \<Rightarrow> OVal JNull | Some bs \<Rightarrow> OBytes bs) = readServerOptions out type kind (OVal payload)"
  using encoded_options_read [OF assms(2-5)] assms(1,2)
  by (simp add: readServerOptions_def convertOptions_def packOptions_def readClientOptions_def)

theorem options_read_alike_witness:
  "readServerOptions w_writer w_room_type KJoin (OBytes [3, 5, 2, 104, 105]) = readServerOptions w_writer w_room_type KJoin (OVal w_payload)"
proof -
  have "defOf w_room_type KJoin = Some w_def" by (simp add: defOf_def w_room_type_def)
  from options_read_alike [OF this w_options w_def_wf w_payload_ok w_writer_ok, of w_writer] show ?thesis by (simp add: orElse_def)
qed

text \<open>C36: a frame with a type byte, the header values its type carries and any body decodes to
  that type, those values and that body.\<close>

theorem frame_roundtrip:
  assumes "encodeFrame t header body = Inr bytes" "headerCount (nat_of_num t) = Some (length header)"
  shows "decodeFrame bytes headerCount
    = Inr \<lparr>ftype = nat_of_num t, fheader = map nat_of_num header, fbody = (case body of None \<Rightarrow> [] | Some b \<Rightarrow> b)\<rparr>"
proof -
  have t: "isInteger t" "\<not> num_lt t (JFin 0)" "\<not> num_lt (JFin 255) t" and h: "list_all isHeaderValue header"
    using assms(1) by (auto simp: encodeFrame_def header_size_ok split: if_splits sum.splits)
  from t have "nat_of_num t < 256"
    by (cases rule: isInteger_cases) (auto simp: num_lt_def)
  from decodeFrame_encodeFrame_bytes [where headerCount = headerCount, OF this assms(2) h, of "case body of None \<Rightarrow> [] | Some b \<Rightarrow> b"]
  show ?thesis using assms(1) encodeFrame_bytes [OF t h, of body] by simp
qed

theorem frame_roundtrip_witness:
  "decodeFrame [0, 7, 172, 2, 9] CLIENT_FRAME_HEADERS = Inr \<lparr>ftype = 0, fheader = [7, 300], fbody = [9]\<rparr>"
  using frame_roundtrip [of "num_of_int 0" "[num_of_int 7, num_of_int 300]" "Some [9]" "[0, 7, 172, 2, 9]" CLIENT_FRAME_HEADERS,
      OF w_encode_frame]
  by (simp add: CLIENT_FRAME_HEADERS_def)

text \<open>C37: whatever bytes arrive, a frame that decodes has a known type, as many header values as
  its type carries, each a 32-bit number, and a body that is a suffix of the input.\<close>

theorem decoded_frame_bounds:
  assumes "decodeFrame bytes headerCount = Inr fr"
  shows "headerCount (ftype fr) = Some (length (fheader fr)) \<and> ftype fr < 256
    \<and> list_all (\<lambda>v. v \<le> MAX_VARINT) (fheader fr) \<and> suffix (fbody fr) (tl bytes)"
proof -
  obtain b rest n pos where bytes: "bytes = b # rest" and n: "headerCount (unat b) = Some n"
    and h: "read_header n bytes 1 = Some (fheader fr, pos)"
    and fr: "ftype fr = unat b" "fbody fr = drop pos bytes"
    using assms by (auto simp: decodeFrame_def split: list.splits option.splits)
  have "1 \<le> pos" "length (fheader fr) = n" "list_all (\<lambda>v. v \<le> MAX_VARINT) (fheader fr)"
    using read_header_bound [OF h] by simp_all
  moreover from this(1) have "suffix (fbody fr) (tl bytes)"
    by (cases pos) (auto simp: fr bytes suffix_drop)
  moreover have "unat b < 256" using unsigned_less [of b, where ?'a = nat] by simp
  ultimately show ?thesis using n fr by simp
qed

theorem decoded_frame_bounds_witness:
  "CLIENT_FRAME_HEADERS 4 = Some 2 \<and> list_all (\<lambda>v. v \<le> MAX_VARINT) [300, 1] \<and> suffix [9] [172, 2, 1, 9 :: byte]"
  using decoded_frame_bounds [of "[4, 172, 2, 1, 9]" CLIENT_FRAME_HEADERS
      "\<lparr>ftype = 4, fheader = [300, 1], fbody = [9]\<rparr>"]
  unfolding w_decode_ping by simp

text \<open>C38: encoding fails exactly when the type is no byte or a header value no 32-bit number,
  and then with \<open>ENCODE_FAILED\<close>.\<close>

theorem encodeFrame_error_iff:
  "(\<exists>e. encodeFrame t header body = Inl e \<and> code_of e = ENCODE_FAILED) \<longleftrightarrow>
     \<not> (isInteger t \<and> num_le (JFin 0) t \<and> num_le t (JFin 255) \<and> list_all isHeaderValue header)"
proof (cases "isInteger t \<and> num_le (JFin 0) t \<and> num_le t (JFin 255)")
  case True
  then have t: "isInteger t" "\<not> num_lt t (JFin 0)" "\<not> num_lt (JFin 255) t" by (auto simp: num_lt_def)
  show ?thesis
  proof (cases "list_all isHeaderValue header")
    case h: True
    then show ?thesis using True encodeFrame_bytes [OF t h, of body] by simp
  next
    case False
    then obtain v where "header_size header (1 + (case body of None \<Rightarrow> 0 | Some b \<Rightarrow> length b))
        = Inl (SerializerError ENCODE_FAILED (Msg ''bad header value {}'' [JNum v]))"
      using header_size_err by blast
    then show ?thesis using False t by (simp add: encodeFrame_def)
  qed
next
  case False
  then have "\<not> isInteger t \<or> num_lt t (JFin 0) \<or> num_lt (JFin 255) t"
    by (cases t) (auto simp: num_lt_def)
  then show ?thesis using False by (auto simp: encodeFrame_def)
qed

section \<open>Field types and class tables\<close>

text \<open>C39: the parser of field-type strings and the printer of parsed types are inverse: a string
  parses to a type exactly when the type is well formed and prints as that string, so the grammar
  has one spelling per type.\<close>

theorem field_type_grammar: "parseFieldType s = Some p \<longleftrightarrow> parsed_ok p \<and> showFieldType p = s"
  using parse_showFieldType parseFieldType_SomeD by blast

text \<open>Applying the definitions of a frame, even one that fails half way, only ever appends to
  the class table, keeps its ids dense and never changes an entry.\<close>

lemma class_table_append_only:
  assumes "table_ok t" "list_all (\<lambda>op. isWireOp (JArr op)) ops"
  shows "table_ok (snd (applyDefines ops t)) \<and> prefix t (snd (applyDefines ops t))"
  using assms applyDefines_prefix [of ops t] applyDefines_ok [of t ops] by (cases "applyDefines ops t") (auto simp: prefix_def)

text \<open>C40: in the MessagePack format, with any library that keeps the format's plain values, a frame the
  sender's session accepted is accepted by a receiver whose table agrees, yields the same ops and
  leaves both tables equal.\<close>

theorem messagepack_session_roundtrip:
  assumes "msgpack_law encoder decoder" "fst (mp_encodeOps (mp_encode encoder) ops t) = Inr bytes"
    "list_all (\<lambda>op. isWireOp (JArr op)) ops" "mp_plain (JArr (map JArr ops))"
  shows "mp_decodeOps (mp_decode decoder) bytes t = (Inr (map JArr ops), snd (mp_encodeOps (mp_encode encoder) ops t))"
proof -
  have e: "mp_encodeOps (mp_encode encoder) ops t = (Inr bytes, snd (mp_encodeOps (mp_encode encoder) ops t))"
    using assms(2) by (metis prod.collapse)
  from e have "mp_encode encoder (JArr (map JArr ops)) = Inr bytes"
    by (auto simp: mp_encodeOps_def split: if_splits prod.splits option.splits)
  then have "mp_decode decoder bytes = Inr (JArr (map JArr ops))"
    using mp_decode_plain [OF assms(1)] assms(4) wireStrings_plain [OF assms(4)] by metis
  with mp_decode_encode [OF e assms(3)] show ?thesis by blast
qed

theorem messagepack_session_roundtrip_witness:
  "mp_decodeOps (mp_decode w_decoder) (mp_bytes w_mp_ops) []
    = (Inr (map JArr (map op_args w_ops)), snd (mp_encodeOps (mp_encode w_encoder) (map op_args w_ops) []))"
  by (rule messagepack_session_roundtrip [OF w_law w_mp_encode w_wire_ops]) (simp only: w_ops_args w_plain)

text \<open>A contract message sent in the MessagePack format arrives as the payload its declaration promises,
  positions, trimmed optionals and string clean-up included.\<close>

lemma messagepack_message_roundtrip:
  assumes "msgpack_law encoder decoder" "mp_encodeMessage (mp_encode encoder) def payload = Inr bytes"
    "wf_message def" "payload_ok payload" "\<And>ws. packAny def payload = Inr ws \<Longrightarrow> mp_plain (wireStrings (JArr ws))"
  shows "mp_decodeMessage (mp_decode decoder) def bytes = Inr (JObj (seen_message def payload))"
  by (rule mp_message_decodes [OF assms])



text \<open>C35: on any value of the MessagePack format, whatever follows it, the walk over the bytes before
  decoding accepts exactly when every string of the value, however deep, is valid UTF-8.\<close>

theorem string_check_exact:
  assumes "mp_ok v"
  shows "stringsAreUtf8 (mp_bytes v @ rest) \<longleftrightarrow> list_all (\<lambda>s. decodeUtf8 s \<noteq> None) (mp_strings v)"
  by (rule stringsAreUtf8_format [OF assms])

theorem string_check_exact_witness: "stringsAreUtf8 (mp_bytes w_mp_ops @ [255])"
  using string_check_exact [OF w_mp_ok(1), of "[255]"] w_mp_ok(4) by blast

section \<open>State sync\<close>



text \<open>C16: likewise for a map, whose writes are coalesced per key: after each tick the replica has the same
  keys, and under each the value clients are meant to see.\<close>

theorem map_replica_converges:
  assumes "map_typed m" "mtracking m" "\<not> mdirty m" "touched_of m = []" "\<not> mcleared m" "mkey r = mkey m" "mval r = mval m"
    "\<And>k. map_of (mmap r) k = map_option (element.seen (mval m)) (map_of (mmap m) k)" "list_all (list_all (map_legal m)) ticks"
  shows "\<exists>m' r'. sync_run map_edit (map_tick_ops ref) map_commit ticks m (TMap r) = (None, m', TMap r')
    \<and> (\<forall>k. map_of (mmap r') k = map_option (element.seen (mval m')) (map_of (mmap m') k))"
proof -
  have "map_synced m (TMap r)" using assms(1-8) by simp
  from map.run_converges [OF this assms(9), of ref] obtain m' t
    where t: "sync_run map_edit (map_tick_ops ref) map_commit ticks m (TMap r) = (None, m', t)" "map_synced m' t" by blast
  then show ?thesis by (cases t) auto
qed

theorem map_replica_converges_witness:
  "\<exists>m' r'. sync_run map_edit (map_tick_ops 1) map_commit w_map_ticks w_map (TMap w_map) = (None, m', TMap r')
    \<and> (\<forall>k. map_of (mmap r') k = map_option (element.seen (mval m')) (map_of (mmap m') k))"
  by (rule map_replica_converges) (simp_all add: w_map_def w_map_ticks_def map_typed_def touched_of_def nat_val_def)

text \<open>C17: likewise for a set.\<close>

theorem set_replica_converges:
  assumes "set_typed s" "stracking s" "\<not> sdirty s" "stouched_of s = []" "\<not> scleared s" "scodec r = scodec s"
    "set (sset r) = set (sset s)" "list_all (list_all (set_legal s)) ticks"
  shows "\<exists>s' r'. sync_run set_edit (set_tick_ops ref) set_commit ticks s (TSet r) = (None, s', TSet r')
    \<and> set (sset r') = set (sset s')"
proof -
  have "set_synced s (TSet r)" using assms(1-7) by simp
  from set.run_converges [OF this assms(8), of ref] obtain s' t
    where t: "sync_run set_edit (set_tick_ops ref) set_commit ticks s (TSet r) = (None, s', t)" "set_synced s' t" by blast
  then show ?thesis by (cases t) auto
qed

theorem set_replica_converges_witness:
  "\<exists>s' r'. sync_run set_edit (set_tick_ops 1) set_commit w_set_ticks w_set (TSet w_set) = (None, s', TSet r')
    \<and> set (sset r') = set (sset s')"
  by (rule set_replica_converges) (simp_all add: w_set_def w_set_ticks_def set_typed_def stouched_of_def)

section \<open>Numbers and text\<close>

text \<open>Quantising to 0 to 9 decimals is idempotent in binary64 arithmetic, rounding of both the
  division and the multiplication included, and the scaled integer is always a 32-bit one.\<close>

lemma quantizeFixed_stable:
  assumes "d \<le> 9"
  shows "quantizeFixed (quantizeFixed x d) d = quantizeFixed x d
    \<and> toFixed (quantizeFixed x d) d = toFixed x d"
  using quantizeFixed_idem [OF assms] toFixed_range [of x d] toFixed_fromFixed [OF _ _ assms]
  by (auto simp: quantizeFixed_def)

text \<open>A string written and read back is the string with every lone surrogate and U+0000
  replaced by U+FFFD; replacing keeps the length and changes nothing the second time.\<close>

lemma wire_string_roundtrip:
  "decodeUtf8 (utf8_encode (wireString s)) = Some (wireString s)
   \<and> wireString (wireString s) = wireString s \<and> length (wireString s) = length s
   \<and> length (utf8_encode (wireString s)) \<le> 3 * length s"
  using length_utf8_encode [of "wireString s"] by (simp add: decodeUtf8_encode)

end
